(* ===== verification/Prelude.thy ===== *)
theory Prelude
  imports Main "HOL-Library.Word" "HOL-Library.Product_Lexorder" "HOL-Library.Multiset"
    "HOL-Library.Signed_Division"
begin

text \<open>
  Shared vocabulary of the development: Rust's machine integers as words, the ordering type
  and its combinators, and the standard collections the sources use (\<open>BinaryHeap\<close>,
  \<open>BTreeSet\<close>), each with the interface the client components rely on as a locale.
\<close>

type_synonym u8 = "8 word"
type_synonym u16 = "16 word"
type_synonym u32 = "32 word"
type_synonym u64 = "64 word"
type_synonym i32 = "32 word"
type_synonym i64 = "64 word"

named_theorems bit_pack \<open>masks of packed encodings in terms of \<open>mask\<close>\<close>

section \<open>Orderings\<close>

datatype Ordering = Less | Equal | Greater

definition cmp :: "'a::linorder \<Rightarrow> 'a \<Rightarrow> Ordering" where
  "cmp a b = (if a < b then Less else if a = b then Equal else Greater)"

fun then_with :: "Ordering \<Rightarrow> Ordering \<Rightarrow> Ordering" where
  "then_with Equal c = c"
| "then_with c _ = c"

fun reverse :: "Ordering \<Rightarrow> Ordering" where
  "reverse Less = Greater"
| "reverse Equal = Equal"
| "reverse Greater = Less"

text \<open>Chained comparisons compare lexicographically.\<close>

lemma then_with_cmp [simp]: "then_with (cmp a b) (cmp c d) = cmp (a, c) (b, d)"
  by (auto simp: cmp_def less_prod_def')

lemma reverse_cmp [simp]: "reverse (cmp a b) = cmp b a"
  by (auto simp: cmp_def)

lemma cmp_iff [simp]:
  "cmp a b = Less \<longleftrightarrow> a < b" "cmp a b = Equal \<longleftrightarrow> a = b" "cmp a b = Greater \<longleftrightarrow> b < a"
  by (auto simp: cmp_def)

section \<open>Binary heaps\<close>

text \<open>
  \<open>std::collections::BinaryHeap\<close>: a bag whose \<open>peek\<close> and \<open>pop\<close> deliver a greatest
  element of the type's \<open>Ord\<close>. It is modelled by the list of its elements in pop order.
\<close>

fun heap_push :: "('a \<Rightarrow> 'a \<Rightarrow> Ordering) \<Rightarrow> 'a \<Rightarrow> 'a list \<Rightarrow> 'a list" where
  "heap_push c x [] = [x]"
| "heap_push c x (y # ys) = (if c x y = Less then y # heap_push c x ys else x # y # ys)"

fun heap_peek :: "'a list \<Rightarrow> 'a option" where
  "heap_peek [] = None"
| "heap_peek (x # xs) = Some x"

fun heap_pop :: "'a list \<Rightarrow> ('a \<times> 'a list) option" where
  "heap_pop [] = None"
| "heap_pop (x # xs) = Some (x, xs)"

text \<open>
  The contract of a queue that always delivers an element of least key. A heap whose \<open>Ord\<close>
  reverses the key order provides it.
\<close>

locale drain_queue =
  fixes key :: "'a \<Rightarrow> 'k::linorder"
    and push :: "'a \<Rightarrow> 'h \<Rightarrow> 'h"
    and peek :: "'h \<Rightarrow> 'a option"
    and pop :: "'h \<Rightarrow> ('a \<times> 'h) option"
    and content :: "'h \<Rightarrow> 'a multiset"
    and inv :: "'h \<Rightarrow> bool"
  assumes content_push: "content (push x h) = add_mset x (content h)"
    and inv_push: "inv h \<Longrightarrow> inv (push x h)"
    and peek_None: "peek h = None \<longleftrightarrow> content h = {#}"
    and peek_least: "inv h \<Longrightarrow> peek h = Some x \<Longrightarrow> y \<in># content h \<Longrightarrow> key x \<le> key y"
    and pop_None: "pop h = None \<longleftrightarrow> content h = {#}"
    and pop_Some: "pop h = Some (x, h') \<Longrightarrow> peek h = Some x \<and> content h = add_mset x (content h')"
    and inv_pop: "inv h \<Longrightarrow> pop h = Some (x, h') \<Longrightarrow> inv h'"
begin

lemma peek_mem: "peek h = Some x \<Longrightarrow> x \<in># content h"
proof -
  assume p: "peek h = Some x"
  then have "content h \<noteq> {#}" using peek_None by force
  then obtain y h' where "pop h = Some (y, h')" using pop_None by fastforce
  with pop_Some p show ?thesis by force
qed

lemma pop_least: "inv h \<Longrightarrow> pop h = Some (x, h') \<Longrightarrow> y \<in># content h' \<Longrightarrow> key x \<le> key y"
  using pop_Some peek_least by (metis union_iff add_mset_add_single)

lemma pops_ascend:
  "inv h \<Longrightarrow> pop h = Some (x, h') \<Longrightarrow> pop h' = Some (y, h'') \<Longrightarrow> key x \<le> key y"
  using pop_least pop_Some peek_mem by blast

lemma peek_push_cases:
  "inv h \<Longrightarrow> peek (push x h) = Some z \<Longrightarrow> z = x \<or> z \<in># content h"
  using peek_mem [of "push x h" z] by (auto simp: content_push)

end

lemma heap_push_insort:
  assumes "\<And>a b. c a b = cmp (key b) (key a)"
  shows "heap_push c x h = insort_key key x h"
  by (induction h) (auto simp: assms not_less)

lemma heap_drain_queue:
  assumes c: "\<And>a b. c a b = cmp (key b) (key a)"
  shows "drain_queue key (heap_push c) heap_peek heap_pop mset (\<lambda>h. sorted (map key h))"
  unfolding drain_queue_def heap_push_insort [OF c]
  by (auto elim!: heap_peek.elims heap_pop.elims simp: sorted_insort_key)

section \<open>Ordered sets\<close>

text \<open>
  \<open>std::collections::BTreeSet\<close> as the ascending list of its elements; \<open>insert\<close> and
  \<open>remove\<close> also return whether the set changed.
\<close>

definition btree_insert :: "'a::linorder \<Rightarrow> 'a list \<Rightarrow> bool \<times> 'a list" where
  "btree_insert x s = (if x \<in> set s then (False, s) else (True, insort x s))"

definition btree_remove :: "'a::linorder \<Rightarrow> 'a list \<Rightarrow> bool \<times> 'a list" where
  "btree_remove x s = (if x \<in> set s then (True, remove1 x s) else (False, s))"

fun btree_pop_first :: "'a list \<Rightarrow> ('a \<times> 'a list) option" where
  "btree_pop_first [] = None"
| "btree_pop_first (x # xs) = Some (x, xs)"

definition btree_wf :: "'a::linorder list \<Rightarrow> bool" where
  "btree_wf s \<longleftrightarrow> sorted s \<and> distinct s"

locale ordered_set =
  fixes ins :: "'a::linorder \<Rightarrow> 's \<Rightarrow> bool \<times> 's"
    and del :: "'a \<Rightarrow> 's \<Rightarrow> bool \<times> 's"
    and pop_first :: "'s \<Rightarrow> ('a \<times> 's) option"
    and members :: "'s \<Rightarrow> 'a set"
    and inv :: "'s \<Rightarrow> bool"
  assumes ins_changed: "fst (ins x s) \<longleftrightarrow> x \<notin> members s"
    and ins_members: "members (snd (ins x s)) = insert x (members s)"
    and ins_inv: "inv s \<Longrightarrow> inv (snd (ins x s))"
    and del_changed: "fst (del x s) \<longleftrightarrow> x \<in> members s"
    and del_members: "inv s \<Longrightarrow> members (snd (del x s)) = members s - {x}"
    and del_inv: "inv s \<Longrightarrow> inv (snd (del x s))"
    and pop_first_None: "pop_first s = None \<longleftrightarrow> members s = {}"
    and pop_first_members: "inv s \<Longrightarrow> pop_first s = Some (x, s') \<Longrightarrow>
      x \<in> members s \<and> members s' = members s - {x} \<and> inv s'"
    and pop_first_least: "inv s \<Longrightarrow> pop_first s = Some (x, s') \<Longrightarrow> y \<in> members s' \<Longrightarrow> x < y"
begin

lemma del_ins: "inv s \<Longrightarrow> x \<notin> members s \<Longrightarrow> members (snd (del x (snd (ins x s)))) = members s"
  using ins_inv ins_members del_members by simp

end

interpretation btree: ordered_set btree_insert btree_remove btree_pop_first set btree_wf
proof
  fix x y :: 'a and s s' :: "'a list"
  show "btree_wf (snd (btree_insert x s))" if "btree_wf s"
    using that by (auto simp: btree_insert_def btree_wf_def sorted_insort distinct_insort)
  show "btree_wf (snd (btree_remove x s))" if "btree_wf s"
    using that by (auto simp: btree_remove_def btree_wf_def sorted_remove1)
  show "x \<in> set s \<and> set s' = set s - {x} \<and> btree_wf s'"
    if "btree_wf s" "btree_pop_first s = Some (x, s')"
    using that by (auto elim!: btree_pop_first.elims simp: btree_wf_def)
  show "x < y" if "btree_wf s" "btree_pop_first s = Some (x, s')" "y \<in> set s'"
    using that by (auto elim!: btree_pop_first.elims simp: btree_wf_def order.strict_iff_order)
  show "btree_pop_first s = None \<longleftrightarrow> set s = {}" by (cases s) auto
qed (auto simp: btree_insert_def btree_remove_def btree_wf_def set_insort_key split: if_splits)

end
