(* ===== verification/Positions.thy ===== *)
theory Positions
  imports Prelude
begin

unbundle bit_operations_syntax

text \<open>
  Chunk, block and section positions, directions and the packed encodings
  (steel-utils/src/types/position.rs, packed_position.rs, direction.rs). Coordinates are
  32-bit words; additions wrap as in a release build.
\<close>

section \<open>Directions and axes\<close>

datatype Axis = AxisX | AxisY | AxisZ

datatype Direction = Down | Up | North | South | West | East

fun get_3d_data_value :: "Direction \<Rightarrow> i32" where
  "get_3d_data_value Down = 0"
| "get_3d_data_value Up = 1"
| "get_3d_data_value North = 2"
| "get_3d_data_value South = 3"
| "get_3d_data_value West = 4"
| "get_3d_data_value East = 5"

definition direction_all :: "Direction list" where
  "direction_all = [Down, Up, North, South, West, East]"

text \<open>Rust's remainder truncates towards zero, then its absolute value indexes the array.\<close>

definition from_3d_data_value :: "i32 \<Rightarrow> Direction" where
  "from_3d_data_value d =
     (let rem = sint d smod 6;
          idx = (if rem < 0 then nat (- rem) else nat rem)
      in direction_all ! idx)"

fun direction_offset :: "Direction \<Rightarrow> i32 \<times> i32 \<times> i32" where
  "direction_offset Down = (0, -1, 0)"
| "direction_offset Up = (0, 1, 0)"
| "direction_offset North = (0, 0, -1)"
| "direction_offset South = (0, 0, 1)"
| "direction_offset West = (-1, 0, 0)"
| "direction_offset East = (1, 0, 0)"

fun get_axis :: "Direction \<Rightarrow> Axis" where
  "get_axis Down = AxisY"
| "get_axis Up = AxisY"
| "get_axis North = AxisZ"
| "get_axis South = AxisZ"
| "get_axis West = AxisX"
| "get_axis East = AxisX"

fun opposite :: "Direction \<Rightarrow> Direction" where
  "opposite Down = Up"
| "opposite Up = Down"
| "opposite North = South"
| "opposite South = North"
| "opposite West = East"
| "opposite East = West"

fun positive_for_axis :: "Axis \<Rightarrow> Direction" where
  "positive_for_axis AxisX = East"
| "positive_for_axis AxisY = Up"
| "positive_for_axis AxisZ = South"

fun rotate_y_clockwise :: "Direction \<Rightarrow> Direction" where
  "rotate_y_clockwise North = East"
| "rotate_y_clockwise East = South"
| "rotate_y_clockwise South = West"
| "rotate_y_clockwise West = North"
| "rotate_y_clockwise d = d"

fun rotate_y_counter_clockwise :: "Direction \<Rightarrow> Direction" where
  "rotate_y_counter_clockwise North = West"
| "rotate_y_counter_clockwise West = South"
| "rotate_y_counter_clockwise South = East"
| "rotate_y_counter_clockwise East = North"
| "rotate_y_counter_clockwise d = d"

section \<open>Positions\<close>

datatype BlockPos = BlockPos (block_x: i32) (block_y: i32) (block_z: i32)

datatype ChunkPos = ChunkPos (chunk_x: i32) (chunk_z: i32)

datatype SectionPos = SectionPos (section_x: i32) (section_y: i32) (section_z: i32)

definition offset :: "BlockPos \<Rightarrow> i32 \<Rightarrow> i32 \<Rightarrow> i32 \<Rightarrow> BlockPos" where
  "offset p dx dy dz = BlockPos (block_x p + dx) (block_y p + dy) (block_z p + dz)"

definition relative :: "BlockPos \<Rightarrow> Direction \<Rightarrow> BlockPos" where
  "relative p d = (case direction_offset d of (dx, dy, dz) \<Rightarrow> offset p dx dy dz)"

definition relative_n :: "BlockPos \<Rightarrow> Direction \<Rightarrow> i32 \<Rightarrow> BlockPos" where
  "relative_n p d n =
     (if n = 0 then p
      else case direction_offset d of (dx, dy, dz) \<Rightarrow> offset p (dx * n) (dy * n) (dz * n))"

definition relative_axis :: "BlockPos \<Rightarrow> Axis \<Rightarrow> i32 \<Rightarrow> BlockPos" where
  "relative_axis p a n =
     (if n = 0 then p
      else case a of AxisX \<Rightarrow> offset p n 0 0 | AxisY \<Rightarrow> offset p 0 n 0 | AxisZ \<Rightarrow> offset p 0 0 n)"

definition multiply :: "BlockPos \<Rightarrow> i32 \<Rightarrow> BlockPos" where
  "multiply p factor =
     (if factor = 1 then p
      else if factor = 0 then BlockPos 0 0 0
      else BlockPos (block_x p * factor) (block_y p * factor) (block_z p * factor))"

definition java_hash_code :: "BlockPos \<Rightarrow> i32" where
  "java_hash_code p = (block_y p + block_z p * 31) * 31 + block_x p"

definition block_to_section_coord :: "i32 \<Rightarrow> i32" where
  "block_to_section_coord c = signed_drop_bit 4 c"

definition chunk_from_block_pos :: "BlockPos \<Rightarrow> ChunkPos" where
  "chunk_from_block_pos p =
     ChunkPos (block_to_section_coord (block_x p)) (block_to_section_coord (block_z p))"

definition section_from_block_pos :: "BlockPos \<Rightarrow> SectionPos" where
  "section_from_block_pos p =
     SectionPos (block_to_section_coord (block_x p)) (block_to_section_coord (block_y p))
       (block_to_section_coord (block_z p))"

definition chunk_offsets :: "(i32 \<times> i32) list" where
  "chunk_offsets = [(-1, -1), (0, -1), (1, -1), (-1, 0), (1, 0), (-1, 1), (0, 1), (1, 1)]"

definition neighbors :: "ChunkPos \<Rightarrow> ChunkPos list" where
  "neighbors p = map (\<lambda>(dx, dy). ChunkPos (chunk_x p + dx) (chunk_z p + dy)) chunk_offsets"

definition MAX_HORIZONTAL_COORDINATE :: i32 where
  "MAX_HORIZONTAL_COORDINATE = push_bit 26 1 div 2 - 1"

definition MAX_COORDINATE_VALUE :: i32 where
  "MAX_COORDINATE_VALUE =
     block_to_section_coord MAX_HORIZONTAL_COORDINATE - (32 + 12 + 1) * 2"

text \<open>\<open>i32::abs\<close> wraps at the least value, as in a release build.\<close>

definition i32_abs :: "i32 \<Rightarrow> i32" where
  "i32_abs v = (if sint v < 0 then - v else v)"

definition is_valid :: "i32 \<Rightarrow> i32 \<Rightarrow> bool" where
  "is_valid x z \<longleftrightarrow> max (sint (i32_abs x)) (sint (i32_abs z)) \<le> sint MAX_COORDINATE_VALUE"

section \<open>Packed encodings\<close>

definition pack_chunk_pos :: "ChunkPos \<Rightarrow> i64" where
  "pack_chunk_pos p =
     (scast (chunk_x p) AND 0xFFFFFFFF) OR push_bit 32 (scast (chunk_z p) AND 0xFFFFFFFF)"

definition to_chunk_pos :: "i64 \<Rightarrow> ChunkPos" where
  "to_chunk_pos raw =
     ChunkPos (ucast (raw AND 0xFFFFFFFF)) (ucast (signed_drop_bit 32 raw))"

definition sign_extend_field :: "nat \<Rightarrow> i64 \<Rightarrow> i64" where
  "sign_extend_field bits v = signed_drop_bit (64 - bits) (push_bit (64 - bits) v)"

definition pack_block_pos :: "BlockPos \<Rightarrow> i64" where
  "pack_block_pos p =
     push_bit 38 (scast (block_x p) AND (push_bit 26 1 - 1)) OR
     push_bit 12 (scast (block_z p) AND (push_bit 26 1 - 1)) OR
     (scast (block_y p) AND (push_bit 12 1 - 1))"

definition to_block_pos :: "i64 \<Rightarrow> BlockPos" where
  "to_block_pos raw =
     (let x = signed_drop_bit 38 raw;
          y = raw AND (push_bit 12 1 - 1);
          z = signed_drop_bit 12 raw AND (push_bit 26 1 - 1)
      in BlockPos (ucast (sign_extend_field 26 x)) (ucast (sign_extend_field 12 y))
           (ucast (sign_extend_field 26 z)))"

definition pack_section_pos :: "SectionPos \<Rightarrow> i64" where
  "pack_section_pos p =
     push_bit 42 (scast (section_x p) AND (push_bit 22 1 - 1)) OR
     push_bit 20 (scast (section_z p) AND (push_bit 22 1 - 1)) OR
     (scast (section_y p) AND (push_bit 20 1 - 1))"

definition to_section_pos :: "i64 \<Rightarrow> SectionPos" where
  "to_section_pos raw =
     (let x = signed_drop_bit 42 raw;
          z = signed_drop_bit 20 raw AND (push_bit 22 1 - 1);
          y = raw AND (push_bit 20 1 - 1)
      in SectionPos (ucast (sign_extend_field 22 x)) (ucast (sign_extend_field 20 y))
           (ucast (sign_extend_field 22 z)))"

definition section_block_from_local_unchecked :: "u8 \<Rightarrow> u8 \<Rightarrow> u8 \<Rightarrow> u16" where
  "section_block_from_local_unchecked x y z = push_bit 8 (ucast x) OR push_bit 4 (ucast z) OR ucast y"

definition section_block_from_block_pos :: "BlockPos \<Rightarrow> u16" where
  "section_block_from_block_pos p =
     section_block_from_local_unchecked (ucast (block_x p AND 15)) (ucast (block_y p AND 15))
       (ucast (block_z p AND 15))"

definition section_block_from_local_xyz :: "u8 \<Rightarrow> u8 \<Rightarrow> u8 \<Rightarrow> u16 option" where
  "section_block_from_local_xyz x y z =
     (if x < 16 \<and> y < 16 \<and> z < 16 then Some (section_block_from_local_unchecked x y z) else None)"

definition section_block_from_raw :: "u16 \<Rightarrow> u16 option" where
  "section_block_from_raw raw = (if raw AND NOT 0x0FFF = 0 then Some raw else None)"

definition section_block_x :: "u16 \<Rightarrow> u8" where
  "section_block_x r = ucast (drop_bit 8 r AND 0x0F)"

definition section_block_y :: "u16 \<Rightarrow> u8" where
  "section_block_y r = ucast (r AND 0x0F)"

definition section_block_z :: "u16 \<Rightarrow> u8" where
  "section_block_z r = ucast (drop_bit 4 r AND 0x0F)"

definition relative_to_block_pos :: "SectionPos \<Rightarrow> u16 \<Rightarrow> BlockPos" where
  "relative_to_block_pos s r =
     BlockPos (push_bit 4 (section_x s) + ucast (section_block_x r))
       (push_bit 4 (section_y s) + ucast (section_block_y r))
       (push_bit 4 (section_z s) + ucast (section_block_z r))"

definition chunk_local_from_local_xz :: "u8 \<Rightarrow> u8 \<Rightarrow> u8 option" where
  "chunk_local_from_local_xz x z = (if x < 16 \<and> z < 16 then Some (push_bit 4 x OR z) else None)"

definition chunk_local_x :: "u8 \<Rightarrow> u8" where
  "chunk_local_x r = drop_bit 4 r AND 0x0F"

definition chunk_local_z :: "u8 \<Rightarrow> u8" where
  "chunk_local_z r = r AND 0x0F"

section \<open>Bit patterns\<close>

lemma mask_numerals [bit_pack]:
  "(0xFFFFFFFF :: 64 word) = mask 32" "(push_bit 26 1 - 1 :: 64 word) = mask 26"
  "(push_bit 12 1 - 1 :: 64 word) = mask 12" "(push_bit 22 1 - 1 :: 64 word) = mask 22"
  "(push_bit 20 1 - 1 :: 64 word) = mask 20" "(15 :: 32 word) = mask 4" "(0x0F :: 16 word) = mask 4"
  "(0x0FFF :: 16 word) = mask 12" "(0x0F :: 8 word) = mask 4"
  by (simp_all add: mask_eq_exp_minus_1 push_bit_eq_mult)

lemma to_pack_chunk_pos: "to_chunk_pos (pack_chunk_pos p) = p"
  by (cases p) (auto simp: to_chunk_pos_def pack_chunk_pos_def bit_pack bit_simps intro!: bit_word_eqI)

lemma pack_to_chunk_pos: "pack_chunk_pos (to_chunk_pos raw) = raw"
proof (rule bit_word_eqI)
  fix n assume "n < LENGTH(64)"
  then show "bit (pack_chunk_pos (to_chunk_pos raw)) n \<longleftrightarrow> bit raw n"
    by (cases "n < 32") (auto simp: to_chunk_pos_def pack_chunk_pos_def bit_pack bit_simps)
qed

lemma bit_field_put: "bit (push_bit k (v AND mask w) :: i64) n \<longleftrightarrow> k \<le> n \<and> n < 64 \<and> n < k + w \<and> bit v (n - k)"
  by (auto simp: bit_simps)

lemma bit_field_low: "bit (v AND mask w :: i64) n \<longleftrightarrow> n < 64 \<and> n < w \<and> bit v n"
  by (auto simp: bit_simps dest: bit_imp_le_length)

lemma bit_field_get: "k + w \<le> 64 \<Longrightarrow> bit (signed_drop_bit k raw AND mask w :: i64) n \<longleftrightarrow> n < w \<and> bit raw (k + n)"
  by (auto simp: bit_simps)

lemma bit_scast_i64: "bit (scast (x :: i32) :: i64) n \<longleftrightarrow> n < 64 \<and> bit x (min n 31)"
  by (auto simp: bit_simps min_def)

lemma bit_sign_extend_field:
  assumes "0 < bits" "bits \<le> 64"
  shows "bit (sign_extend_field bits v) n \<longleftrightarrow> n < 64 \<and> bit v (min n (bits - 1))"
  using assms by (auto simp: sign_extend_field_def bit_simps min_def)

lemmas bit_fields = bit_or_iff bit_field_put bit_field_low bit_scast_i64

lemma bit_pack_block_pos:
  "bit (pack_block_pos p) n \<longleftrightarrow>
     n < 64 \<and> (if n < 12 then bit (block_y p) n
               else if n < 38 then bit (block_z p) (n - 12) else bit (block_x p) (n - 38))"
  unfolding pack_block_pos_def bit_pack bit_fields by (auto simp: min_def)

lemma bit_pack_section_pos:
  "bit (pack_section_pos p) n \<longleftrightarrow>
     n < 64 \<and> (if n < 20 then bit (section_y p) n
               else if n < 42 then bit (section_z p) (n - 20) else bit (section_x p) (n - 42))"
  unfolding pack_section_pos_def bit_pack bit_fields by (auto simp: min_def)

lemma bit_to_block_pos:
  "bit (block_x (to_block_pos raw)) n \<longleftrightarrow> n < 32 \<and> bit raw (38 + min n 25)"
  "bit (block_y (to_block_pos raw)) n \<longleftrightarrow> n < 32 \<and> bit raw (min n 11)"
  "bit (block_z (to_block_pos raw)) n \<longleftrightarrow> n < 32 \<and> bit raw (12 + min n 25)"
  unfolding to_block_pos_def Let_def BlockPos.sel bit_pack
  by (auto simp: bit_unsigned_iff bit_sign_extend_field bit_field_get bit_field_low bit_signed_drop_bit_iff min_def)

lemma bit_to_section_pos:
  "bit (section_x (to_section_pos raw)) n \<longleftrightarrow> n < 32 \<and> bit raw (42 + min n 21)"
  "bit (section_y (to_section_pos raw)) n \<longleftrightarrow> n < 32 \<and> bit raw (min n 19)"
  "bit (section_z (to_section_pos raw)) n \<longleftrightarrow> n < 32 \<and> bit raw (20 + min n 21)"
  unfolding to_section_pos_def Let_def SectionPos.sel bit_pack
  by (auto simp: bit_unsigned_iff bit_sign_extend_field bit_field_get bit_field_low bit_signed_drop_bit_iff min_def)

lemma to_pack_block_pos:
  "to_block_pos (pack_block_pos p) =
     BlockPos (signed_take_bit 25 (block_x p)) (signed_take_bit 11 (block_y p))
       (signed_take_bit 25 (block_z p))"
  by (rule BlockPos.expand)
    (auto simp: bit_to_block_pos bit_pack_block_pos bit_signed_take_bit_iff min_less_iff_disj min.commute
      intro!: bit_word_eqI)

lemma pack_to_block_pos: "pack_block_pos (to_block_pos raw) = raw"
  by (rule bit_word_eqI) (auto simp: bit_pack_block_pos bit_to_block_pos min_def)

lemma to_pack_section_pos:
  "to_section_pos (pack_section_pos p) =
     SectionPos (signed_take_bit 21 (section_x p)) (signed_take_bit 19 (section_y p))
       (signed_take_bit 21 (section_z p))"
  by (rule SectionPos.expand)
    (auto simp: bit_to_section_pos bit_pack_section_pos bit_signed_take_bit_iff min_less_iff_disj min.commute
      intro!: bit_word_eqI)

lemma pack_to_section_pos: "pack_section_pos (to_section_pos raw) = raw"
  by (rule bit_word_eqI) (auto simp: bit_pack_section_pos bit_to_section_pos min_def)

lemma section_block_coords:
  "section_block_x (section_block_from_block_pos p) = ucast (block_x p AND 15)"
  "section_block_y (section_block_from_block_pos p) = ucast (block_y p AND 15)"
  "section_block_z (section_block_from_block_pos p) = ucast (block_z p AND 15)"
  by (auto simp: section_block_x_def section_block_y_def section_block_z_def section_block_from_block_pos_def
      section_block_from_local_unchecked_def bit_pack bit_simps intro!: bit_word_eqI)

lemma section_coord_split: "push_bit 4 (signed_drop_bit 4 (c :: i32)) + ucast (ucast (c AND 15) :: u8) = c"
proof -
  have "push_bit 4 (signed_drop_bit 4 c) AND (ucast (ucast (c AND 15) :: u8)) = 0"
    by (auto simp: bit_pack bit_simps intro!: bit_word_eqI)
  then have "push_bit 4 (signed_drop_bit 4 c) + ucast (ucast (c AND 15) :: u8)
      = push_bit 4 (signed_drop_bit 4 c) OR ucast (ucast (c AND 15) :: u8)"
    by (rule disjunctive_add_eq_or)
  also have "\<dots> = c"
  proof (rule bit_word_eqI)
    fix n
    show "bit (push_bit 4 (signed_drop_bit 4 c) OR ucast (ucast (c AND 15) :: u8)) n \<longleftrightarrow> bit c n"
      if "n < LENGTH(32)"
      using that by (cases "n < 4") (auto simp: bit_pack bit_simps)
  qed
  finally show ?thesis .
qed

lemma relative_to_block_pos_section: "relative_to_block_pos (section_from_block_pos p) (section_block_from_block_pos p) = p"
  by (cases p) (simp add: relative_to_block_pos_def section_from_block_pos_def section_block_coords
    block_to_section_coord_def section_coord_split)

lemma neighbors_sym: "q \<in> set (neighbors p) \<longleftrightarrow> p \<in> set (neighbors q)"
proof -
  have neg: "(- dx, - dy) \<in> set chunk_offsets" if "(dx, dy) \<in> set chunk_offsets" for dx dy
    using that by (auto simp: chunk_offsets_def)
  have *: "p \<in> set (neighbors q)" if q: "q \<in> set (neighbors p)" for p q
  proof -
    from q obtain dx dy where d: "(dx, dy) \<in> set chunk_offsets"
      and "q = ChunkPos (chunk_x p + dx) (chunk_z p + dy)" by (auto simp: neighbors_def)
    then have "p = ChunkPos (chunk_x q + - dx) (chunk_z q + - dy)" by simp
    with neg [OF d] show ?thesis by (force simp: neighbors_def)
  qed
  show ?thesis using * by blast
qed


lemma sint_signed_take_bit: "n < 31 \<Longrightarrow> sint (signed_take_bit n (x :: i32)) = signed_take_bit n (sint x)"
  by (rule bit_eqI) (auto simp: bit_simps min_def)

lemma signed_take_bit_self_iff:
  "n < 31 \<Longrightarrow> signed_take_bit n (x :: i32) = x \<longleftrightarrow> - (2 ^ n) \<le> sint x \<and> sint x < 2 ^ n"
  by (metis sint_signed_take_bit signed_take_bit_int_eq_self_iff signed_word_eqI)

lemma MAX_COORDINATE_VALUE_sint: "sint MAX_COORDINATE_VALUE = 2097061"
  by (simp add: MAX_COORDINATE_VALUE_def MAX_HORIZONTAL_COORDINATE_def block_to_section_coord_def)

lemma sint_i32_abs:"sint x \<noteq> - (2 ^ 31) \<Longrightarrow> sint (i32_abs x) = \<bar>sint x\<bar>"
  unfolding i32_abs_def
  using sint_greater_eq[of x] sint_lt[of x]
  by (auto simp: sint_word_minus signed_take_bit_int_eq_self)

lemma from_get_3d_data_value: "from_3d_data_value (get_3d_data_value d) = d"
  by (cases d) (simp_all add: signed_modulo_int_def Let_def from_3d_data_value_def direction_all_def)

lemma relative_opposite: "relative (relative p d) (opposite d) = p"
  by (cases p; cases d) (simp_all add: relative_def offset_def)

lemma section_block_reserved_clear: "section_block_from_block_pos p AND NOT 0x0FFF = 0"
  by (auto simp: section_block_from_block_pos_def section_block_from_local_unchecked_def bit_pack
      bit_simps intro!: bit_word_eqI)

section \<open>Properties\<close>

text \<open>Chunk positions and packed 64-bit chunk keys are in one-to-one correspondence:
  unpacking a packed position gives it back, and every raw key is the packing of what it
  unpacks to.\<close>
lemma chunk_pos_roundtrip:
  "to_chunk_pos (pack_chunk_pos p) = p \<and> pack_chunk_pos (to_chunk_pos raw) = raw"
  by (simp add: to_pack_chunk_pos pack_to_chunk_pos)

text \<open>C36: The protocol encoding of block positions: every 64-bit value decodes and re-encodes
  to itself, and a position survives encoding exactly when its horizontal coordinates fit in
  26 signed bits and its height in 12.\<close>
theorem block_pos_roundtrip:
  "pack_block_pos (to_block_pos raw) = raw \<and>
   (to_block_pos (pack_block_pos p) = p \<longleftrightarrow>
      sint (block_x p) \<in> {- (2 ^ 25)..<2 ^ 25} \<and> sint (block_y p) \<in> {- (2 ^ 11)..<2 ^ 11} \<and>
      sint (block_z p) \<in> {- (2 ^ 25)..<2 ^ 25})"
  by (cases p) (simp add: pack_to_block_pos to_pack_block_pos signed_take_bit_self_iff)

text \<open>The encoding of section positions: every 64-bit value decodes and re-encodes to
  itself, and a section survives encoding exactly when its horizontal coordinates fit in 22
  signed bits and its height in 20.\<close>
lemma section_pos_roundtrip:
  "pack_section_pos (to_section_pos raw) = raw \<and>
   (to_section_pos (pack_section_pos p) = p \<longleftrightarrow>
      sint (section_x p) \<in> {- (2 ^ 21)..<2 ^ 21} \<and> sint (section_y p) \<in> {- (2 ^ 19)..<2 ^ 19} \<and>
      sint (section_z p) \<in> {- (2 ^ 21)..<2 ^ 21})"
  by (cases p) (simp add: pack_to_section_pos to_pack_section_pos signed_take_bit_self_iff)

text \<open>Splitting any block position into its section and its section-relative packed offset
  loses nothing, the offset is a value \<open>from_raw\<close> accepts, and the section's horizontal
  coordinates are those of the containing chunk.\<close>
lemma section_split_roundtrip:
  "relative_to_block_pos (section_from_block_pos p) (section_block_from_block_pos p) = p \<and>
   section_block_from_raw (section_block_from_block_pos p) = Some (section_block_from_block_pos p) \<and>
   chunk_from_block_pos p =
     ChunkPos (section_x (section_from_block_pos p)) (section_z (section_from_block_pos p))"
  unfolding section_block_from_raw_def section_block_reserved_clear relative_to_block_pos_section
  by (simp add: chunk_from_block_pos_def section_from_block_pos_def)

end
