(* ===== verification/Tick_List.thy ===== *)
theory Tick_List
  imports Positions
begin

text \<open>
  Per-chunk scheduled-tick storage (steel-core/src/world/tick_scheduler/mod.rs and list.rs):
  priorities, live and saved ticks, the priority queue of one chunk with its deduplication
  set, and the packing used by persistence. A block or fluid reference is the address of its
  registry entry, which is also its deduplication key.
\<close>

section \<open>Data\<close>

datatype TickPriority =
  ExtremelyHigh | VeryHigh | High | Normal | Low | VeryLow | ExtremelyLow

fun priority_value :: "TickPriority \<Rightarrow> int" where
  "priority_value ExtremelyHigh = -3"
| "priority_value VeryHigh = -2"
| "priority_value High = -1"
| "priority_value Normal = 0"
| "priority_value Low = 1"
| "priority_value VeryLow = 2"
| "priority_value ExtremelyLow = 3"

lemma priority_value_inject [simp]: "priority_value p = priority_value q \<longleftrightarrow> p = q"
  by (cases p; cases q) auto

instantiation TickPriority :: linorder
begin
definition less_eq_TickPriority :: "TickPriority \<Rightarrow> TickPriority \<Rightarrow> bool" where
  "p \<le> q \<longleftrightarrow> priority_value p \<le> priority_value q"
definition less_TickPriority :: "TickPriority \<Rightarrow> TickPriority \<Rightarrow> bool" where
  "p < q \<longleftrightarrow> priority_value p < priority_value q"
instance
  by standard (auto simp: less_eq_TickPriority_def less_TickPriority_def)
end

definition by_value :: "i32 \<Rightarrow> TickPriority" where
  "by_value v =
     (let n = sint v in
      if n = -3 then ExtremelyHigh else if n = -2 then VeryHigh else if n = -1 then High
      else if n = 0 then Normal else if n = 1 then Low else if n = 2 then VeryLow
      else if n = 3 then ExtremelyLow
      else if n < priority_value ExtremelyHigh then ExtremelyHigh else ExtremelyLow)"

type_synonym TypeRef = u64
type_synonym ScheduledTickKey = "BlockPos \<times> u64"

record ScheduledTick =
  tick_type :: TypeRef
  tick_pos :: BlockPos
  trigger_tick :: i64
  tick_priority :: TickPriority
  sub_tick_order :: i64

record SavedTick =
  saved_type :: TypeRef
  saved_pos :: BlockPos
  saved_delay :: i32
  saved_priority :: TickPriority

record QueuedTick =
  queued_tick :: ScheduledTick
  insertion_order :: u64

record TickList =
  pending_ticks :: "SavedTick list option"
  ticks :: "QueuedTick list"
  scheduled :: "ScheduledTickKey set"
  next_insertion_order :: u64

record TickListPackingSnapshot =
  snap_pending :: "SavedTick list"
  snap_live :: "(ScheduledTick \<times> u64) list"

section \<open>Order\<close>

definition tick_key :: "ScheduledTick \<Rightarrow> ScheduledTickKey" where
  "tick_key t = (tick_pos t, tick_type t)"

definition saved_key :: "SavedTick \<Rightarrow> ScheduledTickKey" where
  "saved_key t = (saved_pos t, saved_type t)"

definition intra_tick_drain_order :: "TickPriority \<Rightarrow> i64 \<Rightarrow> TickPriority \<Rightarrow> i64 \<Rightarrow> Ordering" where
  "intra_tick_drain_order lp ls rp rs = then_with (cmp lp rp) (cmp (sint ls) (sint rs))"

definition drain_order :: "ScheduledTick \<Rightarrow> ScheduledTick \<Rightarrow> Ordering" where
  "drain_order a b =
     then_with (cmp (sint (trigger_tick a)) (sint (trigger_tick b)))
       (intra_tick_drain_order (tick_priority a) (sub_tick_order a) (tick_priority b) (sub_tick_order b))"

definition queued_cmp :: "QueuedTick \<Rightarrow> QueuedTick \<Rightarrow> Ordering" where
  "queued_cmp a b =
     then_with (reverse (drain_order (queued_tick a) (queued_tick b)))
       (cmp (insertion_order b) (insertion_order a))"

section \<open>Operations\<close>

definition tick_list_new :: TickList where
  "tick_list_new = \<lparr>pending_ticks = None, ticks = [], scheduled = {}, next_insertion_order = 0\<rparr>"

definition new_pending :: TickList where
  "new_pending = \<lparr>pending_ticks = Some [], ticks = [], scheduled = {}, next_insertion_order = 0\<rparr>"

definition push_unchecked :: "ScheduledTick \<Rightarrow> TickList \<Rightarrow> TickList" where
  "push_unchecked t l =
     l\<lparr>next_insertion_order := next_insertion_order l + 1,
       ticks := heap_push queued_cmp
         \<lparr>queued_tick = t, insertion_order = next_insertion_order l\<rparr> (ticks l)\<rparr>"

definition schedule ::
  "TypeRef \<Rightarrow> BlockPos \<Rightarrow> i64 \<Rightarrow> TickPriority \<Rightarrow> i64 \<Rightarrow> TickList \<Rightarrow> bool \<times> TickList" where
  "schedule ty p trig prio sub l =
     (if (p, ty) \<in> scheduled l then (False, l)
      else (True, push_unchecked
             \<lparr>tick_type = ty, tick_pos = p, trigger_tick = trig, tick_priority = prio, sub_tick_order = sub\<rparr>
             (l\<lparr>scheduled := insert (p, ty) (scheduled l)\<rparr>)))"

definition pending_entries :: "TickList \<Rightarrow> SavedTick list" where
  "pending_entries l = (case pending_ticks l of None \<Rightarrow> [] | Some ps \<Rightarrow> ps)"

definition schedule_saved_pending :: "SavedTick \<Rightarrow> TickList \<Rightarrow> bool \<times> TickList" where
  "schedule_saved_pending s l =
     (if saved_key s \<in> scheduled l then (False, l)
      else (True, l\<lparr>scheduled := insert (saved_key s) (scheduled l),
                    pending_ticks := Some (pending_entries l @ [s])\<rparr>))"

definition schedule_pending :: "TypeRef \<Rightarrow> BlockPos \<Rightarrow> TickPriority \<Rightarrow> TickList \<Rightarrow> bool \<times> TickList" where
  "schedule_pending ty p prio =
     schedule_saved_pending \<lparr>saved_type = ty, saved_pos = p, saved_delay = 0, saved_priority = prio\<rparr>"

definition from_saved_ticks :: "SavedTick list \<Rightarrow> TickList" where
  "from_saved_ticks ss =
     new_pending\<lparr>scheduled := foldl (\<lambda>acc s. insert (saved_key s) acc) {} ss, pending_ticks := Some ss\<rparr>"

definition from_proto_saved_ticks :: "SavedTick list \<Rightarrow> TickList" where
  "from_proto_saved_ticks ss = foldl (\<lambda>l s. snd (schedule_saved_pending s l)) new_pending ss"

definition has_tick :: "BlockPos \<Rightarrow> TypeRef \<Rightarrow> TickList \<Rightarrow> bool" where
  "has_tick p ty l \<longleftrightarrow> (p, ty) \<in> scheduled l"

text \<open>The \<open>retain\<close> pass: entries are visited in order, a matching one leaves the list and its
  key leaves the deduplication set.\<close>

fun retain_pending :: "(SavedTick \<Rightarrow> bool) \<Rightarrow> SavedTick list \<Rightarrow> ScheduledTickKey set \<Rightarrow>
    SavedTick list \<times> ScheduledTickKey set" where
  "retain_pending p [] sch = ([], sch)"
| "retain_pending p (s # ss) sch =
     (if \<not> p s then (let (ks, sch') = retain_pending p ss sch in (s # ks, sch'))
      else retain_pending p ss (sch - {saved_key s}))"

definition remove_pending_matching :: "(SavedTick \<Rightarrow> bool) \<Rightarrow> TickList \<Rightarrow> nat \<times> TickList" where
  "remove_pending_matching p l =
     (case pending_ticks l of
        None \<Rightarrow> (0, l)
      | Some ps \<Rightarrow>
          (let (ks, sch) = retain_pending p ps (scheduled l)
           in (length ps - length ks, l\<lparr>pending_ticks := Some ks, scheduled := sch\<rparr>)))"

definition packing_snapshot :: "TickList \<Rightarrow> TickListPackingSnapshot" where
  "packing_snapshot l =
     \<lparr>snap_pending = pending_entries l,
      snap_live = map (\<lambda>q. (queued_tick q, insertion_order q)) (ticks l)\<rparr>"

definition pack :: "TickListPackingSnapshot \<Rightarrow> i64 \<Rightarrow> SavedTick list" where
  "pack s now =
     snap_pending s @
     map (\<lambda>(t, _). \<lparr>saved_type = tick_type t, saved_pos = tick_pos t,
                    saved_delay = ucast (trigger_tick t - now), saved_priority = tick_priority t\<rparr>)
       (sort_key (\<lambda>(t, i). (sint (sub_tick_order t), i)) (snap_live s))"

fun unpack_entries :: "i64 \<Rightarrow> i64 \<Rightarrow> nat \<Rightarrow> SavedTick list \<Rightarrow> TickList \<Rightarrow> TickList" where
  "unpack_entries now cnt i [] l = l"
| "unpack_entries now cnt i (s # ss) l =
     unpack_entries now cnt (Suc i) ss
       (push_unchecked
          \<lparr>tick_type = saved_type s, tick_pos = saved_pos s, trigger_tick = now + scast (saved_delay s),
           tick_priority = saved_priority s, sub_tick_order = - cnt + of_nat i\<rparr> l)"

definition unpack :: "i64 \<Rightarrow> TickList \<Rightarrow> TickList" where
  "unpack now l =
     (case pending_ticks l of
        None \<Rightarrow> l
      | Some ps \<Rightarrow> unpack_entries now (of_nat (length ps)) 0 ps (l\<lparr>pending_ticks := None\<rparr>))"

definition tick_list_len :: "TickList \<Rightarrow> nat" where
  "tick_list_len l = length (ticks l) + (case pending_ticks l of None \<Rightarrow> 0 | Some ps \<Rightarrow> length ps)"

definition peek :: "TickList \<Rightarrow> ScheduledTick option" where
  "peek l = map_option queued_tick (heap_peek (ticks l))"

definition peek_ready :: "i64 \<Rightarrow> TickList \<Rightarrow> ScheduledTick option" where
  "peek_ready now l =
     (case heap_peek (ticks l) of
        None \<Rightarrow> None
      | Some q \<Rightarrow> if sint (trigger_tick (queued_tick q)) \<le> sint now then Some (queued_tick q) else None)"

definition pop_ready :: "i64 \<Rightarrow> TickList \<Rightarrow> (ScheduledTick \<times> TickList) option" where
  "pop_ready now l =
     (case peek_ready now l of
        None \<Rightarrow> None
      | Some _ \<Rightarrow>
          (case heap_pop (ticks l) of
             None \<Rightarrow> None
           | Some (q, rest) \<Rightarrow>
               Some (queued_tick q, l\<lparr>ticks := rest, scheduled := scheduled l - {tick_key (queued_tick q)}\<rparr>)))"

section \<open>The queue order\<close>

definition drain_key :: "QueuedTick \<Rightarrow> (int \<times> TickPriority \<times> int) \<times> u64" where
  "drain_key q =
     ((sint (trigger_tick (queued_tick q)), tick_priority (queued_tick q),
       sint (sub_tick_order (queued_tick q))), insertion_order q)"

lemma queued_cmp_key: "queued_cmp a b = cmp (drain_key b) (drain_key a)"
  by (simp add: queued_cmp_def drain_order_def intra_tick_drain_order_def drain_key_def)

interpretation tick_queue: drain_queue drain_key "heap_push queued_cmp" heap_peek heap_pop mset
    "\<lambda>h. sorted (map drain_key h)"
  by (rule heap_drain_queue) (rule queued_cmp_key)

section \<open>Well-formed lists\<close>

definition all_keys :: "TickList \<Rightarrow> ScheduledTickKey list" where
  "all_keys l = map saved_key (pending_entries l) @ map (tick_key \<circ> queued_tick) (ticks l)"

text \<open>Loading a saved list keeps it exactly as stored, duplicate keys included. The flag \<open>d\<close> says
  that the saved lists in the history of a list had no duplicate keys.\<close>

definition tick_list_wf :: "bool \<Rightarrow> TickList \<Rightarrow> bool" where
  "tick_list_wf d l \<longleftrightarrow>
     sorted (map drain_key (ticks l)) \<and> scheduled l \<subseteq> set (all_keys l) \<and>
     (d \<longrightarrow> distinct (all_keys l) \<and> scheduled l = set (all_keys l))"

lemma tick_list_wf_sorted: "tick_list_wf d l \<Longrightarrow> sorted (map drain_key (ticks l))"
  by (simp add: tick_list_wf_def)

lemma all_keys_push_unchecked:
  "mset (all_keys (push_unchecked t l)) = add_mset (tick_key t) (mset (all_keys l))"
  by (simp add: all_keys_def push_unchecked_def pending_entries_def tick_queue.content_push)

lemma set_all_keys_push_unchecked [simp]:
  "set (all_keys (push_unchecked t l)) = insert (tick_key t) (set (all_keys l))"
  using all_keys_push_unchecked [of t l] by (metis set_mset_add_mset_insert set_mset_mset)

lemma distinct_all_keys_push_unchecked [simp]:
  "distinct (all_keys (push_unchecked t l)) \<longleftrightarrow> tick_key t \<notin> set (all_keys l) \<and> distinct (all_keys l)"
proof -
  have "mset (all_keys (push_unchecked t l)) = mset (tick_key t # all_keys l)"
    by (simp add: all_keys_push_unchecked)
  then show ?thesis by (metis distinct.simps(2) mset_eq_imp_distinct_iff)
qed

lemma push_unchecked_sorted [simp]:
  "sorted (map drain_key (ticks l)) \<Longrightarrow> sorted (map drain_key (ticks (push_unchecked t l)))"
  by (simp add: push_unchecked_def tick_queue.inv_push)

lemma push_unchecked_frame [simp]:
  "scheduled (push_unchecked t l) = scheduled l"
  "pending_ticks (push_unchecked t l) = pending_ticks l"
  by (simp_all add: push_unchecked_def)

lemma all_keys_cong [simp]:
  "all_keys (l\<lparr>scheduled := sch\<rparr>) = all_keys l" "all_keys (l\<lparr>next_insertion_order := n\<rparr>) = all_keys l"
  by (simp_all add: all_keys_def pending_entries_def)

lemma new_wf: "tick_list_wf d tick_list_new" "tick_list_wf d new_pending"
  by (simp_all add: tick_list_wf_def all_keys_def tick_list_new_def new_pending_def pending_entries_def)

lemma schedule_wf:
  assumes "tick_list_wf d l" shows "tick_list_wf d (snd (schedule ty p trig prio sub l))"
  using assms by (auto simp: schedule_def tick_list_wf_def tick_key_def)

lemma schedule_saved_pending_wf:
  assumes "tick_list_wf d l" shows "tick_list_wf d (snd (schedule_saved_pending s l))"
proof (cases "saved_key s \<in> scheduled l")
  case False
  let ?l = "snd (schedule_saved_pending s l)"
  from False have m: "mset (all_keys ?l) = mset (saved_key s # all_keys l)"
    and f: "scheduled ?l = insert (saved_key s) (scheduled l)" "ticks ?l = ticks l"
    by (simp_all add: schedule_saved_pending_def all_keys_def pending_entries_def)
  have s: "set (all_keys ?l) = insert (saved_key s) (set (all_keys l))" using mset_eq_setD [OF m] by simp
  have e: "distinct (all_keys ?l) \<longleftrightarrow> saved_key s \<notin> set (all_keys l) \<and> distinct (all_keys l)"
    using mset_eq_imp_distinct_iff [OF m] by simp
  show ?thesis using assms False unfolding tick_list_wf_def f s e by blast
qed (use assms in \<open>simp add: schedule_saved_pending_def\<close>)

lemma foldl_insert_keys: "foldl (\<lambda>acc s. insert (f s) acc) A ss = A \<union> f ` set ss"
  by (induction ss arbitrary: A) auto

lemma from_saved_ticks_wf:
  assumes "d \<longrightarrow> distinct (map saved_key ss)" shows "tick_list_wf d (from_saved_ticks ss)"
  using assms by (simp add: tick_list_wf_def all_keys_def from_saved_ticks_def new_pending_def
      pending_entries_def foldl_insert_keys)

lemma foldl_schedule_saved_pending_wf:
  "tick_list_wf d l \<Longrightarrow> tick_list_wf d (foldl (\<lambda>l s. snd (schedule_saved_pending s l)) l ss)"
  by (induction ss arbitrary: l) (simp_all add: schedule_saved_pending_wf)

lemma from_proto_saved_ticks_wf: "tick_list_wf d (from_proto_saved_ticks ss)"
  by (simp add: from_proto_saved_ticks_def foldl_schedule_saved_pending_wf new_wf)

lemma retain_pending_filter:
  "retain_pending p ss sch = (filter (\<lambda>s. \<not> p s) ss, sch - saved_key ` set (filter p ss))"
  by (induction ss arbitrary: sch) (auto simp: Let_def)

lemma remove_pending_matching_wf:
  assumes "tick_list_wf d l" shows "tick_list_wf d (snd (remove_pending_matching p l))"
proof (cases "pending_ticks l")
  case None
  with assms show ?thesis by (simp add: remove_pending_matching_def)
next
  case (Some ps)
  let ?l = "snd (remove_pending_matching p l)" and ?live = "map (tick_key \<circ> queued_tick) (ticks l)"
  have l: "all_keys l = map saved_key ps @ ?live" "all_keys ?l = map saved_key (filter (\<lambda>s. \<not> p s) ps) @ ?live"
    "ticks ?l = ticks l" "scheduled ?l = scheduled l - saved_key ` set (filter p ps)"
    using Some by (simp_all add: remove_pending_matching_def retain_pending_filter all_keys_def pending_entries_def)
  have "saved_key ` set ps \<subseteq> saved_key ` set (filter p ps) \<union> saved_key ` set (filter (\<lambda>s. \<not> p s) ps)" by auto
  moreover have "scheduled l \<subseteq> saved_key ` set ps \<union> set ?live"
    using assms unfolding tick_list_wf_def l by (simp only: set_append list.set_map)
  ultimately have sub: "scheduled ?l \<subseteq> set (all_keys ?l)" unfolding l set_append list.set_map by blast
  have "distinct (all_keys ?l) \<and> set (all_keys ?l) \<subseteq> scheduled ?l" if d
  proof -
    from that assms have k: "distinct (map saved_key ps)" "set ?live \<inter> saved_key ` set ps = {}" "distinct ?live"
      "scheduled l = saved_key ` set ps \<union> set ?live" unfolding tick_list_wf_def l by auto
    from k(1) have "saved_key ` set (filter (\<lambda>s. \<not> p s) ps) \<inter> saved_key ` set (filter p ps) = {}"
      by (auto simp: distinct_map dest: inj_onD)
    with k(2,4) have "set (all_keys ?l) \<subseteq> scheduled ?l" unfolding l by auto
    moreover have "distinct (all_keys ?l)" unfolding l using k(1,2,3) by (auto simp: distinct_map_filter)
    ultimately show ?thesis by blast
  qed
  with sub assms show ?thesis unfolding tick_list_wf_def l(3) by blast
qed

lemma unpack_entries_sorted [simp]:
  "sorted (map drain_key (ticks l)) \<Longrightarrow> sorted (map drain_key (ticks (unpack_entries now c i ss l)))"
  by (induction now c i ss l rule: unpack_entries.induct) simp_all

lemma unpack_entries_frame [simp]:
  "scheduled (unpack_entries now c i ss l) = scheduled l"
  "pending_ticks (unpack_entries now c i ss l) = pending_ticks l"
  by (induction now c i ss l rule: unpack_entries.induct) simp_all

lemma all_keys_unpack_entries:
  "mset (all_keys (unpack_entries now c i ss l)) = mset (map saved_key ss) + mset (all_keys l)"
  by (induction now c i ss l rule: unpack_entries.induct)
    (simp_all add: all_keys_push_unchecked tick_key_def saved_key_def)

lemma all_keys_unpack: "mset (all_keys (unpack now l)) = mset (all_keys l)"
proof (cases "pending_ticks l")
  case (Some ps)
  then show ?thesis
    by (simp add: unpack_def all_keys_unpack_entries) (simp add: all_keys_def pending_entries_def)
qed (simp add: unpack_def)

lemma unpack_wf: assumes "tick_list_wf d l" shows "tick_list_wf d (unpack now l)"
proof -
  have "scheduled (unpack now l) = scheduled l"
    and "sorted (map drain_key (ticks (unpack now l)))"
    using assms by (auto simp: unpack_def tick_list_wf_def split: option.split)
  with all_keys_unpack [of now l] assms show ?thesis
    using mset_eq_setD [OF all_keys_unpack] mset_eq_imp_distinct_iff [OF all_keys_unpack] by (simp add: tick_list_wf_def)
qed

lemma pop_ready_cases:
  assumes "pop_ready now l = Some (t, l')"
  obtains q rest where "ticks l = q # rest" "t = queued_tick q" "sint (trigger_tick t) \<le> sint now"
    "l' = l\<lparr>ticks := rest, scheduled := scheduled l - {tick_key t}\<rparr>"
  using assms by (cases "ticks l") (auto simp: pop_ready_def peek_ready_def split: if_splits)

lemma pop_ready_wf:
  assumes "tick_list_wf d l" "pop_ready now l = Some (t, l')" shows "tick_list_wf d l'"
  using assms(2)
proof (cases rule: pop_ready_cases)
  case (1 q rest)
  with assms(1) show ?thesis
    by (auto simp: tick_list_wf_def all_keys_def pending_entries_def)
qed


section \<open>Reachable lists\<close>

inductive tick_list_step :: "TickList \<Rightarrow> TickList \<Rightarrow> bool" where
  step_schedule: "tick_list_step l (snd (schedule ty p trig prio sub l))"
| step_schedule_pending: "tick_list_step l (snd (schedule_pending ty p prio l))"
| step_remove_pending: "tick_list_step l (snd (remove_pending_matching f l))"
| step_unpack: "tick_list_step l (unpack now l)"
| step_pop: "pop_ready now l = Some (t, l') \<Longrightarrow> tick_list_step l l'"

text \<open>A list may start from any saved list; one without duplicate keys lets the flag be set.\<close>

inductive tick_list_reachable :: "bool \<Rightarrow> TickList \<Rightarrow> bool" for d where
  reach_new: "tick_list_reachable d tick_list_new"
| reach_pending: "tick_list_reachable d new_pending"
| reach_saved: "d \<longrightarrow> distinct (map saved_key ss) \<Longrightarrow> tick_list_reachable d (from_saved_ticks ss)"
| reach_proto: "tick_list_reachable d (from_proto_saved_ticks ss)"
| reach_step: "tick_list_reachable d l \<Longrightarrow> tick_list_step l l' \<Longrightarrow> tick_list_reachable d l'"

lemma tick_list_step_wf: "tick_list_step l l' \<Longrightarrow> tick_list_wf d l \<Longrightarrow> tick_list_wf d l'"
  by (induction rule: tick_list_step.induct)
    (simp_all add: schedule_wf schedule_pending_def schedule_saved_pending_wf remove_pending_matching_wf
      unpack_wf pop_ready_wf)

lemma reachable_wf: "tick_list_reachable d l \<Longrightarrow> tick_list_wf d l"
  by (induction rule: tick_list_reachable.induct)
    (simp_all add: new_wf from_saved_ticks_wf from_proto_saved_ticks_wf tick_list_step_wf)

section \<open>Draining\<close>

function drain_ready :: "i64 \<Rightarrow> TickList \<Rightarrow> ScheduledTick list \<times> TickList" where
  "drain_ready now l =
     (case pop_ready now l of
        None \<Rightarrow> ([], l)
      | Some (t, l') \<Rightarrow> (let (ts, l'') = drain_ready now l' in (t # ts, l'')))"
  by pat_completeness auto
termination
  by (relation "measure (\<lambda>(now, l). length (ticks l))") (auto elim!: pop_ready_cases)

declare drain_ready.simps [simp del]

definition ready_at :: "i64 \<Rightarrow> QueuedTick \<Rightarrow> bool" where
  "ready_at now q \<longleftrightarrow> sint (trigger_tick (queued_tick q)) \<le> sint now"

lemma pop_ready_None: "pop_ready now l = None \<longleftrightarrow> (case ticks l of [] \<Rightarrow> True | q # _ \<Rightarrow> \<not> ready_at now q)"
  by (cases "ticks l") (auto simp: pop_ready_def peek_ready_def ready_at_def)

lemma drain_ready_takeWhile:
  "fst (drain_ready now l) = map queued_tick (takeWhile (ready_at now) (ticks l)) \<and>
   ticks (snd (drain_ready now l)) = dropWhile (ready_at now) (ticks l) \<and>
   scheduled (snd (drain_ready now l)) = scheduled l - tick_key ` set (fst (drain_ready now l))"
proof (induction now l rule: drain_ready.induct)
  case (1 now l)
  show ?case
  proof (cases "pop_ready now l")
    case None
    then have "drain_ready now l = ([], l)" by (simp add: drain_ready.simps [of now l])
    moreover have "takeWhile (ready_at now) (ticks l) = []" "dropWhile (ready_at now) (ticks l) = ticks l"
      using None unfolding pop_ready_None by (cases "ticks l"; simp)+
    ultimately show ?thesis by simp
  next
    case (Some r)
    then obtain t l' where pop: "pop_ready now l = Some (t, l')" by (cases r) simp
    have eq: "drain_ready now l = (t # fst (drain_ready now l'), snd (drain_ready now l'))"
      by (simp add: drain_ready.simps [of now l] pop case_prod_beta)
    note IH = "1.IH" [OF pop refl]
    from pop show ?thesis
    proof (cases rule: pop_ready_cases)
      case (1 q rest)
      then have "takeWhile (ready_at now) (ticks l) = q # takeWhile (ready_at now) rest"
        and "dropWhile (ready_at now) (ticks l) = dropWhile (ready_at now) rest"
        by (simp_all add: ready_at_def)
      with IH 1 show ?thesis unfolding eq by auto
    qed
  qed
qed

lemma ready_at_mono: "drain_key a \<le> drain_key b \<Longrightarrow> ready_at now b \<Longrightarrow> ready_at now a"
  by (auto simp: drain_key_def ready_at_def less_eq_prod_def)

lemma ready_prefix:
  assumes "sorted (map drain_key qs)"
  shows "takeWhile (ready_at now) qs = filter (ready_at now) qs \<and>
    dropWhile (ready_at now) qs = filter (\<lambda>q. \<not> ready_at now q) qs"
  using assms
proof (induction qs)
  case (Cons q qs)
  show ?case
  proof (cases "ready_at now q")
    case True
    with Cons show ?thesis by simp
  next
    case False
    with Cons.prems have "\<forall>x \<in> set qs. \<not> ready_at now x" by (auto dest: ready_at_mono)
    with False show ?thesis by simp
  qed
qed simp

section \<open>Packing and unpacking\<close>

definition unpacked_tick :: "i64 \<Rightarrow> i64 \<Rightarrow> nat \<Rightarrow> SavedTick \<Rightarrow> ScheduledTick" where
  "unpacked_tick now cnt i s =
     \<lparr>tick_type = saved_type s, tick_pos = saved_pos s, trigger_tick = now + scast (saved_delay s),
      tick_priority = saved_priority s, sub_tick_order = - cnt + of_nat i\<rparr>"

lemma live_push_unchecked:
  "image_mset queued_tick (mset (ticks (push_unchecked t l))) =
     add_mset t (image_mset queued_tick (mset (ticks l)))"
  by (simp add: push_unchecked_def tick_queue.content_push)

lemma live_unpack_entries:
  "mset (map queued_tick (ticks (unpack_entries now cnt i ss l))) =
     mset (map queued_tick (ticks l)) +
     mset (map (\<lambda>k. unpacked_tick now cnt (i + k) (ss ! k)) [0..<length ss])"
proof (induction ss arbitrary: i l)
  case (Cons s ss)
  have "map (\<lambda>k. unpacked_tick now cnt (i + k) ((s # ss) ! k)) [0..<length (s # ss)] =
      unpacked_tick now cnt i s # map (\<lambda>k. unpacked_tick now cnt (Suc i + k) (ss ! k)) [0..<length ss]"
    by (simp add: upt_conv_Cons map_Suc_upt [symmetric] del: upt_Suc)
  then show ?case
    using Cons.IH [of "Suc i"] by (simp add: live_push_unchecked unpacked_tick_def [of now cnt i s] del: upt_Suc)
qed simp

lemma live_unpack_saved:
  "mset (map queued_tick (ticks (unpack now (from_saved_ticks ss)))) =
     mset (map (\<lambda>k. unpacked_tick now (of_nat (length ss)) k (ss ! k)) [0..<length ss])"
  by (simp add: unpack_def from_saved_ticks_def new_pending_def live_unpack_entries del: mset_map)

text \<open>Loaded entries occupy the sub-tick orders \<open>-len..-1\<close> in saved order.\<close>

lemma sint_loaded_order:
  assumes "k < n" "n < 2 ^ 63"
  shows "sint (- of_nat n + of_nat k :: i64) = int k - int n"
proof -
  have eq: "- of_nat n + of_nat k = (word_of_int (int k - int n) :: i64)" by simp
  have "sint (- of_nat n + of_nat k :: i64) = signed_take_bit 63 (int k - int n)"
    unfolding eq by (subst sint_sbintrunc') simp
  also have "\<dots> = int k - int n" using assms by (intro signed_take_bit_int_eq_self) auto
  finally show ?thesis .
qed

lemma sort_loaded:
  assumes n: "length ss < 2 ^ 63"
  shows "sort_key (sint \<circ> sub_tick_order)
      (map queued_tick (ticks (unpack now (from_saved_ticks ss)))) =
    map (\<lambda>k. unpacked_tick now (of_nat (length ss)) k (ss ! k)) [0..<length ss]"
    (is "sort_key ?f ?xs = map ?u ?ks")
proof (rule sort_key_inj_key_eq)
  show "mset ?xs = mset (map ?u ?ks)" by (rule live_unpack_saved)
  have f: "?f (?u k) = int k - int (length ss)" if "k < length ss" for k
    using sint_loaded_order [OF that n] by (simp add: unpacked_tick_def)
  have "set ?xs = set (map ?u ?ks)" using live_unpack_saved by (rule mset_eq_setD)
  then show "inj_on ?f (set ?xs)" using f by (auto simp: inj_on_def)
  show "sorted (map ?f (map ?u ?ks))"
    using f by (auto simp: sorted_iff_nth_mono)
qed

definition saved_order :: "TickList \<Rightarrow> ScheduledTick list" where
  "saved_order l =
     map fst (sort_key (\<lambda>(t, i). (sint (sub_tick_order t), i))
       (map (\<lambda>q. (queued_tick q, insertion_order q)) (ticks l)))"

definition packed_tick :: "i64 \<Rightarrow> ScheduledTick \<Rightarrow> SavedTick" where
  "packed_tick now t =
     \<lparr>saved_type = tick_type t, saved_pos = tick_pos t, saved_delay = ucast (trigger_tick t - now),
      saved_priority = tick_priority t\<rparr>"

lemma pack_live:
  "pack (packing_snapshot l) now = pending_entries l @ map (packed_tick now) (saved_order l)"
  by (simp add: pack_def packing_snapshot_def saved_order_def packed_tick_def case_prod_beta comp_def)

lemma scast_ucast_delay:
  assumes "- (2 ^ 31) \<le> sint (d :: i64)" "sint d < 2 ^ 31"
  shows "scast (ucast d :: i32) = d"
proof -
  have "sint (ucast d :: i32) = signed_take_bit 31 (sint d)"
    by (rule bit_eqI) (simp add: bit_simps min_def)
  also have "\<dots> = sint d" using assms by (intro signed_take_bit_int_eq_self) auto
  finally have "sint (scast (ucast d :: i32) :: i64) = signed_take_bit 63 (sint d)"
    by (simp add: signed_scast_eq)
  also have "\<dots> = sint d" using assms by (intro signed_take_bit_int_eq_self) auto
  finally have "sint (scast (ucast d :: i32) :: i64) = sint d" .
  then show ?thesis by (rule signed_word_eqI)
qed

definition timing :: "i64 \<Rightarrow> ScheduledTick \<Rightarrow> TypeRef \<times> BlockPos \<times> TickPriority \<times> i64" where
  "timing now t = (tick_type t, tick_pos t, tick_priority t, trigger_tick t - now)"

lemma timing_unpacked:
  "- (2 ^ 31) \<le> sint (trigger_tick t - now) \<Longrightarrow> sint (trigger_tick t - now) < 2 ^ 31 \<Longrightarrow>
   timing now' (unpacked_tick now' c k (packed_tick now t)) = timing now t"
  by (simp add: timing_def unpacked_tick_def packed_tick_def scast_ucast_delay)

lemma saved_key_packed [simp]: "saved_key \<circ> packed_tick now = tick_key"
  by (simp add: fun_eq_iff packed_tick_def saved_key_def tick_key_def)

lemma pack_keys: "mset (map saved_key (pack (packing_snapshot l) now)) = mset (all_keys l)"
proof -
  have "mset (saved_order l) = image_mset queued_tick (mset (ticks l))"
    by (simp add: saved_order_def image_mset.compositionality comp_def)
  then have "image_mset tick_key (mset (saved_order l)) = image_mset (tick_key \<circ> queued_tick) (mset (ticks l))"
    by (simp add: image_mset.compositionality)
  then show ?thesis unfolding pack_live all_keys_def map_append map_map saved_key_packed by simp
qed

definition demo_saved :: SavedTick where
  "demo_saved = \<lparr>saved_type = 8, saved_pos = BlockPos 1 2 3, saved_delay = 5, saved_priority = High\<rparr>"

section \<open>Properties\<close>

text \<open>C33: In every tick list built by the constructors (from any saved list, also one with
  duplicate keys, which loading a full chunk keeps as stored) and changed by any sequence of
  schedule, pending-schedule, pending-removal, unpack and pop operations, the queue is in drain
  order and the deduplication set only holds keys of entries the list has. If the saved lists it
  came from had no duplicate keys, no two of its pending or live entries share a (position, type)
  key, the deduplication set holds exactly the keys of its entries, and so the list saved from it
  has no duplicate keys either.\<close>
theorem tick_list_reachable_wf:
  assumes "tick_list_reachable d l"
  shows "tick_list_wf d l \<and> (d \<longrightarrow> distinct (map saved_key (pack (packing_snapshot l) now)))"
  using reachable_wf [OF assms] mset_eq_imp_distinct_iff [OF pack_keys [of l now]]
  by (simp add: tick_list_wf_def)

theorem tick_list_reachable_wf_witness:
  "tick_list_wf True (snd (schedule 7 (BlockPos 1 2 3) 10 Normal 0 (from_saved_ticks [demo_saved]))) \<and>
   tick_list_wf False (snd (schedule 7 (BlockPos 1 2 3) 10 Normal 0 (from_saved_ticks [demo_saved, demo_saved]))) \<and>
   distinct (map saved_key (pack (packing_snapshot
     (snd (schedule 7 (BlockPos 1 2 3) 10 Normal 0 (from_saved_ticks [demo_saved])))) 4))"
proof -
  have "tick_list_reachable True (snd (schedule 7 (BlockPos 1 2 3) 10 Normal 0 (from_saved_ticks [demo_saved])))"
    "tick_list_reachable False (snd (schedule 7 (BlockPos 1 2 3) 10 Normal 0 (from_saved_ticks [demo_saved, demo_saved])))"
    by (rule reach_step [OF reach_saved step_schedule], simp)+
  then show ?thesis using tick_list_reachable_wf by blast
qed

text \<open>Scheduling answers with whether the tick was added. A (position, type) pair that
  already has a tick is refused and nothing changes; otherwise exactly the new tick joins the
  live ticks, and only the queried pair becomes scheduled.\<close>
lemma schedule_functional:
  "fst (schedule ty p trig prio sub l) = (\<not> has_tick p ty l) \<and>
   (has_tick p ty l \<longrightarrow> snd (schedule ty p trig prio sub l) = l) \<and>
   (\<not> has_tick p ty l \<longrightarrow>
      image_mset queued_tick (mset (ticks (snd (schedule ty p trig prio sub l)))) =
        add_mset \<lparr>tick_type = ty, tick_pos = p, trigger_tick = trig, tick_priority = prio,
                  sub_tick_order = sub\<rparr> (image_mset queued_tick (mset (ticks l)))) \<and>
   (has_tick p' ty' (snd (schedule ty p trig prio sub l)) \<longleftrightarrow> (p', ty') = (p, ty) \<or> has_tick p' ty' l)"
  by (auto simp: schedule_def has_tick_def live_push_unchecked)

text \<open>Popping until nothing is ready delivers exactly the live ticks whose deadline has
  passed, in the order trigger time, priority, sub-tick order and, on exact ties, insertion;
  the other ticks stay, and the delivered keys may be scheduled again.\<close>
lemma drain_ready_in_order:
  assumes "tick_list_wf d l" and "drain_ready now l = (ts, l')"
  shows "\<exists>qs. ts = map queued_tick qs \<and> sorted (map drain_key qs) \<and>
      mset qs = filter_mset (ready_at now) (mset (ticks l)) \<and>
      ticks l' = filter (\<lambda>q. \<not> ready_at now q) (ticks l) \<and>
      (\<forall>t \<in> set ts. \<not> has_tick (tick_pos t) (tick_type t) l')"
proof -
  from assms(1) have "sorted (map drain_key (ticks l))" by (simp add: tick_list_wf_def)
  note pre = ready_prefix [OF this, of now] and srt = this
  from drain_ready_takeWhile [of now l] pre assms(2)
  have ts: "ts = map queued_tick (filter (ready_at now) (ticks l))"
    and l': "ticks l' = filter (\<lambda>q. \<not> ready_at now q) (ticks l)"
    and sch: "scheduled l' = scheduled l - tick_key ` set ts" by simp_all
  have "\<forall>t \<in> set ts. \<not> has_tick (tick_pos t) (tick_type t) l'"
    using sch by (auto simp: has_tick_def tick_key_def)
  moreover have "sorted (map drain_key (filter (ready_at now) (ticks l)))"
    using srt by (rule sorted_filter)
  ultimately show ?thesis using ts l' by (intro exI [of _ "filter (ready_at now) (ticks l)"]) simp
qed

definition sample_list :: TickList where
  "sample_list =
     snd (schedule 7 (BlockPos 1 2 3) 10 Normal 1
       (snd (schedule 8 (BlockPos 1 2 3) 10 High 2
         (snd (schedule 9 (BlockPos 4 5 6) 30 High 3 tick_list_new)))))"

lemma sample_list_ticks:
  "map (tick_type \<circ> queued_tick) (filter P (ticks sample_list)) =
     map (tick_type \<circ> queued_tick) (filter P
       [\<lparr>queued_tick = \<lparr>tick_type = 8, tick_pos = BlockPos 1 2 3, trigger_tick = 10, tick_priority = High,
           sub_tick_order = 2\<rparr>, insertion_order = 1\<rparr>,
        \<lparr>queued_tick = \<lparr>tick_type = 7, tick_pos = BlockPos 1 2 3, trigger_tick = 10, tick_priority = Normal,
           sub_tick_order = 1\<rparr>, insertion_order = 2\<rparr>,
        \<lparr>queued_tick = \<lparr>tick_type = 9, tick_pos = BlockPos 4 5 6, trigger_tick = 30, tick_priority = High,
           sub_tick_order = 3\<rparr>, insertion_order = 0\<rparr>])"
  by (simp add: sample_list_def schedule_def push_unchecked_def tick_list_new_def
        queued_cmp_key drain_key_def less_prod_def' less_TickPriority_def)

lemma sample_list_wf: "tick_list_wf d sample_list"
  unfolding sample_list_def by (intro schedule_wf new_wf)

text \<open>C34: Saving a chunk's live ticks and loading them again keeps every tick: listed by their
  new sub-tick order, the reloaded ticks are the saved ones in their old sub-tick (then
  insertion) order, each with its type, position, priority and remaining delay, as long as the
  delays fit the saved 32-bit field and the list is shorter than \<open>2 ^ 63\<close>.\<close>
theorem pack_unpack_roundtrip:
  assumes "pending_ticks l = None" and "length (ticks l) < 2 ^ 63"
    and "\<forall>q \<in> set (ticks l). sint (trigger_tick (queued_tick q) - now) \<in> {- (2 ^ 31)..<2 ^ 31}"
  shows "map (timing now')
      (sort_key (sint \<circ> sub_tick_order)
        (map queued_tick (ticks (unpack now' (from_saved_ticks (pack (packing_snapshot l) now)))))) =
    map (timing now) (saved_order l)"
proof -
  let ?ss = "map (packed_tick now) (saved_order l)"
  have pack: "pack (packing_snapshot l) now = ?ss"
    using assms(1) by (simp add: pack_live pending_entries_def)
  have len: "length ?ss = length (ticks l)" by (simp add: saved_order_def)
  have mem: "t \<in> set (saved_order l) \<Longrightarrow> \<exists>q \<in> set (ticks l). t = queued_tick q" for t
    by (auto simp: saved_order_def)
  have t: "timing now' (unpacked_tick now' c k (?ss ! k)) = timing now (saved_order l ! k)"
    if "k < length (saved_order l)" for c k
    using that mem [OF nth_mem [OF that]] assms(3) by (auto intro!: timing_unpacked)
  show ?thesis
    unfolding pack sort_loaded [of ?ss now', unfolded len, OF assms(2)]
    using t by (auto simp: len [symmetric] intro!: nth_equalityI)
qed


theorem pack_unpack_roundtrip_witness:
  "map (timing 100) (sort_key (sint \<circ> sub_tick_order)
     (map queued_tick (ticks (unpack 100 (from_saved_ticks (pack (packing_snapshot sample_list) 4)))))) =
   map (timing 4) (saved_order sample_list)"
proof (rule pack_unpack_roundtrip)
  show "pending_ticks sample_list = None" "length (ticks sample_list) < 2 ^ 63"
    "\<forall>q \<in> set (ticks sample_list). sint (trigger_tick (queued_tick q) - 4) \<in> {- (2 ^ 31)..<2 ^ 31}"
    by (simp_all add: sample_list_def schedule_def push_unchecked_def tick_list_new_def
        queued_cmp_key drain_key_def less_prod_def' less_TickPriority_def)
qed

end
