(* ===== verification/Tick_Scheduler.thy ===== *)
theory Tick_Scheduler
  imports Tick_List
begin

text \<open>
  The world index of scheduled ticks (steel-core/src/world/tick_scheduler/mod.rs,
  scheduler.rs and run_batch.rs). Chunk-owned containers live in a store indexed by their
  address, because the world index and the chunk share them (\<open>Arc\<close>) and the code compares
  them by pointer. Each operation is the whole handler run under its locks; an assertion
  failure or \<open>panic!\<close> is the outcome \<open>Panic\<close>.
\<close>

section \<open>Containers\<close>

datatype Lifecycle = Proto | PrePublication | Registered | Finalized

datatype TickKind = Block | Fluid

record ChunkTickLists =
  block :: TickList
  fluid :: TickList

record ChunkTickContainer =
  lifecycle :: Lifecycle
  lists :: ChunkTickLists

type_synonym ContainerId = nat
type_synonym Store = "ContainerId \<Rightarrow> ChunkTickContainer"

definition select :: "TickKind \<Rightarrow> ChunkTickLists \<Rightarrow> TickList" where
  "select k ls = (case k of Block \<Rightarrow> block ls | Fluid \<Rightarrow> fluid ls)"

definition select_update :: "TickKind \<Rightarrow> (TickList \<Rightarrow> TickList) \<Rightarrow> ChunkTickLists \<Rightarrow> ChunkTickLists" where
  "select_update k f ls = (case k of Block \<Rightarrow> ls\<lparr>block := f (block ls)\<rparr> | Fluid \<Rightarrow> ls\<lparr>fluid := f (fluid ls)\<rparr>)"

definition container_new :: "ChunkTickLists \<Rightarrow> ChunkTickContainer" where
  "container_new ls = \<lparr>lifecycle = PrePublication, lists = ls\<rparr>"

definition container_new_proto :: "ChunkTickLists \<Rightarrow> ChunkTickContainer" where
  "container_new_proto ls = \<lparr>lifecycle = Proto, lists = ls\<rparr>"

definition promote_to_full :: "ChunkTickContainer \<Rightarrow> bool \<times> ChunkTickContainer" where
  "promote_to_full c =
     (if lifecycle c \<noteq> Proto then (False, c) else (True, c\<lparr>lifecycle := PrePublication\<rparr>))"

definition schedule_unregistered ::
  "TickKind \<Rightarrow> TypeRef \<Rightarrow> BlockPos \<Rightarrow> i64 \<Rightarrow> TickPriority \<Rightarrow> i64 \<Rightarrow> ChunkTickContainer \<Rightarrow>
     bool option \<times> ChunkTickContainer" where
  "schedule_unregistered k ty p trig prio sub c =
     (if lifecycle c = PrePublication
      then (let (added, l) = schedule ty p trig prio sub (select k (lists c))
            in (Some added, c\<lparr>lists := select_update k (\<lambda>_. l) (lists c)\<rparr>))
      else (None, c))"

definition container_schedule_pending ::
  "TickKind \<Rightarrow> TypeRef \<Rightarrow> BlockPos \<Rightarrow> TickPriority \<Rightarrow> ChunkTickContainer \<Rightarrow> bool option \<times> ChunkTickContainer" where
  "container_schedule_pending k ty p prio c =
     (if lifecycle c = Proto
      then (let (added, l) = schedule_pending ty p prio (select k (lists c))
            in (Some added, c\<lparr>lists := select_update k (\<lambda>_. l) (lists c)\<rparr>))
      else (None, c))"

definition pending_snapshot :: "TickKind \<Rightarrow> ChunkTickContainer \<Rightarrow> SavedTick list option" where
  "pending_snapshot k c =
     (if lifecycle c = Proto then Some (pending_entries (select k (lists c))) else None)"

definition remove_pending_blocks_matching ::
  "(SavedTick \<Rightarrow> bool) \<Rightarrow> ChunkTickContainer \<Rightarrow> nat option \<times> ChunkTickContainer" where
  "remove_pending_blocks_matching f c =
     (if lifecycle c = Proto
      then (let (n, l) = remove_pending_matching f (block (lists c))
            in (Some n, c\<lparr>lists := (lists c)\<lparr>block := l\<rparr>\<rparr>))
      else (None, c))"

definition has_scheduled :: "TickKind \<Rightarrow> BlockPos \<Rightarrow> TypeRef \<Rightarrow> ChunkTickContainer \<Rightarrow> bool option" where
  "has_scheduled k p ty c =
     (if lifecycle c \<noteq> Finalized then Some (has_tick p ty (select k (lists c))) else None)"

definition container_snapshot :: "i64 \<Rightarrow> ChunkTickContainer \<Rightarrow> (SavedTick list \<times> SavedTick list) option" where
  "container_snapshot now c =
     (if lifecycle c \<noteq> Finalized
      then Some (pack (packing_snapshot (block (lists c))) now, pack (packing_snapshot (fluid (lists c))) now)
      else None)"

section \<open>The world index\<close>

datatype TickSchedulerError =
  AlreadyRegistered ChunkPos | MissingContainer ChunkPos | ContainerMismatch ChunkPos

datatype 'a outcome = Ok 'a | Err TickSchedulerError | Panic

record ActiveChunkRank =
  generation :: u64
  active_rank_of :: nat

record RegisteredChunkTicks =
  container :: ContainerId
  block_head :: "i64 option"
  fluid_head :: "i64 option"
  active :: "ActiveChunkRank option"

text \<open>A deadline is a pair of 64-bit integers, ordered by their signed values.\<close>

type_synonym Deadline = "int \<times> int"

record SchedulerState =
  chunks :: "ChunkPos \<rightharpoonup> RegisteredChunkTicks"
  active_block_deadlines :: "Deadline list"
  active_fluid_deadlines :: "Deadline list"
  active_generation :: u64

record Scheduler =
  next_sub_tick_order_counter :: i64
  state :: SchedulerState
  store :: Store

record FullChunkRef =
  common_pos :: ChunkPos
  scheduled_tick_container :: ContainerId

record ActiveTickContainer =
  at_pos :: ChunkPos
  at_rank :: nat
  at_container :: ContainerId

type_synonym TickHeadUpdate = "ChunkPos \<times> i64 option"

definition deadline :: "i64 \<Rightarrow> ChunkPos \<Rightarrow> Deadline" where
  "deadline t p = (sint t, sint (pack_chunk_pos p))"

definition deadline_pos :: "Deadline \<Rightarrow> ChunkPos" where
  "deadline_pos d = to_chunk_pos (word_of_int (snd d))"

definition head :: "TickKind \<Rightarrow> RegisteredChunkTicks \<Rightarrow> i64 option" where
  "head k r = (case k of Block \<Rightarrow> block_head r | Fluid \<Rightarrow> fluid_head r)"

definition registered_set_head :: "TickKind \<Rightarrow> i64 option \<Rightarrow> RegisteredChunkTicks \<Rightarrow> RegisteredChunkTicks" where
  "registered_set_head k t r = (case k of Block \<Rightarrow> r\<lparr>block_head := t\<rparr> | Fluid \<Rightarrow> r\<lparr>fluid_head := t\<rparr>)"

definition active_rank :: "u64 \<Rightarrow> RegisteredChunkTicks \<Rightarrow> nat option" where
  "active_rank gen r =
     (case active r of
        Some a \<Rightarrow> if generation a = gen then Some (active_rank_of a) else None
      | None \<Rightarrow> None)"

definition advance_active_generation :: "SchedulerState \<Rightarrow> u64 \<times> SchedulerState" where
  "advance_active_generation s =
     (if active_generation s \<noteq> - 1
      then (let g = active_generation s + 1 in (g, s\<lparr>active_generation := g\<rparr>))
      else (1, s\<lparr>chunks := (\<lambda>p. map_option (\<lambda>r. r\<lparr>active := None\<rparr>) (chunks s p)),
                 active_generation := 1\<rparr>))"

definition deadlines :: "TickKind \<Rightarrow> SchedulerState \<Rightarrow> Deadline list" where
  "deadlines k s = (case k of Block \<Rightarrow> active_block_deadlines s | Fluid \<Rightarrow> active_fluid_deadlines s)"

definition set_deadlines :: "TickKind \<Rightarrow> Deadline list \<Rightarrow> SchedulerState \<Rightarrow> SchedulerState" where
  "set_deadlines k d s =
     (case k of Block \<Rightarrow> s\<lparr>active_block_deadlines := d\<rparr> | Fluid \<Rightarrow> s\<lparr>active_fluid_deadlines := d\<rparr>)"

definition set_head :: "ChunkPos \<Rightarrow> TickKind \<Rightarrow> i64 option \<Rightarrow> SchedulerState \<Rightarrow> unit outcome \<times> SchedulerState" where
  "set_head p k t s =
     (case chunks s p of
        None \<Rightarrow> (Err (MissingContainer p), s)
      | Some r \<Rightarrow>
          (let is_active = active_rank (active_generation s) r \<noteq> None;
               previous = head k r
           in if previous = t then (Ok (), s)
              else
                (let (removed, s1) =
                   (case previous of
                      Some pr \<Rightarrow>
                        if is_active
                        then (let (b, d) = btree_remove (deadline pr p) (deadlines k s) in (b, set_deadlines k d s))
                        else (True, s)
                    | None \<Rightarrow> (True, s))
                 in if \<not> removed then (Panic, s1)
                    else
                      (let s2 = s1\<lparr>chunks := (chunks s1)(p \<mapsto> registered_set_head k t r)\<rparr>;
                           (inserted, s3) =
                             (case t of
                                Some tr \<Rightarrow>
                                  if is_active
                                  then (let (b, d) = btree_insert (deadline tr p) (deadlines k s2)
                                        in (b, set_deadlines k d s2))
                                  else (True, s2)
                              | None \<Rightarrow> (True, s2))
                       in if inserted then (Ok (), s3) else (Panic, s3)))))"


text \<open>
  Due containers are taken from the front of the ordered deadline index; the list recursion is
  the \<open>while let Some(..) = deadlines.first()\<close> loop, whose \<open>pop_first\<close> removes exactly the
  entry it read.
\<close>

fun take_due_loop :: "TickKind \<Rightarrow> i64 \<Rightarrow> Deadline list \<Rightarrow> SchedulerState \<Rightarrow>
    ActiveTickContainer list outcome \<times> SchedulerState" where
  "take_due_loop k now [] s = (Ok [], set_deadlines k [] s)"
| "take_due_loop k now (d # ds) s =
     (if fst d > sint now then (Ok [], set_deadlines k (d # ds) s)
      else
        (let p = deadline_pos d in
         case chunks s p of
           None \<Rightarrow> (Panic, set_deadlines k ds s)
         | Some r \<Rightarrow>
             if map_option sint (head k r) \<noteq> Some (fst d) then (Panic, set_deadlines k ds s)
             else
               (case active_rank (active_generation s) r of
                  None \<Rightarrow> (Panic, set_deadlines k ds s)
                | Some rk \<Rightarrow>
                    (case take_due_loop k now ds
                            (s\<lparr>chunks := (chunks s)(p \<mapsto> registered_set_head k None r)\<rparr>) of
                       (Ok due, s') \<Rightarrow>
                         (Ok (\<lparr>at_pos = p, at_rank = rk, at_container = container r\<rparr> # due), s')
                     | (e, s') \<Rightarrow> (e, s')))))"

definition take_due :: "TickKind \<Rightarrow> i64 \<Rightarrow> SchedulerState \<Rightarrow>
    ActiveTickContainer list outcome \<times> SchedulerState" where
  "take_due k now s = take_due_loop k now (deadlines k s) s"

section \<open>World operations\<close>

definition scheduler_new :: "Store \<Rightarrow> Scheduler" where
  "scheduler_new st =
     \<lparr>next_sub_tick_order_counter = 0,
      state = \<lparr>chunks = Map.empty, active_block_deadlines = [], active_fluid_deadlines = [],
               active_generation = 0\<rparr>,
      store = st\<rparr>"

definition next_sub_tick_order :: "Scheduler \<Rightarrow> i64 \<times> Scheduler" where
  "next_sub_tick_order w =
     (next_sub_tick_order_counter w,
      w\<lparr>next_sub_tick_order_counter := next_sub_tick_order_counter w + 1\<rparr>)"

definition list_head :: "TickKind \<Rightarrow> ChunkTickContainer \<Rightarrow> i64 option" where
  "list_head k c = map_option trigger_tick (peek (select k (lists c)))"

definition register_chunk :: "FullChunkRef \<Rightarrow> Scheduler \<Rightarrow> unit outcome \<times> Scheduler" where
  "register_chunk ch w =
     (let cid = scheduled_tick_container ch; c = store w cid; p = common_pos ch in
      if lifecycle c \<noteq> PrePublication then (Err (AlreadyRegistered p), w)
      else
        (let bh = list_head Block c; fh = list_head Fluid c in
         if chunks (state w) p \<noteq> None then (Err (AlreadyRegistered p), w)
         else
           (Ok (),
            w\<lparr>store := (store w)(cid := c\<lparr>lifecycle := Registered\<rparr>),
              state := (state w)\<lparr>chunks := (chunks (state w))(p \<mapsto>
                \<lparr>container = cid, block_head = bh, fluid_head = fh, active = None\<rparr>)\<rparr>\<rparr>)))"

definition unpack_chunk :: "ChunkPos \<Rightarrow> i64 \<Rightarrow> Scheduler \<Rightarrow> unit outcome \<times> Scheduler" where
  "unpack_chunk p now w =
     (case chunks (state w) p of
        None \<Rightarrow> (Err (MissingContainer p), w)
      | Some r \<Rightarrow>
          (let cid = container r; c = store w cid in
           if lifecycle c \<noteq> Registered then (Err (MissingContainer p), w)
           else
             (let c' = c\<lparr>lists := \<lparr>block = unpack now (block (lists c)), fluid = unpack now (fluid (lists c))\<rparr>\<rparr>;
                  bh = list_head Block c'; fh = list_head Fluid c';
                  w' = w\<lparr>store := (store w)(cid := c')\<rparr>
              in case set_head p Block bh (state w') of
                   (Ok _, s1) \<Rightarrow>
                     (case set_head p Fluid fh s1 of (res, s2) \<Rightarrow> (res, w'\<lparr>state := s2\<rparr>))
                 | (e, s1) \<Rightarrow> (e, w'\<lparr>state := s1\<rparr>))))"

definition remove_head_deadline :: "TickKind \<Rightarrow> ChunkPos \<Rightarrow> RegisteredChunkTicks \<Rightarrow> SchedulerState \<Rightarrow>
    bool \<times> SchedulerState" where
  "remove_head_deadline k p r s =
     (case head k r of
        None \<Rightarrow> (True, s)
      | Some h \<Rightarrow> (let (b, d) = btree_remove (deadline h p) (deadlines k s) in (b, set_deadlines k d s)))"

definition unregister_chunk :: "ChunkPos \<Rightarrow> Scheduler \<Rightarrow> unit outcome \<times> Scheduler" where
  "unregister_chunk p w =
     (let s = state w; gen = active_generation s in
      case chunks s p of
        None \<Rightarrow> (Ok (), w)
      | Some r \<Rightarrow>
          (let s1 = s\<lparr>chunks := (chunks s)(p := None)\<rparr>;
               (ok, s2) =
                 (if active_rank gen r \<noteq> None
                  then (let (b1, t1) = remove_head_deadline Block p r s1
                        in if \<not> b1 then (False, t1) else remove_head_deadline Fluid p r t1)
                  else (True, s1))
           in if \<not> ok then (Panic, w\<lparr>state := s2\<rparr>)
              else (Ok (), w\<lparr>store := (store w)(container r := (store w (container r))\<lparr>lifecycle := Finalized\<rparr>),
                     state := s2\<rparr>)))"

definition add_head_deadline :: "TickKind \<Rightarrow> ChunkPos \<Rightarrow> RegisteredChunkTicks \<Rightarrow> SchedulerState \<Rightarrow>
    bool \<times> SchedulerState" where
  "add_head_deadline k p r s =
     (case head k r of
        None \<Rightarrow> (True, s)
      | Some h \<Rightarrow> (let (b, d) = btree_insert (deadline h p) (deadlines k s) in (b, set_deadlines k d s)))"

fun reconcile_loop :: "u64 \<Rightarrow> nat \<Rightarrow> ChunkPos list \<Rightarrow> SchedulerState \<Rightarrow> unit outcome \<times> SchedulerState" where
  "reconcile_loop gen i [] s = (Ok (), s)"
| "reconcile_loop gen i (p # ps) s =
     (case chunks s p of
        None \<Rightarrow> (Err (MissingContainer p), s)
      | Some r \<Rightarrow>
          if (case active r of None \<Rightarrow> False | Some a \<Rightarrow> generation a = gen) then (Panic, s)
          else
            (let r' = r\<lparr>active := Some \<lparr>generation = gen, active_rank_of = i\<rparr>\<rparr>;
                 s1 = s\<lparr>chunks := (chunks s)(p \<mapsto> r')\<rparr>;
                 (b1, s2) = add_head_deadline Block p r' s1
             in if \<not> b1 then (Panic, s2)
                else (let (b2, s3) = add_head_deadline Fluid p r' s2
                      in if \<not> b2 then (Panic, s3) else reconcile_loop gen (Suc i) ps s3)))"

definition reconcile_active_chunks :: "ChunkPos list \<Rightarrow> Scheduler \<Rightarrow> unit outcome \<times> Scheduler" where
  "reconcile_active_chunks ps w =
     (case find (\<lambda>p. chunks (state w) p = None) ps of
        Some p \<Rightarrow> (Err (MissingContainer p), w)
      | None \<Rightarrow>
          (let s1 = (state w)\<lparr>active_block_deadlines := [], active_fluid_deadlines := []\<rparr>;
               (gen, s2) = advance_active_generation s1;
               (res, s3) = reconcile_loop gen 0 ps s2
           in (res, w\<lparr>state := s3\<rparr>)))"

definition put_list :: "ContainerId \<Rightarrow> TickKind \<Rightarrow> TickList \<Rightarrow> Store \<Rightarrow> Store" where
  "put_list cid k l st = st(cid := (st cid)\<lparr>lists := select_update k (\<lambda>_. l) (lists (st cid))\<rparr>)"

definition schedule_in :: "TickKind \<Rightarrow> FullChunkRef \<Rightarrow> TypeRef \<Rightarrow> BlockPos \<Rightarrow> i64 \<Rightarrow> TickPriority \<Rightarrow> i64 \<Rightarrow>
    Scheduler \<Rightarrow> bool outcome \<times> Scheduler" where
  "schedule_in k ch ty p trig prio sub w =
     (let cid = scheduled_tick_container ch; c = store w cid; cp = common_pos ch;
          (added, l) = schedule ty p trig prio sub (select k (lists c));
          w' = w\<lparr>store := put_list cid k l (store w)\<rparr>
      in if lifecycle c = PrePublication then (Ok added, w')
         else if lifecycle c = Finalized then (Err (MissingContainer cp), w)
         else if \<not> added then (Ok False, w)
         else if list_head k (store w' cid) = list_head k c then (Ok True, w')
         else
           (case chunks (state w') cp of
              None \<Rightarrow> (Err (MissingContainer cp), w')
            | Some r \<Rightarrow>
                if container r \<noteq> cid then (Err (ContainerMismatch cp), w')
                else
                  (case set_head cp k (list_head k (store w' cid)) (state w') of
                     (Ok _, s1) \<Rightarrow> (Ok True, w'\<lparr>state := s1\<rparr>)
                   | (Err e, s1) \<Rightarrow> (Err e, w'\<lparr>state := s1\<rparr>)
                   | (Panic, s1) \<Rightarrow> (Panic, w'\<lparr>state := s1\<rparr>))))"

definition schedule_block :: "FullChunkRef \<Rightarrow> TypeRef \<Rightarrow> BlockPos \<Rightarrow> i64 \<Rightarrow> TickPriority \<Rightarrow> i64 \<Rightarrow>
    Scheduler \<Rightarrow> bool outcome \<times> Scheduler" where
  "schedule_block = schedule_in Block"

definition schedule_fluid :: "FullChunkRef \<Rightarrow> TypeRef \<Rightarrow> BlockPos \<Rightarrow> i64 \<Rightarrow> TickPriority \<Rightarrow> i64 \<Rightarrow>
    Scheduler \<Rightarrow> bool outcome \<times> Scheduler" where
  "schedule_fluid = schedule_in Fluid"

section \<open>Invariant of the index\<close>

definition head_entry :: "TickKind \<Rightarrow> u64 \<Rightarrow> ChunkPos \<Rightarrow> RegisteredChunkTicks option \<Rightarrow> Deadline set" where
  "head_entry k gen p ro =
     (case ro of
        None \<Rightarrow> {}
      | Some r \<Rightarrow>
          if active_rank gen r = None then {}
          else (case head k r of None \<Rightarrow> {} | Some t \<Rightarrow> {deadline t p}))"

definition active_heads :: "TickKind \<Rightarrow> u64 \<Rightarrow> (ChunkPos \<rightharpoonup> RegisteredChunkTicks) \<Rightarrow> Deadline set" where
  "active_heads k gen f = (\<Union>p. head_entry k gen p (f p))"

definition kind_inv :: "TickKind \<Rightarrow> SchedulerState \<Rightarrow> bool" where
  "kind_inv k s \<longleftrightarrow>
     btree_wf (deadlines k s) \<and> set (deadlines k s) = active_heads k (active_generation s) (chunks s)"

definition ranks_inv :: "SchedulerState \<Rightarrow> bool" where
  "ranks_inv s \<longleftrightarrow>
     (\<forall>p r a. chunks s p = Some r \<longrightarrow> active r = Some a \<longrightarrow> generation a \<le> active_generation s) \<and>
     (\<forall>p q r r' n. chunks s p = Some r \<longrightarrow> chunks s q = Some r' \<longrightarrow>
        active_rank (active_generation s) r = Some n \<longrightarrow>
        active_rank (active_generation s) r' = Some n \<longrightarrow> p = q)"

definition index_inv :: "SchedulerState \<Rightarrow> bool" where
  "index_inv s \<longleftrightarrow> (\<forall>k. kind_inv k s) \<and> ranks_inv s"

lemma deadline_inject [simp]: "deadline t p = deadline t' p' \<longleftrightarrow> t = t' \<and> p = p'"
proof -
  have "pack_chunk_pos p = pack_chunk_pos p' \<longleftrightarrow> p = p'" by (metis to_pack_chunk_pos)
  then show ?thesis by (auto simp: deadline_def dest: signed_word_eqI)
qed

lemma deadline_pos [simp]: "deadline_pos (deadline t p) = p"
  by (simp add: deadline_pos_def deadline_def to_pack_chunk_pos)

lemma fst_deadline [simp]: "fst (deadline t p) = sint t"
  by (simp add: deadline_def)

lemma head_entry_pos: "d \<in> head_entry k gen p ro \<Longrightarrow> deadline_pos d = p"
  by (auto simp: head_entry_def split: option.splits if_splits)

lemma active_heads_iff:
  "d \<in> active_heads k gen f \<longleftrightarrow> d \<in> head_entry k gen (deadline_pos d) (f (deadline_pos d))"
  unfolding active_heads_def by (metis UN_iff UNIV_I head_entry_pos)

lemma active_heads_upd:
  "active_heads k gen (f(p := x)) = (active_heads k gen f - head_entry k gen p (f p)) \<union> head_entry k gen p x"
  by (rule set_eqI) (auto simp: active_heads_iff dest: head_entry_pos)

lemma active_heads_same:
  "head_entry k gen p x = head_entry k gen p (f p) \<Longrightarrow> active_heads k gen (f(p := x)) = active_heads k gen f"
  unfolding active_heads_def by (rule SUP_cong) auto

lemma head_set [simp]:
  "head k (registered_set_head k' t r) = (if k = k' then t else head k r)"
  "active (registered_set_head k t r) = active r"
  "container (registered_set_head k t r) = container r"
  "active_rank gen (registered_set_head k t r) = active_rank gen r"
  by (cases k; cases k'; simp add: head_def registered_set_head_def)
     (cases k; simp add: active_rank_def registered_set_head_def)+

lemma registered_set_head_same [simp]: "registered_set_head k (head k r) r = r"
  by (cases k) (simp_all add: head_def registered_set_head_def)

lemma deadlines_set [simp]:
  "deadlines k (set_deadlines k' d s) = (if k = k' then d else deadlines k s)"
  "chunks (set_deadlines k d s) = chunks s"
  "active_generation (set_deadlines k d s) = active_generation s"
  "deadlines k (s\<lparr>chunks := f\<rparr>) = deadlines k s"
  by (cases k; cases k'; simp add: deadlines_def set_deadlines_def)
     (cases k; simp add: deadlines_def set_deadlines_def)+

lemma head_entry_Some:
  "head_entry k gen p (Some r) =
     (if active_rank gen r = None then {} else (case head k r of None \<Rightarrow> {} | Some t \<Rightarrow> {deadline t p}))"
  by (simp add: head_entry_def)

lemma ranks_inv_upd:
  assumes "ranks_inv s" "chunks s p = Some r" "active r' = active r"
  shows "ranks_inv (s\<lparr>chunks := (chunks s)(p \<mapsto> r')\<rparr>)"
proof -
  have "active_rank g r' = active_rank g r" for g using assms(3) by (simp add: active_rank_def)
  with assms show ?thesis unfolding ranks_inv_def by (auto split: if_splits)
qed

lemma ranks_inv_cong:
  "chunks s = chunks s' \<Longrightarrow> active_generation s = active_generation s' \<Longrightarrow> ranks_inv s = ranks_inv s'"
  by (simp add: ranks_inv_def)

text \<open>Moving a head keeps the index, and none of its assertions fires.\<close>

lemma set_head_inv:
  assumes inv: "index_inv s" and r: "chunks s p = Some r"
  obtains s' where "set_head p k t s = (Ok (), s')" "index_inv s'"
    "chunks s' = (chunks s)(p \<mapsto> registered_set_head k t r)"
    "active_generation s' = active_generation s"
proof (cases "head k r = t")
  case True
  then have "registered_set_head k t r = r" by auto
  with True r inv show ?thesis
    by (intro that [of s]) (auto simp: set_head_def Let_def map_upd_triv)
next
  case False
  let ?gen = "active_generation s" and ?r' = "registered_set_head k t r"
  let ?act = "active_rank ?gen r \<noteq> None"
  have wf: "btree_wf (deadlines k s)" and mem: "set (deadlines k s) = active_heads k ?gen (chunks s)"
    using inv by (auto simp: index_inv_def kind_inv_def)
  define s1 where "s1 = (case head k r of Some pr \<Rightarrow>
      if ?act then set_deadlines k (snd (btree_remove (deadline pr p) (deadlines k s))) s else s | None \<Rightarrow> s)"
  define s2 where "s2 = s1\<lparr>chunks := (chunks s1)(p \<mapsto> ?r')\<rparr>"
  define s3 where "s3 = (case t of Some tr \<Rightarrow>
      if ?act then set_deadlines k (snd (btree_insert (deadline tr p) (deadlines k s2))) s2 else s2 | None \<Rightarrow> s2)"
  have c1: "chunks s1 = chunks s" "active_generation s1 = ?gen" "\<And>k'. k' \<noteq> k \<Longrightarrow> deadlines k' s1 = deadlines k' s"
    by (auto simp: s1_def split: option.splits)
  have d1: "btree_wf (deadlines k s1)"
    "set (deadlines k s1) = active_heads k ?gen (chunks s) - head_entry k ?gen p (Some r)"
    using wf mem
    by (simp_all add: s1_def head_entry_Some btree.del_inv btree.del_members split: option.split)
  have rem: "fst (btree_remove (deadline pr p) (deadlines k s))" if "head k r = Some pr" ?act for pr
  proof -
    have "deadline pr p \<in> head_entry k ?gen p (chunks s p)" using that r by (simp add: head_entry_Some)
    then show ?thesis using mem by (simp add: btree.del_changed active_heads_iff)
  qed
  have d2: "deadlines k' s2 = deadlines k' s1" "chunks s2 = (chunks s)(p \<mapsto> ?r')" "active_generation s2 = ?gen" for k'
    by (simp_all add: s2_def c1)
  have notin: "deadline tr p \<notin> set (deadlines k s2)" for tr
    using d1(2) d2(1) r by (simp add: active_heads_iff)
  have c3: "chunks s3 = (chunks s)(p \<mapsto> ?r')" "active_generation s3 = ?gen"
    "\<And>k'. k' \<noteq> k \<Longrightarrow> deadlines k' s3 = deadlines k' s"
    using d2 c1 by (auto simp: s3_def split: option.splits)
  have d3: "btree_wf (deadlines k s3)"
    "set (deadlines k s3) = set (deadlines k s2) \<union> head_entry k ?gen p (Some ?r')"
    using d1(1) d2
    by (simp_all add: s3_def head_entry_Some btree.ins_inv btree.ins_members split: option.split)
  have "set_head p k t s = (Ok (), s3)"
    using False r rem notin
    by (auto simp: set_head_def Let_def case_prod_beta s3_def s2_def s1_def btree.ins_changed split: option.split)
  moreover have "index_inv s3"
    unfolding index_inv_def
  proof (intro conjI allI)
    show "kind_inv k' s3" for k'
    proof (cases "k' = k")
      case True
      then show ?thesis
        using d3 d1 d2 r by (simp add: kind_inv_def c3 active_heads_upd)
    next
      case False
      then have "head_entry k' ?gen p (Some ?r') = head_entry k' ?gen p (chunks s p)"
        using r by (simp add: head_entry_Some)
      with False inv show ?thesis
        by (simp add: kind_inv_def c3 active_heads_same index_inv_def)
    qed
    have "ranks_inv (s\<lparr>chunks := (chunks s)(p \<mapsto> ?r')\<rparr>)"
      using inv r by (intro ranks_inv_upd) (auto simp: index_inv_def)
    then show "ranks_inv s3" by (rule ranks_inv_cong [THEN iffD1, rotated -1]) (simp_all add: c3)
  qed
  ultimately show ?thesis using that c3 by blast
qed


section \<open>Invariant of the world scheduler\<close>

definition heads_agree :: "Scheduler \<Rightarrow> bool" where
  "heads_agree w \<longleftrightarrow>
     (\<forall>p r. chunks (state w) p = Some r \<longrightarrow>
        lifecycle (store w (container r)) = Registered \<and>
        (\<forall>k. head k r = list_head k (store w (container r))))"

definition containers_owned :: "Scheduler \<Rightarrow> bool" where
  "containers_owned w \<longleftrightarrow>
     (\<forall>p q r r'. chunks (state w) p = Some r \<longrightarrow> chunks (state w) q = Some r' \<longrightarrow>
        container r = container r' \<longrightarrow> p = q) \<and>
     (\<forall>c. lifecycle (store w c) = Registered \<longrightarrow>
        (\<exists>p r. chunks (state w) p = Some r \<and> container r = c))"

definition queues_sorted :: "Scheduler \<Rightarrow> bool" where
  "queues_sorted w \<longleftrightarrow> (\<forall>c k. sorted (map drain_key (ticks (select k (lists (store w c))))))"

definition sched_inv :: "Scheduler \<Rightarrow> bool" where
  "sched_inv w \<longleftrightarrow> index_inv (state w) \<and> heads_agree w \<and> containers_owned w \<and> queues_sorted w"

text \<open>A chunk handle is consistent when its container, if registered at all, is registered at
  the chunk's own position.\<close>

definition chunk_ref_ok :: "FullChunkRef \<Rightarrow> Scheduler \<Rightarrow> bool" where
  "chunk_ref_ok ch w \<longleftrightarrow>
     (\<forall>p r. chunks (state w) p = Some r \<longrightarrow> container r = scheduled_tick_container ch \<longrightarrow> p = common_pos ch)"

lemma select_update_simps [simp]:
  "select k (select_update k' f ls) = (if k = k' then f (select k ls) else select k ls)"
  by (cases k; cases k') (simp_all add: select_def select_update_def)

lemma put_list_simps [simp]:
  "put_list c k l st c' = (if c = c' then (st c)\<lparr>lists := select_update k (\<lambda>_. l) (lists (st c))\<rparr> else st c')"
  by (simp add: put_list_def)

lemma list_head_lists [simp]:
  "list_head k (c\<lparr>lifecycle := lc\<rparr>) = list_head k c"
  "list_head k (c\<lparr>lists := ls\<rparr>) = map_option trigger_tick (peek (select k ls))"
  by (simp_all add: list_head_def)

lemma schedule_sorted:
  "sorted (map drain_key (ticks l)) \<Longrightarrow> sorted (map drain_key (ticks (snd (schedule ty p trig prio sub l))))"
  by (simp add: schedule_def)

lemma unpack_sorted:
  "sorted (map drain_key (ticks l)) \<Longrightarrow> sorted (map drain_key (ticks (unpack now l)))"
  by (simp add: unpack_def split: option.split)

lemma sched_inv_new:
  assumes "\<And>c. lifecycle (st c) \<noteq> Registered"
    and "\<And>c k. sorted (map drain_key (ticks (select k (lists (st c)))))"
  shows "sched_inv (scheduler_new st)"
proof -
  have "kind_inv k (state (scheduler_new st))" for k
    by (cases k) (simp_all add: kind_inv_def scheduler_new_def deadlines_def btree_wf_def active_heads_def
        head_entry_def)
  with assms show ?thesis
    by (simp add: sched_inv_def index_inv_def ranks_inv_def heads_agree_def containers_owned_def
        queues_sorted_def scheduler_new_def)
qed

text \<open>Writing the registered entry of one position together with its container.\<close>

lemma sched_inv_put:
  assumes inv: "sched_inv w" and s': "index_inv s'" "chunks s' = (chunks (state w))(p \<mapsto> r)"
    and only: "\<And>q x. chunks (state w) q = Some x \<Longrightarrow> container x = container r \<Longrightarrow> q = p"
    and same: "\<And>x. chunks (state w) p = Some x \<Longrightarrow> container x = container r"
    and c: "lifecycle c = Registered" "\<And>k. head k r = list_head k c"
      "\<And>k. sorted (map drain_key (ticks (select k (lists c))))"
  shows "sched_inv (w\<lparr>store := (store w)(container r := c), state := s'\<rparr>)" (is "sched_inv ?w")
  unfolding sched_inv_def
proof (intro conjI)
  have agree: "heads_agree w" and owned: "containers_owned w" and srt: "queues_sorted w"
    using inv by (simp_all add: sched_inv_def)
  show "index_inv (state ?w)" using s' by simp
  show "queues_sorted ?w" using srt c(3) by (simp add: queues_sorted_def)
  show "heads_agree ?w"
    unfolding heads_agree_def
  proof (intro allI impI)
    fix q x assume "chunks (state ?w) q = Some x"
    then consider "q = p" "x = r" | "q \<noteq> p" "chunks (state w) q = Some x"
      using s'(2) by (auto split: if_splits)
    then show "lifecycle (store ?w (container x)) = Registered \<and>
        (\<forall>k. head k x = list_head k (store ?w (container x)))"
      using agree only c by cases (auto simp: heads_agree_def)
  qed
  show "containers_owned ?w"
    unfolding containers_owned_def
  proof (intro conjI allI impI)
    fix q q' x x' assume "chunks (state ?w) q = Some x" "chunks (state ?w) q' = Some x'" "container x = container x'"
    then show "q = q'"
      using s'(2) only owned unfolding containers_owned_def by (auto split: if_splits)
  next
    fix cid assume "lifecycle (store ?w cid) = Registered"
    then show "\<exists>q x. chunks (state ?w) q = Some x \<and> container x = cid"
    proof (cases "cid = container r")
      case False
      with \<open>lifecycle (store ?w cid) = Registered\<close> owned
      obtain q x where "chunks (state w) q = Some x" "container x = cid"
        by (auto simp: containers_owned_def)
      with False same s'(2) show ?thesis by (intro exI [of _ q] exI [of _ x]) auto
    qed (use s'(2) in auto)
  qed
qed

lemma container_unique:
  "sched_inv w \<Longrightarrow> chunks (state w) p = Some r \<Longrightarrow> chunks (state w) q = Some x \<Longrightarrow>
   container x = container r \<Longrightarrow> q = p"
  unfolding sched_inv_def containers_owned_def by metis

lemma sched_inv_head_update:
  assumes inv: "sched_inv w" and r: "chunks (state w) p = Some r"
    and s': "index_inv s'" "chunks s' = (chunks (state w))(p \<mapsto> r')"
      "container r' = container r"
    and c: "lifecycle c = Registered" "\<And>k. head k r' = list_head k c"
      "\<And>k. sorted (map drain_key (ticks (select k (lists c))))"
  shows "sched_inv (w\<lparr>store := (store w)(container r := c), state := s'\<rparr>)"
proof -
  have "sched_inv (w\<lparr>store := (store w)(container r' := c), state := s'\<rparr>)"
  proof (rule sched_inv_put [OF inv s'(1,2)])
    show "q = p" if "chunks (state w) q = Some x" "container x = container r'" for q x
      using container_unique [OF inv r that(1)] that(2) s'(3) by simp
  qed (use r s'(3) c in simp_all)
  then show ?thesis using s'(3) by simp
qed

lemma registered_lifecycle:
  "sched_inv w \<Longrightarrow> chunks (state w) p = Some r \<Longrightarrow> lifecycle (store w (container r)) = Registered"
  by (auto simp: sched_inv_def heads_agree_def)

lemma sched_inv_store_unregistered:
  assumes inv: "sched_inv w" and lc: "lifecycle (store w c) \<noteq> Registered"
    and c': "lifecycle c' \<noteq> Registered" "\<And>k. sorted (map drain_key (ticks (select k (lists c'))))"
  shows "sched_inv (w\<lparr>store := (store w)(c := c')\<rparr>)"
proof -
  have "container r \<noteq> c" if "chunks (state w) q = Some r" for q r
    using registered_lifecycle [OF inv that] lc by auto
  with inv c' show ?thesis
    unfolding sched_inv_def heads_agree_def containers_owned_def queues_sorted_def by auto
qed

lemma register_chunk_inv:
  assumes inv: "sched_inv w"
  shows "fst (register_chunk ch w) \<noteq> Panic \<and> sched_inv (snd (register_chunk ch w))"
proof -
  let ?cid = "scheduled_tick_container ch" and ?p = "common_pos ch"
  let ?c = "store w ?cid"
  show ?thesis
  proof (cases "lifecycle ?c = PrePublication \<and> chunks (state w) ?p = None")
    case False
    with inv show ?thesis by (auto simp: register_chunk_def Let_def)
  next
    case True
    define r where "r = \<lparr>container = ?cid, block_head = list_head Block ?c,
        fluid_head = list_head Fluid ?c, active = None\<rparr>"
    define s' where "s' = (state w)\<lparr>chunks := (chunks (state w))(?p \<mapsto> r)\<rparr>"
    have eq: "register_chunk ch w = (Ok (), w\<lparr>store := (store w)(?cid := ?c\<lparr>lifecycle := Registered\<rparr>), state := s'\<rparr>)"
      using True by (simp add: register_chunk_def Let_def r_def s'_def)
    have "kind_inv k s'" for k
    proof -
      have "head_entry k g ?p (Some r) = head_entry k g ?p (chunks (state w) ?p)" for g
        using True by (simp add: head_entry_def r_def active_rank_def)
      with inv show ?thesis
        by (simp add: s'_def kind_inv_def active_heads_same sched_inv_def index_inv_def)
    qed
    moreover have "ranks_inv s'"
      using inv by (auto simp: s'_def r_def ranks_inv_def sched_inv_def index_inv_def active_rank_def split: if_splits)
    moreover have "head k r = list_head k ?c" for k by (cases k) (simp_all add: r_def head_def)
    moreover have "container q = ?cid \<Longrightarrow> chunks (state w) p' \<noteq> Some q" for p' q
      using registered_lifecycle [OF inv, of p' q] True by auto
    moreover have "sorted (map drain_key (ticks (select k (lists ?c))))" for k
      using inv by (simp add: sched_inv_def queues_sorted_def)
    ultimately have "sched_inv (w\<lparr>store := (store w)(container r := ?c\<lparr>lifecycle := Registered\<rparr>), state := s'\<rparr>)"
      using True by (intro sched_inv_put [OF inv, of s' ?p r]) (auto simp: s'_def r_def index_inv_def)
    then show ?thesis unfolding eq by (simp add: r_def)
  qed
qed

lemma head_eq: "head Block r = block_head r" "head Fluid r = fluid_head r"
  by (simp_all add: head_def)

lemma unpack_chunk_inv:
  assumes inv: "sched_inv w"
  shows "fst (unpack_chunk p now w) \<noteq> Panic \<and> sched_inv (snd (unpack_chunk p now w))"
proof (cases "chunks (state w) p")
  case None
  with inv show ?thesis by (simp add: unpack_chunk_def)
next
  case (Some r)
  let ?c = "store w (container r)"
  let ?c' = "?c\<lparr>lists := \<lparr>block = unpack now (block (lists ?c)), fluid = unpack now (fluid (lists ?c))\<rparr>\<rparr>"
  have reg: "lifecycle ?c = Registered" using inv Some by (auto simp: sched_inv_def heads_agree_def)
  obtain s1 where s1: "set_head p Block (list_head Block ?c') (state w) = (Ok (), s1)" "index_inv s1"
    "chunks s1 = (chunks (state w))(p \<mapsto> registered_set_head Block (list_head Block ?c') r)"
    using set_head_inv [OF _ Some] inv unfolding sched_inv_def by blast
  then have r1: "chunks s1 p = Some (registered_set_head Block (list_head Block ?c') r)" by simp
  obtain s2 where s2: "set_head p Fluid (list_head Fluid ?c') s1 = (Ok (), s2)" "index_inv s2"
    "chunks s2 = (chunks s1)(p \<mapsto>
       registered_set_head Fluid (list_head Fluid ?c') (registered_set_head Block (list_head Block ?c') r))"
    using set_head_inv [OF s1(2) r1] by blast
  let ?r' = "registered_set_head Fluid (list_head Fluid ?c') (registered_set_head Block (list_head Block ?c') r)"
  have eq: "unpack_chunk p now w = (Ok (), w\<lparr>store := (store w)(container r := ?c'), state := s2\<rparr>)"
    using Some reg s1(1) s2(1) by (simp add: unpack_chunk_def Let_def)
  have "sched_inv (w\<lparr>store := (store w)(container r := ?c'), state := s2\<rparr>)"
  proof (rule sched_inv_head_update [OF inv Some s2(2), of ?r'])
    show "chunks s2 = (chunks (state w))(p \<mapsto> ?r')" using s2(3) s1(3) by simp
    show "head k ?r' = list_head k ?c'" for k by (cases k) simp_all
    have "sorted (map drain_key (ticks (select k (lists ?c))))" for k
      using inv by (simp add: sched_inv_def queues_sorted_def)
    from this [of Block] this [of Fluid]
    show "sorted (map drain_key (ticks (select k (lists ?c'))))" for k
      by (cases k) (simp_all add: select_def unpack_sorted)
  qed (use reg in simp_all)
  with eq show ?thesis by simp
qed

lemma schedule_in_inv:
  assumes inv: "sched_inv w" and ok: "chunk_ref_ok ch w"
  shows "fst (schedule_in k ch ty p trig prio sub w) \<noteq> Panic \<and>
    sched_inv (snd (schedule_in k ch ty p trig prio sub w))"
proof -
  let ?cid = "scheduled_tick_container ch" and ?cp = "common_pos ch"
  let ?c = "store w ?cid" and ?sch = "schedule ty p trig prio sub (select k (lists (store w ?cid)))"
  let ?c' = "?c\<lparr>lists := select_update k (\<lambda>_. snd ?sch) (lists ?c)\<rparr>"
  let ?w' = "w\<lparr>store := (store w)(?cid := ?c')\<rparr>"
  have put: "put_list ?cid k (snd ?sch) (store w) = (store w)(?cid := ?c')" by (simp add: put_list_def)
  note def = schedule_in_def Let_def case_prod_beta put fun_upd_same
  have srt: "sorted (map drain_key (ticks (select k' (lists ?c'))))" for k'
    using inv by (simp add: sched_inv_def queues_sorted_def schedule_sorted)
  show ?thesis
  proof (cases "lifecycle ?c = Registered")
    case False
    then have neq: "container r \<noteq> ?cid" if "chunks (state w) q = Some r" for q r
      using registered_lifecycle [OF inv that] by auto
    have "sched_inv ?w'" using inv False srt by (intro sched_inv_store_unregistered) auto
    with inv False neq show ?thesis by (auto simp: def split: option.split)
  next
    case True
    then obtain r where r: "chunks (state w) ?cp = Some r" "container r = ?cid"
      using inv ok unfolding sched_inv_def containers_owned_def chunk_ref_ok_def by metis
    obtain s1 where s1: "set_head ?cp k (list_head k ?c') (state w) = (Ok (), s1)" "index_inv s1"
      "chunks s1 = (chunks (state w))(?cp \<mapsto> registered_set_head k (list_head k ?c') r)"
      using set_head_inv [OF _ r(1)] inv unfolding sched_inv_def by blast
    have heads: "head k' (registered_set_head k (list_head k ?c') r) = list_head k' ?c'" for k'
      using inv r by (auto simp: sched_inv_def heads_agree_def list_head_def)
    have upd: "sched_inv (w\<lparr>store := (store w)(?cid := ?c'), state := s1\<rparr>)"
      using sched_inv_head_update [OF inv r(1) s1(2,3), of ?c'] True heads srt r(2) by simp
    have same: "sched_inv ?w'" if "list_head k ?c' = list_head k ?c"
    proof -
      have "list_head k ?c' = head k r" using that inv r by (auto simp: sched_inv_def heads_agree_def)
      then have eq: "chunks (state w) = (chunks (state w))(?cp \<mapsto> registered_set_head k (list_head k ?c') r)"
        using r(1) by (simp add: map_upd_triv)
      have "sched_inv (w\<lparr>store := (store w)(container r := ?c'), state := state w\<rparr>)"
        by (rule sched_inv_head_update [OF inv r(1) _ eq]) (use inv True heads srt r(2) in \<open>simp_all add: sched_inv_def\<close>)
      with r(2) show ?thesis by simp
    qed
    show ?thesis
    proof (cases "fst ?sch")
      case added: True
      show ?thesis
      proof (cases "list_head k ?c' = list_head k ?c")
        case eq: True
        with same True added show ?thesis by (simp add: def del: list_head_lists)
      next
        case neq: False
        with upd True added r s1(1) show ?thesis by (simp add: def del: list_head_lists)
      qed
    qed (use True inv in \<open>simp add: def\<close>)
  qed
qed


lemma remove_head_deadline_inv:
  assumes "btree_wf (deadlines k s)" "head_entry k gen p (Some r) \<subseteq> set (deadlines k s)"
    "active_rank gen r \<noteq> None"
  shows "\<exists>d. remove_head_deadline k p r s = (True, set_deadlines k d s) \<and> btree_wf d \<and>
    set d = set (deadlines k s) - head_entry k gen p (Some r)"
proof (cases "head k r")
  case None
  have "set_deadlines k (deadlines k s) s = s" by (cases k) (simp_all add: set_deadlines_def deadlines_def)
  with None assms show ?thesis
    by (intro exI [of _ "deadlines k s"]) (simp_all add: remove_head_deadline_def head_entry_Some)
next
  case (Some h)
  with assms have "deadline h p \<in> set (deadlines k s)" by (simp add: head_entry_Some)
  with Some assms show ?thesis
    by (intro exI [of _ "snd (btree_remove (deadline h p) (deadlines k s))"])
      (auto simp: remove_head_deadline_def head_entry_Some case_prod_beta Let_def btree.del_changed
        btree.del_inv btree.del_members)
qed

lemma set_deadlines_collapse:
  "deadlines k (set_deadlines Fluid d (set_deadlines Block e s)) = (case k of Block \<Rightarrow> e | Fluid \<Rightarrow> d)"
  by (cases k) simp_all

lemma unregister_chunk_inv:
  assumes inv: "sched_inv w"
  shows "fst (unregister_chunk p w) = Ok () \<and> sched_inv (snd (unregister_chunk p w))"
proof (cases "chunks (state w) p")
  case None
  with inv show ?thesis by (simp add: unregister_chunk_def)
next
  case (Some r)
  let ?s = "state w" and ?gen = "active_generation (state w)"
  let ?s1 = "?s\<lparr>chunks := (chunks ?s)(p := None)\<rparr>"
  have kinv: "btree_wf (deadlines k ?s)" "set (deadlines k ?s) = active_heads k ?gen (chunks ?s)" for k
    using inv by (auto simp: sched_inv_def index_inv_def kind_inv_def)
  have sub: "head_entry k ?gen p (Some r) \<subseteq> set (deadlines k ?s)" for k
    using Some unfolding kinv(2) active_heads_def by (metis UN_upper UNIV_I)
  have ranks: "ranks_inv ?s1"
    using inv by (auto simp: sched_inv_def index_inv_def ranks_inv_def split: if_splits)
  obtain s2 where eq: "unregister_chunk p w =
      (Ok (), w\<lparr>store := (store w)(container r := (store w (container r))\<lparr>lifecycle := Finalized\<rparr>), state := s2\<rparr>)"
    and s2: "index_inv s2" "chunks s2 = (chunks ?s)(p := None)"
  proof (cases "active_rank ?gen r = None")
    case True
    have "kind_inv k ?s1" for k
      using kinv [of k] True Some
      by (simp add: kind_inv_def active_heads_same head_entry_def)
    with True Some ranks show ?thesis
      by (intro that [of ?s1]) (simp_all add: unregister_chunk_def Let_def index_inv_def)
  next
    case False
    obtain e where e: "remove_head_deadline Block p r ?s1 = (True, set_deadlines Block e ?s1)" "btree_wf e"
      "set e = set (deadlines Block ?s1) - head_entry Block ?gen p (Some r)"
      using remove_head_deadline_inv [of Block ?s1 ?gen p r] kinv(1) [of Block] sub [of Block] False by auto
    let ?t = "set_deadlines Block e ?s1"
    obtain d where d: "remove_head_deadline Fluid p r ?t = (True, set_deadlines Fluid d ?t)" "btree_wf d"
      "set d = set (deadlines Fluid ?t) - head_entry Fluid ?gen p (Some r)"
      using remove_head_deadline_inv [of Fluid ?t ?gen p r] kinv(1) [of Fluid] sub [of Fluid] False by auto
    let ?s2 = "set_deadlines Fluid d ?t"
    have "kind_inv k ?s2" for k
      using e d kinv [of k] Some by (cases k) (simp_all add: kind_inv_def active_heads_upd head_entry_def)
    moreover have "ranks_inv ?s2" by (rule ranks_inv_cong [THEN iffD1, OF _ _ ranks]) simp_all
    ultimately show ?thesis using False Some e(1) d(1)
      by (intro that [of ?s2]) (simp_all add: unregister_chunk_def Let_def index_inv_def)
  qed
  have owned: "\<exists>q x. chunks s2 q = Some x \<and> container x = c"
    if reg: "lifecycle (store w c) = Registered" "c \<noteq> container r" for c
  proof -
    obtain q x where "chunks ?s q = Some x" "container x = c"
      using reg inv unfolding sched_inv_def containers_owned_def by metis
    with reg(2) Some s2(2) show ?thesis by (intro exI [of _ q] exI [of _ x]) auto
  qed
  have others: "container x \<noteq> container r" if "chunks s2 q = Some x" for q x
    using that s2(2) container_unique [OF inv Some, of q x] by (auto split: if_splits)
  have "sched_inv (snd (unregister_chunk p w))"
    unfolding eq sched_inv_def snd_conv
  proof (intro conjI)
    let ?w = "w\<lparr>store := (store w)(container r := (store w (container r))\<lparr>lifecycle := Finalized\<rparr>), state := s2\<rparr>"
    show "index_inv (state ?w)" using s2 by simp
    show "heads_agree ?w"
      using inv others s2(2) by (auto simp: heads_agree_def sched_inv_def split: if_splits)
    show "containers_owned ?w"
      using inv owned s2(2) by (auto simp: containers_owned_def sched_inv_def split: if_splits)
    show "queues_sorted ?w" using inv by (simp add: queues_sorted_def sched_inv_def)
  qed
  with eq show ?thesis by simp
qed


text \<open>Reconciliation changes only the active marks.\<close>

definition marks_only :: "SchedulerState \<Rightarrow> SchedulerState \<Rightarrow> bool" where
  "marks_only s s' \<longleftrightarrow>
     (\<forall>p. map_option (\<lambda>r. r\<lparr>active := None\<rparr>) (chunks s p) = map_option (\<lambda>r. r\<lparr>active := None\<rparr>) (chunks s' p))"

lemma marks_only_trans: "marks_only s s' \<Longrightarrow> marks_only s' s'' \<Longrightarrow> marks_only s s''"
  by (simp add: marks_only_def)

lemma marks_only_upd:
  "chunks s p = Some r \<Longrightarrow> chunks s' = (chunks s)(p \<mapsto> r\<lparr>active := a\<rparr>) \<Longrightarrow> marks_only s s'"
  by (auto simp: marks_only_def)

lemma marks_onlyE:
  assumes "marks_only s s'" "chunks s' p = Some r'"
  obtains r where "chunks s p = Some r" "container r = container r'" "\<And>k. head k r = head k r'"
proof -
  from assms obtain r where r: "chunks s p = Some r" "r\<lparr>active := None\<rparr> = r'\<lparr>active := None\<rparr>"
    unfolding marks_only_def by (metis (no_types, lifting) map_option_eq_Some)
  have "container (r\<lparr>active := None\<rparr>) = container (r'\<lparr>active := None\<rparr>)"
    "head k (r\<lparr>active := None\<rparr>) = head k (r'\<lparr>active := None\<rparr>)" for k using r(2) by simp_all
  then show ?thesis using r(1) that [of r] by (simp add: head_def cong: TickKind.case_cong)
qed

lemma marks_only_sym: "marks_only s s' \<Longrightarrow> marks_only s' s"
  by (simp add: marks_only_def)

lemma sched_inv_marks:
  assumes inv: "sched_inv w" and s': "index_inv s'" "marks_only (state w) s'"
  shows "sched_inv (w\<lparr>state := s'\<rparr>)"
  unfolding sched_inv_def
proof (intro conjI)
  show "heads_agree (w\<lparr>state := s'\<rparr>)"
    unfolding heads_agree_def
  proof (intro allI impI)
    fix p r assume "chunks (state (w\<lparr>state := s'\<rparr>)) p = Some r"
    then obtain r0 where r0: "chunks (state w) p = Some r0" "container r0 = container r" "\<And>k. head k r0 = head k r"
      using marks_onlyE [OF s'(2), of p r] by auto
    have "head k r0 = list_head k (store w (container r0))" for k
      using inv r0(1) by (simp add: sched_inv_def heads_agree_def)
    with r0 registered_lifecycle [OF inv r0(1)]
    show "lifecycle (store (w\<lparr>state := s'\<rparr>) (container r)) = Registered \<and>
        (\<forall>k. head k r = list_head k (store (w\<lparr>state := s'\<rparr>) (container r)))" by simp
  qed
  show "containers_owned (w\<lparr>state := s'\<rparr>)"
    unfolding containers_owned_def
  proof (intro conjI allI impI)
    fix p q r r' assume "chunks (state (w\<lparr>state := s'\<rparr>)) p = Some r" "chunks (state (w\<lparr>state := s'\<rparr>)) q = Some r'"
      "container r = container r'"
    then show "p = q"
      using container_unique [OF inv] marks_onlyE [OF s'(2)]
      by simp (metis (no_types, lifting))
  next
    fix c assume "lifecycle (store (w\<lparr>state := s'\<rparr>) c) = Registered"
    then obtain p r where "chunks (state w) p = Some r" "container r = c"
      using inv by (auto simp: sched_inv_def containers_owned_def)
    then show "\<exists>p r. chunks (state (w\<lparr>state := s'\<rparr>)) p = Some r \<and> container r = c"
      by (auto elim!: marks_onlyE [OF marks_only_sym [OF s'(2)]])
  qed
qed (use s' inv in \<open>simp_all add: queues_sorted_def sched_inv_def\<close>)

definition reconcile_loop_inv :: "u64 \<Rightarrow> nat \<Rightarrow> ChunkPos list \<Rightarrow> SchedulerState \<Rightarrow> bool" where
  "reconcile_loop_inv gen i ps s \<longleftrightarrow>
     index_inv s \<and> active_generation s = gen \<and> distinct ps \<and>
     (\<forall>p r n. chunks s p = Some r \<longrightarrow> active_rank gen r = Some n \<longrightarrow> n < i) \<and>
     (\<forall>p \<in> set ps. \<exists>r. chunks s p = Some r \<and> active_rank gen r = None)"

lemma add_head_deadline_inv:
  assumes "btree_wf (deadlines k s)" "active_rank gen r \<noteq> None"
    "head_entry k gen p (Some r) \<inter> set (deadlines k s) = {}"
  shows "\<exists>d. add_head_deadline k p r s = (True, set_deadlines k d s) \<and> btree_wf d \<and>
    set d = set (deadlines k s) \<union> head_entry k gen p (Some r)"
proof (cases "head k r")
  case None
  have "set_deadlines k (deadlines k s) s = s" by (cases k) (simp_all add: set_deadlines_def deadlines_def)
  with None assms show ?thesis
    by (intro exI [of _ "deadlines k s"]) (simp_all add: add_head_deadline_def head_entry_Some)
next
  case (Some h)
  with assms have "deadline h p \<notin> set (deadlines k s)" by (auto simp: head_entry_Some)
  with Some assms show ?thesis
    by (intro exI [of _ "snd (btree_insert (deadline h p) (deadlines k s))"])
      (auto simp: add_head_deadline_def head_entry_Some case_prod_beta Let_def btree.ins_changed
        btree.ins_inv btree.ins_members)
qed


lemma reconcile_loop_step:
  assumes inv: "reconcile_loop_inv gen i (p # ps) s"
  obtains s' where "reconcile_loop gen i (p # ps) s = reconcile_loop gen (Suc i) ps s'"
    "reconcile_loop_inv gen (Suc i) ps s'" "marks_only s s'"
proof -
  from inv obtain r where r: "chunks s p = Some r" "active_rank gen r = None"
    and idx: "index_inv s" and gen: "active_generation s = gen" and ps: "p \<notin> set ps" "distinct ps"
    by (auto simp: reconcile_loop_inv_def)
  have small: "n < i" if "chunks s q = Some x" "active_rank gen x = Some n" for q x n
    using inv that by (auto simp: reconcile_loop_inv_def)
  let ?r' = "r\<lparr>active := Some \<lparr>generation = gen, active_rank_of = i\<rparr>\<rparr>"
  let ?s1 = "s\<lparr>chunks := (chunks s)(p \<mapsto> ?r')\<rparr>"
  have rank': "active_rank gen ?r' = Some i" by (simp add: active_rank_def)
  have kinv: "btree_wf (deadlines k s)" "set (deadlines k s) = active_heads k gen (chunks s)" for k
    using idx gen by (auto simp: index_inv_def kind_inv_def)
  have fresh: "head_entry k gen p (Some ?r') \<inter> set (deadlines k s) = {}" for k
  proof -
    have "d \<notin> set (deadlines k s)" if "deadline_pos d = p" for d
      using that r by (simp add: kinv(2) active_heads_iff head_entry_def)
    then show ?thesis by (auto dest: head_entry_pos)
  qed
  obtain e where e: "add_head_deadline Block p ?r' ?s1 = (True, set_deadlines Block e ?s1)" "btree_wf e"
    "set e = set (deadlines Block s) \<union> head_entry Block gen p (Some ?r')"
    using add_head_deadline_inv [of Block ?s1 gen ?r' p] kinv(1) fresh rank' by auto
  let ?t = "set_deadlines Block e ?s1"
  obtain d where d: "add_head_deadline Fluid p ?r' ?t = (True, set_deadlines Fluid d ?t)" "btree_wf d"
    "set d = set (deadlines Fluid s) \<union> head_entry Fluid gen p (Some ?r')"
    using add_head_deadline_inv [of Fluid ?t gen ?r' p] kinv(1) fresh rank' by auto
  let ?s2 = "set_deadlines Fluid d ?t"
  have notgen: "\<not> (case active r of None \<Rightarrow> False | Some a \<Rightarrow> generation a = gen)"
    using r(2) by (auto simp: active_rank_def split: option.splits if_splits)
  have eq: "reconcile_loop gen i (p # ps) s = reconcile_loop gen (Suc i) ps ?s2"
    using r(1) notgen e(1) d(1) by (simp add: Let_def)
  have "head_entry k gen p (chunks s p) = {}" for k using r by (simp add: head_entry_def)
  then have "kind_inv k ?s2" for k
    using e d kinv [of k] gen by (cases k) (simp_all add: kind_inv_def active_heads_upd)
  moreover have "ranks_inv ?s2"
    using idx gen small rank' unfolding index_inv_def ranks_inv_def by (auto split: if_splits)
  moreover have "n < Suc i" if "chunks ?s2 q = Some x" "active_rank gen x = Some n" for q x n
    using that small rank' by (auto split: if_splits dest: less_SucI)
  moreover have "\<exists>x. chunks ?s2 q = Some x \<and> active_rank gen x = None" if "q \<in> set ps" for q
    using that inv ps by (auto simp: reconcile_loop_inv_def)
  ultimately have "reconcile_loop_inv gen (Suc i) ps ?s2"
    using gen ps by (simp add: reconcile_loop_inv_def index_inv_def)
  moreover have "marks_only s ?s2" using r(1) by (intro marks_only_upd) auto
  ultimately show ?thesis using eq that by blast
qed

lemma reconcile_loop_ok:
  "reconcile_loop_inv gen i ps s \<Longrightarrow>
   \<exists>s'. reconcile_loop gen i ps s = (Ok (), s') \<and> index_inv s' \<and> marks_only s s' \<and> active_generation s' = gen"
proof (induction ps arbitrary: i s)
  case Nil
  then show ?case by (simp add: reconcile_loop_inv_def marks_only_def)
next
  case (Cons p ps)
  then show ?case using reconcile_loop_step [OF Cons.prems] marks_only_trans by metis
qed


lemma word_less_succ: "(x :: 'a::len word) \<noteq> - 1 \<Longrightarrow> x < x + 1"
  by (metis inc_less_eq_triv_imp linorder_less_linear word_le_less_eq)

lemma advance_active_generation_ok:
  assumes idx: "index_inv s"
    and adv: "advance_active_generation (s\<lparr>active_block_deadlines := [], active_fluid_deadlines := []\<rparr>) = (gen, s')"
    and ps: "distinct ps" "\<forall>p \<in> set ps. chunks s p \<noteq> None"
  shows "reconcile_loop_inv gen 0 ps s' \<and> marks_only s s'"
proof -
  have g: "active_generation s' = gen" using adv by (auto simp: advance_active_generation_def Let_def split: if_splits)
  have dl: "deadlines k s' = []" for k
    using adv by (cases k) (auto simp: advance_active_generation_def Let_def deadlines_def split: if_splits)
  have marks: "marks_only s s'"
    using adv by (auto simp: advance_active_generation_def Let_def marks_only_def option.map_comp comp_def split: if_splits)
  have old: "active_rank gen r = None \<and> (\<forall>a. active r = Some a \<longrightarrow> generation a \<le> gen)"
    if r: "chunks s' p = Some r" for p r
  proof (cases "active_generation s = - 1")
    case True
    with adv r show ?thesis by (auto simp: advance_active_generation_def active_rank_def)
  next
    case False
    with adv r have gen: "gen = active_generation s + 1" and "chunks s p = Some r"
      by (auto simp: advance_active_generation_def Let_def)
    then have "generation a \<le> active_generation s" if "active r = Some a" for a
      using that idx by (simp add: index_inv_def ranks_inv_def)
    then have "generation a < gen" if "active r = Some a" for a
      using that word_less_succ [OF False] gen by (simp add: order.strict_trans1)
    then show ?thesis by (force simp: active_rank_def split: option.splits)
  qed
  have "active_heads k gen (chunks s') = {}" for k
    using old by (auto simp: active_heads_def head_entry_def split: option.splits)
  then have "kind_inv k s'" for k using dl g by (simp add: kind_inv_def btree_wf_def)
  moreover have "ranks_inv s'" using old g by (auto simp: ranks_inv_def)
  moreover have "\<exists>r. chunks s' p = Some r \<and> active_rank gen r = None" if "p \<in> set ps" for p
  proof -
    from that ps(2) obtain r where "chunks s p = Some r" by auto
    then obtain r' where "chunks s' p = Some r'" by (rule marks_onlyE [OF marks_only_sym [OF marks]])
    with old show ?thesis by blast
  qed
  ultimately show ?thesis using g ps(1) marks old by (auto simp: reconcile_loop_inv_def index_inv_def)
qed

lemma reconcile_active_chunks_inv:
  assumes inv: "sched_inv w" and ps: "distinct ps"
  shows "fst (reconcile_active_chunks ps w) \<noteq> Panic \<and> sched_inv (snd (reconcile_active_chunks ps w))"
proof (cases "find (\<lambda>p. chunks (state w) p = None) ps")
  case (Some p)
  with inv show ?thesis by (simp add: reconcile_active_chunks_def)
next
  case None
  then have reg: "\<forall>p \<in> set ps. chunks (state w) p \<noteq> None" by (auto simp: find_None_iff)
  obtain gen s2 where adv: "advance_active_generation
      ((state w)\<lparr>active_block_deadlines := [], active_fluid_deadlines := []\<rparr>) = (gen, s2)" by force
  from inv have "index_inv (state w)" by (simp add: sched_inv_def)
  from advance_active_generation_ok [OF this adv ps reg]
  have li: "reconcile_loop_inv gen 0 ps s2" and m1: "marks_only (state w) s2" by auto
  from reconcile_loop_ok [OF li] obtain s3 where s3: "reconcile_loop gen 0 ps s2 = (Ok (), s3)" "index_inv s3" "marks_only s2 s3"
    by blast
  have eq: "reconcile_active_chunks ps w = (Ok (), w\<lparr>state := s3\<rparr>)"
    using None adv s3(1) by (simp add: reconcile_active_chunks_def)
  show ?thesis unfolding eq using sched_inv_marks [OF inv s3(2) marks_only_trans [OF m1 s3(3)]] by simp
qed

end
