(* ===== verification/Tick_Collect.thy ===== *)
theory Tick_Collect
  imports Tick_Scheduler
begin

text \<open>
  Selection of the ready ticks of one game tick across chunks (collect_ticks and the functions
  below it in steel-core/src/world/tick_scheduler/scheduler.rs), and the run batch the executor
  works through (run_batch.rs). The abstract specification is a merge of the per-chunk queues
  in which only queue heads compete.
\<close>

section \<open>Collection\<close>

record ReadyContainer =
  rc_pos :: ChunkPos
  rc_rank :: nat
  rc_container :: ContainerId
  rc_priority :: TickPriority
  rc_sub_tick_order :: i64
  rc_dirty_reported :: bool

record ScheduledTickBatch =
  batch_ticks :: "ScheduledTick list"
  changed_containers :: "nat list"

definition ready_new :: "ActiveTickContainer \<Rightarrow> ScheduledTick \<Rightarrow> bool \<Rightarrow> ReadyContainer" where
  "ready_new a t d =
     \<lparr>rc_pos = at_pos a, rc_rank = at_rank a, rc_container = at_container a,
      rc_priority = tick_priority t, rc_sub_tick_order = sub_tick_order t, rc_dirty_reported = d\<rparr>"

definition refresh :: "ScheduledTick \<Rightarrow> ReadyContainer \<Rightarrow> ReadyContainer" where
  "refresh t rc = rc\<lparr>rc_priority := tick_priority t, rc_sub_tick_order := sub_tick_order t\<rparr>"

definition ready_cmp :: "ReadyContainer \<Rightarrow> ReadyContainer \<Rightarrow> Ordering" where
  "ready_cmp a b =
     then_with
       (reverse (intra_tick_drain_order (rc_priority a) (rc_sub_tick_order a)
          (rc_priority b) (rc_sub_tick_order b)))
       (cmp (rc_rank b) (rc_rank a))"

text \<open>\<open>None\<close> is the failed lifecycle assertion.\<close>

fun prepare_ready_containers :: "TickKind \<Rightarrow> i64 \<Rightarrow> Store \<Rightarrow> ActiveTickContainer list \<Rightarrow>
    ReadyContainer list \<times> TickHeadUpdate list \<Rightarrow> (ReadyContainer list \<times> TickHeadUpdate list) option" where
  "prepare_ready_containers k now st [] acc = Some acc"
| "prepare_ready_containers k now st (a # as) (ready, upd) =
     (if lifecycle (st (at_container a)) \<noteq> Registered then None
      else
        (let hd_tick = peek (select k (lists (st (at_container a)))) in
         case hd_tick of
           Some t \<Rightarrow>
             if sint (trigger_tick t) \<le> sint now
             then prepare_ready_containers k now st as (heap_push ready_cmp (ready_new a t False) ready, upd)
             else prepare_ready_containers k now st as (ready, upd @ [(at_pos a, Some (trigger_tick t))])
         | None \<Rightarrow> prepare_ready_containers k now st as (ready, upd @ [(at_pos a, None)])))"

text \<open>The inner loop: keep draining the current container while its head is no later than the
  best competitor.\<close>

function drain_run :: "i64 \<Rightarrow> nat \<Rightarrow> (TickPriority \<times> i64) option \<Rightarrow> ScheduledTick list \<Rightarrow> TickList \<Rightarrow>
    ScheduledTick list \<times> TickList" where
  "drain_run now max_ticks best out l =
     (if length out < max_ticks
      then (case peek_ready now l of
              None \<Rightarrow> (out, l)
            | Some t \<Rightarrow>
                if (case best of None \<Rightarrow> False
                    | Some (prio, sub) \<Rightarrow>
                        intra_tick_drain_order (tick_priority t) (sub_tick_order t) prio sub = Greater)
                then (out, l)
                else (case pop_ready now l of
                        None \<Rightarrow> (out, l)
                      | Some (t', l') \<Rightarrow> drain_run now max_ticks best (out @ [t']) l'))
      else (out, l))"
  by pat_completeness auto
termination
  by (relation "measure (\<lambda>(now, m, best, out, l). m - length out)") auto

declare drain_run.simps [simp del]

lemma drain_run_length: "length out \<le> length (fst (drain_run now m best out l))"
proof (induction now m best out l rule: drain_run.induct)
  case (1 now m best out l)
  show ?case
    by (subst drain_run.simps) (use "1.IH" in \<open>force split: option.split\<close>)
qed

lemma drain_run_grows: "drain_run now m best (ts @ [t]) l = (out, l') \<Longrightarrow> length ts < length out"
  using drain_run_length [of "ts @ [t]" now m best l] by simp

lemma heap_pop_length: "heap_pop h = Some (x, h') \<Longrightarrow> length h' < length h"
  by (cases h) auto

record CollectState =
  cs_ready :: "ReadyContainer list"
  cs_updates :: "TickHeadUpdate list"
  cs_ticks :: "ScheduledTick list"
  cs_changed :: "nat list"
  cs_store :: Store

text \<open>The outer loop; \<open>None\<close> is the failed lifecycle assertion.\<close>

function collect_loop :: "TickKind \<Rightarrow> i64 \<Rightarrow> nat \<Rightarrow> CollectState \<Rightarrow> CollectState option" where
  "collect_loop k now max_ticks cs =
     (if length (cs_ticks cs) < max_ticks
      then (case heap_pop (cs_ready cs) of
              None \<Rightarrow> Some cs
            | Some (rc, ready) \<Rightarrow>
                (let st = cs_store cs; c = st (rc_container rc); l = select k (lists c) in
                 if lifecycle c \<noteq> Registered then None
                 else
                   (case pop_ready now l of
                      None \<Rightarrow>
                        collect_loop k now max_ticks
                          (cs\<lparr>cs_ready := ready,
                              cs_updates := cs_updates cs @ [(rc_pos rc, map_option trigger_tick (peek l))]\<rparr>)
                    | Some (t, l1) \<Rightarrow>
                        (let changed = (if rc_dirty_reported rc then cs_changed cs else cs_changed cs @ [rc_rank rc]);
                             rc' = rc\<lparr>rc_dirty_reported := True\<rparr>;
                             best = map_option (\<lambda>x. (rc_priority x, rc_sub_tick_order x)) (heap_peek ready);
                             (out, l2) = drain_run now max_ticks best (cs_ticks cs @ [t]) l1;
                             cs' = cs\<lparr>cs_ticks := out, cs_changed := changed,
                                      cs_store := put_list (rc_container rc) k l2 st\<rparr>
                         in case peek l2 of
                              Some nt \<Rightarrow>
                                if length out < max_ticks \<and> sint (trigger_tick nt) \<le> sint now
                                then collect_loop k now max_ticks
                                       (cs'\<lparr>cs_ready := heap_push ready_cmp (refresh nt rc') ready\<rparr>)
                                else collect_loop k now max_ticks
                                       (cs'\<lparr>cs_ready := ready,
                                           cs_updates := cs_updates cs @ [(rc_pos rc, Some (trigger_tick nt))]\<rparr>)
                            | None \<Rightarrow>
                                collect_loop k now max_ticks
                                  (cs'\<lparr>cs_ready := ready,
                                      cs_updates := cs_updates cs @ [(rc_pos rc, None)]\<rparr>)))))
      else Some cs)"
  by pat_completeness auto
termination
  by (relation "measures [\<lambda>(k, now, m, cs). m - length (cs_ticks cs), \<lambda>(k, now, m, cs). length (cs_ready cs)]")
     (auto dest: drain_run_grows drain_run_grows [OF sym] heap_pop_length intro: diff_less_mono2)

declare collect_loop.simps [simp del]

text \<open>The entries left in the heap only need their heads put back.\<close>

definition collect_registered_ticks :: "TickKind \<Rightarrow> i64 \<Rightarrow> nat \<Rightarrow> ActiveTickContainer list \<Rightarrow> Store \<Rightarrow>
    (ScheduledTickBatch \<times> TickHeadUpdate list \<times> Store) option" where
  "collect_registered_ticks k now max_ticks due st =
     (case prepare_ready_containers k now st due ([], []) of
        None \<Rightarrow> None
      | Some (ready, upd) \<Rightarrow>
          (case collect_loop k now max_ticks
                  \<lparr>cs_ready = ready, cs_updates = upd, cs_ticks = [], cs_changed = [], cs_store = st\<rparr> of
             None \<Rightarrow> None
           | Some cs \<Rightarrow>
               Some (\<lparr>batch_ticks = cs_ticks cs, changed_containers = cs_changed cs\<rparr>,
                     cs_updates cs @ map (\<lambda>rc. (rc_pos rc, list_head k (cs_store cs (rc_container rc)))) (cs_ready cs),
                     cs_store cs)))"

fun apply_head_updates :: "TickKind \<Rightarrow> TickHeadUpdate list \<Rightarrow> SchedulerState \<Rightarrow> bool \<times> SchedulerState" where
  "apply_head_updates k [] s = (True, s)"
| "apply_head_updates k ((p, t) # us) s =
     (case set_head p k t s of
        (Ok _, s') \<Rightarrow> apply_head_updates k us s'
      | (_, s') \<Rightarrow> (False, s'))"

definition empty_batch :: ScheduledTickBatch where
  "empty_batch = \<lparr>batch_ticks = [], changed_containers = []\<rparr>"

definition collect_ticks :: "TickKind \<Rightarrow> i64 \<Rightarrow> nat \<Rightarrow> Scheduler \<Rightarrow> ScheduledTickBatch outcome \<times> Scheduler" where
  "collect_ticks k now max_ticks w =
     (if max_ticks = 0 then (Ok empty_batch, w)
      else
        (case take_due k now (state w) of
           (Ok due, s1) \<Rightarrow>
             if due = [] then (Ok empty_batch, w\<lparr>state := s1\<rparr>)
             else
               (case collect_registered_ticks k now max_ticks due (store w) of
                  None \<Rightarrow> (Panic, w\<lparr>state := s1\<rparr>)
                | Some (batch, upd, st) \<Rightarrow>
                    (case apply_head_updates k upd s1 of
                       (ok, s2) \<Rightarrow> (if ok then Ok batch else Panic, w\<lparr>store := st, state := s2\<rparr>)))
         | (Err e, s1) \<Rightarrow> (Err e, w\<lparr>state := s1\<rparr>)
         | (Panic, s1) \<Rightarrow> (Panic, w\<lparr>state := s1\<rparr>)))"

definition begin_tick :: "i64 \<Rightarrow> nat \<Rightarrow> Scheduler \<Rightarrow> ScheduledTickBatch outcome \<times> Scheduler" where
  "begin_tick = collect_ticks Block"

definition collect_fluid_ticks :: "i64 \<Rightarrow> nat \<Rightarrow> Scheduler \<Rightarrow> ScheduledTickBatch outcome \<times> Scheduler" where
  "collect_fluid_ticks = collect_ticks Fluid"

section \<open>Run batches\<close>

record ScheduledTickRunBatch =
  run_ticks :: "ScheduledTick list"
  next_index :: nat
  lookup :: "(ScheduledTickKey \<rightharpoonup> nat) option"

definition run_batch_new :: "ScheduledTick list \<Rightarrow> ScheduledTickRunBatch" where
  "run_batch_new ts = \<lparr>run_ticks = ts, next_index = 0, lookup = None\<rparr>"

text \<open>\<open>None\<close> is the failed bounds assertion.\<close>

definition start :: "nat \<Rightarrow> ScheduledTickRunBatch \<Rightarrow> ScheduledTickRunBatch option" where
  "start i b = (if i < length (run_ticks b) then Some (b\<lparr>next_index := i + 1\<rparr>) else None)"

text \<open>Collecting pairs into a hash map keeps the last index of a key.\<close>

definition build_lookup :: "nat \<Rightarrow> ScheduledTick list \<Rightarrow> ScheduledTickKey \<rightharpoonup> nat" where
  "build_lookup i ts = map_of (rev (zip (map tick_key (drop i ts)) [i..<length ts]))"

definition contains :: "BlockPos \<Rightarrow> TypeRef \<Rightarrow> ScheduledTickRunBatch \<Rightarrow> bool \<times> ScheduledTickRunBatch" where
  "contains p ty b =
     (let initial_index = next_index b in
      if initial_index \<ge> length (run_ticks b) then (False, b)
      else
        (let m = (case lookup b of Some m \<Rightarrow> m | None \<Rightarrow> build_lookup initial_index (run_ticks b))
         in (case m (p, ty) of Some i \<Rightarrow> i \<ge> next_index b | None \<Rightarrow> False, b\<lparr>lookup := Some m\<rparr>)))"

section \<open>Specification: a merge of queue heads\<close>

definition queues :: "TickKind \<Rightarrow> Store \<Rightarrow> ContainerId \<Rightarrow> TickList" where
  "queues k st c = select k (lists (st c))"

text \<open>Contenders compete by priority and sub-tick order; a tie stays with the container served
  last, and goes to the lower rank otherwise.\<close>

definition contend_key :: "nat option \<Rightarrow> nat \<Rightarrow> ScheduledTick \<Rightarrow> TickPriority \<times> int \<times> nat" where
  "contend_key cur rk t =
     (tick_priority t, sint (sub_tick_order t), if cur = Some rk then 0 else Suc rk)"

inductive merge_run :: "i64 \<Rightarrow> (nat \<times> ContainerId) set \<Rightarrow> (ContainerId \<Rightarrow> TickList) \<Rightarrow> nat option \<Rightarrow> nat \<Rightarrow>
    (nat \<times> ScheduledTick) list \<Rightarrow> (ContainerId \<Rightarrow> TickList) \<Rightarrow> bool"
  for now :: i64 and A :: "(nat \<times> ContainerId) set" where
  merge_full: "merge_run now A Q cur 0 [] Q"
| merge_idle: "(\<And>rk c. (rk, c) \<in> A \<Longrightarrow> peek_ready now (Q c) = None) \<Longrightarrow> merge_run now A Q cur m [] Q"
| merge_serve: "(rk, c) \<in> A \<Longrightarrow> pop_ready now (Q c) = Some (t, l) \<Longrightarrow>
    (\<And>rk' c' t'. (rk', c') \<in> A \<Longrightarrow> peek_ready now (Q c') = Some t' \<Longrightarrow>
       contend_key cur rk t \<le> contend_key cur rk' t') \<Longrightarrow>
    merge_run now A (Q(c := l)) (Some rk) m tr Q' \<Longrightarrow>
    merge_run now A Q cur (Suc m) ((rk, t) # tr) Q'"

definition contenders :: "SchedulerState \<Rightarrow> (nat \<times> ContainerId) set" where
  "contenders s =
     {(rk, c). \<exists>p r. chunks s p = Some r \<and> active_rank (active_generation s) r = Some rk \<and> container r = c}"

definition first_occurrences :: "'a list \<Rightarrow> 'a list" where
  "first_occurrences xs = rev (remdups (rev xs))"

lemma first_occurrences_snoc:
  "first_occurrences (xs @ [x]) = (if x \<in> set xs then first_occurrences xs else first_occurrences xs @ [x])"
  by (simp add: first_occurrences_def)

lemma set_first_occurrences [simp]: "set (first_occurrences xs) = set xs"
  by (simp add: first_occurrences_def)

lemma first_occurrences_append:
  "set ys \<subseteq> set xs \<Longrightarrow> first_occurrences (xs @ ys) = first_occurrences xs"
  by (induction ys rule: rev_induct)
     (simp_all add: first_occurrences_snoc flip: append_assoc)

lemma pop_peek_ready:
  "pop_ready now l = Some (t, l') \<Longrightarrow> peek_ready now l = Some t"
  "peek_ready now l = Some t \<Longrightarrow> \<exists>l'. pop_ready now l = Some (t, l')"
  by (cases "ticks l"; auto simp: pop_ready_def peek_ready_def split: if_splits)+

lemma peek_ready_peek:
  "peek_ready now l =
     (case peek l of None \<Rightarrow> None | Some t \<Rightarrow> if sint (trigger_tick t) \<le> sint now then Some t else None)"
  by (cases "ticks l") (simp_all add: peek_ready_def peek_def)

lemma pop_ready_sorted:
  "pop_ready now l = Some (t, l') \<Longrightarrow> sorted (map drain_key (ticks l)) \<Longrightarrow> sorted (map drain_key (ticks l'))"
  by (auto elim: pop_ready_cases)

lemma queues_put_list [simp]: "queues k (put_list c k l st) = (queues k st)(c := l)"
  by (rule ext) (simp add: queues_def)

lemma merge_run_sorted:
  assumes "merge_run now A Q cur m tr Q'" "\<And>c. sorted (map drain_key (ticks (Q c)))"
  shows "sorted (map drain_key (ticks (Q' c)))"
  using assms by (induction arbitrary: c) (auto dest: pop_ready_sorted)

lemma merge_run_frame:
  assumes "merge_run now A Q cur m tr Q'" "\<And>rk. (rk, c) \<in> A \<Longrightarrow> peek_ready now (Q c) = None"
  shows "Q' c = Q c"
  using assms
proof (induction rule: merge_run.induct)
  case (merge_serve rk d Q t l cur m tr Q')
  then have "c \<noteq> d" using pop_peek_ready(1) by force
  with merge_serve show ?case by simp
qed simp_all

lemma merge_run_length: "merge_run now A Q cur m tr Q' \<Longrightarrow> length tr \<le> m"
  by (induction rule: merge_run.induct) auto

section \<open>Refinement of the merge\<close>

definition head_key :: "ScheduledTick \<Rightarrow> TickPriority \<times> int" where
  "head_key t = (tick_priority t, sint (sub_tick_order t))"

definition ready_head_key :: "ReadyContainer \<Rightarrow> TickPriority \<times> int" where
  "ready_head_key rc = (rc_priority rc, sint (rc_sub_tick_order rc))"

definition ready_key :: "ReadyContainer \<Rightarrow> (TickPriority \<times> int) \<times> nat" where
  "ready_key rc = (ready_head_key rc, rc_rank rc)"

lemma ready_cmp_key: "ready_cmp a b = cmp (ready_key b) (ready_key a)"
  by (simp add: ready_cmp_def ready_key_def ready_head_key_def intra_tick_drain_order_def)

lemma pair_le: "(a :: 'a::linorder, b :: 'b::linorder) \<le> (a', b') \<longleftrightarrow> a < a' \<or> a = a' \<and> b \<le> b'"
  by (auto simp: less_eq_prod_def)

lemma ready_key_le:
  "ready_key a \<le> ready_key b \<longleftrightarrow>
     ready_head_key a < ready_head_key b \<or> ready_head_key a = ready_head_key b \<and> rc_rank a \<le> rc_rank b"
  unfolding ready_key_def by (rule pair_le)

interpretation ready_queue: drain_queue ready_key "heap_push ready_cmp" heap_peek heap_pop mset
    "\<lambda>h. sorted (map ready_key h)"
  by (rule heap_drain_queue) (rule ready_cmp_key)

lemma set_heap_push: "set (heap_push ready_cmp x h) = insert x (set h)"
  using ready_queue.content_push [of x h] by (metis set_mset_add_mset_insert set_mset_mset)

lemma contend_key_le:
  "contend_key cur rk t \<le> contend_key cur rk' t' \<longleftrightarrow>
     head_key t < head_key t' \<or> head_key t = head_key t' \<and> (cur = Some rk \<or> cur \<noteq> Some rk' \<and> rk \<le> rk')"
  by (auto simp: contend_key_def head_key_def less_prod_def' less_eq_prod_def)

lemma intra_Greater:
  "intra_tick_drain_order p s p' s' = Greater \<longleftrightarrow> (p', sint s') < (p, sint s)"
  by (auto simp: intra_tick_drain_order_def cmp_def)

definition one_to_one :: "(nat \<times> ContainerId) set \<Rightarrow> bool" where
  "one_to_one A \<longleftrightarrow> (\<forall>rk c rk' c'. (rk, c) \<in> A \<longrightarrow> (rk', c') \<in> A \<longrightarrow> (rk = rk' \<longleftrightarrow> c = c'))"

lemma one_to_oneD: "one_to_one A \<Longrightarrow> (rk, c) \<in> A \<Longrightarrow> (rk', c') \<in> A \<Longrightarrow> rk = rk' \<longleftrightarrow> c = c'"
  unfolding one_to_one_def by blast

lemma drain_run_merge:
  assumes A: "one_to_one A" "(rk, c) \<in> A"
    and best: "\<And>rk' c' t'. (rk', c') \<in> A \<Longrightarrow> rk' \<noteq> rk \<Longrightarrow> peek_ready now (Q c') = Some t' \<Longrightarrow>
      \<exists>b. best = Some b \<and> (fst b, sint (snd b)) \<le> head_key t'"
  shows "\<exists>ts l'. drain_run now m best out l = (out @ ts, l') \<and>
    (\<forall>tr Q'. merge_run now A (Q(c := l')) (Some rk) (m - length (out @ ts)) tr Q' \<longrightarrow>
       merge_run now A (Q(c := l)) (Some rk) (m - length out) (map (Pair rk) ts @ tr) Q') \<and>
    (length (out @ ts) < m \<longrightarrow> (\<forall>t. peek_ready now l' = Some t \<longrightarrow>
       (\<exists>b. best = Some b \<and> (fst b, sint (snd b)) < head_key t)))"
  using best
proof (induction now m best out l rule: drain_run.induct)
  case (1 now m best out l)
  show ?case
  proof (cases "length out < m \<and> (\<exists>t. peek_ready now l = Some t \<and>
      \<not> (\<exists>b. best = Some b \<and> (fst b, sint (snd b)) < head_key t))")
    case False
    then have "drain_run now m best out l = (out, l)"
      by (subst drain_run.simps) (auto simp: intra_Greater head_key_def split: option.split)
    with False show ?thesis by (intro exI [of _ "[]"] exI [of _ l]) auto
  next
    case True
    then obtain t where m: "length out < m" and t: "peek_ready now l = Some t"
      and nb: "\<And>b. best = Some b \<Longrightarrow> \<not> (fst b, sint (snd b)) < head_key t" by blast
    from pop_peek_ready(2) [OF t] obtain l1 where l1: "pop_ready now l = Some (t, l1)" by blast
    have guard: "\<not> (case best of None \<Rightarrow> False | Some (prio, sub) \<Rightarrow>
        intra_tick_drain_order (tick_priority t) (sub_tick_order t) prio sub = Greater)"
      using nb by (auto simp: intra_Greater head_key_def split: option.split)
    have step: "drain_run now m best out l = drain_run now m best (out @ [t]) l1"
      by (subst drain_run.simps) (use m t l1 guard in simp)
    from "1.IH" [OF m t guard l1 refl] "1.prems" obtain ts l' where ih:
      "drain_run now m best (out @ [t]) l1 = (out @ [t] @ ts, l')"
      "\<And>tr Q'. merge_run now A (Q(c := l')) (Some rk) (m - length (out @ [t] @ ts)) tr Q' \<Longrightarrow>
         merge_run now A (Q(c := l1)) (Some rk) (m - length (out @ [t])) (map (Pair rk) ts @ tr) Q'"
      "length (out @ [t] @ ts) < m \<Longrightarrow> (\<forall>t. peek_ready now l' = Some t \<longrightarrow>
         (\<exists>b. best = Some b \<and> (fst b, sint (snd b)) < head_key t))"
      by (metis append.assoc)
    have le: "contend_key (Some rk) rk t \<le> contend_key (Some rk) rk' t'"
      if "(rk', c') \<in> A" "peek_ready now ((Q(c := l)) c') = Some t'" for rk' c' t'
    proof (cases "rk' = rk")
      case True
      with one_to_oneD [OF A that(1)] that t show ?thesis by simp
    next
      case False
      with one_to_oneD [OF A that(1)] that have "peek_ready now (Q c') = Some t'" by (auto split: if_splits)
      from "1.prems" [OF that(1) False this] nb show ?thesis by (auto simp: contend_key_le)
    qed
    have m': "m - length out = Suc (m - length (out @ [t]))" using m by simp
    have "merge_run now A (Q(c := l)) (Some rk) (m - length out) (map (Pair rk) (t # ts) @ tr) Q'"
      if "merge_run now A (Q(c := l')) (Some rk) (m - length (out @ t # ts)) tr Q'" for tr Q'
    proof -
      have "merge_run now A ((Q(c := l))(c := l1)) (Some rk) (m - length (out @ [t])) (map (Pair rk) ts @ tr) Q'"
        using ih(2) [of tr Q'] that by simp
      from merge_serve [OF A(2) _ le this] l1 show ?thesis unfolding m' by simp
    qed
    moreover have "drain_run now m best out l = (out @ t # ts, l')" using step ih(1) by simp
    ultimately show ?thesis
      using ih(3) by (intro exI [of _ "t # ts"] exI [of _ l'] conjI allI impI) (assumption | simp)+
  qed
qed


definition rc_active :: "ReadyContainer \<Rightarrow> ActiveTickContainer" where
  "rc_active rc = \<lparr>at_pos = rc_pos rc, at_rank = rc_rank rc, at_container = rc_container rc\<rparr>"

lemma rc_active_simps [simp]:
  "at_pos (rc_active rc) = rc_pos rc" "at_rank (rc_active rc) = rc_rank rc"
  "at_container (rc_active rc) = rc_container rc"
  "rc_active (rc\<lparr>rc_dirty_reported := d\<rparr>) = rc_active rc" "rc_active (refresh t rc) = rc_active rc"
  "rc_active (ready_new a t d) = a"
  by (simp_all add: rc_active_def refresh_def ready_new_def)

definition head_update :: "TickKind \<Rightarrow> Store \<Rightarrow> ActiveTickContainer \<Rightarrow> TickHeadUpdate" where
  "head_update k st a = (at_pos a, list_head k (st (at_container a)))"

definition ready_ok :: "TickKind \<Rightarrow> i64 \<Rightarrow> (nat \<times> ScheduledTick) list \<Rightarrow> Store \<Rightarrow> ReadyContainer \<Rightarrow> bool" where
  "ready_ok k now tr st rc \<longleftrightarrow>
     lifecycle (st (rc_container rc)) = Registered \<and> rc_dirty_reported rc = (rc_rank rc \<in> fst ` set tr) \<and>
     (\<exists>t. peek_ready now (queues k st (rc_container rc)) = Some t \<and> head_key t = ready_head_key rc)"

definition due_ok :: "(nat \<times> ContainerId) set \<Rightarrow> ActiveTickContainer list \<Rightarrow> bool" where
  "due_ok A D \<longleftrightarrow> one_to_one A \<and> distinct (map at_container D) \<and>
     (\<forall>a \<in> set D. (at_rank a, at_container a) \<in> A)"

text \<open>The containers that still compete (the heap) and those already given up (\<open>fin\<close>, whose
  heads are recorded) make up the due containers; the heap knows every ready head.\<close>

definition collect_inv :: "TickKind \<Rightarrow> i64 \<Rightarrow> nat \<Rightarrow> (nat \<times> ContainerId) set \<Rightarrow> ActiveTickContainer list \<Rightarrow>
    ActiveTickContainer list \<Rightarrow> (nat \<times> ScheduledTick) list \<Rightarrow> CollectState \<Rightarrow> bool" where
  "collect_inv k now m A D fin tr cs \<longleftrightarrow>
     mset (map rc_active (cs_ready cs) @ fin) = mset D \<and>
     cs_updates cs = map (head_update k (cs_store cs)) fin \<and>
     sorted (map ready_key (cs_ready cs)) \<and>
     (\<forall>rc \<in> set (cs_ready cs). ready_ok k now tr (cs_store cs) rc) \<and>
     (length tr < m \<longrightarrow> (\<forall>rk c. (rk, c) \<in> A \<longrightarrow> peek_ready now (queues k (cs_store cs) c) \<noteq> None \<longrightarrow>
        (\<exists>rc \<in> set (cs_ready cs). rc_rank rc = rk \<and> rc_container rc = c))) \<and>
     cs_ticks cs = map snd tr \<and> cs_changed cs = first_occurrences (map fst tr)"

definition cur_ok :: "nat option \<Rightarrow> ReadyContainer list \<Rightarrow> bool" where
  "cur_ok cur ready \<longleftrightarrow>
     (\<forall>rc \<in> set ready. cur = Some (rc_rank rc) \<longrightarrow> (\<exists>rc' \<in> set ready. ready_head_key rc' < ready_head_key rc))"

lemma collect_distinct:
  assumes "due_ok A D" "mset (map rc_active ready @ fin) = mset D"
  shows "distinct (map rc_container ready @ map at_container fin)"
proof -
  from assms(2) have "mset (map at_container (map rc_active ready @ fin)) = mset (map at_container D)"
    by (metis mset_map)
  moreover have "map at_container (map rc_active ready @ fin) = map rc_container ready @ map at_container fin"
    by (simp add: comp_def)
  ultimately show ?thesis
    using assms(1) by (metis due_ok_def mset_eq_imp_distinct_iff)
qed

lemma collect_member:
  assumes "due_ok A D" "mset (map rc_active ready @ fin) = mset D" "rc \<in> set ready"
  shows "(rc_rank rc, rc_container rc) \<in> A"
proof -
  from assms(2) have "set (map rc_active ready @ fin) = set D" by (rule mset_eq_setD)
  with assms(3) have "rc_active rc \<in> set D" by auto
  with assms(1) have "(at_rank (rc_active rc), at_container (rc_active rc)) \<in> A"
    unfolding due_ok_def by blast
  then show ?thesis by simp
qed

text \<open>The popped container is the next one the merge serves.\<close>

lemma pop_is_next:
  assumes D: "due_ok A D" and inv: "collect_inv k now m A D fin tr cs" and tr: "length tr < m"
    and ready: "cs_ready cs = rc # rest" and cur: "cur_ok cur (cs_ready cs)"
    and t: "peek_ready now (queues k (cs_store cs) (rc_container rc)) = Some t" "head_key t = ready_head_key rc"
    and c': "(rk', c') \<in> A" "peek_ready now (queues k (cs_store cs) c') = Some t'"
  shows "contend_key cur (rc_rank rc) t \<le> contend_key cur rk' t'"
proof -
  from inv tr c' obtain x where x: "x \<in> set (cs_ready cs)" "rc_rank x = rk'" "rc_container x = c'"
    unfolding collect_inv_def by blast
  with inv c' have tx: "head_key t' = ready_head_key x"
    unfolding collect_inv_def ready_ok_def by auto
  have srt: "sorted (map ready_key (cs_ready cs))" using inv by (simp add: collect_inv_def)
  have least: "ready_key rc \<le> ready_key y" if "y \<in> set (cs_ready cs)" for y
    using srt that by (auto simp: ready)
  have "ready_key rc \<le> ready_key x" using least x by blast
  moreover have "cur \<noteq> Some rk'" if "head_key t = head_key t'"
  proof
    assume "cur = Some rk'"
    with cur x obtain y where y: "y \<in> set (cs_ready cs)" "ready_head_key y < ready_head_key x"
      unfolding cur_ok_def by blast
    with least [OF y(1)] that t tx show False by (auto simp: ready_key_le)
  qed
  ultimately show ?thesis using t(2) tx x(2) by (auto simp: contend_key_le ready_key_le)
qed


lemma changed_served:
  "(if rk \<in> fst ` set tr then first_occurrences (map fst tr) else first_occurrences (map fst tr) @ [rk]) =
   first_occurrences (map fst (tr @ map (Pair rk) (t # ts)))"
proof -
  have "first_occurrences (map fst (tr @ map (Pair rk) (t # ts))) =
      first_occurrences ((map fst tr @ [rk]) @ map (\<lambda>_. rk) ts)"
    by (simp add: comp_def)
  also have "\<dots> = first_occurrences (map fst tr @ [rk])"
    by (rule first_occurrences_append) auto
  finally show ?thesis by (simp add: first_occurrences_snoc)
qed

lemma ready_ok_other:
  assumes "ready_ok k now tr st x" "rc_container x \<noteq> c" "rc_rank x \<noteq> rk"
  shows "ready_ok k now (tr @ map (Pair rk) ts) (put_list c k l st) x"
  using assms by (auto simp: ready_ok_def)

lemma head_update_other:
  assumes "c \<notin> at_container ` set fin"
  shows "map (head_update k (put_list c k l st)) fin = map (head_update k st) fin"
  using assms by (auto simp: head_update_def)

lemma collect_popD:
  assumes D: "due_ok A D" and inv: "collect_inv k now m A D fin tr cs" and tr: "length tr < m"
    and ready: "cs_ready cs = rc # rest"
  shows "mset (map rc_active (rc # rest) @ fin) = mset D"
    and "sorted (map ready_key rest)"
    and "ready_ok k now tr (cs_store cs) rc"
    and "x \<in> set rest \<Longrightarrow> ready_ok k now tr (cs_store cs) x"
    and "(r, c) \<in> A \<Longrightarrow> peek_ready now (queues k (cs_store cs) c) \<noteq> None \<Longrightarrow>
        \<exists>x \<in> set (rc # rest). rc_rank x = r \<and> rc_container x = c"
    and "cs_updates cs = map (head_update k (cs_store cs)) fin"
    and "rc_container rc \<notin> at_container ` set fin"
    and "(rc_rank rc, rc_container rc) \<in> A"
    and "x \<in> set rest \<Longrightarrow> rc_container x \<noteq> rc_container rc"
    and "x \<in> set rest \<Longrightarrow> rc_rank x \<noteq> rc_rank rc"
proof -
  show ms: "mset (map rc_active (rc # rest) @ fin) = mset D"
    using inv ready by (simp add: collect_inv_def)
  show "rc_container rc \<notin> at_container ` set fin" using collect_distinct [OF D ms] by auto
  show rcA: "(rc_rank rc, rc_container rc) \<in> A" using collect_member [OF D ms] by simp
  show c: "rc_container x \<noteq> rc_container rc" if "x \<in> set rest"
  proof -
    have "rc_container rc \<notin> rc_container ` set rest" using collect_distinct [OF D ms] by auto
    with that show ?thesis by (metis imageI)
  qed
  show "rc_rank x \<noteq> rc_rank rc" if "x \<in> set rest"
  proof -
    have "(rc_rank x, rc_container x) \<in> A" using collect_member [OF D ms] that by simp
    with c [OF that] D rcA show ?thesis unfolding due_ok_def by (metis one_to_oneD)
  qed
qed (use inv ready tr in \<open>auto simp: collect_inv_def\<close>)

text \<open>Serving a container and then putting it back, or giving it up, keeps the loop invariant.\<close>

lemma collect_inv_requeue:
  assumes D: "due_ok A D" and inv: "collect_inv k now m A D fin tr cs" and tr: "length tr < m"
    and ready: "cs_ready cs = rc # rest"
    and tr': "tr' = tr @ map (Pair (rc_rank rc)) (t # ts)"
    and nt: "peek_ready now l2 = Some nt"
  shows "collect_inv k now m A D fin tr'
    (cs\<lparr>cs_ticks := map snd tr', cs_changed := first_occurrences (map fst tr'),
        cs_store := put_list (rc_container rc) k l2 (cs_store cs),
        cs_ready := heap_push ready_cmp (refresh nt (rc\<lparr>rc_dirty_reported := True\<rparr>)) rest\<rparr>)"
proof -
  let ?c = "rc_container rc" and ?rc = "refresh nt (rc\<lparr>rc_dirty_reported := True\<rparr>)"
  note pop = collect_popD [OF D inv tr ready]
  have "mset (map rc_active (heap_push ready_cmp ?rc rest) @ fin) = mset D"
    using pop(1) by (simp add: ready_queue.content_push)
  moreover have "sorted (map ready_key (heap_push ready_cmp ?rc rest))"
    using pop(2) by (rule ready_queue.inv_push)
  moreover have "ready_ok k now tr' (put_list ?c k l2 (cs_store cs)) ?rc"
    using pop(3) nt unfolding tr' by (simp add: ready_ok_def refresh_def ready_head_key_def head_key_def queues_def)
  moreover have "ready_ok k now tr' (put_list ?c k l2 (cs_store cs)) x" if "x \<in> set rest" for x
    unfolding tr' by (rule ready_ok_other) (use pop(4,9,10) that in auto)
  moreover have "\<exists>x \<in> insert ?rc (set rest). rc_rank x = r \<and> rc_container x = c"
    if "(r, c) \<in> A" "peek_ready now (queues k (put_list ?c k l2 (cs_store cs)) c) \<noteq> None" for r c
  proof (cases "c = ?c")
    case True
    with one_to_oneD [OF _ that(1) pop(8)] D show ?thesis by (simp add: due_ok_def refresh_def)
  next
    case False
    with that pop(5) [of r c] show ?thesis by auto
  qed
  ultimately show ?thesis
    unfolding collect_inv_def by (simp add: pop(6) set_heap_push head_update_other [OF pop(7)])
qed

lemma collect_inv_give_up:
  assumes D: "due_ok A D" and inv: "collect_inv k now m A D fin tr cs" and tr: "length tr < m"
    and ready: "cs_ready cs = rc # rest"
    and tr': "tr' = tr @ map (Pair (rc_rank rc)) (t # ts)"
    and l2: "length tr' < m \<Longrightarrow> peek_ready now l2 = None"
  shows "collect_inv k now m A D (fin @ [rc_active rc]) tr'
    (cs\<lparr>cs_ticks := map snd tr', cs_changed := first_occurrences (map fst tr'),
        cs_store := put_list (rc_container rc) k l2 (cs_store cs),
        cs_ready := rest, cs_updates := cs_updates cs @ [(rc_pos rc, map_option trigger_tick (peek l2))]\<rparr>)"
proof -
  let ?c = "rc_container rc"
  note pop = collect_popD [OF D inv tr ready]
  have "mset (map rc_active rest @ fin @ [rc_active rc]) = mset D" using pop(1) by simp
  moreover have "ready_ok k now tr' (put_list ?c k l2 (cs_store cs)) x" if "x \<in> set rest" for x
    unfolding tr' by (rule ready_ok_other) (use pop(4,9,10) that in auto)
  moreover have "head_update k (put_list ?c k l2 (cs_store cs)) (rc_active rc) =
      (rc_pos rc, map_option trigger_tick (peek l2))"
    by (simp add: head_update_def)
  moreover have "\<exists>x \<in> set rest. rc_rank x = r \<and> rc_container x = c"
    if "length tr' < m" "(r, c) \<in> A" "peek_ready now (queues k (put_list ?c k l2 (cs_store cs)) c) \<noteq> None" for r c
  proof -
    have "c \<noteq> ?c" using that l2 by auto
    with that pop(5) [of r c] show ?thesis by auto
  qed
  ultimately show ?thesis
    unfolding collect_inv_def by (simp add: pop(2,6) head_update_other [OF pop(7)])
qed


definition store_frame :: "TickKind \<Rightarrow> Store \<Rightarrow> Store \<Rightarrow> bool" where
  "store_frame k st st' \<longleftrightarrow>
     (\<forall>c. lifecycle (st' c) = lifecycle (st c) \<and> (\<forall>k'. k' \<noteq> k \<longrightarrow> queues k' st' c = queues k' st c))"

lemma store_frame_refl: "store_frame k st st"
  by (simp add: store_frame_def)

lemma store_frame_trans: "store_frame k st st' \<Longrightarrow> store_frame k st' st'' \<Longrightarrow> store_frame k st st''"
  by (simp add: store_frame_def)

lemma store_frame_put_list: "store_frame k st (put_list c k l st)"
  by (simp add: store_frame_def queues_def)

definition best_head :: "ReadyContainer list \<Rightarrow> (TickPriority \<times> i64) option" where
  "best_head ready = map_option (\<lambda>x. (rc_priority x, rc_sub_tick_order x)) (heap_peek ready)"

lemma best_head_least:
  assumes "sorted (map ready_key ready)" "x \<in> set ready"
  shows "\<exists>b. best_head ready = Some b \<and> (fst b, sint (snd b)) \<le> ready_head_key x"
proof -
  have "heap_peek ready \<noteq> None" using ready_queue.peek_None [of ready] assms(2) by (cases ready) simp_all
  then obtain y where y: "heap_peek ready = Some y" by blast
  with ready_queue.peek_least [OF assms(1) y] assms(2) have "ready_key y \<le> ready_key x" by simp
  then have "ready_head_key y \<le> ready_head_key x" unfolding ready_key_le by (metis order_le_less)
  with y show ?thesis by (simp add: best_head_def ready_head_key_def)
qed

text \<open>One turn of the outer loop, once its container is known to have a ready head.\<close>

lemma collect_loop_turn:
  assumes tr: "length tr < m" and ready: "cs_ready cs = rc # rest"
    and cs: "cs_ticks cs = map snd tr" "cs_changed cs = first_occurrences (map fst tr)"
    and ok: "lifecycle (cs_store cs (rc_container rc)) = Registered" "rc_dirty_reported rc = (rc_rank rc \<in> fst ` set tr)"
    and l1: "pop_ready now (queues k (cs_store cs) (rc_container rc)) = Some (t, l1)"
    and run: "drain_run now m (best_head rest) (cs_ticks cs @ [t]) l1 = ((cs_ticks cs @ [t]) @ ts, l2)"
    and tr': "tr' = tr @ map (Pair (rc_rank rc)) (t # ts)"
    and cs1: "cs1 = cs\<lparr>cs_ticks := map snd tr', cs_changed := first_occurrences (map fst tr'),
      cs_store := put_list (rc_container rc) k l2 (cs_store cs)\<rparr>"
  shows "collect_loop k now m cs = collect_loop k now m
    (case if length tr' < m then peek_ready now l2 else None of
       Some nt \<Rightarrow>
         cs1\<lparr>cs_ready := heap_push ready_cmp (refresh nt (rc\<lparr>rc_dirty_reported := True\<rparr>)) rest\<rparr>
     | None \<Rightarrow> cs1\<lparr>cs_ready := rest, cs_updates := cs_updates cs @ [(rc_pos rc, map_option trigger_tick (peek l2))]\<rparr>)"
proof -
  have out: "map snd tr' = map snd tr @ t # ts" "length tr' = Suc (length tr + length ts)"
    by (simp_all add: tr' comp_def)
  have changed: "(if rc_rank rc \<in> fst ` set tr then cs_changed cs else cs_changed cs @ [rc_rank rc]) =
      first_occurrences (map fst tr')"
    unfolding cs tr' by (rule changed_served)
  show ?thesis
    using tr ready ok l1 run changed unfolding cs1
    by (subst collect_loop.simps)
       (simp add: cs queues_def out Let_def best_head_def peek_ready_peek split: option.split)
qed

lemma collect_serve:
  assumes D: "due_ok A D" and inv: "collect_inv k now m A D fin tr cs" and tr: "length tr < m"
    and ready: "cs_ready cs = rc # rest" and cur: "cur_ok cur (cs_ready cs)"
  shows "\<exists>t ts l1 l2.
    pop_ready now (queues k (cs_store cs) (rc_container rc)) = Some (t, l1) \<and>
    drain_run now m (best_head rest) (cs_ticks cs @ [t]) l1 = ((cs_ticks cs @ [t]) @ ts, l2) \<and>
    (\<forall>tr' Q'. merge_run now A ((queues k (cs_store cs))(rc_container rc := l2)) (Some (rc_rank rc))
         (m - length tr - length (t # ts)) tr' Q' \<longrightarrow>
       merge_run now A (queues k (cs_store cs)) cur (m - length tr) (map (Pair (rc_rank rc)) (t # ts) @ tr') Q') \<and>
    (length tr + length (t # ts) < m \<longrightarrow> (\<forall>t. peek_ready now l2 = Some t \<longrightarrow>
       (\<exists>b. best_head rest = Some b \<and> (fst b, sint (snd b)) < head_key t)))"
proof -
  let ?c = "rc_container rc" and ?rk = "rc_rank rc" and ?Q = "queues k (cs_store cs)"
  note pop = collect_popD [OF D inv tr ready]
  from pop(3) obtain t where t: "peek_ready now (?Q ?c) = Some t" "head_key t = ready_head_key rc"
    unfolding ready_ok_def by blast
  obtain l1 where l1: "pop_ready now (?Q ?c) = Some (t, l1)" using pop_peek_ready(2) [OF t(1)] by blast
  have best: "\<exists>b. best_head rest = Some b \<and> (fst b, sint (snd b)) \<le> head_key t'"
    if "(rk', c') \<in> A" "rk' \<noteq> ?rk" "peek_ready now (?Q c') = Some t'" for rk' c' t'
  proof -
    from pop(5) [OF that(1)] that obtain x where x: "x \<in> set rest" "rc_container x = c'" by auto
    with pop(4) [OF x(1)] that(3) have "head_key t' = ready_head_key x" by (simp add: ready_ok_def)
    with best_head_least [OF pop(2) x(1)] show ?thesis by simp
  qed
  have cs: "length (cs_ticks cs) = length tr" using inv by (simp add: collect_inv_def)
  have oo: "one_to_one A" using D by (simp add: due_ok_def)
  have "\<exists>ts l2. drain_run now m (best_head rest) (cs_ticks cs @ [t]) l1 = ((cs_ticks cs @ [t]) @ ts, l2) \<and>
    (\<forall>tr' Q'. merge_run now A (?Q(?c := l2)) (Some ?rk) (m - length ((cs_ticks cs @ [t]) @ ts)) tr' Q' \<longrightarrow>
       merge_run now A (?Q(?c := l1)) (Some ?rk) (m - length (cs_ticks cs @ [t])) (map (Pair ?rk) ts @ tr') Q') \<and>
    (length ((cs_ticks cs @ [t]) @ ts) < m \<longrightarrow> (\<forall>t. peek_ready now l2 = Some t \<longrightarrow>
       (\<exists>b. best_head rest = Some b \<and> (fst b, sint (snd b)) < head_key t)))"
    by (rule drain_run_merge [OF oo pop(8)]) (rule best)
  then obtain ts l2 where
    run: "drain_run now m (best_head rest) (cs_ticks cs @ [t]) l1 = ((cs_ticks cs @ [t]) @ ts, l2)"
    and mrg: "\<And>tr' Q'. merge_run now A (?Q(?c := l2)) (Some ?rk) (m - length ((cs_ticks cs @ [t]) @ ts)) tr' Q' \<Longrightarrow>
       merge_run now A (?Q(?c := l1)) (Some ?rk) (m - length (cs_ticks cs @ [t])) (map (Pair ?rk) ts @ tr') Q'"
    and stop: "length ((cs_ticks cs @ [t]) @ ts) < m \<Longrightarrow> (\<forall>t. peek_ready now l2 = Some t \<longrightarrow>
       (\<exists>b. best_head rest = Some b \<and> (fst b, sint (snd b)) < head_key t))"
    by blast
  have m: "m - length tr = Suc (m - length (cs_ticks cs @ [t]))"
    "m - length tr - length (t # ts) = m - length ((cs_ticks cs @ [t]) @ ts)" using tr by (simp_all add: cs)
  have "merge_run now A ?Q cur (m - length tr) (map (Pair ?rk) (t # ts) @ tr'') Q'"
    if "merge_run now A (?Q(?c := l2)) (Some ?rk) (m - length tr - length (t # ts)) tr'' Q'" for tr'' Q'
    using merge_serve [OF pop(8) l1 pop_is_next [OF D inv tr ready cur t] mrg] that m by simp
  moreover have "length ((cs_ticks cs @ [t]) @ ts) = length tr + length (t # ts)" by (simp add: cs)
  ultimately show ?thesis using l1 run stop by metis
qed

lemma cur_ok_requeue:
  assumes "\<And>x. x \<in> set rest \<Longrightarrow> rc_rank x \<noteq> rc_rank rc" "best_head rest = Some b" "(fst b, sint (snd b)) < head_key nt"
  shows "cur_ok (Some (rc_rank rc)) (heap_push ready_cmp (refresh nt (rc\<lparr>rc_dirty_reported := True\<rparr>)) rest)"
proof -
  let ?rc = "refresh nt (rc\<lparr>rc_dirty_reported := True\<rparr>)"
  from assms(2,3) obtain y where "heap_peek rest = Some y" "ready_head_key y < head_key nt"
    by (auto simp: best_head_def ready_head_key_def)
  then have "y \<in> set rest" "ready_head_key y < ready_head_key ?rc"
    using ready_queue.peek_mem [of rest y] by (simp_all add: refresh_def ready_head_key_def head_key_def)
  with assms(1) show ?thesis
    unfolding cur_ok_def set_heap_push by (metis insert_iff option.inject)
qed

lemma collect_step:
  assumes D: "due_ok A D" and inv: "collect_inv k now m A D fin tr cs" and tr: "length tr < m"
    and ready: "cs_ready cs = rc # rest" and cur: "cur_ok cur (cs_ready cs)"
  shows "\<exists>fin' t ts cs'. collect_loop k now m cs = collect_loop k now m cs' \<and>
    collect_inv k now m A D fin' (tr @ map (Pair (rc_rank rc)) (t # ts)) cs' \<and>
    cur_ok (Some (rc_rank rc)) (cs_ready cs') \<and> store_frame k (cs_store cs) (cs_store cs') \<and>
    (\<forall>tr' Q'. merge_run now A (queues k (cs_store cs')) (Some (rc_rank rc)) (m - length tr - length (t # ts)) tr' Q' \<longrightarrow>
       merge_run now A (queues k (cs_store cs)) cur (m - length tr) (map (Pair (rc_rank rc)) (t # ts) @ tr') Q')"
proof -
  let ?st = "cs_store cs" and ?c = "rc_container rc" and ?rk = "rc_rank rc"
  note pop = collect_popD [OF D inv tr ready]
  have ok: "lifecycle (?st ?c) = Registered" "rc_dirty_reported rc = (?rk \<in> fst ` set tr)"
    and cs: "cs_ticks cs = map snd tr" "cs_changed cs = first_occurrences (map fst tr)"
    using pop(3) inv by (simp_all add: ready_ok_def collect_inv_def)
  from collect_serve [OF assms] obtain t ts l1 l2 where
    l1: "pop_ready now (queues k ?st ?c) = Some (t, l1)" and
    run: "drain_run now m (best_head rest) (cs_ticks cs @ [t]) l1 = ((cs_ticks cs @ [t]) @ ts, l2)" and
    merge: "\<And>tr' Q'. merge_run now A ((queues k ?st)(?c := l2)) (Some ?rk) (m - length tr - length (t # ts)) tr' Q' \<Longrightarrow>
       merge_run now A (queues k ?st) cur (m - length tr) (map (Pair ?rk) (t # ts) @ tr') Q'" and
    stop: "length tr + length (t # ts) < m \<Longrightarrow> (\<forall>t. peek_ready now l2 = Some t \<longrightarrow>
       (\<exists>b. best_head rest = Some b \<and> (fst b, sint (snd b)) < head_key t))"
    by blast
  define tr' where "tr' = tr @ map (Pair ?rk) (t # ts)"
  define cs1 where "cs1 = cs\<lparr>cs_ticks := map snd tr', cs_changed := first_occurrences (map fst tr'),
    cs_store := put_list ?c k l2 ?st\<rparr>"
  note turn = collect_loop_turn [OF tr ready cs ok l1 run tr'_def cs1_def]
  have frame: "store_frame k ?st (cs_store cs1)" by (simp add: cs1_def store_frame_put_list)
  have q1: "queues k (cs_store cs1) = (queues k ?st)(?c := l2)" by (simp add: cs1_def)
  have "\<exists>fin' cs'. collect_loop k now m cs = collect_loop k now m cs' \<and> collect_inv k now m A D fin' tr' cs' \<and>
      cur_ok (Some ?rk) (cs_ready cs') \<and> cs_store cs' = cs_store cs1"
  proof (cases "length tr' < m \<and> peek_ready now l2 \<noteq> None")
    case True
    then obtain nt where nt: "peek_ready now l2 = Some nt" by blast
    let ?cs = "cs1\<lparr>cs_ready := heap_push ready_cmp (refresh nt (rc\<lparr>rc_dirty_reported := True\<rparr>)) rest\<rparr>"
    have "collect_inv k now m A D fin tr' ?cs"
      unfolding cs1_def by (rule collect_inv_requeue [OF D inv tr ready tr'_def nt])
    moreover have "cur_ok (Some ?rk) (cs_ready ?cs)"
      using stop True nt pop(10) cur_ok_requeue [of rest rc] by (auto simp: tr'_def)
    ultimately show ?thesis using turn True nt by (intro exI [of _ fin] exI [of _ ?cs]) simp
  next
    case False
    let ?cs = "cs1\<lparr>cs_ready := rest, cs_updates := cs_updates cs @ [(rc_pos rc, map_option trigger_tick (peek l2))]\<rparr>"
    have "collect_loop k now m cs = collect_loop k now m ?cs"
      using False unfolding turn by (auto split: option.split)
    moreover have "collect_inv k now m A D (fin @ [rc_active rc]) tr' ?cs"
      unfolding cs1_def by (rule collect_inv_give_up [OF D inv tr ready tr'_def]) (use False in auto)
    moreover have "cur_ok (Some ?rk) (cs_ready ?cs)"
      using pop(10) unfolding cur_ok_def by fastforce
    ultimately show ?thesis by (intro exI [of _ "fin @ [rc_active rc]"] exI [of _ ?cs]) simp
  qed
  with frame merge show ?thesis unfolding q1 [symmetric] tr'_def by metis
qed

lemma collect_loop_merge:
  assumes D: "due_ok A D"
  shows "collect_inv k now m A D fin tr cs \<Longrightarrow> cur_ok cur (cs_ready cs) \<Longrightarrow>
    \<exists>fin' tr' cs'. collect_loop k now m cs = Some cs' \<and> collect_inv k now m A D fin' (tr @ tr') cs' \<and>
      store_frame k (cs_store cs) (cs_store cs') \<and>
      merge_run now A (queues k (cs_store cs)) cur (m - length tr) tr' (queues k (cs_store cs'))"
proof (induction "m - length tr" arbitrary: fin tr cs cur rule: less_induct)
  case less
  show ?case
  proof (cases "length tr < m \<and> cs_ready cs \<noteq> []")
    case False
    have "cs_ticks cs = map snd tr" using less.prems by (simp add: collect_inv_def)
    with False have "collect_loop k now m cs = Some cs"
      by (subst collect_loop.simps) (auto split: option.split elim: heap_pop.elims)
    moreover have "merge_run now A (queues k (cs_store cs)) cur (m - length tr) [] (queues k (cs_store cs))"
    proof (cases "length tr < m")
      case True
      with False less.prems(1) show ?thesis by (intro merge_idle) (auto simp: collect_inv_def)
    qed (simp add: merge_full)
    ultimately show ?thesis using less.prems
      by (intro exI [of _ fin] exI [of _ "[]"] exI [of _ cs]) (simp add: store_frame_refl)
  next
    case True
    then obtain rc rest where tr: "length tr < m" and ready: "cs_ready cs = rc # rest"
      by (cases "cs_ready cs") auto
    from collect_step [OF D less.prems(1) tr ready less.prems(2)] obtain fin' t ts cs' where
      step: "collect_loop k now m cs = collect_loop k now m cs'"
        "collect_inv k now m A D fin' (tr @ map (Pair (rc_rank rc)) (t # ts)) cs'"
        "cur_ok (Some (rc_rank rc)) (cs_ready cs')" "store_frame k (cs_store cs) (cs_store cs')"
      and mrg: "\<And>tr' Q'. merge_run now A (queues k (cs_store cs')) (Some (rc_rank rc)) (m - length tr - length (t # ts)) tr' Q' \<Longrightarrow>
         merge_run now A (queues k (cs_store cs)) cur (m - length tr) (map (Pair (rc_rank rc)) (t # ts) @ tr') Q'"
      by blast
    let ?tr = "tr @ map (Pair (rc_rank rc)) (t # ts)"
    have "m - length ?tr < m - length tr" using tr by simp
    from less.hyps [OF this step(2,3)] obtain fin'' tr' cs'' where ih:
      "collect_loop k now m cs' = Some cs''" "collect_inv k now m A D fin'' (?tr @ tr') cs''"
      "store_frame k (cs_store cs') (cs_store cs'')"
      "merge_run now A (queues k (cs_store cs')) (Some (rc_rank rc)) (m - length ?tr) tr' (queues k (cs_store cs''))"
      by blast
    have "m - length ?tr = m - length tr - length (t # ts)" by simp
    with mrg ih(4) have "merge_run now A (queues k (cs_store cs)) cur (m - length tr)
        (map (Pair (rc_rank rc)) (t # ts) @ tr') (queues k (cs_store cs''))" by metis
    with step ih store_frame_trans [OF step(4) ih(3)] show ?thesis
      by (intro exI [of _ fin''] exI [of _ "map (Pair (rc_rank rc)) (t # ts) @ tr'"] exI [of _ cs'']) simp
  qed
qed


definition prepared :: "TickKind \<Rightarrow> i64 \<Rightarrow> Store \<Rightarrow> ReadyContainer list \<Rightarrow> bool" where
  "prepared k now st ready \<longleftrightarrow>
     sorted (map ready_key ready) \<and> (\<forall>rc \<in> set ready. ready_ok k now [] st rc)"

lemma prepare_ready_containers_ok:
  assumes "\<And>a. a \<in> set due \<Longrightarrow> lifecycle (st (at_container a)) = Registered" "prepared k now st ready"
  shows "\<exists>ready' fin. prepare_ready_containers k now st due (ready, upd) =
      Some (ready', upd @ map (head_update k st) fin) \<and> prepared k now st ready' \<and>
    mset (map rc_active ready' @ fin) = mset (map rc_active ready) + mset due \<and>
    (\<forall>a \<in> set fin. peek_ready now (queues k st (at_container a)) = None)"
  using assms
proof (induction due arbitrary: ready upd)
  case Nil
  then show ?case by (intro exI [of _ ready] exI [of _ "[]"]) simp
next
  case (Cons a due)
  have lc: "lifecycle (st (at_container a)) = Registered" using Cons.prems by simp
  show ?case
  proof (cases "peek_ready now (queues k st (at_container a))")
    case None
    then have "prepare_ready_containers k now st (a # due) (ready, upd) =
        prepare_ready_containers k now st due (ready, upd @ [head_update k st a])"
      using lc by (auto simp: peek_ready_peek queues_def head_update_def list_head_def split: option.splits if_splits)
    moreover obtain ready' fin where "prepare_ready_containers k now st due (ready, upd @ [head_update k st a]) =
        Some (ready', (upd @ [head_update k st a]) @ map (head_update k st) fin)" "prepared k now st ready'"
        "mset (map rc_active ready' @ fin) = mset (map rc_active ready) + mset due"
        "\<forall>a \<in> set fin. peek_ready now (queues k st (at_container a)) = None"
      using Cons.IH [of ready "upd @ [head_update k st a]"] Cons.prems by auto
    ultimately show ?thesis
      using None by (intro exI [of _ ready'] exI [of _ "a # fin"]) simp
  next
    case (Some t)
    let ?ready = "heap_push ready_cmp (ready_new a t False) ready"
    have "prepare_ready_containers k now st (a # due) (ready, upd) = prepare_ready_containers k now st due (?ready, upd)"
      using lc Some by (auto simp: peek_ready_peek queues_def split: option.splits if_splits)
    moreover have "prepared k now st ?ready"
      using Cons.prems(2) lc Some
      by (auto simp: prepared_def set_heap_push ready_queue.inv_push ready_ok_def ready_new_def
          head_key_def ready_head_key_def)
    moreover have "mset (map rc_active ?ready) = add_mset a (mset (map rc_active ready))"
      by (simp add: ready_queue.content_push)
    ultimately show ?thesis using Cons.IH [of ?ready upd] Cons.prems(1) by simp
  qed
qed

lemma collect_registered_ticks_ok:
  assumes D: "due_ok A D" and lc: "\<And>a. a \<in> set D \<Longrightarrow> lifecycle (st (at_container a)) = Registered"
    and full: "\<And>rk c. (rk, c) \<in> A \<Longrightarrow> peek_ready now (queues k st c) \<noteq> None \<Longrightarrow> c \<in> at_container ` set D"
  shows "\<exists>tr fin st'. collect_registered_ticks k now m D st =
      Some (\<lparr>batch_ticks = map snd tr, changed_containers = first_occurrences (map fst tr)\<rparr>,
            map (head_update k st') fin, st') \<and>
    mset fin = mset D \<and> store_frame k st st' \<and> merge_run now A (queues k st) None m tr (queues k st')"
proof -
  have "prepared k now st []" by (simp add: prepared_def)
  from prepare_ready_containers_ok [OF lc this, of D "[]"] obtain ready fin where
    prep: "prepare_ready_containers k now st D ([], []) = Some (ready, map (head_update k st) fin)"
    and pr: "prepared k now st ready" and ms: "mset (map rc_active ready @ fin) = mset D"
    and idle: "\<And>a. a \<in> set fin \<Longrightarrow> peek_ready now (queues k st (at_container a)) = None"
    by auto
  let ?cs = "\<lparr>cs_ready = ready, cs_updates = map (head_update k st) fin, cs_ticks = [], cs_changed = [], cs_store = st\<rparr>"
  have "\<exists>rc \<in> set ready. rc_rank rc = rk \<and> rc_container rc = c"
    if A: "(rk, c) \<in> A" "peek_ready now (queues k st c) \<noteq> None" for rk c
  proof -
    from full [OF A] obtain a where a: "a \<in> set D" "at_container a = c" by blast
    then have "at_rank a = rk" using D A(1) unfolding due_ok_def by (metis one_to_oneD)
    moreover have "a \<in> set (map rc_active ready @ fin)" using a ms by (metis mset_eq_setD)
    ultimately show ?thesis using a A(2) idle by auto
  qed
  then have "collect_inv k now m A D fin [] ?cs"
    using ms pr by (simp add: collect_inv_def prepared_def first_occurrences_def)
  from collect_loop_merge [OF D this, of None] obtain fin' tr cs' where
    loop: "collect_loop k now m ?cs = Some cs'" and inv: "collect_inv k now m A D fin' tr cs'"
    and fr: "store_frame k st (cs_store cs')" and mrg: "merge_run now A (queues k st) None m tr (queues k (cs_store cs'))"
    by (auto simp: cur_ok_def)
  have "map (\<lambda>rc. (rc_pos rc, list_head k (cs_store cs' (rc_container rc)))) (cs_ready cs') =
      map (head_update k (cs_store cs')) (map rc_active (cs_ready cs'))"
    by (simp add: head_update_def)
  with inv loop prep fr mrg show ?thesis
    by (intro exI [of _ tr] exI [of _ "fin' @ map rc_active (cs_ready cs')"] exI [of _ "cs_store cs'"])
       (simp add: collect_registered_ticks_def collect_inv_def add.commute [of "mset fin'"])
qed


section \<open>Taking the due containers\<close>

definition due_heads :: "TickKind \<Rightarrow> i64 \<Rightarrow> SchedulerState \<Rightarrow> ActiveTickContainer set" where
  "due_heads k now s =
     {a. \<exists>r h. chunks s (at_pos a) = Some r \<and> container r = at_container a \<and>
          active_rank (active_generation s) r = Some (at_rank a) \<and> head k r = Some h \<and> sint h \<le> sint now}"

definition clear_heads :: "TickKind \<Rightarrow> ChunkPos set \<Rightarrow> (ChunkPos \<rightharpoonup> RegisteredChunkTicks) \<Rightarrow> ChunkPos \<rightharpoonup> RegisteredChunkTicks" where
  "clear_heads k P f = (\<lambda>p. if p \<in> P then map_option (registered_set_head k None) (f p) else f p)"

definition take_due_inv :: "TickKind \<Rightarrow> Deadline list \<Rightarrow> SchedulerState \<Rightarrow> bool" where
  "take_due_inv k ds s \<longleftrightarrow> ranks_inv s \<and> (\<forall>k'. k' \<noteq> k \<longrightarrow> kind_inv k' s) \<and>
     btree_wf ds \<and> set ds = active_heads k (active_generation s) (chunks s)"

lemma take_due_inv_done:
  assumes "take_due_inv k ds s" shows "index_inv (set_deadlines k ds s)"
proof -
  have "kind_inv k' (set_deadlines k ds s)" for k'
    using assms by (cases "k' = k") (auto simp: take_due_inv_def kind_inv_def)
  moreover have "ranks_inv (set_deadlines k ds s)"
    using assms ranks_inv_cong [of "set_deadlines k ds s" s] by (simp add: take_due_inv_def)
  ultimately show ?thesis by (simp add: index_inv_def)
qed

lemma take_due_inv_clear:
  assumes inv: "take_due_inv k (deadline h p # ds) s" and r: "chunks s p = Some r"
    and h: "head k r = Some h" "active_rank (active_generation s) r \<noteq> None"
  shows "take_due_inv k ds (s\<lparr>chunks := (chunks s)(p \<mapsto> registered_set_head k None r)\<rparr>)"
proof -
  let ?s = "s\<lparr>chunks := (chunks s)(p \<mapsto> registered_set_head k None r)\<rparr>"
  have "ranks_inv ?s" using inv r by (intro ranks_inv_upd) (auto simp: take_due_inv_def)
  moreover have "kind_inv k' ?s" if "k' \<noteq> k" for k'
    using inv that r by (simp add: take_due_inv_def kind_inv_def active_heads_same head_entry_Some)
  moreover have "set ds = active_heads k (active_generation s) ((chunks s)(p \<mapsto> registered_set_head k None r))"
    using inv r h by (auto simp: take_due_inv_def active_heads_upd head_entry_Some btree_wf_def)
  ultimately show ?thesis using inv by (auto simp: take_due_inv_def btree_wf_def)
qed

lemma take_due_inv_head:
  assumes inv: "take_due_inv k (d # ds) s"
  obtains r h rk where "chunks s (deadline_pos d) = Some r" "head k r = Some h" "d = deadline h (deadline_pos d)"
    "active_rank (active_generation s) r = Some rk"
proof -
  have "d \<in> active_heads k (active_generation s) (chunks s)" using inv by (auto simp: take_due_inv_def)
  then show ?thesis
    unfolding active_heads_iff by (auto simp: head_entry_def split: option.splits if_splits intro!: that)
qed

lemma take_due_inv_mem:
  assumes "take_due_inv k ds s" "chunks s q = Some r" "active_rank (active_generation s) r = Some n" "head k r = Some h"
  shows "deadline h q \<in> set ds"
proof -
  have "deadline h q \<in> active_heads k (active_generation s) (chunks s)"
    unfolding active_heads_iff using assms(2-) by (simp add: head_entry_def)
  with assms(1) show ?thesis by (simp add: take_due_inv_def)
qed

lemma due_heads_empty:
  assumes "\<And>q r n h. chunks s q = Some r \<Longrightarrow> active_rank (active_generation s) r = Some n \<Longrightarrow>
    head k r = Some h \<Longrightarrow> sint now < sint h"
  shows "due_heads k now s = {}"
  using assms unfolding due_heads_def by (smt (verit) empty_Collect_eq)

lemma take_due_loop_ok:
  assumes "take_due_inv k ds s"
  shows "\<exists>due s'. take_due_loop k now ds s = (Ok due, s') \<and> index_inv s' \<and>
    active_generation s' = active_generation s \<and> distinct (map at_pos due) \<and> set due = due_heads k now s \<and>
    chunks s' = clear_heads k (at_pos ` set due) (chunks s)"
  using assms
proof (induction ds arbitrary: s)
  case Nil
  then have "due_heads k now s = {}"
    using take_due_inv_mem [OF Nil] by (intro due_heads_empty) fastforce
  with take_due_inv_done [OF Nil] show ?case by (simp add: clear_heads_def)
next
  case (Cons d ds)
  from take_due_inv_head [OF Cons.prems] obtain r h rk where
    r: "chunks s (deadline_pos d) = Some r" "head k r = Some h" "d = deadline h (deadline_pos d)"
      "active_rank (active_generation s) r = Some rk" by blast
  let ?p = "deadline_pos d"
  show ?case
  proof (cases "sint h \<le> sint now")
    case False
    have "sint now < sint h'"
      if "chunks s q = Some r'" "active_rank (active_generation s) r' = Some n" "head k r' = Some h'" for q r' n h'
    proof -
      have "deadline h' q \<in> set (d # ds)" by (rule take_due_inv_mem [OF Cons.prems that])
      then have "d \<le> deadline h' q" using Cons.prems by (auto simp: take_due_inv_def btree_wf_def)
      then have "fst d \<le> sint h'" by (metis fst_deadline less_eq_prod_def order_le_less)
      with False r(3) show ?thesis by (metis fst_deadline le_less_trans not_le)
    qed
    then have "due_heads k now s = {}" by (rule due_heads_empty)
    moreover have "fst d > sint now" using False r(3) by (metis fst_deadline not_le)
    ultimately show ?thesis using take_due_inv_done [OF Cons.prems] by (simp add: clear_heads_def)
  next
    case True
    let ?s = "s\<lparr>chunks := (chunks s)(?p \<mapsto> registered_set_head k None r)\<rparr>"
    have "take_due_inv k ds ?s" using take_due_inv_clear [of k h ?p ds s r] Cons.prems r by simp
    from Cons.IH [OF this] obtain due s' where ih: "take_due_loop k now ds ?s = (Ok due, s')" "index_inv s'"
      "active_generation s' = active_generation ?s" "distinct (map at_pos due)" "set due = due_heads k now ?s"
      "chunks s' = clear_heads k (at_pos ` set due) (chunks ?s)" by blast
    let ?a = "\<lparr>at_pos = ?p, at_rank = rk, at_container = container r\<rparr>"
    have d: "fst d = sint h" using r(3) by (metis fst_deadline)
    have "take_due_loop k now (d # ds) s = (Ok (?a # due), s')"
      using True r d ih(1) by simp
    moreover have p: "?p \<notin> at_pos ` set due" unfolding ih(5) by (auto simp: due_heads_def)
    moreover have "set (?a # due) = due_heads k now s"
      unfolding set_simps ih(5) using r(1,2,4) True by (auto simp: due_heads_def split: if_splits)
    moreover have "chunks s' = clear_heads k (at_pos ` set (?a # due)) (chunks s)"
      unfolding ih(6) using p r(1) by (auto simp: clear_heads_def)
    ultimately show ?thesis using ih by auto
  qed
qed


section \<open>Putting the heads back\<close>

lemma apply_head_updates_ok:
  assumes "index_inv s" "\<And>p. p \<in> fst ` set us \<Longrightarrow> chunks s p \<noteq> None" "distinct (map fst us)"
  shows "\<exists>s'. apply_head_updates k us s = (True, s') \<and> index_inv s' \<and>
    chunks s' = (\<lambda>p. case map_of us p of Some h \<Rightarrow> map_option (registered_set_head k h) (chunks s p) | None \<Rightarrow> chunks s p)"
  using assms
proof (induction us arbitrary: s)
  case (Cons u us)
  obtain p h where u: "u = (p, h)" by fastforce
  with Cons.prems obtain r where r: "chunks s p = Some r" by fastforce
  from set_head_inv [OF Cons.prems(1) r] obtain s1 where s1: "set_head p k h s = (Ok (), s1)" "index_inv s1"
    "chunks s1 = (chunks s)(p \<mapsto> registered_set_head k h r)" by metis
  have "chunks s1 q \<noteq> None" if "q \<in> fst ` set us" for q
    using Cons.prems(2) [of q] that s1(3) by auto
  from Cons.IH [OF s1(2) this] Cons.prems(3) obtain s' where
    ih: "apply_head_updates k us s1 = (True, s')" "index_inv s'"
    "chunks s' = (\<lambda>p. case map_of us p of Some h \<Rightarrow> map_option (registered_set_head k h) (chunks s1 p) | None \<Rightarrow> chunks s1 p)"
    by auto
  have "map_of us p = None" using Cons.prems(3) u by (simp add: map_of_eq_None_iff)
  then have "chunks s' = (\<lambda>q. case map_of (u # us) q of
      Some h \<Rightarrow> map_option (registered_set_head k h) (chunks s q) | None \<Rightarrow> chunks s q)"
    unfolding ih(3) s1(3) u using r by (auto simp: fun_eq_iff split: option.split)
  with ih s1(1) u show ?case by simp
qed simp

lemma sched_inv_rebuild:
  assumes inv: "sched_inv w" and s': "index_inv s'" "\<And>p. chunks s' p = map_option (f p) (chunks (state w) p)"
    and f: "\<And>p r. chunks (state w) p = Some r \<Longrightarrow> container (f p r) = container r"
      "\<And>p r k. chunks (state w) p = Some r \<Longrightarrow> head k (f p r) = list_head k (st (container r))"
    and st: "\<And>c. lifecycle (st c) = lifecycle (store w c)" "\<And>c k. sorted (map drain_key (ticks (queues k st c)))"
  shows "sched_inv (w\<lparr>store := st, state := s'\<rparr>)"
proof -
  have own: "containers_owned w" and hd: "heads_agree w" using inv by (simp_all add: sched_inv_def)
  have "heads_agree (w\<lparr>store := st, state := s'\<rparr>)"
    using hd f st(1) unfolding heads_agree_def by (auto simp: s'(2))
  moreover have "containers_owned (w\<lparr>store := st, state := s'\<rparr>)"
    unfolding containers_owned_def
  proof (intro conjI allI impI)
    fix p q r r'
    assume "chunks (state (w\<lparr>store := st, state := s'\<rparr>)) p = Some r"
      "chunks (state (w\<lparr>store := st, state := s'\<rparr>)) q = Some r'" "container r = container r'"
    then obtain x y where "chunks (state w) p = Some x" "chunks (state w) q = Some y" "container x = container y"
      using f(1) by (auto simp: s'(2))
    with own show "p = q" unfolding containers_owned_def by metis
  next
    fix c assume "lifecycle (store (w\<lparr>store := st, state := s'\<rparr>) c) = Registered"
    then have "lifecycle (store w c) = Registered" by (simp add: st(1))
    with own obtain p r where "chunks (state w) p = Some r" "container r = c" unfolding containers_owned_def by metis
    then have "chunks s' p = Some (f p r) \<and> container (f p r) = c" using f(1) by (simp add: s'(2))
    then show "\<exists>p r. chunks (state (w\<lparr>store := st, state := s'\<rparr>)) p = Some r \<and> container r = c" by auto
  qed
  moreover have "queues_sorted (w\<lparr>store := st, state := s'\<rparr>)"
    using st(2) by (simp add: queues_sorted_def queues_def)
  ultimately show ?thesis using s'(1) by (simp add: sched_inv_def)
qed

lemma contenders_one_to_one:
  assumes "sched_inv w" shows "one_to_one (contenders (state w))"
  unfolding one_to_one_def
proof (intro allI impI)
  fix rk c rk' c' assume A: "(rk, c) \<in> contenders (state w)" "(rk', c') \<in> contenders (state w)"
  from assms have rk: "ranks_inv (state w)" by (simp add: sched_inv_def index_inv_def)
  let ?g = "active_generation (state w)"
  from A obtain p r q x where
    p: "chunks (state w) p = Some r" "active_rank ?g r = Some rk" "container r = c" and
    q: "chunks (state w) q = Some x" "active_rank ?g x = Some rk'" "container x = c'"
    unfolding contenders_def by blast
  have "p = q" if "rk = rk'" using rk p q that unfolding ranks_inv_def by blast
  moreover have "p = q" if "c = c'" using container_unique [OF assms p(1) q(1)] p q that by simp
  ultimately show "rk = rk' \<longleftrightarrow> c = c'" using p q by (cases "p = q") auto
qed


lemma list_head_queues: "list_head k (st c) = map_option trigger_tick (peek (queues k st c))"
  by (simp add: list_head_def queues_def)

lemma peek_ready_list_head:
  "peek_ready now (queues k st c) \<noteq> None \<longleftrightarrow> (\<exists>h. list_head k (st c) = Some h \<and> sint h \<le> sint now)"
  by (auto simp: list_head_queues peek_ready_peek split: option.splits if_splits)

text \<open>The containers taken are exactly the contenders with a ready head.\<close>

lemma due_heads_ready:
  assumes inv: "sched_inv w" and D: "set D = due_heads k now (state w)" "distinct (map at_pos D)"
  shows "due_ok (contenders (state w)) D"
    and "a \<in> set D \<Longrightarrow> lifecycle (store w (at_container a)) = Registered"
    and "(rk, c) \<in> contenders (state w) \<Longrightarrow> peek_ready now (queues k (store w) c) \<noteq> None \<Longrightarrow>
      c \<in> at_container ` set D"
    and "a \<in> set D \<Longrightarrow> \<exists>r. chunks (state w) (at_pos a) = Some r \<and> container r = at_container a"
proof -
  have agree: "heads_agree w" using inv by (simp add: sched_inv_def)
  have "a = b" if "a \<in> set D" "b \<in> set D" "at_container a = at_container b" for a b
  proof -
    from that D(1) obtain r x where "chunks (state w) (at_pos a) = Some r" "container r = at_container a"
      "chunks (state w) (at_pos b) = Some x" "container x = at_container b" unfolding due_heads_def by blast
    with container_unique [OF inv, of "at_pos a" r "at_pos b" x] that(3) have "at_pos a = at_pos b" by simp
    with D(2) that(1,2) show ?thesis by (metis distinct_map inj_onD)
  qed
  moreover have "distinct D" using D(2) by (simp add: distinct_map)
  ultimately have "distinct (map at_container D)" by (simp add: distinct_map inj_on_def)
  moreover have "(at_rank a, at_container a) \<in> contenders (state w)" if "a \<in> set D" for a
    using that unfolding D(1) due_heads_def contenders_def by blast
  ultimately show "due_ok (contenders (state w)) D"
    using contenders_one_to_one [OF inv] by (simp add: due_ok_def)
  show pos: "\<exists>r. chunks (state w) (at_pos a) = Some r \<and> container r = at_container a" if "a \<in> set D" for a
    using that unfolding D(1) due_heads_def by blast
  show "lifecycle (store w (at_container a)) = Registered" if "a \<in> set D"
    using pos [OF that] agree unfolding heads_agree_def by metis
  show "c \<in> at_container ` set D" if "(rk, c) \<in> contenders (state w)" "peek_ready now (queues k (store w) c) \<noteq> None"
  proof -
    from that(1) obtain p r where r: "chunks (state w) p = Some r"
      "active_rank (active_generation (state w)) r = Some rk" "container r = c" unfolding contenders_def by blast
    from that(2) obtain h where "list_head k (store w c) = Some h" "sint h \<le> sint now"
      unfolding peek_ready_list_head by blast
    with r agree have "\<lparr>at_pos = p, at_rank = rk, at_container = c\<rparr> \<in> set D"
      unfolding D(1) due_heads_def heads_agree_def by simp
    then show ?thesis by force
  qed
qed

lemma head_update_positions:
  "map fst (map (head_update k st) fin) = map at_pos fin"
  by (simp add: head_update_def comp_def)

lemma map_of_head_updates:
  assumes "distinct (map at_pos fin)" "a \<in> set fin"
  shows "map_of (map (head_update k st) fin) (at_pos a) = Some (list_head k (st (at_container a)))"
proof -
  have "(at_pos a, list_head k (st (at_container a))) \<in> set (map (head_update k st) fin)"
    using assms(2) by (force simp: head_update_def)
  with assms(1) show ?thesis using head_update_positions [of k st fin] by (metis map_of_is_SomeI)
qed

lemma registered_set_head_twice [simp]:
  "registered_set_head k h (registered_set_head k h' r) = registered_set_head k h r"
  by (cases k) (simp_all add: registered_set_head_def)

lemma unserved_queue:
  assumes inv: "sched_inv w" and D: "set D = due_heads k now (state w)" "distinct (map at_pos D)"
    and mrg: "merge_run now (contenders (state w)) (queues k (store w)) None m tr Q'"
    and r: "chunks (state w) p = Some r" "p \<notin> at_pos ` set D"
  shows "Q' (container r) = queues k (store w) (container r)"
proof (rule merge_run_frame [OF mrg], rule ccontr)
  fix rk assume c: "(rk, container r) \<in> contenders (state w)" "peek_ready now (queues k (store w) (container r)) \<noteq> None"
  note due = due_heads_ready [OF inv D]
  from due(3) [OF c] obtain a where a: "a \<in> set D" "at_container a = container r" by force
  with due(4) [OF a(1)] container_unique [OF inv r(1)] have "p = at_pos a" by metis
  with a r(2) show False by blast
qed

lemma collect_heads_restored:
  assumes inv: "sched_inv w" and D: "set D = due_heads k now (state w)" "distinct (map at_pos D)"
    and s1: "index_inv s1" "chunks s1 = clear_heads k (at_pos ` set D) (chunks (state w))"
    and fin: "mset fin = mset D" and fr: "store_frame k (store w) st'"
    and mrg: "merge_run now (contenders (state w)) (queues k (store w)) None m tr (queues k st')"
  shows "\<exists>s2. apply_head_updates k (map (head_update k st') fin) s1 = (True, s2) \<and>
    sched_inv (w\<lparr>store := st', state := s2\<rparr>)"
proof -
  let ?P = "at_pos ` set D" and ?us = "map (head_update k st') fin"
  have sf: "set fin = set D" using fin by (rule mset_eq_setD)
  have df: "distinct (map at_pos fin)" using D(2) fin by (metis mset_eq_imp_distinct_iff mset_map)
  note due = due_heads_ready [OF inv D]
  have P: "fst ` set ?us = ?P" by (simp add: image_image head_update_def sf)
  have "chunks s1 p \<noteq> None" if "p \<in> fst ` set ?us" for p
  proof -
    from that obtain a where "a \<in> set D" "p = at_pos a" unfolding P by blast
    with due(4) [of a] show ?thesis by (auto simp: s1(2) clear_heads_def)
  qed
  moreover have "distinct (map fst ?us)" unfolding head_update_positions by (rule df)
  ultimately obtain s2 where s2: "apply_head_updates k ?us s1 = (True, s2)" "index_inv s2"
    "chunks s2 = (\<lambda>p. case map_of ?us p of Some h \<Rightarrow> map_option (registered_set_head k h) (chunks s1 p) | None \<Rightarrow> chunks s1 p)"
    using apply_head_updates_ok [OF s1(1)] by blast
  let ?f = "\<lambda>p r. if p \<in> ?P then registered_set_head k (list_head k (st' (container r))) r else r"
  have agree: "heads_agree w" and srt: "queues_sorted w" using inv by (simp_all add: sched_inv_def)
  have "chunks s2 p = map_option (?f p) (chunks (state w) p)" for p
  proof (cases "p \<in> ?P")
    case True
    then obtain a r where a: "a \<in> set D" "p = at_pos a" "chunks (state w) p = Some r" "container r = at_container a"
      using due(4) by blast
    with map_of_head_updates [OF df, of a k st'] sf True show ?thesis
      by (simp add: s2(3) s1(2) clear_heads_def)
  next
    case False
    then have "map_of ?us p = None" unfolding P [symmetric] map_of_eq_None_iff by blast
    with False show ?thesis by (simp add: s2(3) s1(2) clear_heads_def option.map_ident)
  qed
  moreover have "head k' (?f p r) = list_head k' (st' (container r))" if r: "chunks (state w) p = Some r" for p r k'
  proof (cases "k' = k \<and> p \<notin> ?P")
    case True
    with unserved_queue [OF inv D mrg r]
    have "queues k st' (container r) = queues k (store w) (container r)" by blast
    with True agree r show ?thesis by (simp add: heads_agree_def list_head_queues)
  next
    case False
    then show ?thesis
      using agree r fr by (auto simp: heads_agree_def list_head_queues store_frame_def)
  qed
  moreover have "sorted (map drain_key (ticks (queues k' st' c)))" for k' c
  proof (cases "k' = k")
    case True
    have "sorted (map drain_key (ticks (queues k (store w) d)))" for d
      using srt by (simp add: queues_sorted_def queues_def)
    with merge_run_sorted [OF mrg] True show ?thesis by blast
  next
    case False
    then show ?thesis using srt fr by (simp add: store_frame_def queues_sorted_def queues_def)
  qed
  ultimately have "sched_inv (w\<lparr>store := st', state := s2\<rparr>)"
    using fr by (intro sched_inv_rebuild [OF inv s2(2), where f = ?f]) (auto simp: store_frame_def)
  with s2(1) show ?thesis by blast
qed


lemma collect_ticks_ok:
  assumes inv: "sched_inv w"
  shows "\<exists>tr w'. collect_ticks k now m w =
      (Ok \<lparr>batch_ticks = map snd tr, changed_containers = first_occurrences (map fst tr)\<rparr>, w') \<and>
    sched_inv w' \<and> store_frame k (store w) (store w') \<and>
    merge_run now (contenders (state w)) (queues k (store w)) None m tr (queues k (store w'))"
proof (cases "m = 0")
  case True
  then show ?thesis using inv merge_full store_frame_refl
    by (intro exI [of _ "[]"] exI [of _ w]) (simp add: collect_ticks_def empty_batch_def first_occurrences_def)
next
  case False
  from inv have "take_due_inv k (deadlines k (state w)) (state w)"
    by (simp add: sched_inv_def index_inv_def kind_inv_def take_due_inv_def)
  from take_due_loop_ok [OF this, of now] obtain D s1 where
    td: "take_due k now (state w) = (Ok D, s1)" and s1: "index_inv s1"
      "chunks s1 = clear_heads k (at_pos ` set D) (chunks (state w))"
    and D: "set D = due_heads k now (state w)" "distinct (map at_pos D)"
    unfolding take_due_def by blast
  note due = due_heads_ready [OF inv D]
  show ?thesis
  proof (cases "D = []")
    case True
    then have "marks_only (state w) s1" by (simp add: marks_only_def s1(2) clear_heads_def)
    then have "sched_inv (w\<lparr>state := s1\<rparr>)" by (rule sched_inv_marks [OF inv s1(1)])
    moreover have "merge_run now (contenders (state w)) (queues k (store w)) None m [] (queues k (store w))"
      using due(3) True by (intro merge_idle) force
    ultimately show ?thesis using td True False store_frame_refl
      by (intro exI [of _ "[]"] exI [of _ "w\<lparr>state := s1\<rparr>"])
         (simp add: collect_ticks_def empty_batch_def first_occurrences_def)
  next
    case nonempty: False
    from collect_registered_ticks_ok [where st = "store w" and k = k and now = now and m = m, OF due(1)] due(2,3)
    obtain tr fin st' where
      col: "collect_registered_ticks k now m D (store w) =
        Some (\<lparr>batch_ticks = map snd tr, changed_containers = first_occurrences (map fst tr)\<rparr>,
          map (head_update k st') fin, st')"
      and fin: "mset fin = mset D" and fr: "store_frame k (store w) st'"
      and mrg: "merge_run now (contenders (state w)) (queues k (store w)) None m tr (queues k st')"
      by blast
    from collect_heads_restored [OF inv D s1 fin fr mrg] obtain s2 where
      "apply_head_updates k (map (head_update k st') fin) s1 = (True, s2)" "sched_inv (w\<lparr>store := st', state := s2\<rparr>)"
      by blast
    with td nonempty False col fr mrg show ?thesis
      by (intro exI [of _ tr] exI [of _ "w\<lparr>store := st', state := s2\<rparr>"]) (simp add: collect_ticks_def)
  qed
qed


section \<open>The merge is deterministic\<close>

lemma contend_key_inj: "contend_key cur rk t = contend_key cur rk' t' \<Longrightarrow> rk = rk'"
  by (auto simp: contend_key_def split: if_splits)

lemma merge_run_deterministic:
  assumes A: "one_to_one A" and m: "merge_run now A Q cur m tr Q'" "merge_run now A Q cur m tr' Q''"
  shows "tr = tr' \<and> Q' = Q''"
  using m
proof (induction arbitrary: tr' Q'')
  case (merge_full Q cur)
  then show ?case by cases auto
next
  case (merge_idle Q cur m)
  from merge_idle(2) show ?case
    by cases (use merge_idle(1) pop_peek_ready(1) in \<open>force+\<close>)
next
  case (merge_serve rk c Q t l cur m tr Q')
  note hyps = merge_serve.hyps(1-3) and IH = merge_serve.IH
  from merge_serve.prems show ?case
  proof cases
    case (merge_serve rk' c' t' l' tr2)
    have "contend_key cur rk t = contend_key cur rk' t'"
      using hyps(3) [OF merge_serve(2) pop_peek_ready(1) [OF merge_serve(3)]]
        merge_serve(4) [OF hyps(1) pop_peek_ready(1) [OF hyps(2)]] by (rule order.antisym)
    then have rk: "rk = rk'" by (rule contend_key_inj)
    with one_to_oneD [OF A hyps(1) merge_serve(2)] have "c = c'" by simp
    with merge_serve(3) hyps(2) have "t' = t" "l' = l" by simp_all
    with merge_serve(1,5) rk \<open>c = c'\<close> IH show ?thesis by metis
  qed (use hyps pop_peek_ready(1) in \<open>force+\<close>)
qed

section \<open>Run batches\<close>

definition run_batch_inv :: "ScheduledTickRunBatch \<Rightarrow> bool" where
  "run_batch_inv b \<longleftrightarrow>
     (case lookup b of None \<Rightarrow> True | Some m \<Rightarrow> \<exists>i \<le> next_index b. m = build_lookup i (run_ticks b))"

lemma build_lookup_iff:
  assumes "i \<le> n"
  shows "(case build_lookup i ts key of Some j \<Rightarrow> n \<le> j | None \<Rightarrow> False) \<longleftrightarrow>
    (\<exists>j. n \<le> j \<and> j < length ts \<and> tick_key (ts ! j) = key)"
  using assms
proof (induction ts rule: rev_induct)
  case Nil
  then show ?case by (simp add: build_lookup_def)
next
  case (snoc t ts)
  show ?case
  proof (cases "i \<le> length ts")
    case False
    then have "build_lookup i (ts @ [t]) = Map.empty" by (simp add: build_lookup_def)
    with False snoc.prems show ?thesis by auto
  next
    case True
    have "build_lookup i (ts @ [t]) = (build_lookup i ts)(tick_key t \<mapsto> length ts)"
      using True by (simp add: build_lookup_def zip_append1 upt_Suc_append)
    then show ?thesis
      using snoc.IH [OF snoc.prems] by (auto simp: less_Suc_eq nth_append)
  qed
qed

lemma contains_iff:
  assumes "run_batch_inv b"
  shows "fst (contains p ty b) \<longleftrightarrow>
    (\<exists>j. next_index b \<le> j \<and> j < length (run_ticks b) \<and> tick_key (run_ticks b ! j) = (p, ty))"
proof (cases "next_index b \<ge> length (run_ticks b)")
  case False
  obtain i where i: "i \<le> next_index b" "(case lookup b of Some m \<Rightarrow> m | None \<Rightarrow> build_lookup (next_index b) (run_ticks b)) =
      build_lookup i (run_ticks b)"
    using assms by (cases "lookup b") (auto simp: run_batch_inv_def)
  with False build_lookup_iff [OF i(1), of "run_ticks b" "(p, ty)"] show ?thesis
    by (simp add: contains_def)
qed (auto simp: contains_def)

inductive run_batch_reachable :: "ScheduledTickRunBatch \<Rightarrow> bool" where
  run_new: "run_batch_reachable (run_batch_new ts)"
| run_start: "run_batch_reachable b \<Longrightarrow> next_index b \<le> i \<Longrightarrow> start i b = Some b' \<Longrightarrow> run_batch_reachable b'"
| run_contains: "run_batch_reachable b \<Longrightarrow> run_batch_reachable (snd (contains p ty b))"

lemma run_batch_reachable_inv: "run_batch_reachable b \<Longrightarrow> run_batch_inv b"
proof (induction rule: run_batch_reachable.induct)
  case (run_start b i b')
  then have b': "b' = b\<lparr>next_index := i + 1\<rparr>" by (simp add: start_def split: if_splits)
  have "j \<le> i + 1" if "j \<le> next_index b" for j using that run_start.hyps(2) by simp
  with run_start.IH show ?case unfolding run_batch_inv_def b' by (cases "lookup b") auto
next
  case (run_contains b p ty)
  then show ?case by (auto simp: run_batch_inv_def contains_def Let_def split: option.splits)
qed (simp add: run_batch_inv_def run_batch_new_def)

end
