(* ===== verification/Tick_World.thy ===== *)
theory Tick_World
  imports Tick_Collect
begin

text \<open>
  Reachable worlds of the tick scheduler: every operation of containers and of the world index
  as a step relation, the invariant of its reachable states, and the properties of scheduling,
  registration, collection and run batches.
\<close>

section \<open>Reachable worlds\<close>

text \<open>Container operations a chunk performs before it is registered, or while it is a proto chunk.\<close>

inductive container_step :: "ChunkTickContainer \<Rightarrow> ChunkTickContainer \<Rightarrow> bool" where
  cstep_promote: "container_step c (snd (promote_to_full c))"
| cstep_schedule: "container_step c (snd (schedule_unregistered k ty p trig prio sub c))"
| cstep_pending: "container_step c (snd (container_schedule_pending k ty p prio c))"
| cstep_remove: "container_step c (snd (remove_pending_blocks_matching f c))"

inductive sched_step :: "Scheduler \<Rightarrow> Scheduler \<Rightarrow> bool" where
  step_container: "container_step (store w c) c' \<Longrightarrow> sched_step w (w\<lparr>store := (store w)(c := c')\<rparr>)"
| step_sub_tick: "sched_step w (snd (next_sub_tick_order w))"
| step_register: "sched_step w (snd (register_chunk ch w))"
| step_unpack_chunk: "sched_step w (snd (unpack_chunk p now w))"
| step_unregister: "sched_step w (snd (unregister_chunk p w))"
| step_reconcile: "distinct ps \<Longrightarrow> sched_step w (snd (reconcile_active_chunks ps w))"
| step_schedule_in: "chunk_ref_ok ch w \<Longrightarrow> sched_step w (snd (schedule_in k ch ty p trig prio sub w))"
| step_collect: "sched_step w (snd (collect_ticks k now m w))"

text \<open>The containers start with any lists the constructors make, loaded ones included; \<open>cl k c\<close> may
  be set for a list that was not loaded from saved ticks with duplicate keys.\<close>

definition store_start :: "(TickKind \<Rightarrow> ContainerId \<Rightarrow> bool) \<Rightarrow> Store \<Rightarrow> bool" where
  "store_start cl st \<longleftrightarrow>
     (\<forall>c. lifecycle (st c) \<in> {Proto, PrePublication} \<and> (\<forall>k. tick_list_reachable (cl k c) (queues k st c)))"

inductive sched_reachable :: "(TickKind \<Rightarrow> ContainerId \<Rightarrow> bool) \<Rightarrow> Scheduler \<Rightarrow> bool" for cl where
  sched_start: "store_start cl st \<Longrightarrow> sched_reachable cl (scheduler_new st)"
| sched_next: "sched_reachable cl w \<Longrightarrow> sched_step w w' \<Longrightarrow> sched_reachable cl w'"

definition lists_step :: "Store \<Rightarrow> Store \<Rightarrow> bool" where
  "lists_step st st' \<longleftrightarrow> (\<forall>c k. tick_list_step\<^sup>*\<^sup>* (queues k st c) (queues k st' c))"

lemma lists_step_refl [simp]: "lists_step st st"
  by (simp add: lists_step_def)

lemma lists_step_upd:
  assumes "\<And>k. tick_list_step\<^sup>*\<^sup>* (select k (lists (st c))) (select k (lists c'))"
  shows "lists_step st (st(c := c'))"
  using assms by (simp add: lists_step_def queues_def)

lemma container_step_lists:
  assumes "container_step c c'" shows "tick_list_step\<^sup>*\<^sup>* (select k (lists c)) (select k (lists c'))"
  using assms
proof cases
  case (cstep_schedule k' ty p trig prio sub)
  show ?thesis unfolding cstep_schedule
    using tick_list_step.step_schedule [of "select k' (lists c)" ty p trig prio sub]
    by (auto simp: schedule_unregistered_def split: prod.split)
next
  case (cstep_pending k' ty p prio)
  show ?thesis unfolding cstep_pending
    using tick_list_step.step_schedule_pending [of "select k' (lists c)" ty p prio]
    by (auto simp: container_schedule_pending_def split: prod.split)
next
  case (cstep_remove f)
  show ?thesis unfolding cstep_remove
    using tick_list_step.step_remove_pending [of "block (lists c)" f]
    by (cases k) (auto simp: remove_pending_blocks_matching_def select_def split: prod.split)
qed (simp add: promote_to_full_def)

lemma container_step_lifecycle:
  "container_step c c' \<Longrightarrow>
   (lifecycle c' = Registered) = (lifecycle c = Registered) \<and> (lifecycle c = Registered \<longrightarrow> c' = c)"
  by (erule container_step.cases)
     (auto simp: promote_to_full_def schedule_unregistered_def container_schedule_pending_def
       remove_pending_blocks_matching_def split: prod.splits)

lemma merge_run_lists:
  "merge_run now A Q cur m tr Q' \<Longrightarrow> tick_list_step\<^sup>*\<^sup>* (Q c) (Q' c)"
proof (induction rule: merge_run.induct)
  case (merge_serve rk d Q t l cur m tr Q')
  then show ?case
    by (cases "c = d") (auto intro: converse_rtranclp_into_rtranclp step_pop)
qed simp_all


lemma register_chunk_lists: "lists_step (store w) (store (snd (register_chunk ch w)))"
  by (auto simp: register_chunk_def Let_def lists_step_def queues_def)

lemma unpack_chunk_store:
  "store (snd (unpack_chunk p now w)) = store w \<or>
   (\<exists>c. store (snd (unpack_chunk p now w)) = (store w)(c := (store w c)\<lparr>lists :=
      \<lparr>block = unpack now (block (lists (store w c))), fluid = unpack now (fluid (lists (store w c)))\<rparr>\<rparr>))"
  by (auto simp: unpack_chunk_def Let_def split: option.split prod.split outcome.split)

lemma unpack_chunk_lists: "lists_step (store w) (store (snd (unpack_chunk p now w)))"
proof -
  have "lists_step (store w) ((store w)(c := (store w c)\<lparr>lists :=
      \<lparr>block = unpack now (block (lists (store w c))), fluid = unpack now (fluid (lists (store w c)))\<rparr>\<rparr>))" for c
  proof (rule lists_step_upd)
    fix k show "tick_list_step\<^sup>*\<^sup>* (select k (lists (store w c))) (select k (lists ((store w c)\<lparr>lists :=
        \<lparr>block = unpack now (block (lists (store w c))), fluid = unpack now (fluid (lists (store w c)))\<rparr>\<rparr>)))"
      by (cases k) (auto simp: select_def intro: step_unpack)
  qed
  then show ?thesis using unpack_chunk_store [of p now w] by (metis lists_step_refl)
qed

lemma unregister_chunk_lists: "lists_step (store w) (store (snd (unregister_chunk p w)))"
  by (auto simp: unregister_chunk_def Let_def lists_step_def queues_def split: option.split prod.split)

lemma reconcile_store [simp]: "store (snd (reconcile_active_chunks ps w)) = store w"
  by (simp add: reconcile_active_chunks_def Let_def split: option.split prod.split)

lemma schedule_in_store:
  "store (snd (schedule_in k ch ty p trig prio sub w)) \<in>
     {store w, put_list (scheduled_tick_container ch) k
        (snd (schedule ty p trig prio sub (select k (lists (store w (scheduled_tick_container ch)))))) (store w)}"
  by (auto simp: schedule_in_def Let_def split: option.split prod.split outcome.split)

lemma schedule_in_lists: "lists_step (store w) (store (snd (schedule_in k ch ty p trig prio sub w)))"
proof -
  let ?l = "select k (lists (store w (scheduled_tick_container ch)))"
  have "lists_step (store w) (put_list (scheduled_tick_container ch) k (snd (schedule ty p trig prio sub ?l)) (store w))"
    unfolding put_list_def by (rule lists_step_upd) (auto intro: tick_list_step.step_schedule)
  with schedule_in_store [of k ch ty p trig prio sub w] show ?thesis by auto
qed

lemma collect_ticks_lists:
  assumes "sched_inv w" shows "lists_step (store w) (store (snd (collect_ticks k now m w)))"
proof -
  from collect_ticks_ok [OF assms, of k now m] obtain tr w' where
    w': "snd (collect_ticks k now m w) = w'" "store_frame k (store w) (store w')"
      "merge_run now (contenders (state w)) (queues k (store w)) None m tr (queues k (store w'))"
    by (metis snd_conv)
  have "tick_list_step\<^sup>*\<^sup>* (queues k' (store w) c) (queues k' (store w') c)" for k' c
    using merge_run_lists [OF w'(3), of c] w'(2) by (cases "k' = k") (simp_all add: store_frame_def)
  then show ?thesis unfolding w'(1) lists_step_def by blast
qed

lemmas world_lists = register_chunk_lists unpack_chunk_lists unregister_chunk_lists schedule_in_lists collect_ticks_lists

lemma sched_step_lists:
  assumes "sched_step w w'" "sched_inv w" shows "lists_step (store w) (store w')"
  using assms(1)
proof cases
  case (step_container c c')
  then show ?thesis using container_step_lists by (auto intro: lists_step_upd)
qed (use assms(2) world_lists in \<open>simp_all add: next_sub_tick_order_def\<close>)

lemma lists_step_reachable:
  assumes "lists_step st st'" "tick_list_reachable d (queues k st c)" shows "tick_list_reachable d (queues k st' c)"
proof -
  have "tick_list_step\<^sup>*\<^sup>* (queues k st c) (queues k st' c)" using assms(1) by (simp add: lists_step_def)
  then show ?thesis using assms(2) by (induction rule: rtranclp_induct) (auto intro: reach_step)
qed

definition world_inv :: "(TickKind \<Rightarrow> ContainerId \<Rightarrow> bool) \<Rightarrow> Scheduler \<Rightarrow> bool" where
  "world_inv cl w \<longleftrightarrow> sched_inv w \<and> (\<forall>k c. tick_list_wf (cl k c) (queues k (store w) c))"

lemma container_step_inv:
  assumes inv: "sched_inv w" and wf: "\<And>k. tick_list_wf (cl k) (queues k (store w) c)" and st: "container_step (store w c) c'"
  shows "sched_inv (w\<lparr>store := (store w)(c := c')\<rparr>)"
proof (cases "lifecycle (store w c) = Registered")
  case True
  with container_step_lifecycle [OF st] inv show ?thesis by simp
next
  case False
  have "tick_list_wf (cl k) (select k (lists c'))" for k
    using container_step_lists [OF st, of k] wf [of k] tick_list_step_wf
    by (induction rule: rtranclp_induct) (auto simp: queues_def)
  with False inv container_step_lifecycle [OF st] show ?thesis
    by (intro sched_inv_store_unregistered) (auto dest: tick_list_wf_sorted)
qed

lemma sched_step_inv:
  assumes "sched_step w w'" and inv: "sched_inv w" and wf: "\<And>k c. tick_list_wf (cl k c) (queues k (store w) c)"
  shows "sched_inv w'"
  using assms(1)
proof cases
  case (step_container c c')
  with container_step_inv [of w "\<lambda>k. cl k c"] inv wf show ?thesis by simp
next
  case step_sub_tick
  have "sched_inv (w\<lparr>next_sub_tick_order_counter := n\<rparr>)" for n
    using inv by (simp add: sched_inv_def heads_agree_def containers_owned_def queues_sorted_def)
  with step_sub_tick show ?thesis by (simp add: next_sub_tick_order_def)
next
  case (step_collect k now m)
  with collect_ticks_ok [OF inv, of k now m] show ?thesis by auto
qed (use inv register_chunk_inv unpack_chunk_inv unregister_chunk_inv reconcile_active_chunks_inv schedule_in_inv in auto)

lemma sched_reachable_inv: "sched_reachable cl w \<Longrightarrow> world_inv cl w"
proof -
  assume "sched_reachable cl w"
  then have "sched_inv w \<and> (\<forall>k c. tick_list_reachable (cl k c) (queues k (store w) c))"
  proof (induction rule: sched_reachable.induct)
    case (sched_start st)
    then have "tick_list_wf (cl k c) (queues k st c)" for k c by (auto simp: store_start_def intro: reachable_wf)
    moreover have "lifecycle (st c) \<noteq> Registered" for c
      using sched_start unfolding store_start_def by (metis Lifecycle.distinct(4,8) insertE singletonD)
    ultimately have "sched_inv (scheduler_new st)"
      by (intro sched_inv_new) (auto simp: queues_def dest: tick_list_wf_sorted)
    with sched_start show ?case by (simp add: store_start_def scheduler_new_def)
  next
    case (sched_next w w')
    then have "tick_list_wf (cl k c) (queues k (store w) c)" for k c using reachable_wf by blast
    with sched_next show ?case using sched_step_inv [of w w' cl] sched_step_lists [of w w'] lists_step_reachable by blast
  qed
  then show ?thesis by (simp add: world_inv_def reachable_wf)
qed


section \<open>Properties\<close>

text \<open>C3: In every reachable world the deadline index lists exactly the heads of the active
  registered containers, the recorded heads are the real ones, and every tick list is well
  formed (with distinct keys and an exact deduplication set where \<open>cl\<close> says that the list was not
  loaded from saved ticks with duplicate keys); and none of the operations of the index can fail an
  assertion there, called the way the world calls them: reconciled with distinct positions and, for
  scheduling, with a chunk whose container is registered at no other position.\<close>

theorem scheduler_never_panics:
  assumes "sched_reachable cl w" "chunk_ref_ok ch w" "distinct ps"
  shows "world_inv cl w \<and> fst (register_chunk ch w) \<noteq> Panic \<and> fst (unpack_chunk p now w) \<noteq> Panic \<and>
    fst (unregister_chunk p w) = Ok () \<and> fst (reconcile_active_chunks ps w) \<noteq> Panic \<and>
    fst (schedule_in k ch ty bp trig prio sub w) \<noteq> Panic \<and> (\<exists>b. fst (collect_ticks k now m w) = Ok b)"
proof -
  have inv: "sched_inv w" using sched_reachable_inv [OF assms(1)] by (simp add: world_inv_def)
  with assms show ?thesis
    using sched_reachable_inv register_chunk_inv unpack_chunk_inv unregister_chunk_inv
      reconcile_active_chunks_inv schedule_in_inv collect_ticks_ok [OF inv, of k now m] by auto
qed

definition sample_store :: Store where
  "sample_store c = container_new \<lparr>block = snd (schedule 7 (BlockPos 1 2 3) 10 Normal 1 tick_list_new), fluid = tick_list_new\<rparr>"

definition sample_chunk :: FullChunkRef where
  "sample_chunk = \<lparr>common_pos = ChunkPos 0 0, scheduled_tick_container = 0\<rparr>"

definition sample_world :: Scheduler where
  "sample_world = snd (reconcile_active_chunks [ChunkPos 0 0] (snd (register_chunk sample_chunk (scheduler_new sample_store))))"

lemma sample_store_start: "store_start (\<lambda>_ _. True) sample_store"
proof -
  have "tick_list_reachable True (snd (schedule 7 (BlockPos 1 2 3) 10 Normal 1 tick_list_new))"
    by (rule reach_step [OF reach_new step_schedule])
  moreover have "tick_list_reachable True tick_list_new" by (rule reach_new)
  ultimately show ?thesis
    by (simp add: store_start_def sample_store_def container_new_def queues_def select_def split: TickKind.split)
qed

lemma sample_world_reachable: "sched_reachable (\<lambda>_ _. True) sample_world"
  unfolding sample_world_def
  by (rule sched_next [OF sched_next [OF sched_start [OF sample_store_start] step_register] step_reconcile]) simp

lemma sample_world_chunks:
  "chunks (state sample_world) = [ChunkPos 0 0 \<mapsto> \<lparr>container = 0, block_head = Some 10, fluid_head = None,
     active = Some \<lparr>generation = 1, active_rank_of = 0\<rparr>\<rparr>]"
  "active_generation (state sample_world) = 1"
  by (simp_all add: sample_world_def reconcile_active_chunks_def register_chunk_def scheduler_new_def sample_chunk_def
      sample_store_def container_new_def list_head_def select_def peek_def advance_active_generation_def
      add_head_deadline_def head_def schedule_def tick_list_new_def push_unchecked_def btree_insert_def
      set_deadlines_def deadlines_def)


lemma sample_world_ref: "chunk_ref_ok sample_chunk sample_world"
  by (simp add: chunk_ref_ok_def sample_world_chunks sample_chunk_def)

theorem scheduler_never_panics_witness:
  "world_inv (\<lambda>_ _. True) sample_world \<and> fst (unregister_chunk (ChunkPos 0 0) sample_world) = Ok () \<and>
   (\<exists>b. fst (collect_ticks Block 20 5 sample_world) = Ok b)"
  using scheduler_never_panics [OF sample_world_reachable sample_world_ref, of "[ChunkPos 0 0]"] by simp

lemma merge_run_exhausts:
  "merge_run now A Q cur m tr Q' \<Longrightarrow> length tr < m \<Longrightarrow> (rk, c) \<in> A \<Longrightarrow> peek_ready now (Q' c) = None"
  by (induction rule: merge_run.induct) auto

text \<open>C2: Collection selects exactly the ticks of the merge of queue heads: the batch, the
  order of the ticks, the ranks reported as changed and the queues left behind are those of the
  unique run that at each turn serves the active container whose ready head comes first by
  priority and sub-tick order (ties: the container served last, then the lower rank), until
  \<open>max_ticks\<close> are taken or no ready head is left. The index invariant holds afterwards.\<close>

theorem collect_ticks_is_merge:
  assumes "sched_reachable cl w"
  shows "\<exists>tr w'. collect_ticks k now m w =
      (Ok \<lparr>batch_ticks = map snd tr, changed_containers = first_occurrences (map fst tr)\<rparr>, w') \<and> world_inv cl w' \<and>
    (\<forall>tr' Q'. merge_run now (contenders (state w)) (queues k (store w)) None m tr' Q' \<longleftrightarrow>
       tr' = tr \<and> Q' = queues k (store w')) \<and>
    length tr \<le> m \<and>
    (length tr < m \<longrightarrow> (\<forall>(rk, c) \<in> contenders (state w). peek_ready now (queues k (store w') c) = None))"
proof -
  have inv: "sched_inv w" using sched_reachable_inv [OF assms] by (simp add: world_inv_def)
  from collect_ticks_ok [OF inv, of k now m] obtain tr w' where
    col: "collect_ticks k now m w =
      (Ok \<lparr>batch_ticks = map snd tr, changed_containers = first_occurrences (map fst tr)\<rparr>, w')"
    and mrg: "merge_run now (contenders (state w)) (queues k (store w)) None m tr (queues k (store w'))" by blast
  have "world_inv cl w'"
    using sched_reachable_inv sched_next [OF assms step_collect [of w k now m]] col by simp
  moreover have "merge_run now (contenders (state w)) (queues k (store w)) None m tr' Q' \<longleftrightarrow>
      tr' = tr \<and> Q' = queues k (store w')" for tr' Q'
    using mrg merge_run_deterministic [OF contenders_one_to_one [OF inv]] by metis
  ultimately show ?thesis
    using col merge_run_length [OF mrg] merge_run_exhausts [OF mrg] by blast
qed

lemma sample_world_ready:
  "(0, 0) \<in> contenders (state sample_world) \<and> peek_ready 20 (queues Block (store sample_world) 0) \<noteq> None"
proof -
  have "heads_agree sample_world"
    using sched_reachable_inv [OF sample_world_reachable] by (simp add: world_inv_def sched_inv_def)
  then have "head Block r = list_head Block (store sample_world (container r))"
    if "chunks (state sample_world) (ChunkPos 0 0) = Some r" for r
    using that unfolding heads_agree_def by blast
  then have "list_head Block (store sample_world 0) = Some 10"
    by (simp add: sample_world_chunks head_def)
  then show ?thesis
    by (simp add: peek_ready_list_head contenders_def sample_world_chunks active_rank_def del: not_None_eq)
qed

theorem collect_ticks_is_merge_witness:
  "\<exists>tr w'. collect_ticks Block 20 5 sample_world =
      (Ok \<lparr>batch_ticks = map snd tr, changed_containers = first_occurrences (map fst tr)\<rparr>, w') \<and>
    tr \<noteq> [] \<and> merge_run 20 (contenders (state sample_world)) (queues Block (store sample_world)) None 5 tr
      (queues Block (store w'))"
proof -
  from collect_ticks_is_merge [OF sample_world_reachable, of Block 20 5] obtain tr w' where
    w': "collect_ticks Block 20 5 sample_world =
      (Ok \<lparr>batch_ticks = map snd tr, changed_containers = first_occurrences (map fst tr)\<rparr>, w')"
    and mrg: "merge_run 20 (contenders (state sample_world)) (queues Block (store sample_world)) None 5 tr
      (queues Block (store w'))" by blast
  from mrg have "tr \<noteq> []"
    by cases (use sample_world_ready in auto)
  with w' mrg show ?thesis by blast
qed


lemma put_list_same: "put_list c k (select k (lists (st c))) st = st"
  by (cases k) (simp_all add: put_list_def select_update_def select_def)

lemma schedule_result:
  "schedule ty p trig prio sub l = (a, l') \<Longrightarrow> a = (\<not> has_tick p ty l) \<and> (\<not> a \<longrightarrow> l' = l)"
  by (auto simp: schedule_def has_tick_def Let_def split: if_splits)

text \<open>Scheduling into a full chunk: a finalized container refuses with
  \<open>MissingContainer\<close> and changes nothing; otherwise the call succeeds, reports whether no tick of
  the same position and type was scheduled, and the chunk's list is the scheduled one.\<close>

lemma schedule_in_results:
  assumes "sched_reachable cl w" "chunk_ref_ok ch w" "lifecycle (store w (scheduled_tick_container ch)) \<noteq> Proto"
  shows "if lifecycle (store w (scheduled_tick_container ch)) = Finalized
    then schedule_in k ch ty p trig prio sub w = (Err (MissingContainer (common_pos ch)), w)
    else (\<exists>w'. schedule_in k ch ty p trig prio sub w =
        (Ok (\<not> has_tick p ty (queues k (store w) (scheduled_tick_container ch))), w') \<and>
      store w' = put_list (scheduled_tick_container ch) k
        (snd (schedule ty p trig prio sub (queues k (store w) (scheduled_tick_container ch)))) (store w))"
proof -
  let ?cid = "scheduled_tick_container ch" and ?cp = "common_pos ch"
  have inv: "sched_inv w" using sched_reachable_inv [OF assms(1)] by (simp add: world_inv_def)
  obtain a l where s: "schedule ty p trig prio sub (select k (lists (store w ?cid))) = (a, l)" by fastforce
  note res = schedule_result [OF s]
  show ?thesis
  proof (cases "lifecycle (store w ?cid) = Registered")
    case False
    with assms(3) s res show ?thesis
      by (cases "lifecycle (store w ?cid)") (simp_all add: schedule_in_def queues_def Let_def)
  next
    case True
    with inv obtain q r where "chunks (state w) q = Some r" "container r = ?cid"
      unfolding sched_inv_def containers_owned_def by blast
    with assms(2) have r: "chunks (state w) ?cp = Some r" "container r = ?cid"
      unfolding chunk_ref_ok_def by auto
    from inv have "index_inv (state w)" by (simp add: sched_inv_def)
    from set_head_inv [OF this r(1)] obtain s1 where
      "set_head ?cp k (map_option trigger_tick (peek l)) (state w) = (Ok (), s1)" by metis
    with True r s res put_list_same [of ?cid k "store w"] show ?thesis
      by (cases a) (simp_all add: schedule_in_def queues_def Let_def)
  qed
qed

text \<open>A run batch answers whether a tick will still run this tick: whatever callbacks
  queried it and started entries before, \<open>contains\<close> is true exactly when an entry at or after the
  next index has that position and type. The lookup built on the first query never goes stale.\<close>

lemma run_batch_contains:
  assumes "run_batch_reachable b"
  shows "fst (contains p ty b) \<longleftrightarrow>
    (\<exists>j. next_index b \<le> j \<and> j < length (run_ticks b) \<and> tick_key (run_ticks b ! j) = (p, ty))"
  by (rule contains_iff [OF run_batch_reachable_inv [OF assms]])

definition sample_batch :: "ScheduledTick list" where
  "sample_batch =
     [\<lparr>tick_type = 7, tick_pos = BlockPos 1 2 3, trigger_tick = 4, tick_priority = Normal, sub_tick_order = 0\<rparr>,
      \<lparr>tick_type = 8, tick_pos = BlockPos 1 2 3, trigger_tick = 4, tick_priority = Normal, sub_tick_order = 1\<rparr>]"

end
