(* ===== verification/Chunk_Level.thy ===== *)
theory Chunk_Level
  imports Prelude
begin

text \<open>
  Chunk generation statuses, the dependency pyramids computed from their requirement tables, and
  ticket levels with the status they permit (steel-core/src/chunk/status.rs, chunk_pyramid.rs,
  chunk_ticket_manager.rs). The pyramids are constants of the program; an array index out of
  range would be a compile-time error there, and the arrays here have the same fixed sizes.
\<close>

section \<open>Statuses\<close>

datatype ChunkStatus =
  Empty | StructureStarts | StructureReferences | Biomes | Terrain | Features | InitializeLight
  | Light | Spawn | Full

fun get_index :: "ChunkStatus \<Rightarrow> nat" where
  "get_index Empty = 0"
| "get_index StructureStarts = 1"
| "get_index StructureReferences = 2"
| "get_index Biomes = 3"
| "get_index Terrain = 4"
| "get_index Features = 5"
| "get_index InitializeLight = 6"
| "get_index Light = 7"
| "get_index Spawn = 8"
| "get_index Full = 9"

definition from_index :: "nat \<Rightarrow> ChunkStatus option" where
  "from_index i =
     (if i = 0 then Some Empty
      else if i = 1 then Some StructureStarts
      else if i = 2 then Some StructureReferences
      else if i = 3 then Some Biomes
      else if i = 4 then Some Terrain
      else if i = 5 then Some Features
      else if i = 6 then Some InitializeLight
      else if i = 7 then Some Light
      else if i = 8 then Some Spawn
      else if i = 9 then Some Full
      else None)"

fun status_next :: "ChunkStatus \<Rightarrow> ChunkStatus option" where
  "status_next Empty = Some StructureStarts"
| "status_next StructureStarts = Some StructureReferences"
| "status_next StructureReferences = Some Biomes"
| "status_next Biomes = Some Terrain"
| "status_next Terrain = Some Features"
| "status_next Features = Some InitializeLight"
| "status_next InitializeLight = Some Light"
| "status_next Light = Some Spawn"
| "status_next Spawn = Some Full"
| "status_next Full = None"

fun status_parent :: "ChunkStatus \<Rightarrow> ChunkStatus option" where
  "status_parent Empty = None"
| "status_parent StructureStarts = Some Empty"
| "status_parent StructureReferences = Some StructureStarts"
| "status_parent Biomes = Some StructureReferences"
| "status_parent Terrain = Some Biomes"
| "status_parent Features = Some Terrain"
| "status_parent InitializeLight = Some Features"
| "status_parent Light = Some InitializeLight"
| "status_parent Spawn = Some Light"
| "status_parent Full = Some Spawn"

text \<open>The derived order of the enum is the order of its indices.\<close>

instantiation ChunkStatus :: linorder
begin

definition less_eq_ChunkStatus :: "ChunkStatus \<Rightarrow> ChunkStatus \<Rightarrow> bool" where
  "a \<le> b \<longleftrightarrow> get_index a \<le> get_index b"

definition less_ChunkStatus :: "ChunkStatus \<Rightarrow> ChunkStatus \<Rightarrow> bool" where
  "a < b \<longleftrightarrow> get_index a < get_index b"

instance
proof
  fix x y :: ChunkStatus
  show "x \<le> y \<Longrightarrow> y \<le> x \<Longrightarrow> x = y"
    by (cases x; cases y) (simp_all add: less_eq_ChunkStatus_def)
qed (auto simp: less_eq_ChunkStatus_def less_ChunkStatus_def)

end

definition all_statuses :: "ChunkStatus list" where
  "all_statuses =
     [Empty, StructureStarts, StructureReferences, Biomes, Terrain, Features, InitializeLight,
      Light, Spawn, Full]"

lemma all_statuses_UNIV: "s \<in> set all_statuses"
  by (cases s) (simp_all add: all_statuses_def)

section \<open>Dependencies\<close>

definition STATUS_COUNT :: nat where
  "STATUS_COUNT = 12"

definition MAX_RADIUS :: nat where
  "MAX_RADIUS = 16"

record ChunkDependencies =
  dependency_by_radius :: "ChunkStatus option list"
  dep_len :: nat
  radius_by_dependency :: "nat list"

definition deps_EMPTY :: ChunkDependencies where
  "deps_EMPTY =
     \<lparr>dependency_by_radius = replicate MAX_RADIUS None, dep_len = 0,
      radius_by_dependency = replicate STATUS_COUNT 0\<rparr>"

text \<open>The inner \<open>while\<close> loops over an index \<open>j\<close> as folds over the indices they visit.\<close>

definition extend_entries :: "ChunkStatus \<Rightarrow> nat \<Rightarrow> nat \<Rightarrow> ChunkStatus option list \<Rightarrow> ChunkStatus option list" where
  "extend_entries status len new_len deps = fold (\<lambda>j d. d[j := Some status]) [len..<new_len] deps"

definition raise_entry :: "ChunkStatus \<Rightarrow> nat \<Rightarrow> ChunkStatus option list \<Rightarrow> ChunkStatus option list" where
  "raise_entry status j deps =
     (case deps ! j of
        Some existing \<Rightarrow> if get_index status > get_index existing then deps[j := Some status] else deps
      | None \<Rightarrow> deps)"

definition apply_requirement :: "ChunkStatus \<times> nat \<Rightarrow> ChunkStatus option list \<times> nat \<Rightarrow> ChunkStatus option list \<times> nat" where
  "apply_requirement r st =
     (case (r, st) of ((status, radius), (deps, len)) \<Rightarrow>
        (let new_len = radius + 1;
             (deps, len) = (if new_len > len then (extend_entries status len new_len deps, new_len) else (deps, len));
             limit = min len new_len
         in (fold (raise_entry status) [0..<limit] deps, len)))"

fun fill_radius :: "nat \<Rightarrow> nat \<Rightarrow> nat list \<Rightarrow> nat list" where
  "fill_radius radius index rbd = fold (\<lambda>j r. r[j := radius]) [0..<min (index + 1) STATUS_COUNT] rbd"

definition build_radius_lookup :: "ChunkStatus option list \<Rightarrow> nat \<Rightarrow> nat list" where
  "build_radius_lookup deps len =
     fold (\<lambda>radius rbd. case deps ! radius of Some dep \<Rightarrow> fill_radius radius (get_index dep) rbd | None \<Rightarrow> rbd)
       [0..<len] (replicate STATUS_COUNT 0)"

definition from_requirements :: "(ChunkStatus \<times> nat) list \<Rightarrow> ChunkStatus option \<Rightarrow> ChunkDependencies" where
  "from_requirements reqs parent_status =
     (let start = (case parent_status of
                     Some parent \<Rightarrow> ((replicate MAX_RADIUS None)[0 := Some parent], 1)
                   | None \<Rightarrow> (replicate MAX_RADIUS None, 0));
          (deps, len) = fold apply_requirement reqs start
      in \<lparr>dependency_by_radius = deps, dep_len = len, radius_by_dependency = build_radius_lookup deps len\<rparr>)"

fun const_max_status :: "ChunkStatus option \<Rightarrow> ChunkStatus option \<Rightarrow> ChunkStatus option" where
  "const_max_status (Some sa) (Some sb) = (if get_index sa > get_index sb then Some sa else Some sb)"
| "const_max_status (Some s) None = Some s"
| "const_max_status None (Some s) = Some s"
| "const_max_status None None = None"

definition accumulate :: "ChunkDependencies \<Rightarrow> ChunkDependencies \<Rightarrow> ChunkStatus \<Rightarrow> ChunkDependencies" where
  "accumulate self parent_accumulated parent_status =
     (let radius_of_parent =
            fold (\<lambda>i r. case dependency_by_radius self ! i of
                     Some s \<Rightarrow> if get_index s \<ge> get_index parent_status then i else r
                   | None \<Rightarrow> r) [0..<dep_len self] 0;
          new_len = max (radius_of_parent + dep_len parent_accumulated) (dep_len self);
          capped_len = min new_len MAX_RADIUS;
          accumulated =
            fold (\<lambda>dist acc.
                let dist_in_parent = dist - radius_of_parent;
                    parent_dep = (if dist_in_parent < dep_len parent_accumulated
                                  then dependency_by_radius parent_accumulated ! dist_in_parent else None);
                    direct_dep = (if dist < dep_len self then dependency_by_radius self ! dist else None)
                in acc[dist := const_max_status direct_dep parent_dep])
              [0..<capped_len] (replicate MAX_RADIUS None)
      in \<lparr>dependency_by_radius = accumulated, dep_len = capped_len,
          radius_by_dependency = build_radius_lookup accumulated capped_len\<rparr>)"

definition get_radius_of :: "ChunkDependencies \<Rightarrow> ChunkStatus \<Rightarrow> nat" where
  "get_radius_of d status = radius_by_dependency d ! get_index status"

definition get_radius :: "ChunkDependencies \<Rightarrow> nat" where
  "get_radius d = dep_len d - 1"

definition deps_get :: "ChunkDependencies \<Rightarrow> nat \<Rightarrow> ChunkStatus option" where
  "deps_get d distance = (if distance < dep_len d then dependency_by_radius d ! distance else None)"

section \<open>Pyramids\<close>

text \<open>The task of a step is world generation code; the model keeps its name.\<close>

record ChunkStep =
  target_status :: ChunkStatus
  direct_dependencies :: ChunkDependencies
  accumulated_dependencies :: ChunkDependencies
  block_state_write_radius :: int
  step_task :: string

definition step_PLACEHOLDER :: ChunkStep where
  "step_PLACEHOLDER =
     \<lparr>target_status = Empty, direct_dependencies = deps_EMPTY, accumulated_dependencies = deps_EMPTY,
      block_state_write_radius = -1, step_task = ''noop_task''\<rparr>"

definition get_accumulated_radius_of :: "ChunkStep \<Rightarrow> ChunkStatus \<Rightarrow> nat" where
  "get_accumulated_radius_of st status =
     (if get_index status = get_index (target_status st) then 0
      else get_radius_of (accumulated_dependencies st) status)"

record ConstPyramidBuilder =
  steps :: "ChunkStep list"
  step_count :: nat

definition builder_new :: ConstPyramidBuilder where
  "builder_new = \<lparr>steps = replicate STATUS_COUNT step_PLACEHOLDER, step_count = 0\<rparr>"

definition builder_step ::
  "ChunkStatus \<Rightarrow> (ChunkStatus \<times> nat) list \<Rightarrow> int \<Rightarrow> string \<Rightarrow> ConstPyramidBuilder \<Rightarrow> ConstPyramidBuilder" where
  "builder_step status requirements bswr task b =
     (let parent = (if step_count b > 0 then Some (steps b ! (step_count b - 1)) else None);
          direct = from_requirements requirements (map_option target_status parent);
          accumulated =
            (case parent of
               Some p \<Rightarrow> accumulate direct (accumulated_dependencies p) (target_status p)
             | None \<Rightarrow> direct)
      in \<lparr>steps = (steps b)[step_count b :=
            \<lparr>target_status = status, direct_dependencies = direct, accumulated_dependencies = accumulated,
             block_state_write_radius = bswr, step_task = task\<rparr>],
          step_count = step_count b + 1\<rparr>)"

type_synonym ChunkPyramid = "ChunkStep list"

definition get_step_to :: "ChunkPyramid \<Rightarrow> ChunkStatus \<Rightarrow> ChunkStep" where
  "get_step_to p status = p ! get_index status"

definition GENERATION_PYRAMID :: ChunkPyramid where
  "GENERATION_PYRAMID = steps
     (builder_step Full [] (-1) ''full''
     (builder_step Spawn [(Biomes, 1)] (-1) ''generate_spawn''
     (builder_step Light [(InitializeLight, 1)] 0 ''light''
     (builder_step InitializeLight [] (-1) ''initialize_light''
     (builder_step Features [(StructureStarts, 8), (Terrain, 1)] 1 ''generate_features''
     (builder_step Terrain [(StructureStarts, 8), (Biomes, 1)] 0 ''build_terrain''
     (builder_step Biomes [(StructureStarts, 8)] (-1) ''generate_biomes''
     (builder_step StructureReferences [(StructureStarts, 8)] (-1) ''generate_structure_references''
     (builder_step StructureStarts [] (-1) ''generate_structure_starts''
     (builder_step Empty [] (-1) ''empty'' builder_new))))))))))"

definition LOADING_PYRAMID :: ChunkPyramid where
  "LOADING_PYRAMID = steps
     (builder_step Full [] (-1) ''full''
     (builder_step Spawn [] (-1) ''noop_task''
     (builder_step Light [(InitializeLight, 1)] (-1) ''load_light''
     (builder_step InitializeLight [] (-1) ''initialize_light''
     (builder_step Features [] (-1) ''noop_task''
     (builder_step Terrain [] (-1) ''noop_task''
     (builder_step Biomes [] (-1) ''noop_task''
     (builder_step StructureReferences [] (-1) ''noop_task''
     (builder_step StructureStarts [] (-1) ''load_structure_starts''
     (builder_step Empty [] (-1) ''noop_task'' builder_new))))))))))"

section \<open>Ticket levels\<close>

text \<open>A level is a \<open>u8\<close>, kept as a natural number at most 255; subtractions saturate or are
  guarded by the comparison the code makes first.\<close>

type_synonym ChunkTicketLevel = nat

definition MAX_SUPPORTED_VIEW_DISTANCE :: nat where
  "MAX_SUPPORTED_VIEW_DISTANCE = 128"

definition FULL_CHUNK_LEVEL_RAW :: nat where
  "FULL_CHUNK_LEVEL_RAW = MAX_SUPPORTED_VIEW_DISTANCE + 2"

definition RADIUS_AROUND_FULL_CHUNK :: nat where
  "RADIUS_AROUND_FULL_CHUNK =
     get_radius_of (accumulated_dependencies (get_step_to GENERATION_PYRAMID Full)) Empty mod 256"

definition MAX_LEVEL_RAW :: nat where
  "MAX_LEVEL_RAW = FULL_CHUNK_LEVEL_RAW + RADIUS_AROUND_FULL_CHUNK"

definition ENTITY_TICKING_CHUNK :: ChunkTicketLevel where
  "ENTITY_TICKING_CHUNK = MAX_SUPPORTED_VIEW_DISTANCE"

definition BLOCK_TICKING_CHUNK :: ChunkTicketLevel where
  "BLOCK_TICKING_CHUNK = MAX_SUPPORTED_VIEW_DISTANCE + 1"

definition FULL_CHUNK :: ChunkTicketLevel where
  "FULL_CHUNK = FULL_CHUNK_LEVEL_RAW"

definition level_new :: "nat \<Rightarrow> ChunkTicketLevel option" where
  "level_new raw = (if raw \<le> MAX_LEVEL_RAW then Some raw else None)"

definition for_full_chunk_radius :: "nat \<Rightarrow> ChunkTicketLevel" where
  "for_full_chunk_radius radius = FULL_CHUNK_LEVEL_RAW - radius"

definition for_entity_ticking_radius :: "nat \<Rightarrow> ChunkTicketLevel" where
  "for_entity_ticking_radius radius = ENTITY_TICKING_CHUNK - radius"

datatype FullChunkStatus = Inaccessible | FullAccess | BlockTicking | EntityTicking

fun full_chunk_status_index :: "FullChunkStatus \<Rightarrow> nat" where
  "full_chunk_status_index Inaccessible = 0"
| "full_chunk_status_index FullAccess = 1"
| "full_chunk_status_index BlockTicking = 2"
| "full_chunk_status_index EntityTicking = 3"

definition is_or_after :: "FullChunkStatus \<Rightarrow> FullChunkStatus \<Rightarrow> bool" where
  "is_or_after a b \<longleftrightarrow> full_chunk_status_index a \<ge> full_chunk_status_index b"

definition level_full_status :: "ChunkTicketLevel \<Rightarrow> FullChunkStatus" where
  "level_full_status l =
     (if l \<le> ENTITY_TICKING_CHUNK then EntityTicking
      else if l \<le> BLOCK_TICKING_CHUNK then BlockTicking
      else if l \<le> FULL_CHUNK then FullAccess
      else Inaccessible)"

definition level_is_full :: "ChunkTicketLevel \<Rightarrow> bool" where
  "level_is_full l \<longleftrightarrow> l \<le> FULL_CHUNK"

definition level_is_block_ticking :: "ChunkTicketLevel \<Rightarrow> bool" where
  "level_is_block_ticking l \<longleftrightarrow> l \<le> BLOCK_TICKING_CHUNK"

definition level_is_entity_ticking :: "ChunkTicketLevel \<Rightarrow> bool" where
  "level_is_entity_ticking l \<longleftrightarrow> l \<le> ENTITY_TICKING_CHUNK"

definition full_status :: "ChunkTicketLevel option \<Rightarrow> FullChunkStatus" where
  "full_status lo = (case lo of Some l \<Rightarrow> level_full_status l | None \<Rightarrow> Inaccessible)"

definition is_block_ticking :: "ChunkTicketLevel option \<Rightarrow> bool" where
  "is_block_ticking lo = (case lo of Some l \<Rightarrow> level_is_block_ticking l | None \<Rightarrow> False)"

definition is_entity_ticking :: "ChunkTicketLevel option \<Rightarrow> bool" where
  "is_entity_ticking lo = (case lo of Some l \<Rightarrow> level_is_entity_ticking l | None \<Rightarrow> False)"

definition generation_status :: "ChunkTicketLevel option \<Rightarrow> ChunkStatus option" where
  "generation_status lo =
     (case lo of
        None \<Rightarrow> None
      | Some l \<Rightarrow>
          if level_is_full l then Some Full
          else deps_get (accumulated_dependencies (get_step_to GENERATION_PYRAMID Full)) (l - FULL_CHUNK_LEVEL_RAW))"

definition ticket_level_for_status :: "ChunkStatus \<Rightarrow> ChunkTicketLevel" where
  "ticket_level_for_status s =
     (if s = Full then FULL_CHUNK
      else FULL_CHUNK_LEVEL_RAW +
        get_radius_of (accumulated_dependencies (get_step_to GENERATION_PYRAMID Full)) s)"

section \<open>The pyramids evaluated\<close>

definition full_deps :: ChunkDependencies where
  "full_deps = accumulated_dependencies (get_step_to GENERATION_PYRAMID Full)"

lemma full_deps_value:
  "full_deps =
     \<lparr>dependency_by_radius =
        [Some Spawn, Some InitializeLight, Some Terrain, Some Biomes] @ replicate 8 (Some StructureStarts) @
        replicate 4 None,
      dep_len = 12, radius_by_dependency = [11, 11, 3, 3, 2, 1, 1, 0, 0, 0, 0, 0]\<rparr>"
  unfolding full_deps_def by code_simp

lemma level_constants:
  "FULL_CHUNK = 130" "FULL_CHUNK_LEVEL_RAW = 130" "RADIUS_AROUND_FULL_CHUNK = 11" "MAX_LEVEL_RAW = 141"
  "ENTITY_TICKING_CHUNK = 128" "BLOCK_TICKING_CHUNK = 129"
  by (simp_all add: FULL_CHUNK_def FULL_CHUNK_LEVEL_RAW_def MAX_SUPPORTED_VIEW_DISTANCE_def
      ENTITY_TICKING_CHUNK_def BLOCK_TICKING_CHUNK_def MAX_LEVEL_RAW_def RADIUS_AROUND_FULL_CHUNK_def
      get_radius_of_def full_deps_value flip: full_deps_def)

definition deps_closed :: "ChunkPyramid \<Rightarrow> bool" where
  "deps_closed p \<longleftrightarrow>
     list_all (\<lambda>s. list_all (\<lambda>i.
       case deps_get (direct_dependencies (get_step_to p s)) i of
         None \<Rightarrow> True
       | Some t \<Rightarrow>
           (case deps_get (accumulated_dependencies (get_step_to p s)) i of None \<Rightarrow> False | Some v \<Rightarrow> t \<le> v) \<and>
           list_all (\<lambda>j.
             case deps_get (accumulated_dependencies (get_step_to p t)) j of
               None \<Rightarrow> True
             | Some u \<Rightarrow>
                 (case deps_get (accumulated_dependencies (get_step_to p s)) (i + j) of
                    None \<Rightarrow> False | Some v \<Rightarrow> u \<le> v))
             [0..<dep_len (accumulated_dependencies (get_step_to p t))])
       [0..<dep_len (direct_dependencies (get_step_to p s))]) all_statuses"

lemma pyramids_closed: "deps_closed GENERATION_PYRAMID" "deps_closed LOADING_PYRAMID"
  by code_simp+


lemma deps_get_len: "deps_get d i = Some t \<Longrightarrow> i < dep_len d"
  by (simp add: deps_get_def split: if_splits)

lemma deps_closedD:
  assumes "deps_closed p" "deps_get (direct_dependencies (get_step_to p s)) i = Some t"
  shows "\<exists>v. deps_get (accumulated_dependencies (get_step_to p s)) i = Some v \<and> t \<le> v"
    and "deps_get (accumulated_dependencies (get_step_to p t)) j = Some u \<Longrightarrow>
      \<exists>v. deps_get (accumulated_dependencies (get_step_to p s)) (i + j) = Some v \<and> u \<le> v"
proof -
  note i = deps_get_len [OF assms(2)]
  from assms(1) all_statuses_UNIV [of s] i assms(2) have
    *: "case deps_get (accumulated_dependencies (get_step_to p s)) i of None \<Rightarrow> False | Some v \<Rightarrow> t \<le> v" and
    **: "\<And>j. j < dep_len (accumulated_dependencies (get_step_to p t)) \<Longrightarrow>
      (case deps_get (accumulated_dependencies (get_step_to p t)) j of
         None \<Rightarrow> True
       | Some u \<Rightarrow>
           (case deps_get (accumulated_dependencies (get_step_to p s)) (i + j) of None \<Rightarrow> False | Some v \<Rightarrow> u \<le> v))"
    unfolding deps_closed_def list_all_iff by (fastforce split: option.splits)+
  from * show "\<exists>v. deps_get (accumulated_dependencies (get_step_to p s)) i = Some v \<and> t \<le> v"
    by (simp split: option.splits)
  show "\<exists>v. deps_get (accumulated_dependencies (get_step_to p s)) (i + j) = Some v \<and> u \<le> v"
    if "deps_get (accumulated_dependencies (get_step_to p t)) j = Some u"
    using ** [OF deps_get_len [OF that]] that by (simp split: option.splits)
qed

text \<open>Levels permit less as they grow.\<close>

lemma generation_status_value:
  "generation_status (Some l) =
     (if l \<le> 130 then Some Full else if l = 131 then Some InitializeLight else if l = 132 then Some Terrain
      else if l = 133 then Some Biomes else if l \<le> 141 then Some StructureStarts else None)"
proof -
  have "l \<le> 130 \<or> l = 131 \<or> l = 132 \<or> l = 133 \<or> (\<exists>k < 8. l = 134 + k) \<or> 142 \<le> l" by presburger
  then show ?thesis
    by (auto simp: generation_status_def level_is_full_def level_constants deps_get_def full_deps_value
        nth_append nth_Cons' simp flip: full_deps_def)
qed

fun status_at_level :: "ChunkTicketLevel option \<Rightarrow> ChunkStatus option" where
  "status_at_level None = None"
| "status_at_level (Some l) =
     (if l \<le> 130 then Some Full else if l = 131 then Some InitializeLight else if l = 132 then Some Terrain
      else if l = 133 then Some Biomes else if l \<le> 141 then Some StructureStarts else None)"

lemma generation_status_table: "generation_status = status_at_level"
proof (rule ext)
  fix lo show "generation_status lo = status_at_level lo"
    by (cases lo) (simp_all add: generation_status_value, simp add: generation_status_def)
qed

lemma ticket_level_for_status_table:
  "ticket_level_for_status s = 130 + [11, 11, 3, 3, 2, 1, 1, 0, 0, 0] ! get_index s"
  by (cases s) (simp_all add: ticket_level_for_status_def level_constants get_radius_of_def full_deps_value
      flip: full_deps_def)

definition levels_cover :: bool where
  "levels_cover \<longleftrightarrow>
     list_all (\<lambda>s. (case generation_status (Some (ticket_level_for_status s)) of None \<Rightarrow> False | Some v \<Rightarrow> s \<le> v) \<and>
       list_all (\<lambda>d. case deps_get (accumulated_dependencies (get_step_to GENERATION_PYRAMID s)) d of
           None \<Rightarrow> True
         | Some u \<Rightarrow>
             (case generation_status (level_new (ticket_level_for_status s + d)) of None \<Rightarrow> False | Some v \<Rightarrow> u \<le> v))
         [0..<dep_len (accumulated_dependencies (get_step_to GENERATION_PYRAMID s))]) all_statuses"

lemma levels_cover: levels_cover
  unfolding levels_cover_def generation_status_table ticket_level_for_status_table level_new_def level_constants
  by code_simp

lemma levels_coverD:
  "\<exists>v. generation_status (Some (ticket_level_for_status s)) = Some v \<and> s \<le> v"
  "deps_get (accumulated_dependencies (get_step_to GENERATION_PYRAMID s)) d = Some u \<Longrightarrow>
   \<exists>v. generation_status (level_new (ticket_level_for_status s + d)) = Some v \<and> u \<le> v"
proof -
  from levels_cover all_statuses_UNIV [of s]
  have *: "case generation_status (Some (ticket_level_for_status s)) of None \<Rightarrow> False | Some v \<Rightarrow> s \<le> v" and
    **: "\<And>d. d < dep_len (accumulated_dependencies (get_step_to GENERATION_PYRAMID s)) \<Longrightarrow>
      (case deps_get (accumulated_dependencies (get_step_to GENERATION_PYRAMID s)) d of
         None \<Rightarrow> True
       | Some u \<Rightarrow>
           (case generation_status (level_new (ticket_level_for_status s + d)) of None \<Rightarrow> False | Some v \<Rightarrow> u \<le> v))"
    unfolding levels_cover_def list_all_iff by (fastforce split: option.splits)+
  from * show "\<exists>v. generation_status (Some (ticket_level_for_status s)) = Some v \<and> s \<le> v"
    by (simp split: option.splits)
  show "\<exists>v. generation_status (level_new (ticket_level_for_status s + d)) = Some v \<and> u \<le> v"
    if "deps_get (accumulated_dependencies (get_step_to GENERATION_PYRAMID s)) d = Some u"
    using ** [OF deps_get_len [OF that]] that by (simp split: option.splits)
qed

lemma generation_status_antimono:
  "l \<le> l' \<Longrightarrow> generation_status (Some l') = Some v' \<Longrightarrow> \<exists>v. generation_status (Some l) = Some v \<and> v' \<le> v"
  by (auto simp: generation_status_value less_eq_ChunkStatus_def split: if_splits)

section \<open>Properties\<close>

text \<open>The dependency pyramids are closed: whenever a step needs a chunk at distance \<open>i\<close> to
  have reached a status, and that status in turn needs chunks at distance \<open>j\<close> around it, the
  step's accumulated dependencies demand at least as much at distance \<open>i + j\<close>. So a generation
  task that holds its accumulated neighbourhood can run every step it depends on.\<close>

lemma pyramid_dependencies_closed:
  assumes "p \<in> {GENERATION_PYRAMID, LOADING_PYRAMID}"
    and "deps_get (direct_dependencies (get_step_to p s)) i = Some t"
  shows "(\<exists>v. deps_get (accumulated_dependencies (get_step_to p s)) i = Some v \<and> t \<le> v) \<and>
    (\<forall>j u. deps_get (accumulated_dependencies (get_step_to p t)) j = Some u \<longrightarrow>
      (\<exists>v. deps_get (accumulated_dependencies (get_step_to p s)) (i + j) = Some v \<and> u \<le> v))"
proof -
  have "deps_closed p" using assms(1) pyramids_closed by blast
  from deps_closedD [OF this assms(2)] show ?thesis by blast
qed

text \<open>A request ticket for a status is strong enough: its level permits at least that
  status at its own chunk, and at every distance the step depends on, the level propagated that
  far permits at least the status demanded there; in particular it does not fall off the end of
  the supported levels.\<close>

lemma ticket_level_covers_dependencies:
  "(\<exists>v. generation_status (Some (ticket_level_for_status s)) = Some v \<and> s \<le> v) \<and>
   (\<forall>d u. deps_get (accumulated_dependencies (get_step_to GENERATION_PYRAMID s)) d = Some u \<longrightarrow>
     (\<exists>v. generation_status (level_new (ticket_level_for_status s + d)) = Some v \<and> u \<le> v))"
  using levels_coverD by blast

text \<open>Ticket levels are ordered from strong to weak: a level no greater than another
  permits at least its full-chunk status and at least its generation status.\<close>

lemma levels_antimono:
  assumes "l \<le> l'"
  shows "is_or_after (full_status (Some l)) (full_status (Some l')) \<and>
    (is_block_ticking (Some l') \<longrightarrow> is_block_ticking (Some l)) \<and>
    (is_entity_ticking (Some l') \<longrightarrow> is_entity_ticking (Some l)) \<and>
    (\<forall>v'. generation_status (Some l') = Some v' \<longrightarrow> (\<exists>v. generation_status (Some l) = Some v \<and> v' \<le> v))"
  using assms generation_status_antimono [OF assms]
  by (simp add: is_or_after_def full_status_def level_full_status_def is_block_ticking_def is_entity_ticking_def
      level_is_block_ticking_def level_is_entity_ticking_def level_constants)

text \<open>The full step accumulates dependencies over twelve radii, so the safety margin of
  valid chunk coordinates, whose factor is twelve, is computed from the pyramid's real size.\<close>

lemma full_step_dependency_size:
  "dep_len (accumulated_dependencies (get_step_to GENERATION_PYRAMID Full)) = 12 \<and>
   get_radius (accumulated_dependencies (get_step_to GENERATION_PYRAMID Full)) = RADIUS_AROUND_FULL_CHUNK \<and>
   MAX_LEVEL_RAW = 141"
  by (simp add: level_constants get_radius_def full_deps_value flip: full_deps_def)

end
