(* ===== verification/Chunk_Sender.thy ===== *)
theory Chunk_Sender
  imports Chunk_Level Positions
begin

text \<open>
  Chunk delivery to one client (\<^verbatim>\<open>steel-core/src/player/chunk_sender.rs\<close>, and the readiness snapshots of
  \<^verbatim>\<open>chunk/chunk_holder.rs\<close> it relies on): the pacing of batches and the prepare, encode and commit
  phases. Single precision arithmetic is a parameter \<open>F\<close>, so nothing here depends on rounding.
  Chunk holders are referred to by address; what a thread reads of one at a moment is a
  \<open>HolderState\<close>. The hash set of pending chunks is the list of its elements in iteration order.
\<close>

section \<open>Ticking readiness\<close>

datatype TickingReadiness = Unready | ReadyBlockTicking | ReadyEntityTicking

type_synonym TickingReadinessSnapshot = u64

unbundle bit_operations_syntax

text \<open>\<open>None\<close> is the unreachable match arm.\<close>

definition readiness :: "TickingReadinessSnapshot \<Rightarrow> TickingReadiness option" where
  "readiness s =
     (let k = s AND 3 in
      if k = 0 then Some Unready else if k = 1 then Some ReadyBlockTicking
      else if k = 2 then Some ReadyEntityTicking else None)"

definition readiness_is_block_ticking :: "TickingReadinessSnapshot \<Rightarrow> bool" where
  "readiness_is_block_ticking s \<longleftrightarrow> readiness s \<in> {Some ReadyBlockTicking, Some ReadyEntityTicking}"

definition readiness_is_entity_ticking :: "TickingReadinessSnapshot \<Rightarrow> bool" where
  "readiness_is_entity_ticking s \<longleftrightarrow> readiness s = Some ReadyEntityTicking"

fun readiness_code :: "TickingReadiness \<Rightarrow> u64" where
  "readiness_code Unready = 0"
| "readiness_code ReadyBlockTicking = 1"
| "readiness_code ReadyEntityTicking = 2"

text \<open>The compare-and-exchange loop succeeds on some value that it read: one atomic step. The
  result is the previous readiness, or \<open>None\<close> inside when there is nothing to do.\<close>

definition transition_ticking_readiness :: "TickingReadiness \<Rightarrow> TickingReadinessSnapshot \<Rightarrow>
    (TickingReadiness option \<times> TickingReadinessSnapshot) option" where
  "transition_ticking_readiness target current =
     (case readiness current of
        None \<Rightarrow> None
      | Some previous \<Rightarrow>
          if previous = target then Some (None, current)
          else
            (let generation = drop_bit 2 current in
             if generation = drop_bit 2 (- 1) then None
             else Some (Some previous, push_bit 2 (generation + 1) OR readiness_code target)))"

section \<open>Pacing\<close>

record 'f f32_arith =
  f_max :: "'f \<Rightarrow> 'f \<Rightarrow> 'f"
  f_min :: "'f \<Rightarrow> 'f \<Rightarrow> 'f"
  f_add :: "'f \<Rightarrow> 'f \<Rightarrow> 'f"
  f_sub :: "'f \<Rightarrow> 'f \<Rightarrow> 'f"
  f_is_nan :: "'f \<Rightarrow> bool"
  f_clamp :: "'f \<Rightarrow> 'f \<Rightarrow> 'f \<Rightarrow> 'f"
  f_floor_usize :: "'f \<Rightarrow> nat"
  f_of_usize :: "nat \<Rightarrow> 'f"
  f_zero :: 'f
  f_one :: 'f
  MIN_CHUNKS_PER_TICK :: 'f
  MAX_CHUNKS_PER_TICK :: 'f
  START_CHUNKS_PER_TICK :: 'f

definition MAX_UNACKNOWLEDGED_BATCHES :: nat where
  "MAX_UNACKNOWLEDGED_BATCHES = 10"

record 'f ChunkBatchPacing =
  unacknowledged_batches :: nat
  desired_chunks_per_tick :: 'f
  batch_quota :: 'f
  max_unacknowledged_batches :: nat
  accepted_feedback :: "'f list"

definition pacing_default :: "'f f32_arith \<Rightarrow> 'f ChunkBatchPacing" where
  "pacing_default F =
     \<lparr>unacknowledged_batches = 0, desired_chunks_per_tick = START_CHUNKS_PER_TICK F, batch_quota = f_zero F,
      max_unacknowledged_batches = 1, accepted_feedback = []\<rparr>"

text \<open>One turn of the loop of \<open>drain_feedback\<close>.\<close>

definition apply_feedback :: "'f f32_arith \<Rightarrow> 'f \<Rightarrow> 'f ChunkBatchPacing \<Rightarrow> 'f ChunkBatchPacing" where
  "apply_feedback F d p =
     (let p1 = p\<lparr>unacknowledged_batches := unacknowledged_batches p - 1,
                 desired_chunks_per_tick :=
                   (if f_is_nan F d then MIN_CHUNKS_PER_TICK F
                    else f_clamp F d (MIN_CHUNKS_PER_TICK F) (MAX_CHUNKS_PER_TICK F))\<rparr>;
          p2 = (if unacknowledged_batches p1 = 0 then p1\<lparr>batch_quota := f_one F\<rparr> else p1)
      in p2\<lparr>max_unacknowledged_batches := MAX_UNACKNOWLEDGED_BATCHES\<rparr>)"

definition drain_feedback :: "'f f32_arith \<Rightarrow> 'f ChunkBatchPacing \<Rightarrow> 'f ChunkBatchPacing" where
  "drain_feedback F p = fold (apply_feedback F) (accepted_feedback p) (p\<lparr>accepted_feedback := []\<rparr>)"

definition begin_prepare :: "'f f32_arith \<Rightarrow> 'f ChunkBatchPacing \<Rightarrow> nat option \<times> 'f ChunkBatchPacing" where
  "begin_prepare F p =
     (let p = drain_feedback F p in
      if unacknowledged_batches p \<ge> max_unacknowledged_batches p then (None, p)
      else
        (let max_batch_size = f_max F (desired_chunks_per_tick p) (f_one F);
             p = p\<lparr>batch_quota := f_min F (f_add F (batch_quota p) (desired_chunks_per_tick p)) max_batch_size\<rparr>
         in (Some (f_floor_usize F (batch_quota p)), p)))"

definition pacing_commit_batch :: "'f f32_arith \<Rightarrow> nat \<Rightarrow> 'f ChunkBatchPacing \<Rightarrow> 'f ChunkBatchPacing" where
  "pacing_commit_batch F batch_size p =
     p\<lparr>unacknowledged_batches := unacknowledged_batches p + 1,
       batch_quota := f_sub F (batch_quota p) (f_of_usize F batch_size)\<rparr>"

definition record_feedback :: "'f \<Rightarrow> 'f ChunkBatchPacing \<Rightarrow> bool \<times> 'f ChunkBatchPacing" where
  "record_feedback d p =
     (if length (accepted_feedback p) \<ge> unacknowledged_batches p \<or> length (accepted_feedback p) \<ge> MAX_UNACKNOWLEDGED_BATCHES
      then (False, p)
      else (True, p\<lparr>accepted_feedback := accepted_feedback p @ [d]\<rparr>))"

section \<open>Prepared and encoded chunks\<close>

type_synonym HolderRef = nat

record HolderState =
  published_status :: "ChunkStatus option"
  ticking_readiness :: TickingReadinessSnapshot
  packet_content_revision :: u64
  has_full_chunk :: bool

record PreparedChunk =
  prepared_pos :: ChunkPos
  prepared_holder :: HolderRef
  prepared_readiness :: TickingReadinessSnapshot

record PreparedBatch =
  batch_chunks :: "PreparedChunk list"
  has_skylight :: bool
  epoch_snapshot :: u32

record 'p EncodedChunk =
  encoded_pos :: ChunkPos
  encoded_packet :: 'p
  content_revision :: u64
  encoded_holder :: HolderRef
  encoded_readiness :: TickingReadinessSnapshot

text \<open>\<open>now\<close> is the state of the holders that are still allocated; upgrading a weak reference
  to another one fails. A prepared chunk keeps its holder allocated.\<close>

definition is_current_for :: "(HolderRef \<rightharpoonup> HolderState) \<Rightarrow> 'p EncodedChunk \<Rightarrow> PreparedChunk \<Rightarrow> bool" where
  "is_current_for now e p =
     (case now (encoded_holder e) of
        None \<Rightarrow> False
      | Some h \<Rightarrow>
          encoded_pos e = prepared_pos p \<and> encoded_holder e = prepared_holder p \<and>
          encoded_readiness e = prepared_readiness p \<and> readiness_is_block_ticking (prepared_readiness p) \<and>
          ticking_readiness h = prepared_readiness p \<and> packet_content_revision h = content_revision e)"

section \<open>The sender\<close>

datatype 'p ClientPacket =
  SetChunkCenter i32 i32 | ForgetLevelChunk ChunkPos | ChunkBatchStart | LevelChunk "'p EncodedChunk" | ChunkBatchFinished nat

record 'f ChunkSender =
  pending_chunks :: "ChunkPos list"
  sent_chunks :: "ChunkPos set"
  pacing :: "'f ChunkBatchPacing"

definition sender_default :: "'f f32_arith \<Rightarrow> 'f ChunkSender" where
  "sender_default F = \<lparr>pending_chunks = [], sent_chunks = {}, pacing = pacing_default F\<rparr>"

definition clear_world_chunks :: "'f ChunkSender \<Rightarrow> 'f ChunkSender" where
  "clear_world_chunks s = s\<lparr>pending_chunks := [], sent_chunks := {}\<rparr>"

definition mark_chunk_pending_to_send :: "ChunkPos \<Rightarrow> 'f ChunkSender \<Rightarrow> 'f ChunkSender" where
  "mark_chunk_pending_to_send pos s =
     s\<lparr>sent_chunks := sent_chunks s - {pos}, pending_chunks := List.insert pos (pending_chunks s)\<rparr>"

definition drop_chunk :: "bool \<Rightarrow> ChunkPos \<Rightarrow> 'f ChunkSender \<Rightarrow> 'p ClientPacket list \<times> 'f ChunkSender" where
  "drop_chunk closed pos s =
     ((if pos \<in> sent_chunks s \<and> \<not> closed then [ForgetLevelChunk pos] else []),
      s\<lparr>pending_chunks := removeAll pos (pending_chunks s), sent_chunks := sent_chunks s - {pos}\<rparr>)"

definition abs_diff :: "i32 \<Rightarrow> i32 \<Rightarrow> u32" where
  "abs_diff a b = (if sint a < sint b then b - a else a - b)"

definition u64_MAX :: nat where
  "u64_MAX = 2 ^ 64 - 1"

definition chunk_distance_squared :: "ChunkPos \<Rightarrow> ChunkPos \<Rightarrow> nat" where
  "chunk_distance_squared pos player =
     (let dx = unat (abs_diff (chunk_x pos) (chunk_x player)); dz = unat (abs_diff (chunk_z pos) (chunk_z player)) in
      min (min (dx * dx) u64_MAX + min (dz * dz) u64_MAX) u64_MAX)"

fun take_candidates :: "(ChunkPos \<rightharpoonup> HolderRef) \<Rightarrow> (HolderRef \<Rightarrow> HolderState) \<Rightarrow> nat \<Rightarrow> ChunkPos list \<Rightarrow> PreparedChunk list" where
  "take_candidates chunks state n [] = []"
| "take_candidates chunks state n (pos # ps) =
     (if n = 0 then []
      else
        (case chunks pos of
           None \<Rightarrow> take_candidates chunks state n ps
         | Some h \<Rightarrow>
             (if published_status (state h) = Some Full \<and> readiness_is_block_ticking (ticking_readiness (state h))
              then \<lparr>prepared_pos = pos, prepared_holder = h, prepared_readiness = ticking_readiness (state h)\<rparr>
                # take_candidates chunks state (n - 1) ps
              else take_candidates chunks state n ps)))"

definition collect_candidates :: "(ChunkPos \<rightharpoonup> HolderRef) \<Rightarrow> (HolderRef \<Rightarrow> HolderState) \<Rightarrow> ChunkPos \<Rightarrow> nat \<Rightarrow> 'f ChunkSender \<Rightarrow> PreparedChunk list" where
  "collect_candidates chunks state player n s =
     take_candidates chunks state n (sort_key (\<lambda>pos. chunk_distance_squared pos player) (pending_chunks s))"

definition prepare_batch :: "'f f32_arith \<Rightarrow> (ChunkPos \<rightharpoonup> HolderRef) \<Rightarrow> (HolderRef \<Rightarrow> HolderState) \<Rightarrow> bool \<Rightarrow> ChunkPos \<Rightarrow> u32 \<Rightarrow> 'f ChunkSender \<Rightarrow>
    PreparedBatch option \<times> 'f ChunkSender" where
  "prepare_batch F chunks state skylight player epoch s =
     (case begin_prepare F (pacing s) of
        (None, p) \<Rightarrow> (None, s\<lparr>pacing := p\<rparr>)
      | (Some n, p) \<Rightarrow>
          (let s = s\<lparr>pacing := p\<rparr> in
           if n = 0 \<or> pending_chunks s = [] then (None, s)
           else
             (let holders = collect_candidates chunks state player n s in
              if holders = [] then (None, s)
              else (Some \<lparr>batch_chunks = holders, has_skylight = skylight, epoch_snapshot = epoch\<rparr>, s))))"

text \<open>One closure call of \<open>encode_batch\<close>. \<open>h0\<close> is what it reads of the holders before it builds the
  packet and \<open>h1\<close> what it reads afterwards; the check of a cached chunk reads \<open>now\<close>.\<close>

definition encode_fresh :: "(HolderRef \<Rightarrow> HolderState) \<Rightarrow> (HolderRef \<Rightarrow> HolderState) \<Rightarrow> (ChunkPos \<Rightarrow> 'p) \<Rightarrow> PreparedChunk \<Rightarrow>
    'p EncodedChunk option" where
  "encode_fresh h0 h1 packet p =
     (let h = prepared_holder p; pos = prepared_pos p in
      if \<not> readiness_is_block_ticking (prepared_readiness p) \<or> ticking_readiness (h0 h) \<noteq> prepared_readiness p then None
      else if \<not> has_full_chunk (h0 h) then None
      else if packet_content_revision (h0 h) \<noteq> packet_content_revision (h1 h) \<or>
          ticking_readiness (h1 h) \<noteq> prepared_readiness p then None
      else Some \<lparr>encoded_pos = pos, encoded_packet = packet pos, content_revision = packet_content_revision (h1 h),
                 encoded_holder = h, encoded_readiness = prepared_readiness p\<rparr>)"

definition encode_chunk :: "(ChunkPos \<rightharpoonup> 'p EncodedChunk) \<Rightarrow> (HolderRef \<rightharpoonup> HolderState) \<Rightarrow> (HolderRef \<Rightarrow> HolderState) \<Rightarrow>
    (HolderRef \<Rightarrow> HolderState) \<Rightarrow> (ChunkPos \<Rightarrow> 'p) \<Rightarrow> PreparedChunk \<Rightarrow> 'p EncodedChunk option" where
  "encode_chunk cache now h0 h1 packet p =
     (case cache (prepared_pos p) of
        Some c \<Rightarrow> if is_current_for now c p then Some c else encode_fresh h0 h1 packet p
      | None \<Rightarrow> encode_fresh h0 h1 packet p)"

definition encode_batch :: "(HolderRef \<rightharpoonup> HolderState) \<Rightarrow> (HolderRef \<Rightarrow> HolderState) \<Rightarrow> (HolderRef \<Rightarrow> HolderState) \<Rightarrow> (ChunkPos \<Rightarrow> 'p) \<Rightarrow>
    PreparedBatch \<Rightarrow> (ChunkPos \<rightharpoonup> 'p EncodedChunk) \<Rightarrow> 'p EncodedChunk list \<times> (ChunkPos \<rightharpoonup> 'p EncodedChunk)" where
  "encode_batch now h0 h1 packet b cache =
     (let es = List.map_filter (encode_chunk cache now h0 h1 packet) (batch_chunks b) in
      (es, fold (\<lambda>e m. m(encoded_pos e \<mapsto> e)) es cache))"

text \<open>\<open>Iterator::find\<close> on a cursor: the first match and the rest behind it.\<close>

fun cursor_find :: "('a \<Rightarrow> bool) \<Rightarrow> 'a list \<Rightarrow> 'a option \<times> 'a list" where
  "cursor_find P [] = (None, [])"
| "cursor_find P (x # xs) = (if P x then (Some x, xs) else cursor_find P xs)"

fun resolve_valid_chunks :: "(HolderRef \<rightharpoonup> HolderState) \<Rightarrow> ChunkPos set \<Rightarrow> PreparedChunk list \<Rightarrow> 'p EncodedChunk list \<Rightarrow> 'p EncodedChunk list" where
  "resolve_valid_chunks now pending cursor [] = []"
| "resolve_valid_chunks now pending cursor (e # es) =
     (if encoded_pos e \<notin> pending then resolve_valid_chunks now pending cursor es
      else
        (case cursor_find (\<lambda>p. prepared_pos p = encoded_pos e) cursor of
           (None, cursor') \<Rightarrow> resolve_valid_chunks now pending cursor' es
         | (Some p, cursor') \<Rightarrow>
             (if is_current_for now e p then e # resolve_valid_chunks now pending cursor' es
              else resolve_valid_chunks now pending cursor' es)))"

text \<open>The result is the positions sent, with the packets in order.\<close>

definition commit_batch :: "'f f32_arith \<Rightarrow> (HolderRef \<rightharpoonup> HolderState) \<Rightarrow> u32 \<Rightarrow> PreparedBatch \<Rightarrow> 'p EncodedChunk list \<Rightarrow> 'f ChunkSender \<Rightarrow>
    ChunkPos list \<times> 'p ClientPacket list \<times> 'f ChunkSender" where
  "commit_batch F now epoch b es s =
     (if epoch \<noteq> epoch_snapshot b then ([], [], s)
      else
        (let valid = resolve_valid_chunks now (set (pending_chunks s)) (batch_chunks b) es in
         if valid = [] then ([], [], s)
         else
           (map encoded_pos valid,
            [ChunkBatchStart] @ map LevelChunk valid @ [ChunkBatchFinished (length valid)],
            s\<lparr>pacing := pacing_commit_batch F (length valid) (pacing s),
              pending_chunks := filter (\<lambda>p. p \<notin> encoded_pos ` set valid) (pending_chunks s),
              sent_chunks := sent_chunks s \<union> encoded_pos ` set valid\<rparr>)))"

definition on_chunk_batch_received_by_client :: "'f \<Rightarrow> 'f ChunkSender \<Rightarrow> bool \<times> 'f ChunkSender" where
  "on_chunk_batch_received_by_client d s = (case record_feedback d (pacing s) of (ok, p) \<Rightarrow> (ok, s\<lparr>pacing := p\<rparr>))"

definition is_chunk_sent :: "ChunkPos \<Rightarrow> 'f ChunkSender \<Rightarrow> bool" where
  "is_chunk_sent pos s \<longleftrightarrow> pos \<in> sent_chunks s"

end
