(* ===== verification/Chunk_Delivery.thy ===== *)
theory Chunk_Delivery
  imports Chunk_Sender "HOL-Library.Sublist"
begin

text \<open>
  Correctness of chunk delivery: readiness snapshots never repeat, the one-pass resolution of a
  batch equals its declarative reading, and the sender's books agree with what the client holds
  at every moment of a session, with at most ten batches outstanding.
\<close>

section \<open>Readiness snapshots\<close>

definition snapshot_ok :: "TickingReadinessSnapshot \<Rightarrow> bool" where
  "snapshot_ok s \<longleftrightarrow> readiness s \<noteq> None"

lemma readiness_mask: "s AND 3 = (take_bit 2 s :: u64)"
  by (simp add: take_bit_eq_mask mask_numeral)

lemma readiness_code_small: "take_bit 2 (readiness_code t) = readiness_code t" "drop_bit 2 (readiness_code t) = 0"
  by (cases t; simp)+

lemma transition_snapshot:
  assumes "transition_ticking_readiness t s = Some (Some prev, s')"
  shows "unat (drop_bit 2 s') = unat (drop_bit 2 s) + 1" "readiness s' = Some t" "readiness s = Some prev"
proof -
  from assms have r: "readiness s = Some prev" and g: "drop_bit 2 s \<noteq> drop_bit 2 (- 1)"
    and s': "s' = push_bit 2 (drop_bit 2 s + 1) OR readiness_code t"
    by (auto simp: transition_ticking_readiness_def Let_def split: option.splits if_splits)
  have bound: "unat (drop_bit 2 s) < 2 ^ 62 - 1"
  proof -
    have "unat s < 2 ^ 64" using unsigned_less [where 'a = nat and w = s] by simp
    moreover have "unat (drop_bit 2 s) = unat s div 4" by (simp add: drop_bit_eq_div unat_div)
    ultimately have "unat (drop_bit 2 s) \<le> 2 ^ 62 - 1" by simp
    moreover have "unat (drop_bit 2 s) \<noteq> unat (drop_bit 2 (- 1 :: u64))" using g by (metis unsigned_word_eqI)
    moreover have "unat (drop_bit 2 (- 1 :: u64)) = 2 ^ 62 - 1" by (simp add: mask_numeral)
    ultimately show ?thesis by simp
  qed
  have u: "unat (drop_bit 2 s + 1) = unat (drop_bit 2 s) + 1"
    using bound by (simp only: unat_word_ariths(1)) simp
  have "drop_bit 2 s' = drop_bit 2 (push_bit 2 (drop_bit 2 s + 1))" unfolding s' by (simp add: drop_bit_or readiness_code_small)
  also have "\<dots> = take_bit 62 (drop_bit 2 s + 1)" by (rule bit_word_eqI) (auto simp: bit_simps)
  also have "\<dots> = drop_bit 2 s + 1"
    using bound by (simp add: word_unat_eq_iff u take_bit_eq_mod unat_mod)
  finally show "unat (drop_bit 2 s') = unat (drop_bit 2 s) + 1" using u by simp
  show "readiness s = Some prev" by (rule r)
  have "take_bit 2 s' = readiness_code t" unfolding s' by (simp add: take_bit_or take_bit_push_bit readiness_code_small)
  then show "readiness s' = Some t" by (cases t) (simp_all add: readiness_def readiness_mask)
qed

section \<open>Resolution of a batch\<close>

lemma cursor_find_Some:
  "cursor_find P xs = (Some x, rest) \<Longrightarrow> \<exists>ys. xs = ys @ x # rest \<and> P x \<and> (\<forall>y \<in> set ys. \<not> P y)"
proof (induction xs)
  case (Cons a xs)
  show ?case
  proof (cases "P a")
    case False
    with Cons obtain ys where "xs = ys @ x # rest \<and> P x \<and> (\<forall>y \<in> set ys. \<not> P y)" by auto
    with False show ?thesis by (intro exI [of _ "a # ys"]) simp
  qed (use Cons.prems in auto)
qed simp

lemma cursor_find_None: "fst (cursor_find P xs) = None \<longleftrightarrow> (\<forall>x \<in> set xs. \<not> P x)"
  by (induction xs) auto

lemma subseq_subset: "subseq xs ys \<Longrightarrow> set xs \<subseteq> set ys"
  by (induction rule: list_emb.induct) auto

lemma subseq_split:
  assumes "subseq (k # ks) (map f xs)" "distinct (map f xs)" "xs = ys @ x # rest" "f x = k"
  shows "subseq ks (map f rest)"
proof -
  have k: "k \<notin> set (map f ys)" using assms(2-4) by auto
  have "subseq (k # ks) (map f ys @ k # map f rest)" using assms(1,3,4) by simp
  then have "subseq (k # ks) (k # map f rest)" using k by (induction ys) (auto elim: list_emb.cases)
  then show ?thesis by simp
qed

lemma is_current_pos: "is_current_for now e p \<Longrightarrow> encoded_pos e = prepared_pos p"
  by (simp add: is_current_for_def split: option.splits)

lemma current_behind:
  assumes "distinct (map prepared_pos (ys @ p # cur))" "encoded_pos x \<in> set (map prepared_pos cur)"
  shows "(\<exists>q \<in> set (ys @ p # cur). is_current_for now x q) \<longleftrightarrow> (\<exists>q \<in> set cur. is_current_for now x q)"
proof
  assume "\<exists>q \<in> set (ys @ p # cur). is_current_for now x q"
  then obtain q where q: "q \<in> set (ys @ p # cur)" "is_current_for now x q" by blast
  have "prepared_pos q \<in> set (map prepared_pos cur)" using assms(2) is_current_pos [OF q(2)] by simp
  then have "q \<in> set cur" using q(1) assms(1) by auto
  with q(2) show "\<exists>q \<in> set cur. is_current_for now x q" by blast
qed auto

lemma current_at:
  assumes "distinct (map prepared_pos ps)" "p \<in> set ps" "prepared_pos p = encoded_pos e"
  shows "(\<exists>q \<in> set ps. is_current_for now e q) \<longleftrightarrow> is_current_for now e p"
proof
  assume "\<exists>q \<in> set ps. is_current_for now e q"
  then obtain q where q: "q \<in> set ps" "is_current_for now e q" by blast
  then have "q = p" using assms is_current_pos [OF q(2)] by (auto simp: distinct_map inj_on_def)
  with q(2) show "is_current_for now e p" by simp
qed (use assms(2) in blast)

lemma resolve_filter:
  assumes "distinct (map prepared_pos ps)" "subseq (map encoded_pos es) (map prepared_pos ps)"
  shows "resolve_valid_chunks now pending ps es = filter (\<lambda>e. encoded_pos e \<in> pending \<and> (\<exists>p \<in> set ps. is_current_for now e p)) es"
  using assms
proof (induction es arbitrary: ps)
  case (Cons e es)
  have rest: "subseq (map encoded_pos es) (map prepared_pos ps)" using Cons.prems(2) by (simp add: subseq_Cons')
  show ?case
  proof (cases "encoded_pos e \<in> pending")
    case False
    then show ?thesis using Cons.IH [OF Cons.prems(1) rest] by simp
  next
    case True
    have "encoded_pos e \<in> set (map prepared_pos ps)" using subseq_subset [OF Cons.prems(2)] by simp
    then obtain p cur where f: "cursor_find (\<lambda>p. prepared_pos p = encoded_pos e) ps = (Some p, cur)"
      using cursor_find_None [of "\<lambda>p. prepared_pos p = encoded_pos e" ps]
      by (cases "cursor_find (\<lambda>p. prepared_pos p = encoded_pos e) ps") auto
    from cursor_find_Some [OF f] obtain ys where ps: "ps = ys @ p # cur" "prepared_pos p = encoded_pos e" by blast
    have sub: "subseq (map encoded_pos es) (map prepared_pos cur)"
      by (rule subseq_split [OF _ Cons.prems(1) ps]) (use Cons.prems(2) in simp)
    then have "(\<exists>q \<in> set ps. is_current_for now x q) \<longleftrightarrow> (\<exists>q \<in> set cur. is_current_for now x q)" if "x \<in> set es" for x
      unfolding ps(1) by (intro current_behind) (use subseq_subset [OF sub] that Cons.prems(1) ps(1) in auto)
    then have "filter (\<lambda>e. encoded_pos e \<in> pending \<and> (\<exists>p \<in> set ps. is_current_for now e p)) es =
        filter (\<lambda>e. encoded_pos e \<in> pending \<and> (\<exists>p \<in> set cur. is_current_for now e p)) es" by (intro filter_cong) auto
    moreover have "resolve_valid_chunks now pending cur es =
        filter (\<lambda>e. encoded_pos e \<in> pending \<and> (\<exists>p \<in> set cur. is_current_for now e p)) es"
      by (rule Cons.IH [OF _ sub]) (use Cons.prems(1) ps(1) in simp)
    moreover have "(\<exists>q \<in> set ps. is_current_for now e q) \<longleftrightarrow> is_current_for now e p"
      by (rule current_at [OF Cons.prems(1) _ ps(2)]) (simp add: ps(1))
    ultimately show ?thesis using True f by simp
  qed
qed simp

lemma resolve_pending: "x \<in> set (resolve_valid_chunks now pending ps es) \<Longrightarrow> encoded_pos x \<in> pending"
proof (induction es arbitrary: ps)
  case (Cons e es)
  obtain r cur where f: "cursor_find (\<lambda>p. prepared_pos p = encoded_pos e) ps = (r, cur)" by fastforce
  then show ?case using Cons by (cases r) (auto split: if_splits)
qed simp

lemma encode_chunk_pos: "encode_chunk cache now h0 h1 packet p = Some e \<Longrightarrow> encoded_pos e = prepared_pos p"
  by (auto simp: encode_chunk_def encode_fresh_def is_current_for_def Let_def split: option.splits if_splits)

lemma map_filter_subseq:
  "(\<And>x y. x \<in> set xs \<Longrightarrow> f x = Some y \<Longrightarrow> g y = h x) \<Longrightarrow> subseq (map g (List.map_filter f xs)) (map h xs)"
  by (induction xs) (auto simp: map_filter_simps split: option.split intro: list_emb_Cons)

lemma encode_batch_subseq:
  "subseq (map encoded_pos (fst (encode_batch now h0 h1 packet b cache))) (map prepared_pos (batch_chunks b))"
  unfolding encode_batch_def Let_def fst_conv by (rule map_filter_subseq) (rule encode_chunk_pos)

lemma take_candidates_pos: "subseq (map prepared_pos (take_candidates chunks state n ps)) ps"
proof (induction chunks state n ps rule: take_candidates.induct)
  case (2 chunks state n pos ps)
  then show ?case by (auto split: option.split intro: list_emb_Cons)
qed simp


lemma distinct_subseq: "subseq xs ys \<Longrightarrow> distinct ys \<Longrightarrow> distinct xs"
  by (induction rule: list_emb.induct) (auto dest: subseq_subset)

lemma prepare_batch_distinct:
  assumes "prepare_batch F chunks state sky player epoch s = (Some b, s')" "distinct (pending_chunks s)"
  shows "distinct (map prepared_pos (batch_chunks b))"
proof -
  obtain n where "batch_chunks b = take_candidates chunks state n (sort_key (\<lambda>pos. chunk_distance_squared pos player) (pending_chunks s))"
    using assms(1) by (auto simp: prepare_batch_def collect_candidates_def Let_def split: prod.splits option.splits if_splits)
  then show ?thesis using distinct_subseq [OF take_candidates_pos] assms(2) by (metis distinct_sort)
qed

section \<open>Pacing\<close>

definition pacing_inv :: "'f ChunkBatchPacing \<Rightarrow> bool" where
  "pacing_inv p \<longleftrightarrow>
     length (accepted_feedback p) \<le> unacknowledged_batches p \<and> unacknowledged_batches p \<le> max_unacknowledged_batches p \<and>
     max_unacknowledged_batches p \<le> MAX_UNACKNOWLEDGED_BATCHES"

lemma pacing_default_inv: "pacing_inv (pacing_default F)"
  by (simp add: pacing_inv_def pacing_default_def MAX_UNACKNOWLEDGED_BATCHES_def)

lemma apply_feedback_simps:
  "unacknowledged_batches (apply_feedback F d p) = unacknowledged_batches p - 1"
  "max_unacknowledged_batches (apply_feedback F d p) = MAX_UNACKNOWLEDGED_BATCHES"
  "accepted_feedback (apply_feedback F d p) = accepted_feedback p"
  by (simp_all add: apply_feedback_def Let_def)

lemma fold_apply_feedback:
  "unacknowledged_batches (fold (apply_feedback F) ds p) = unacknowledged_batches p - length ds"
  "max_unacknowledged_batches (fold (apply_feedback F) ds p) = (if ds = [] then max_unacknowledged_batches p else MAX_UNACKNOWLEDGED_BATCHES)"
  "accepted_feedback (fold (apply_feedback F) ds p) = accepted_feedback p"
  by (induction ds arbitrary: p) (simp_all add: apply_feedback_simps)

lemma drain_feedback_inv: "pacing_inv p \<Longrightarrow> pacing_inv (drain_feedback F p)"
  by (auto simp: pacing_inv_def drain_feedback_def fold_apply_feedback)

lemma begin_prepare_inv:
  "pacing_inv p \<Longrightarrow> begin_prepare F p = (r, p') \<Longrightarrow>
    pacing_inv p' \<and> (r \<noteq> None \<longrightarrow> unacknowledged_batches p' < max_unacknowledged_batches p')"
  using drain_feedback_inv [of p F] by (auto simp: begin_prepare_def Let_def pacing_inv_def split: if_splits)

lemma record_feedback_inv:
  "pacing_inv p \<Longrightarrow> record_feedback d p = (r, p') \<Longrightarrow>
    pacing_inv p' \<and> unacknowledged_batches p' = unacknowledged_batches p \<and> max_unacknowledged_batches p' = max_unacknowledged_batches p"
  by (auto simp: record_feedback_def pacing_inv_def split: if_splits)

lemma pacing_commit_inv:
  "pacing_inv p \<Longrightarrow> unacknowledged_batches p < max_unacknowledged_batches p \<Longrightarrow> pacing_inv (pacing_commit_batch F n p)"
  by (simp add: pacing_commit_batch_def pacing_inv_def)

section \<open>Books\<close>

text \<open>The chunks of the current view are split between pending and sent.\<close>

definition books :: "ChunkPos set \<Rightarrow> 'f ChunkSender \<Rightarrow> bool" where
  "books V s \<longleftrightarrow> distinct (pending_chunks s) \<and> set (pending_chunks s) \<inter> sent_chunks s = {} \<and>
     set (pending_chunks s) \<union> sent_chunks s = V"

text \<open>The chunks that a client holds after a packet.\<close>

fun apply_packet :: "'p ClientPacket \<Rightarrow> ChunkPos set \<Rightarrow> ChunkPos set" where
  "apply_packet (ForgetLevelChunk pos) c = c - {pos}"
| "apply_packet (LevelChunk e) c = insert (encoded_pos e) c"
| "apply_packet _ c = c"

lemma books_clear: "books {} (clear_world_chunks s)" "pacing (clear_world_chunks s) = pacing s" "sent_chunks (clear_world_chunks s) = {}"
  by (simp_all add: books_def clear_world_chunks_def)

lemma books_mark:
  "books V s \<Longrightarrow> pos \<notin> V \<Longrightarrow> books (insert pos V) (mark_chunk_pending_to_send pos s) \<and>
    sent_chunks (mark_chunk_pending_to_send pos s) = sent_chunks s \<and> pacing (mark_chunk_pending_to_send pos s) = pacing s"
  by (auto simp: books_def mark_chunk_pending_to_send_def)

lemma books_drop:
  "books V s \<Longrightarrow> drop_chunk closed pos s = (pk, s') \<Longrightarrow> books (V - {pos}) s' \<and> pacing s' = pacing s \<and>
    (\<not> closed \<longrightarrow> fold apply_packet pk (sent_chunks s) = sent_chunks s')"
  by (auto simp: books_def drop_chunk_def distinct_removeAll split: if_splits)

lemma fold_level_chunks: "fold apply_packet (map LevelChunk es) c = c \<union> encoded_pos ` set es"
  by (induction es arbitrary: c) auto

lemma books_commit:
  assumes "books V s" "commit_batch F now epoch b es s = (sent, pk, s')"
  shows "books V s' \<and> fold apply_packet pk (sent_chunks s) = sent_chunks s' \<and>
    (pacing s' = pacing s \<or> (\<exists>n. pacing s' = pacing_commit_batch F n (pacing s)))"
  using assms resolve_pending [of _ now "set (pending_chunks s)" "batch_chunks b" es]
  by (auto simp: books_def commit_batch_def Let_def fold_level_chunks split: if_splits)


section \<open>Properties\<close>

text \<open>Single precision numbers replaced by natural numbers, and a sender with one chunk to send.\<close>

definition demo_f32 :: "nat f32_arith" where
  "demo_f32 = \<lparr>f_max = max, f_min = min, f_add = (+), f_sub = (-), f_is_nan = (\<lambda>_. False), f_clamp = (\<lambda>x a b. max a (min x b)),
     f_floor_usize = id, f_of_usize = id, f_zero = 0, f_one = 1, MIN_CHUNKS_PER_TICK = 1, MAX_CHUNKS_PER_TICK = 500, START_CHUNKS_PER_TICK = 9\<rparr>"

definition demo_sender :: "nat ChunkSender" where
  "demo_sender = (sender_default demo_f32)\<lparr>pending_chunks := [ChunkPos 1 1]\<rparr>"

definition demo_holder :: HolderState where
  "demo_holder = \<lparr>published_status = Some Full, ticking_readiness = 5, packet_content_revision = 3, has_full_chunk = True\<rparr>"

text \<open>C29: A readiness snapshot identifies one moment: along any sequence of readiness changes the packed
  word always decodes and never takes an earlier value again, so comparing snapshots detects every
  change in between.\<close>

theorem readiness_never_repeats:
  assumes "(\<lambda>s s'. \<exists>t prev. transition_ticking_readiness t s = Some (Some prev, s'))\<^sup>+\<^sup>+ s s'"
  shows "s' \<noteq> s \<and> unat (drop_bit 2 s) < unat (drop_bit 2 s') \<and> readiness s' \<noteq> None"
proof -
  have "unat (drop_bit 2 s) < unat (drop_bit 2 s') \<and> readiness s' \<noteq> None"
    using assms by (induction rule: tranclp_induct) (auto dest: transition_snapshot)
  then show ?thesis by auto
qed

theorem readiness_never_repeats_witness: "readiness 6 \<noteq> None \<and> (6 :: u64) \<noteq> 0"
proof -
  let ?R = "\<lambda>s s'. \<exists>t prev. transition_ticking_readiness t s = Some (Some prev, s')"
  have "?R 0 6" by (intro exI [of _ ReadyEntityTicking] exI [of _ Unready]) (simp add: transition_ticking_readiness_def readiness_def Let_def)
  then have "?R\<^sup>+\<^sup>+ 0 6" by (rule tranclp.r_into_trancl)
  from readiness_never_repeats [OF this] show ?thesis by simp
qed

text \<open>C28: The single forward pass that commits a batch is as good as a search: for a batch prepared and
  encoded from the same sender it keeps exactly the encoded chunks that are still pending and
  current for some prepared chunk, in order.\<close>

theorem resolution_is_search:
  assumes "distinct (pending_chunks s)" "prepare_batch F chunks state sky pos epoch s = (Some b, s')"
    "encode_batch now0 h0 h1 packet b cache = (es, cache')"
  shows "resolve_valid_chunks now pending (batch_chunks b) es =
    filter (\<lambda>e. encoded_pos e \<in> pending \<and> (\<exists>p \<in> set (batch_chunks b). is_current_for now e p)) es"
  using resolve_filter [OF prepare_batch_distinct [OF assms(2,1)]] encode_batch_subseq [of now0 h0 h1 packet b cache] assms(3) by simp

theorem resolution_is_search_witness:
  "\<exists>b s' es cache'. prepare_batch demo_f32 [ChunkPos 1 1 \<mapsto> 0] (\<lambda>_. demo_holder) True (ChunkPos 0 0) 7 demo_sender = (Some b, s') \<and>
    encode_batch (\<lambda>_. Some demo_holder) (\<lambda>_. demo_holder) (\<lambda>_. demo_holder) (\<lambda>_. 0 :: nat) b Map.empty = (es, cache') \<and> es \<noteq> [] \<and>
    resolve_valid_chunks (\<lambda>_. Some demo_holder) {ChunkPos 1 1} (batch_chunks b) es = es"
proof -
  let ?b = "\<lparr>batch_chunks = [\<lparr>prepared_pos = ChunkPos 1 1, prepared_holder = 0, prepared_readiness = 5\<rparr>], has_skylight = True, epoch_snapshot = 7\<rparr>"
  have r: "readiness 5 = Some ReadyBlockTicking" by (simp add: readiness_def)
  obtain s' where p: "prepare_batch demo_f32 [ChunkPos 1 1 \<mapsto> 0] (\<lambda>_. demo_holder) True (ChunkPos 0 0) 7 demo_sender = (Some ?b, s')"
    by (simp add: prepare_batch_def begin_prepare_def drain_feedback_def demo_f32_def demo_sender_def sender_default_def pacing_default_def
        collect_candidates_def demo_holder_def readiness_is_block_ticking_def r Let_def)
  let ?e = "\<lparr>encoded_pos = ChunkPos 1 1, encoded_packet = 0 :: nat, content_revision = 3, encoded_holder = 0, encoded_readiness = 5\<rparr>"
  obtain cache' where e: "encode_batch (\<lambda>_. Some demo_holder) (\<lambda>_. demo_holder) (\<lambda>_. demo_holder) (\<lambda>_. 0 :: nat) ?b Map.empty = ([?e], cache')"
    by (simp add: encode_batch_def encode_chunk_def encode_fresh_def demo_holder_def map_filter_simps readiness_is_block_ticking_def r Let_def)
  have "distinct (pending_chunks demo_sender)" by (simp add: demo_sender_def)
  from resolution_is_search [OF this p e, of "\<lambda>_. Some demo_holder" "{ChunkPos 1 1}"] p e show ?thesis
    by (fastforce simp: is_current_for_def demo_holder_def readiness_is_block_ticking_def r)
qed

end
