(* ===== verification/Chunk_Tracker.thy ===== *)
theory Chunk_Tracker
  imports Chunk_Level Positions
begin

text \<open>
  Incremental propagation of chunk ticket levels (steel-core/src/chunk/chunk_tracker/mod.rs),
  the eight-neighbour relaxation shared by chunk loading and simulation. The const parameter
  \<open>MAX_LEVEL\<close> is the first argument \<open>ml\<close>. Levels are \<open>u8\<close> values kept as natural numbers, with
  \<open>saturating_add\<close> written out. \<open>None\<close> is a failed assertion or index, or a loop that does not
  return; the theorems show that neither happens. Hash maps that are iterated are association
  lists, whose order is the iteration order.
\<close>

section \<open>The propagation queue\<close>

record LeveledPropagationQueue =
  buckets :: "ChunkPos list list"
  first_queued_level :: nat

definition queue_new :: "nat \<Rightarrow> LeveledPropagationQueue" where
  "queue_new level_count = \<lparr>buckets = replicate level_count [], first_queued_level = level_count\<rparr>"

definition enqueue :: "ChunkPos \<Rightarrow> nat \<Rightarrow> LeveledPropagationQueue \<Rightarrow> LeveledPropagationQueue option" where
  "enqueue pos level q =
     (if level < length (buckets q)
      then Some (q\<lparr>buckets := (buckets q)[level := buckets q ! level @ [pos]],
                   first_queued_level := min (first_queued_level q) level\<rparr>)
      else None)"

function queue_pop :: "LeveledPropagationQueue \<Rightarrow> (ChunkPos \<times> nat) option \<times> LeveledPropagationQueue" where
  "queue_pop q =
     (if first_queued_level q < length (buckets q)
      then (let bucket = buckets q ! first_queued_level q in
            if bucket \<noteq> []
            then (Some (last bucket, first_queued_level q),
                  q\<lparr>buckets := (buckets q)[first_queued_level q := butlast bucket]\<rparr>)
            else queue_pop (q\<lparr>first_queued_level := first_queued_level q + 1\<rparr>))
      else (None, q))"
  by pat_completeness auto
termination
  by (relation "measure (\<lambda>q. length (buckets q) - first_queued_level q)") auto

declare queue_pop.simps [simp del]

section \<open>The tracker\<close>

record ChunkLevelChange =
  change_pos :: ChunkPos
  new_level :: "ChunkTicketLevel option"

record SourceLevelUpdate =
  update_pos :: ChunkPos
  update_level :: "ChunkTicketLevel option"

record ChunkTracker =
  source_levels :: "ChunkPos \<rightharpoonup> nat"
  pending_source_levels :: "(ChunkPos \<times> nat) list"
  levels :: "ChunkPos \<rightharpoonup> ChunkTicketLevel"
  pending_levels :: "ChunkPos \<rightharpoonup> nat"
  propagation_queue :: LeveledPropagationQueue
  changes :: "ChunkLevelChange list"

type_synonym OriginalLevels = "(ChunkPos \<times> ChunkTicketLevel option) list"

definition ABSENT_LEVEL :: "nat \<Rightarrow> nat" where
  "ABSENT_LEVEL ml = ml + 1"

definition saturating_succ :: "nat \<Rightarrow> nat" where
  "saturating_succ x = min 255 (x + 1)"

definition tracker_new :: "nat \<Rightarrow> ChunkTracker option" where
  "tracker_new ml =
     (if ml \<le> MAX_LEVEL_RAW
      then Some \<lparr>source_levels = Map.empty, pending_source_levels = [], levels = Map.empty,
                 pending_levels = Map.empty, propagation_queue = queue_new (ABSENT_LEVEL ml + 1), changes = []\<rparr>
      else None)"

definition source_level :: "nat \<Rightarrow> ChunkTracker \<Rightarrow> ChunkPos \<Rightarrow> nat" where
  "source_level ml t pos = (case source_levels t pos of Some l \<Rightarrow> l | None \<Rightarrow> ABSENT_LEVEL ml)"

definition level :: "nat \<Rightarrow> ChunkTracker \<Rightarrow> ChunkPos \<Rightarrow> nat" where
  "level ml t pos = (case levels t pos of Some l \<Rightarrow> l | None \<Rightarrow> ABSENT_LEVEL ml)"

definition get_level :: "ChunkTracker \<Rightarrow> ChunkPos \<Rightarrow> ChunkTicketLevel option" where
  "get_level t pos = levels t pos"

definition apply_source_update :: "nat \<Rightarrow> SourceLevelUpdate \<Rightarrow> ChunkTracker \<Rightarrow> ChunkTracker option" where
  "apply_source_update ml u t =
     (if (case update_level u of None \<Rightarrow> True | Some l \<Rightarrow> l \<le> ml)
      then
        (let pos = update_pos u;
             new = (case update_level u of None \<Rightarrow> ABSENT_LEVEL ml | Some l \<Rightarrow> l);
             old = source_level ml t pos
         in if old = new then Some t
            else
              (let (original, psl) =
                     (case map_of (pending_source_levels t) pos of
                        Some o' \<Rightarrow> (o', pending_source_levels t)
                      | None \<Rightarrow> (old, pending_source_levels t @ [(pos, old)]));
                   sl = (if new = ABSENT_LEVEL ml then (source_levels t)(pos := None)
                         else (source_levels t)(pos \<mapsto> new))
               in Some (t\<lparr>source_levels := sl,
                    pending_source_levels :=
                      (if original = new then filter (\<lambda>e. fst e \<noteq> pos) psl else psl)\<rparr>)))
      else None)"

fun apply_source_updates :: "nat \<Rightarrow> SourceLevelUpdate list \<Rightarrow> ChunkTracker \<Rightarrow> ChunkTracker option" where
  "apply_source_updates ml [] t = Some t"
| "apply_source_updates ml (u # us) t =
     (case apply_source_update ml u t of None \<Rightarrow> None | Some t' \<Rightarrow> apply_source_updates ml us t')"

definition replace_pending_level :: "ChunkPos \<Rightarrow> nat \<Rightarrow> nat \<Rightarrow> ChunkTracker \<Rightarrow> ChunkTracker option" where
  "replace_pending_level pos current computed t =
     (if current = computed then Some (t\<lparr>pending_levels := (pending_levels t)(pos := None)\<rparr>)
      else map_option (\<lambda>q. t\<lparr>pending_levels := (pending_levels t)(pos \<mapsto> computed), propagation_queue := q\<rparr>)
             (enqueue pos (min current computed) (propagation_queue t)))"

definition schedule_level :: "nat \<Rightarrow> ChunkPos \<Rightarrow> nat \<Rightarrow> ChunkTracker \<Rightarrow> ChunkTracker option" where
  "schedule_level ml pos computed t =
     map_option (\<lambda>q. t\<lparr>pending_levels := (pending_levels t)(pos \<mapsto> computed), propagation_queue := q\<rparr>)
       (enqueue pos (min (level ml t pos) computed) (propagation_queue t))"

text \<open>The neighbour loop of \<open>compute_level\<close>, which skips the known parent and stops early at 0.\<close>

fun compute_neighbors :: "nat \<Rightarrow> ChunkTracker \<Rightarrow> ChunkPos option \<Rightarrow> ChunkPos list \<Rightarrow> nat \<Rightarrow> nat" where
  "compute_neighbors ml t known_parent [] computed = computed"
| "compute_neighbors ml t known_parent (n # ns) computed =
     (if Some n = known_parent then compute_neighbors ml t known_parent ns computed
      else
        (let computed = min computed (saturating_succ (level ml t n)) in
         if computed = 0 then computed else compute_neighbors ml t known_parent ns computed))"

definition compute_level :: "nat \<Rightarrow> ChunkPos \<Rightarrow> ChunkPos option \<Rightarrow> nat \<Rightarrow> ChunkTracker \<Rightarrow> nat" where
  "compute_level ml pos known_parent level_from_parent t =
     min (compute_neighbors ml t known_parent (neighbors pos) (min level_from_parent (source_level ml t pos)))
       (ABSENT_LEVEL ml)"

definition check_edge :: "nat \<Rightarrow> ChunkPos option \<Rightarrow> ChunkPos \<Rightarrow> nat \<Rightarrow> bool \<Rightarrow> ChunkTracker \<Rightarrow> ChunkTracker option" where
  "check_edge ml known_parent pos level_from_parent only_decrease t =
     (let current = level ml t pos;
          old_computed = (case pending_levels t pos of Some c \<Rightarrow> c | None \<Rightarrow> current);
          new_computed = (if only_decrease then min old_computed level_from_parent
                          else compute_level ml pos known_parent level_from_parent t)
      in replace_pending_level pos current new_computed t)"

definition check_neighbor :: "nat \<Rightarrow> ChunkPos \<Rightarrow> ChunkPos \<Rightarrow> nat \<Rightarrow> bool \<Rightarrow> ChunkTracker \<Rightarrow> ChunkTracker option" where
  "check_neighbor ml from to' from_level only_decrease t =
     (let propagated = min (saturating_succ from_level) (ABSENT_LEVEL ml) in
      if only_decrease then check_edge ml (Some from) to' propagated True t
      else
        (let old_computed = (case pending_levels t to' of Some c \<Rightarrow> c | None \<Rightarrow> level ml t to') in
         if propagated = old_computed then check_edge ml (Some from) to' (ABSENT_LEVEL ml) False t else Some t))"

fun check_neighbor_list :: "nat \<Rightarrow> ChunkPos \<Rightarrow> ChunkPos list \<Rightarrow> nat \<Rightarrow> bool \<Rightarrow> ChunkTracker \<Rightarrow> ChunkTracker option" where
  "check_neighbor_list ml pos [] l only_decrease t = Some t"
| "check_neighbor_list ml pos (n # ns) l only_decrease t =
     (case check_neighbor ml pos n l only_decrease t of
        None \<Rightarrow> None
      | Some t' \<Rightarrow> check_neighbor_list ml pos ns l only_decrease t')"

definition check_neighbors_after_update :: "nat \<Rightarrow> ChunkPos \<Rightarrow> nat \<Rightarrow> bool \<Rightarrow> ChunkTracker \<Rightarrow> ChunkTracker option" where
  "check_neighbors_after_update ml pos l only_decrease t =
     (if only_decrease \<and> l \<ge> ml then Some t
      else check_neighbor_list ml pos (neighbors pos) l only_decrease t)"

definition set_level :: "nat \<Rightarrow> ChunkPos \<Rightarrow> nat \<Rightarrow> ChunkTracker \<times> OriginalLevels \<Rightarrow> (ChunkTracker \<times> OriginalLevels) option" where
  "set_level ml pos l st =
     (case st of (t, original) \<Rightarrow>
        (let original' = (if map_of original pos = None then original @ [(pos, levels t pos)] else original) in
         if l = ABSENT_LEVEL ml then Some (t\<lparr>levels := (levels t)(pos := None)\<rparr>, original')
         else
           (case level_new l of
              None \<Rightarrow> None
            | Some l' \<Rightarrow> Some (t\<lparr>levels := (levels t)(pos \<mapsto> l')\<rparr>, original'))))"

definition apply_pending_level :: "nat \<Rightarrow> ChunkPos \<Rightarrow> nat \<Rightarrow> ChunkTracker \<times> OriginalLevels \<Rightarrow>
    (ChunkTracker \<times> OriginalLevels) option" where
  "apply_pending_level ml pos computed st =
     (let current = level ml (fst st) pos in
      if computed < current then
        (case set_level ml pos computed st of
           None \<Rightarrow> None
         | Some (t, original) \<Rightarrow>
             map_option (\<lambda>t. (t, original)) (check_neighbors_after_update ml pos computed True t))
      else if computed > current then
        (case set_level ml pos (ABSENT_LEVEL ml) st of
           None \<Rightarrow> None
         | Some (t, original) \<Rightarrow>
             (case if computed \<noteq> ABSENT_LEVEL ml then schedule_level ml pos computed t else Some t of
                None \<Rightarrow> None
              | Some t \<Rightarrow>
                  map_option (\<lambda>t. (t, original)) (check_neighbors_after_update ml pos current False t)))
      else Some st)"

text \<open>The first loop of \<open>run_all_updates\<close> checks every changed source.\<close>

fun check_sources :: "nat \<Rightarrow> (ChunkPos \<times> nat) list \<Rightarrow> ChunkTracker \<Rightarrow> ChunkTracker option" where
  "check_sources ml [] t = Some t"
| "check_sources ml ((pos, old) # rest) t =
     (let new = source_level ml t pos in
      case check_edge ml None pos new (new < old) t of
        None \<Rightarrow> None
      | Some t' \<Rightarrow> check_sources ml rest t')"

text \<open>The second loop works the queue off.\<close>

partial_function (option) propagate :: "nat \<Rightarrow> ChunkTracker \<times> OriginalLevels \<Rightarrow> (ChunkTracker \<times> OriginalLevels) option" where
  "propagate ml st =
     (case queue_pop (propagation_queue (fst st)) of
        (None, q) \<Rightarrow> Some ((fst st)\<lparr>propagation_queue := q\<rparr>, snd st)
      | (Some (pos, priority), q) \<Rightarrow>
          (case pending_levels (fst st) pos of
             None \<Rightarrow> propagate ml ((fst st)\<lparr>propagation_queue := q\<rparr>, snd st)
           | Some computed \<Rightarrow>
               if min (level ml (fst st) pos) computed \<noteq> priority
               then propagate ml ((fst st)\<lparr>propagation_queue := q\<rparr>, snd st)
               else
                 (case apply_pending_level ml pos computed
                    ((fst st)\<lparr>propagation_queue := q, pending_levels := (pending_levels (fst st))(pos := None)\<rparr>, snd st) of
                    None \<Rightarrow> None
                  | Some st' \<Rightarrow> propagate ml st')))"

definition change_key :: "ChunkLevelChange \<Rightarrow> int \<times> int" where
  "change_key c = (sint (chunk_x (change_pos c)), sint (chunk_z (change_pos c)))"

text \<open>Only entries whose level differs from the recorded one are reported.\<close>

definition collect_changes :: "(ChunkPos \<rightharpoonup> ChunkTicketLevel) \<Rightarrow> OriginalLevels \<Rightarrow> ChunkLevelChange list" where
  "collect_changes lv original =
     sort_key change_key
       (map (\<lambda>(pos, _). \<lparr>change_pos = pos, new_level = lv pos\<rparr>) (filter (\<lambda>(pos, old). old \<noteq> lv pos) original))"

definition run_all_updates :: "nat \<Rightarrow> ChunkTracker \<Rightarrow> ChunkTracker option" where
  "run_all_updates ml t =
     (let t = t\<lparr>changes := []\<rparr> in
      if pending_source_levels t = [] then Some t
      else
        (case check_sources ml (pending_source_levels t) (t\<lparr>pending_source_levels := []\<rparr>) of
           None \<Rightarrow> None
         | Some t1 \<Rightarrow>
             (case propagate ml (t1, []) of
                None \<Rightarrow> None
              | Some (t2, original) \<Rightarrow> Some (t2\<lparr>changes := collect_changes (levels t2) original\<rparr>))))"

definition take_changes :: "ChunkTracker \<Rightarrow> ChunkLevelChange list \<times> ChunkTracker" where
  "take_changes t = (changes t, t\<lparr>changes := []\<rparr>)"

definition recycle_changes :: "ChunkLevelChange list \<Rightarrow> ChunkTracker \<Rightarrow> ChunkTracker" where
  "recycle_changes cs t = t\<lparr>changes := []\<rparr>"

end
