(* ===== verification/Chunk_Propagation.thy ===== *)
theory Chunk_Propagation
  imports Chunk_Tracker
begin

text \<open>
  Correctness of the propagation loop of the chunk tracker (\<open>run_all_updates\<close> of
  \<^verbatim>\<open>steel-core/src/chunk/chunk_tracker/mod.rs\<close>).

  The levels the tracker aims at solve the equation \<open>L p = fixed ml S L p\<close>: the level of a chunk is the
  least of its source level and of its neighbours' levels plus one.  The theory gives the equation,
  the invariants of the leveled queue and of the pending levels, the effect of each edge check on
  them, and the termination and the result of the loop.
\<close>


section \<open>The fixed-point equation\<close>

text \<open>The level a chunk should have, given its source and its neighbours' levels.\<close>

definition fixed :: "nat \<Rightarrow> (ChunkPos \<Rightarrow> nat) \<Rightarrow> (ChunkPos \<Rightarrow> nat) \<Rightarrow> ChunkPos \<Rightarrow> nat" where
  "fixed ml S L p = Min (insert (ABSENT_LEVEL ml) (insert (S p) ((\<lambda>n. L n + 1) ` set (neighbors p))))"

lemma le_fixed:
  "x \<le> fixed ml S L p \<longleftrightarrow> x \<le> ABSENT_LEVEL ml \<and> x \<le> S p \<and> (\<forall>n \<in> set (neighbors p). x \<le> L n + 1)"
  by (simp add: fixed_def)

lemma fixed_le_absent: "fixed ml S L p \<le> ABSENT_LEVEL ml"
  using le_fixed [of "fixed ml S L p"] by blast

lemma fixed_le_neighbor: "n \<in> set (neighbors p) \<Longrightarrow> fixed ml S L p \<le> L n + 1"
  using le_fixed [of "fixed ml S L p"] by blast

lemma eq_by_le: "(\<And>x :: nat. x \<le> a \<longleftrightarrow> x \<le> b) \<Longrightarrow> a = b"
  by (meson order_antisym order_refl)

lemma neighbors_irrefl: "p \<notin> set (neighbors p)"
proof
  assume "p \<in> set (neighbors p)"
  then obtain dx dy where d: "(dx, dy) \<in> set chunk_offsets" "p = ChunkPos (chunk_x p + dx) (chunk_z p + dy)"
    by (auto simp: neighbors_def)
  then have "dx = 0 \<and> dy = 0" by (metis ChunkPos.sel add_cancel_left_right)
  with d have "(0, 0) \<in> set chunk_offsets" by simp
  then show False by (simp add: chunk_offsets_def)
qed

lemma distinct_neighbors: "distinct (neighbors p)"
proof -
  have "inj_on (\<lambda>(dx, dy). ChunkPos (chunk_x p + dx) (chunk_z p + dy)) (set chunk_offsets)"
    by (auto simp: inj_on_def)
  moreover have "distinct chunk_offsets" by code_simp
  ultimately show ?thesis unfolding neighbors_def distinct_map by blast
qed

lemma fixed_lower:
  assumes "p \<in> set (neighbors q)" "c \<le> L p"
  shows "fixed ml S (L(p := c)) q = min (fixed ml S L q) (c + 1)"
proof (rule eq_by_le)
  fix x show "x \<le> fixed ml S (L(p := c)) q \<longleftrightarrow> x \<le> min (fixed ml S L q) (c + 1)"
  proof
    assume "x \<le> fixed ml S (L(p := c)) q"
    then have x: "x \<le> ABSENT_LEVEL ml" "x \<le> S q" "\<And>n. n \<in> set (neighbors q) \<Longrightarrow> x \<le> (L(p := c)) n + 1"
      unfolding le_fixed by blast+
    from x(3) [OF assms(1)] have "x \<le> c + 1" by simp
    moreover have "x \<le> L n + 1" if "n \<in> set (neighbors q)" for n
      using x(3) [OF that] assms(2) by (cases "n = p") simp_all
    ultimately show "x \<le> min (fixed ml S L q) (c + 1)" using x(1,2) by (simp add: le_fixed)
  next
    assume "x \<le> min (fixed ml S L q) (c + 1)"
    then show "x \<le> fixed ml S (L(p := c)) q" by (simp add: le_fixed)
  qed
qed

lemma fixed_cong:
  "p \<notin> set (neighbors q) \<Longrightarrow> fixed ml S (L(p := c)) q = fixed ml S L q"
  by (rule eq_by_le) (auto simp: le_fixed)

lemma fixed_raise:
  assumes "p \<in> set (neighbors q)" "fixed ml S L q \<noteq> min (L p + 1) (ABSENT_LEVEL ml)"
  shows "fixed ml S (L(p := ABSENT_LEVEL ml)) q = fixed ml S L q"
proof (rule eq_by_le)
  let ?L = "L(p := ABSENT_LEVEL ml)"
  define v where "v = fixed ml S L q"
  have v: "v < L p + 1" "v \<le> ABSENT_LEVEL ml"
    using assms fixed_le_neighbor [OF assms(1), of ml S L] fixed_le_absent [of ml S L q] unfolding v_def by linarith+
  have iff: "x \<le> v \<longleftrightarrow> x \<le> ABSENT_LEVEL ml \<and> x \<le> S q \<and> (\<forall>n \<in> set (neighbors q). x \<le> L n + 1)" for x
    unfolding v_def by (rule le_fixed)
  fix x
  have rest: "x \<le> fixed ml S ?L q \<longleftrightarrow>
      x \<le> ABSENT_LEVEL ml \<and> x \<le> S q \<and> (\<forall>n \<in> set (neighbors q). n \<noteq> p \<longrightarrow> x \<le> L n + 1)" for x
    unfolding le_fixed by auto
  have "x \<le> v" if "x \<le> fixed ml S ?L q"
  proof (rule ccontr)
    assume "\<not> x \<le> v"
    with that have "v + 1 \<le> fixed ml S ?L q" by simp
    then have "v + 1 \<le> v" unfolding rest using iff [of "v + 1"] v(1) by auto
    then show False by simp
  qed
  moreover have "x \<le> fixed ml S ?L q" if "x \<le> v"
    unfolding rest using that iff [of x] by simp
  ultimately show "x \<le> fixed ml S ?L q \<longleftrightarrow> x \<le> fixed ml S L q" unfolding v_def by blast
qed

section \<open>One relaxation step\<close>

definition unsettled :: "nat \<Rightarrow> (ChunkPos \<Rightarrow> nat) \<Rightarrow> (ChunkPos \<Rightarrow> nat) \<Rightarrow> nat \<Rightarrow> ChunkPos set" where
  "unsettled ml S L k = {q. fixed ml S L q \<noteq> L q \<and> min (L q) (fixed ml S L q) = k}"

definition floor_ok :: "nat \<Rightarrow> (ChunkPos \<Rightarrow> nat) \<Rightarrow> (ChunkPos \<Rightarrow> nat) \<Rightarrow> nat \<Rightarrow> bool" where
  "floor_ok ml S L k \<longleftrightarrow> (\<forall>q. fixed ml S L q \<noteq> L q \<longrightarrow> k \<le> min (L q) (fixed ml S L q))"

definition relax :: "nat \<Rightarrow> (ChunkPos \<Rightarrow> nat) \<Rightarrow> (ChunkPos \<Rightarrow> nat) \<Rightarrow> ChunkPos \<Rightarrow> (ChunkPos \<Rightarrow> nat)" where
  "relax ml S L p = L(p := if fixed ml S L p < L p then fixed ml S L p else ABSENT_LEVEL ml)"

lemma relax_self: "fixed ml S (relax ml S L p) p = fixed ml S L p"
  unfolding relax_def by (rule fixed_cong) (rule neighbors_irrefl)

text \<open>Settling a chunk of least key never creates a smaller key, and never a new chunk of the
  same key.\<close>

lemma relax_progress:
  assumes fl: "floor_ok ml S L k" and p: "p \<in> unsettled ml S L k"
  shows "floor_ok ml S (relax ml S L p) k \<and> unsettled ml S (relax ml S L p) k \<subset> unsettled ml S L k"
proof -
  let ?L = "relax ml S L p" and ?F = "fixed ml S L"
  let ?F' = "fixed ml S ?L"
  have key: "?F p \<noteq> L p" "min (L p) (?F p) = k" using p by (simp_all add: unsettled_def)
  have flq: "k \<le> min (L q) (?F q)" if "?F q \<noteq> L q" for q using fl that by (simp add: floor_ok_def)
  have pp: "k < min (?L p) (?F' p)" if "?F' p \<noteq> ?L p"
    using that key fixed_le_absent [of ml S L p] unfolding relax_self by (auto simp: relax_def split: if_splits)
  have other: "k \<le> min (?L q) (?F' q) \<and> (min (?L q) (?F' q) = k \<longrightarrow> ?F q \<noteq> L q \<and> min (L q) (?F q) = k)"
    if q: "q \<noteq> p" "?F' q \<noteq> ?L q" for q
  proof (cases "?F' q = ?F q")
    case True
    with q flq [of q] show ?thesis by (simp add: relax_def)
  next
    case changed: False
    then have nb: "p \<in> set (neighbors q)" unfolding relax_def using fixed_cong by metis
    have Lq: "?L q = L q" using q by (simp add: relax_def)
    show ?thesis
    proof (cases "?F p < L p")
      case True
      then have k: "k = ?F p" and "?F' q = min (?F q) (k + 1)"
        using key fixed_lower [OF nb, of "?F p" L ml S] by (simp_all add: relax_def)
      with changed have "?F' q = k + 1" "k + 1 < ?F q" by auto
      with flq [of q] q(2) Lq show ?thesis by (cases "?F q = L q") auto
    next
      case False
      then have k: "k = L p" and L: "?L = L(p := ABSENT_LEVEL ml)" using key by (simp_all add: relax_def)
      with changed fixed_raise [OF nb, of ml S L] have Fq: "?F q = min (k + 1) (ABSENT_LEVEL ml)" by auto
      have "?F q \<le> ?F' q"
        unfolding L le_fixed using le_fixed [of "?F q" ml S L q] k False fixed_le_absent [of ml S L p] by auto
      with changed fixed_le_absent [of ml S ?L q] Fq have "?F q = k + 1" "k + 1 < ?F' q" by auto
      with flq [of q] q(2) Lq show ?thesis by (cases "?F q = L q") auto
    qed
  qed
  have "floor_ok ml S ?L k"
    unfolding floor_ok_def using pp other by (metis less_or_eq_imp_le)
  moreover have "p \<notin> unsettled ml S ?L k" using pp by (auto simp: unsettled_def)
  moreover have "unsettled ml S ?L k \<subseteq> unsettled ml S L k"
  proof
    fix q assume "q \<in> unsettled ml S ?L k"
    then have q: "?F' q \<noteq> ?L q" "min (?L q) (?F' q) = k" by (simp_all add: unsettled_def)
    then have "q \<noteq> p" using pp by (metis less_irrefl)
    from other [OF this q(1)] q(2) show "q \<in> unsettled ml S L k" unfolding unsettled_def by blast
  qed
  ultimately show ?thesis using p by blast
qed


section \<open>The queue\<close>

definition queue_wf :: "LeveledPropagationQueue \<Rightarrow> bool" where
  "queue_wf q \<longleftrightarrow> (\<forall>l. l < first_queued_level q \<longrightarrow> l < length (buckets q) \<longrightarrow> buckets q ! l = []) \<and>
     first_queued_level q \<le> length (buckets q)"

definition queued :: "ChunkPos \<Rightarrow> nat \<Rightarrow> LeveledPropagationQueue \<Rightarrow> bool" where
  "queued p l q \<longleftrightarrow> l < length (buckets q) \<and> p \<in> set (buckets q ! l)"

lemma enqueue_ok:
  assumes "queue_wf q" "l < length (buckets q)"
  shows "\<exists>q'. enqueue p l q = Some q' \<and> queue_wf q' \<and> length (buckets q') = length (buckets q) \<and>
    (\<forall>p' l'. queued p' l' q' \<longleftrightarrow> queued p' l' q \<or> (p', l') = (p, l)) \<and>
    first_queued_level q' = min (first_queued_level q) l"
  using assms by (auto simp: enqueue_def queue_wf_def queued_def nth_list_update)

lemma in_butlast_or_last: "x \<in> set xs \<Longrightarrow> x \<in> set (butlast xs) \<or> x = last xs"
  by (induction xs) auto

lemma queue_pop_cases:
  assumes "queue_wf q"
  shows "case queue_pop q of
      (None, q') \<Rightarrow> (\<forall>p l. \<not> queued p l q) \<and> (\<forall>p l. \<not> queued p l q') \<and> queue_wf q' \<and>
        length (buckets q') = length (buckets q)
    | (Some (p, l), q') \<Rightarrow> queued p l q \<and> queue_wf q' \<and> first_queued_level q' = l \<and>
        length (buckets q') = length (buckets q) \<and> l < length (buckets q) \<and> first_queued_level q \<le> l \<and>
        length (buckets q' ! l) < length (buckets q ! l) \<and>
        (\<forall>p' l'. queued p' l' q \<longrightarrow> queued p' l' q' \<or> (p', l') = (p, l)) \<and>
        (\<forall>p' l'. queued p' l' q \<longrightarrow> l \<le> l')"
  using assms
proof (induction q rule: queue_pop.induct)
  case (1 q)
  let ?f = "first_queued_level q"
  have low: "\<And>l. l < ?f \<Longrightarrow> l < length (buckets q) \<Longrightarrow> buckets q ! l = []" "?f \<le> length (buckets q)"
    using "1.prems" by (auto simp: queue_wf_def)
  consider "?f = length (buckets q)" | "?f < length (buckets q)" "buckets q ! ?f = []"
    | "?f < length (buckets q)" "buckets q ! ?f \<noteq> []" using low(2) by linarith
  then show ?case
  proof cases
    case 1
    then show ?thesis using low "1.prems" by (subst queue_pop.simps) (auto simp: queued_def)
  next
    case 2
    let ?q = "q\<lparr>first_queued_level := ?f + 1\<rparr>"
    have "queue_pop q = queue_pop ?q" by (subst queue_pop.simps) (use 2 in simp)
    moreover have "queue_wf ?q" using low 2 by (auto simp: queue_wf_def less_Suc_eq)
    moreover have "queued p l ?q = queued p l q" for p l by (simp add: queued_def)
    ultimately show ?thesis using "1.IH" [OF 2(1) refl] 2 by (auto split: prod.splits option.splits)
  next
    case 3
    let ?b = "buckets q ! ?f"
    let ?q = "q\<lparr>buckets := (buckets q)[?f := butlast ?b]\<rparr>"
    have "queue_pop q = (Some (last ?b, ?f), ?q)" by (subst queue_pop.simps) (use 3 in \<open>simp add: Let_def\<close>)
    moreover have "queue_wf ?q" using low by (auto simp: queue_wf_def nth_list_update)
    moreover have "queued p' l' ?q \<or> (p', l') = (last ?b, ?f)" if "queued p' l' q" for p' l'
    proof (cases "l' = ?f")
      case True
      with that 3 in_butlast_or_last [of p' ?b] show ?thesis by (auto simp: queued_def)
    qed (use that in \<open>simp add: queued_def\<close>)
    moreover have "?f \<le> l'" if "queued p' l' q" for p' l'
      using that low(1) [of l'] unfolding queued_def by (cases "l' < ?f") auto
    moreover have "queued (last ?b) ?f q" using 3 by (simp add: queued_def)
    ultimately show ?thesis using 3 by simp
  qed
qed


lemma queue_pop_Some:
  assumes "queue_wf q" "queue_pop q = (Some (p, l), q')"
  shows "queued p l q" "queue_wf q'" "first_queued_level q' = l" "length (buckets q') = length (buckets q)"
    "l < length (buckets q)" "first_queued_level q \<le> l" "length (buckets q' ! l) < length (buckets q ! l)"
    "queued p' l' q \<Longrightarrow> queued p' l' q' \<or> (p', l') = (p, l)" "queued p' l' q \<Longrightarrow> l \<le> l'"
  using queue_pop_cases [OF assms(1)] unfolding assms(2) prod.case option.case by blast+

lemma queue_pop_None:
  assumes "queue_wf q" "queue_pop q = (None, q')"
  shows "\<not> queued p l q" "\<not> queued p l q'" "queue_wf q'" "length (buckets q') = length (buckets q)"
  using queue_pop_cases [OF assms(1)] unfolding assms(2) prod.case option.case by blast+

section \<open>Tracker invariants\<close>

definition cstar :: "nat \<Rightarrow> ChunkTracker \<Rightarrow> ChunkPos \<Rightarrow> nat" where
  "cstar ml t p = (case pending_levels t p of Some c \<Rightarrow> c | None \<Rightarrow> level ml t p)"

definition bounds_ok :: "nat \<Rightarrow> ChunkTracker \<Rightarrow> bool" where
  "bounds_ok ml t \<longleftrightarrow>
     ml \<le> MAX_LEVEL_RAW \<and> (\<forall>p l. levels t p = Some l \<longrightarrow> l \<le> ml) \<and> (\<forall>p l. source_levels t p = Some l \<longrightarrow> l \<le> ml)"

definition queue_ok :: "nat \<Rightarrow> LeveledPropagationQueue \<Rightarrow> bool" where
  "queue_ok ml q \<longleftrightarrow> queue_wf q \<and> length (buckets q) = ABSENT_LEVEL ml + 1"

definition pending_ok :: "nat \<Rightarrow> ChunkTracker \<Rightarrow> ChunkPos \<Rightarrow> bool" where
  "pending_ok ml t p \<longleftrightarrow>
     (case pending_levels t p of
        None \<Rightarrow> True
      | Some c \<Rightarrow> c \<le> ABSENT_LEVEL ml \<and> c \<noteq> level ml t p \<and> queued p (min (level ml t p) c) (propagation_queue t))"

definition tracker_ok :: "nat \<Rightarrow> ChunkTracker \<Rightarrow> bool" where
  "tracker_ok ml t \<longleftrightarrow> bounds_ok ml t \<and> queue_ok ml (propagation_queue t) \<and> (\<forall>p. pending_ok ml t p)"

lemma bounds_ok_update [simp]:
  "bounds_ok ml (t\<lparr>pending_levels := x\<rparr>) = bounds_ok ml t" "bounds_ok ml (t\<lparr>propagation_queue := q\<rparr>) = bounds_ok ml t"
  "bounds_ok ml (t\<lparr>pending_source_levels := y\<rparr>) = bounds_ok ml t" "bounds_ok ml (t\<lparr>changes := z\<rparr>) = bounds_ok ml t"
  by (simp_all add: bounds_ok_def)

lemma level_update [simp]:
  "level ml (t\<lparr>pending_levels := x\<rparr>) = level ml t" "level ml (t\<lparr>propagation_queue := q\<rparr>) = level ml t"
  "level ml (t\<lparr>pending_source_levels := y\<rparr>) = level ml t" "level ml (t\<lparr>changes := z\<rparr>) = level ml t"
  "level ml (t\<lparr>source_levels := s\<rparr>) = level ml t"
  by (simp_all add: level_def fun_eq_iff)

lemma source_level_update [simp]:
  "source_level ml (t\<lparr>pending_levels := x\<rparr>) = source_level ml t"
  "source_level ml (t\<lparr>propagation_queue := q\<rparr>) = source_level ml t"
  "source_level ml (t\<lparr>pending_source_levels := y\<rparr>) = source_level ml t"
  "source_level ml (t\<lparr>changes := z\<rparr>) = source_level ml t"
  "source_level ml (t\<lparr>levels := s\<rparr>) = source_level ml t"
  by (simp_all add: source_level_def fun_eq_iff)

lemma tracker_ok_level: "tracker_ok ml t \<Longrightarrow> level ml t p \<le> ABSENT_LEVEL ml"
  by (auto simp: tracker_ok_def bounds_ok_def level_def ABSENT_LEVEL_def split: option.splits intro: le_SucI)

lemma tracker_ok_source: "tracker_ok ml t \<Longrightarrow> source_level ml t p \<le> ABSENT_LEVEL ml"
  by (auto simp: tracker_ok_def bounds_ok_def source_level_def ABSENT_LEVEL_def split: option.splits intro: le_SucI)

lemma tracker_ok_cstar: "tracker_ok ml t \<Longrightarrow> cstar ml t p \<le> ABSENT_LEVEL ml"
  using tracker_ok_level [of ml t p] unfolding tracker_ok_def
  by (auto simp: cstar_def pending_ok_def split: option.splits dest: spec [of _ p])

lemma tracker_ok_small: "tracker_ok ml t \<Longrightarrow> ABSENT_LEVEL ml < 255"
  by (simp add: tracker_ok_def bounds_ok_def ABSENT_LEVEL_def level_constants)

lemma succ_small: "x \<le> ABSENT_LEVEL ml \<Longrightarrow> ABSENT_LEVEL ml < 255 \<Longrightarrow> saturating_succ x = x + 1"
  by (simp add: saturating_succ_def)

text \<open>The parts of the state that checking an edge leaves alone.\<close>

definition same_base :: "ChunkTracker \<Rightarrow> ChunkTracker \<Rightarrow> bool" where
  "same_base t t' \<longleftrightarrow> levels t' = levels t \<and> source_levels t' = source_levels t \<and>
     pending_source_levels t' = pending_source_levels t \<and> changes t' = changes t"

lemma same_base_refl [simp]: "same_base t t"
  by (simp add: same_base_def)

lemma same_base_trans: "same_base t t' \<Longrightarrow> same_base t' t'' \<Longrightarrow> same_base t t''"
  by (simp add: same_base_def)

lemma same_base_level [simp]:
  "same_base t t' \<Longrightarrow> level ml t' = level ml t" "same_base t t' \<Longrightarrow> source_level ml t' = source_level ml t"
  by (auto simp: same_base_def level_def source_level_def)

lemma compute_neighbors_le:
  "x \<le> compute_neighbors ml t kp ns c \<longleftrightarrow>
     x \<le> c \<and> (\<forall>n \<in> set ns. Some n \<noteq> kp \<longrightarrow> x \<le> saturating_succ (level ml t n))"
  by (induction ns arbitrary: c) (auto simp: Let_def)

lemma compute_level_le:
  assumes "tracker_ok ml t"
  shows "x \<le> compute_level ml p kp lv t \<longleftrightarrow>
    x \<le> ABSENT_LEVEL ml \<and> x \<le> lv \<and> x \<le> source_level ml t p \<and>
    (\<forall>n \<in> set (neighbors p). Some n \<noteq> kp \<longrightarrow> x \<le> level ml t n + 1)"
proof -
  have "saturating_succ (level ml t n) = level ml t n + 1" for n
    using succ_small [OF tracker_ok_level [OF assms] tracker_ok_small [OF assms]] .
  then show ?thesis unfolding compute_level_def min.bounded_iff compute_neighbors_le by auto
qed

lemma pending_iff: "tracker_ok ml t \<Longrightarrow> pending_levels t p = None \<longleftrightarrow> cstar ml t p = level ml t p"
  unfolding tracker_ok_def by (auto simp: cstar_def pending_ok_def split: option.splits dest: spec [of _ p])

lemma tracker_okD: "tracker_ok ml t \<Longrightarrow> pending_ok ml t x"
  by (simp add: tracker_ok_def)

lemma replace_pending_ok:
  assumes ok: "tracker_ok ml t" and c: "c \<le> ABSENT_LEVEL ml"
    and k: "k \<le> first_queued_level (propagation_queue t)" "c \<noteq> level ml t p \<Longrightarrow> k \<le> min (level ml t p) c"
  shows "\<exists>t'. replace_pending_level p (level ml t p) c t = Some t' \<and> tracker_ok ml t' \<and> same_base t t' \<and>
    cstar ml t' = (cstar ml t)(p := c) \<and> k \<le> first_queued_level (propagation_queue t')"
proof (cases "level ml t p = c")
  case True
  let ?t = "t\<lparr>pending_levels := (pending_levels t)(p := None)\<rparr>"
  have cs: "cstar ml ?t = (cstar ml t)(p := c)"
    using True by (intro ext) (simp add: cstar_def split: option.split)
  have "pending_ok ml ?t x" for x
    using tracker_okD [OF ok, of x] by (simp add: pending_ok_def split: option.splits)
  moreover have "bounds_ok ml ?t" "queue_ok ml (propagation_queue ?t)" using ok by (simp_all add: tracker_ok_def)
  ultimately have ok': "tracker_ok ml ?t" unfolding tracker_ok_def by blast
  have "replace_pending_level p (level ml t p) c t = Some ?t" using True by (simp add: replace_pending_level_def)
  moreover have "same_base t ?t" by (simp add: same_base_def)
  moreover have "k \<le> first_queued_level (propagation_queue ?t)" using k(1) by simp
  ultimately show ?thesis using cs ok' by blast
next
  case False
  have "min (level ml t p) c < length (buckets (propagation_queue t))"
    using ok c by (simp add: tracker_ok_def queue_ok_def)
  moreover have "queue_wf (propagation_queue t)" using ok by (simp add: tracker_ok_def queue_ok_def)
  ultimately obtain q where q: "enqueue p (min (level ml t p) c) (propagation_queue t) = Some q" "queue_wf q"
    "length (buckets q) = length (buckets (propagation_queue t))"
    "\<And>p' l'. queued p' l' q \<longleftrightarrow> queued p' l' (propagation_queue t) \<or> (p', l') = (p, min (level ml t p) c)"
    "first_queued_level q = min (first_queued_level (propagation_queue t)) (min (level ml t p) c)"
    using enqueue_ok by metis
  let ?t = "t\<lparr>pending_levels := (pending_levels t)(p \<mapsto> c), propagation_queue := q\<rparr>"
  have cs: "cstar ml ?t = (cstar ml t)(p := c)" by (intro ext) (simp add: cstar_def split: option.split)
  have "pending_ok ml ?t x" for x
    using tracker_okD [OF ok, of x] c False q(4)
    by (cases "x = p") (simp_all add: pending_ok_def split: option.splits)
  moreover have "bounds_ok ml ?t" "queue_ok ml (propagation_queue ?t)"
    using ok q(2,3) by (simp_all add: tracker_ok_def queue_ok_def)
  ultimately have ok': "tracker_ok ml ?t" unfolding tracker_ok_def by blast
  have "replace_pending_level p (level ml t p) c t = Some ?t"
    using False q(1) by (simp add: replace_pending_level_def)
  moreover have "same_base t ?t" by (simp add: same_base_def)
  moreover have "k \<le> first_queued_level (propagation_queue ?t)" using k False q(5) by simp
  ultimately show ?thesis using cs ok' by blast
qed


text \<open>What an operation on one chunk's pending level achieves; \<open>k\<close> is a bound that no enqueued
  key goes below.\<close>

definition repends :: "nat \<Rightarrow> nat \<Rightarrow> ChunkTracker \<Rightarrow> (ChunkPos \<Rightarrow> nat) \<Rightarrow> ChunkTracker option \<Rightarrow> bool" where
  "repends ml k t C res \<longleftrightarrow>
     (\<exists>t'. res = Some t' \<and> tracker_ok ml t' \<and> same_base t t' \<and> cstar ml t' = C \<and>
        k \<le> first_queued_level (propagation_queue t'))"

lemma check_edge_repends:
  assumes ok: "tracker_ok ml t" and k: "k \<le> first_queued_level (propagation_queue t)"
    and c: "c = (if only_decrease then min (cstar ml t p) lv else compute_level ml p kp lv t)"
    and kc: "c \<noteq> level ml t p \<Longrightarrow> k \<le> min (level ml t p) c"
  shows "repends ml k t ((cstar ml t)(p := c)) (check_edge ml kp p lv only_decrease t)"
proof -
  have "c \<le> ABSENT_LEVEL ml"
    using c tracker_ok_cstar [OF ok, of p] compute_level_le [OF ok, of c p kp lv] by (auto split: if_splits)
  from replace_pending_ok [OF ok this k kc] c show ?thesis
    unfolding repends_def check_edge_def Let_def cstar_def [symmetric] by simp
qed

lemma recompute_without_parent:
  assumes ok: "tracker_ok ml t" and L: "level ml t p = ABSENT_LEVEL ml"
  shows "compute_level ml n (Some p) (ABSENT_LEVEL ml) t = fixed ml (source_level ml t) (level ml t) n"
  by (rule eq_by_le) (auto simp: compute_level_le [OF ok] le_fixed L)

lemma recompute_source:
  assumes ok: "tracker_ok ml t"
  shows "compute_level ml n None (source_level ml t n) t = fixed ml (source_level ml t) (level ml t) n"
  by (rule eq_by_le) (auto simp: compute_level_le [OF ok] le_fixed)

lemma check_neighbor_repends:
  assumes ok: "tracker_ok ml t" and k: "k \<le> first_queued_level (propagation_queue t)"
    and S: "S = source_level ml t" and L': "level ml t = L(p := v)"
    and n: "p \<in> set (neighbors n)" and C: "cstar ml t n = fixed ml S L n"
    and kn: "fixed ml S (L(p := v)) n \<noteq> (L(p := v)) n \<Longrightarrow> k \<le> min ((L(p := v)) n) (fixed ml S (L(p := v)) n)"
    and mode: "if dec then v \<le> L p \<and> l = v else v = ABSENT_LEVEL ml \<and> l = L p \<and> L p \<le> v"
  shows "repends ml k t ((cstar ml t)(n := fixed ml S (L(p := v)) n)) (check_neighbor ml p n l dec t)"
proof -
  let ?A = "ABSENT_LEVEL ml"
  have "l \<le> ?A" using mode tracker_ok_level [OF ok, of p] L' by (auto split: if_splits)
  then have succ: "min (saturating_succ l) ?A = min (l + 1) ?A"
    using succ_small [OF _ tracker_ok_small [OF ok]] by simp
  have kn': "fixed ml S (L(p := v)) n \<noteq> level ml t n \<Longrightarrow> k \<le> min (level ml t n) (fixed ml S (L(p := v)) n)"
    using kn unfolding L' by blast
  show ?thesis
  proof (cases dec)
    case True
    have "fixed ml S (L(p := v)) n = min (cstar ml t n) (min (l + 1) ?A)"
      using fixed_lower [OF n, of v L ml S] mode True C fixed_le_absent [of ml S L n] by simp
    with check_edge_repends [OF ok k _ kn', where only_decrease = True and lv = "min (l + 1) ?A" and kp = "Some p"] True show ?thesis
      by (simp add: check_neighbor_def succ)
  next
    case False
    with mode have v: "v = ?A" and l: "l = L p" by simp_all
    show ?thesis
    proof (cases "min (l + 1) ?A = cstar ml t n")
      case True
      have "fixed ml S (L(p := v)) n = compute_level ml n (Some p) ?A t"
        using recompute_without_parent [OF ok, of p n] L' v S by simp
      with check_edge_repends [OF ok k _ kn', where only_decrease = False and lv = ?A and kp = "Some p"] False True show ?thesis
        unfolding check_neighbor_def succ Let_def cstar_def [symmetric] by simp
    next
      case unchanged: False
      then have "fixed ml S (L(p := v)) n = cstar ml t n"
        using fixed_raise [OF n, of ml S L] v l C by auto
      moreover have "check_neighbor ml p n l dec t = Some t"
        using False unchanged unfolding check_neighbor_def succ Let_def cstar_def [symmetric] by simp
      ultimately show ?thesis using ok k by (simp add: repends_def)
    qed
  qed
qed

lemma check_neighbor_list_repends:
  assumes "tracker_ok ml t" and "k \<le> first_queued_level (propagation_queue t)"
    and S: "S = source_level ml t" and "level ml t = L(p := v)"
    and ns: "set ns \<subseteq> set (neighbors p)" "distinct ns" and "\<And>n. n \<in> set ns \<Longrightarrow> cstar ml t n = fixed ml S L n"
    and kn: "\<And>n. fixed ml S (L(p := v)) n \<noteq> (L(p := v)) n \<Longrightarrow> n \<noteq> p \<Longrightarrow> k \<le> min ((L(p := v)) n) (fixed ml S (L(p := v)) n)"
    and mode: "if dec then v \<le> L p \<and> l = v else v = ABSENT_LEVEL ml \<and> l = L p \<and> L p \<le> v"
  shows "repends ml k t (\<lambda>q. if q \<in> set ns then fixed ml S (L(p := v)) q else cstar ml t q)
    (check_neighbor_list ml p ns l dec t)"
  using assms(1-7)
proof (induction ns arbitrary: t)
  case Nil
  then show ?case by (simp add: repends_def)
next
  case (Cons n ns)
  have n: "p \<in> set (neighbors n)" "n \<noteq> p" using Cons.prems(5) neighbors_sym neighbors_irrefl by auto
  have "cstar ml t n = fixed ml S L n" using Cons.prems(7) by simp
  from check_neighbor_repends [OF Cons.prems(1-4) n(1) this kn [OF _ n(2)] mode] obtain t1 where
    t1: "check_neighbor ml p n l dec t = Some t1" "tracker_ok ml t1" "same_base t t1"
      "cstar ml t1 = (cstar ml t)(n := fixed ml S (L(p := v)) n)" "k \<le> first_queued_level (propagation_queue t1)"
    unfolding repends_def by blast
  have "repends ml k t1 (\<lambda>q. if q \<in> set ns then fixed ml S (L(p := v)) q else cstar ml t1 q)
    (check_neighbor_list ml p ns l dec t1)"
    by (rule Cons.IH) (use t1 Cons.prems in auto)
  moreover have "(\<lambda>q. if q \<in> set ns then fixed ml S (L(p := v)) q else cstar ml t1 q) =
      (\<lambda>q. if q \<in> set (n # ns) then fixed ml S (L(p := v)) q else cstar ml t q)"
    unfolding t1(4) by auto
  ultimately show ?case using t1(1,3) unfolding repends_def by (auto intro: same_base_trans)
qed


definition record_original :: "ChunkPos \<Rightarrow> ChunkTracker \<Rightarrow> OriginalLevels \<Rightarrow> OriginalLevels" where
  "record_original p t original =
     (if map_of original p = None then original @ [(p, levels t p)] else original)"

text \<open>Everything a tracker holds apart from its levels and its pending work.\<close>

definition same_sources :: "ChunkTracker \<Rightarrow> ChunkTracker \<Rightarrow> bool" where
  "same_sources t t' \<longleftrightarrow> source_levels t' = source_levels t \<and>
     pending_source_levels t' = pending_source_levels t \<and> changes t' = changes t"

lemma same_sources_level: "same_sources t t' \<Longrightarrow> source_level ml t' = source_level ml t"
  by (auto simp: same_sources_def source_level_def)

lemma same_base_sources: "same_base t t' \<Longrightarrow> same_sources t t'"
  by (simp add: same_base_def same_sources_def)

lemma same_sources_trans: "same_sources t t' \<Longrightarrow> same_sources t' t'' \<Longrightarrow> same_sources t t''"
  by (simp add: same_sources_def)

lemma level_update_levels [simp]:
  "level ml (t\<lparr>levels := (levels t)(p := x)\<rparr>) =
     (level ml t)(p := case x of Some l \<Rightarrow> l | None \<Rightarrow> ABSENT_LEVEL ml)"
  by (auto simp: level_def)

lemma set_level_ok:
  assumes ok: "tracker_ok ml t" and p: "pending_levels t p = None" and v: "v \<le> ABSENT_LEVEL ml"
  shows "\<exists>t'. set_level ml p v (t, original) = Some (t', record_original p t original) \<and> tracker_ok ml t' \<and>
    same_sources t t' \<and> level ml t' = (level ml t)(p := v) \<and> cstar ml t' = (cstar ml t)(p := v) \<and>
    levels t' = (levels t)(p := if v = ABSENT_LEVEL ml then None else Some v) \<and>
    pending_levels t' p = None \<and> propagation_queue t' = propagation_queue t"
proof -
  let ?t = "t\<lparr>levels := (levels t)(p := if v = ABSENT_LEVEL ml then None else Some v)\<rparr>"
  have b: "bounds_ok ml t" using ok by (simp add: tracker_ok_def)
  have set: "set_level ml p v (t, original) = Some (?t, record_original p t original)"
    using b v unfolding set_level_def record_original_def level_new_def
    by (simp add: bounds_ok_def ABSENT_LEVEL_def Let_def)
  have lv: "level ml ?t = (level ml t)(p := v)" by simp
  have cs: "cstar ml ?t = (cstar ml t)(p := v)"
    using p by (intro ext) (simp add: cstar_def split: option.split)
  have "bounds_ok ml ?t" using b v by (auto simp: bounds_ok_def ABSENT_LEVEL_def)
  moreover have "pending_ok ml ?t x" for x
    using tracker_okD [OF ok, of x] p by (cases "x = p") (simp_all add: pending_ok_def split: option.splits)
  moreover have "queue_ok ml (propagation_queue ?t)" using ok by (simp add: tracker_ok_def)
  ultimately have "tracker_ok ml ?t" unfolding tracker_ok_def by blast
  moreover have "same_sources t ?t" "pending_levels ?t p = None" "propagation_queue ?t = propagation_queue t"
    using p by (simp_all add: same_sources_def)
  moreover have "levels ?t = (levels t)(p := if v = ABSENT_LEVEL ml then None else Some v)" by simp
  ultimately show ?thesis using set lv cs by blast
qed

lemma neighbors_after_update_repends:
  assumes ok: "tracker_ok ml t" and k: "k \<le> first_queued_level (propagation_queue t)"
    and S: "S = source_level ml t" and L': "level ml t = L(p := v)"
    and C: "\<And>n. n \<noteq> p \<Longrightarrow> cstar ml t n = fixed ml S L n" "cstar ml t p = fixed ml S L p"
    and fl: "floor_ok ml S (L(p := v)) k"
    and mode: "if dec then v \<le> L p \<and> l = v else v = ABSENT_LEVEL ml \<and> l = L p \<and> L p \<le> v"
  shows "repends ml k t (fixed ml S (L(p := v))) (check_neighbors_after_update ml p l dec t)"
proof (cases "dec \<and> l \<ge> ml")
  case True
  have "cstar ml t q = fixed ml S (L(p := v)) q" for q
  proof (cases "p \<in> set (neighbors q)")
    case nb: True
    from mode True have v: "v \<le> L p" "ml \<le> v" by simp_all
    have "fixed ml S (L(p := v)) q = min (fixed ml S L q) (v + 1)"
      using fixed_lower [OF nb, of v L ml S] v(1) by simp
    also have "\<dots> = fixed ml S L q"
      using v(2) fixed_le_absent [of ml S L q] by (simp add: ABSENT_LEVEL_def)
    finally show ?thesis using C by metis
  next
    case False
    with C show ?thesis by (metis fixed_cong)
  qed
  with True ok k show ?thesis by (auto simp: check_neighbors_after_update_def repends_def)
next
  case False
  have "repends ml k t (\<lambda>q. if q \<in> set (neighbors p) then fixed ml S (L(p := v)) q else cstar ml t q)
      (check_neighbor_list ml p (neighbors p) l dec t)"
  proof (rule check_neighbor_list_repends [OF ok k S L' subset_refl distinct_neighbors _ _ mode])
    show "cstar ml t n = fixed ml S L n" for n using C by metis
  qed (use fl in \<open>unfold floor_ok_def, blast\<close>)
  moreover have "(\<lambda>q. if q \<in> set (neighbors p) then fixed ml S (L(p := v)) q else cstar ml t q) = fixed ml S (L(p := v))"
    using C neighbors_sym fixed_cong by (intro ext) metis
  moreover have "check_neighbors_after_update ml p l dec t = check_neighbor_list ml p (neighbors p) l dec t"
    using False by (auto simp: check_neighbors_after_update_def)
  ultimately show ?thesis by simp
qed


lemma schedule_pending_ok:
  assumes ok: "tracker_ok ml t" and k: "k \<le> first_queued_level (propagation_queue t)"
    and p: "level ml t p = ABSENT_LEVEL ml" "c \<le> ABSENT_LEVEL ml" "k \<le> c" "cstar ml t p = ABSENT_LEVEL ml"
  shows "\<exists>t'. (if c \<noteq> ABSENT_LEVEL ml then schedule_level ml p c t else Some t) = Some t' \<and> tracker_ok ml t' \<and>
    same_base t t' \<and> cstar ml t' = (cstar ml t)(p := c) \<and> k \<le> first_queued_level (propagation_queue t')"
proof (cases "c = ABSENT_LEVEL ml")
  case True
  then have "(cstar ml t)(p := c) = cstar ml t" using p(4) by auto
  with True ok k show ?thesis by simp
next
  case False
  then have "schedule_level ml p c t = replace_pending_level p (level ml t p) c t"
    using p(1) by (simp add: schedule_level_def replace_pending_level_def)
  with False replace_pending_ok [OF ok p(2) k, of p] p show ?thesis by simp
qed

lemma apply_pending_level_step:
  assumes ok: "tracker_ok ml t" and k: "k \<le> first_queued_level (propagation_queue t)"
    and S: "S = source_level ml t" and L: "L = level ml t" and pend: "pending_levels t p = None"
    and C: "\<And>n. n \<noteq> p \<Longrightarrow> cstar ml t n = fixed ml S L n"
    and fl: "floor_ok ml S L k" and p: "p \<in> unsettled ml S L k"
  shows "\<exists>t'. apply_pending_level ml p (fixed ml S L p) (t, original) = Some (t', record_original p t original) \<and>
    tracker_ok ml t' \<and> same_sources t t' \<and> level ml t' = relax ml S L p \<and>
    (\<forall>q. q \<noteq> p \<longrightarrow> levels t' q = levels t q) \<and> cstar ml t' = fixed ml S (level ml t') \<and>
    k \<le> first_queued_level (propagation_queue t')"
proof -
  let ?c = "fixed ml S L p" and ?A = "ABSENT_LEVEL ml"
  let ?v = "if ?c < L p then ?c else ?A"
  have key: "?c \<noteq> L p" using p by (simp add: unsettled_def)
  have relax: "relax ml S L p = L(p := ?v)" by (simp add: relax_def)
  have fl': "floor_ok ml S (L(p := ?v)) k" using relax_progress [OF fl p] unfolding relax by blast
  have v: "?v \<le> ?A" using fixed_le_absent by simp
  from set_level_ok [OF ok pend v, of original] obtain t1 where
    t1: "set_level ml p ?v (t, original) = Some (t1, record_original p t original)" "tracker_ok ml t1"
      "same_sources t t1" "level ml t1 = L(p := ?v)" "cstar ml t1 = (cstar ml t)(p := ?v)"
      "levels t1 = (levels t)(p := if ?v = ABSENT_LEVEL ml then None else Some ?v)"
      "pending_levels t1 p = None" "propagation_queue t1 = propagation_queue t"
    unfolding L by blast
  have S1: "S = source_level ml t1" using same_sources_level [OF t1(3)] S by simp
  have k1: "k \<le> first_queued_level (propagation_queue t1)" using k t1(8) by simp
  have C1: "\<And>n. n \<noteq> p \<Longrightarrow> cstar ml t1 n = fixed ml S L n" using C t1(5) by simp
  have lp: "level ml t p = L p" using L by simp
  have "\<exists>t2 l dec. same_base t1 t2 \<and> repends ml k t2 (fixed ml S (L(p := ?v))) (check_neighbors_after_update ml p l dec t2) \<and>
      apply_pending_level ml p ?c (t, original) =
        map_option (\<lambda>t'. (t', record_original p t original)) (check_neighbors_after_update ml p l dec t2)"
  proof (cases "?c < L p")
    case True
    have "repends ml k t1 (fixed ml S (L(p := ?v))) (check_neighbors_after_update ml p ?c True t1)"
      by (rule neighbors_after_update_repends [OF t1(2) k1 S1 t1(4) C1 _ fl']) (use True t1(5) in simp_all)
    moreover have "apply_pending_level ml p ?c (t, original) =
        map_option (\<lambda>t'. (t', record_original p t original)) (check_neighbors_after_update ml p ?c True t1)"
      using True t1(1) lp by (simp add: apply_pending_level_def)
    ultimately show ?thesis by (intro exI [of _ t1] exI [of _ ?c] exI [of _ True]) simp
  next
    case False
    then have c: "L p < ?c" using key by simp
    obtain t2 where t2: "(if ?c \<noteq> ?A then schedule_level ml p ?c t1 else Some t1) = Some t2" "tracker_ok ml t2"
      "same_base t1 t2" "cstar ml t2 = (cstar ml t1)(p := ?c)" "k \<le> first_queued_level (propagation_queue t2)"
      using schedule_pending_ok [OF t1(2) k1, of p ?c] t1(4,5) False fixed_le_absent [of ml S L p] p
      by (auto simp: unsettled_def)
    have "repends ml k t2 (fixed ml S (L(p := ?v))) (check_neighbors_after_update ml p (L p) False t2)"
      by (rule neighbors_after_update_repends [OF t2(2,5) _ _ _ _ fl'])
         (use False c t2(3,4) S1 t1(4) C1 fixed_le_absent [of ml S L p] in simp_all)
    moreover have "apply_pending_level ml p ?c (t, original) =
        map_option (\<lambda>t'. (t', record_original p t original)) (check_neighbors_after_update ml p (L p) False t2)"
      using c t1(1) lp t2(1) by (simp add: apply_pending_level_def split: if_splits)
    ultimately show ?thesis using t2(3) by blast
  qed
  then obtain t2 l dec t' where t2: "same_base t1 t2" "check_neighbors_after_update ml p l dec t2 = Some t'"
    "tracker_ok ml t'" "same_base t2 t'" "cstar ml t' = fixed ml S (L(p := ?v))" "k \<le> first_queued_level (propagation_queue t')"
    "apply_pending_level ml p ?c (t, original) = Some (t', record_original p t original)"
    unfolding repends_def by auto
  have b: "same_base t1 t'" using t2(1,4) by (rule same_base_trans)
  have lv: "level ml t' = relax ml S L p" unfolding relax t1(4) [symmetric] by (rule same_base_level [OF b])
  have "levels t' q = levels t q" if "q \<noteq> p" for q using b that t1(6) by (simp add: same_base_def)
  moreover have "same_sources t t'" using t1(3) same_base_sources [OF b] by (rule same_sources_trans)
  moreover have "cstar ml t' = fixed ml S (level ml t')" unfolding lv relax by (rule t2(5))
  ultimately show ?thesis using t2(3,6,7) lv by blast
qed


section \<open>The loop terminates in a fixed point\<close>

lemma finite_ChunkPos: "finite (A :: ChunkPos set)"
proof (rule finite_subset)
  show "A \<subseteq> (\<lambda>(x, z). ChunkPos x z) ` UNIV" by (auto simp: image_iff) (metis ChunkPos.exhaust)
qed simp

definition loop_inv :: "nat \<Rightarrow> (ChunkPos \<Rightarrow> nat) \<Rightarrow> ChunkTracker \<Rightarrow> bool" where
  "loop_inv ml S t \<longleftrightarrow>
     tracker_ok ml t \<and> S = source_level ml t \<and> cstar ml t = fixed ml S (level ml t)"

definition original_ok :: "(ChunkPos \<rightharpoonup> nat) \<Rightarrow> ChunkTracker \<Rightarrow> OriginalLevels \<Rightarrow> bool" where
  "original_ok lv t original \<longleftrightarrow>
     distinct (map fst original) \<and>
     (\<forall>p. case map_of original p of Some old \<Rightarrow> old = lv p | None \<Rightarrow> levels t p = lv p)"

lemma original_ok_cong: "levels t' = levels t \<Longrightarrow> original_ok lv t original \<Longrightarrow> original_ok lv t' original"
  by (simp add: original_ok_def cong: option.case_cong)

lemma original_ok_record:
  assumes "original_ok lv t original" "\<And>q. q \<noteq> p \<Longrightarrow> levels t' q = levels t q"
  shows "original_ok lv t' (record_original p t original)"
proof -
  have dis: "distinct (map fst (record_original p t original))"
    using assms(1) by (auto simp: original_ok_def record_original_def map_of_eq_None_iff)
  have "case map_of (record_original p t original) q of Some old \<Rightarrow> old = lv q | None \<Rightarrow> levels t' q = lv q" for q
  proof -
    have q: "case map_of original q of Some old \<Rightarrow> old = lv q | None \<Rightarrow> levels t q = lv q"
      using assms(1) unfolding original_ok_def by blast
    show ?thesis
      using q assms(2) [of q]
      by (cases "q = p") (auto simp: record_original_def map_add_def split: option.splits if_splits)
  qed
  with dis show ?thesis by (simp add: original_ok_def)
qed

lemma popped_ok:
  assumes ok: "tracker_ok ml t" and pop: "queue_pop (propagation_queue t) = (Some (p, l), q)"
    and pl: "pl p = None \<or> (pl p = pending_levels t p \<and> min (level ml t p) (the (pl p)) \<noteq> l)"
      "\<And>x. x \<noteq> p \<Longrightarrow> pl x = pending_levels t x"
  shows "tracker_ok ml (t\<lparr>propagation_queue := q, pending_levels := pl\<rparr>)"
proof -
  have wf: "queue_wf (propagation_queue t)" using ok by (simp add: tracker_ok_def queue_ok_def)
  note q = queue_pop_Some(2,4,8) [OF wf pop]
  have "pending_ok ml (t\<lparr>propagation_queue := q, pending_levels := pl\<rparr>) x" for x
  proof (cases "x = p")
    case True
    with tracker_okD [OF ok, of x] pl(1) q(3) [of p "min (level ml t p) (the (pl p))"] show ?thesis
      by (auto simp: pending_ok_def split: option.splits)
  next
    case False
    with tracker_okD [OF ok, of x] pl(2) q(3) [of x "min (level ml t x) (the (pl x))"] show ?thesis
      by (auto simp: pending_ok_def split: option.splits)
  qed
  moreover have "bounds_ok ml (t\<lparr>propagation_queue := q, pending_levels := pl\<rparr>)" using ok by (simp add: tracker_ok_def)
  moreover have "queue_ok ml q" using ok q(1,2) by (simp add: tracker_ok_def queue_ok_def)
  ultimately show ?thesis by (simp add: tracker_ok_def)
qed

text \<open>What one turn of the loop does: it stops with nothing pending, drops a stale entry, or
  relaxes a chunk of least key.\<close>

lemma popped_floor:
  assumes inv: "loop_inv ml S t" and pop: "queue_pop (propagation_queue t) = (Some (p, l), q)"
  shows "floor_ok ml S (level ml t) l"
  unfolding floor_ok_def
proof (intro allI impI)
  fix x assume x: "fixed ml S (level ml t) x \<noteq> level ml t x"
  have ok: "tracker_ok ml t" and C: "cstar ml t x = fixed ml S (level ml t) x"
    using inv by (simp_all add: loop_inv_def)
  have "pending_levels t x \<noteq> None" using x unfolding pending_iff [OF ok] C .
  then obtain c where "pending_levels t x = Some c" by blast
  moreover from this have "c = fixed ml S (level ml t) x" unfolding C [symmetric] by (simp add: cstar_def)
  ultimately have "queued x (min (level ml t x) (fixed ml S (level ml t) x)) (propagation_queue t)"
    using tracker_okD [OF ok, of x] by (simp add: pending_ok_def)
  moreover have "queue_wf (propagation_queue t)" using ok by (simp add: tracker_ok_def queue_ok_def)
  from queue_pop_Some(9) [OF this pop] have "queued p' l' (propagation_queue t) \<Longrightarrow> l \<le> l'" for p' l' .
  ultimately show "l \<le> min (level ml t x) (fixed ml S (level ml t) x)" by blast
qed


definition loop_measures :: "nat \<Rightarrow> (ChunkPos \<Rightarrow> nat) \<Rightarrow> (ChunkTracker \<Rightarrow> nat) list" where
  "loop_measures ml S =
     [\<lambda>t. ABSENT_LEVEL ml + 1 - first_queued_level (propagation_queue t),
      \<lambda>t. card (unsettled ml S (level ml t) (first_queued_level (propagation_queue t))),
      \<lambda>t. length (buckets (propagation_queue t) ! first_queued_level (propagation_queue t))]"

lemma pop_progress:
  assumes ok: "tracker_ok ml t" and pop: "queue_pop (propagation_queue t) = (Some (p, l), q)"
    and first: "first_queued_level (propagation_queue t') \<ge> l"
    and le: "unsettled ml S (level ml t') l \<subset> unsettled ml S (level ml t) l \<or>
      (level ml t' = level ml t \<and> propagation_queue t' = q)"
    and bound: "first_queued_level (propagation_queue t') \<le> ABSENT_LEVEL ml + 1"
  shows "(t', t) \<in> measures (loop_measures ml S)"
proof -
  have wf: "queue_wf (propagation_queue t)" and len: "length (buckets (propagation_queue t)) = ABSENT_LEVEL ml + 1"
    using ok by (simp_all add: tracker_ok_def queue_ok_def)
  note q = queue_pop_Some(3,5,6,7) [OF wf pop, unfolded len]
  show ?thesis
  proof (cases "first_queued_level (propagation_queue t) < first_queued_level (propagation_queue t')")
    case True
    then have "ABSENT_LEVEL ml + 1 - first_queued_level (propagation_queue t') <
        ABSENT_LEVEL ml + 1 - first_queued_level (propagation_queue t)" using bound by linarith
    then show ?thesis unfolding loop_measures_def in_measures by blast
  next
    case False
    with first q(3) have f: "first_queued_level (propagation_queue t) = l" "first_queued_level (propagation_queue t') = l"
      by simp_all
    from le show ?thesis
    proof
      assume "unsettled ml S (level ml t') l \<subset> unsettled ml S (level ml t) l"
      then have "card (unsettled ml S (level ml t') l) < card (unsettled ml S (level ml t) l)"
        by (rule psubset_card_mono [OF finite_ChunkPos])
      with f show ?thesis unfolding loop_measures_def in_measures by metis
    next
      assume "level ml t' = level ml t \<and> propagation_queue t' = q"
      with f q(4) show ?thesis unfolding loop_measures_def in_measures by metis
    qed
  qed
qed

lemma propagate_stop:
  assumes inv: "loop_inv ml S t" and pop: "queue_pop (propagation_queue t) = (None, q)"
  shows "propagate ml (t, original) = Some (t\<lparr>propagation_queue := q\<rparr>, original)"
    and "loop_inv ml S (t\<lparr>propagation_queue := q\<rparr>)" and "pending_levels t = Map.empty"
    and "\<not> queued p l q"
proof -
  have ok: "tracker_ok ml t" using inv by (simp add: loop_inv_def)
  have "queue_wf (propagation_queue t)" using ok by (simp add: tracker_ok_def queue_ok_def)
  note q = queue_pop_None(3,4,1,2) [OF this pop]
  show "propagate ml (t, original) = Some (t\<lparr>propagation_queue := q\<rparr>, original)"
    by (subst propagate.simps) (simp add: pop)
  have none: "pending_levels t x = None" for x
    using tracker_okD [OF ok, of x] q(3) by (cases "pending_levels t x") (simp_all add: pending_ok_def)
  then show "pending_levels t = Map.empty" by (rule ext)
  have "cstar ml (t\<lparr>propagation_queue := q\<rparr>) = cstar ml t" by (rule ext) (simp add: cstar_def none)
  moreover have "tracker_ok ml (t\<lparr>propagation_queue := q\<rparr>)"
    using ok q(1,2) none by (simp add: tracker_ok_def queue_ok_def pending_ok_def)
  ultimately show "loop_inv ml S (t\<lparr>propagation_queue := q\<rparr>)" using inv by (simp add: loop_inv_def)
  show "\<not> queued p l q" by (rule q(4))
qed


lemma tracker_ok_first: "tracker_ok ml t \<Longrightarrow> first_queued_level (propagation_queue t) \<le> ABSENT_LEVEL ml + 1"
  by (simp add: tracker_ok_def queue_ok_def queue_wf_def)

lemma propagate_turn:
  assumes inv: "loop_inv ml S t" and orig: "original_ok lv t original"
    and pop: "queue_pop (propagation_queue t) = (Some (p, l), q)"
  shows "\<exists>t' original'. propagate ml (t, original) = propagate ml (t', original') \<and> loop_inv ml S t' \<and>
    original_ok lv t' original' \<and> same_sources t t' \<and> (t', t) \<in> measures (loop_measures ml S)"
proof -
  have ok: "tracker_ok ml t" and S: "S = source_level ml t" and C: "cstar ml t = fixed ml S (level ml t)"
    using inv by (simp_all add: loop_inv_def)
  have "queue_wf (propagation_queue t)" using ok by (simp add: tracker_ok_def queue_ok_def)
  note fq = queue_pop_Some(3) [OF this pop]
  show ?thesis
  proof (cases "pending_levels t p \<noteq> None \<and> min (level ml t p) (the (pending_levels t p)) = l")
    case False
    let ?t = "t\<lparr>propagation_queue := q\<rparr>"
    have ok': "tracker_ok ml ?t"
      using popped_ok [OF ok pop, of "pending_levels t"] False by auto
    have "propagate ml (t, original) = propagate ml (?t, original)"
      by (subst propagate.simps) (use False pop in \<open>auto split: option.split\<close>)
    moreover have "cstar ml ?t = cstar ml t" by (intro ext) (simp add: cstar_def split: option.split)
    with ok' have "loop_inv ml S ?t" using S C by (simp add: loop_inv_def)
    moreover have "original_ok lv ?t original" by (rule original_ok_cong [OF _ orig]) simp
    moreover have "(?t, t) \<in> measures (loop_measures ml S)"
      by (rule pop_progress [OF ok pop]) (use fq tracker_ok_first [OF ok'] in simp_all)
    ultimately show ?thesis by (intro exI [of _ ?t] exI [of _ original]) (simp add: same_sources_def)
  next
    case True
    let ?t = "t\<lparr>propagation_queue := q, pending_levels := (pending_levels t)(p := None)\<rparr>"
    from True obtain c where c: "pending_levels t p = Some c" "min (level ml t p) c = l" by auto
    have cf: "c = fixed ml S (level ml t) p" unfolding C [symmetric] using c(1) by (simp add: cstar_def)
    have ne: "c \<noteq> level ml t p" using tracker_okD [OF ok, of p] c(1) by (simp add: pending_ok_def)
    have uns: "p \<in> unsettled ml S (level ml t) l" using ne c(2) cf by (simp add: unsettled_def)
    note fl = popped_floor [OF inv pop]
    have ok': "tracker_ok ml ?t" by (rule popped_ok [OF ok pop]) simp_all
    have Cn: "cstar ml ?t n = fixed ml S (level ml t) n" if "n \<noteq> p" for n
      unfolding C [symmetric] using that by (simp add: cstar_def split: option.split)
    have "l \<le> first_queued_level (propagation_queue ?t)" using fq by simp
    from apply_pending_level_step [OF ok' this _ _ _ Cn fl uns, of original] S obtain t' where
      t': "apply_pending_level ml p c (?t, original) = Some (t', record_original p ?t original)"
        "tracker_ok ml t'" "same_sources ?t t'" "level ml t' = relax ml S (level ml t) p"
        "\<And>q. q \<noteq> p \<Longrightarrow> levels t' q = levels ?t q" "cstar ml t' = fixed ml S (level ml t')"
        "l \<le> first_queued_level (propagation_queue t')"
      unfolding cf by auto
    have "propagate ml (t, original) = propagate ml (t', record_original p ?t original)"
      by (subst propagate.simps) (use c pop t'(1) in simp)
    moreover have ss: "same_sources t t'" using t'(3) by (simp add: same_sources_def)
    then have "loop_inv ml S t'" using t'(2,6) S same_sources_level [OF ss] by (simp add: loop_inv_def)
    moreover have "original_ok lv ?t original" by (rule original_ok_cong [OF _ orig]) simp
    then have "original_ok lv t' (record_original p ?t original)" by (rule original_ok_record) (rule t'(5))
    moreover have "unsettled ml S (level ml t') l \<subset> unsettled ml S (level ml t) l"
      using relax_progress [OF fl uns] unfolding t'(4) by blast
    then have "(t', t) \<in> measures (loop_measures ml S)"
      by (intro pop_progress [OF ok pop t'(7) _ tracker_ok_first [OF t'(2)]]) blast
    ultimately show ?thesis using ss by blast
  qed
qed

lemma propagate_ok:
  assumes "loop_inv ml S t" "original_ok lv t original"
  shows "\<exists>t' original'. propagate ml (t, original) = Some (t', original') \<and> loop_inv ml S t' \<and>
    original_ok lv t' original' \<and> same_sources t t' \<and> pending_levels t' = Map.empty \<and>
    (\<forall>p l. \<not> queued p l (propagation_queue t'))"
  using assms
proof (induction t arbitrary: original rule: wf_induct_rule [OF wf_measures [of "loop_measures ml S"]])
  case (1 t)
  obtain r q where pop: "queue_pop (propagation_queue t) = (r, q)" by fastforce
  show ?case
  proof (cases r)
    case None
    note stop = propagate_stop [OF "1.prems"(1) pop [unfolded None]]
    have "original_ok lv (t\<lparr>propagation_queue := q\<rparr>) original"
      by (rule original_ok_cong [OF _ "1.prems"(2)]) simp
    with stop show ?thesis
      by (intro exI [of _ "t\<lparr>propagation_queue := q\<rparr>"] exI [of _ original]) (simp add: same_sources_def)
  next
    case (Some pl)
    obtain p l where "pl = (p, l)" by fastforce
    with pop Some have "queue_pop (propagation_queue t) = (Some (p, l), q)" by simp
    from propagate_turn [OF "1.prems" this] obtain t' original' where
      t': "propagate ml (t, original) = propagate ml (t', original')" "loop_inv ml S t'" "original_ok lv t' original'"
        "same_sources t t'" "(t', t) \<in> measures (loop_measures ml S)" by blast
    from "1.IH" [OF t'(5,2,3)] obtain t'' original'' where
      ih: "propagate ml (t', original') = Some (t'', original'')" "loop_inv ml S t''" "original_ok lv t'' original''"
        "same_sources t' t''" "pending_levels t'' = Map.empty" "\<forall>p l. \<not> queued p l (propagation_queue t'')" by blast
    have "same_sources t t''" using t'(4) ih(4) by (rule same_sources_trans)
    moreover have "propagate ml (t, original) = Some (t'', original'')" unfolding t'(1) by (rule ih(1))
    ultimately show ?thesis using ih by blast
  qed
qed


section \<open>Changed sources\<close>

lemma fixed_source_lower:
  assumes "S p \<le> o'" shows "fixed ml S L p = min (fixed ml (S(p := o')) L p) (S p)"
proof (rule eq_by_le)
  fix x show "x \<le> fixed ml S L p \<longleftrightarrow> x \<le> min (fixed ml (S(p := o')) L p) (S p)"
    unfolding min.bounded_iff le_fixed using assms by auto
qed

lemma check_sources_repends:
  assumes "tracker_ok ml t" and "S = source_level ml t" and "L = level ml t" and "distinct (map fst es)"
    and "\<And>p o'. (p, o') \<in> set es \<Longrightarrow> cstar ml t p = fixed ml (S(p := o')) L p"
  shows "repends ml 0 t (\<lambda>q. if q \<in> fst ` set es then fixed ml S L q else cstar ml t q) (check_sources ml es t)"
  using assms
proof (induction es arbitrary: t)
  case Nil
  then show ?case by (simp add: repends_def)
next
  case (Cons e es)
  obtain p o' where e: "e = (p, o')" by fastforce
  let ?new = "source_level ml t p"
  have C: "cstar ml t p = fixed ml (S(p := o')) L p" by (rule Cons.prems(5)) (simp add: e)
  have "fixed ml S L p = (if ?new < o' then min (cstar ml t p) ?new else compute_level ml p None ?new t)"
    using fixed_source_lower [of S p o' ml L] C Cons.prems(2,3) recompute_source [OF Cons.prems(1)] by simp
  from check_edge_repends [OF Cons.prems(1) _ this] obtain t1 where
    t1: "check_edge ml None p ?new (?new < o') t = Some t1" "tracker_ok ml t1" "same_base t t1"
      "cstar ml t1 = (cstar ml t)(p := fixed ml S L p)"
    unfolding repends_def by auto
  have "repends ml 0 t1 (\<lambda>q. if q \<in> fst ` set es then fixed ml S L q else cstar ml t1 q) (check_sources ml es t1)"
  proof (rule Cons.IH [OF t1(2)])
    show "S = source_level ml t1" "L = level ml t1" using t1(3) Cons.prems(2,3) by simp_all
    show "distinct (map fst es)" using Cons.prems(4) by simp
    show "cstar ml t1 q = fixed ml (S(q := o'')) L q" if "(q, o'') \<in> set es" for q o''
    proof -
      have "q \<noteq> p" using that Cons.prems(4) e by force
      moreover have "cstar ml t q = fixed ml (S(q := o'')) L q" by (rule Cons.prems(5)) (simp add: that)
      ultimately show ?thesis by (simp add: t1(4))
    qed
  qed
  moreover have "(\<lambda>q. if q \<in> fst ` set es then fixed ml S L q else cstar ml t1 q) =
      (\<lambda>q. if q \<in> fst ` set (e # es) then fixed ml S L q else cstar ml t q)"
    unfolding t1(4) using e by auto
  moreover have "check_sources ml (e # es) t = check_sources ml es t1" using t1(1) e by (simp add: Let_def)
  ultimately show ?case using same_base_trans [OF t1(3)] unfolding repends_def by fastforce
qed

definition old_source :: "nat \<Rightarrow> ChunkTracker \<Rightarrow> ChunkPos \<Rightarrow> nat" where
  "old_source ml t p =
     (case map_of (pending_source_levels t) p of Some l \<Rightarrow> l | None \<Rightarrow> source_level ml t p)"

text \<open>Between passes nothing is pending and the levels solve the equation for the sources of the
  last pass; the sources changed since are recorded with their old level.\<close>

definition tracker_inv :: "nat \<Rightarrow> ChunkTracker \<Rightarrow> bool" where
  "tracker_inv ml t \<longleftrightarrow>
     bounds_ok ml t \<and> queue_ok ml (propagation_queue t) \<and> pending_levels t = Map.empty \<and>
     (\<forall>p l. \<not> queued p l (propagation_queue t)) \<and> distinct (map fst (pending_source_levels t)) \<and>
     level ml t = fixed ml (old_source ml t) (level ml t)"

lemma tracker_inv_ok: "tracker_inv ml t \<Longrightarrow> tracker_ok ml t"
  by (simp add: tracker_inv_def tracker_ok_def pending_ok_def)

lemma tracker_inv_cstar: "tracker_inv ml t \<Longrightarrow> cstar ml t = level ml t"
  by (rule ext) (simp add: tracker_inv_def cstar_def)

lemma fixed_cong_source: "S p = S' p \<Longrightarrow> fixed ml S L p = fixed ml S' L p"
  by (simp add: fixed_def)

end
