(* ===== verification/Chunk_Distance.thy ===== *)
theory Chunk_Distance
  imports Chunk_Tracker
begin

text \<open>
  The Chebyshev distance between chunk positions, on the torus of 32-bit chunk coordinates on which
  \<open>ChunkPos.neighbors\<close> steps (its additions wrap).  A neighbour is one step away, and every chunk other
  than the target has a neighbour one step closer.
\<close>


section \<open>Chebyshev distance\<close>

definition wabs :: "i32 \<Rightarrow> nat" where
  "wabs d = min (unat d) (unat (- d))"

definition chebyshev :: "ChunkPos \<Rightarrow> ChunkPos \<Rightarrow> nat" where
  "chebyshev p q = max (wabs (chunk_x q - chunk_x p)) (wabs (chunk_z q - chunk_z p))"

lemma wabs_minus [simp]: "wabs (- d) = wabs d"
  by (simp add: wabs_def min.commute)

lemma wabs_0_iff [simp]: "wabs d = 0 \<longleftrightarrow> d = 0"
  by (auto simp: wabs_def min_def unat_eq_0 split: if_splits)

lemma unat_succ_le: "unat (d + 1 :: i32) \<le> unat d + 1"
  by (simp add: unat_word_ariths)

lemma wabs_succ: "wabs (d + 1) \<le> wabs d + 1"
proof (cases "unat d \<le> unat (- d)")
  case True
  then show ?thesis using unat_succ_le [of d] by (simp add: wabs_def)
next
  case False
  then have "- d \<noteq> 0" by auto
  then have "unat (- d - 1) = unat (- d) - 1" by (rule unat_minus_one)
  then have "unat (- (d + 1)) \<le> unat (- d)" by simp
  with False show ?thesis by (simp add: wabs_def)
qed

lemma wabs_pred: "wabs (d - 1) \<le> wabs d + 1"
  using wabs_succ [of "- d"] wabs_minus [of "d - 1"] by simp

lemma wabs_step: "e \<in> {-1, 0, 1} \<Longrightarrow> wabs (d + e) \<le> wabs d + 1"
  using wabs_succ [of d] wabs_pred [of d] by auto

definition step_to :: "i32 \<Rightarrow> i32" where
  "step_to d = (if d = 0 then 0 else if unat d \<le> unat (- d) then 1 else -1)"

lemma step_to_range: "step_to d \<in> {-1, 0, 1}"
  by (simp add: step_to_def)

lemma wabs_step_to: "wabs (d - step_to d) = wabs d - 1"
proof -
  have "wabs (d - step_to d) \<le> wabs d - 1"
  proof (cases "d = 0")
    case False
    have u: "unat (d - 1) = unat d - 1" "unat (- d - 1) = unat (- d) - 1"
      using False by (simp_all add: unat_minus_one)
    then show ?thesis using False
      by (cases "unat d \<le> unat (- d)") (simp_all add: step_to_def wabs_def)
  qed (simp add: step_to_def wabs_def)
  moreover have "wabs d \<le> wabs (d - step_to d) + 1"
    using wabs_step [OF step_to_range, of "d - step_to d" d] by simp
  ultimately show ?thesis by linarith
qed

lemma offset_mem: "dx \<in> {-1, 0, 1} \<Longrightarrow> dz \<in> {-1, 0, 1} \<Longrightarrow> (dx, dz) \<noteq> (0, 0) \<Longrightarrow> (dx, dz) \<in> set chunk_offsets"
  by (auto simp: chunk_offsets_def)

lemma offset_range: "(dx, dz) \<in> set chunk_offsets \<Longrightarrow> dx \<in> {-1, 0, 1} \<and> dz \<in> {-1, 0, 1}"
  by (auto simp: chunk_offsets_def)

lemma chebyshev_0_iff: "chebyshev p q = 0 \<longleftrightarrow> p = q"
  by (cases p; cases q) (auto simp: chebyshev_def)

lemma chebyshev_neighbor: "n \<in> set (neighbors p) \<Longrightarrow> chebyshev p q \<le> chebyshev n q + 1"
proof -
  assume "n \<in> set (neighbors p)"
  then obtain dx dz where d: "(dx, dz) \<in> set chunk_offsets" "n = ChunkPos (chunk_x p + dx) (chunk_z p + dz)"
    by (auto simp: neighbors_def)
  have "wabs (chunk_x q - chunk_x p) \<le> wabs (chunk_x q - chunk_x n) + 1"
    using wabs_step [of dx "chunk_x q - chunk_x n"] offset_range [OF d(1)] d(2) by simp
  moreover have "wabs (chunk_z q - chunk_z p) \<le> wabs (chunk_z q - chunk_z n) + 1"
    using wabs_step [of dz "chunk_z q - chunk_z n"] offset_range [OF d(1)] d(2) by simp
  ultimately show ?thesis unfolding chebyshev_def by linarith
qed

lemma chebyshev_closer:
  assumes "p \<noteq> q" shows "\<exists>n \<in> set (neighbors p). chebyshev p q = Suc (chebyshev n q)"
proof -
  let ?dx = "chunk_x q - chunk_x p" and ?dz = "chunk_z q - chunk_z p"
  let ?n = "ChunkPos (chunk_x p + step_to ?dx) (chunk_z p + step_to ?dz)"
  have "?dx \<noteq> 0 \<or> ?dz \<noteq> 0" using assms by (cases p; cases q) auto
  then have "(step_to ?dx, step_to ?dz) \<noteq> (0, 0)" by (auto simp: step_to_def)
  then have "(step_to ?dx, step_to ?dz) \<in> set chunk_offsets" by (intro offset_mem step_to_range)
  then have mem: "?n \<in> set (neighbors p)" unfolding neighbors_def by force
  have "chunk_x q - chunk_x ?n = ?dx - step_to ?dx" "chunk_z q - chunk_z ?n = ?dz - step_to ?dz" by simp_all
  then have "chebyshev ?n q = max (wabs ?dx - 1) (wabs ?dz - 1)" unfolding chebyshev_def by (simp only: wabs_step_to)
  moreover have "chebyshev p q \<noteq> 0" using assms by (simp add: chebyshev_0_iff)
  ultimately have "chebyshev p q = Suc (chebyshev ?n q)" unfolding chebyshev_def by linarith
  with mem show ?thesis by blast
qed

end
