(* ===== verification/Chunk_Pass.thy ===== *)
theory Chunk_Pass
  imports Chunk_Propagation Chunk_Distance
begin

text \<open>
  The chunk tracker as its clients see it: source updates between passes, whole passes
  (\<open>run_all_updates\<close>), the reported changes, and the reachable trackers.

  After a pass the level of every chunk is the least source level plus Chebyshev distance, however the
  sources were changed before; the reported changes are the exact difference to the levels of
  the pass before; no assertion fails and the propagation loop ends.
\<close>


section \<open>Operations between passes\<close>

lemma queue_new_ok: "queue_ok ml (queue_new (ABSENT_LEVEL ml + 1))" "\<not> queued p l (queue_new n)"
  by (auto simp: queue_ok_def queue_wf_def queued_def queue_new_def simp del: replicate_Suc)

lemma fixed_absent: "fixed ml (\<lambda>_. ABSENT_LEVEL ml) (\<lambda>_. ABSENT_LEVEL ml) = (\<lambda>_. ABSENT_LEVEL ml)"
proof (intro ext eq_by_le)
  fix p x show "x \<le> fixed ml (\<lambda>_. ABSENT_LEVEL ml) (\<lambda>_. ABSENT_LEVEL ml) p \<longleftrightarrow> x \<le> ABSENT_LEVEL ml"
    unfolding le_fixed by auto
qed

lemma tracker_new_inv: "tracker_new ml = Some t \<Longrightarrow> tracker_inv ml t \<and> source_levels t = Map.empty"
proof -
  assume n: "tracker_new ml = Some t"
  have L: "level ml t = (\<lambda>_. ABSENT_LEVEL ml)" "old_source ml t = (\<lambda>_. ABSENT_LEVEL ml)"
    using n by (auto simp: tracker_new_def level_def old_source_def source_level_def split: if_splits)
  have "level ml t = fixed ml (old_source ml t) (level ml t)" unfolding L by (rule fixed_absent [symmetric])
  then show ?thesis using n queue_new_ok
    by (auto simp: tracker_new_def tracker_inv_def bounds_ok_def simp del: One_nat_def split: if_splits)
qed

lemma map_of_filter_fst: "map_of (filter (\<lambda>e. fst e \<noteq> p) xs) = (map_of xs)(p := None)"
  by (induction xs) auto

lemma tracker_inv_sources:
  assumes inv: "tracker_inv ml t" and b: "bounds_ok ml t'" and o: "old_source ml t' = old_source ml t"
    and d: "distinct (map fst (pending_source_levels t'))" and l: "levels t' = levels t"
    and p: "pending_levels t' = pending_levels t" "propagation_queue t' = propagation_queue t"
  shows "tracker_inv ml t'"
proof -
  have "level ml t' = level ml t" by (rule ext) (simp add: level_def l)
  with inv b o d p show ?thesis unfolding tracker_inv_def by simp
qed

text \<open>The source a request sets.\<close>

definition set_source :: "SourceLevelUpdate \<Rightarrow> (ChunkPos \<rightharpoonup> nat) \<Rightarrow> ChunkPos \<rightharpoonup> nat" where
  "set_source u m = m(update_pos u := update_level u)"

lemma source_level_eq_absent: "bounds_ok ml t \<Longrightarrow> source_level ml t p = ABSENT_LEVEL ml \<longleftrightarrow> source_levels t p = None"
proof (cases "source_levels t p")
  case (Some l)
  assume "bounds_ok ml t"
  with Some have "l \<le> ml" by (simp add: bounds_ok_def)
  with Some show ?thesis by (simp add: source_level_def ABSENT_LEVEL_def)
qed (simp add: source_level_def)

lemma apply_source_update_inv:
  assumes inv: "tracker_inv ml t" and u: "\<And>l. update_level u = Some l \<Longrightarrow> l \<le> ml"
  shows "\<exists>t'. apply_source_update ml u t = Some t' \<and> tracker_inv ml t' \<and>
    source_levels t' = set_source u (source_levels t) \<and> levels t' = levels t \<and> changes t' = changes t"
proof -
  let ?p = "update_pos u" and ?new = "case update_level u of None \<Rightarrow> ABSENT_LEVEL ml | Some l \<Rightarrow> l"
  let ?old = "source_level ml t ?p"
  have b: "bounds_ok ml t" and dist: "distinct (map fst (pending_source_levels t))" using inv by (simp_all add: tracker_inv_def)
  have g: "case update_level u of None \<Rightarrow> True | Some l \<Rightarrow> l \<le> ml" using u by (simp split: option.split)
  have newa: "?new = ABSENT_LEVEL ml \<longleftrightarrow> update_level u = None" using u by (auto simp: ABSENT_LEVEL_def split: option.split)
  show ?thesis
  proof (cases "?old = ?new")
    case True
    have "source_levels t ?p = update_level u"
      using True newa source_level_eq_absent [OF b, of ?p] by (auto simp: source_level_def split: option.splits)
    then have "set_source u (source_levels t) = source_levels t" by (auto simp: set_source_def)
    moreover have "apply_source_update ml u t = Some t"
      unfolding apply_source_update_def Let_def if_P [OF g] if_P [OF True] by (rule refl)
    ultimately show ?thesis using inv by simp
  next
    case False
    define o' where "o' = old_source ml t ?p"
    define psl where "psl = (case map_of (pending_source_levels t) ?p of Some _ \<Rightarrow> pending_source_levels t
        | None \<Rightarrow> pending_source_levels t @ [(?p, ?old)])"
    define psl' where "psl' = (if o' = ?new then filter (\<lambda>e. fst e \<noteq> ?p) psl else psl)"
    define t' where "t' = t\<lparr>source_levels := set_source u (source_levels t), pending_source_levels := psl'\<rparr>"
    have sl: "(if ?new = ABSENT_LEVEL ml then (source_levels t)(?p := None) else (source_levels t)(?p \<mapsto> ?new)) =
        set_source u (source_levels t)"
      unfolding newa set_source_def by (cases "update_level u") simp_all
    have "apply_source_update ml u t = Some t'"
      unfolding apply_source_update_def Let_def if_P [OF g] if_not_P [OF False] sl t'_def psl'_def psl_def o'_def old_source_def
      by (simp split: option.split)
    moreover have "tracker_inv ml t'"
    proof (rule tracker_inv_sources [OF inv])
      show "bounds_ok ml t'" using b u by (auto simp: bounds_ok_def t'_def set_source_def)
      have d: "distinct (map fst psl)" using dist
        by (auto simp: psl_def map_of_eq_None_iff split: option.split)
      then show "distinct (map fst (pending_source_levels t'))"
        by (simp add: t'_def psl'_def distinct_map_filter)
      have psl: "map_of psl = (map_of (pending_source_levels t))(?p \<mapsto> o')"
        unfolding psl_def o'_def old_source_def by (rule ext) (auto simp: map_add_def split: option.split)
      have src: "source_level ml t' = (source_level ml t)(?p := ?new)"
        by (rule ext) (simp add: source_level_def t'_def set_source_def)
      have "map_of (pending_source_levels t') =
          (map_of (pending_source_levels t))(?p := if o' = ?new then None else Some o')"
        by (simp add: t'_def psl'_def map_of_filter_fst psl)
      then have "old_source ml t' = (old_source ml t)(?p := o')"
        by (intro ext) (simp add: old_source_def src split: option.split)
      then show "old_source ml t' = old_source ml t" by (simp add: o'_def)
    qed (simp_all add: t'_def)
    ultimately show ?thesis by (simp add: t'_def)
  qed
qed

section \<open>A whole pass\<close>

definition changes_ok :: "(ChunkPos \<rightharpoonup> nat) \<Rightarrow> (ChunkPos \<rightharpoonup> nat) \<Rightarrow> ChunkLevelChange list \<Rightarrow> bool" where
  "changes_ok lv lv' cs \<longleftrightarrow>
     distinct (map change_pos cs) \<and> sorted (map change_key cs) \<and>
     (\<forall>c. c \<in> set cs \<longleftrightarrow> lv (change_pos c) \<noteq> lv' (change_pos c) \<and> new_level c = lv' (change_pos c))"

lemma changes_ok_refl: "changes_ok lv lv []"
  by (simp add: changes_ok_def)

lemma collect_changes_ok:
  assumes "original_ok lv t original"
  shows "changes_ok lv (levels t) (collect_changes (levels t) original)"
proof -
  let ?f = "filter (\<lambda>(pos, old). old \<noteq> levels t pos) original"
  let ?g = "\<lambda>(pos, _). \<lparr>change_pos = pos, new_level = levels t pos\<rparr>"
  have d: "distinct (map fst original)" and o: "\<And>p. case map_of original p of Some old \<Rightarrow> old = lv p | None \<Rightarrow> levels t p = lv p"
    using assms by (simp_all add: original_ok_def)
  have "map change_pos (map ?g ?f) = map fst ?f" by (simp add: case_prod_unfold)
  then have "distinct (map change_pos (map ?g ?f))" using distinct_map_filter [OF d] by (simp only:)
  then have "distinct (map change_pos (collect_changes (levels t) original))"
    unfolding collect_changes_def distinct_map set_sort distinct_sort .
  moreover have "sorted (map change_key (collect_changes (levels t) original))"
    unfolding collect_changes_def by simp
  moreover have "c \<in> set (collect_changes (levels t) original) \<longleftrightarrow>
      lv (change_pos c) \<noteq> levels t (change_pos c) \<and> new_level c = levels t (change_pos c)" for c
  proof -
    have o1: "old = lv p" if "(p, old) \<in> set original" for p old
      using o [of p] map_of_is_SomeI [OF d that] by simp
    have o2: "(p, lv p) \<in> set original" if "lv p \<noteq> levels t p" for p
      using o [of p] that by (cases "map_of original p") (auto dest: map_of_SomeD)
    have "c \<in> set (collect_changes (levels t) original) \<longleftrightarrow>
        (\<exists>p old. (p, old) \<in> set original \<and> old \<noteq> levels t p \<and> c = \<lparr>change_pos = p, new_level = levels t p\<rparr>)"
      unfolding collect_changes_def by auto
    also have "\<dots> \<longleftrightarrow> (\<exists>p. lv p \<noteq> levels t p \<and> c = \<lparr>change_pos = p, new_level = levels t p\<rparr>)"
      using o1 o2 by metis
    also have "\<dots> \<longleftrightarrow> lv (change_pos c) \<noteq> levels t (change_pos c) \<and> new_level c = levels t (change_pos c)"
      by (cases c) auto
    finally show ?thesis .
  qed
  ultimately show ?thesis unfolding changes_ok_def by blast
qed

lemma check_sources_start:
  assumes inv: "tracker_inv ml t"
  shows "\<exists>t1. check_sources ml (pending_source_levels t) (t\<lparr>changes := [], pending_source_levels := []\<rparr>) = Some t1 \<and>
    loop_inv ml (source_level ml t) t1 \<and> levels t1 = levels t \<and> source_levels t1 = source_levels t \<and>
    pending_source_levels t1 = []"
proof -
  let ?t = "t\<lparr>changes := [], pending_source_levels := []\<rparr>" and ?S = "source_level ml t" and ?L = "level ml t"
  let ?es = "pending_source_levels t"
  have S: "?S = source_level ml ?t" and L: "?L = level ml ?t" by (auto simp: source_level_def level_def)
  have C: "cstar ml ?t = ?L" using tracker_inv_cstar [OF inv] by (simp add: cstar_def fun_eq_iff L [symmetric] cong: option.case_cong)
  have eqn: "?L = fixed ml (old_source ml t) ?L" and d: "distinct (map fst ?es)"
    using inv by (simp_all add: tracker_inv_def)
  have ok: "tracker_ok ml ?t" using tracker_inv_ok [OF inv] by (simp add: tracker_ok_def pending_ok_def flip: L cong: option.case_cong)
  have e: "cstar ml ?t p = fixed ml (?S(p := o')) ?L p" if "(p, o') \<in> set ?es" for p o'
  proof -
    have "old_source ml t p = o'" using that d by (simp add: old_source_def)
    then have "fixed ml (old_source ml t) ?L p = fixed ml (?S(p := o')) ?L p"
      by (intro fixed_cong_source) simp
    then show ?thesis unfolding C using fun_cong [OF eqn, of p] by simp
  qed
  have "cstar ml ?t q = fixed ml ?S ?L q" if "q \<notin> fst ` set ?es" for q
  proof -
    have "map_of ?es q = None" using that by (simp add: map_of_eq_None_iff)
    then have "old_source ml t q = ?S q" by (simp add: old_source_def)
    then show ?thesis unfolding C using fun_cong [OF eqn, of q] fixed_cong_source [of "old_source ml t" q ?S ml ?L] by simp
  qed
  then have "(\<lambda>q. if q \<in> fst ` set ?es then fixed ml ?S ?L q else cstar ml ?t q) = fixed ml ?S ?L" by auto
  with check_sources_repends [OF ok S L d e] have "repends ml 0 ?t (fixed ml ?S ?L) (check_sources ml ?es ?t)"
    by (simp only:)
  then obtain t1 where
    t1: "check_sources ml ?es ?t = Some t1" "tracker_ok ml t1" "same_base ?t t1" "cstar ml t1 = fixed ml ?S ?L"
    unfolding repends_def by blast
  have base: "levels t1 = levels t" "source_levels t1 = source_levels t" "pending_source_levels t1 = []"
    using t1(3) by (simp_all add: same_base_def)
  have "source_level ml t1 = ?S" by (rule ext) (simp add: source_level_def base)
  moreover have "level ml t1 = ?L" by (rule ext) (simp add: level_def base)
  ultimately have "loop_inv ml ?S t1" unfolding loop_inv_def using t1(2,4) by (simp only: simp_thms)
  then show ?thesis using t1(1) base by blast
qed

lemma run_all_updates_ok:
  assumes inv: "tracker_inv ml t"
  shows "\<exists>t'. run_all_updates ml t = Some t' \<and> tracker_inv ml t' \<and> pending_source_levels t' = [] \<and>
    source_levels t' = source_levels t \<and> level ml t' = fixed ml (source_level ml t) (level ml t') \<and>
    changes_ok (levels t) (levels t') (changes t')"
proof (cases "pending_source_levels t = []")
  case True
  let ?t = "t\<lparr>changes := []\<rparr>"
  have "tracker_inv ml ?t" using inv by (intro tracker_inv_sources [OF inv]) (auto simp: tracker_inv_def old_source_def source_level_def fun_eq_iff split: option.split)
  moreover have "old_source ml t = source_level ml t" by (rule ext) (simp add: old_source_def True)
  then have "level ml ?t = fixed ml (source_level ml t) (level ml ?t)" using inv by (simp add: tracker_inv_def)
  ultimately show ?thesis using True changes_ok_refl by (simp add: run_all_updates_def)
next
  case False
  from check_sources_start [OF inv] obtain t1 where
    t1: "check_sources ml (pending_source_levels t) (t\<lparr>changes := [], pending_source_levels := []\<rparr>) = Some t1"
      "loop_inv ml (source_level ml t) t1" "levels t1 = levels t" "source_levels t1 = source_levels t"
      "pending_source_levels t1 = []" by blast
  have "original_ok (levels t) t1 []" by (simp add: original_ok_def t1(3))
  from propagate_ok [OF t1(2) this] obtain t2 original where
    t2: "propagate ml (t1, []) = Some (t2, original)" "loop_inv ml (source_level ml t) t2" "original_ok (levels t) t2 original"
      "same_sources t1 t2" "pending_levels t2 = Map.empty" "\<forall>p l. \<not> queued p l (propagation_queue t2)" by blast
  let ?t = "t2\<lparr>changes := collect_changes (levels t2) original\<rparr>"
  have psl: "pending_source_levels ?t = []" and sl: "source_levels ?t = source_levels t"
    using t2(4) t1(4,5) by (simp_all add: same_sources_def)
  have "cstar ml t2 = level ml t2" by (rule ext) (simp add: cstar_def t2(5))
  moreover have "cstar ml t2 = fixed ml (source_level ml t) (level ml t2)" using t2(2) unfolding loop_inv_def by blast
  moreover have "level ml ?t = level ml t2" by simp
  ultimately have eqn: "level ml ?t = fixed ml (source_level ml t) (level ml ?t)" by (simp only:)
  have "old_source ml ?t = source_level ml t"
    using psl sl by (auto simp: old_source_def source_level_def)
  then have "tracker_inv ml ?t" using t2(2,5,6) eqn psl by (simp add: tracker_inv_def loop_inv_def tracker_ok_def)
  moreover have "run_all_updates ml t = Some ?t" using False t1(1) t2(1) by (simp add: run_all_updates_def)
  moreover have "changes_ok (levels t) (levels ?t) (changes ?t)" using collect_changes_ok [OF t2(3)] by simp
  ultimately show ?thesis using psl sl eqn by blast
qed

section \<open>The solution is the distance to the nearest source\<close>

lemma fixed_upper:
  assumes "L = fixed ml S L" shows "L p \<le> S q + chebyshev p q"
proof (induction "chebyshev p q" arbitrary: p)
  case 0
  have "L p \<le> S p" using le_fixed [of "L p" ml S L p] fun_cong [OF assms, of p] by simp
  then show ?case using 0 by (simp add: chebyshev_0_iff)
next
  case (Suc n)
  then have "chebyshev p q \<noteq> 0" by simp
  then have "p \<noteq> q" by (simp add: chebyshev_0_iff)
  from chebyshev_closer [OF this] obtain m where m: "m \<in> set (neighbors p)" "chebyshev p q = Suc (chebyshev m q)" by blast
  have "L p \<le> L m + 1" using le_fixed [of "L p" ml S L p] fun_cong [OF assms, of p] m(1) by simp
  moreover have "L m \<le> S q + chebyshev m q" using Suc m(2) by simp
  ultimately show ?case using m(2) by simp
qed

lemma fixed_attained:
  assumes "fixed ml S L p < ABSENT_LEVEL ml"
  shows "fixed ml S L p = S p \<or> (\<exists>n \<in> set (neighbors p). fixed ml S L p = L n + 1)"
proof -
  have "fixed ml S L p \<in> insert (ABSENT_LEVEL ml) (insert (S p) ((\<lambda>n. L n + 1) ` set (neighbors p)))"
    unfolding fixed_def by (rule Min_in) auto
  then show ?thesis using assms by auto
qed

lemma fixed_lower_source:
  assumes "L = fixed ml S L" "L p < ABSENT_LEVEL ml" shows "\<exists>q. S q + chebyshev p q \<le> L p"
  using assms(2)
proof (induction "L p" arbitrary: p rule: less_induct)
  case less
  have e: "fixed ml S L p = L p" using fun_cong [OF assms(1), of p] by simp
  from fixed_attained [of ml S L p] less.prems e consider "L p = S p" | n where "n \<in> set (neighbors p)" "L p = L n + 1" by auto
  then show ?case
  proof cases
    case 1
    then show ?thesis using chebyshev_0_iff [of p p] by (intro exI [of _ p]) simp
  next
    case 2
    then obtain q where "S q + chebyshev n q \<le> L n" using less.hyps [of n] less.prems by auto
    then show ?thesis using chebyshev_neighbor [OF 2(1), of q] 2(2) by (intro exI [of _ q]) linarith
  qed
qed

lemma level_is_distance:
  assumes b: "bounds_ok ml t" and eqn: "level ml t = fixed ml (source_level ml t) (level ml t)"
  shows "get_level t p = Some l \<longleftrightarrow>
    l \<le> ml \<and> (\<exists>q s. source_levels t q = Some s \<and> s + chebyshev p q = l) \<and>
    (\<forall>q s. source_levels t q = Some s \<longrightarrow> l \<le> s + chebyshev p q)"
    (is "?L \<longleftrightarrow> ?R")
proof
  have up: "level ml t p \<le> s + chebyshev p q" if "source_levels t q = Some s" for q s
    using fixed_upper [OF eqn, of p q] that by (simp add: source_level_def)
  { assume ?L
    then have l: "level ml t p = l" "l \<le> ml" using b by (auto simp: get_level_def level_def bounds_ok_def)
    then have "level ml t p < ABSENT_LEVEL ml" by (simp add: ABSENT_LEVEL_def)
    from fixed_lower_source [OF eqn this] obtain q where q: "source_level ml t q + chebyshev p q \<le> l" using l by auto
    with l(2) obtain s where s: "source_levels t q = Some s"
      by (cases "source_levels t q") (auto simp: source_level_def ABSENT_LEVEL_def)
    then have "s + chebyshev p q = l" using q up [OF s] l(1) by (simp add: source_level_def)
    then show ?R using s up l(2) unfolding l(1) by blast }
  { assume R: ?R
    then obtain q s where q: "source_levels t q = Some s" "s + chebyshev p q = l" by blast
    have le: "level ml t p \<le> l" using up [OF q(1)] q(2) by simp
    then obtain l' where l': "get_level t p = Some l'" using R
      by (cases "levels t p") (auto simp: get_level_def level_def ABSENT_LEVEL_def)
    then have "level ml t p = l'" "l' \<le> ml" using b by (auto simp: get_level_def level_def bounds_ok_def)
    then have "level ml t p < ABSENT_LEVEL ml" by (simp add: ABSENT_LEVEL_def)
    from fixed_lower_source [OF eqn this] obtain q' where q': "source_level ml t q' + chebyshev p q' \<le> l'"
      using \<open>level ml t p = l'\<close> by auto
    with \<open>l' \<le> ml\<close> obtain s' where s': "source_levels t q' = Some s'"
      by (cases "source_levels t q'") (auto simp: source_level_def ABSENT_LEVEL_def)
    then have "l \<le> s' + chebyshev p q'" using R by blast
    then have "l \<le> l'" using q' s' by (simp add: source_level_def)
    then show ?L using le l' \<open>level ml t p = l'\<close> by simp }
qed


section \<open>Reachable trackers\<close>

inductive tracker_reachable :: "nat \<Rightarrow> ChunkTracker \<Rightarrow> bool" for ml where
  reach_new: "tracker_new ml = Some t \<Longrightarrow> tracker_reachable ml t"
| reach_update: "tracker_reachable ml t \<Longrightarrow> apply_source_updates ml us t = Some t' \<Longrightarrow> tracker_reachable ml t'"
| reach_run: "tracker_reachable ml t \<Longrightarrow> run_all_updates ml t = Some t' \<Longrightarrow> tracker_reachable ml t'"
| reach_take: "tracker_reachable ml t \<Longrightarrow> take_changes t = (cs, t') \<Longrightarrow> tracker_reachable ml t'"
| reach_recycle: "tracker_reachable ml t \<Longrightarrow> tracker_reachable ml (recycle_changes cs t)"

lemma apply_source_update_guard:
  assumes "apply_source_update ml u t = Some t'" "update_level u = Some l" shows "l \<le> ml"
proof (rule ccontr)
  assume "\<not> l \<le> ml"
  then have "apply_source_update ml u t = None" using assms(2) by (simp add: apply_source_update_def)
  with assms(1) show False by simp
qed

lemma apply_source_updates_inv:
  "tracker_inv ml t \<Longrightarrow> apply_source_updates ml us t = Some t' \<Longrightarrow>
    tracker_inv ml t' \<and> source_levels t' = fold set_source us (source_levels t)"
proof (induction us arbitrary: t)
  case (Cons u us)
  then obtain t1 where t1: "apply_source_update ml u t = Some t1" "apply_source_updates ml us t1 = Some t'"
    by (auto split: option.splits)
  have "tracker_inv ml t1 \<and> source_levels t1 = set_source u (source_levels t)"
    using apply_source_update_inv [OF Cons.prems(1), of u] apply_source_update_guard [OF t1(1)] t1(1) by auto
  then show ?case using Cons.IH [OF _ t1(2)] by simp
qed simp

lemma apply_source_updates_levels:
  "tracker_inv ml t \<Longrightarrow> apply_source_updates ml us t = Some t' \<Longrightarrow> levels t' = levels t"
proof (induction us arbitrary: t)
  case (Cons u us)
  then obtain t1 where t1: "apply_source_update ml u t = Some t1" "apply_source_updates ml us t1 = Some t'"
    by (auto split: option.splits)
  have "tracker_inv ml t1 \<and> levels t1 = levels t"
    using apply_source_update_inv [OF Cons.prems(1), of u] apply_source_update_guard [OF t1(1)] t1(1) by auto
  then show ?case using Cons.IH [OF _ t1(2)] by simp
qed simp

lemma apply_source_updates_total:
  "tracker_inv ml t \<Longrightarrow> (\<And>u l. u \<in> set us \<Longrightarrow> update_level u = Some l \<Longrightarrow> l \<le> ml) \<Longrightarrow>
    \<exists>t'. apply_source_updates ml us t = Some t'"
proof (induction us arbitrary: t)
  case (Cons u us)
  from apply_source_update_inv [OF Cons.prems(1)] Cons.prems(2) obtain t1 where
    t1: "apply_source_update ml u t = Some t1" "tracker_inv ml t1" by (metis list.set_intros(1))
  with Cons.IH [OF t1(2)] Cons.prems(2) show ?case by fastforce
qed simp

lemma tracker_inv_changes: "tracker_inv ml t \<Longrightarrow> tracker_inv ml (t\<lparr>changes := cs\<rparr>)"
  by (rule tracker_inv_sources)
    (auto simp: tracker_inv_def old_source_def source_level_def fun_eq_iff split: option.split)

lemma tracker_reachable_inv: "tracker_reachable ml t \<Longrightarrow> tracker_inv ml t"
proof (induction rule: tracker_reachable.induct)
  case (reach_update t us t')
  then show ?case using apply_source_updates_inv by blast
next
  case (reach_run t t')
  then show ?case using run_all_updates_ok [of ml t] by auto
qed (auto simp: tracker_new_inv take_changes_def recycle_changes_def intro: tracker_inv_changes)

lemma tracker_inv_bounds: "tracker_inv ml t \<Longrightarrow> bounds_ok ml t"
  by (simp add: tracker_inv_def)

lemma source_level_cong: "source_levels t' = source_levels t \<Longrightarrow> source_level ml t' = source_level ml t"
  by (rule ext) (simp add: source_level_def)

lemma pass_distance:
  assumes "tracker_inv ml t"
  shows "\<exists>t'. run_all_updates ml t = Some t' \<and> tracker_inv ml t' \<and> source_levels t' = source_levels t \<and>
    changes_ok (levels t) (levels t') (changes t') \<and>
    (\<forall>p l. get_level t' p = Some l \<longleftrightarrow>
      l \<le> ml \<and> (\<exists>q s. source_levels t q = Some s \<and> s + chebyshev p q = l) \<and>
      (\<forall>q s. source_levels t q = Some s \<longrightarrow> l \<le> s + chebyshev p q))"
proof -
  from run_all_updates_ok [OF assms] obtain t' where
    t': "run_all_updates ml t = Some t'" "tracker_inv ml t'" "source_levels t' = source_levels t"
      "level ml t' = fixed ml (source_level ml t) (level ml t')" "changes_ok (levels t) (levels t') (changes t')" by blast
  have "level ml t' = fixed ml (source_level ml t') (level ml t')"
    using t'(4) unfolding source_level_cong [OF t'(3)] .
  from level_is_distance [OF tracker_inv_bounds [OF t'(2)] this] have
    "\<forall>p l. get_level t' p = Some l \<longleftrightarrow>
      l \<le> ml \<and> (\<exists>q s. source_levels t q = Some s \<and> s + chebyshev p q = l) \<and>
      (\<forall>q s. source_levels t q = Some s \<longrightarrow> l \<le> s + chebyshev p q)"
    unfolding t'(3) by blast
  then show ?thesis using t'(1,2,3,5) by blast
qed

text \<open>A source within reach gives a level, no weaker than its own plus the distance.\<close>

lemma pass_level_bound:
  assumes inv: "tracker_inv ml t" and q: "source_levels t q = Some s" and b: "s + chebyshev p q \<le> ml"
  shows "\<exists>t' l. run_all_updates ml t = Some t' \<and> get_level t' p = Some l \<and> l \<le> s + chebyshev p q"
proof -
  from run_all_updates_ok [OF inv] obtain t' where
    t': "run_all_updates ml t = Some t'" "level ml t' = fixed ml (source_level ml t) (level ml t')" by blast
  have "level ml t' p \<le> s + chebyshev p q" using fixed_upper [OF t'(2), of p q] q by (simp add: source_level_def)
  moreover from this b obtain l where "levels t' p = Some l"
    by (cases "levels t' p") (auto simp: level_def ABSENT_LEVEL_def)
  ultimately show ?thesis using t'(1) by (auto simp: get_level_def level_def)
qed

section \<open>Properties\<close>

text \<open>The trackers of the witnesses: two sources, the second of them removed again.\<close>

definition demo_updates :: "SourceLevelUpdate list" where
  "demo_updates = [\<lparr>update_pos = ChunkPos 0 0, update_level = Some 33\<rparr>,
     \<lparr>update_pos = ChunkPos 10 (-3), update_level = Some 35\<rparr>]"

lemma demo_updates_ok: "u \<in> set demo_updates \<Longrightarrow> update_level u = Some l \<Longrightarrow> l \<le> 141"
  by (auto simp: demo_updates_def)

lemma demo_tracker:
  "\<exists>t. tracker_reachable 141 t \<and> source_levels t = [ChunkPos 0 0 \<mapsto> 33, ChunkPos 10 (-3) \<mapsto> 35] \<and> levels t = Map.empty"
proof -
  obtain t0 where t0: "tracker_new 141 = Some t0" "levels t0 = Map.empty" by (simp add: tracker_new_def level_constants)
  have inv: "tracker_inv 141 t0" "source_levels t0 = Map.empty" using tracker_new_inv [OF t0(1)] by simp_all
  obtain t where t: "apply_source_updates 141 demo_updates t0 = Some t"
    using apply_source_updates_total [OF inv(1), of demo_updates] demo_updates_ok by blast
  then have "source_levels t = [ChunkPos 0 0 \<mapsto> 33, ChunkPos 10 (-3) \<mapsto> 35]"
    using apply_source_updates_inv [OF inv(1) t] by (simp add: inv(2) demo_updates_def set_source_def)
  moreover have "tracker_reachable 141 t" using reach_update [OF reach_new [OF t0(1)] t] .
  moreover have "levels t = Map.empty" using t t0(2)
    by (auto simp: demo_updates_def apply_source_update_def Let_def split: if_splits option.splits prod.splits)
  ultimately show ?thesis by blast
qed

text \<open>C8: Propagation always ends without a failed assertion, keeps the sources, and leaves every
  chunk with exactly the strongest level its sources give it: the least source level plus
  Chebyshev distance, and no level at all when that exceeds the tracker's maximum.\<close>

theorem propagation_is_distance:
  assumes "tracker_reachable ml t"
  shows "\<exists>t'. run_all_updates ml t = Some t' \<and> source_levels t' = source_levels t \<and>
    (\<forall>p l. get_level t' p = Some l \<longleftrightarrow>
      l \<le> ml \<and> (\<exists>q s. source_levels t q = Some s \<and> s + chebyshev p q = l) \<and>
      (\<forall>q s. source_levels t q = Some s \<longrightarrow> l \<le> s + chebyshev p q))"
  using pass_distance [OF tracker_reachable_inv [OF assms]] by blast

theorem propagation_is_distance_witness:
  "\<exists>t t'. tracker_reachable 141 t \<and> run_all_updates 141 t = Some t' \<and> get_level t' (ChunkPos 4 (-2)) = Some 37"
proof -
  obtain t where t: "tracker_reachable 141 t" "source_levels t = [ChunkPos 0 0 \<mapsto> 33, ChunkPos 10 (-3) \<mapsto> 35]"
    using demo_tracker by blast
  from propagation_is_distance [OF t(1)] obtain t' where
    t': "run_all_updates 141 t = Some t'" "get_level t' (ChunkPos 4 (-2)) = Some 37 \<longleftrightarrow>
      (37::nat) \<le> 141 \<and> (\<exists>q s. source_levels t q = Some s \<and> s + chebyshev (ChunkPos 4 (-2)) q = 37) \<and>
      (\<forall>q s. source_levels t q = Some s \<longrightarrow> 37 \<le> s + chebyshev (ChunkPos 4 (-2)) q)" by blast
  have d: "chebyshev (ChunkPos 4 (-2)) (ChunkPos 0 0) = 4" "chebyshev (ChunkPos 4 (-2)) (ChunkPos 10 (-3)) = 6"
    by (simp_all add: chebyshev_def wabs_def)
  have "source_levels t (ChunkPos 0 0) = Some 33" by (simp add: t(2))
  with d(1) have "\<exists>q s. source_levels t q = Some s \<and> s + chebyshev (ChunkPos 4 (-2)) q = 37" by fastforce
  moreover have "\<forall>q s. source_levels t q = Some s \<longrightarrow> 37 \<le> s + chebyshev (ChunkPos 4 (-2)) q"
    using d by (simp add: t(2))
  ultimately show ?thesis using t t' by auto
qed

text \<open>C32: The changes a pass hands out are the exact difference between the levels before and
  after it: one entry for every chunk whose level changed, with its new level, none for any
  other chunk, in ascending order of the coordinates.\<close>

theorem pass_reports_difference:
  assumes "tracker_reachable ml t"
  shows "\<exists>t'. run_all_updates ml t = Some t' \<and>
    distinct (map change_pos (fst (take_changes t'))) \<and> sorted (map change_key (fst (take_changes t'))) \<and>
    (\<forall>c. c \<in> set (fst (take_changes t')) \<longleftrightarrow>
      get_level t (change_pos c) \<noteq> get_level t' (change_pos c) \<and> new_level c = get_level t' (change_pos c))"
proof -
  from pass_distance [OF tracker_reachable_inv [OF assms]] obtain t' where
    "run_all_updates ml t = Some t'" "changes_ok (levels t) (levels t') (changes t')" by blast
  then show ?thesis by (simp add: changes_ok_def take_changes_def get_level_def)
qed

theorem pass_reports_difference_witness:
  "\<exists>t t'. run_all_updates 141 t = Some t' \<and> get_level t (ChunkPos 0 0) = None \<and>
    \<lparr>change_pos = ChunkPos 0 0, new_level = Some 33\<rparr> \<in> set (fst (take_changes t'))"
proof -
  obtain t where t: "tracker_reachable 141 t" "levels t = Map.empty"
      "source_levels t = [ChunkPos 0 0 \<mapsto> 33, ChunkPos 10 (-3) \<mapsto> 35]" using demo_tracker by blast
  from pass_distance [OF tracker_reachable_inv [OF t(1)]] obtain t' where
    t': "run_all_updates 141 t = Some t'" "get_level t' (ChunkPos 0 0) = Some 33 \<longleftrightarrow>
      (33::nat) \<le> 141 \<and> (\<exists>q s. source_levels t q = Some s \<and> s + chebyshev (ChunkPos 0 0) q = 33) \<and>
      (\<forall>q s. source_levels t q = Some s \<longrightarrow> 33 \<le> s + chebyshev (ChunkPos 0 0) q)" by blast
  have "source_levels t (ChunkPos 0 0) = Some 33" "chebyshev (ChunkPos 0 0) (ChunkPos 0 0) = 0"
    by (simp_all add: t(3) chebyshev_def)
  then have "\<exists>q s. source_levels t q = Some s \<and> s + chebyshev (ChunkPos 0 0) q = 33" by fastforce
  moreover have "\<forall>q s. source_levels t q = Some s \<longrightarrow> 33 \<le> s + chebyshev (ChunkPos 0 0) q" by (simp add: t(3))
  ultimately have "get_level t' (ChunkPos 0 0) = Some 33" using t'(2) by simp
  moreover have "get_level t (ChunkPos 0 0) = None" by (simp add: get_level_def t(2))
  ultimately show ?thesis using pass_reports_difference [OF t(1)] t'(1) by fastforce
qed

text \<open>C24: Incremental propagation equals propagation from scratch: two trackers with the same
  sources have the same levels after a pass, whatever updates and passes came before.\<close>

theorem incremental_equals_scratch:
  assumes "tracker_reachable ml t" "tracker_reachable ml u" "source_levels t = source_levels u"
  shows "\<exists>t' u'. run_all_updates ml t = Some t' \<and> run_all_updates ml u = Some u' \<and> get_level t' = get_level u'"
proof -
  from pass_distance [OF tracker_reachable_inv [OF assms(1)]] obtain t' where
    t': "run_all_updates ml t = Some t'" "\<forall>p l. get_level t' p = Some l \<longleftrightarrow>
      l \<le> ml \<and> (\<exists>q s. source_levels t q = Some s \<and> s + chebyshev p q = l) \<and>
      (\<forall>q s. source_levels t q = Some s \<longrightarrow> l \<le> s + chebyshev p q)" by blast
  from pass_distance [OF tracker_reachable_inv [OF assms(2)]] obtain u' where
    u': "run_all_updates ml u = Some u'" "\<forall>p l. get_level u' p = Some l \<longleftrightarrow>
      l \<le> ml \<and> (\<exists>q s. source_levels u q = Some s \<and> s + chebyshev p q = l) \<and>
      (\<forall>q s. source_levels u q = Some s \<longrightarrow> l \<le> s + chebyshev p q)" by blast
  have "get_level t' p = Some l \<longleftrightarrow> get_level u' p = Some l" for p l
    using t'(2) u'(2) unfolding assms(3) by blast
  then have "get_level t' = get_level u'" by (intro ext) (metis option.exhaust)
  with t'(1) u'(1) show ?thesis by blast
qed

theorem incremental_equals_scratch_witness:
  "\<exists>t t1 u t' u'. tracker_reachable 141 t \<and> run_all_updates 141 t = Some t1 \<and> run_all_updates 141 t1 = Some t' \<and>
    run_all_updates 141 u = Some u' \<and> levels u = Map.empty \<and> get_level t' = get_level u'"
proof -
  obtain t where t: "tracker_reachable 141 t" "levels t = Map.empty" using demo_tracker by blast
  from pass_distance [OF tracker_reachable_inv [OF t(1)]] obtain t1 where
    t1: "run_all_updates 141 t = Some t1" "source_levels t1 = source_levels t" by blast
  with incremental_equals_scratch [OF reach_run [OF t(1) t1(1)] t(1)] show ?thesis using t by blast
qed

text \<open>A batch of source updates is rejected exactly when one of them carries a level beyond
  the tracker's maximum; otherwise it takes effect update by update, a removal included, and
  leaves the levels to the next pass.\<close>

lemma source_updates_checked:
  assumes "tracker_reachable ml t"
  shows "case apply_source_updates ml us t of
      None \<Rightarrow> \<exists>u \<in> set us. \<exists>l. update_level u = Some l \<and> l > ml
    | Some t' \<Rightarrow> (\<forall>u \<in> set us. \<forall>l. update_level u = Some l \<longrightarrow> l \<le> ml) \<and>
        source_levels t' = fold (\<lambda>u m. m(update_pos u := update_level u)) us (source_levels t)"
proof (cases "apply_source_updates ml us t")
  case None
  then show ?thesis using apply_source_updates_total [OF tracker_reachable_inv [OF assms], of us] by fastforce
next
  case (Some t')
  have "\<forall>u \<in> set us. \<forall>l. update_level u = Some l \<longrightarrow> l \<le> ml"
    using Some by (induction us arbitrary: t) (auto split: option.splits dest: apply_source_update_guard)
  moreover have "set_source = (\<lambda>u m. m(update_pos u := update_level u))" by (intro ext) (simp add: set_source_def)
  ultimately show ?thesis using Some apply_source_updates_inv [OF tracker_reachable_inv [OF assms] Some] by simp
qed

text \<open>C19: A chunk requested at a status gets all it depends on: with a source at the status'
  ticket level, after the next pass every chunk at a distance the generation step depends on has
  a level that permits at least the status demanded there.\<close>

theorem request_permits_dependencies:
  assumes "tracker_reachable MAX_LEVEL_RAW t"
    and "source_levels t q = Some (ticket_level_for_status s)"
    and "deps_get (accumulated_dependencies (get_step_to GENERATION_PYRAMID s)) (chebyshev p q) = Some u"
  shows "\<exists>t' v. run_all_updates MAX_LEVEL_RAW t = Some t' \<and> generation_status (get_level t' p) = Some v \<and> u \<le> v"
proof -
  let ?b = "ticket_level_for_status s + chebyshev p q"
  from levels_coverD assms(3) obtain v where v: "generation_status (level_new ?b) = Some v" "u \<le> v" by blast
  then have b: "level_new ?b = Some ?b" "?b \<le> MAX_LEVEL_RAW"
    by (auto simp: level_new_def generation_status_def split: if_splits)
  from pass_level_bound [OF tracker_reachable_inv [OF assms(1)] assms(2) b(2)] obtain t' l where
    t': "run_all_updates MAX_LEVEL_RAW t = Some t'" "get_level t' p = Some l" "l \<le> ?b" by blast
  from generation_status_antimono [OF t'(3)] v b(1) obtain w where "generation_status (Some l) = Some w" "v \<le> w" by auto
  with t' v(2) show ?thesis by (metis order_trans)
qed

theorem request_permits_dependencies_witness:
  "\<exists>t t' v. tracker_reachable MAX_LEVEL_RAW t \<and> run_all_updates MAX_LEVEL_RAW t = Some t' \<and>
    generation_status (get_level t' (ChunkPos 11 (-2))) = Some v \<and> StructureStarts \<le> v"
proof -
  have lv: "ticket_level_for_status Light \<le> MAX_LEVEL_RAW" by code_simp
  let ?us = "[\<lparr>update_pos = ChunkPos 0 0, update_level = Some (ticket_level_for_status Light)\<rparr>]"
  obtain t0 where t0: "tracker_new MAX_LEVEL_RAW = Some t0" by (simp add: tracker_new_def)
  have inv: "tracker_inv MAX_LEVEL_RAW t0" using tracker_new_inv [OF t0] by simp
  obtain t where t: "apply_source_updates MAX_LEVEL_RAW ?us t0 = Some t"
    using apply_source_updates_total [OF inv, of ?us] lv by auto
  have src: "source_levels t (ChunkPos 0 0) = Some (ticket_level_for_status Light)"
    using apply_source_updates_inv [OF inv t] by (simp add: set_source_def)
  have d: "chebyshev (ChunkPos 11 (-2)) (ChunkPos 0 0) = 11" by (simp add: chebyshev_def wabs_def)
  have "deps_get (accumulated_dependencies (get_step_to GENERATION_PYRAMID Light)) 11 = Some StructureStarts"
    by code_simp
  then show ?thesis using request_permits_dependencies [OF reach_update [OF reach_new [OF t0] t] src, of "ChunkPos 11 (-2)"]
      reach_update [OF reach_new [OF t0] t] unfolding d by blast
qed

end
