(* ===== verification/Identifiers.thy ===== *)
theory Identifiers
  imports Prelude "HOL-Library.List_Lexorder" "HOL-Library.Char_ord"
begin

text \<open>
  Namespaced identifiers (\<^verbatim>\<open>steel-utils/src/types/identifier.rs\<close>) and the registries keyed by
  them (the macros of \<^verbatim>\<open>steel-registry/src/macros.rs\<close>).

  A Rust \<open>str\<close> is the list of its UTF-8 bytes; its order is the bytewise one, and every
  character the validity tests accept is a single byte.
\<close>

section \<open>Identifiers\<close>

datatype Identifier = Identifier (id_namespace: string) (id_path: string)

definition VANILLA_NAMESPACE :: string where
  "VANILLA_NAMESPACE = ''minecraft''"

definition STEEL_NAMESPACE :: string where
  "STEEL_NAMESPACE = ''steel''"

definition from_steel :: "string \<Rightarrow> Identifier" where
  "from_steel p = Identifier STEEL_NAMESPACE p"

definition vanilla :: "string \<Rightarrow> Identifier" where
  "vanilla p = Identifier VANILLA_NAMESPACE p"

definition valid_namespace_char :: "char \<Rightarrow> bool" where
  "valid_namespace_char c \<longleftrightarrow>
     c = CHR ''_'' \<or> c = CHR ''-'' \<or> (CHR ''a'' \<le> c \<and> c \<le> CHR ''z'') \<or>
     (CHR ''0'' \<le> c \<and> c \<le> CHR ''9'') \<or> c = CHR ''.''"

definition valid_char :: "char \<Rightarrow> bool" where
  "valid_char c \<longleftrightarrow> valid_namespace_char c \<or> c = CHR ''/''"

definition validate_namespace :: "string \<Rightarrow> bool" where
  "validate_namespace ns \<longleftrightarrow> ns \<noteq> ''..'' \<and> list_all valid_namespace_char ns"

definition validate_path :: "string \<Rightarrow> bool" where
  "validate_path p \<longleftrightarrow> list_all valid_char p"

definition validate :: "string \<Rightarrow> string \<Rightarrow> bool" where
  "validate ns p \<longleftrightarrow> validate_namespace ns \<and> validate_path p"

text \<open>\<open>Display\<close>.\<close>

definition identifier_to_string :: "Identifier \<Rightarrow> string" where
  "identifier_to_string i = id_namespace i @ '':'' @ id_path i"

text \<open>\<open>str::split_once\<close>: the parts before and after the first separator.\<close>

fun split_once :: "char \<Rightarrow> string \<Rightarrow> (string \<times> string) option" where
  "split_once s [] = None"
| "split_once s (c # cs) = (if c = s then Some ([], cs) else map_option (\<lambda>(a, b). (c # a, b)) (split_once s cs))"

datatype IdentifierError = InvalidNamespace | InvalidPath

definition identifier_from_str :: "string \<Rightarrow> IdentifierError + Identifier" where
  "identifier_from_str s =
     (let (ns, p) =
        (case split_once (CHR '':'') s of
           Some (ns, p) \<Rightarrow> (if ns = [] then VANILLA_NAMESPACE else ns, p)
         | None \<Rightarrow> (VANILLA_NAMESPACE, s))
      in if \<not> validate_namespace ns then Inl InvalidNamespace
         else if \<not> validate_path p then Inl InvalidPath
         else Inr (Identifier ns p))"

text \<open>\<open>Ord\<close> compares the paths first.\<close>

definition identifier_cmp :: "Identifier \<Rightarrow> Identifier \<Rightarrow> Ordering" where
  "identifier_cmp a b = then_with (cmp (id_path a) (id_path b)) (cmp (id_namespace a) (id_namespace b))"

instantiation Identifier :: linorder
begin

definition less_eq_Identifier :: "Identifier \<Rightarrow> Identifier \<Rightarrow> bool" where
  "less_eq_Identifier a b \<longleftrightarrow> (id_path a, id_namespace a) \<le> (id_path b, id_namespace b)"

definition less_Identifier :: "Identifier \<Rightarrow> Identifier \<Rightarrow> bool" where
  "less_Identifier a b \<longleftrightarrow> (id_path a, id_namespace a) < (id_path b, id_namespace b)"

instance
proof
  fix a b c :: Identifier
  show "a = b" if "a \<le> b" "b \<le> a"
  proof -
    from that have "(id_path a, id_namespace a) = (id_path b, id_namespace b)"
      unfolding less_eq_Identifier_def by (rule order_antisym)
    then show ?thesis by (simp add: Identifier.expand)
  qed
  show "a \<le> c" if "a \<le> b" "b \<le> c" using that unfolding less_eq_Identifier_def by (rule order_trans)
  show "a < b \<longleftrightarrow> a \<le> b \<and> \<not> b \<le> a"
    unfolding less_eq_Identifier_def less_Identifier_def by (rule less_le_not_le)
  show "a \<le> a" unfolding less_eq_Identifier_def by (rule order_refl)
  show "a \<le> b \<or> b \<le> a" unfolding less_eq_Identifier_def by (rule linear)
qed

end

lemma identifier_cmp_cmp: "identifier_cmp a b = cmp a b"
  unfolding identifier_cmp_def then_with_cmp
  by (simp add: cmp_def less_Identifier_def Identifier.expand)

section \<open>Registries\<close>

text \<open>
  \<open>impl_standard_methods!\<close> and \<open>impl_registry_ext!\<close>: entries by id and by key, and the freeze
  flag. The first argument of \<open>register\<close> tells whether the optional duplicate-key message is
  given. \<open>None\<close> is a failed assertion.
\<close>

record 'e Registry =
  entries_by_id :: "'e list"
  ids_by_key :: "Identifier \<rightharpoonup> nat"
  allows_registering :: bool

definition registry_new :: "'e Registry" where
  "registry_new = \<lparr>entries_by_id = [], ids_by_key = Map.empty, allows_registering = True\<rparr>"

definition register :: "bool \<Rightarrow> ('e \<Rightarrow> Identifier) \<Rightarrow> 'e \<Rightarrow> 'e Registry \<Rightarrow> (nat \<times> 'e Registry) option" where
  "register reject_duplicates key_of e r =
     (if \<not> allows_registering r then None
      else if reject_duplicates \<and> ids_by_key r (key_of e) \<noteq> None then None
      else
        (let i = length (entries_by_id r) in
         Some (i, r\<lparr>entries_by_id := entries_by_id r @ [e], ids_by_key := (ids_by_key r)(key_of e \<mapsto> i)\<rparr>)))"

definition freeze :: "'e Registry \<Rightarrow> 'e Registry" where
  "freeze r = r\<lparr>allows_registering := False\<rparr>"

definition by_id :: "nat \<Rightarrow> 'e Registry \<Rightarrow> 'e option" where
  "by_id i r = (if i < length (entries_by_id r) then Some (entries_by_id r ! i) else None)"

definition id_from_key :: "Identifier \<Rightarrow> 'e Registry \<Rightarrow> nat option" where
  "id_from_key k r = ids_by_key r k"

definition by_key :: "Identifier \<Rightarrow> 'e Registry \<Rightarrow> 'e option" where
  "by_key k r = (case ids_by_key r k of None \<Rightarrow> None | Some i \<Rightarrow> by_id i r)"

section \<open>Parsing and printing\<close>

lemma valid_char_colon: "valid_char c \<Longrightarrow> c \<noteq> CHR '':''" "valid_namespace_char c \<Longrightarrow> c \<noteq> CHR '':''"
  by (auto simp: valid_char_def valid_namespace_char_def less_eq_char_def)

lemma split_once_append: "s \<notin> set a \<Longrightarrow> split_once s (a @ s # b) = Some (a, b)"
  by (induction a) auto

lemma split_once_None: "split_once s xs = None \<longleftrightarrow> s \<notin> set xs"
  by (induction xs) auto

lemma split_once_Some: "split_once s xs = Some (a, b) \<Longrightarrow> xs = a @ s # b \<and> s \<notin> set a"
  by (induction xs arbitrary: a b) (auto split: if_splits)

lemma validate_no_colon: "validate_path p \<Longrightarrow> CHR '':'' \<notin> set p" "validate_namespace p \<Longrightarrow> CHR '':'' \<notin> set p"
  using valid_char_colon by (auto simp: validate_path_def validate_namespace_def list_all_iff)

lemma vanilla_valid: "validate_namespace VANILLA_NAMESPACE" "VANILLA_NAMESPACE \<noteq> []"
  by (simp_all add: validate_namespace_def VANILLA_NAMESPACE_def valid_namespace_char_def less_eq_char_def)

lemma from_str_parts:
  "validate_namespace ns \<Longrightarrow> validate_path p \<Longrightarrow> ns \<noteq> [] \<Longrightarrow> identifier_from_str (ns @ CHR '':'' # p) = Inr (Identifier ns p)"
  "validate_path p \<Longrightarrow> identifier_from_str (CHR '':'' # p) = Inr (Identifier VANILLA_NAMESPACE p)"
  "validate_path p \<Longrightarrow> identifier_from_str p = Inr (Identifier VANILLA_NAMESPACE p)"
  using validate_no_colon split_once_None [of "CHR '':''" p]
  by (simp_all add: identifier_from_str_def split_once_append vanilla_valid)

text \<open>C35: Parsing accepts exactly the printed forms: a string parses to an identifier precisely
  when the identifier's parts are valid, its namespace is not empty, and the string is its
  printed form or, for the vanilla namespace, the path alone or after a bare colon. So printing
  and parsing are inverse on every valid identifier.\<close>

theorem identifier_parse_print:
  "identifier_from_str s = Inr i \<longleftrightarrow>
     validate (id_namespace i) (id_path i) \<and> id_namespace i \<noteq> [] \<and>
     (s = identifier_to_string i \<or>
      id_namespace i = VANILLA_NAMESPACE \<and> (s = id_path i \<or> s = CHR '':'' # id_path i))"
    (is "?L \<longleftrightarrow> ?R")
proof
  assume ?L
  then show ?R
  proof (cases "split_once (CHR '':'') s")
    case None
    with \<open>?L\<close> show ?thesis by (auto simp: identifier_from_str_def validate_def vanilla_valid split: if_splits)
  next
    case (Some ab)
    then obtain a b where ab: "split_once (CHR '':'') s = Some (a, b)" by (cases ab) auto
    with \<open>?L\<close> split_once_Some [OF ab] show ?thesis
      by (auto simp: identifier_from_str_def validate_def vanilla_valid identifier_to_string_def split: if_splits)
  qed
next
  assume ?R
  then show ?L using from_str_parts(1) [of "id_namespace i" "id_path i"] from_str_parts(2,3) [of "id_path i"]
    by (cases i) (auto simp: validate_def identifier_to_string_def)
qed

section \<open>Lookup in registries\<close>

inductive registry_reachable :: "('e \<Rightarrow> Identifier) \<Rightarrow> 'e Registry \<Rightarrow> bool" for key_of where
  registry_new: "registry_reachable key_of registry_new"
| registry_register: "registry_reachable key_of r \<Longrightarrow> register True key_of e r = Some (i, r') \<Longrightarrow> registry_reachable key_of r'"
| registry_freeze: "registry_reachable key_of r \<Longrightarrow> registry_reachable key_of (freeze r)"

definition registry_wf :: "('e \<Rightarrow> Identifier) \<Rightarrow> 'e Registry \<Rightarrow> bool" where
  "registry_wf key_of r \<longleftrightarrow>
     (\<forall>k i. ids_by_key r k = Some i \<longleftrightarrow> i < length (entries_by_id r) \<and> key_of (entries_by_id r ! i) = k)"

lemma register_wf: "registry_wf key_of r \<Longrightarrow> register True key_of e r = Some (i, r') \<Longrightarrow> registry_wf key_of r'"
  unfolding registry_wf_def register_def
  by (auto simp: nth_append less_Suc_eq Let_def split: if_splits)

lemma registry_reachable_wf: "registry_reachable key_of r \<Longrightarrow> registry_wf key_of r"
  by (induction rule: registry_reachable.induct)
    (simp add: registry_wf_def registry_new_def, erule (1) register_wf, simp add: registry_wf_def freeze_def)

lemma registry_by_key:
  assumes "registry_reachable key_of r"
  shows "by_key k r = Some e \<longleftrightarrow> e \<in> set (entries_by_id r) \<and> key_of e = k"
proof -
  have wf: "ids_by_key r k = Some j \<longleftrightarrow> j < length (entries_by_id r) \<and> key_of (entries_by_id r ! j) = k" for j k
    using registry_reachable_wf [OF assms] unfolding registry_wf_def by blast
  have "by_key k r = Some e \<longleftrightarrow> (\<exists>j. ids_by_key r k = Some j \<and> j < length (entries_by_id r) \<and> entries_by_id r ! j = e)"
    by (auto simp: by_key_def by_id_def split: option.splits if_splits)
  also have "\<dots> \<longleftrightarrow> e \<in> set (entries_by_id r) \<and> key_of e = k"
    unfolding wf by (auto simp: in_set_conv_nth)
  finally show ?thesis .
qed

text \<open>In a registry that rejects duplicates the three lookups agree with the entries: an
  entry is found under a key exactly when it is registered with that key, under exactly one id,
  and the id looks the entry up again.\<close>

lemma registry_lookup:
  assumes "registry_reachable key_of r"
  shows "(by_key k r = Some e \<longleftrightarrow> e \<in> set (entries_by_id r) \<and> key_of e = k) \<and>
    (id_from_key k r = Some i \<longleftrightarrow> (\<exists>e. by_id i r = Some e \<and> key_of e = k)) \<and>
    (id_from_key k r = Some i \<longrightarrow> by_key k r = by_id i r)"
proof -
  have wf: "ids_by_key r k = Some j \<longleftrightarrow> j < length (entries_by_id r) \<and> key_of (entries_by_id r ! j) = k" for j k
    using registry_reachable_wf [OF assms] unfolding registry_wf_def by blast
  have 2: "id_from_key k r = Some i \<longleftrightarrow> (\<exists>e. by_id i r = Some e \<and> key_of e = k)"
    by (auto simp: id_from_key_def by_id_def wf)
  have 3: "id_from_key k r = Some i \<longrightarrow> by_key k r = by_id i r" by (simp add: id_from_key_def by_key_def)
  from registry_by_key [OF assms] 2 3 show ?thesis by blast
qed

text \<open>Registration fails exactly on a frozen registry or, where duplicates are rejected, on a
  key already taken; otherwise the entry gets the next id, is found under its key and its id, and
  no other lookup changes.\<close>

lemma register_results:
  "(register dup key_of e r = None \<longleftrightarrow> \<not> allows_registering r \<or> dup \<and> id_from_key (key_of e) r \<noteq> None) \<and>
   (register dup key_of e r = Some (i, r') \<longrightarrow>
      i = length (entries_by_id r) \<and> by_id i r' = Some e \<and> by_key (key_of e) r' = Some e \<and>
      (\<forall>k. k \<noteq> key_of e \<longrightarrow> id_from_key k r' = id_from_key k r) \<and> (\<forall>j < i. by_id j r' = by_id j r))"
  by (auto simp: register_def id_from_key_def by_key_def by_id_def nth_append Let_def split: if_splits)

definition demo_registry :: "Identifier Registry" where
  "demo_registry = snd (the (register True id (vanilla ''portal'') registry_new))"

end
