(* ===== verification/Ticket_Storage.thy ===== *)
theory Ticket_Storage
  imports Chunk_Pass Identifiers "HOL-Library.AList"
begin

text \<open>
  Chunk tickets and their storage: ticket types (\<^verbatim>\<open>steel-registry/src/ticket_type.rs\<close>), tickets
  (\<^verbatim>\<open>steel-core/src/chunk/chunk_ticket.rs\<close>) and the authoritative storage
  (\<^verbatim>\<open>steel-core/src/chunk/chunk_ticket_storage.rs\<close>).

  A hash map is the association list of its entries; where the code iterates over one it sorts
  the result. \<open>None\<close> is the failed assertion on the generation counter.
\<close>

section \<open>Ticket types\<close>

type_synonym TicketTypeFlags = u32

definition flag_PERSIST :: TicketTypeFlags where "flag_PERSIST = push_bit 0 1"
definition flag_LOADING :: TicketTypeFlags where "flag_LOADING = push_bit 1 1"
definition flag_SIMULATION :: TicketTypeFlags where "flag_SIMULATION = push_bit 2 1"
definition flag_KEEP_DIMENSION_ACTIVE :: TicketTypeFlags where "flag_KEEP_DIMENSION_ACTIVE = push_bit 3 1"
definition flag_CAN_EXPIRE_IF_UNLOADED :: TicketTypeFlags where "flag_CAN_EXPIRE_IF_UNLOADED = push_bit 4 1"

unbundle bit_operations_syntax

definition flags_contain :: "TicketTypeFlags \<Rightarrow> TicketTypeFlags \<Rightarrow> bool" where
  "flags_contain fs f \<longleftrightarrow> fs AND f = f"

record TicketType =
  tt_key :: Identifier
  tt_timeout :: i64
  tt_flags :: TicketTypeFlags

definition NO_TIMEOUT :: i64 where "NO_TIMEOUT = 0"

text \<open>\<open>&'static TicketType\<close>: the address and the immutable static it refers to, so that pointer
  equality is equality of references.\<close>

datatype TicketTypeRef = TicketTypeRef (address: nat) (deref: TicketType)

definition timeout :: "TicketTypeRef \<Rightarrow> i64" where
  "timeout t = tt_timeout (deref t)"

definition persist :: "TicketTypeRef \<Rightarrow> bool" where
  "persist t = flags_contain (tt_flags (deref t)) flag_PERSIST"

definition does_load :: "TicketTypeRef \<Rightarrow> bool" where
  "does_load t = flags_contain (tt_flags (deref t)) flag_LOADING"

definition does_simulate :: "TicketTypeRef \<Rightarrow> bool" where
  "does_simulate t = flags_contain (tt_flags (deref t)) flag_SIMULATION"

definition should_keep_dimension_active :: "TicketTypeRef \<Rightarrow> bool" where
  "should_keep_dimension_active t = flags_contain (tt_flags (deref t)) flag_KEEP_DIMENSION_ACTIVE"

definition can_expire_if_unloaded :: "TicketTypeRef \<Rightarrow> bool" where
  "can_expire_if_unloaded t = flags_contain (tt_flags (deref t)) flag_CAN_EXPIRE_IF_UNLOADED"

definition has_timeout :: "TicketTypeRef \<Rightarrow> bool" where
  "has_timeout t \<longleftrightarrow> timeout t \<noteq> NO_TIMEOUT"

subsection \<open>The built-in types\<close>

definition type_LOADS :: TicketTypeFlags where
  "type_LOADS = flag_LOADING"
definition type_LOADS_AND_SIMULATES :: TicketTypeFlags where
  "type_LOADS_AND_SIMULATES = type_LOADS OR flag_SIMULATION"
definition type_SIMULATES_AND_KEEPS_ACTIVE :: TicketTypeFlags where
  "type_SIMULATES_AND_KEEPS_ACTIVE = flag_SIMULATION OR flag_KEEP_DIMENSION_ACTIVE"
definition type_PERSISTENT_LOADING_SIMULATION :: TicketTypeFlags where
  "type_PERSISTENT_LOADING_SIMULATION =
     flag_PERSIST OR flag_LOADING OR flag_SIMULATION OR flag_KEEP_DIMENSION_ACTIVE"
definition type_LOADING_SIMULATION :: TicketTypeFlags where
  "type_LOADING_SIMULATION = flag_LOADING OR flag_SIMULATION OR flag_KEEP_DIMENSION_ACTIVE"
definition type_LOADING_THAT_EXPIRES_IF_UNLOADED :: TicketTypeFlags where
  "type_LOADING_THAT_EXPIRES_IF_UNLOADED = flag_LOADING OR flag_CAN_EXPIRE_IF_UNLOADED"

definition PLAYER_SPAWN :: TicketTypeRef where
  "PLAYER_SPAWN = TicketTypeRef 0 \<lparr>tt_key = vanilla ''player_spawn'', tt_timeout = 20, tt_flags = type_LOADS\<rparr>"
definition SPAWN_SEARCH :: TicketTypeRef where
  "SPAWN_SEARCH = TicketTypeRef 1 \<lparr>tt_key = vanilla ''spawn_search'', tt_timeout = 1, tt_flags = type_LOADS\<rparr>"
definition DRAGON :: TicketTypeRef where
  "DRAGON = TicketTypeRef 2 \<lparr>tt_key = vanilla ''dragon'', tt_timeout = NO_TIMEOUT, tt_flags = type_LOADS_AND_SIMULATES\<rparr>"
definition PLAYER_LOADING :: TicketTypeRef where
  "PLAYER_LOADING = TicketTypeRef 3 \<lparr>tt_key = vanilla ''player_loading'', tt_timeout = NO_TIMEOUT, tt_flags = type_LOADS\<rparr>"
definition PLAYER_SIMULATION :: TicketTypeRef where
  "PLAYER_SIMULATION = TicketTypeRef 4
     \<lparr>tt_key = vanilla ''player_simulation'', tt_timeout = NO_TIMEOUT, tt_flags = type_SIMULATES_AND_KEEPS_ACTIVE\<rparr>"
definition FORCED :: TicketTypeRef where
  "FORCED = TicketTypeRef 5
     \<lparr>tt_key = vanilla ''forced'', tt_timeout = NO_TIMEOUT, tt_flags = type_PERSISTENT_LOADING_SIMULATION\<rparr>"
definition PORTAL :: TicketTypeRef where
  "PORTAL = TicketTypeRef 6
     \<lparr>tt_key = vanilla ''portal'', tt_timeout = 300, tt_flags = type_PERSISTENT_LOADING_SIMULATION\<rparr>"
definition ENDER_PEARL :: TicketTypeRef where
  "ENDER_PEARL = TicketTypeRef 7
     \<lparr>tt_key = vanilla ''ender_pearl'', tt_timeout = 40, tt_flags = type_LOADING_SIMULATION\<rparr>"
definition UNKNOWN :: TicketTypeRef where
  "UNKNOWN = TicketTypeRef 8
     \<lparr>tt_key = vanilla ''unknown'', tt_timeout = 1, tt_flags = type_LOADING_THAT_EXPIRES_IF_UNLOADED\<rparr>"
definition CHUNK_REQUEST :: TicketTypeRef where
  "CHUNK_REQUEST = TicketTypeRef 9
     \<lparr>tt_key = from_steel ''chunk_request'', tt_timeout = NO_TIMEOUT, tt_flags = flag_LOADING\<rparr>"

text \<open>Registration in declaration order, in a registry that rejects duplicates.\<close>

definition ticket_type_key :: "TicketTypeRef \<Rightarrow> Identifier" where
  "ticket_type_key t = tt_key (deref t)"

definition register_ticket_type :: "TicketTypeRef \<Rightarrow> TicketTypeRef Registry option \<Rightarrow> TicketTypeRef Registry option" where
  "register_ticket_type t r =
     (case r of None \<Rightarrow> None | Some r \<Rightarrow> map_option snd (register True ticket_type_key t r))"

definition register_vanilla_ticket_types :: "TicketTypeRef Registry option \<Rightarrow> TicketTypeRef Registry option" where
  "register_vanilla_ticket_types r =
     fold register_ticket_type
       [PLAYER_SPAWN, SPAWN_SEARCH, DRAGON, PLAYER_LOADING, PLAYER_SIMULATION, FORCED, PORTAL, ENDER_PEARL, UNKNOWN] r"

definition register_steel_ticket_types :: "TicketTypeRef Registry option \<Rightarrow> TicketTypeRef Registry option" where
  "register_steel_ticket_types r = register_ticket_type CHUNK_REQUEST r"

section \<open>Tickets\<close>

record ChunkTicket =
  ticket_type :: TicketTypeRef
  ticket_level :: ChunkTicketLevel
  ticks_left :: i64

definition ticket_from_saved :: "TicketTypeRef \<Rightarrow> ChunkTicketLevel \<Rightarrow> i64 \<Rightarrow> ChunkTicket" where
  "ticket_from_saved ty l n = \<lparr>ticket_type = ty, ticket_level = l, ticks_left = n\<rparr>"

definition ticket_new :: "TicketTypeRef \<Rightarrow> ChunkTicketLevel \<Rightarrow> ChunkTicket" where
  "ticket_new ty l = ticket_from_saved ty l (timeout ty)"

definition ticket_for_full_chunk_radius :: "TicketTypeRef \<Rightarrow> nat \<Rightarrow> ChunkTicket" where
  "ticket_for_full_chunk_radius ty r = ticket_new ty (for_full_chunk_radius r)"

definition loading_level :: "ChunkTicket \<Rightarrow> ChunkTicketLevel option" where
  "loading_level t = (if does_load (ticket_type t) then Some (ticket_level t) else None)"

definition simulation_level :: "ChunkTicket \<Rightarrow> ChunkTicketLevel option" where
  "simulation_level t = (if does_simulate (ticket_type t) then Some (ticket_level t) else None)"

definition reset_ticks_left :: "ChunkTicket \<Rightarrow> ChunkTicket" where
  "reset_ticks_left t = t\<lparr>ticks_left := timeout (ticket_type t)\<rparr>"

definition decrease_ticks_left :: "ChunkTicket \<Rightarrow> ChunkTicket" where
  "decrease_ticks_left t =
     (if has_timeout (ticket_type t) then t\<lparr>ticks_left := ticks_left t - 1\<rparr> else t)"

definition is_timed_out :: "ChunkTicket \<Rightarrow> bool" where
  "is_timed_out t \<longleftrightarrow> has_timeout (ticket_type t) \<and> sint (ticks_left t) < 0"

text \<open>\<open>PartialEq\<close>: the type's address and the level, not the remaining time.\<close>

definition ticket_eq :: "ChunkTicket \<Rightarrow> ChunkTicket \<Rightarrow> bool" where
  "ticket_eq a b \<longleftrightarrow> ticket_type a = ticket_type b \<and> ticket_level a = ticket_level b"

section \<open>Storage\<close>

record StoredChunkTicket =
  stored_ticket :: ChunkTicket
  stored_generation :: "u64 option"

record PersistentChunkTicket =
  pt_type :: Identifier
  pt_chunk_x :: i32
  pt_chunk_z :: i32
  pt_level :: nat
  pt_ticks_left :: i64

datatype ChunkTicketStorageLoadError =
  UnknownTicketType Identifier | InvalidTicketLevel Identifier nat

definition stored_to_persistent :: "ChunkPos \<Rightarrow> StoredChunkTicket \<Rightarrow> PersistentChunkTicket option" where
  "stored_to_persistent pos s =
     (let ty = ticket_type (stored_ticket s) in
      if persist ty
      then Some \<lparr>pt_type = ticket_type_key ty, pt_chunk_x = chunk_x pos, pt_chunk_z = chunk_z pos,
             pt_level = ticket_level (stored_ticket s), pt_ticks_left = ticks_left (stored_ticket s)\<rparr>
      else None)"

record TimedTicketExpiration =
  exp_pos :: ChunkPos
  exp_ticket :: ChunkTicket
  exp_generation :: u64

definition exp_can_expire_if_unloaded :: "TimedTicketExpiration \<Rightarrow> bool" where
  "exp_can_expire_if_unloaded e = can_expire_if_unloaded (ticket_type (exp_ticket e))"

definition PORTAL_TICKET_RADIUS :: nat where "PORTAL_TICKET_RADIUS = 3"
definition ENDER_PEARL_TICKET_RADIUS :: nat where "ENDER_PEARL_TICKET_RADIUS = 2"

definition portal_ticket :: ChunkTicket where
  "portal_ticket = ticket_for_full_chunk_radius PORTAL PORTAL_TICKET_RADIUS"

definition ender_pearl_ticket :: ChunkTicket where
  "ender_pearl_ticket = ticket_for_full_chunk_radius ENDER_PEARL ENDER_PEARL_TICKET_RADIUS"

record SourceProjectionChanges =
  load_positions :: "ChunkPos list"
  simulation_positions :: "ChunkPos list"

definition no_changes :: SourceProjectionChanges where
  "no_changes = \<lparr>load_positions = [], simulation_positions = []\<rparr>"

definition changes_for_ticket :: "ChunkPos \<Rightarrow> ChunkTicket \<Rightarrow> SourceProjectionChanges" where
  "changes_for_ticket pos t =
     \<lparr>load_positions = (if loading_level t \<noteq> None then [pos] else []),
      simulation_positions = (if simulation_level t \<noteq> None then [pos] else [])\<rparr>"

definition changes_merge :: "SourceProjectionChanges \<Rightarrow> SourceProjectionChanges \<Rightarrow> SourceProjectionChanges" where
  "changes_merge a b =
     \<lparr>load_positions = load_positions a @ load_positions b,
      simulation_positions = simulation_positions a @ simulation_positions b\<rparr>"

record ChunkTicketStorage =
  tickets :: "(ChunkPos \<times> StoredChunkTicket list) list"
  timed_generation :: u64

definition storage_new :: ChunkTicketStorage where
  "storage_new = \<lparr>tickets = [], timed_generation = 0\<rparr>"

definition allocate_timed_generation :: "ChunkTicketStorage \<Rightarrow> (u64 \<times> ChunkTicketStorage) option" where
  "allocate_timed_generation s =
     (if timed_generation s = - 1 then None
      else (let g = timed_generation s + 1 in Some (g, s\<lparr>timed_generation := g\<rparr>)))"

definition generation_for :: "TicketTypeRef \<Rightarrow> ChunkTicketStorage \<Rightarrow> (u64 option \<times> ChunkTicketStorage) option" where
  "generation_for ty s =
     (if has_timeout ty then map_option (\<lambda>(g, s). (Some g, s)) (allocate_timed_generation s) else Some (None, s))"

text \<open>The tickets of a position, or none (\<open>entry(pos).or_default()\<close>).\<close>

definition tickets_at :: "ChunkPos \<Rightarrow> ChunkTicketStorage \<Rightarrow> StoredChunkTicket list" where
  "tickets_at pos s = (case map_of (tickets s) pos of None \<Rightarrow> [] | Some ts \<Rightarrow> ts)"

text \<open>\<open>iter_mut().find\<close> and the refresh of the entry found.\<close>

fun refresh_stored :: "ChunkTicket \<Rightarrow> u64 option \<Rightarrow> StoredChunkTicket list \<Rightarrow> StoredChunkTicket list option" where
  "refresh_stored t g [] = None"
| "refresh_stored t g (s # ss) =
     (if ticket_eq (stored_ticket s) t
      then Some (\<lparr>stored_ticket = reset_ticks_left (stored_ticket s), stored_generation = g\<rparr> # ss)
      else map_option ((#) s) (refresh_stored t g ss))"

definition add_ticket :: "ChunkPos \<Rightarrow> ChunkTicket \<Rightarrow> ChunkTicketStorage \<Rightarrow>
    (SourceProjectionChanges \<times> ChunkTicketStorage) option" where
  "add_ticket pos t s =
     (case generation_for (ticket_type t) s of
        None \<Rightarrow> None
      | Some (g, s) \<Rightarrow>
          (case refresh_stored t g (tickets_at pos s) of
             Some ts \<Rightarrow> Some (no_changes, s\<lparr>tickets := AList.update pos ts (tickets s)\<rparr>)
           | None \<Rightarrow>
               Some (changes_for_ticket pos t,
                 s\<lparr>tickets := AList.update pos (tickets_at pos s @ [\<lparr>stored_ticket = t, stored_generation = g\<rparr>]) (tickets s)\<rparr>)))"

fun position :: "('a \<Rightarrow> bool) \<Rightarrow> 'a list \<Rightarrow> nat option" where
  "position P [] = None"
| "position P (x # xs) = (if P x then Some 0 else map_option Suc (position P xs))"

text \<open>\<open>Vec::swap_remove\<close>: the last element takes the place of the removed one.\<close>

definition swap_remove :: "nat \<Rightarrow> 'a list \<Rightarrow> 'a \<times> 'a list" where
  "swap_remove i xs = (xs ! i, butlast (xs[i := last xs]))"

text \<open>Stores the remaining tickets of a position, or drops its entry when none are left.\<close>

definition put_tickets :: "ChunkPos \<Rightarrow> StoredChunkTicket list \<Rightarrow> ChunkTicketStorage \<Rightarrow> ChunkTicketStorage" where
  "put_tickets pos ts s =
     s\<lparr>tickets := (if ts = [] then AList.delete pos (tickets s) else AList.update pos ts (tickets s))\<rparr>"

definition remove_ticket :: "ChunkPos \<Rightarrow> ChunkTicket \<Rightarrow> ChunkTicketStorage \<Rightarrow>
    SourceProjectionChanges \<times> ChunkTicketStorage" where
  "remove_ticket pos t s =
     (case map_of (tickets s) pos of
        None \<Rightarrow> (no_changes, s)
      | Some ts \<Rightarrow>
          (case position (\<lambda>st. ticket_eq (stored_ticket st) t) ts of
             None \<Rightarrow> (no_changes, s)
           | Some i \<Rightarrow>
               (let (removed, ts') = swap_remove i ts in
                (changes_for_ticket pos (stored_ticket removed), put_tickets pos ts' s))))"

text \<open>\<open>Iterator::min\<close>.\<close>

fun iter_min :: "nat list \<Rightarrow> nat option" where
  "iter_min [] = None"
| "iter_min (x # xs) = Some (fold min xs x)"

definition load_source_level :: "ChunkPos \<Rightarrow> ChunkTicketStorage \<Rightarrow> ChunkTicketLevel option" where
  "load_source_level pos s =
     (case map_of (tickets s) pos of
        None \<Rightarrow> None
      | Some ts \<Rightarrow> iter_min (List.map_filter (\<lambda>st. loading_level (stored_ticket st)) ts))"

definition simulation_source_level :: "ChunkPos \<Rightarrow> ChunkTicketStorage \<Rightarrow> ChunkTicketLevel option" where
  "simulation_source_level pos s =
     (case map_of (tickets s) pos of
        None \<Rightarrow> None
      | Some ts \<Rightarrow>
          iter_min (filter level_is_block_ticking (List.map_filter (\<lambda>st. simulation_level (stored_ticket st)) ts)))"

definition load_source_update :: "ChunkTicketStorage \<Rightarrow> ChunkPos \<Rightarrow> SourceLevelUpdate" where
  "load_source_update s pos = \<lparr>update_pos = pos, update_level = load_source_level pos s\<rparr>"

definition simulation_source_update :: "ChunkTicketStorage \<Rightarrow> ChunkPos \<Rightarrow> SourceLevelUpdate" where
  "simulation_source_update s pos = \<lparr>update_pos = pos, update_level = simulation_source_level pos s\<rparr>"

definition pos_key :: "ChunkPos \<Rightarrow> int \<times> int" where
  "pos_key p = (sint (chunk_x p), sint (chunk_z p))"

definition initial_sources :: "(ChunkTicketStorage \<Rightarrow> ChunkPos \<Rightarrow> SourceLevelUpdate) \<Rightarrow> ChunkTicketStorage \<Rightarrow>
    SourceLevelUpdate list" where
  "initial_sources source_update s =
     sort_key (\<lambda>u. pos_key (update_pos u))
       (filter (\<lambda>u. update_level u \<noteq> None) (map (source_update s) (map fst (tickets s))))"

definition initial_load_sources :: "ChunkTicketStorage \<Rightarrow> SourceLevelUpdate list" where
  "initial_load_sources s = initial_sources load_source_update s"

definition initial_simulation_sources :: "ChunkTicketStorage \<Rightarrow> SourceLevelUpdate list" where
  "initial_simulation_sources s = initial_sources simulation_source_update s"

definition add_or_refresh_portal_ticket :: "ChunkPos \<Rightarrow> ChunkTicketStorage \<Rightarrow>
    (SourceProjectionChanges \<times> ChunkTicketStorage) option" where
  "add_or_refresh_portal_ticket pos s = add_ticket pos portal_ticket s"

definition add_or_refresh_ender_pearl_ticket :: "ChunkPos \<Rightarrow> ChunkTicketStorage \<Rightarrow>
    (SourceProjectionChanges \<times> ChunkTicketStorage) option" where
  "add_or_refresh_ender_pearl_ticket pos s = add_ticket pos ender_pearl_ticket s"

text \<open>The order of \<open>compare_expirations\<close>.\<close>

definition expiration_key :: "TimedTicketExpiration \<Rightarrow> (int \<times> int) \<times> Identifier \<times> nat" where
  "expiration_key e =
     (pos_key (exp_pos e), ticket_type_key (ticket_type (exp_ticket e)), ticket_level (exp_ticket e))"

definition stored_expiration :: "ChunkPos \<Rightarrow> StoredChunkTicket \<Rightarrow> TimedTicketExpiration option" where
  "stored_expiration pos st =
     map_option (\<lambda>g. \<lparr>exp_pos = pos, exp_ticket = stored_ticket st, exp_generation = g\<rparr>) (stored_generation st)"

definition timed_ticket_expirations :: "ChunkTicketStorage \<Rightarrow> TimedTicketExpiration list" where
  "timed_ticket_expirations s =
     sort_key expiration_key (concat (map (\<lambda>(pos, ts). List.map_filter (stored_expiration pos) ts) (tickets s)))"

text \<open>One turn of the loop of \<open>tick_timed_tickets\<close>.\<close>

definition tick_timed_ticket :: "TimedTicketExpiration \<Rightarrow> SourceProjectionChanges \<times> ChunkTicketStorage \<Rightarrow>
    SourceProjectionChanges \<times> ChunkTicketStorage" where
  "tick_timed_ticket e cs =
     (case cs of (ch, s) \<Rightarrow>
       (case map_of (tickets s) (exp_pos e) of
          None \<Rightarrow> cs
        | Some ts \<Rightarrow>
            (case position (\<lambda>st. ticket_eq (stored_ticket st) (exp_ticket e) \<and>
                     stored_generation st = Some (exp_generation e)) ts of
               None \<Rightarrow> cs
             | Some i \<Rightarrow>
                 (let ts' = ts[i := (ts ! i)\<lparr>stored_ticket := decrease_ticks_left (stored_ticket (ts ! i))\<rparr>] in
                  if \<not> is_timed_out (stored_ticket (ts' ! i)) then (ch, put_tickets (exp_pos e) ts' s)
                  else
                    (let (expired, rest) = swap_remove i ts' in
                     (changes_merge ch (changes_for_ticket (exp_pos e) (stored_ticket expired)),
                      put_tickets (exp_pos e) rest s))))))"

definition tick_timed_tickets :: "TimedTicketExpiration list \<Rightarrow> ChunkTicketStorage \<Rightarrow>
    SourceProjectionChanges \<times> ChunkTicketStorage" where
  "tick_timed_tickets es s = fold tick_timed_ticket es (no_changes, s)"

section \<open>Persistence\<close>

text \<open>The order of \<open>compare_persistent_tickets\<close>.\<close>

definition persistent_key :: "PersistentChunkTicket \<Rightarrow> (int \<times> int) \<times> Identifier \<times> nat" where
  "persistent_key t = ((sint (pt_chunk_x t), sint (pt_chunk_z t)), pt_type t, pt_level t)"

definition storage_to_persistent :: "ChunkTicketStorage \<Rightarrow> PersistentChunkTicket list" where
  "storage_to_persistent s =
     sort_key persistent_key (concat (map (\<lambda>(pos, ts). List.map_filter (stored_to_persistent pos) ts) (tickets s)))"

definition add_loaded_ticket :: "ChunkPos \<Rightarrow> ChunkTicket \<Rightarrow> ChunkTicketStorage \<Rightarrow> ChunkTicketStorage option" where
  "add_loaded_ticket pos t s =
     (case generation_for (ticket_type t) s of
        None \<Rightarrow> None
      | Some (g, s) \<Rightarrow>
          (case refresh_stored t g (tickets_at pos s) of
             Some ts \<Rightarrow> Some (s\<lparr>tickets := AList.update pos ts (tickets s)\<rparr>)
           | None \<Rightarrow>
               Some (s\<lparr>tickets := AList.update pos (tickets_at pos s @ [\<lparr>stored_ticket = t, stored_generation = g\<rparr>]) (tickets s)\<rparr>)))"

text \<open>The registry of ticket types is the first argument; the inner result is the \<open>Result\<close> of the
  code.\<close>

definition add_loaded_persistent_ticket :: "TicketTypeRef Registry \<Rightarrow> PersistentChunkTicket \<Rightarrow> ChunkTicketStorage \<Rightarrow>
    (ChunkTicketStorageLoadError option \<times> ChunkTicketStorage) option" where
  "add_loaded_persistent_ticket reg p s =
     (case by_key (pt_type p) reg of
        None \<Rightarrow> Some (Some (UnknownTicketType (pt_type p)), s)
      | Some ty \<Rightarrow>
          (case level_new (pt_level p) of
             None \<Rightarrow> Some (Some (InvalidTicketLevel (pt_type p) (pt_level p)), s)
           | Some l \<Rightarrow>
               map_option (\<lambda>s. (None, s))
                 (add_loaded_ticket (ChunkPos (pt_chunk_x p) (pt_chunk_z p)) (ticket_from_saved ty l (pt_ticks_left p)) s)))"

fun add_loaded_all :: "TicketTypeRef Registry \<Rightarrow> PersistentChunkTicket list \<Rightarrow> ChunkTicketStorage \<Rightarrow> ChunkTicketStorage option" where
  "add_loaded_all reg [] s = Some s"
| "add_loaded_all reg (p # ps) s =
     (case add_loaded_persistent_ticket reg p s of None \<Rightarrow> None | Some (_, s') \<Rightarrow> add_loaded_all reg ps s')"

definition storage_from_persistent :: "TicketTypeRef Registry \<Rightarrow> PersistentChunkTicket list \<Rightarrow> ChunkTicketStorage option" where
  "storage_from_persistent reg ps = add_loaded_all reg ps storage_new"

end
