(* ===== verification/Ticket_Map.thy ===== *)
theory Ticket_Map
  imports Ticket_Storage
begin

text \<open>
  The ticket storage as a map from positions and ticket identities to remaining time and timed
  generation: the well-formedness of the stored lists, the effect of every mutation on the map, the
  source levels read off the map, and the dirty positions every mutation reports.
\<close>


section \<open>Lists of stored tickets as maps\<close>

type_synonym TicketId = "TicketTypeRef \<times> ChunkTicketLevel"
type_synonym TicketMap = "ChunkPos \<Rightarrow> TicketId \<rightharpoonup> i64 \<times> u64 option"

definition ticket_id :: "ChunkTicket \<Rightarrow> TicketId" where
  "ticket_id t = (ticket_type t, ticket_level t)"

definition stored_id :: "StoredChunkTicket \<Rightarrow> TicketId" where
  "stored_id st = ticket_id (stored_ticket st)"

definition stored_value :: "StoredChunkTicket \<Rightarrow> i64 \<times> u64 option" where
  "stored_value st = (ticks_left (stored_ticket st), stored_generation st)"

definition list_map :: "StoredChunkTicket list \<Rightarrow> TicketId \<rightharpoonup> i64 \<times> u64 option" where
  "list_map ts = map_of (map (\<lambda>st. (stored_id st, stored_value st)) ts)"

lemma ticket_eq_id: "ticket_eq a b \<longleftrightarrow> ticket_id a = ticket_id b"
  by (auto simp: ticket_eq_def ticket_id_def)

lemma list_map_simps [simp]:
  "list_map [] = Map.empty" "list_map (st # ts) = (list_map ts)(stored_id st \<mapsto> stored_value st)"
  by (simp_all add: list_map_def)

lemma dom_list_map: "dom (list_map ts) = stored_id ` set ts"
  by (simp add: list_map_def dom_map_of_conv_image_fst image_image)

lemma list_map_None: "list_map ts i = None \<longleftrightarrow> i \<notin> stored_id ` set ts"
  using dom_list_map [of ts] by blast

lemma list_map_Some:
  "distinct (map stored_id ts) \<Longrightarrow> list_map ts i = Some v \<longleftrightarrow> (\<exists>st \<in> set ts. stored_id st = i \<and> stored_value st = v)"
  by (induction ts) (auto simp: image_iff)

lemma reset_id [simp]: "ticket_id (reset_ticks_left t) = ticket_id t" "ticket_id (decrease_ticks_left t) = ticket_id t"
  by (simp_all add: ticket_id_def reset_ticks_left_def decrease_ticks_left_def)

lemma refresh_stored_None: "refresh_stored t g ts = None \<longleftrightarrow> list_map ts (ticket_id t) = None"
  by (induction ts) (auto simp: ticket_eq_id stored_id_def)

lemma refresh_stored_Some:
  assumes "refresh_stored t g ts = Some ts'"
  shows "map stored_id ts' = map stored_id ts \<and>
    list_map ts' = (list_map ts)(ticket_id t \<mapsto> (timeout (ticket_type t), g)) \<and>
    (\<forall>st' \<in> set ts'. st' \<in> set ts \<or> stored_generation st' = g \<and> stored_id st' = ticket_id t)"
  using assms
proof (induction ts arbitrary: ts')
  case (Cons st ts)
  show ?case
  proof (cases "ticket_id (stored_ticket st) = ticket_id t")
    case True
    then have ts': "ts' = \<lparr>stored_ticket = reset_ticks_left (stored_ticket st), stored_generation = g\<rparr> # ts"
      using Cons.prems by (simp add: ticket_eq_id)
    have "ticket_type (stored_ticket st) = ticket_type t" using True by (simp add: ticket_id_def)
    then show ?thesis using True ts' by (auto simp: stored_id_def stored_value_def reset_ticks_left_def ticket_id_def)
  next
    case False
    then obtain ts1 where ts1: "refresh_stored t g ts = Some ts1" "ts' = st # ts1"
      using Cons.prems by (auto simp: ticket_eq_id)
    with Cons.IH [OF ts1(1)] False show ?thesis by (auto simp: stored_id_def fun_upd_twist)
  qed
qed simp

lemma list_map_snoc:
  "list_map ts (stored_id st) = None \<Longrightarrow> list_map (ts @ [st]) = (list_map ts)(stored_id st \<mapsto> stored_value st)"
  by (induction ts) (auto simp: fun_upd_twist split: if_splits)

lemma position_Some: "position P xs = Some i \<Longrightarrow> i < length xs \<and> P (xs ! i)"
  by (induction xs arbitrary: i) (auto split: if_splits)

lemma position_None: "position P xs = None \<longleftrightarrow> (\<forall>x \<in> set xs. \<not> P x)"
  by (induction xs) auto

lemma swap_remove_mset:
  assumes "i < length xs" shows "add_mset (xs ! i) (mset (snd (swap_remove i xs))) = mset xs"
proof -
  let ?ys = "xs[i := last xs]"
  have ne: "?ys \<noteq> []" using assms by auto
  have "last ?ys = last xs" using assms by (cases "xs = []") (auto simp: last_list_update)
  then have "mset ?ys = add_mset (last xs) (mset (butlast ?ys))"
    using ne by (metis append_butlast_last_id mset.simps(2) mset_append union_mset_add_mset_right add.right_neutral mset.simps(1))
  moreover have "mset ?ys = add_mset (last xs) (mset xs - {#xs ! i#})" using assms by (simp add: mset_update)
  ultimately have "mset (butlast ?ys) = mset xs - {#xs ! i#}" by simp
  then show ?thesis using assms by (simp add: swap_remove_def)
qed

lemma list_map_remove:
  assumes "distinct (map stored_id ts)" "mset ts = add_mset st (mset ts')"
  shows "distinct (map stored_id ts')" "list_map ts' = (list_map ts)(stored_id st := None)" "set ts' \<subseteq> set ts"
proof -
  have "mset (map stored_id ts) = mset (map stored_id (st # ts'))" using assms(2) by simp
  then have d: "distinct (map stored_id (st # ts'))" using assms(1) mset_eq_imp_distinct_iff by blast
  then show "distinct (map stored_id ts')" by simp
  have s: "set ts = insert st (set ts')" using assms(2) by (metis set_mset_mset set_mset_add_mset_insert)
  then show "set ts' \<subseteq> set ts" by blast
  show "list_map ts' = (list_map ts)(stored_id st := None)"
  proof (rule ext)
    fix i show "list_map ts' i = ((list_map ts)(stored_id st := None)) i"
    proof (cases "i = stored_id st")
      case True
      then show ?thesis using d by (simp add: list_map_None)
    next
      case False
      have "list_map ts' i = Some v \<longleftrightarrow> list_map ts i = Some v" for v
        using d False s by (simp add: list_map_Some assms(1))
      then show ?thesis using False by (metis fun_upd_other not_Some_eq)
    qed
  qed
qed

section \<open>The storage as a map\<close>

definition ticket_map :: "ChunkTicketStorage \<Rightarrow> TicketMap" where
  "ticket_map s pos = list_map (tickets_at pos s)"

text \<open>A stored ticket is tagged with a generation exactly when its type is timed.\<close>

definition stored_ok :: "u64 \<Rightarrow> StoredChunkTicket \<Rightarrow> bool" where
  "stored_ok g st \<longleftrightarrow>
     ticket_level (stored_ticket st) \<le> MAX_LEVEL_RAW \<and>
     (case stored_generation st of
        None \<Rightarrow> \<not> has_timeout (ticket_type (stored_ticket st))
      | Some g' \<Rightarrow> has_timeout (ticket_type (stored_ticket st)) \<and> g' \<le> g)"

definition list_ok :: "u64 \<Rightarrow> StoredChunkTicket list \<Rightarrow> bool" where
  "list_ok g ts \<longleftrightarrow> distinct (map stored_id ts) \<and> (\<forall>st \<in> set ts. stored_ok g st)"

definition storage_wf :: "ChunkTicketStorage \<Rightarrow> bool" where
  "storage_wf s \<longleftrightarrow>
     distinct (map fst (tickets s)) \<and> (\<forall>(p, ts) \<in> set (tickets s). ts \<noteq> []) \<and>
     (\<forall>p. list_ok (timed_generation s) (tickets_at p s))"

lemma storage_wf_new: "storage_wf storage_new"
  by (simp add: storage_wf_def storage_new_def tickets_at_def list_ok_def)

lemma ticket_map_new: "ticket_map storage_new = (\<lambda>_. Map.empty)"
  by (rule ext) (simp add: ticket_map_def storage_new_def tickets_at_def)

lemma tickets_at_update [simp]:
  "tickets_at p (s\<lparr>tickets := AList.update pos ts (tickets s)\<rparr>) = (if p = pos then ts else tickets_at p s)"
  by (simp add: tickets_at_def update_conv')

lemma tickets_at_put [simp]: "tickets_at p (put_tickets pos ts s) = (if p = pos then ts else tickets_at p s)"
  by (simp add: put_tickets_def tickets_at_def update_conv' delete_conv')

lemma tickets_at_generation [simp]: "tickets_at p (s\<lparr>timed_generation := g\<rparr>) = tickets_at p s"
  by (simp add: tickets_at_def)

lemma put_tickets_generation [simp]: "timed_generation (put_tickets pos ts s) = timed_generation s"
  by (simp add: put_tickets_def)

lemma map_of_tickets: "storage_wf s \<Longrightarrow> map_of (tickets s) p = (if tickets_at p s = [] then None else Some (tickets_at p s))"
  by (auto simp: storage_wf_def tickets_at_def dest!: map_of_SomeD split: option.split)

lemma set_update_alist: "(p, ts') \<in> set (AList.update pos ts xs) \<Longrightarrow> (p, ts') \<in> set xs \<or> (p, ts') = (pos, ts)"
  by (induction xs) (auto split: if_splits)

lemma storage_wf_put:
  assumes "storage_wf s" "list_ok (timed_generation s) ts"
  shows "storage_wf (put_tickets pos ts s)"
proof -
  have "distinct (map fst (tickets (put_tickets pos ts s)))"
    using assms(1) by (simp add: storage_wf_def put_tickets_def distinct_update distinct_delete)
  moreover have "\<forall>(p, ts) \<in> set (tickets (put_tickets pos ts s)). ts \<noteq> []"
    using assms(1) by (auto simp: storage_wf_def put_tickets_def AList.delete_eq dest!: set_update_alist)
  ultimately show ?thesis using assms by (simp add: storage_wf_def)
qed

lemma ticket_map_put [simp]: "ticket_map (put_tickets pos ts s) = (ticket_map s)(pos := list_map ts)"
  by (rule ext) (simp add: ticket_map_def)

lemma stored_ok_mono: "stored_ok g st \<Longrightarrow> g \<le> g' \<Longrightarrow> stored_ok g' st"
  by (auto simp: stored_ok_def split: option.splits)

lemma list_ok_mono: "list_ok g ts \<Longrightarrow> g \<le> g' \<Longrightarrow> list_ok g' ts"
  by (auto simp: list_ok_def intro: stored_ok_mono)

lemma allocate_mono: "timed_generation s \<noteq> - 1 \<Longrightarrow> timed_generation s \<le> timed_generation s + (1 :: u64)"
  using unatSuc [of "timed_generation s"] by (simp add: add.commute eq_neg_iff_add_eq_0 word_le_nat_alt)


section \<open>Operations on the map\<close>

lemma generation_for_cases:
  assumes "storage_wf s"
  shows "case generation_for ty s of
      None \<Rightarrow> has_timeout ty \<and> timed_generation s = - 1
    | Some (g, s') \<Rightarrow> s' = s\<lparr>timed_generation := timed_generation s'\<rparr> \<and> timed_generation s \<le> timed_generation s' \<and>
        g = (if has_timeout ty then Some (timed_generation s') else None) \<and>
        (\<not> has_timeout ty \<longrightarrow> s' = s) \<and> (has_timeout ty \<longrightarrow> timed_generation s' = timed_generation s + 1)"
  using allocate_mono [of s] by (simp add: generation_for_def allocate_timed_generation_def Let_def)

lemma storage_wf_generation: "storage_wf s \<Longrightarrow> timed_generation s \<le> g \<Longrightarrow> storage_wf (s\<lparr>timed_generation := g\<rparr>)"
  by (auto simp: storage_wf_def intro: list_ok_mono)

text \<open>The entry an added ticket leaves: a refreshed one has its full time again.\<close>

definition added_entry :: "ChunkTicket \<Rightarrow> u64 option \<Rightarrow> (i64 \<times> u64 option) option \<Rightarrow> i64 \<times> u64 option" where
  "added_entry t g old = ((case old of None \<Rightarrow> ticks_left t | Some _ \<Rightarrow> timeout (ticket_type t)), g)"

text \<open>The list after adding a ticket.\<close>

definition add_stored :: "ChunkTicket \<Rightarrow> u64 option \<Rightarrow> StoredChunkTicket list \<Rightarrow> StoredChunkTicket list" where
  "add_stored t g ts =
     (case refresh_stored t g ts of
        Some ts' \<Rightarrow> ts'
      | None \<Rightarrow> ts @ [\<lparr>stored_ticket = t, stored_generation = g\<rparr>])"

lemma add_stored_ne: "add_stored t g ts \<noteq> []"
  by (cases ts) (auto simp: add_stored_def split: option.splits if_splits)

lemma add_stored_map: "list_map (add_stored t g ts) = (list_map ts)(ticket_id t \<mapsto> added_entry t g (list_map ts (ticket_id t)))"
proof (cases "refresh_stored t g ts")
  case None
  then have n: "list_map ts (ticket_id t) = None" by (simp add: refresh_stored_None)
  let ?st = "\<lparr>stored_ticket = t, stored_generation = g\<rparr>"
  have i: "stored_id ?st = ticket_id t" by (simp add: stored_id_def)
  with n list_map_snoc [of ts ?st] None show ?thesis
    by (simp add: add_stored_def added_entry_def stored_value_def)
next
  case (Some ts')
  have "list_map ts (ticket_id t) \<noteq> None" using refresh_stored_None [of t g ts] Some by simp
  with refresh_stored_Some [OF Some] Some show ?thesis by (auto simp: add_stored_def added_entry_def)
qed

lemma add_stored_ok:
  assumes "list_ok k ts" "ticket_level t \<le> MAX_LEVEL_RAW" "g = (if has_timeout (ticket_type t) then Some k else None)"
  shows "list_ok k (add_stored t g ts)"
proof -
  have new: "stored_ok k st" if "stored_id st = ticket_id t" "stored_generation st = g" for st
    using that assms(2,3) by (auto simp: stored_ok_def stored_id_def ticket_id_def)
  show ?thesis
  proof (cases "refresh_stored t g ts")
    case None
    then have "ticket_id t \<notin> stored_id ` set ts" by (simp add: refresh_stored_None list_map_None)
    moreover have "stored_ok k \<lparr>stored_ticket = t, stored_generation = g\<rparr>" by (rule new) (simp_all add: stored_id_def)
    ultimately show ?thesis using assms(1) None by (auto simp: list_ok_def add_stored_def stored_id_def)
  next
    case (Some ts')
    with refresh_stored_Some [OF Some] assms(1) new show ?thesis by (auto simp: list_ok_def add_stored_def)
  qed
qed

lemma add_ticket_stored:
  "add_ticket pos t s =
     map_option (\<lambda>(g, s'). (if ticket_map s' pos (ticket_id t) = None then changes_for_ticket pos t else no_changes,
       put_tickets pos (add_stored t g (tickets_at pos s')) s')) (generation_for (ticket_type t) s)"
proof (cases "generation_for (ticket_type t) s")
  case (Some gs)
  obtain g s' where gs: "gs = (g, s')" by fastforce
  have "ticket_map s' pos (ticket_id t) = None \<longleftrightarrow> refresh_stored t g (tickets_at pos s') = None"
    by (simp add: ticket_map_def refresh_stored_None)
  with Some gs add_stored_ne [of t g "tickets_at pos s'"] show ?thesis
    by (simp add: add_ticket_def put_tickets_def) (simp add: add_stored_def split: option.split)
qed (simp add: add_ticket_def)

lemma add_loaded_ticket_eq: "add_loaded_ticket pos t s = map_option snd (add_ticket pos t s)"
  by (auto simp: add_ticket_def add_loaded_ticket_def split: option.split)

lemma add_ticket_ok:
  assumes wf: "storage_wf s" and l: "ticket_level t \<le> MAX_LEVEL_RAW"
  shows "case add_ticket pos t s of
      None \<Rightarrow> has_timeout (ticket_type t) \<and> timed_generation s = - 1
    | Some (c, s') \<Rightarrow> storage_wf s' \<and>
        c = (if ticket_map s pos (ticket_id t) = None then changes_for_ticket pos t else no_changes) \<and>
        (\<exists>g. ticket_map s' = (ticket_map s)(pos := (ticket_map s pos)(ticket_id t \<mapsto> added_entry t g (ticket_map s pos (ticket_id t)))) \<and>
          g = (if has_timeout (ticket_type t) then Some (timed_generation s') else None)) \<and>
        (\<not> has_timeout (ticket_type t) \<longrightarrow> timed_generation s' = timed_generation s) \<and>
        (has_timeout (ticket_type t) \<longrightarrow> timed_generation s' = timed_generation s + 1)"
proof (cases "generation_for (ticket_type t) s")
  case None
  then show ?thesis using generation_for_cases [OF wf, of "ticket_type t"] by (simp add: add_ticket_stored)
next
  case (Some gs)
  obtain g s1 where gs: "generation_for (ticket_type t) s = Some (g, s1)" using Some by (cases gs) auto
  note c = generation_for_cases [OF wf, of "ticket_type t", unfolded gs, simplified]
  then obtain k where s1: "s1 = s\<lparr>timed_generation := k\<rparr>" "timed_generation s \<le> k" by auto
  have wf1: "storage_wf s1" unfolding s1(1) by (rule storage_wf_generation [OF wf s1(2)])
  have m: "ticket_map s1 = ticket_map s" by (rule ext) (simp add: ticket_map_def s1)
  have ok: "list_ok (timed_generation s1) (tickets_at pos s1)" using wf1 by (simp add: storage_wf_def)
  have "storage_wf (put_tickets pos (add_stored t g (tickets_at pos s1)) s1)"
    by (rule storage_wf_put [OF wf1 add_stored_ok [OF ok l]]) (use c in simp)
  moreover have "list_map (tickets_at pos s1) = ticket_map s pos" using m by (metis ticket_map_def)
  ultimately show ?thesis using c m
    by (auto simp: add_ticket_stored gs add_stored_map)
qed

lemma remove_ticket_ok:
  assumes wf: "storage_wf s"
  shows "storage_wf (snd (remove_ticket pos t s)) \<and>
    ticket_map (snd (remove_ticket pos t s)) = (ticket_map s)(pos := (ticket_map s pos)(ticket_id t := None)) \<and>
    fst (remove_ticket pos t s) = (if ticket_map s pos (ticket_id t) = None then no_changes else changes_for_ticket pos t) \<and>
    timed_generation (snd (remove_ticket pos t s)) = timed_generation s"
proof (cases "position (\<lambda>st. ticket_eq (stored_ticket st) t) (tickets_at pos s)")
  case None
  then have n: "ticket_map s pos (ticket_id t) = None"
    by (auto simp: position_None ticket_eq_id ticket_map_def list_map_None stored_id_def)
  then have "(ticket_map s)(pos := (ticket_map s pos)(ticket_id t := None)) = ticket_map s" by (simp add: fun_upd_idem)
  moreover have "remove_ticket pos t s = (no_changes, s)"
    using None by (simp add: remove_ticket_def map_of_tickets [OF wf])
  ultimately show ?thesis using wf n by simp
next
  case (Some i)
  let ?ts = "tickets_at pos s" and ?ts' = "snd (swap_remove i (tickets_at pos s))"
  from position_Some [OF Some] have i: "i < length ?ts" "stored_id (?ts ! i) = ticket_id t"
    by (auto simp: ticket_eq_id stored_id_def)
  have ok: "list_ok (timed_generation s) ?ts" using wf by (simp add: storage_wf_def)
  then have d: "distinct (map stored_id ?ts)" by (simp add: list_ok_def)
  note r = list_map_remove [OF d swap_remove_mset [OF i(1), symmetric]]
  have "list_ok (timed_generation s) ?ts'" using ok r by (auto simp: list_ok_def)
  from storage_wf_put [OF wf this] have w: "storage_wf (put_tickets pos ?ts' s)" .
  have ne: "?ts \<noteq> []" using i(1) by auto
  have rem: "remove_ticket pos t s = (changes_for_ticket pos (stored_ticket (?ts ! i)), put_tickets pos ?ts' s)"
    using Some ne by (simp add: remove_ticket_def map_of_tickets [OF wf] swap_remove_def)
  have "ticket_map s pos (ticket_id t) \<noteq> None"
    unfolding ticket_map_def list_map_None using i by (metis imageI nth_mem not_not)
  moreover have "changes_for_ticket pos (stored_ticket (?ts ! i)) = changes_for_ticket pos t"
    using i(2) by (simp add: changes_for_ticket_def loading_level_def simulation_level_def stored_id_def ticket_id_def)
  moreover have "list_map ?ts' = (ticket_map s pos)(ticket_id t := None)" using r(2) i(2) by (simp add: ticket_map_def)
  ultimately show ?thesis using w by (auto simp: rem)
qed


text \<open>Aging one entry: a stale expiration changes nothing.\<close>

definition aged_entry :: "TimedTicketExpiration \<Rightarrow> (i64 \<times> u64 option) option \<Rightarrow> (i64 \<times> u64 option) option" where
  "aged_entry e old =
     (case old of
        None \<Rightarrow> None
      | Some (n, g) \<Rightarrow>
          if g \<noteq> Some (exp_generation e) then old else if sint (n - 1) < 0 then None else Some (n - 1, g))"

lemma list_map_nth: "distinct (map stored_id ts) \<Longrightarrow> i < length ts \<Longrightarrow> list_map ts (stored_id (ts ! i)) = Some (stored_value (ts ! i))"
  by (auto simp: list_map_Some intro: nth_mem)

lemma list_map_update:
  "distinct (map stored_id ts) \<Longrightarrow> i < length ts \<Longrightarrow> stored_id st = stored_id (ts ! i) \<Longrightarrow>
    list_map (ts[i := st]) = (list_map ts)(stored_id st \<mapsto> stored_value st)"
proof (induction ts arbitrary: i)
  case (Cons a ts)
  show ?case
  proof (cases i)
    case (Suc j)
    have "stored_id (ts ! j) \<noteq> stored_id a" using Cons.prems(1,2) Suc by (metis Suc_less_eq distinct.simps(2) in_set_conv_nth length_Cons length_map list.simps(9) nth_map)
    then have ne: "stored_id st \<noteq> stored_id a" using Cons.prems(3) Suc by simp
    have "list_map (ts[j := st]) = (list_map ts)(stored_id st \<mapsto> stored_value st)"
      by (rule Cons.IH) (use Cons.prems Suc in simp_all)
    then show ?thesis unfolding Suc list_update_code list_map_simps by (simp only: fun_upd_twist [OF ne])
  qed (use Cons.prems in \<open>auto simp: fun_eq_iff\<close>)
qed simp

lemma map_stored_id_update: "i < length ts \<Longrightarrow> stored_id st = stored_id (ts ! i) \<Longrightarrow> map stored_id (ts[i := st]) = map stored_id ts"
  by (simp add: map_update list_update_same_conv)

lemma tick_timed_ticket_ok:
  assumes wf: "storage_wf s"
    and p_def: "p = exp_pos e" and i_def: "i = ticket_id (exp_ticket e)"
  shows "\<exists>s' c. tick_timed_ticket e (ch, s) = (changes_merge ch c, s') \<and> storage_wf s' \<and>
    ticket_map s' = (ticket_map s)(p := (ticket_map s p)(i := aged_entry e (ticket_map s p i))) \<and>
    c = (if ticket_map s' p i = None \<and> ticket_map s p i \<noteq> None then changes_for_ticket p (exp_ticket e) else no_changes) \<and>
    timed_generation s' = timed_generation s"
proof (cases "position (\<lambda>st. ticket_eq (stored_ticket st) (exp_ticket e) \<and> stored_generation st = Some (exp_generation e)) (tickets_at p s)")
  case None
  have d: "distinct (map stored_id (tickets_at p s))" using wf by (simp add: storage_wf_def list_ok_def)
  have "g \<noteq> Some (exp_generation e)" if "ticket_map s p i = Some (n, g)" for n g
    using that None list_map_Some [OF d] unfolding ticket_map_def i_def position_None ticket_eq_id stored_id_def stored_value_def
    by fastforce
  then have "aged_entry e (ticket_map s p i) = ticket_map s p i" by (auto simp: aged_entry_def split: option.split)
  moreover have "tick_timed_ticket e (ch, s) = (ch, s)"
    using None by (simp add: tick_timed_ticket_def map_of_tickets [OF wf] p_def)
  ultimately show ?thesis using wf by (intro exI [of _ s] exI [of _ no_changes]) (auto simp: changes_merge_def no_changes_def)
next
  case (Some j)
  let ?ts = "tickets_at p s"
  let ?st = "(?ts ! j)\<lparr>stored_ticket := decrease_ticks_left (stored_ticket (?ts ! j))\<rparr>"
  let ?ts' = "?ts[j := ?st]"
  have ok: "list_ok (timed_generation s) ?ts" using wf by (simp add: storage_wf_def)
  then have d: "distinct (map stored_id ?ts)" by (simp add: list_ok_def)
  from position_Some [OF Some] have j: "j < length ?ts" "stored_id (?ts ! j) = i" "stored_generation (?ts ! j) = Some (exp_generation e)"
    by (auto simp: ticket_eq_id stored_id_def i_def)
  have jok: "stored_ok (timed_generation s) (?ts ! j)" using ok j(1) by (simp add: list_ok_def)
  then have to: "has_timeout (ticket_type (stored_ticket (?ts ! j)))" using j(3) by (simp add: stored_ok_def)
  have sid: "stored_id ?st = i" using j(2) by (simp add: stored_id_def)
  have val: "ticket_map s p i = Some (ticks_left (stored_ticket (?ts ! j)), Some (exp_generation e))"
    using list_map_nth [OF d j(1)] j(2,3) by (simp add: ticket_map_def stored_value_def)
  have stv: "stored_value ?st = (ticks_left (stored_ticket (?ts ! j)) - 1, Some (exp_generation e))"
    using to j(3) by (simp add: stored_value_def decrease_ticks_left_def)
  have "stored_ok (timed_generation s) ?st" using jok by (auto simp: stored_ok_def decrease_ticks_left_def split: option.splits)
  then have ok': "list_ok (timed_generation s) ?ts'"
    using ok j(1,2) sid map_stored_id_update [of j ?ts ?st] by (auto simp: list_ok_def dest: set_update_subset_insert [THEN subsetD])
  have m': "list_map ?ts' = (ticket_map s p)(i \<mapsto> stored_value ?st)"
    using list_map_update [OF d j(1), of ?st] sid j(2) by (simp add: ticket_map_def)
  have ne: "?ts \<noteq> []" using j(1) by auto
  have out: "is_timed_out (stored_ticket ?st) \<longleftrightarrow> sint (ticks_left (stored_ticket (?ts ! j)) - 1) < 0"
    using to by (simp add: is_timed_out_def decrease_ticks_left_def)
  have nth: "?ts' ! j = ?st" using j(1) by simp
  show ?thesis
  proof (cases "is_timed_out (stored_ticket ?st)")
    case False
    then have "tick_timed_ticket e (ch, s) = (ch, put_tickets p ?ts' s)"
      using Some ne nth by (simp add: tick_timed_ticket_def map_of_tickets [OF wf] flip: p_def)
    moreover have "list_map ?ts' = (ticket_map s p)(i := aged_entry e (ticket_map s p i))"
      using False out m' stv by (simp add: val aged_entry_def)
    moreover have "storage_wf (put_tickets p ?ts' s)" by (rule storage_wf_put [OF wf ok'])
    ultimately show ?thesis using False out
      by (intro exI [of _ "put_tickets p ?ts' s"] exI [of _ no_changes])
        (simp add: val aged_entry_def changes_merge_def no_changes_def)
  next
    case True
    let ?rest = "snd (swap_remove j ?ts')"
    have d': "distinct (map stored_id ?ts')" using ok' by (simp add: list_ok_def)
    have j': "j < length ?ts'" using j(1) by simp
    note r = list_map_remove [OF d' swap_remove_mset [OF j', symmetric]]
    have w: "storage_wf (put_tickets p ?rest s)"
      by (rule storage_wf_put [OF wf]) (use ok' r in \<open>auto simp: list_ok_def\<close>)
    have "list_map ?rest = (ticket_map s p)(i := None)" using r(2) m' sid unfolding nth by simp
    then have "list_map ?rest = (ticket_map s p)(i := aged_entry e (ticket_map s p i))"
      using True out by (simp add: val aged_entry_def)
    moreover have "changes_for_ticket p (stored_ticket ?st) = changes_for_ticket p (exp_ticket e)"
      using sid by (simp add: changes_for_ticket_def loading_level_def simulation_level_def stored_id_def ticket_id_def i_def)
    moreover have "tick_timed_ticket e (ch, s) = (changes_merge ch (changes_for_ticket p (stored_ticket ?st)), put_tickets p ?rest s)"
      using Some ne nth True by (simp add: tick_timed_ticket_def map_of_tickets [OF wf] swap_remove_def flip: p_def)
    ultimately show ?thesis using w True out
      by (intro exI [of _ "put_tickets p ?rest s"] exI [of _ "changes_for_ticket p (exp_ticket e)"])
        (simp add: val aged_entry_def)
  qed
qed


section \<open>Source levels\<close>

lemma fold_min: "fold min xs (x :: nat) = Min (insert x (set xs))"
  by (simp add: Min.set_eq_fold flip: set_simps(2))

lemma iter_min_Some: "iter_min xs = Some m \<longleftrightarrow> m \<in> set xs \<and> (\<forall>x \<in> set xs. m \<le> x)"
proof (cases xs)
  case (Cons a list)
  then show ?thesis using Min_eq_iff [of "set xs" m] by (auto simp: fold_min)
qed simp

lemma iter_min_None: "iter_min xs = None \<longleftrightarrow> xs = []"
  by (cases xs) simp_all

lemma iter_min_cong: "set xs = set ys \<Longrightarrow> iter_min xs = iter_min ys"
  using iter_min_Some [of xs] iter_min_Some [of ys] by (metis option.exhaust)

text \<open>The levels of the tickets of a domain at a position.\<close>

definition loads :: "TicketId \<Rightarrow> bool" where
  "loads i = does_load (fst i)"

definition simulates :: "TicketId \<Rightarrow> bool" where
  "simulates i \<longleftrightarrow> does_simulate (fst i) \<and> level_is_block_ticking (snd i)"

definition domain_levels :: "(TicketId \<Rightarrow> bool) \<Rightarrow> (TicketId \<rightharpoonup> 'v) \<Rightarrow> nat set" where
  "domain_levels P m = snd ` {i \<in> dom m. P i}"

lemma set_map_filter: "set (List.map_filter f xs) = {y. \<exists>x \<in> set xs. f x = Some y}"
  by (induction xs) (auto simp: map_filter_simps split: option.split)

lemma load_levels_set:
  "set (List.map_filter (\<lambda>st. loading_level (stored_ticket st)) ts) = domain_levels loads (list_map ts)"
  by (force simp: domain_levels_def dom_list_map set_map_filter loading_level_def stored_id_def ticket_id_def loads_def image_iff
      split: if_splits)

lemma simulation_levels_set:
  "set (filter level_is_block_ticking (List.map_filter (\<lambda>st. simulation_level (stored_ticket st)) ts)) =
     domain_levels simulates (list_map ts)"
  by (force simp: domain_levels_def dom_list_map set_map_filter simulation_level_def stored_id_def ticket_id_def simulates_def image_iff
      split: if_splits)

lemma source_level_tickets_at:
  "load_source_level p s = iter_min (List.map_filter (\<lambda>st. loading_level (stored_ticket st)) (tickets_at p s))"
  "simulation_source_level p s =
     iter_min (filter level_is_block_ticking (List.map_filter (\<lambda>st. simulation_level (stored_ticket st)) (tickets_at p s)))"
  by (simp_all add: load_source_level_def simulation_source_level_def tickets_at_def map_filter_simps split: option.split)

lemma load_source_level_iff:
  "load_source_level p s = Some l \<longleftrightarrow>
     l \<in> domain_levels loads (ticket_map s p) \<and> (\<forall>l' \<in> domain_levels loads (ticket_map s p). l \<le> l')"
  unfolding source_level_tickets_at iter_min_Some load_levels_set ticket_map_def by blast

lemma simulation_source_level_iff:
  "simulation_source_level p s = Some l \<longleftrightarrow>
     l \<in> domain_levels simulates (ticket_map s p) \<and> (\<forall>l' \<in> domain_levels simulates (ticket_map s p). l \<le> l')"
  unfolding source_level_tickets_at iter_min_Some simulation_levels_set ticket_map_def by blast

lemma domain_source_cong:
  "domain_levels loads (ticket_map s p) = domain_levels loads (ticket_map s' p) \<Longrightarrow> load_source_level p s = load_source_level p s'"
  "domain_levels simulates (ticket_map s p) = domain_levels simulates (ticket_map s' p) \<Longrightarrow>
    simulation_source_level p s = simulation_source_level p s'"
  using load_source_level_iff [of p s] load_source_level_iff [of p s'] simulation_source_level_iff [of p s]
    simulation_source_level_iff [of p s'] by (metis option.exhaust)+

lemma source_level_bounds:
  assumes "storage_wf s"
  shows "load_source_level p s = Some l \<Longrightarrow> l \<le> MAX_LEVEL_RAW"
    "simulation_source_level p s = Some l \<Longrightarrow> l \<le> BLOCK_TICKING_CHUNK"
proof -
  have "snd i \<le> MAX_LEVEL_RAW" if "i \<in> dom (ticket_map s p)" for i
    using that assms by (auto simp: ticket_map_def dom_list_map storage_wf_def list_ok_def stored_ok_def stored_id_def ticket_id_def)
  then show "load_source_level p s = Some l \<Longrightarrow> l \<le> MAX_LEVEL_RAW"
    by (auto simp: load_source_level_iff domain_levels_def)
  show "simulation_source_level p s = Some l \<Longrightarrow> l \<le> BLOCK_TICKING_CHUNK"
    by (auto simp: simulation_source_level_iff domain_levels_def simulates_def level_is_block_ticking_def)
qed

section \<open>Reported changes\<close>

text \<open>A report covers a mutation when no source level changed elsewhere.\<close>

definition changes_cover :: "SourceProjectionChanges \<Rightarrow> ChunkTicketStorage \<Rightarrow> ChunkTicketStorage \<Rightarrow> bool" where
  "changes_cover c s s' \<longleftrightarrow>
     (\<forall>p. p \<notin> set (load_positions c) \<longrightarrow> load_source_level p s' = load_source_level p s) \<and>
     (\<forall>p. p \<notin> set (simulation_positions c) \<longrightarrow> simulation_source_level p s' = simulation_source_level p s)"

lemma changes_cover_refl [simp]: "changes_cover c s s"
  by (simp add: changes_cover_def)

lemma changes_cover_merge:
  "changes_cover c s s' \<Longrightarrow> changes_cover c' s' s'' \<Longrightarrow> changes_cover (changes_merge c c') s s''"
  by (simp add: changes_cover_def changes_merge_def)

lemma domain_levels_upd:
  "\<not> P i \<or> (m i = None \<longleftrightarrow> v = None) \<Longrightarrow> domain_levels P (m(i := v)) = domain_levels P m"
proof -
  assume "\<not> P i \<or> (m i = None \<longleftrightarrow> v = None)"
  then have "{j \<in> dom (m(i := v)). P j} = {j \<in> dom m. P j}" by (auto split: if_splits)
  then show ?thesis by (simp add: domain_levels_def)
qed

lemma changes_cover_upd:
  assumes m: "ticket_map s' = (ticket_map s)(p := (ticket_map s p)(ticket_id t := v))"
    and c: "c = (if ticket_map s p (ticket_id t) = None \<longleftrightarrow> v = None then no_changes else changes_for_ticket p t)"
  shows "changes_cover c s s'"
proof -
  have "domain_levels P (ticket_map s' q) = domain_levels P (ticket_map s q)"
    if "q = p \<Longrightarrow> \<not> P (ticket_id t) \<or> (ticket_map s p (ticket_id t) = None \<longleftrightarrow> v = None)" for P q
    using domain_levels_upd [of P "ticket_id t" "ticket_map s p" v] that unfolding m by (cases "q = p") auto
  moreover have "\<not> loads (ticket_id t) \<or> (ticket_map s p (ticket_id t) = None \<longleftrightarrow> v = None)"
    if "p \<notin> set (load_positions c)"
    using that unfolding c by (auto simp: changes_for_ticket_def loading_level_def loads_def ticket_id_def split: if_splits)
  moreover have "\<not> simulates (ticket_id t) \<or> (ticket_map s p (ticket_id t) = None \<longleftrightarrow> v = None)"
    if "p \<notin> set (simulation_positions c)"
    using that unfolding c by (auto simp: changes_for_ticket_def simulation_level_def simulates_def ticket_id_def split: if_splits)
  ultimately show ?thesis unfolding changes_cover_def by (metis domain_source_cong)
qed

lemma add_ticket_covers:
  assumes "storage_wf s" "ticket_level t \<le> MAX_LEVEL_RAW" "add_ticket pos t s = Some (c, s')"
  shows "changes_cover c s s'"
proof -
  from add_ticket_ok [OF assms(1,2), of pos] assms(3) obtain v where
    "ticket_map s' = (ticket_map s)(pos := (ticket_map s pos)(ticket_id t \<mapsto> v))"
    "c = (if ticket_map s pos (ticket_id t) = None then changes_for_ticket pos t else no_changes)" by auto
  then show ?thesis by (intro changes_cover_upd) auto
qed

lemma remove_ticket_covers:
  assumes "storage_wf s" shows "changes_cover (fst (remove_ticket pos t s)) s (snd (remove_ticket pos t s))"
  using remove_ticket_ok [OF assms, of pos t] by (intro changes_cover_upd [where v = None]) auto

lemma tick_timed_ticket_covers:
  assumes "storage_wf s" "changes_cover ch s0 s"
  shows "storage_wf (snd (tick_timed_ticket e (ch, s))) \<and>
    changes_cover (fst (tick_timed_ticket e (ch, s))) s0 (snd (tick_timed_ticket e (ch, s)))"
proof -
  let ?p = "exp_pos e" and ?i = "ticket_id (exp_ticket e)"
  from tick_timed_ticket_ok [OF assms(1) refl refl, of e ch] obtain s' c where
    t: "tick_timed_ticket e (ch, s) = (changes_merge ch c, s')" "storage_wf s'"
      "ticket_map s' = (ticket_map s)(?p := (ticket_map s ?p)(?i := aged_entry e (ticket_map s ?p ?i)))"
      "c = (if ticket_map s' ?p ?i = None \<and> ticket_map s ?p ?i \<noteq> None then changes_for_ticket ?p (exp_ticket e) else no_changes)"
    by blast
  have "aged_entry e None = None" by (simp add: aged_entry_def)
  then have "changes_cover c s s'"
    by (intro changes_cover_upd [OF t(3)]) (use t(3,4) in auto)
  then show ?thesis using t(1,2) changes_cover_merge [OF assms(2)] by simp
qed

lemma tick_timed_tickets_covers:
  assumes "storage_wf s"
  shows "storage_wf (snd (tick_timed_tickets es s)) \<and>
    changes_cover (fst (tick_timed_tickets es s)) s (snd (tick_timed_tickets es s))"
proof -
  have "storage_wf (snd (fold tick_timed_ticket es (ch, s'))) \<and>
      changes_cover (fst (fold tick_timed_ticket es (ch, s'))) s (snd (fold tick_timed_ticket es (ch, s')))"
    if "storage_wf s'" "changes_cover ch s s'" for ch s'
    using that
  proof (induction es arbitrary: ch s')
    case (Cons e es)
    then show ?case using tick_timed_ticket_covers [OF Cons.prems, of e] by (cases "tick_timed_ticket e (ch, s')") auto
  qed simp
  then show ?thesis using assms by (simp add: tick_timed_tickets_def)
qed

end
