(* ===== verification/Ticket_Life.thy ===== *)
theory Ticket_Life
  imports Ticket_Map
begin

text \<open>
  The life of stored tickets: expiration passes, saving and loading, the reachable storages and
  the registry of built-in ticket types.
\<close>


section \<open>Expiration passes\<close>

definition exp_key :: "TimedTicketExpiration \<Rightarrow> ChunkPos \<times> TicketId" where
  "exp_key e = (exp_pos e, ticket_id (exp_ticket e))"

definition entry_at :: "ChunkTicketStorage \<Rightarrow> ChunkPos \<times> TicketId \<Rightarrow> (i64 \<times> u64 option) option" where
  "entry_at s k = ticket_map s (fst k) (snd k)"

lemma tick_timed_ticket_entry:
  assumes "storage_wf s"
  shows "entry_at (snd (tick_timed_ticket e (ch, s))) k =
    (if k = exp_key e then aged_entry e (entry_at s k) else entry_at s k)"
proof -
  from tick_timed_ticket_ok [OF assms refl refl, of e ch] obtain s' where
    "snd (tick_timed_ticket e (ch, s)) = s'"
    "ticket_map s' = (ticket_map s)(exp_pos e := (ticket_map s (exp_pos e))
      (ticket_id (exp_ticket e) := aged_entry e (ticket_map s (exp_pos e) (ticket_id (exp_ticket e)))))" by auto
  then show ?thesis by (cases k) (auto simp: entry_at_def exp_key_def)
qed

lemma tick_fold_entry_other:
  "storage_wf s \<Longrightarrow> (\<And>e. e \<in> set es \<Longrightarrow> exp_key e = k \<Longrightarrow> aged_entry e (entry_at s k) = entry_at s k) \<Longrightarrow>
    entry_at (snd (fold tick_timed_ticket es (ch, s))) k = entry_at s k"
proof (induction es arbitrary: ch s)
  case (Cons e es)
  obtain ch1 s1 where t: "tick_timed_ticket e (ch, s) = (ch1, s1)" by fastforce
  have wf: "storage_wf s1" using tick_timed_ticket_covers [OF Cons.prems(1) changes_cover_refl, of e ch] t by simp
  have "entry_at s1 k = entry_at s k"
    using tick_timed_ticket_entry [OF Cons.prems(1), of e ch k] t Cons.prems(2) [of e] by (auto split: if_splits)
  then show ?case using Cons.IH [OF wf, of ch1] Cons.prems(2) t by simp
qed simp

lemma tick_fold_entry:
  "storage_wf s \<Longrightarrow> distinct (map exp_key es) \<Longrightarrow> e \<in> set es \<Longrightarrow>
    entry_at (snd (fold tick_timed_ticket es (ch, s))) (exp_key e) = aged_entry e (entry_at s (exp_key e))"
proof (induction es arbitrary: ch s)
  case (Cons a es)
  obtain ch1 s1 where t: "tick_timed_ticket a (ch, s) = (ch1, s1)" by fastforce
  have wf: "storage_wf s1" using tick_timed_ticket_covers [OF Cons.prems(1) changes_cover_refl, of a ch] t by simp
  have s1: "entry_at s1 k = (if k = exp_key a then aged_entry a (entry_at s k) else entry_at s k)" for k
    using tick_timed_ticket_entry [OF Cons.prems(1), of a ch k] t by simp
  show ?case
  proof (cases "e \<in> set es")
    case True
    then have "exp_key e \<in> exp_key ` set es" by (rule imageI)
    then have "exp_key e \<noteq> exp_key a" using Cons.prems(2) by auto
    then show ?thesis using Cons.IH [OF wf _ True] Cons.prems(2) s1 t by simp
  next
    case False
    then have e: "e = a" using Cons.prems(3) by simp
    have "entry_at (snd (fold tick_timed_ticket es (ch1, s1))) (exp_key a) = entry_at s1 (exp_key a)"
    proof (rule tick_fold_entry_other [OF wf])
      fix b assume "b \<in> set es" "exp_key b = exp_key a"
      then have "exp_key a \<in> exp_key ` set es" by (metis imageI)
      then show "aged_entry b (entry_at s1 (exp_key a)) = entry_at s1 (exp_key a)" using Cons.prems(2) by simp
    qed
    then show ?thesis using s1 [of "exp_key a"] t e by simp
  qed
qed simp

text \<open>The snapshot lists every timed entry once.\<close>

lemma set_timed_ticket_expirations:
  "storage_wf s \<Longrightarrow> e \<in> set (timed_ticket_expirations s) \<longleftrightarrow>
    (\<exists>st \<in> set (tickets_at (exp_pos e) s). exp_ticket e = stored_ticket st \<and> stored_generation st = Some (exp_generation e))"
proof -
  assume wf: "storage_wf s"
  then have d: "distinct (map fst (tickets s))" by (simp add: storage_wf_def)
  have "e \<in> set (timed_ticket_expirations s) \<longleftrightarrow>
      (\<exists>ts. (exp_pos e, ts) \<in> set (tickets s) \<and>
        (\<exists>st \<in> set ts. exp_ticket e = stored_ticket st \<and> stored_generation st = Some (exp_generation e)))"
  proof
    assume "e \<in> set (timed_ticket_expirations s)"
    then show "\<exists>ts. (exp_pos e, ts) \<in> set (tickets s) \<and>
        (\<exists>st \<in> set ts. exp_ticket e = stored_ticket st \<and> stored_generation st = Some (exp_generation e))"
      by (auto simp: timed_ticket_expirations_def set_map_filter stored_expiration_def) blast
  next
    assume "\<exists>ts. (exp_pos e, ts) \<in> set (tickets s) \<and>
        (\<exists>st \<in> set ts. exp_ticket e = stored_ticket st \<and> stored_generation st = Some (exp_generation e))"
    then obtain ts st where "(exp_pos e, ts) \<in> set (tickets s)" "st \<in> set ts" "stored_expiration (exp_pos e) st = Some e"
      by (auto simp: stored_expiration_def)
    then show "e \<in> set (timed_ticket_expirations s)" by (force simp: timed_ticket_expirations_def set_map_filter)
  qed
  also have "\<dots> \<longleftrightarrow> (\<exists>st \<in> set (tickets_at (exp_pos e) s). exp_ticket e = stored_ticket st \<and> stored_generation st = Some (exp_generation e))"
    using d by (auto simp: tickets_at_def dest: map_of_SomeD split: option.split)
  finally show ?thesis .
qed

lemma expirations_entry:
  assumes "storage_wf s"
  shows "e \<in> set (timed_ticket_expirations s) \<Longrightarrow> entry_at s (exp_key e) = Some (ticks_left (exp_ticket e), Some (exp_generation e))"
    and "entry_at s k = Some (n, Some g) \<Longrightarrow> \<exists>e \<in> set (timed_ticket_expirations s). exp_key e = k \<and> exp_generation e = g"
proof -
  have d: "distinct (map stored_id (tickets_at p s))" for p using assms by (simp add: storage_wf_def list_ok_def)
  show "e \<in> set (timed_ticket_expirations s) \<Longrightarrow> entry_at s (exp_key e) = Some (ticks_left (exp_ticket e), Some (exp_generation e))"
    unfolding set_timed_ticket_expirations [OF assms] entry_at_def exp_key_def ticket_map_def
    by (auto simp: list_map_Some [OF d] stored_id_def stored_value_def)
  assume "entry_at s k = Some (n, Some g)"
  then obtain st where st: "st \<in> set (tickets_at (fst k) s)" "stored_id st = snd k" "stored_value st = (n, Some g)"
    unfolding entry_at_def ticket_map_def by (auto simp: list_map_Some [OF d])
  let ?e = "\<lparr>exp_pos = fst k, exp_ticket = stored_ticket st, exp_generation = g\<rparr>"
  have "?e \<in> set (timed_ticket_expirations s)"
    unfolding set_timed_ticket_expirations [OF assms] using st by (auto simp: stored_value_def)
  moreover have "exp_key ?e = k" using st(2) by (cases k) (simp add: exp_key_def stored_id_def)
  ultimately show "\<exists>e \<in> set (timed_ticket_expirations s). exp_key e = k \<and> exp_generation e = g" by force
qed

lemma distinct_concat_keys:
  assumes "distinct (map fst xs)" "\<And>p ts. (p, ts) \<in> set xs \<Longrightarrow> distinct (map k (f p ts))"
    "\<And>p ts e. (p, ts) \<in> set xs \<Longrightarrow> e \<in> set (f p ts) \<Longrightarrow> fst (k e) = p"
  shows "distinct (map k (concat (map (\<lambda>(p, ts). f p ts) xs)))"
  using assms
proof (induction xs)
  case (Cons x xs)
  obtain p ts where x: "x = (p, ts)" by fastforce
  have "k ` set (f p ts) \<inter> k ` (\<Union>(q, us) \<in> set xs. set (f q us)) = {}"
  proof (rule ccontr)
    assume "\<not> ?thesis"
    then obtain y where y: "y \<in> k ` set (f p ts)" "y \<in> k ` (\<Union>(q, us) \<in> set xs. set (f q us))" by blast
    then obtain e e' q us where e: "e \<in> set (f p ts)" "(q, us) \<in> set xs" "e' \<in> set (f q us)" "k e = k e'"
      by (elim imageE UN_E) auto
    then have "p = q" using Cons.prems(3) [of p ts e] Cons.prems(3) [of q us e'] x by simp
    then show False using e(2) Cons.prems(1) x by force
  qed
  moreover have "distinct (map k (concat (map (\<lambda>(p, ts). f p ts) xs)))"
  proof (rule Cons.IH)
    show "distinct (map fst xs)" using Cons.prems(1) by simp
    show "distinct (map k (f q us))" if "(q, us) \<in> set xs" for q us using Cons.prems(2) that by simp
    show "fst (k e) = q" if "(q, us) \<in> set xs" "e \<in> set (f q us)" for q us e
      by (rule Cons.prems(3) [of q us]) (use that in simp_all)
  qed
  ultimately show ?case using Cons.prems(2) [of p ts] x by auto
qed simp

lemma map_filter_expiration_keys:
  "map exp_key (List.map_filter (stored_expiration p) ts) =
     map (Pair p \<circ> stored_id) (filter (\<lambda>st. stored_generation st \<noteq> None) ts)"
  by (induction ts) (auto simp: map_filter_simps stored_expiration_def exp_key_def stored_id_def split: option.split)

lemma distinct_expirations:
  assumes "storage_wf s" shows "distinct (map exp_key (timed_ticket_expirations s))"
proof -
  have d: "distinct (map fst (tickets s))" using assms by (simp add: storage_wf_def)
  have "distinct (map exp_key (concat (map (\<lambda>(p, ts). List.map_filter (stored_expiration p) ts) (tickets s))))"
  proof (rule distinct_concat_keys [OF d])
    fix p ts assume "(p, ts) \<in> set (tickets s)"
    then have "ts = tickets_at p s" using d by (simp add: tickets_at_def)
    then have "distinct (map stored_id ts)" using assms by (simp add: storage_wf_def list_ok_def)
    then show "distinct (map exp_key (List.map_filter (stored_expiration p) ts))"
      unfolding map_filter_expiration_keys by (auto simp: distinct_map inj_on_def)
  qed (auto simp: set_map_filter stored_expiration_def exp_key_def)
  then show ?thesis unfolding timed_ticket_expirations_def by (simp add: distinct_map)
qed

text \<open>One server tick of the chunk map: the snapshot keeps the entries whose type may expire while
  unloaded and those whose chunk is ready for saving, and only these age. The chunk map's holders
  are the map \<open>holders\<close> from positions to the counts of active save dependencies.\<close>

type_synonym SaveDependencies = "ChunkPos \<rightharpoonup> nat"

definition is_ready_for_saving :: "nat \<Rightarrow> bool" where
  "is_ready_for_saving active_save_dependencies \<longleftrightarrow> active_save_dependencies = 0"

definition can_timed_ticket_expire :: "SaveDependencies \<Rightarrow> ChunkPos \<Rightarrow> bool" where
  "can_timed_ticket_expire holders pos = (case holders pos of Some n \<Rightarrow> is_ready_for_saving n | None \<Rightarrow> True)"

definition eligible_timed_ticket_expirations :: "SaveDependencies \<Rightarrow> ChunkTicketStorage \<Rightarrow> TimedTicketExpiration list" where
  "eligible_timed_ticket_expirations holders s =
     filter (\<lambda>e. exp_can_expire_if_unloaded e \<or> can_timed_ticket_expire holders (exp_pos e)) (timed_ticket_expirations s)"

definition chunk_map_tick_timed_tickets :: "SaveDependencies \<Rightarrow> ChunkTicketStorage \<Rightarrow> ChunkTicketStorage" where
  "chunk_map_tick_timed_tickets holders s =
     (let expirations = eligible_timed_ticket_expirations holders s in snd (tick_timed_tickets expirations s))"

definition entry_eligible :: "ChunkPos \<times> TicketId \<Rightarrow> SaveDependencies \<Rightarrow> bool" where
  "entry_eligible key holders \<longleftrightarrow> can_expire_if_unloaded (fst (snd key)) \<or> can_timed_ticket_expire holders (fst key)"

lemma set_eligible:
  "e \<in> set (eligible_timed_ticket_expirations holders s) \<longleftrightarrow>
     e \<in> set (timed_ticket_expirations s) \<and> entry_eligible (exp_key e) holders"
  by (auto simp: eligible_timed_ticket_expirations_def entry_eligible_def exp_key_def ticket_id_def exp_can_expire_if_unloaded_def)

lemma distinct_eligible:
  "storage_wf s \<Longrightarrow> distinct (map exp_key (eligible_timed_ticket_expirations holders s))"
  by (simp add: eligible_timed_ticket_expirations_def distinct_map_filter distinct_expirations)

lemma chunk_map_tick_wf: "storage_wf s \<Longrightarrow> storage_wf (chunk_map_tick_timed_tickets holders s)"
  using tick_timed_tickets_covers by (simp add: chunk_map_tick_timed_tickets_def)

lemma chunk_map_tick_entry:
  assumes wf: "storage_wf s"
  shows "entry_at (chunk_map_tick_timed_tickets holders s) k =
    (case entry_at s k of
       Some (n, Some g) \<Rightarrow>
         if \<not> entry_eligible k holders then Some (n, Some g)
         else if sint (n - 1) < 0 then None else Some (n - 1, Some g)
     | other \<Rightarrow> other)"
proof (cases "entry_eligible k holders \<and> (\<exists>n g. entry_at s k = Some (n, Some g))")
  case True
  then obtain n g where k: "entry_at s k = Some (n, Some g)" "entry_eligible k holders" by blast
  from expirations_entry(2) [OF wf k(1)] k(2) obtain e where
    e: "e \<in> set (eligible_timed_ticket_expirations holders s)" "exp_key e = k" "exp_generation e = g"
    unfolding set_eligible by blast
  have "entry_at (chunk_map_tick_timed_tickets holders s) k = aged_entry e (entry_at s k)"
    using tick_fold_entry [OF wf distinct_eligible [OF wf] e(1), of no_changes] e(2)
    by (simp add: chunk_map_tick_timed_tickets_def tick_timed_tickets_def)
  then show ?thesis using k(2) by (simp add: k(1) aged_entry_def e(3))
next
  case False
  have "entry_at (chunk_map_tick_timed_tickets holders s) k = entry_at s k"
    unfolding chunk_map_tick_timed_tickets_def tick_timed_tickets_def Let_def
    by (rule tick_fold_entry_other [OF wf]) (use expirations_entry(1) [OF wf] False in \<open>fastforce simp: set_eligible\<close>)
  then show ?thesis using False by (auto split: option.split)
qed

lemma sint_dec: "0 < sint (n :: i64) \<Longrightarrow> sint (n - 1) = sint n - 1"
  using sint_lt [of n] by (simp add: sint_word_ariths signed_take_bit_int_eq_self)

lemma sint_zero_dec: "sint (n :: i64) = 0 \<Longrightarrow> sint (n - 1) < 0"
proof -
  assume "sint n = 0"
  then have "n = 0" by (intro signed_word_eqI) simp
  then show ?thesis by simp
qed

lemma chunk_map_ticks_gone:
  "storage_wf s \<Longrightarrow> entry_at s key = None \<Longrightarrow> entry_at (fold chunk_map_tick_timed_tickets hs s) key = None"
  by (induction hs arbitrary: s) (simp_all add: chunk_map_tick_wf chunk_map_tick_entry)

lemma chunk_map_ticks_entry:
  "storage_wf s \<Longrightarrow> entry_at s key = Some (n, Some g) \<Longrightarrow> 0 \<le> sint n \<Longrightarrow>
    entry_at (fold chunk_map_tick_timed_tickets hs s) key =
      (let m = length (filter (entry_eligible key) hs)
       in if int m \<le> sint n then Some (n - of_nat m, Some g) else None)"
proof (induction hs arbitrary: s n)
  case (Cons h hs)
  let ?s = "chunk_map_tick_timed_tickets h s"
  note wf = chunk_map_tick_wf [OF Cons.prems(1), of h] and entry = chunk_map_tick_entry [OF Cons.prems(1), of h key]
  consider "\<not> entry_eligible key h" | "entry_eligible key h" "sint n = 0" | "entry_eligible key h" "0 < sint n"
    using Cons.prems(3) by linarith
  then show ?case
  proof cases
    case 1
    then show ?thesis using Cons.IH [OF wf _ Cons.prems(3)] entry Cons.prems(2) by simp
  next
    case 2
    then show ?thesis using chunk_map_ticks_gone [OF wf] entry Cons.prems(2) sint_zero_dec by (simp add: Let_def)
  next
    case 3
    then show ?thesis using Cons.IH [OF wf, of "n - 1"] entry Cons.prems(2) sint_dec
      by (auto simp: Let_def diff_diff_eq)
  qed
qed (simp add: Let_def)

section \<open>Loading saved tickets\<close>

definition saved_pos :: "PersistentChunkTicket \<Rightarrow> ChunkPos" where
  "saved_pos p = ChunkPos (pt_chunk_x p) (pt_chunk_z p)"

definition saved_valid :: "TicketTypeRef Registry \<Rightarrow> PersistentChunkTicket \<Rightarrow> bool" where
  "saved_valid reg p \<longleftrightarrow> by_key (pt_type p) reg \<noteq> None \<and> pt_level p \<le> MAX_LEVEL_RAW"

lemma add_loaded_all_filter: "add_loaded_all reg (filter (saved_valid reg) ps) s = add_loaded_all reg ps s"
proof (induction ps arbitrary: s)
  case (Cons p ps)
  have "add_loaded_persistent_ticket reg p s = Some (e, s)" if "\<not> saved_valid reg p"
    "e = (if by_key (pt_type p) reg = None then Some (UnknownTicketType (pt_type p)) else Some (InvalidTicketLevel (pt_type p) (pt_level p)))" for e
    using that by (auto simp: add_loaded_persistent_ticket_def saved_valid_def level_new_def)
  then show ?case using Cons.IH by (cases "saved_valid reg p") (auto split: option.split)
qed simp

text \<open>The key and the remaining time a valid entry decodes to.\<close>

definition saved_key :: "TicketTypeRef Registry \<Rightarrow> PersistentChunkTicket \<Rightarrow> ChunkPos \<times> TicketId" where
  "saved_key reg p = (saved_pos p, (the (by_key (pt_type p) reg), pt_level p))"

lemma add_loaded_valid:
  assumes wf: "storage_wf s" and v: "saved_valid reg p" and new: "entry_at s (saved_key reg p) = None"
    and g: "unat (timed_generation s) + 1 < 2 ^ 64"
  shows "\<exists>s' g'. add_loaded_persistent_ticket reg p s = Some (None, s') \<and> storage_wf s' \<and>
    (\<forall>k. entry_at s' k = (if k = saved_key reg p then Some (pt_ticks_left p, g') else entry_at s k)) \<and>
    unat (timed_generation s') \<le> unat (timed_generation s) + 1"
proof -
  obtain ty where ty: "by_key (pt_type p) reg = Some ty" "pt_level p \<le> MAX_LEVEL_RAW" using v by (auto simp: saved_valid_def)
  let ?t = "ticket_from_saved ty (pt_level p) (pt_ticks_left p)"
  have key: "saved_key reg p = (saved_pos p, ticket_id ?t)" using ty by (simp add: saved_key_def ticket_id_def ticket_from_saved_def)
  have tl: "ticket_level ?t \<le> MAX_LEVEL_RAW" "ticks_left ?t = pt_ticks_left p" using ty by (simp_all add: ticket_from_saved_def)
  have g1: "timed_generation s \<noteq> - 1" using g by (auto simp: unsigned_minus_1_eq_mask mask_eq_exp_minus_1)
  then have gen: "unat (timed_generation s + 1) = unat (timed_generation s) + 1" using g by (simp add: unat_word_ariths)
  from add_ticket_ok [OF wf tl(1), of "saved_pos p"] g1 obtain c s' g' where
    a: "add_ticket (saved_pos p) ?t s = Some (c, s')" "storage_wf s'"
      "ticket_map s' = (ticket_map s)(saved_pos p := (ticket_map s (saved_pos p))
        (ticket_id ?t \<mapsto> added_entry ?t g' (ticket_map s (saved_pos p) (ticket_id ?t))))"
      "timed_generation s' = timed_generation s \<or> timed_generation s' = timed_generation s + 1"
    by (cases "add_ticket (saved_pos p) ?t s") auto
  have "added_entry ?t g' (ticket_map s (saved_pos p) (ticket_id ?t)) = (pt_ticks_left p, g')"
    using new tl(2) by (simp add: entry_at_def key added_entry_def)
  then have "\<forall>k. entry_at s' k = (if k = saved_key reg p then Some (pt_ticks_left p, g') else entry_at s k)"
    unfolding entry_at_def a(3) key by auto
  moreover have "add_loaded_persistent_ticket reg p s = Some (None, s')"
    using ty a(1) by (simp add: add_loaded_persistent_ticket_def level_new_def add_loaded_ticket_eq flip: saved_pos_def)
  ultimately show ?thesis using a(2,4) gen by auto
qed

lemma add_loaded_all_ok:
  assumes "storage_wf s" "\<And>p. p \<in> set ps \<Longrightarrow> saved_valid reg p" "distinct (map (saved_key reg) ps)"
    "\<And>p. p \<in> set ps \<Longrightarrow> entry_at s (saved_key reg p) = None" "unat (timed_generation s) + length ps < 2 ^ 64"
  shows "\<exists>s'. add_loaded_all reg ps s = Some s' \<and> storage_wf s' \<and>
    (\<forall>p \<in> set ps. \<exists>g. entry_at s' (saved_key reg p) = Some (pt_ticks_left p, g)) \<and>
    (\<forall>k. k \<notin> saved_key reg ` set ps \<longrightarrow> entry_at s' k = entry_at s k)"
  using assms
proof (induction ps arbitrary: s)
  case (Cons p ps)
  from add_loaded_valid [of s reg p] Cons.prems obtain s1 g1 where
    s1: "add_loaded_persistent_ticket reg p s = Some (None, s1)" "storage_wf s1"
      "\<And>k. entry_at s1 k = (if k = saved_key reg p then Some (pt_ticks_left p, g1) else entry_at s k)"
      "unat (timed_generation s1) \<le> unat (timed_generation s) + 1" by auto
  have ne: "saved_key reg q \<noteq> saved_key reg p" if "q \<in> set ps" for q
    using Cons.prems(3) that by (metis distinct.simps(2) imageI list.set_map list.simps(9))
  have "\<exists>s'. add_loaded_all reg ps s1 = Some s' \<and> storage_wf s' \<and>
      (\<forall>p \<in> set ps. \<exists>g. entry_at s' (saved_key reg p) = Some (pt_ticks_left p, g)) \<and>
      (\<forall>k. k \<notin> saved_key reg ` set ps \<longrightarrow> entry_at s' k = entry_at s1 k)"
  proof (rule Cons.IH [OF s1(2)])
    show "saved_valid reg q" if "q \<in> set ps" for q using Cons.prems(2) that by simp
    show "distinct (map (saved_key reg) ps)" using Cons.prems(3) by simp
    show "entry_at s1 (saved_key reg q) = None" if "q \<in> set ps" for q
      using Cons.prems(4) [of q] that ne [OF that] s1(3) by simp
    show "unat (timed_generation s1) + length ps < 2 ^ 64" using s1(4) Cons.prems(5) by simp
  qed
  then obtain s' where s': "add_loaded_all reg ps s1 = Some s'" "storage_wf s'"
      "\<forall>p \<in> set ps. \<exists>g. entry_at s' (saved_key reg p) = Some (pt_ticks_left p, g)"
      "\<forall>k. k \<notin> saved_key reg ` set ps \<longrightarrow> entry_at s' k = entry_at s1 k" by blast
  have "saved_key reg p \<notin> saved_key reg ` set ps" using Cons.prems(3) by simp
  then have "entry_at s' (saved_key reg p) = Some (pt_ticks_left p, g1)" using s'(4) [rule_format, of "saved_key reg p"] s1(3) [of "saved_key reg p"] by simp
  then show ?case using s' s1(1,3) by (intro exI [of _ s']) auto
qed simp

section \<open>Saving and loading\<close>

lemma set_storage_to_persistent:
  assumes "storage_wf s"
  shows "p \<in> set (storage_to_persistent s) \<longleftrightarrow>
    (\<exists>st \<in> set (tickets_at (saved_pos p) s). stored_to_persistent (saved_pos p) st = Some p)"
proof -
  have d: "distinct (map fst (tickets s))" using assms by (simp add: storage_wf_def)
  have pos: "saved_pos p = pos" if "stored_to_persistent pos st = Some p" for pos st
    using that by (auto simp: stored_to_persistent_def Let_def saved_pos_def split: if_splits)
  have "p \<in> set (storage_to_persistent s) \<longleftrightarrow>
      (\<exists>pos ts. (pos, ts) \<in> set (tickets s) \<and> (\<exists>st \<in> set ts. stored_to_persistent pos st = Some p))"
    by (auto simp: storage_to_persistent_def set_map_filter)
  also have "\<dots> \<longleftrightarrow> (\<exists>ts. (saved_pos p, ts) \<in> set (tickets s) \<and> (\<exists>st \<in> set ts. stored_to_persistent (saved_pos p) st = Some p))"
    using pos by blast
  also have "\<dots> \<longleftrightarrow> (\<exists>st \<in> set (tickets_at (saved_pos p) s). stored_to_persistent (saved_pos p) st = Some p)"
    using d by (auto simp: tickets_at_def dest: map_of_SomeD split: option.split)
  finally show ?thesis .
qed

text \<open>Every persistent type in use is registered.\<close>

definition types_registered :: "TicketTypeRef Registry \<Rightarrow> ChunkTicketStorage \<Rightarrow> bool" where
  "types_registered reg s \<longleftrightarrow>
     registry_reachable ticket_type_key reg \<and>
     (\<forall>k. entry_at s k \<noteq> None \<longrightarrow> persist (fst (snd k)) \<longrightarrow> fst (snd k) \<in> set (entries_by_id reg))"

lemma stored_saved_key:
  assumes reg: "types_registered reg s" and st: "st \<in> set (tickets_at pos s)" and p: "stored_to_persistent pos st = Some p"
  shows "by_key (pt_type p) reg = Some (ticket_type (stored_ticket st))" "saved_key reg p = (pos, stored_id st)"
    "pt_ticks_left p = ticks_left (stored_ticket st)" "pt_level p = ticket_level (stored_ticket st)"
proof -
  have "entry_at s (pos, stored_id st) \<noteq> None"
    using st by (auto simp: entry_at_def ticket_map_def list_map_None simp del: not_None_eq)
  moreover have ps: "persist (ticket_type (stored_ticket st))" "pt_type p = ticket_type_key (ticket_type (stored_ticket st))"
    using p by (auto simp: stored_to_persistent_def Let_def split: if_splits)
  ultimately have "ticket_type (stored_ticket st) \<in> set (entries_by_id reg)"
    using reg unfolding types_registered_def by (force simp: stored_id_def ticket_id_def)
  moreover have "by_key k reg = Some e \<longleftrightarrow> e \<in> set (entries_by_id reg) \<and> ticket_type_key e = k" for k e
    using reg by (simp add: types_registered_def registry_by_key)
  ultimately show k: "by_key (pt_type p) reg = Some (ticket_type (stored_ticket st))" using ps by simp
  show l: "pt_ticks_left p = ticks_left (stored_ticket st)" "pt_level p = ticket_level (stored_ticket st)"
    using p by (auto simp: stored_to_persistent_def Let_def split: if_splits)
  show "saved_key reg p = (pos, stored_id st)" using k l(2) p
    by (cases pos) (auto simp: saved_key_def saved_pos_def stored_id_def ticket_id_def stored_to_persistent_def Let_def split: if_splits)
qed


lemma saved_keys_list:
  assumes "types_registered reg s" "set ts \<subseteq> set (tickets_at pos s)"
  shows "map (saved_key reg) (List.map_filter (stored_to_persistent pos) ts) =
    map (Pair pos \<circ> stored_id) (filter (\<lambda>st. persist (ticket_type (stored_ticket st))) ts)"
  using assms(2)
proof (induction ts)
  case (Cons st ts)
  show ?case
  proof (cases "stored_to_persistent pos st")
    case None
    then show ?thesis using Cons by (auto simp: map_filter_simps stored_to_persistent_def Let_def split: if_splits)
  next
    case (Some p)
    then have "persist (ticket_type (stored_ticket st))" by (auto simp: stored_to_persistent_def Let_def split: if_splits)
    moreover have "saved_key reg p = (pos, stored_id st)" using stored_saved_key(2) [OF assms(1) _ Some] Cons.prems by simp
    ultimately show ?thesis using Some Cons by (simp add: map_filter_simps)
  qed
qed (simp add: map_filter_simps)

lemma distinct_saved_keys:
  assumes wf: "storage_wf s" and reg: "types_registered reg s"
  shows "distinct (map (saved_key reg) (storage_to_persistent s))"
proof -
  have d: "distinct (map fst (tickets s))" using wf by (simp add: storage_wf_def)
  have at: "ts = tickets_at p s" if "(p, ts) \<in> set (tickets s)" for p ts using d that by (simp add: tickets_at_def)
  have "distinct (map (saved_key reg) (concat (map (\<lambda>(p, ts). List.map_filter (stored_to_persistent p) ts) (tickets s))))"
  proof (rule distinct_concat_keys [OF d])
    fix p ts assume ts: "(p, ts) \<in> set (tickets s)"
    have "distinct (map stored_id ts)" using wf at [OF ts] by (simp add: storage_wf_def list_ok_def)
    then show "distinct (map (saved_key reg) (List.map_filter (stored_to_persistent p) ts))"
      using saved_keys_list [OF reg, of ts p] at [OF ts] by (auto simp: distinct_map inj_on_def)
  qed (auto simp: set_map_filter saved_key_def saved_pos_def stored_to_persistent_def Let_def split: if_splits)
  then show ?thesis unfolding storage_to_persistent_def by (simp add: distinct_map)
qed

lemma entry_of_saved:
  assumes wf: "storage_wf s" and reg: "types_registered reg s" and p: "p \<in> set (storage_to_persistent s)"
  shows "saved_valid reg p" "persist (fst (snd (saved_key reg p)))"
    "\<exists>g. entry_at s (saved_key reg p) = Some (pt_ticks_left p, g)"
proof -
  obtain st where st: "st \<in> set (tickets_at (saved_pos p) s)" "stored_to_persistent (saved_pos p) st = Some p"
    using p set_storage_to_persistent [OF wf] by blast
  have ok: "stored_ok (timed_generation s) st" and d: "distinct (map stored_id (tickets_at (saved_pos p) s))"
    using wf st(1) by (simp_all add: storage_wf_def list_ok_def)
  show "saved_valid reg p" using stored_saved_key(1,4) [OF reg st] ok by (simp add: saved_valid_def stored_ok_def)
  have "persist (ticket_type (stored_ticket st))" using st(2) by (auto simp: stored_to_persistent_def Let_def split: if_splits)
  then show "persist (fst (snd (saved_key reg p)))" using stored_saved_key(2) [OF reg st] by (simp add: stored_id_def ticket_id_def)
  have "entry_at s (saved_pos p, stored_id st) = Some (stored_value st)"
    using st(1) d by (auto simp: entry_at_def ticket_map_def list_map_Some)
  then show "\<exists>g. entry_at s (saved_key reg p) = Some (pt_ticks_left p, g)"
    using stored_saved_key(2,3) [OF reg st] by (simp add: stored_value_def)
qed

lemma saved_of_entry:
  assumes wf: "storage_wf s" and reg: "types_registered reg s" and k: "entry_at s k = Some v" "persist (fst (snd k))"
  shows "k \<in> saved_key reg ` set (storage_to_persistent s)"
proof -
  have d: "distinct (map stored_id (tickets_at (fst k) s))" using wf by (simp add: storage_wf_def list_ok_def)
  obtain st where st: "st \<in> set (tickets_at (fst k) s)" "stored_id st = snd k"
    using k(1) unfolding entry_at_def ticket_map_def by (auto simp: list_map_Some [OF d])
  have "persist (ticket_type (stored_ticket st))" using st(2) k(2) by (metis fst_conv stored_id_def ticket_id_def)
  then obtain p where p: "stored_to_persistent (fst k) st = Some p" by (auto simp: stored_to_persistent_def Let_def)
  then have "saved_pos p = fst k" by (auto simp: stored_to_persistent_def Let_def saved_pos_def split: if_splits)
  then have "p \<in> set (storage_to_persistent s)" using set_storage_to_persistent [OF wf] p st(1) by auto
  moreover have "saved_key reg p = k" using stored_saved_key(2) [OF reg st(1) p] st(2) by simp
  ultimately show ?thesis by blast
qed

lemma save_load_ok:
  assumes wf: "storage_wf s" and reg: "types_registered reg s" and len: "length (storage_to_persistent s) < 2 ^ 64"
  shows "\<exists>s'. storage_from_persistent reg (storage_to_persistent s) = Some s' \<and> storage_wf s' \<and>
    (\<forall>k. map_option fst (entry_at s' k) = (if persist (fst (snd k)) then map_option fst (entry_at s k) else None))"
proof -
  let ?ps = "storage_to_persistent s"
  note saved = entry_of_saved [OF wf reg]
  have empty: "entry_at storage_new k = None" for k by (simp add: entry_at_def ticket_map_new)
  have gen: "unat (timed_generation storage_new) + length ?ps < 2 ^ 64" using len by (simp add: storage_new_def)
  from add_loaded_all_ok [OF storage_wf_new saved(1) distinct_saved_keys [OF wf reg] empty gen] obtain s' where
    s': "add_loaded_all reg ?ps storage_new = Some s'" "storage_wf s'"
      "\<forall>p \<in> set ?ps. \<exists>g. entry_at s' (saved_key reg p) = Some (pt_ticks_left p, g)"
      "\<forall>k. k \<notin> saved_key reg ` set ?ps \<longrightarrow> entry_at s' k = None" using empty by metis
  have "map_option fst (entry_at s' k) = (if persist (fst (snd k)) then map_option fst (entry_at s k) else None)" for k
  proof (cases "k \<in> saved_key reg ` set ?ps")
    case True
    then obtain p where p: "p \<in> set ?ps" "k = saved_key reg p" by blast
    with s'(3) saved(2,3) [OF p(1)] show ?thesis by auto
  next
    case False
    then have "\<not> (persist (fst (snd k)) \<and> entry_at s k \<noteq> None)" using saved_of_entry [OF wf reg] by blast
    moreover have "entry_at s' k = None" using s'(4) False by blast
    ultimately show ?thesis by (cases "entry_at s k") simp_all
  qed
  then show ?thesis using s'(1,2) by (auto simp: storage_from_persistent_def)
qed

section \<open>Reachable storages\<close>

lemma add_loaded_all_wf: "storage_wf s \<Longrightarrow> add_loaded_all reg ps s = Some s' \<Longrightarrow> storage_wf s'"
proof (induction ps arbitrary: s)
  case (Cons p ps)
  then obtain e s1 where s1: "add_loaded_persistent_ticket reg p s = Some (e, s1)" "add_loaded_all reg ps s1 = Some s'"
    by (auto split: option.splits)
  have "storage_wf s1"
  proof (cases "saved_valid reg p")
    case True
    then obtain ty where ty: "by_key (pt_type p) reg = Some ty" "pt_level p \<le> MAX_LEVEL_RAW" by (auto simp: saved_valid_def)
    let ?t = "ticket_from_saved ty (pt_level p) (pt_ticks_left p)"
    obtain c where "add_ticket (saved_pos p) ?t s = Some (c, s1)"
      using s1(1) ty by (auto simp: add_loaded_persistent_ticket_def level_new_def add_loaded_ticket_eq saved_pos_def)
    then show ?thesis using add_ticket_ok [OF Cons.prems(1), of ?t "saved_pos p"] ty(2) by (simp add: ticket_from_saved_def)
  next
    case False
    then show ?thesis using s1(1) Cons.prems(1)
      by (auto simp: add_loaded_persistent_ticket_def saved_valid_def level_new_def split: option.splits if_splits)
  qed
  then show ?case using Cons.IH s1(2) by blast
qed simp

inductive storage_reachable :: "TicketTypeRef Registry \<Rightarrow> ChunkTicketStorage \<Rightarrow> bool" for reg where
  storage_load: "storage_from_persistent reg ps = Some s \<Longrightarrow> storage_reachable reg s"
| storage_add: "storage_reachable reg s \<Longrightarrow> ticket_level t \<le> MAX_LEVEL_RAW \<Longrightarrow> add_ticket pos t s = Some (c, s') \<Longrightarrow>
    storage_reachable reg s'"
| storage_remove: "storage_reachable reg s \<Longrightarrow> remove_ticket pos t s = (c, s') \<Longrightarrow> storage_reachable reg s'"
| storage_tick: "storage_reachable reg s \<Longrightarrow> tick_timed_tickets es s = (c, s') \<Longrightarrow> storage_reachable reg s'"

lemma storage_reachable_wf: "storage_reachable reg s \<Longrightarrow> storage_wf s"
proof (induction rule: storage_reachable.induct)
  case (storage_load ps s)
  then show ?case using add_loaded_all_wf [OF storage_wf_new] by (simp add: storage_from_persistent_def)
next
  case (storage_add s t pos c s')
  then show ?case using add_ticket_ok [of s t pos] by simp
next
  case (storage_remove s pos t c s')
  then show ?case using remove_ticket_ok [of s pos t] by simp
next
  case (storage_tick s es c s')
  then show ?case using tick_timed_tickets_covers [of s es] by simp
qed


text \<open>The registry at server start.\<close>

definition builtin_ticket_types :: "TicketTypeRef list" where
  "builtin_ticket_types =
     [PLAYER_SPAWN, SPAWN_SEARCH, DRAGON, PLAYER_LOADING, PLAYER_SIMULATION, FORCED, PORTAL, ENDER_PEARL, UNKNOWN, CHUNK_REQUEST]"

lemmas ticket_type_defs =
  PLAYER_SPAWN_def SPAWN_SEARCH_def DRAGON_def PLAYER_LOADING_def PLAYER_SIMULATION_def FORCED_def PORTAL_def
  ENDER_PEARL_def UNKNOWN_def CHUNK_REQUEST_def

lemmas ticket_flag_defs =
  flags_contain_def flag_PERSIST_def flag_LOADING_def flag_SIMULATION_def flag_KEEP_DIMENSION_ACTIVE_def
  flag_CAN_EXPIRE_IF_UNLOADED_def type_LOADS_def type_LOADS_AND_SIMULATES_def type_SIMULATES_AND_KEEPS_ACTIVE_def
  type_PERSISTENT_LOADING_SIMULATION_def type_LOADING_SIMULATION_def type_LOADING_THAT_EXPIRES_IF_UNLOADED_def

lemma register_ticket_type_reachable:
  "registry_reachable ticket_type_key r \<Longrightarrow> register_ticket_type t (Some r) = Some r' \<Longrightarrow> registry_reachable ticket_type_key r'"
  by (auto simp: register_ticket_type_def intro: registry_register)

lemma register_all:
  assumes "registry_reachable ticket_type_key r" "allows_registering r" "distinct (map ticket_type_key (entries_by_id r @ ts))"
  shows "\<exists>r'. fold register_ticket_type ts (Some r) = Some r' \<and> registry_reachable ticket_type_key r' \<and>
    entries_by_id r' = entries_by_id r @ ts"
  using assms
proof (induction ts arbitrary: r)
  case (Cons t ts)
  have "by_key (ticket_type_key t) r = None"
  proof (rule ccontr)
    assume "by_key (ticket_type_key t) r \<noteq> None"
    then obtain e where "e \<in> set (entries_by_id r)" "ticket_type_key e = ticket_type_key t"
      using registry_by_key [OF Cons.prems(1)] by auto
    then have "ticket_type_key t \<in> ticket_type_key ` set (entries_by_id r)" by (metis imageI)
    then show False using Cons.prems(3) by simp
  qed
  moreover have "by_key k r \<noteq> None" if i: "ids_by_key r k = Some i" for k i
  proof -
    have "i < length (entries_by_id r)" using registry_reachable_wf [OF Cons.prems(1)] i unfolding registry_wf_def by blast
    then show ?thesis by (simp add: by_key_def by_id_def i)
  qed
  ultimately have n: "ids_by_key r (ticket_type_key t) = None" by (metis option.exhaust)
  let ?r = "r\<lparr>entries_by_id := entries_by_id r @ [t], ids_by_key := (ids_by_key r)(ticket_type_key t \<mapsto> length (entries_by_id r))\<rparr>"
  have reg: "register True ticket_type_key t r = Some (length (entries_by_id r), ?r)"
    using n Cons.prems(2) by (simp add: register_def Let_def)
  then have "register_ticket_type t (Some r) = Some ?r" by (simp add: register_ticket_type_def)
  moreover have "\<exists>r'. fold register_ticket_type ts (Some ?r) = Some r' \<and> registry_reachable ticket_type_key r' \<and>
      entries_by_id r' = entries_by_id ?r @ ts"
    by (rule Cons.IH) (use registry_register [OF Cons.prems(1) reg] Cons.prems(2,3) in simp_all)
  ultimately show ?case by simp
qed simp

lemma builtin_keys_distinct: "distinct (map ticket_type_key builtin_ticket_types)"
  by (simp add: builtin_ticket_types_def ticket_type_key_def ticket_type_defs vanilla_def from_steel_def
      VANILLA_NAMESPACE_def STEEL_NAMESPACE_def)

lemma builtin_registry:
  "\<exists>reg. register_steel_ticket_types (register_vanilla_ticket_types (Some registry_new)) = Some reg \<and>
    registry_reachable ticket_type_key reg \<and> entries_by_id reg = builtin_ticket_types"
proof -
  have "register_steel_ticket_types (register_vanilla_ticket_types (Some registry_new)) =
      fold register_ticket_type builtin_ticket_types (Some registry_new)"
    by (simp add: register_steel_ticket_types_def register_vanilla_ticket_types_def builtin_ticket_types_def)
  then show ?thesis using register_all [OF registry_new, of builtin_ticket_types] builtin_keys_distinct
    by (simp add: registry_new_def)
qed


section \<open>Properties\<close>

lemma less_succ: "g \<noteq> - 1 \<Longrightarrow> g < g + (1 :: u64)"
  using unatSuc [of g] by (simp add: add.commute eq_neg_iff_add_eq_0 word_less_nat_alt)

lemma expirations_generation_le:
  assumes "storage_wf s" "e \<in> set (timed_ticket_expirations s)" shows "exp_generation e \<le> timed_generation s"
proof -
  obtain st where st: "st \<in> set (tickets_at (exp_pos e) s)" "stored_generation st = Some (exp_generation e)"
    using assms set_timed_ticket_expirations by blast
  then have "stored_ok (timed_generation s) st" using assms(1) by (simp add: storage_wf_def list_ok_def)
  then show ?thesis using st(2) by (simp add: stored_ok_def)
qed

text \<open>A portal ticket in an otherwise empty storage.\<close>

definition demo_storage :: ChunkTicketStorage where
  "demo_storage = snd (the (add_ticket (ChunkPos 2 (-5)) portal_ticket storage_new))"

lemma demo_add: "add_ticket (ChunkPos 2 (-5)) portal_ticket storage_new =
    Some (changes_for_ticket (ChunkPos 2 (-5)) portal_ticket, demo_storage)"
  by (simp add: demo_storage_def add_ticket_def generation_for_def allocate_timed_generation_def storage_new_def
      tickets_at_def portal_ticket_def ticket_for_full_chunk_radius_def ticket_new_def ticket_from_saved_def
      has_timeout_def timeout_def NO_TIMEOUT_def PORTAL_def)

lemma demo_reachable: "storage_reachable reg demo_storage"
proof -
  have "storage_reachable reg storage_new"
    by (rule storage_load [where ps = "[]"]) (simp add: storage_from_persistent_def)
  moreover have "ticket_level portal_ticket \<le> MAX_LEVEL_RAW"
    by (simp add: portal_ticket_def ticket_for_full_chunk_radius_def ticket_new_def ticket_from_saved_def
        for_full_chunk_radius_def level_constants)
  ultimately show ?thesis using demo_add by (rule storage_add)
qed

lemma demo_entry: "entry_at demo_storage (ChunkPos 2 (-5), ticket_id portal_ticket) = Some (300, Some 1)"
  by (simp add: demo_storage_def add_ticket_def generation_for_def allocate_timed_generation_def storage_new_def
      tickets_at_def portal_ticket_def ticket_for_full_chunk_radius_def ticket_new_def ticket_from_saved_def
      has_timeout_def timeout_def NO_TIMEOUT_def PORTAL_def entry_at_def ticket_map_def stored_id_def stored_value_def)

lemma demo_entry_only: "entry_at demo_storage k \<noteq> None \<Longrightarrow> k = (ChunkPos 2 (-5), ticket_id portal_ticket)"
  by (cases k)
    (auto simp: demo_storage_def add_ticket_def generation_for_def allocate_timed_generation_def storage_new_def
      tickets_at_def portal_ticket_def ticket_for_full_chunk_radius_def ticket_new_def ticket_from_saved_def
      has_timeout_def timeout_def NO_TIMEOUT_def PORTAL_def entry_at_def ticket_map_def stored_id_def stored_value_def
      split: if_splits)

text \<open>Every mutation of the storage reports all it changes: at a position it does not list as
  dirty for loading or for simulation, the strongest ticket of that domain is the same as
  before, so a client that re-reads only the dirty positions stays up to date.\<close>

lemma mutations_report_sources:
  assumes "storage_reachable reg s" "ticket_level t \<le> MAX_LEVEL_RAW"
  shows "(\<forall>c s'. add_ticket pos t s = Some (c, s') \<longrightarrow> changes_cover c s s') \<and>
    changes_cover (fst (remove_ticket pos t s)) s (snd (remove_ticket pos t s)) \<and>
    changes_cover (fst (tick_timed_tickets es s)) s (snd (tick_timed_tickets es s))"
  using add_ticket_covers [OF storage_reachable_wf [OF assms(1)] assms(2)]
    remove_ticket_covers [OF storage_reachable_wf [OF assms(1)]]
    tick_timed_tickets_covers [OF storage_reachable_wf [OF assms(1)]] by blast

text \<open>C13: The storage implements a map from positions and ticket identities (type and level) to
  the remaining time and the timed generation: adding sets one entry, refreshing its time when
  it was there, and fails only when the generation counter is used up; removing deletes one
  entry; the levels read back are the least ones stored.\<close>

theorem storage_refines_map:
  assumes "storage_reachable reg s" "ticket_level t \<le> MAX_LEVEL_RAW"
  shows "(case add_ticket pos t s of
       None \<Rightarrow> has_timeout (ticket_type t) \<and> timed_generation s = - 1
     | Some (c, s') \<Rightarrow> \<forall>k. entry_at s' k =
         (if k = (pos, ticket_id t)
          then Some (case entry_at s k of None \<Rightarrow> ticks_left t | Some _ \<Rightarrow> timeout (ticket_type t),
                 if has_timeout (ticket_type t) then Some (timed_generation s + 1) else None)
          else entry_at s k)) \<and>
    (\<forall>k. entry_at (snd (remove_ticket pos t s)) k = (if k = (pos, ticket_id t) then None else entry_at s k)) \<and>
    (load_source_level p s = Some l \<longleftrightarrow>
      (\<exists>ty. does_load ty \<and> entry_at s (p, ty, l) \<noteq> None) \<and>
      (\<forall>ty l'. does_load ty \<longrightarrow> entry_at s (p, ty, l') \<noteq> None \<longrightarrow> l \<le> l'))"
proof (intro conjI)
  have wf: "storage_wf s" using assms(1) by (rule storage_reachable_wf)
  show "case add_ticket pos t s of
       None \<Rightarrow> has_timeout (ticket_type t) \<and> timed_generation s = - 1
     | Some (c, s') \<Rightarrow> \<forall>k. entry_at s' k =
         (if k = (pos, ticket_id t)
          then Some (case entry_at s k of None \<Rightarrow> ticks_left t | Some _ \<Rightarrow> timeout (ticket_type t),
                 if has_timeout (ticket_type t) then Some (timed_generation s + 1) else None)
          else entry_at s k)"
  proof (cases "add_ticket pos t s")
    case (Some cs)
    then obtain c s' where cs: "add_ticket pos t s = Some (c, s')" by (cases cs) auto
    with add_ticket_ok [OF wf assms(2), of pos] show ?thesis
      by (auto simp: entry_at_def added_entry_def)
  qed (use add_ticket_ok [OF wf assms(2), of pos] in simp)
  show "\<forall>k. entry_at (snd (remove_ticket pos t s)) k = (if k = (pos, ticket_id t) then None else entry_at s k)"
    using remove_ticket_ok [OF wf, of pos t] by (auto simp: entry_at_def)
  show "load_source_level p s = Some l \<longleftrightarrow>
      (\<exists>ty. does_load ty \<and> entry_at s (p, ty, l) \<noteq> None) \<and>
      (\<forall>ty l'. does_load ty \<longrightarrow> entry_at s (p, ty, l') \<noteq> None \<longrightarrow> l \<le> l')"
    unfolding load_source_level_iff by (force simp: domain_levels_def loads_def entry_at_def dom_def image_iff)
qed

theorem storage_refines_map_witness:
  "load_source_level (ChunkPos 2 (-5)) demo_storage = Some 127"
proof -
  have l: "ticket_level portal_ticket = 127" "ticket_level portal_ticket \<le> MAX_LEVEL_RAW" "ticket_type portal_ticket = PORTAL"
    by (simp_all add: portal_ticket_def ticket_for_full_chunk_radius_def ticket_new_def ticket_from_saved_def
        for_full_chunk_radius_def level_constants PORTAL_TICKET_RADIUS_def)
  have "entry_at demo_storage (ChunkPos 2 (-5), PORTAL, 127) \<noteq> None"
    using demo_entry l by (simp add: ticket_id_def)
  moreover have "does_load PORTAL" by (simp add: does_load_def PORTAL_def ticket_flag_defs)
  moreover have "\<forall>ty l'. does_load ty \<longrightarrow> entry_at demo_storage (ChunkPos 2 (-5), ty, l') \<noteq> None \<longrightarrow> 127 \<le> l'"
    using demo_entry_only l by (fastforce simp: ticket_id_def)
  ultimately show ?thesis
    using storage_refines_map [OF demo_reachable [of registry_new] l(2), of undefined "ChunkPos 2 (-5)" 127] by blast
qed

text \<open>C22: A timed ticket lives exactly its remaining time, counted in the server ticks in which it
  may age. Over any sequence of ticks of the chunk map with no other ticket operation in between,
  each tick with its own holders, the entry has counted down by the number of ticks in which its type
  may expire while unloaded or its chunk was ready for saving (or had no holder); the other ticks do
  not age it, and it is gone as soon as that number exceeds the ticks it had left.\<close>

theorem timed_ticket_lifetime:
  assumes "storage_reachable reg s" "entry_at s (pos, ty, lv) = Some (n, Some g)" "0 \<le> sint n"
  shows "entry_at (fold chunk_map_tick_timed_tickets hs s) (pos, ty, lv) =
    (let m = length (filter (\<lambda>holders. can_expire_if_unloaded ty \<or> can_timed_ticket_expire holders pos) hs)
     in if int m \<le> sint n then Some (n - of_nat m, Some g) else None)"
  using chunk_map_ticks_entry [OF storage_reachable_wf [OF assms(1)] assms(2,3), of hs]
  by (simp add: entry_eligible_def cong: filter_cong)

text \<open>A portal ticket of 300 ticks, with its chunk held by a save for 100 of its ticks.\<close>

definition demo_holders :: "SaveDependencies list" where
  "demo_holders = replicate 150 Map.empty @ replicate 100 [ChunkPos 2 (-5) \<mapsto> 1] @ replicate 150 [ChunkPos 2 (-5) \<mapsto> 0]"

theorem timed_ticket_lifetime_witness:
  "entry_at (fold chunk_map_tick_timed_tickets demo_holders demo_storage) (ChunkPos 2 (-5), ticket_id portal_ticket) =
     Some (0, Some 1) \<and>
   entry_at (fold chunk_map_tick_timed_tickets (demo_holders @ [Map.empty]) demo_storage)
     (ChunkPos 2 (-5), ticket_id portal_ticket) = None"
proof -
  have "\<not> can_expire_if_unloaded (ticket_type portal_ticket)"
    by (simp add: can_expire_if_unloaded_def portal_ticket_def ticket_for_full_chunk_radius_def ticket_new_def
        ticket_from_saved_def PORTAL_def ticket_flag_defs)
  then have "length (filter (\<lambda>holders. can_expire_if_unloaded (ticket_type portal_ticket) \<or>
      can_timed_ticket_expire holders (ChunkPos 2 (-5))) (demo_holders @ hs)) =
    300 + length (filter (\<lambda>holders. can_timed_ticket_expire holders (ChunkPos 2 (-5))) hs)" for hs
    by (simp add: demo_holders_def can_timed_ticket_expire_def is_ready_for_saving_def)
  note m = this [of "[]"] this [of "[Map.empty]"]
  note t = timed_ticket_lifetime [OF demo_reachable [of registry_new] demo_entry [unfolded ticket_id_def]]
  show ?thesis
    using m t [of demo_holders] t [of "demo_holders @ [Map.empty]"]
    by (simp add: ticket_id_def can_timed_ticket_expire_def)
qed

text \<open>C31: A refresh wins over a pass in flight: a timed ticket added or refreshed after the
  expiration snapshot of a tick was taken is not aged by that tick.\<close>

theorem refresh_survives_pass:
  assumes "storage_reachable reg s" "ticket_level t \<le> MAX_LEVEL_RAW" "has_timeout (ticket_type t)"
    and "add_ticket pos t s = Some (c, s')"
  shows "entry_at (snd (tick_timed_tickets (timed_ticket_expirations s) s')) (pos, ticket_id t) = entry_at s' (pos, ticket_id t)"
proof -
  have wf: "storage_wf s" using assms(1) by (rule storage_reachable_wf)
  from add_ticket_ok [OF wf assms(2), of pos] assms(3,4) obtain n where
    s': "storage_wf s'" "entry_at s' (pos, ticket_id t) = Some (n, Some (timed_generation s + 1))"
      by (auto simp: entry_at_def added_entry_def)
  have ne: "timed_generation s \<noteq> - 1"
    using assms(3,4) by (auto simp: add_ticket_def generation_for_def allocate_timed_generation_def)
  have "exp_generation e \<noteq> timed_generation s + 1" if "e \<in> set (timed_ticket_expirations s)" for e
    using expirations_generation_le [OF wf that] less_succ [OF ne] by auto
  then have "aged_entry e (entry_at s' (pos, ticket_id t)) = entry_at s' (pos, ticket_id t)"
    if "e \<in> set (timed_ticket_expirations s)" for e
    using that by (simp add: s'(2) aged_entry_def eq_commute)
  then show ?thesis unfolding tick_timed_tickets_def by (intro tick_fold_entry_other [OF s'(1)])
qed

theorem refresh_survives_pass_witness:
  "\<exists>c s'. add_ticket (ChunkPos 2 (-5)) portal_ticket demo_storage = Some (c, s') \<and>
    entry_at (snd (tick_timed_tickets (timed_ticket_expirations demo_storage) s')) (ChunkPos 2 (-5), ticket_id portal_ticket) =
      entry_at s' (ChunkPos 2 (-5), ticket_id portal_ticket)"
proof -
  have l: "ticket_level portal_ticket \<le> MAX_LEVEL_RAW" "has_timeout (ticket_type portal_ticket)"
    by (simp_all add: portal_ticket_def ticket_for_full_chunk_radius_def ticket_new_def ticket_from_saved_def
        for_full_chunk_radius_def level_constants has_timeout_def timeout_def PORTAL_def NO_TIMEOUT_def)
  have "timed_generation demo_storage = 1"
    by (simp add: demo_storage_def add_ticket_def generation_for_def allocate_timed_generation_def storage_new_def
        portal_ticket_def ticket_for_full_chunk_radius_def ticket_new_def ticket_from_saved_def tickets_at_def
        has_timeout_def timeout_def NO_TIMEOUT_def PORTAL_def)
  then obtain c s' where a: "add_ticket (ChunkPos 2 (-5)) portal_ticket demo_storage = Some (c, s')"
    using add_ticket_ok [OF storage_reachable_wf [OF demo_reachable [of registry_new]] l(1), of "ChunkPos 2 (-5)"]
    by (cases "add_ticket (ChunkPos 2 (-5)) portal_ticket demo_storage") auto
  with refresh_survives_pass [OF demo_reachable [of registry_new] l a] show ?thesis by blast
qed

text \<open>C23: Saving and loading keeps the persistent tickets and drops the others: with every
  persistent type in use registered, the loaded storage has exactly the persistent tickets, at
  their positions and levels, with their remaining time.\<close>

theorem save_load_roundtrip:
  assumes "storage_reachable reg s" "types_registered reg s" "length (storage_to_persistent s) < 2 ^ 64"
  shows "\<exists>s'. storage_from_persistent reg (storage_to_persistent s) = Some s' \<and>
    (\<forall>k. map_option fst (entry_at s' k) = (if persist (fst (snd k)) then map_option fst (entry_at s k) else None))"
  using save_load_ok [OF storage_reachable_wf [OF assms(1)] assms(2,3)] by blast

theorem save_load_roundtrip_witness:
  "\<exists>reg s'. register_steel_ticket_types (register_vanilla_ticket_types (Some registry_new)) = Some reg \<and>
    storage_from_persistent reg (storage_to_persistent demo_storage) = Some s' \<and>
    map_option fst (entry_at s' (ChunkPos 2 (-5), ticket_id portal_ticket)) = Some 300"
proof -
  obtain reg where reg: "register_steel_ticket_types (register_vanilla_ticket_types (Some registry_new)) = Some reg"
      "registry_reachable ticket_type_key reg" "entries_by_id reg = builtin_ticket_types" using builtin_registry by blast
  have ty: "fst (ticket_id portal_ticket) = PORTAL"
    by (simp add: ticket_id_def portal_ticket_def ticket_for_full_chunk_radius_def ticket_new_def ticket_from_saved_def)
  have "fst (snd k) \<in> set (entries_by_id reg)" if "entry_at demo_storage k \<noteq> None" for k
    unfolding demo_entry_only [OF that] by (simp add: ty reg(3) builtin_ticket_types_def)
  then have "types_registered reg demo_storage" using reg(2) by (simp add: types_registered_def)
  moreover have "tickets demo_storage = [(ChunkPos 2 (-5), [\<lparr>stored_ticket = portal_ticket, stored_generation = Some 1\<rparr>])]"
    by (simp add: demo_storage_def add_ticket_def generation_for_def allocate_timed_generation_def storage_new_def
        portal_ticket_def ticket_for_full_chunk_radius_def ticket_new_def ticket_from_saved_def tickets_at_def
        has_timeout_def timeout_def NO_TIMEOUT_def PORTAL_def)
  then have "length (storage_to_persistent demo_storage) < 2 ^ 64"
    by (simp add: storage_to_persistent_def map_filter_simps split: option.split)
  ultimately obtain s' where s': "storage_from_persistent reg (storage_to_persistent demo_storage) = Some s'"
      "\<And>k. map_option fst (entry_at s' k) = (if persist (fst (snd k)) then map_option fst (entry_at demo_storage k) else None)"
    using save_load_roundtrip [OF demo_reachable [of reg]] by blast
  have "persist PORTAL" by (simp add: persist_def PORTAL_def ticket_flag_defs)
  then have "map_option fst (entry_at s' (ChunkPos 2 (-5), ticket_id portal_ticket)) = Some 300"
    using s'(2) [of "(ChunkPos 2 (-5), ticket_id portal_ticket)"] demo_entry ty by simp
  then show ?thesis using reg(1) s'(1) by blast
qed

text \<open>Loading checks every saved entry: it reports an unknown type exactly when the registry
  has no such key, an invalid level exactly when the type is known and the level beyond the
  maximum, leaving the storage as it was; and a load with bad entries is the load of the good
  ones.\<close>

lemma saved_entries_checked:
  "(\<forall>s'. add_loaded_persistent_ticket reg p s = Some (Some e, s') \<longleftrightarrow>
      s' = s \<and> (by_key (pt_type p) reg = None \<and> e = UnknownTicketType (pt_type p) \<or>
        by_key (pt_type p) reg \<noteq> None \<and> pt_level p > MAX_LEVEL_RAW \<and> e = InvalidTicketLevel (pt_type p) (pt_level p))) \<and>
   storage_from_persistent reg (filter (\<lambda>p. by_key (pt_type p) reg \<noteq> None \<and> pt_level p \<le> MAX_LEVEL_RAW) ps) =
     storage_from_persistent reg ps"
proof (intro conjI allI)
  show "add_loaded_persistent_ticket reg p s = Some (Some e, s') \<longleftrightarrow>
      s' = s \<and> (by_key (pt_type p) reg = None \<and> e = UnknownTicketType (pt_type p) \<or>
        by_key (pt_type p) reg \<noteq> None \<and> pt_level p > MAX_LEVEL_RAW \<and> e = InvalidTicketLevel (pt_type p) (pt_level p))" for s'
    by (auto simp: add_loaded_persistent_ticket_def level_new_def split: option.split if_splits)
  show "storage_from_persistent reg (filter (\<lambda>p. by_key (pt_type p) reg \<noteq> None \<and> pt_level p \<le> MAX_LEVEL_RAW) ps) =
     storage_from_persistent reg ps"
    using add_loaded_all_filter [of reg ps storage_new] by (simp add: storage_from_persistent_def saved_valid_def [abs_def])
qed

text \<open>The built-in ticket types register without conflict, under ten different keys, and each is
  found under its own key.\<close>

lemma builtin_types_register:
  "\<exists>reg. register_steel_ticket_types (register_vanilla_ticket_types (Some registry_new)) = Some reg \<and>
    length (entries_by_id reg) = 10 \<and> list_all (\<lambda>t. by_key (ticket_type_key t) reg = Some t) (entries_by_id reg)"
proof -
  obtain reg where reg: "register_steel_ticket_types (register_vanilla_ticket_types (Some registry_new)) = Some reg"
      "registry_reachable ticket_type_key reg" "entries_by_id reg = builtin_ticket_types" using builtin_registry by blast
  have "list_all (\<lambda>t. by_key (ticket_type_key t) reg = Some t) (entries_by_id reg)"
    using registry_by_key [OF reg(2)] by (simp add: list_all_iff)
  moreover have "length (entries_by_id reg) = 10" by (simp add: reg(3) builtin_ticket_types_def)
  ultimately show ?thesis using reg(1) by blast
qed

end
