(* ===== verification/Player_Tickets.thy ===== *)
theory Player_Tickets
  imports Ticket_Life
begin

text \<open>
  Player tickets (\<^verbatim>\<open>steel-core/src/chunk/player_ticket_tracker.rs\<close>): the tracker of player
  positions and of the loading coverage around them. A method that gets the storage by mutable
  reference takes and returns it; \<open>None\<close> is a failed assertion or a panic.
\<close>

section \<open>The tracker\<close>

type_synonym Uuid = nat

definition usize_MAX :: nat where
  "usize_MAX = 2 ^ 64 - 1"

record PlayerTicketTracker =
  players_by_pos :: "(ChunkPos \<times> Uuid set) list"
  player_positions :: "Uuid \<rightharpoonup> ChunkPos"
  loading_coverage :: "ChunkPos \<rightharpoonup> nat"
  view_distance :: nat
  simulation_distance :: nat

type_synonym PlayerState = "SourceProjectionChanges \<times> PlayerTicketTracker \<times> ChunkTicketStorage"

definition player_loading_ticket :: ChunkTicket where
  "player_loading_ticket = ticket_new PLAYER_LOADING ENTITY_TICKING_CHUNK"

definition player_simulation_ticket :: "nat \<Rightarrow> ChunkTicket" where
  "player_simulation_ticket d = ticket_new PLAYER_SIMULATION (for_entity_ticking_radius d)"

definition player_tracker_new :: "nat \<Rightarrow> nat \<Rightarrow> PlayerTicketTracker" where
  "player_tracker_new vd sd =
     \<lparr>players_by_pos = [], player_positions = Map.empty, loading_coverage = Map.empty,
      view_distance = vd, simulation_distance = sd\<rparr>"

text \<open>The positions \<open>for_each_square_position\<close> and \<open>for_each_square_ring\<close> visit, in order.\<close>

definition square_offsets :: "nat \<Rightarrow> (int \<times> int) list" where
  "square_offsets d = concat (map (\<lambda>x. map (Pair x) [- int d..int d]) [- int d..int d])"

definition offset_chunk :: "ChunkPos \<Rightarrow> int \<times> int \<Rightarrow> ChunkPos" where
  "offset_chunk c o' = ChunkPos (chunk_x c + of_int (fst o')) (chunk_z c + of_int (snd o'))"

definition square_positions :: "ChunkPos \<Rightarrow> nat \<Rightarrow> ChunkPos list" where
  "square_positions c d = map (offset_chunk c) (square_offsets d)"

definition square_ring :: "ChunkPos \<Rightarrow> nat \<Rightarrow> nat \<Rightarrow> ChunkPos list" where
  "square_ring c inner outer =
     map (offset_chunk c) (filter (\<lambda>(x, z). \<not> max \<bar>x\<bar> \<bar>z\<bar> \<le> int inner) (square_offsets outer))"

definition increment_loading_coverage :: "ChunkPos \<Rightarrow> PlayerState \<Rightarrow> PlayerState option" where
  "increment_loading_coverage pos st =
     (case st of (ch, tr, s) \<Rightarrow>
        (case loading_coverage tr pos of
           None \<Rightarrow>
             map_option (\<lambda>(c, s'). (changes_merge ch c, tr\<lparr>loading_coverage := (loading_coverage tr)(pos \<mapsto> 1)\<rparr>, s'))
               (add_ticket pos player_loading_ticket s)
         | Some n \<Rightarrow>
             if n = usize_MAX then None
             else Some (ch, tr\<lparr>loading_coverage := (loading_coverage tr)(pos \<mapsto> n + 1)\<rparr>, s)))"

definition decrement_loading_coverage :: "ChunkPos \<Rightarrow> PlayerState \<Rightarrow> PlayerState option" where
  "decrement_loading_coverage pos st =
     (case st of (ch, tr, s) \<Rightarrow>
        (case loading_coverage tr pos of
           None \<Rightarrow> None
         | Some n \<Rightarrow>
             if n = 0 then None
             else if n = 1 then
               (let (c, s') = remove_ticket pos player_loading_ticket s in
                Some (changes_merge ch c, tr\<lparr>loading_coverage := (loading_coverage tr)(pos := None)\<rparr>, s'))
             else Some (ch, tr\<lparr>loading_coverage := (loading_coverage tr)(pos \<mapsto> n - 1)\<rparr>, s)))"

text \<open>A loop that visits positions and stops at the first panic.\<close>

fun for_each :: "('a \<Rightarrow> 's \<Rightarrow> 's option) \<Rightarrow> 'a list \<Rightarrow> 's \<Rightarrow> 's option" where
  "for_each f [] s = Some s"
| "for_each f (x # xs) s = (case f x s of None \<Rightarrow> None | Some s' \<Rightarrow> for_each f xs s')"

definition remove_player_from_center :: "ChunkPos \<Rightarrow> Uuid \<Rightarrow> PlayerState \<Rightarrow> PlayerState option" where
  "remove_player_from_center pos u st =
     (case st of (ch, tr, s) \<Rightarrow>
        (case map_of (players_by_pos tr) pos of
           None \<Rightarrow> None
         | Some players \<Rightarrow>
             if u \<notin> players then None
             else
               (let players' = players - {u} in
                if players' \<noteq> {}
                then Some (ch, tr\<lparr>players_by_pos := AList.update pos players' (players_by_pos tr)\<rparr>, s)
                else
                  (let (c, s') = remove_ticket pos (player_simulation_ticket (simulation_distance tr)) s in
                   for_each decrement_loading_coverage (square_positions pos (view_distance tr))
                     (changes_merge ch c, tr\<lparr>players_by_pos := AList.delete pos (players_by_pos tr)\<rparr>, s')))))"

text \<open>The part of \<open>add_player\<close> after a previous position was left.\<close>

definition enter_center :: "ChunkPos \<Rightarrow> Uuid \<Rightarrow> PlayerState \<Rightarrow> PlayerState option" where
  "enter_center pos u st =
     (case st of (ch, tr, s) \<Rightarrow>
        (let players = (case map_of (players_by_pos tr) pos of None \<Rightarrow> {} | Some ps \<Rightarrow> ps) in
         if u \<in> players \<or> player_positions tr u \<noteq> None then None
         else
           (let tr' = tr\<lparr>players_by_pos := AList.update pos (insert u players) (players_by_pos tr),
                  player_positions := (player_positions tr)(u \<mapsto> pos)\<rparr>
            in if players \<noteq> {} then Some (ch, tr', s)
               else
                 (case add_ticket pos (player_simulation_ticket (simulation_distance tr)) s of
                    None \<Rightarrow> None
                  | Some (c, s') \<Rightarrow>
                      for_each increment_loading_coverage (square_positions pos (view_distance tr))
                        (changes_merge ch c, tr', s')))))"

definition add_player :: "ChunkPos \<Rightarrow> Uuid \<Rightarrow> PlayerTicketTracker \<times> ChunkTicketStorage \<Rightarrow> PlayerState option" where
  "add_player pos u ts =
     (case ts of (tr, s) \<Rightarrow>
        (case player_positions tr u of
           None \<Rightarrow> enter_center pos u (no_changes, tr, s)
         | Some previous \<Rightarrow>
             if previous = pos then Some (no_changes, tr, s)
             else
               (case remove_player_from_center previous u (no_changes, tr, s) of
                  None \<Rightarrow> None
                | Some (ch, tr, s) \<Rightarrow>
                    enter_center pos u (ch, tr\<lparr>player_positions := (player_positions tr)(u := None)\<rparr>, s))))"

definition remove_player :: "ChunkPos \<Rightarrow> Uuid \<Rightarrow> PlayerTicketTracker \<times> ChunkTicketStorage \<Rightarrow> PlayerState option" where
  "remove_player pos u ts =
     (case ts of (tr, s) \<Rightarrow>
        if player_positions tr u \<noteq> Some pos then Some (no_changes, tr, s)
        else
          map_option (\<lambda>(ch, tr, s). (ch, tr\<lparr>player_positions := (player_positions tr)(u := None)\<rparr>, s))
            (remove_player_from_center pos u (no_changes, tr, s)))"

text \<open>One turn of the loop of \<open>set_simulation_distance\<close>.\<close>

definition replace_simulation_ticket :: "ChunkTicket \<Rightarrow> ChunkTicket \<Rightarrow> ChunkPos \<Rightarrow>
    SourceProjectionChanges \<times> ChunkTicketStorage \<Rightarrow> (SourceProjectionChanges \<times> ChunkTicketStorage) option" where
  "replace_simulation_ticket old new pos cs =
     (case cs of (ch, s) \<Rightarrow>
        (let (c, s1) = remove_ticket pos old s in
         map_option (\<lambda>(c', s2). (changes_merge (changes_merge ch c) c', s2)) (add_ticket pos new s1)))"

definition set_simulation_distance :: "nat \<Rightarrow> PlayerTicketTracker \<times> ChunkTicketStorage \<Rightarrow> PlayerState option" where
  "set_simulation_distance sd ts =
     (case ts of (tr, s) \<Rightarrow>
        if simulation_distance tr = sd then Some (no_changes, tr, s)
        else
          map_option (\<lambda>(ch, s'). (ch, tr\<lparr>simulation_distance := sd\<rparr>, s'))
            (for_each (replace_simulation_ticket (player_simulation_ticket (simulation_distance tr)) (player_simulation_ticket sd))
               (map fst (players_by_pos tr)) (no_changes, s)))"

definition adjust_view :: "nat \<Rightarrow> nat \<Rightarrow> ChunkPos \<Rightarrow> PlayerState \<Rightarrow> PlayerState option" where
  "adjust_view old new center st =
     (if new > old then for_each increment_loading_coverage (square_ring center old new) st
      else for_each decrement_loading_coverage (square_ring center new old) st)"

definition set_view_distance :: "nat \<Rightarrow> PlayerTicketTracker \<times> ChunkTicketStorage \<Rightarrow> PlayerState option" where
  "set_view_distance vd ts =
     (case ts of (tr, s) \<Rightarrow>
        if view_distance tr = vd then Some (no_changes, tr, s)
        else
          map_option (\<lambda>(ch, tr, s). (ch, tr\<lparr>view_distance := vd\<rparr>, s))
            (for_each (adjust_view (view_distance tr) vd) (map fst (players_by_pos tr)) (no_changes, tr, s)))"

end
