(* ===== verification/Player_Coverage.thy ===== *)
theory Player_Coverage
  imports Player_Tickets
begin

text \<open>
  Correctness of the player ticket tracker: the squares of chunks around a centre, tickets held
  jointly by counted owners, and the invariant that ties the player index, the coverage counts and the
  stored tickets together. Every operation keeps it and none can fail an assertion.
\<close>


section \<open>Squares of chunks\<close>

lemma unat_uminus: "d \<noteq> 0 \<Longrightarrow> unat (- d :: i32) = 2 ^ 32 - unat d"
proof -
  assume "d \<noteq> 0"
  then have u: "uint d \<noteq> 0" "uint d < 2 ^ 32" "0 \<le> uint d" using uint_lt2p [of d] by (simp_all add: uint_0_iff)
  have "uint (- d) = (- uint d) mod 2 ^ 32" using uint_word_ariths(4) [of d] by simp
  also have "\<dots> = 2 ^ 32 - uint d" using u by (simp add: zmod_zminus1_eq_if)
  finally have e: "uint (- d) = 2 ^ 32 - uint d" .
  have "unat (- d) = nat (2 ^ 32 - uint d)" unfolding unat_eq_nat_uint e ..
  also have "\<dots> = nat (2 ^ 32) - nat (uint d)" using u by (intro nat_diff_distrib) simp_all
  also have "\<dots> = 2 ^ 32 - unat d" unfolding unat_eq_nat_uint by simp
  finally show ?thesis .
qed

lemma wabs_of_int: "\<bar>x\<bar> \<le> 2 ^ 31 \<Longrightarrow> wabs (of_int x) = nat \<bar>x\<bar>"
proof -
  assume x: "\<bar>x\<bar> \<le> 2 ^ 31"
  define n where "n = nat \<bar>x\<bar>"
  have n: "n \<le> 2 ^ 31" using x by (simp add: n_def)
  have "of_int x = (of_nat n :: i32) \<or> of_int x = - (of_nat n :: i32)"
    by (cases "0 \<le> x") (simp_all add: n_def of_nat_nat)
  then have "wabs (of_int x) = wabs (of_nat n)" by auto
  moreover have u: "unat (of_nat n :: i32) = n" using n by (simp add: unat_of_nat take_bit_nat_eq_self)
  moreover have "n \<le> unat (- (of_nat n :: i32))"
    using unat_uminus [of "of_nat n"] u n by (cases "(of_nat n :: i32) = 0") simp_all
  ultimately show ?thesis by (simp add: wabs_def n_def)
qed

lemma wabs_le_of_int: "wabs w \<le> d \<longleftrightarrow> (\<exists>x. \<bar>x\<bar> \<le> int d \<and> w = of_int x)" if "d \<le> 255"
proof
  assume "wabs w \<le> d"
  then consider "unat w \<le> d" | "unat (- w) \<le> d" by (auto simp: wabs_def min_def split: if_splits)
  then show "\<exists>x. \<bar>x\<bar> \<le> int d \<and> w = of_int x"
  proof cases
    case 1
    then have "\<bar>int (unat w)\<bar> \<le> int d" by (simp only: abs_of_nat of_nat_le_iff)
    moreover have "w = of_int (int (unat w))" by simp
    ultimately show ?thesis by blast
  next
    case 2
    then have "\<bar>- int (unat (- w))\<bar> \<le> int d" by (simp only: abs_minus_cancel abs_of_nat of_nat_le_iff)
    moreover have "w = of_int (- int (unat (- w)))" by simp
    ultimately show ?thesis by blast
  qed
next
  assume "\<exists>x. \<bar>x\<bar> \<le> int d \<and> w = of_int x"
  then show "wabs w \<le> d" using wabs_of_int that by auto
qed

lemma set_square_offsets: "(x, z) \<in> set (square_offsets d) \<longleftrightarrow> \<bar>x\<bar> \<le> int d \<and> \<bar>z\<bar> \<le> int d"
  by (auto simp: square_offsets_def image_iff abs_le_iff)

lemma distinct_square_offsets: "distinct (square_offsets d)"
  unfolding square_offsets_def by (rule distinct_concat) (auto simp: distinct_map inj_on_def)

lemma offset_chunk_distance:
  "\<bar>x\<bar> \<le> 2 ^ 31 \<Longrightarrow> \<bar>z\<bar> \<le> 2 ^ 31 \<Longrightarrow> chebyshev c (offset_chunk c (x, z)) = nat (max \<bar>x\<bar> \<bar>z\<bar>)"
  by (simp add: chebyshev_def offset_chunk_def wabs_of_int max_def)

lemma set_square_positions: "d \<le> 255 \<Longrightarrow> p \<in> set (square_positions c d) \<longleftrightarrow> chebyshev c p \<le> d"
proof
  assume d: "d \<le> 255" "p \<in> set (square_positions c d)"
  then obtain x z where "\<bar>x\<bar> \<le> int d" "\<bar>z\<bar> \<le> int d" "p = offset_chunk c (x, z)"
    by (auto simp: square_positions_def set_square_offsets)
  then show "chebyshev c p \<le> d" using offset_chunk_distance [of x z c] d(1) by (simp add: nat_le_iff)
next
  assume d: "d \<le> 255" "chebyshev c p \<le> d"
  then obtain x z where xz: "\<bar>x\<bar> \<le> int d" "chunk_x p - chunk_x c = of_int x" "\<bar>z\<bar> \<le> int d" "chunk_z p - chunk_z c = of_int z"
    by (auto simp: chebyshev_def wabs_le_of_int)
  then have "p = offset_chunk c (x, z)" by (cases p) (simp add: offset_chunk_def algebra_simps)
  then show "p \<in> set (square_positions c d)" using xz(1,3) by (auto simp: square_positions_def set_square_offsets)
qed

lemma inj_offset_chunk: "d \<le> 255 \<Longrightarrow> inj_on (offset_chunk c) (set (square_offsets d))"
proof (rule inj_onI)
  fix o1 o2 assume d: "d \<le> 255" and o: "o1 \<in> set (square_offsets d)" "o2 \<in> set (square_offsets d)" "offset_chunk c o1 = offset_chunk c o2"
  obtain x1 z1 x2 z2 where e: "o1 = (x1, z1)" "o2 = (x2, z2)" by fastforce
  have eq: "y1 = y2" if "(of_int y1 :: i32) = of_int y2" "\<bar>y1\<bar> \<le> int d" "\<bar>y2\<bar> \<le> int d" for y1 y2
  proof -
    have "wabs (of_int (y1 - y2)) = 0" using that(1) by simp
    moreover have "\<bar>y1 - y2\<bar> \<le> 2 ^ 31" using that(2,3) d by simp
    ultimately have "nat \<bar>y1 - y2\<bar> = 0" using wabs_of_int [of "y1 - y2"] by metis
    then show ?thesis by simp
  qed
  show "o1 = o2" using o e eq [of x1 x2] eq [of z1 z2] by (simp add: set_square_offsets offset_chunk_def)
qed

lemma distinct_square_positions: "d \<le> 255 \<Longrightarrow> distinct (square_positions c d)"
  unfolding square_positions_def by (simp add: distinct_map distinct_square_offsets inj_offset_chunk)

lemma set_square_ring:
  "outer \<le> 255 \<Longrightarrow> p \<in> set (square_ring c inner outer) \<longleftrightarrow> inner < chebyshev c p \<and> chebyshev c p \<le> outer"
proof -
  assume outer: "outer \<le> 255"
  have d: "\<not> max \<bar>x\<bar> \<bar>z\<bar> \<le> int inner \<longleftrightarrow> inner < chebyshev c (offset_chunk c (x, z))"
    if "(x, z) \<in> set (square_offsets outer)" for x z
    using offset_chunk_distance [of x z c] that outer by (auto simp: set_square_offsets zless_nat_eq_int_zless less_max_iff_disj not_le)
  have "set (square_ring c inner outer) =
      offset_chunk c ` {o' \<in> set (square_offsets outer). inner < chebyshev c (offset_chunk c o')}"
    unfolding square_ring_def set_map set_filter by (rule arg_cong [where f = "image (offset_chunk c)"]) (use d in auto)
  then have "p \<in> set (square_ring c inner outer) \<longleftrightarrow> p \<in> set (square_positions c outer) \<and> inner < chebyshev c p"
    by (auto simp: square_positions_def)
  then show ?thesis using set_square_positions [OF outer] by auto
qed

lemma distinct_square_ring: "outer \<le> 255 \<Longrightarrow> distinct (square_ring c inner outer)"
  using inj_offset_chunk [of outer c] distinct_square_offsets [of outer] unfolding square_ring_def
  by (auto simp: distinct_map intro: inj_on_subset)

lemma chebyshev_sym: "chebyshev p q = chebyshev q p"
  using wabs_minus [of "chunk_x q - chunk_x p"] wabs_minus [of "chunk_z q - chunk_z p"] by (simp add: chebyshev_def)

section \<open>Counted tickets\<close>

text \<open>The contract of a store of slots that owners hold jointly: a slot is put when its first owner
  comes and dropped when its last one leaves.\<close>

locale counted_slots =
  fixes ok :: "'s \<Rightarrow> bool" and has :: "'s \<Rightarrow> 'k \<Rightarrow> bool" and valid :: "'k \<Rightarrow> bool"
    and put :: "'k \<Rightarrow> 's \<Rightarrow> 's option" and drop_slot :: "'k \<Rightarrow> 's \<Rightarrow> 's"
  assumes put_ok: "ok s \<Longrightarrow> valid k \<Longrightarrow> \<exists>s'. put k s = Some s' \<and> ok s' \<and> (\<forall>j. has s' j \<longleftrightarrow> j = k \<or> has s j)"
    and drop_ok: "ok s \<Longrightarrow> ok (drop_slot k s) \<and> (\<forall>j. has (drop_slot k s) j \<longleftrightarrow> j \<noteq> k \<and> has s j)"
begin

definition counted :: "('k \<Rightarrow> nat) \<Rightarrow> 's \<Rightarrow> bool" where
  "counted n s \<longleftrightarrow> ok s \<and> (\<forall>k. has s k \<longleftrightarrow> n k \<noteq> 0)"

lemma counted_acquire:
  assumes "counted n s" "valid k" "n k = 0"
  shows "\<exists>s'. put k s = Some s' \<and> counted (n(k := 1)) s'"
  using put_ok [of s k] assms by (auto simp: counted_def)

lemma counted_more: "counted n s \<Longrightarrow> n k \<noteq> 0 \<Longrightarrow> counted (n(k := n k + 1)) s"
  by (simp add: counted_def)

lemma counted_less: "counted n s \<Longrightarrow> n k > 1 \<Longrightarrow> counted (n(k := n k - 1)) s"
  by (auto simp: counted_def)

lemma counted_release: "counted n s \<Longrightarrow> n k = 1 \<Longrightarrow> counted (n(k := 0)) (drop_slot k s)"
  using drop_ok [of s k] by (simp add: counted_def)

end

text \<open>Tickets of an untimed type, one slot per position and level.\<close>

definition slot_has :: "TicketTypeRef \<Rightarrow> ChunkTicketStorage \<Rightarrow> ChunkPos \<times> ChunkTicketLevel \<Rightarrow> bool" where
  "slot_has ty s k \<longleftrightarrow> entry_at s (fst k, ty, snd k) \<noteq> None"

definition slot_put :: "TicketTypeRef \<Rightarrow> ChunkPos \<times> ChunkTicketLevel \<Rightarrow> ChunkTicketStorage \<Rightarrow> ChunkTicketStorage option" where
  "slot_put ty k s = map_option snd (add_ticket (fst k) (ticket_new ty (snd k)) s)"

definition slot_drop :: "TicketTypeRef \<Rightarrow> ChunkPos \<times> ChunkTicketLevel \<Rightarrow> ChunkTicketStorage \<Rightarrow> ChunkTicketStorage" where
  "slot_drop ty k s = snd (remove_ticket (fst k) (ticket_new ty (snd k)) s)"

lemma ticket_new_simps [simp]:
  "ticket_type (ticket_new ty l) = ty" "ticket_level (ticket_new ty l) = l" "ticket_id (ticket_new ty l) = (ty, l)"
  by (simp_all add: ticket_new_def ticket_from_saved_def ticket_id_def)

lemma add_untimed:
  assumes "storage_wf s" "ticket_level t \<le> MAX_LEVEL_RAW" "\<not> has_timeout (ticket_type t)"
  shows "\<exists>c s'. add_ticket pos t s = Some (c, s') \<and> storage_wf s' \<and> changes_cover c s s' \<and>
    (\<forall>k. entry_at s' k = None \<longleftrightarrow> k \<noteq> (pos, ticket_id t) \<and> entry_at s k = None) \<and>
    (\<forall>k. k \<noteq> (pos, ticket_id t) \<longrightarrow> entry_at s' k = entry_at s k)"
proof -
  note ok = add_ticket_ok [OF assms(1,2), of pos]
  obtain c s' where a: "add_ticket pos t s = Some (c, s')" using ok assms(3) by (cases "add_ticket pos t s") auto
  let ?v = "added_entry t None (ticket_map s pos (ticket_id t))"
  have m: "storage_wf s'" "ticket_map s' = (ticket_map s)(pos := (ticket_map s pos)(ticket_id t \<mapsto> ?v))"
    using ok assms(3) by (simp_all add: a)
  have e: "entry_at s' k = (if k = (pos, ticket_id t) then Some ?v else entry_at s k)" for k
    by (cases k) (simp add: entry_at_def m(2))
  show ?thesis using a m(1) add_ticket_covers [OF assms(1,2) a] by (simp add: e)
qed

lemma remove_any:
  assumes "storage_wf s"
  shows "\<exists>c s'. remove_ticket pos t s = (c, s') \<and> storage_wf s' \<and> changes_cover c s s' \<and>
    (\<forall>k. entry_at s' k = (if k = (pos, ticket_id t) then None else entry_at s k))"
proof -
  obtain c s' where r: "remove_ticket pos t s = (c, s')" by fastforce
  with remove_ticket_ok [OF assms, of pos t] remove_ticket_covers [OF assms, of pos t] show ?thesis
    by (auto simp: entry_at_def)
qed

lemma untimed_slots:
  assumes "\<not> has_timeout ty"
  shows "counted_slots storage_wf (slot_has ty) (\<lambda>k. snd k \<le> MAX_LEVEL_RAW) (slot_put ty) (slot_drop ty)"
proof
  fix s :: ChunkTicketStorage and k :: "ChunkPos \<times> ChunkTicketLevel"
  assume wf: "storage_wf s"
  show "\<exists>s'. slot_put ty k s = Some s' \<and> storage_wf s' \<and> (\<forall>j. slot_has ty s' j \<longleftrightarrow> j = k \<or> slot_has ty s j)"
    if "snd k \<le> MAX_LEVEL_RAW"
  proof -
    from add_untimed [OF wf, of "ticket_new ty (snd k)" "fst k", unfolded ticket_new_simps, OF that assms] obtain c s' where
      a: "add_ticket (fst k) (ticket_new ty (snd k)) s = Some (c, s')" "storage_wf s'"
        "\<And>j. entry_at s' j = None \<longleftrightarrow> j \<noteq> (fst k, ty, snd k) \<and> entry_at s j = None" by blast
    have "slot_has ty s' j \<longleftrightarrow> j = k \<or> slot_has ty s j" for j
      unfolding slot_has_def a(3) by (cases j; cases k) auto
    then show ?thesis using a(1,2) by (simp add: slot_put_def)
  qed
  show "storage_wf (slot_drop ty k s) \<and> (\<forall>j. slot_has ty (slot_drop ty k s) j \<longleftrightarrow> j \<noteq> k \<and> slot_has ty s j)"
  proof -
    from remove_any [OF wf, of "fst k" "ticket_new ty (snd k)", unfolded ticket_new_simps] obtain c s' where
      r: "remove_ticket (fst k) (ticket_new ty (snd k)) s = (c, s')" "storage_wf s'"
        "\<And>j. entry_at s' j = (if j = (fst k, ty, snd k) then None else entry_at s j)" by blast
    have "slot_has ty s' j \<longleftrightarrow> j \<noteq> k \<and> slot_has ty s j" for j
      unfolding slot_has_def r(3) by (cases j; cases k) auto
    then show ?thesis using r(1,2) by (simp add: slot_drop_def)
  qed
qed

lemma untimed_types: "\<not> has_timeout PLAYER_LOADING" "\<not> has_timeout PLAYER_SIMULATION" "\<not> has_timeout CHUNK_REQUEST"
  by (simp_all add: has_timeout_def timeout_def ticket_type_defs)

interpretation loading_slots: counted_slots storage_wf "slot_has PLAYER_LOADING" "\<lambda>k. snd k \<le> MAX_LEVEL_RAW"
  "slot_put PLAYER_LOADING" "slot_drop PLAYER_LOADING"
  by (rule untimed_slots [OF untimed_types(1)])

interpretation request_slots: counted_slots storage_wf "slot_has CHUNK_REQUEST" "\<lambda>k. snd k \<le> MAX_LEVEL_RAW"
  "slot_put CHUNK_REQUEST" "slot_drop CHUNK_REQUEST"
  by (rule untimed_slots [OF untimed_types(3)])


section \<open>Loading coverage\<close>

definition count_opt :: "nat \<Rightarrow> nat option" where
  "count_opt n = (if n = 0 then None else Some n)"

definition lift_count :: "(ChunkPos \<Rightarrow> nat) \<Rightarrow> ChunkPos \<times> ChunkTicketLevel \<Rightarrow> nat" where
  "lift_count n k = (if snd k = ENTITY_TICKING_CHUNK then n (fst k) else 0)"

text \<open>The coverage counts are \<open>n\<close> and the loading tickets are exactly at the covered positions.\<close>

definition cov_inv :: "(ChunkPos \<Rightarrow> nat) \<Rightarrow> PlayerTicketTracker \<Rightarrow> ChunkTicketStorage \<Rightarrow> bool" where
  "cov_inv n tr s \<longleftrightarrow> loading_coverage tr = (\<lambda>p. count_opt (n p)) \<and> loading_slots.counted (lift_count n) s"

text \<open>What a step of the coverage loops leaves alone.\<close>

definition cov_frame :: "SourceProjectionChanges \<times> PlayerTicketTracker \<times> ChunkTicketStorage \<Rightarrow> PlayerState \<Rightarrow> bool" where
  "cov_frame st st' \<longleftrightarrow>
     (case (st, st') of ((ch, tr, s), (ch', tr', s')) \<Rightarrow>
        tr' = tr\<lparr>loading_coverage := loading_coverage tr'\<rparr> \<and>
        (\<forall>k. fst (snd k) \<noteq> PLAYER_LOADING \<longrightarrow> entry_at s' k = entry_at s k) \<and>
        (\<forall>s0. changes_cover ch s0 s \<longrightarrow> changes_cover ch' s0 s'))"

definition cov_step :: "(ChunkPos \<Rightarrow> nat) \<Rightarrow> PlayerState \<Rightarrow> PlayerState option \<Rightarrow> bool" where
  "cov_step n st res \<longleftrightarrow>
     (\<exists>ch' tr' s'. res = Some (ch', tr', s') \<and> cov_inv n tr' s' \<and> cov_frame st (ch', tr', s'))"

lemma cov_inv_wf: "cov_inv n tr s \<Longrightarrow> storage_wf s"
  by (simp add: cov_inv_def loading_slots.counted_def)

lemma lift_count_upd: "(lift_count n)((p, ENTITY_TICKING_CHUNK) := v) = lift_count (n(p := v))"
  by (rule ext) (auto simp: lift_count_def)

lemma loading_ticket_new: "player_loading_ticket = ticket_new PLAYER_LOADING ENTITY_TICKING_CHUNK"
  by (fact player_loading_ticket_def)

lemma entity_ticking_max: "ENTITY_TICKING_CHUNK \<le> MAX_LEVEL_RAW"
  by (simp add: level_constants)

lemma cov_frame_trans: "cov_frame a b \<Longrightarrow> cov_frame b c \<Longrightarrow> cov_frame a c"
proof -
  assume ab: "cov_frame a b" and bc: "cov_frame b c"
  obtain ch1 tr1 s1 ch2 tr2 s2 ch3 tr3 s3 where e: "a = (ch1, tr1, s1)" "b = (ch2, tr2, s2)" "c = (ch3, tr3, s3)"
    by (metis prod.exhaust)
  have "tr3 = tr1\<lparr>loading_coverage := loading_coverage tr3\<rparr>"
    using ab bc unfolding e cov_frame_def by (cases tr1; cases tr2; cases tr3) simp
  with ab bc show ?thesis unfolding e cov_frame_def by simp
qed

lemma increment_ok:
  assumes inv: "cov_inv n tr s" and lt: "n p < usize_MAX"
  shows "cov_step (n(p := n p + 1)) (ch, tr, s) (increment_loading_coverage p (ch, tr, s))"
proof (cases "n p = 0")
  case True
  have cov: "loading_coverage tr p = None" using inv True by (simp add: cov_inv_def count_opt_def)
  from loading_slots.counted_acquire [of "lift_count n" s "(p, ENTITY_TICKING_CHUNK)"] inv True entity_ticking_max
  obtain s' where s': "slot_put PLAYER_LOADING (p, ENTITY_TICKING_CHUNK) s = Some s'"
      "loading_slots.counted (lift_count (n(p := 1))) s'"
    by (auto simp: cov_inv_def lift_count_def lift_count_upd [symmetric])
  from add_untimed [OF cov_inv_wf [OF inv], of player_loading_ticket p, unfolded loading_ticket_new ticket_new_simps,
      OF entity_ticking_max untimed_types(1)]
  obtain c s'' where a: "add_ticket p player_loading_ticket s = Some (c, s'')" "changes_cover c s s''"
      "\<And>k. k \<noteq> (p, PLAYER_LOADING, ENTITY_TICKING_CHUNK) \<Longrightarrow> entry_at s'' k = entry_at s k"
    unfolding loading_ticket_new by blast
  have "s'' = s'" using s'(1) a(1) by (simp add: slot_put_def loading_ticket_new)
  let ?tr = "tr\<lparr>loading_coverage := (loading_coverage tr)(p \<mapsto> 1)\<rparr>"
  have "increment_loading_coverage p (ch, tr, s) = Some (changes_merge ch c, ?tr, s')"
    using cov a(1) \<open>s'' = s'\<close> by (simp add: increment_loading_coverage_def)
  moreover have "cov_inv (n(p := n p + 1)) ?tr s'" using inv s'(2) True by (auto simp: cov_inv_def count_opt_def)
  moreover have "cov_frame (ch, tr, s) (changes_merge ch c, ?tr, s')"
    using a(2,3) changes_cover_merge \<open>s'' = s'\<close> by (auto simp: cov_frame_def)
  ultimately show ?thesis unfolding cov_step_def by blast
next
  case False
  let ?tr = "tr\<lparr>loading_coverage := (loading_coverage tr)(p \<mapsto> n p + 1)\<rparr>"
  have "increment_loading_coverage p (ch, tr, s) = Some (ch, ?tr, s)"
    using inv False lt by (simp add: increment_loading_coverage_def cov_inv_def count_opt_def)
  moreover have "loading_slots.counted (lift_count (n(p := n p + 1))) s"
    using loading_slots.counted_more [of "lift_count n" s "(p, ENTITY_TICKING_CHUNK)"] inv False
    by (simp add: cov_inv_def lift_count_upd) (simp add: lift_count_def)
  then have "cov_inv (n(p := n p + 1)) ?tr s" using inv by (auto simp: cov_inv_def count_opt_def)
  moreover have "cov_frame (ch, tr, s) (ch, ?tr, s)" by (simp add: cov_frame_def)
  ultimately show ?thesis unfolding cov_step_def by blast
qed

lemma decrement_ok:
  assumes inv: "cov_inv n tr s" and pos: "n p \<noteq> 0"
  shows "cov_step (n(p := n p - 1)) (ch, tr, s) (decrement_loading_coverage p (ch, tr, s))"
proof (cases "n p = 1")
  case True
  from remove_any [OF cov_inv_wf [OF inv], of p player_loading_ticket, unfolded loading_ticket_new ticket_new_simps] obtain c s' where
    r: "remove_ticket p player_loading_ticket s = (c, s')" "changes_cover c s s'"
      "\<And>k. entry_at s' k = (if k = (p, PLAYER_LOADING, ENTITY_TICKING_CHUNK) then None else entry_at s k)"
    unfolding loading_ticket_new by blast
  have sd: "slot_drop PLAYER_LOADING (p, ENTITY_TICKING_CHUNK) s = s'" using r(1) by (simp add: slot_drop_def loading_ticket_new)
  have "loading_slots.counted (lift_count (n(p := 0))) s'"
    using loading_slots.counted_release [of "lift_count n" s "(p, ENTITY_TICKING_CHUNK)"] inv True sd
    by (simp add: cov_inv_def lift_count_upd) (simp add: lift_count_def)
  let ?tr = "tr\<lparr>loading_coverage := (loading_coverage tr)(p := None)\<rparr>"
  have "decrement_loading_coverage p (ch, tr, s) = Some (changes_merge ch c, ?tr, s')"
    using inv True r(1) by (simp add: decrement_loading_coverage_def cov_inv_def count_opt_def)
  moreover have "cov_inv (n(p := n p - 1)) ?tr s'"
    using inv True \<open>loading_slots.counted (lift_count (n(p := 0))) s'\<close> by (auto simp: cov_inv_def count_opt_def)
  moreover have "cov_frame (ch, tr, s) (changes_merge ch c, ?tr, s')"
    using r(2,3) changes_cover_merge by (auto simp: cov_frame_def)
  ultimately show ?thesis unfolding cov_step_def by blast
next
  case False
  let ?tr = "tr\<lparr>loading_coverage := (loading_coverage tr)(p \<mapsto> n p - 1)\<rparr>"
  have "decrement_loading_coverage p (ch, tr, s) = Some (ch, ?tr, s)"
    using inv False pos by (simp add: decrement_loading_coverage_def cov_inv_def count_opt_def)
  moreover have "loading_slots.counted (lift_count (n(p := n p - 1))) s"
    using loading_slots.counted_less [of "lift_count n" s "(p, ENTITY_TICKING_CHUNK)"] inv False pos
    by (simp add: cov_inv_def lift_count_upd) (simp add: lift_count_def)
  then have "cov_inv (n(p := n p - 1)) ?tr s" using inv False pos by (auto simp: cov_inv_def count_opt_def)
  moreover have "cov_frame (ch, tr, s) (ch, ?tr, s)" by (simp add: cov_frame_def)
  ultimately show ?thesis unfolding cov_step_def by blast
qed

lemma cov_frame_refl: "cov_frame st st"
  by (cases st) (simp add: cov_frame_def)

lemma for_each_coverage:
  assumes step: "\<And>n ch tr s p. p \<in> set ps \<Longrightarrow> cov_inv n tr s \<Longrightarrow> P (n p) \<Longrightarrow>
      cov_step (n(p := g (n p))) (ch, tr, s) (f p (ch, tr, s))"
    and "distinct ps" "cov_inv n tr s" "\<And>p. p \<in> set ps \<Longrightarrow> P (n p)"
  shows "cov_step (\<lambda>p. if p \<in> set ps then g (n p) else n p) (ch, tr, s) (for_each f ps (ch, tr, s))"
  using assms
proof (induction ps arbitrary: n ch tr s)
  case Nil
  then show ?case using cov_frame_refl by (auto simp: cov_step_def)
next
  case (Cons p ps)
  from Cons.prems(1) [of p n tr s ch] Cons.prems(3,4) obtain ch1 tr1 s1 where
    s1: "f p (ch, tr, s) = Some (ch1, tr1, s1)" "cov_inv (n(p := g (n p))) tr1 s1" "cov_frame (ch, tr, s) (ch1, tr1, s1)"
    unfolding cov_step_def by auto
  have "cov_step (\<lambda>q. if q \<in> set ps then g ((n(p := g (n p))) q) else (n(p := g (n p))) q) (ch1, tr1, s1)
      (for_each f ps (ch1, tr1, s1))"
  proof (rule Cons.IH [OF _ _ s1(2)])
    show "cov_step (m(q := g (m q))) (ch, tr, s) (f q (ch, tr, s))"
      if "q \<in> set ps" "cov_inv m tr s" "P (m q)" for m ch tr s q
      by (rule Cons.prems(1)) (use that in simp_all)
    show "distinct ps" using Cons.prems(2) by simp
    show "P ((n(p := g (n p))) q)" if "q \<in> set ps" for q
      using Cons.prems(4) [of q] Cons.prems(2) that by auto
  qed
  moreover have "(\<lambda>q. if q \<in> set ps then g ((n(p := g (n p))) q) else (n(p := g (n p))) q) =
      (\<lambda>q. if q \<in> set (p # ps) then g (n q) else n q)" using Cons.prems(2) by auto
  ultimately have "cov_step (\<lambda>q. if q \<in> set (p # ps) then g (n q) else n q) (ch1, tr1, s1) (for_each f ps (ch1, tr1, s1))"
    by (simp only:)
  then obtain ch2 tr2 s2 where s2: "for_each f ps (ch1, tr1, s1) = Some (ch2, tr2, s2)"
      "cov_inv (\<lambda>q. if q \<in> set (p # ps) then g (n q) else n q) tr2 s2" "cov_frame (ch1, tr1, s1) (ch2, tr2, s2)"
    unfolding cov_step_def by blast
  have "for_each f (p # ps) (ch, tr, s) = Some (ch2, tr2, s2)" by (simp add: s1(1) s2(1))
  then show ?case using s2(2) cov_frame_trans [OF s1(3) s2(3)] unfolding cov_step_def by blast
qed


section \<open>Counting the centres that cover a chunk\<close>

definition cover :: "(ChunkPos \<Rightarrow> nat) \<Rightarrow> ChunkPos set \<Rightarrow> ChunkPos \<Rightarrow> nat" where
  "cover D C p = card {c \<in> C. chebyshev c p \<le> D c}"

lemma cover_insert:
  assumes "c \<notin> C" shows "cover D (insert c C) p = (if chebyshev c p \<le> D c then cover D C p + 1 else cover D C p)"
proof -
  have "{x \<in> insert c C. chebyshev x p \<le> D x} =
      (if chebyshev c p \<le> D c then insert c {x \<in> C. chebyshev x p \<le> D x} else {x \<in> C. chebyshev x p \<le> D x})" by auto
  then show ?thesis using assms finite_ChunkPos by (simp add: cover_def)
qed

lemma cover_delete:
  assumes "c \<in> C" shows "cover D (C - {c}) p = (if chebyshev c p \<le> D c then cover D C p - 1 else cover D C p)"
  using cover_insert [of c "C - {c}" D p] assms by (simp add: insert_absorb split: if_splits)

lemma cover_raise:
  assumes "c \<in> C" "D c \<le> d"
  shows "cover (D(c := d)) C p = (if D c < chebyshev c p \<and> chebyshev c p \<le> d then cover D C p + 1 else cover D C p)"
proof -
  have c: "insert c (C - {c}) = C" using assms(1) by auto
  have "cover (D(c := d)) (C - {c}) p = cover D (C - {c}) p" unfolding cover_def by (rule arg_cong [where f = card]) auto
  then show ?thesis
    using cover_insert [of c "C - {c}" D p] cover_insert [of c "C - {c}" "D(c := d)" p] assms(2) unfolding c by auto
qed

lemma cover_lower:
  assumes "c \<in> C" "d \<le> D c"
  shows "cover (D(c := d)) C p = (if d < chebyshev c p \<and> chebyshev c p \<le> D c then cover D C p - 1 else cover D C p)"
proof -
  have c: "insert c (C - {c}) = C" using assms(1) by auto
  have "cover (D(c := d)) (C - {c}) p = cover D (C - {c}) p" unfolding cover_def by (rule arg_cong [where f = card]) auto
  then show ?thesis
    using cover_insert [of c "C - {c}" D p] cover_insert [of c "C - {c}" "D(c := d)" p] assms(2) unfolding c by auto
qed

lemma length_square_offsets: "length (square_offsets d) = (2 * d + 1) ^ 2"
  by (simp add: square_offsets_def length_concat o_def sum_list_triv power2_eq_square nat_add_distrib nat_mult_distrib)

lemma cover_bound:
  assumes "\<And>c. c \<in> C \<Longrightarrow> D c \<le> 255" shows "cover D C p < usize_MAX"
proof -
  have "{c \<in> C. chebyshev c p \<le> D c} \<subseteq> set (square_positions p 255)"
  proof
    fix c assume "c \<in> {c \<in> C. chebyshev c p \<le> D c}"
    then have "chebyshev c p \<le> 255" using assms [of c] by auto
    then show "c \<in> set (square_positions p 255)" using chebyshev_sym [of p c] by (simp add: set_square_positions)
  qed
  then have "cover D C p \<le> card (set (square_positions p 255))" unfolding cover_def by (intro card_mono) simp_all
  also have "\<dots> \<le> length (square_positions p 255)" by (rule card_length)
  also have "\<dots> = 261121" by (simp add: square_positions_def length_square_offsets)
  finally show ?thesis by (simp add: usize_MAX_def)
qed

lemma cover_pos: "c \<in> C \<Longrightarrow> chebyshev c p \<le> D c \<Longrightarrow> cover D C p \<noteq> 0"
  using finite_ChunkPos by (auto simp: cover_def)

lemma cover_0_iff: "cover D C p = 0 \<longleftrightarrow> (\<forall>c \<in> C. \<not> chebyshev c p \<le> D c)"
  using finite_ChunkPos by (auto simp: cover_def)

lemma cover_square:
  assumes inv: "cov_inv (cover D C) tr s" and c: "c \<notin> C" "D c \<le> 255" and C: "\<And>c. c \<in> C \<Longrightarrow> D c \<le> 255"
  shows "cov_step (cover D (insert c C)) (ch, tr, s) (for_each increment_loading_coverage (square_positions c (D c)) (ch, tr, s))"
proof -
  have "cov_step (\<lambda>p. if p \<in> set (square_positions c (D c)) then cover D C p + 1 else cover D C p) (ch, tr, s)
      (for_each increment_loading_coverage (square_positions c (D c)) (ch, tr, s))"
    by (rule for_each_coverage [where P = "\<lambda>n. n < usize_MAX"])
      (simp_all only: increment_ok inv distinct_square_positions [OF c(2)] cover_bound [OF C])
  moreover have "cover D (insert c C) = (\<lambda>p. if p \<in> set (square_positions c (D c)) then cover D C p + 1 else cover D C p)"
    by (rule ext) (simp add: cover_insert [OF c(1)] set_square_positions [OF c(2)])
  ultimately show ?thesis by (simp only:)
qed

lemma uncover_square:
  assumes inv: "cov_inv (cover D C) tr s" and c: "c \<in> C" "D c \<le> 255"
  shows "cov_step (cover D (C - {c})) (ch, tr, s) (for_each decrement_loading_coverage (square_positions c (D c)) (ch, tr, s))"
proof -
  have "cov_step (\<lambda>p. if p \<in> set (square_positions c (D c)) then cover D C p - 1 else cover D C p) (ch, tr, s)
      (for_each decrement_loading_coverage (square_positions c (D c)) (ch, tr, s))"
    by (rule for_each_coverage [where P = "\<lambda>n. n \<noteq> 0"])
      (simp_all only: decrement_ok inv distinct_square_positions [OF c(2)] cover_pos [OF c(1)] set_square_positions [OF c(2)]
        not_False_eq_True)
  moreover have "cover D (C - {c}) = (\<lambda>p. if p \<in> set (square_positions c (D c)) then cover D C p - 1 else cover D C p)"
    by (rule ext) (simp add: cover_delete [OF c(1)] set_square_positions [OF c(2)])
  ultimately show ?thesis by (simp only:)
qed

lemma adjust_view_ok:
  assumes inv: "cov_inv (cover D C) tr s" and c: "c \<in> C" "D c = old" "old \<le> 255" "new \<le> 255" and C: "\<And>c. c \<in> C \<Longrightarrow> D c \<le> 255"
  shows "cov_step (cover (D(c := new)) C) (ch, tr, s) (adjust_view old new c (ch, tr, s))"
proof (cases "new > old")
  case True
  have "cov_step (\<lambda>p. if p \<in> set (square_ring c old new) then cover D C p + 1 else cover D C p) (ch, tr, s)
      (for_each increment_loading_coverage (square_ring c old new) (ch, tr, s))"
    by (rule for_each_coverage [where P = "\<lambda>n. n < usize_MAX"])
      (simp_all only: increment_ok inv distinct_square_ring [OF c(4)] cover_bound [OF C])
  moreover have "cover (D(c := new)) C = (\<lambda>p. if p \<in> set (square_ring c old new) then cover D C p + 1 else cover D C p)"
    by (rule ext) (use True c in \<open>simp add: cover_raise set_square_ring\<close>)
  ultimately show ?thesis using True by (simp only: adjust_view_def if_True)
next
  case False
  have "cov_step (\<lambda>p. if p \<in> set (square_ring c new old) then cover D C p - 1 else cover D C p) (ch, tr, s)
      (for_each decrement_loading_coverage (square_ring c new old) (ch, tr, s))"
    by (rule for_each_coverage [where P = "\<lambda>n. n \<noteq> 0"])
      (simp_all only: decrement_ok inv distinct_square_ring [OF c(3)] cover_pos [OF c(1)] set_square_ring [OF c(3)] c(2)
        not_False_eq_True)
  moreover have "cover (D(c := new)) C = (\<lambda>p. if p \<in> set (square_ring c new old) then cover D C p - 1 else cover D C p)"
    by (rule ext) (use False c in \<open>simp add: cover_lower set_square_ring\<close>)
  ultimately show ?thesis using False by (simp only: adjust_view_def if_False)
qed

lemma adjust_all_views:
  assumes "cov_inv (cover D C) tr s" "set cs \<subseteq> C" "distinct cs" "\<And>c. c \<in> set cs \<Longrightarrow> D c = old" "old \<le> 255" "new \<le> 255"
    "\<And>c. c \<in> C \<Longrightarrow> D c \<le> 255"
  shows "cov_step (cover (\<lambda>c. if c \<in> set cs then new else D c) C) (ch, tr, s) (for_each (adjust_view old new) cs (ch, tr, s))"
  using assms
proof (induction cs arbitrary: D ch tr s)
  case Nil
  then show ?case using cov_frame_refl by (auto simp: cov_step_def)
next
  case (Cons c cs)
  from adjust_view_ok [OF Cons.prems(1), of c old new ch] Cons.prems obtain ch1 tr1 s1 where
    s1: "adjust_view old new c (ch, tr, s) = Some (ch1, tr1, s1)" "cov_inv (cover (D(c := new)) C) tr1 s1"
      "cov_frame (ch, tr, s) (ch1, tr1, s1)"
    unfolding cov_step_def by auto
  have "cov_step (cover (\<lambda>x. if x \<in> set cs then new else (D(c := new)) x) C) (ch1, tr1, s1)
      (for_each (adjust_view old new) cs (ch1, tr1, s1))"
  proof (rule Cons.IH [OF s1(2)])
    show "(D(c := new)) x = old" if "x \<in> set cs" for x using Cons.prems(3,4) that by auto
    show "(D(c := new)) x \<le> 255" if "x \<in> C" for x using Cons.prems(6,7) that by simp
  qed (use Cons.prems in simp_all)
  moreover have e: "(\<lambda>x. if x \<in> set cs then new else (D(c := new)) x) = (\<lambda>x. if x \<in> set (c # cs) then new else D x)" by auto
  ultimately obtain ch2 tr2 s2 where s2: "for_each (adjust_view old new) cs (ch1, tr1, s1) = Some (ch2, tr2, s2)"
      "cov_inv (cover (\<lambda>x. if x \<in> set (c # cs) then new else D x) C) tr2 s2" "cov_frame (ch1, tr1, s1) (ch2, tr2, s2)"
    unfolding cov_step_def e by blast
  have "for_each (adjust_view old new) (c # cs) (ch, tr, s) = Some (ch2, tr2, s2)" by (simp add: s1(1) s2(1))
  then show ?case using s2(2) cov_frame_trans [OF s1(3) s2(3)] unfolding cov_step_def by blast
qed


section \<open>The tracker invariant\<close>

definition centers :: "PlayerTicketTracker \<Rightarrow> ChunkPos set" where
  "centers tr = fst ` set (players_by_pos tr)"

definition index_ok :: "(ChunkPos \<times> Uuid set) list \<Rightarrow> (Uuid \<rightharpoonup> ChunkPos) \<Rightarrow> bool" where
  "index_ok pbp pp \<longleftrightarrow> distinct (map fst pbp) \<and> (\<forall>c ps. map_of pbp c = Some ps \<longrightarrow> ps \<noteq> {}) \<and>
     (\<forall>u c. pp u = Some c \<longleftrightarrow> (\<exists>ps. map_of pbp c = Some ps \<and> u \<in> ps))"

definition sim_ok :: "ChunkPos set \<Rightarrow> nat \<Rightarrow> ChunkTicketStorage \<Rightarrow> bool" where
  "sim_ok C sd s \<longleftrightarrow>
     (\<forall>p l. entry_at s (p, PLAYER_SIMULATION, l) \<noteq> None \<longleftrightarrow> p \<in> C \<and> l = for_entity_ticking_radius sd)"

definition player_inv :: "PlayerTicketTracker \<Rightarrow> ChunkTicketStorage \<Rightarrow> bool" where
  "player_inv tr s \<longleftrightarrow>
     index_ok (players_by_pos tr) (player_positions tr) \<and> view_distance tr \<le> 255 \<and>
     cov_inv (cover (\<lambda>_. view_distance tr) (centers tr)) tr s \<and>
     sim_ok (centers tr) (simulation_distance tr) s"

text \<open>Tickets of other types stay, and the report covers all changes.\<close>

definition player_frame :: "SourceProjectionChanges \<Rightarrow> ChunkTicketStorage \<Rightarrow> SourceProjectionChanges \<Rightarrow> ChunkTicketStorage \<Rightarrow> bool" where
  "player_frame ch s ch' s' \<longleftrightarrow>
     (\<forall>k. fst (snd k) \<noteq> PLAYER_LOADING \<longrightarrow> fst (snd k) \<noteq> PLAYER_SIMULATION \<longrightarrow> entry_at s' k = entry_at s k) \<and>
     (\<forall>s0. changes_cover ch s0 s \<longrightarrow> changes_cover ch' s0 s')"

lemma player_frame_refl: "player_frame ch s ch s"
  by (simp add: player_frame_def)

lemma player_frame_trans: "player_frame ch s ch1 s1 \<Longrightarrow> player_frame ch1 s1 ch2 s2 \<Longrightarrow> player_frame ch s ch2 s2"
  unfolding player_frame_def by metis

lemma cov_frame_player: "cov_frame (ch, tr, s) (ch', tr', s') \<Longrightarrow> player_frame ch s ch' s'"
  by (simp add: cov_frame_def player_frame_def)

lemma cov_frame_tracker:
  assumes "cov_frame (ch, tr, s) (ch', tr', s')"
  shows "players_by_pos tr' = players_by_pos tr" "player_positions tr' = player_positions tr"
    "view_distance tr' = view_distance tr" "simulation_distance tr' = simulation_distance tr"
proof -
  have e: "tr' = tr\<lparr>loading_coverage := loading_coverage tr'\<rparr>" using assms by (simp add: cov_frame_def)
  show "players_by_pos tr' = players_by_pos tr" by (subst e) simp
  show "player_positions tr' = player_positions tr" by (subst e) simp
  show "view_distance tr' = view_distance tr" by (subst e) simp
  show "simulation_distance tr' = simulation_distance tr" by (subst e) simp
qed

lemma player_types_ne: "PLAYER_SIMULATION \<noteq> PLAYER_LOADING" "PLAYER_LOADING \<noteq> PLAYER_SIMULATION"
    "CHUNK_REQUEST \<noteq> PLAYER_LOADING" "CHUNK_REQUEST \<noteq> PLAYER_SIMULATION"
  by (simp_all add: ticket_type_defs)

lemma cov_frame_sim: "cov_frame (ch, tr, s) (ch', tr', s') \<Longrightarrow> sim_ok C sd s \<Longrightarrow> sim_ok C sd s'"
  using player_types_ne(1) by (simp add: cov_frame_def sim_ok_def)

lemma slots_counted_cong:
  "(\<And>p l. (entry_at s' (p, PLAYER_LOADING, l) = None) = (entry_at s (p, PLAYER_LOADING, l) = None)) \<Longrightarrow> storage_wf s' \<Longrightarrow>
    loading_slots.counted n s \<Longrightarrow> loading_slots.counted n s'"
  by (simp add: loading_slots.counted_def slot_has_def)

lemma cov_inv_cong:
  assumes "cov_inv n tr s" "storage_wf s'" "\<And>p l. entry_at s' (p, PLAYER_LOADING, l) = entry_at s (p, PLAYER_LOADING, l)"
    "loading_coverage tr' = loading_coverage tr"
  shows "cov_inv n tr' s'"
  using assms slots_counted_cong [of s' s "lift_count n"] by (simp add: cov_inv_def)

lemma simulation_ticket_new: "player_simulation_ticket d = ticket_new PLAYER_SIMULATION (for_entity_ticking_radius d)"
  by (fact player_simulation_ticket_def)

lemma simulation_level_max: "for_entity_ticking_radius d \<le> MAX_LEVEL_RAW"
  by (simp add: for_entity_ticking_radius_def level_constants)

lemma add_simulation_ticket:
  assumes wf: "storage_wf s" and sim: "sim_ok C sd s"
  shows "\<exists>c s'. add_ticket p (player_simulation_ticket sd) s = Some (c, s') \<and> storage_wf s' \<and> sim_ok (insert p C) sd s' \<and>
    (\<forall>k. fst (snd k) \<noteq> PLAYER_SIMULATION \<longrightarrow> entry_at s' k = entry_at s k) \<and> (\<forall>ch. player_frame ch s (changes_merge ch c) s')"
proof -
  from add_untimed [OF wf, of "player_simulation_ticket sd" p, unfolded simulation_ticket_new ticket_new_simps,
      OF simulation_level_max untimed_types(2)]
  obtain c s' where a: "add_ticket p (player_simulation_ticket sd) s = Some (c, s')" "storage_wf s'" "changes_cover c s s'"
      "\<And>k. entry_at s' k = None \<longleftrightarrow> k \<noteq> (p, PLAYER_SIMULATION, for_entity_ticking_radius sd) \<and> entry_at s k = None"
      "\<And>k. k \<noteq> (p, PLAYER_SIMULATION, for_entity_ticking_radius sd) \<Longrightarrow> entry_at s' k = entry_at s k"
    unfolding simulation_ticket_new by blast
  have sim: "sim_ok (insert p C) sd s'"
    unfolding sim_ok_def
  proof (intro allI)
    fix q l
    have "entry_at s (q, PLAYER_SIMULATION, l) \<noteq> None \<longleftrightarrow> q \<in> C \<and> l = for_entity_ticking_radius sd"
      using sim unfolding sim_ok_def by blast
    then show "entry_at s' (q, PLAYER_SIMULATION, l) \<noteq> None \<longleftrightarrow> q \<in> insert p C \<and> l = for_entity_ticking_radius sd"
      unfolding a(4) by blast
  qed
  have o: "entry_at s' k = entry_at s k" if "fst (snd k) \<noteq> PLAYER_SIMULATION" for k
    by (rule a(5)) (use that in auto)
  then have "player_frame ch s (changes_merge ch c) s'" for ch
    using changes_cover_merge [OF _ a(3)] by (auto simp: player_frame_def)
  with a(1,2) sim o show ?thesis by blast
qed

lemma remove_simulation_ticket:
  assumes wf: "storage_wf s" and sim: "sim_ok C sd s"
  shows "\<exists>c s'. remove_ticket p (player_simulation_ticket sd) s = (c, s') \<and> storage_wf s' \<and> sim_ok (C - {p}) sd s' \<and>
    (\<forall>k. fst (snd k) \<noteq> PLAYER_SIMULATION \<longrightarrow> entry_at s' k = entry_at s k) \<and> (\<forall>ch. player_frame ch s (changes_merge ch c) s')"
proof -
  from remove_any [OF wf, of p "player_simulation_ticket sd", unfolded simulation_ticket_new ticket_new_simps]
  obtain c s' where r: "remove_ticket p (player_simulation_ticket sd) s = (c, s')" "storage_wf s'" "changes_cover c s s'"
      "\<And>k. entry_at s' k = (if k = (p, PLAYER_SIMULATION, for_entity_ticking_radius sd) then None else entry_at s k)"
    unfolding simulation_ticket_new by blast
  have sim: "sim_ok (C - {p}) sd s'"
    unfolding sim_ok_def
  proof (intro allI)
    fix q l
    have "entry_at s (q, PLAYER_SIMULATION, l) \<noteq> None \<longleftrightarrow> q \<in> C \<and> l = for_entity_ticking_radius sd"
      using sim unfolding sim_ok_def by blast
    then show "entry_at s' (q, PLAYER_SIMULATION, l) \<noteq> None \<longleftrightarrow> q \<in> C - {p} \<and> l = for_entity_ticking_radius sd"
      unfolding r(4) by auto
  qed
  have o: "entry_at s' k = entry_at s k" if "fst (snd k) \<noteq> PLAYER_SIMULATION" for k
    unfolding r(4) using that by auto
  then have "player_frame ch s (changes_merge ch c) s'" for ch
    using changes_cover_merge [OF _ r(3)] by (auto simp: player_frame_def)
  with r(1,2) sim o show ?thesis by blast
qed

lemma index_ok_center: "index_ok pbp pp \<Longrightarrow> c \<in> fst ` set pbp \<longleftrightarrow> (\<exists>u. pp u = Some c)"
proof -
  assume ok: "index_ok pbp pp"
  have "c \<in> fst ` set pbp \<longleftrightarrow> (\<exists>ps. map_of pbp c = Some ps)"
    using map_of_eq_None_iff [of pbp c] by auto
  also have "\<dots> \<longleftrightarrow> (\<exists>u. pp u = Some c)" using ok unfolding index_ok_def by (metis ex_in_conv)
  finally show ?thesis .
qed


lemma index_ok_enter:
  assumes ok: "index_ok pbp pp" and u: "pp u = None"
  shows "index_ok (AList.update pos (insert u (case map_of pbp pos of None \<Rightarrow> {} | Some ps \<Rightarrow> ps)) pbp) (pp(u \<mapsto> pos))"
proof -
  have i: "pp v = Some c \<longleftrightarrow> (\<exists>ps. map_of pbp c = Some ps \<and> v \<in> ps)" for v c using ok unfolding index_ok_def by blast
  have "u \<notin> ps" if "map_of pbp c = Some ps" for c ps using i [of u c] u that by auto
  then have "(pp(u \<mapsto> pos)) v = Some c \<longleftrightarrow>
      (\<exists>ps. map_of (AList.update pos (insert u (case map_of pbp pos of None \<Rightarrow> {} | Some ps \<Rightarrow> ps)) pbp) c = Some ps \<and> v \<in> ps)" for v c
    using i [of v c] by (auto simp: update_conv' split: option.splits)
  moreover have "distinct (map fst (AList.update pos (insert u (case map_of pbp pos of None \<Rightarrow> {} | Some ps \<Rightarrow> ps)) pbp))"
    using ok by (simp add: index_ok_def distinct_update)
  ultimately show ?thesis using ok unfolding index_ok_def by (simp add: update_conv')
qed

lemma index_ok_leave:
  assumes ok: "index_ok pbp pp" and ps: "map_of pbp pos = Some ps" "u \<in> ps"
  shows "ps - {u} \<noteq> {} \<Longrightarrow> index_ok (AList.update pos (ps - {u}) pbp) (pp(u := None))"
    and "ps - {u} = {} \<Longrightarrow> index_ok (AList.delete pos pbp) (pp(u := None))"
proof -
  have i: "pp v = Some c \<longleftrightarrow> (\<exists>ps. map_of pbp c = Some ps \<and> v \<in> ps)" for v c using ok unfolding index_ok_def by blast
  have u: "pp u = Some pos" using i ps by blast
  have other: "v \<noteq> u" if "pp v = Some c" "c \<noteq> pos" for v c using that u by auto
  have d: "distinct (map fst pbp)" and ne: "\<And>c ps. map_of pbp c = Some ps \<Longrightarrow> ps \<noteq> {}" using ok by (auto simp: index_ok_def)
  { assume n: "ps - {u} \<noteq> {}"
    have "(pp(u := None)) v = Some c \<longleftrightarrow> (\<exists>ps'. map_of (AList.update pos (ps - {u}) pbp) c = Some ps' \<and> v \<in> ps')" for v c
      using i [of v c] other [of v c] ps u by (auto simp: update_conv')
    then show "index_ok (AList.update pos (ps - {u}) pbp) (pp(u := None))"
      using d ne n unfolding index_ok_def by (simp add: update_conv' distinct_update) }
  { assume n: "ps - {u} = {}"
    have "(pp(u := None)) v = Some c \<longleftrightarrow> (\<exists>ps'. map_of (AList.delete pos pbp) c = Some ps' \<and> v \<in> ps')" for v c
      using i [of v c] other [of v c] ps u n by (auto simp: delete_conv')
    then show "index_ok (AList.delete pos pbp) (pp(u := None))"
      using d ne unfolding index_ok_def by (simp add: delete_conv' distinct_delete) }
qed

text \<open>The result of a tracker operation.\<close>

definition player_step :: "SourceProjectionChanges \<Rightarrow> ChunkTicketStorage \<Rightarrow> (Uuid \<rightharpoonup> ChunkPos) \<Rightarrow> nat \<Rightarrow> nat \<Rightarrow>
    PlayerState option \<Rightarrow> bool" where
  "player_step ch s pp vd sd res \<longleftrightarrow>
     (\<exists>ch' tr' s'. res = Some (ch', tr', s') \<and> player_inv tr' s' \<and> player_frame ch s ch' s' \<and>
        player_positions tr' = pp \<and> view_distance tr' = vd \<and> simulation_distance tr' = sd)"

lemma enter_center_ok:
  assumes inv: "player_inv tr s" and u: "player_positions tr u = None"
  shows "player_step ch s ((player_positions tr)(u \<mapsto> pos)) (view_distance tr) (simulation_distance tr) (enter_center pos u (ch, tr, s))"
proof -
  define players where "players = (case map_of (players_by_pos tr) pos of None \<Rightarrow> {} | Some ps \<Rightarrow> ps)"
  define tr' where "tr' = tr\<lparr>players_by_pos := AList.update pos (insert u players) (players_by_pos tr),
      player_positions := (player_positions tr)(u \<mapsto> pos)\<rparr>"
  have idx: "index_ok (players_by_pos tr) (player_positions tr)" and vd: "view_distance tr \<le> 255"
    and cov: "cov_inv (cover (\<lambda>_. view_distance tr) (centers tr)) tr s" and sim: "sim_ok (centers tr) (simulation_distance tr) s"
    using inv by (simp_all add: player_inv_def)
  have idx': "index_ok (players_by_pos tr') (player_positions tr')"
    using index_ok_enter [OF idx u, of pos] by (simp add: tr'_def players_def)
  have cen: "centers tr' = insert pos (centers tr)" by (auto simp: centers_def tr'_def dom_update)
  have "u \<notin> ps" "ps \<noteq> {}" if "map_of (players_by_pos tr) pos = Some ps" for ps
    using idx u that unfolding index_ok_def by (metis option.distinct(1), blast)
  then have un: "u \<notin> players" and em: "players = {} \<Longrightarrow> map_of (players_by_pos tr) pos = None"
    by (auto simp: players_def split: option.splits)
  show ?thesis
  proof (cases "players = {}")
    case False
    then have "pos \<in> centers tr" by (auto simp: players_def centers_def dest: map_of_SomeD split: option.splits intro: rev_image_eqI)
    then have "centers tr' = centers tr" using cen by auto
    then have "player_inv tr' s" using idx' vd cov sim by (simp add: player_inv_def cov_inv_def tr'_def)
    moreover have "enter_center pos u (ch, tr, s) = Some (ch, tr', s)"
      using False un u by (simp add: enter_center_def Let_def tr'_def flip: players_def)
    ultimately show ?thesis using player_frame_refl by (auto simp: player_step_def tr'_def)
  next
    case True
    then have out: "pos \<notin> centers tr"
      using em map_of_eq_None_iff [of "players_by_pos tr" pos] by (simp add: centers_def)
    from add_simulation_ticket [OF cov_inv_wf [OF cov] sim, of pos] obtain c s1 where
      a: "add_ticket pos (player_simulation_ticket (simulation_distance tr)) s = Some (c, s1)" "storage_wf s1"
        "sim_ok (insert pos (centers tr)) (simulation_distance tr) s1"
        "\<And>k. fst (snd k) \<noteq> PLAYER_SIMULATION \<Longrightarrow> entry_at s1 k = entry_at s k" "player_frame ch s (changes_merge ch c) s1" by blast
    have cov1: "cov_inv (cover (\<lambda>_. view_distance tr) (centers tr)) tr' s1"
      by (rule cov_inv_cong [OF cov a(2)]) (simp_all add: a(4) player_types_ne tr'_def)
    from cover_square [OF cov1 out] vd obtain ch2 tr2 s2 where
      l: "for_each increment_loading_coverage (square_positions pos (view_distance tr)) (changes_merge ch c, tr', s1) = Some (ch2, tr2, s2)"
        "cov_inv (cover (\<lambda>_. view_distance tr) (insert pos (centers tr))) tr2 s2" "cov_frame (changes_merge ch c, tr', s1) (ch2, tr2, s2)"
      unfolding cov_step_def by metis
    note fr = cov_frame_tracker [OF l(3)]
    have "centers tr2 = insert pos (centers tr)" using fr(1) cen by (simp add: centers_def)
    then have "player_inv tr2 s2"
      using l(2) idx' vd cov_frame_sim [OF l(3) a(3)] fr by (simp add: player_inv_def tr'_def)
    moreover have "enter_center pos u (ch, tr, s) = Some (ch2, tr2, s2)"
      using True u a(1) l(1) by (simp add: enter_center_def Let_def flip: players_def) (simp add: tr'_def True)
    moreover have "player_frame ch s ch2 s2" using player_frame_trans [OF a(5) cov_frame_player [OF l(3)]] .
    ultimately show ?thesis using fr by (auto simp: player_step_def tr'_def)
  qed
qed

lemma remove_from_center_ok:
  assumes inv: "player_inv tr s" and u: "player_positions tr u = Some pos"
  shows "\<exists>ch' tr' s'. remove_player_from_center pos u (ch, tr, s) = Some (ch', tr', s') \<and>
    player_inv (tr'\<lparr>player_positions := (player_positions tr)(u := None)\<rparr>) s' \<and> player_frame ch s ch' s' \<and>
    player_positions tr' = player_positions tr \<and> view_distance tr' = view_distance tr \<and> simulation_distance tr' = simulation_distance tr"
proof -
  have idx: "index_ok (players_by_pos tr) (player_positions tr)" and vd: "view_distance tr \<le> 255"
    and cov: "cov_inv (cover (\<lambda>_. view_distance tr) (centers tr)) tr s" and sim: "sim_ok (centers tr) (simulation_distance tr) s"
    using inv by (simp_all add: player_inv_def)
  obtain ps where ps: "map_of (players_by_pos tr) pos = Some ps" "u \<in> ps" using idx u unfolding index_ok_def by blast
  note leave = index_ok_leave [OF idx ps]
  have pc: "pos \<in> centers tr" using ps(1) by (auto simp: centers_def dest: map_of_SomeD intro: rev_image_eqI)
  show ?thesis
  proof (cases "ps - {u} = {}")
    case False
    let ?tr = "tr\<lparr>players_by_pos := AList.update pos (ps - {u}) (players_by_pos tr)\<rparr>"
    have "centers ?tr = centers tr" using pc by (auto simp: centers_def dom_update)
    then have "player_inv (?tr\<lparr>player_positions := (player_positions tr)(u := None)\<rparr>) s"
      using leave(1) [OF False] vd cov sim by (simp add: player_inv_def cov_inv_def centers_def)
    moreover have "remove_player_from_center pos u (ch, tr, s) = Some (ch, ?tr, s)"
      using ps False by (simp add: remove_player_from_center_def Let_def)
    ultimately show ?thesis using player_frame_refl by fastforce
  next
    case True
    let ?tr = "tr\<lparr>players_by_pos := AList.delete pos (players_by_pos tr)\<rparr>"
    from remove_simulation_ticket [OF cov_inv_wf [OF cov] sim, of pos] obtain c s1 where
      r: "remove_ticket pos (player_simulation_ticket (simulation_distance tr)) s = (c, s1)" "storage_wf s1"
        "sim_ok (centers tr - {pos}) (simulation_distance tr) s1"
        "\<And>k. fst (snd k) \<noteq> PLAYER_SIMULATION \<Longrightarrow> entry_at s1 k = entry_at s k" "player_frame ch s (changes_merge ch c) s1" by blast
    have cov1: "cov_inv (cover (\<lambda>_. view_distance tr) (centers tr)) ?tr s1"
      by (rule cov_inv_cong [OF cov r(2)]) (simp_all add: r(4) player_types_ne)
    from uncover_square [OF cov1 pc vd] obtain ch2 tr2 s2 where
      l: "for_each decrement_loading_coverage (square_positions pos (view_distance tr)) (changes_merge ch c, ?tr, s1) = Some (ch2, tr2, s2)"
        "cov_inv (cover (\<lambda>_. view_distance tr) (centers tr - {pos})) tr2 s2" "cov_frame (changes_merge ch c, ?tr, s1) (ch2, tr2, s2)"
      unfolding cov_step_def by metis
    note fr = cov_frame_tracker [OF l(3)]
    have "centers tr2 = centers tr - {pos}" using fr(1) by (auto simp: centers_def AList.delete_eq)
    then have "player_inv (tr2\<lparr>player_positions := (player_positions tr)(u := None)\<rparr>) s2"
      using l(2) leave(2) [OF True] vd cov_frame_sim [OF l(3) r(3)] fr by (simp add: player_inv_def cov_inv_def centers_def)
    moreover have "remove_player_from_center pos u (ch, tr, s) = Some (ch2, tr2, s2)"
      using ps True r(1) l(1) by (simp add: remove_player_from_center_def Let_def)
    moreover have "player_frame ch s ch2 s2" using player_frame_trans [OF r(5) cov_frame_player [OF l(3)]] .
    ultimately show ?thesis using fr by auto
  qed
qed


lemma add_player_ok:
  assumes inv: "player_inv tr s"
  shows "player_step no_changes s ((player_positions tr)(u \<mapsto> pos)) (view_distance tr) (simulation_distance tr) (add_player pos u (tr, s))"
proof (cases "player_positions tr u")
  case None
  then show ?thesis using enter_center_ok [OF inv None] by (simp add: add_player_def)
next
  case (Some previous)
  show ?thesis
  proof (cases "previous = pos")
    case True
    then have "(player_positions tr)(u \<mapsto> pos) = player_positions tr" using Some by auto
    then show ?thesis using Some True inv player_frame_refl by (auto simp: add_player_def player_step_def)
  next
    case False
    from remove_from_center_ok [OF inv Some, of no_changes] obtain ch1 tr1 s1 where
      r: "remove_player_from_center previous u (no_changes, tr, s) = Some (ch1, tr1, s1)"
        "player_inv (tr1\<lparr>player_positions := (player_positions tr)(u := None)\<rparr>) s1" "player_frame no_changes s ch1 s1"
        "player_positions tr1 = player_positions tr" "view_distance tr1 = view_distance tr" "simulation_distance tr1 = simulation_distance tr"
      by blast
    let ?tr = "tr1\<lparr>player_positions := (player_positions tr1)(u := None)\<rparr>"
    have "player_step ch1 s1 ((player_positions tr)(u \<mapsto> pos)) (view_distance tr) (simulation_distance tr) (enter_center pos u (ch1, ?tr, s1))"
      using enter_center_ok [of ?tr s1 u ch1 pos] r(2,4,5,6) by simp
    moreover have "add_player pos u (tr, s) = enter_center pos u (ch1, ?tr, s1)" using Some False r(1) by (simp add: add_player_def)
    ultimately show ?thesis using player_frame_trans [OF r(3)] unfolding player_step_def by metis
  qed
qed

lemma remove_player_ok:
  assumes inv: "player_inv tr s"
  shows "player_step no_changes s (if player_positions tr u = Some pos then (player_positions tr)(u := None) else player_positions tr)
    (view_distance tr) (simulation_distance tr) (remove_player pos u (tr, s))"
proof (cases "player_positions tr u = Some pos")
  case True
  from remove_from_center_ok [OF inv True, of no_changes] show ?thesis
    using True by (auto simp: remove_player_def player_step_def)
next
  case False
  then show ?thesis using inv player_frame_refl by (auto simp: remove_player_def player_step_def)
qed

lemma replace_simulation_all:
  assumes "storage_wf s" "set cs \<subseteq> C" "distinct cs"
    and "\<forall>p l. entry_at s (p, PLAYER_SIMULATION, l) \<noteq> None \<longleftrightarrow>
      p \<in> C \<and> l = for_entity_ticking_radius (if p \<in> set cs then old else new)"
  shows "\<exists>ch' s'. for_each (replace_simulation_ticket (player_simulation_ticket old) (player_simulation_ticket new)) cs (ch, s) = Some (ch', s') \<and>
    storage_wf s' \<and> sim_ok C new s' \<and> (\<forall>k. fst (snd k) \<noteq> PLAYER_SIMULATION \<longrightarrow> entry_at s' k = entry_at s k) \<and>
    player_frame ch s ch' s'"
  using assms
proof (induction cs arbitrary: ch s)
  case Nil
  then show ?case using player_frame_refl by (auto simp: sim_ok_def)
next
  case (Cons p cs)
  from remove_any [OF Cons.prems(1), of p "player_simulation_ticket old", unfolded simulation_ticket_new ticket_new_simps]
  obtain c1 s1 where r: "remove_ticket p (player_simulation_ticket old) s = (c1, s1)" "storage_wf s1" "changes_cover c1 s s1"
      "\<And>k. entry_at s1 k = (if k = (p, PLAYER_SIMULATION, for_entity_ticking_radius old) then None else entry_at s k)"
    unfolding simulation_ticket_new by blast
  from add_untimed [OF r(2), of "player_simulation_ticket new" p, unfolded simulation_ticket_new ticket_new_simps,
      OF simulation_level_max untimed_types(2)]
  obtain c2 s2 where a: "add_ticket p (player_simulation_ticket new) s1 = Some (c2, s2)" "storage_wf s2" "changes_cover c2 s1 s2"
      "\<And>k. entry_at s2 k = None \<longleftrightarrow> k \<noteq> (p, PLAYER_SIMULATION, for_entity_ticking_radius new) \<and> entry_at s1 k = None"
      "\<And>k. k \<noteq> (p, PLAYER_SIMULATION, for_entity_ticking_radius new) \<Longrightarrow> entry_at s2 k = entry_at s1 k"
    unfolding simulation_ticket_new by blast
  let ?ch = "changes_merge (changes_merge ch c1) c2"
  have o: "entry_at s2 k = entry_at s k" if "fst (snd k) \<noteq> PLAYER_SIMULATION" for k
  proof -
    have "k \<noteq> (p, PLAYER_SIMULATION, for_entity_ticking_radius new)" "k \<noteq> (p, PLAYER_SIMULATION, for_entity_ticking_radius old)"
      using that by auto
    then show ?thesis using a(5) r(4) by simp
  qed
  have "player_frame ch s ?ch s2"
    unfolding player_frame_def using o changes_cover_merge [OF changes_cover_merge [OF _ r(3)] a(3)] by blast
  moreover have "\<forall>q l. entry_at s2 (q, PLAYER_SIMULATION, l) \<noteq> None \<longleftrightarrow>
      q \<in> C \<and> l = for_entity_ticking_radius (if q \<in> set cs then old else new)"
  proof (intro allI)
    fix q l
    have "entry_at s (q, PLAYER_SIMULATION, l) \<noteq> None \<longleftrightarrow>
        q \<in> C \<and> l = for_entity_ticking_radius (if q \<in> set (p # cs) then old else new)" using Cons.prems(4) by blast
    then show "entry_at s2 (q, PLAYER_SIMULATION, l) \<noteq> None \<longleftrightarrow>
        q \<in> C \<and> l = for_entity_ticking_radius (if q \<in> set cs then old else new)"
      unfolding a(4) r(4) using Cons.prems(2,3) by (cases "q = p") auto
  qed
  from Cons.IH [OF a(2) _ _ this, of ?ch] Cons.prems(2,3) obtain ch' s' where
    i: "for_each (replace_simulation_ticket (player_simulation_ticket old) (player_simulation_ticket new)) cs (?ch, s2) = Some (ch', s')"
      "storage_wf s'" "sim_ok C new s'" "\<And>k. fst (snd k) \<noteq> PLAYER_SIMULATION \<Longrightarrow> entry_at s' k = entry_at s2 k"
      "player_frame ?ch s2 ch' s'" by auto
  moreover have "replace_simulation_ticket (player_simulation_ticket old) (player_simulation_ticket new) p (ch, s) = Some (?ch, s2)"
    using r(1) a(1) by (simp add: replace_simulation_ticket_def)
  ultimately show ?case using o player_frame_trans [of ch s ?ch s2 ch' s'] by auto
qed

lemma set_simulation_distance_ok:
  assumes inv: "player_inv tr s"
  shows "player_step no_changes s (player_positions tr) (view_distance tr) sd (set_simulation_distance sd (tr, s))"
proof (cases "simulation_distance tr = sd")
  case True
  then show ?thesis using inv player_frame_refl by (auto simp: set_simulation_distance_def player_step_def)
next
  case False
  have idx: "index_ok (players_by_pos tr) (player_positions tr)" and vd: "view_distance tr \<le> 255"
    and cov: "cov_inv (cover (\<lambda>_. view_distance tr) (centers tr)) tr s" and sim: "sim_ok (centers tr) (simulation_distance tr) s"
    using inv by (simp_all add: player_inv_def)
  have c: "set (map fst (players_by_pos tr)) = centers tr" "distinct (map fst (players_by_pos tr))"
    using idx by (simp_all add: centers_def index_ok_def)
  have "\<forall>p l. entry_at s (p, PLAYER_SIMULATION, l) \<noteq> None \<longleftrightarrow> p \<in> centers tr \<and>
      l = for_entity_ticking_radius (if p \<in> set (map fst (players_by_pos tr)) then simulation_distance tr else sd)"
    using sim unfolding sim_ok_def c(1) by (metis (full_types))
  from replace_simulation_all [OF cov_inv_wf [OF cov] equalityD1 [OF c(1)] c(2) this, of no_changes] obtain ch' s' where
    f: "for_each (replace_simulation_ticket (player_simulation_ticket (simulation_distance tr)) (player_simulation_ticket sd))
        (map fst (players_by_pos tr)) (no_changes, s) = Some (ch', s')" "storage_wf s'" "sim_ok (centers tr) sd s'"
      "\<And>k. fst (snd k) \<noteq> PLAYER_SIMULATION \<Longrightarrow> entry_at s' k = entry_at s k" "player_frame no_changes s ch' s'" by auto
  let ?tr = "tr\<lparr>simulation_distance := sd\<rparr>"
  have "cov_inv (cover (\<lambda>_. view_distance tr) (centers tr)) ?tr s'"
    by (rule cov_inv_cong [OF cov f(2)]) (simp_all add: f(4) player_types_ne)
  then have "player_inv ?tr s'" using idx vd f(3) by (simp add: player_inv_def centers_def)
  then show ?thesis using False f(1,5) by (auto simp: set_simulation_distance_def player_step_def)
qed

lemma set_view_distance_ok:
  assumes inv: "player_inv tr s" and new: "vd \<le> 255"
  shows "player_step no_changes s (player_positions tr) vd (simulation_distance tr) (set_view_distance vd (tr, s))"
proof (cases "view_distance tr = vd")
  case True
  then show ?thesis using inv player_frame_refl by (auto simp: set_view_distance_def player_step_def)
next
  case False
  have idx: "index_ok (players_by_pos tr) (player_positions tr)" and vd: "view_distance tr \<le> 255"
    and cov: "cov_inv (cover (\<lambda>_. view_distance tr) (centers tr)) tr s" and sim: "sim_ok (centers tr) (simulation_distance tr) s"
    using inv by (simp_all add: player_inv_def)
  have c: "set (map fst (players_by_pos tr)) = centers tr" "distinct (map fst (players_by_pos tr))"
    using idx by (simp_all add: centers_def index_ok_def)
  have "cov_step (cover (\<lambda>x. if x \<in> set (map fst (players_by_pos tr)) then vd else view_distance tr) (centers tr)) (no_changes, tr, s)
      (for_each (adjust_view (view_distance tr) vd) (map fst (players_by_pos tr)) (no_changes, tr, s))"
    by (rule adjust_all_views [OF cov equalityD1 [OF c(1)] c(2)]) (simp_all add: vd new)
  then obtain ch' tr' s' where
    f: "for_each (adjust_view (view_distance tr) vd) (map fst (players_by_pos tr)) (no_changes, tr, s) = Some (ch', tr', s')"
      "cov_inv (cover (\<lambda>x. if x \<in> set (map fst (players_by_pos tr)) then vd else view_distance tr) (centers tr)) tr' s'"
      "cov_frame (no_changes, tr, s) (ch', tr', s')"
    unfolding cov_step_def by blast
  have e: "cover (\<lambda>x. if x \<in> set (map fst (players_by_pos tr)) then vd else view_distance tr) (centers tr) = cover (\<lambda>_. vd) (centers tr)"
    unfolding c(1) cover_def by (rule ext, rule arg_cong [where f = card]) auto
  note fr = cov_frame_tracker [OF f(3)]
  let ?tr = "tr'\<lparr>view_distance := vd\<rparr>"
  have "centers ?tr = centers tr" using fr(1) by (simp add: centers_def)
  moreover have "cov_inv (cover (\<lambda>_. vd) (centers tr)) ?tr s'" using f(2) unfolding e by (simp add: cov_inv_def)
  ultimately have "player_inv ?tr s'"
    using idx new cov_frame_sim [OF f(3) sim] fr by (simp add: player_inv_def)
  then show ?thesis using False f(1) cov_frame_player [OF f(3)] fr by (auto simp: set_view_distance_def player_step_def)
qed

lemma player_inv_new:
  assumes "storage_wf s" "vd \<le> 255" "\<And>k. entry_at s k \<noteq> None \<Longrightarrow> fst (snd k) \<noteq> PLAYER_LOADING \<and> fst (snd k) \<noteq> PLAYER_SIMULATION"
  shows "player_inv (player_tracker_new vd sd) s"
proof -
  have "entry_at s (p, PLAYER_LOADING, l) = None" "entry_at s (p, PLAYER_SIMULATION, l) = None" for p l
    using assms(3) [of "(p, PLAYER_LOADING, l)"] assms(3) [of "(p, PLAYER_SIMULATION, l)"] by (metis fst_conv snd_conv)+
  then show ?thesis using assms(1,2)
    by (auto simp: player_inv_def player_tracker_new_def index_ok_def cov_inv_def centers_def cover_def count_opt_def
        loading_slots.counted_def slot_has_def lift_count_def sim_ok_def)
qed

text \<open>What the invariant means for the tickets.\<close>

lemma player_inv_tickets:
  assumes "player_inv tr s"
  shows "entry_at s (p, PLAYER_LOADING, l) \<noteq> None \<longleftrightarrow>
      l = ENTITY_TICKING_CHUNK \<and> (\<exists>u c. player_positions tr u = Some c \<and> chebyshev c p \<le> view_distance tr)"
    and "entry_at s (p, PLAYER_SIMULATION, l) \<noteq> None \<longleftrightarrow>
      l = for_entity_ticking_radius (simulation_distance tr) \<and> (\<exists>u. player_positions tr u = Some p)"
proof -
  have idx: "index_ok (players_by_pos tr) (player_positions tr)"
    and cov: "cov_inv (cover (\<lambda>_. view_distance tr) (centers tr)) tr s" and sim: "sim_ok (centers tr) (simulation_distance tr) s"
    using assms by (simp_all add: player_inv_def)
  have cen: "c \<in> centers tr \<longleftrightarrow> (\<exists>u. player_positions tr u = Some c)" for c
    unfolding centers_def by (rule index_ok_center [OF idx])
  have cv: "cover (\<lambda>_. view_distance tr) (centers tr) p \<noteq> 0 \<longleftrightarrow>
      (\<exists>u c. player_positions tr u = Some c \<and> chebyshev c p \<le> view_distance tr)"
    unfolding cover_0_iff using cen by blast
  have "slot_has PLAYER_LOADING s (p, l) \<longleftrightarrow> lift_count (cover (\<lambda>_. view_distance tr) (centers tr)) (p, l) \<noteq> 0"
    using cov unfolding cov_inv_def loading_slots.counted_def by blast
  then show "entry_at s (p, PLAYER_LOADING, l) \<noteq> None \<longleftrightarrow>
      l = ENTITY_TICKING_CHUNK \<and> (\<exists>u c. player_positions tr u = Some c \<and> chebyshev c p \<le> view_distance tr)"
    unfolding slot_has_def lift_count_def fst_conv snd_conv using cv by (cases "l = ENTITY_TICKING_CHUNK") simp_all
  show "entry_at s (p, PLAYER_SIMULATION, l) \<noteq> None \<longleftrightarrow>
      l = for_entity_ticking_radius (simulation_distance tr) \<and> (\<exists>u. player_positions tr u = Some p)"
    using sim cen unfolding sim_ok_def by blast
qed

end
