(* ===== verification/Chunk_View.thy ===== *)
theory Chunk_View
  imports Player_Coverage
begin

text \<open>
  The chunks a player sees (\<^verbatim>\<open>steel-core/src/chunk/player_chunk_view.rs\<close>). Coordinates are 32-bit words
  with wrapping arithmetic; an iteration with a callback is the list of its calls in order.
\<close>

record PlayerChunkView =
  view_center :: ChunkPos
  view_radius :: nat

definition view_new :: "ChunkPos \<Rightarrow> nat \<Rightarrow> PlayerChunkView" where
  "view_new c vd = \<lparr>view_center = c, view_radius = vd\<rparr>"

definition view_empty :: PlayerChunkView where
  "view_empty = view_new (ChunkPos 0 0) 0"

definition min_x :: "PlayerChunkView \<Rightarrow> i32" where
  "min_x v = chunk_x (view_center v) - of_nat (view_radius v) - 1"

definition max_x :: "PlayerChunkView \<Rightarrow> i32" where
  "max_x v = chunk_x (view_center v) + of_nat (view_radius v) + 1"

definition min_z :: "PlayerChunkView \<Rightarrow> i32" where
  "min_z v = chunk_z (view_center v) - of_nat (view_radius v) - 1"

definition max_z :: "PlayerChunkView \<Rightarrow> i32" where
  "max_z v = chunk_z (view_center v) + of_nat (view_radius v) + 1"

text \<open>\<open>max(0, d.abs() - buffer)\<close>, widened to 64 bits.\<close>

definition beyond_buffer :: "i32 \<Rightarrow> i32 \<Rightarrow> i64" where
  "beyond_buffer d buffer = scast (let e = i32_abs d - buffer in if sint e < 0 then 0 else e)"

definition is_within_distance :: "i32 \<Rightarrow> i32 \<Rightarrow> i32 \<Rightarrow> i32 \<Rightarrow> i32 \<Rightarrow> bool \<Rightarrow> bool" where
  "is_within_distance cx cz vd px pz include_neighbors =
     (let buffer_range = (if include_neighbors then 2 else 1);
          delta_x = beyond_buffer (px - cx) buffer_range;
          delta_z = beyond_buffer (pz - cz) buffer_range;
          distance_squared = delta_x * delta_x + delta_z * delta_z;
          radius_squared = (scast vd :: i64) * scast vd
      in sint distance_squared < sint radius_squared)"

definition view_contains :: "PlayerChunkView \<Rightarrow> ChunkPos \<Rightarrow> bool" where
  "view_contains v p =
     is_within_distance (chunk_x (view_center v)) (chunk_z (view_center v)) (of_nat (view_radius v))
       (chunk_x p) (chunk_z p) True"

text \<open>The inclusive range of signed words \<open>a..=b\<close>, and the nested loop over two of them.\<close>

definition i32_range :: "i32 \<Rightarrow> i32 \<Rightarrow> i32 list" where
  "i32_range a b = map of_int [sint a..sint b]"

definition rectangle :: "i32 \<Rightarrow> i32 \<Rightarrow> i32 \<Rightarrow> i32 \<Rightarrow> ChunkPos list" where
  "rectangle x0 x1 z0 z1 = [ChunkPos x z. x \<leftarrow> i32_range x0 x1, z \<leftarrow> i32_range z0 z1]"

definition view_for_each :: "PlayerChunkView \<Rightarrow> ChunkPos list" where
  "view_for_each v = filter (view_contains v) (rectangle (min_x v) (max_x v) (min_z v) (max_z v))"

definition square_intersects :: "PlayerChunkView \<Rightarrow> PlayerChunkView \<Rightarrow> bool" where
  "square_intersects v w \<longleftrightarrow>
     sint (min_x v) \<le> sint (max_x w) \<and> sint (max_x v) \<ge> sint (min_x w) \<and>
     sint (min_z v) \<le> sint (max_z w) \<and> sint (max_z v) \<ge> sint (min_z w)"

datatype view_event = Added ChunkPos | Removed ChunkPos

definition smin :: "i32 \<Rightarrow> i32 \<Rightarrow> i32" where
  "smin a b = (if sint a \<le> sint b then a else b)"

definition smax :: "i32 \<Rightarrow> i32 \<Rightarrow> i32" where
  "smax a b = (if sint a \<le> sint b then b else a)"

definition view_event_at :: "PlayerChunkView \<Rightarrow> PlayerChunkView \<Rightarrow> ChunkPos \<Rightarrow> view_event list" where
  "view_event_at old new p =
     (let saw = view_contains old p; sees = view_contains new p in
      if saw \<noteq> sees then (if sees then [Added p] else [Removed p]) else [])"

definition view_difference :: "PlayerChunkView \<Rightarrow> PlayerChunkView \<Rightarrow> view_event list" where
  "view_difference old new =
     (if old = new then []
      else if square_intersects old new then
        concat (map (view_event_at old new)
          (rectangle (smin (min_x old) (min_x new)) (smax (max_x old) (max_x new))
            (smin (min_z old) (min_z new)) (smax (max_z old) (max_z new))))
      else map Removed (view_for_each old) @ map Added (view_for_each new))"

section \<open>The view as a set\<close>

text \<open>The coordinates of the surrounding square do not overflow.\<close>

definition view_ok :: "PlayerChunkView \<Rightarrow> bool" where
  "view_ok v \<longleftrightarrow> view_radius v \<le> 255 \<and>
     \<bar>sint (chunk_x (view_center v))\<bar> \<le> 2 ^ 31 - 258 \<and> \<bar>sint (chunk_z (view_center v))\<bar> \<le> 2 ^ 31 - 258"

lemma sint_of_int_small: "- (2 ^ 31) \<le> x \<Longrightarrow> x < 2 ^ 31 \<Longrightarrow> sint (of_int x :: i32) = x"
  by (simp add: signed_of_int signed_take_bit_int_eq_self)

lemma sint_add_small:
  fixes a :: i32 and k :: int
  assumes "\<bar>sint a\<bar> \<le> 2 ^ 31 - 258" "\<bar>k\<bar> \<le> 256"
  shows "sint (a + of_int k) = sint a + k"
proof -
  have "a + of_int k = of_int (sint a + k)" by simp
  then show ?thesis using assms sint_of_int_small [of "sint a + k"] by (simp add: abs_le_iff)
qed

lemma view_bounds:
  assumes "view_ok v"
  shows "sint (min_x v) = sint (chunk_x (view_center v)) - int (view_radius v) - 1"
    "sint (max_x v) = sint (chunk_x (view_center v)) + int (view_radius v) + 1"
    "sint (min_z v) = sint (chunk_z (view_center v)) - int (view_radius v) - 1"
    "sint (max_z v) = sint (chunk_z (view_center v)) + int (view_radius v) + 1"
proof -
  let ?r = "int (view_radius v)"
  have r: "\<bar>- ?r - 1\<bar> \<le> 256" "\<bar>?r + 1\<bar> \<le> 256" and c: "\<bar>sint (chunk_x (view_center v))\<bar> \<le> 2 ^ 31 - 258" "\<bar>sint (chunk_z (view_center v))\<bar> \<le> 2 ^ 31 - 258"
    using assms by (simp_all add: view_ok_def)
  show "sint (min_x v) = sint (chunk_x (view_center v)) - ?r - 1" using sint_add_small [OF c(1) r(1)] by (simp add: min_x_def algebra_simps)
  show "sint (max_x v) = sint (chunk_x (view_center v)) + ?r + 1" using sint_add_small [OF c(1) r(2)] by (simp add: max_x_def add.assoc)
  show "sint (min_z v) = sint (chunk_z (view_center v)) - ?r - 1" using sint_add_small [OF c(2) r(1)] by (simp add: min_z_def algebra_simps)
  show "sint (max_z v) = sint (chunk_z (view_center v)) + ?r + 1" using sint_add_small [OF c(2) r(2)] by (simp add: max_z_def add.assoc)
qed

lemma set_i32_range: "set (i32_range a b) = {w :: i32. sint a \<le> sint w \<and> sint w \<le> sint b}"
proof (intro set_eqI iffI)
  fix w assume "w \<in> set (i32_range a b)"
  then obtain x where x: "w = of_int x" "sint a \<le> x" "x \<le> sint b" by (auto simp: i32_range_def)
  have "sint w = x" unfolding x(1) by (rule sint_of_int_small) (use x(2,3) sint_greater_eq [of a] sint_lt [of b] in simp_all)
  then show "w \<in> {w :: i32. sint a \<le> sint w \<and> sint w \<le> sint b}" using x by simp
next
  fix w assume "w \<in> {w :: i32. sint a \<le> sint w \<and> sint w \<le> sint b}"
  then have "sint w \<in> set [sint a..sint b]" by simp
  then have "of_int (sint w) \<in> set (i32_range a b)" unfolding i32_range_def by (simp only: set_map) (rule imageI)
  then show "w \<in> set (i32_range a b)" by simp
qed

lemma distinct_i32_range: "distinct (i32_range a b)"
proof -
  have "inj_on (of_int :: int \<Rightarrow> i32) (set [sint a..sint b])"
  proof (rule inj_onI)
    fix x y assume xy: "x \<in> set [sint a..sint b]" "y \<in> set [sint a..sint b]" "(of_int x :: i32) = of_int y"
    have "- (2 ^ 31) \<le> sint a" "sint b < 2 ^ 31" using sint_greater_eq [of a] sint_lt [of b] by simp_all
    then have "sint (of_int x :: i32) = x" "sint (of_int y :: i32) = y" using xy(1,2) by (simp_all add: sint_of_int_small)
    then show "x = y" using arg_cong [OF xy(3), of sint] by presburger
  qed
  then show ?thesis by (simp add: i32_range_def distinct_map)
qed

lemma set_rectangle:
  "p \<in> set (rectangle x0 x1 z0 z1) \<longleftrightarrow>
     sint x0 \<le> sint (chunk_x p) \<and> sint (chunk_x p) \<le> sint x1 \<and> sint z0 \<le> sint (chunk_z p) \<and> sint (chunk_z p) \<le> sint z1"
  by (cases p) (auto simp: rectangle_def set_i32_range)

lemma distinct_rectangle: "distinct (rectangle x0 x1 z0 z1)"
proof -
  have "rectangle x0 x1 z0 z1 = map (\<lambda>(x, z). ChunkPos x z) (List.product (i32_range x0 x1) (i32_range z0 z1))"
    by (simp add: rectangle_def product_concat_map map_concat comp_def)
  moreover have "inj_on (\<lambda>(x, z). ChunkPos x z) A" for A by (auto simp: inj_on_def)
  ultimately show ?thesis using distinct_product [OF distinct_i32_range distinct_i32_range] by (simp add: distinct_map)
qed


lemma i32_abs_of_int: "i32_abs d = of_int \<bar>sint d\<bar>"
  by (simp add: i32_abs_def)

lemma sint_beyond_buffer:
  assumes "sint b = 1 \<or> sint b = 2"
  shows "sint (beyond_buffer d b) = max 0 (\<bar>sint d\<bar> - sint b)"
proof -
  have r: "\<bar>sint d\<bar> \<le> 2 ^ 31" using sint_greater_eq [of d] sint_lt [of d] by simp
  have "i32_abs d - b = of_int (\<bar>sint d\<bar> - sint b)" unfolding i32_abs_of_int by simp
  moreover have "sint (of_int (\<bar>sint d\<bar> - sint b) :: i32) = \<bar>sint d\<bar> - sint b"
    by (rule sint_of_int_small) (use r assms in auto)+
  ultimately have e: "sint (i32_abs d - b) = \<bar>sint d\<bar> - sint b" by presburger
  have "sint (beyond_buffer d b) = sint (if sint (i32_abs d - b) < 0 then 0 else i32_abs d - b)"
    by (simp add: beyond_buffer_def Let_def sint_up_scast is_up)
  then show ?thesis using e by (auto simp: max_def)
qed

lemma sint_of_int_i64: "- (2 ^ 63) \<le> x \<Longrightarrow> x < 2 ^ 63 \<Longrightarrow> sint (of_int x :: i64) = x"
  by (simp add: signed_of_int signed_take_bit_int_eq_self)

text \<open>Membership read over the integers: a rounded square around the centre.\<close>

lemma within_distance_iff:
  assumes "vd \<le> 255"
  shows "is_within_distance cx cz (of_nat vd) px pz b \<longleftrightarrow>
    (max 0 (\<bar>sint (px - cx)\<bar> - (if b then 2 else 1)))\<^sup>2 + (max 0 (\<bar>sint (pz - cz)\<bar> - (if b then 2 else 1)))\<^sup>2 < (int vd)\<^sup>2"
proof -
  define k :: i32 where "k = (if b then 2 else 1)"
  have k: "sint k = (if b then 2 else 1)" by (simp add: k_def)
  define X where "X = max 0 (\<bar>sint (px - cx)\<bar> - sint k)"
  define Z where "Z = max 0 (\<bar>sint (pz - cz)\<bar> - sint k)"
  have bd: "0 \<le> X" "X \<le> 2 ^ 31 - 1" "0 \<le> Z" "Z \<le> 2 ^ 31 - 1"
    using sint_greater_eq [of "px - cx"] sint_lt [of "px - cx"] sint_greater_eq [of "pz - cz"] sint_lt [of "pz - cz"]
    by (auto simp: X_def Z_def k)
  have "sint k = 1 \<or> sint k = 2" by (simp add: k)
  then have "sint (beyond_buffer (px - cx) k) = X" "sint (beyond_buffer (pz - cz) k) = Z"
    unfolding X_def Z_def by (simp_all only: sint_beyond_buffer)
  then have sx: "beyond_buffer (px - cx) k = of_int X" "beyond_buffer (pz - cz) k = of_int Z" by fastforce+
  have "X * X \<le> (2 ^ 31 - 1) * (2 ^ 31 - 1)" "Z * Z \<le> (2 ^ 31 - 1) * (2 ^ 31 - 1)" by (intro mult_mono; use bd in simp)+
  moreover have "- (2 ^ 63) \<le> X * X + Z * Z" by (rule order_trans [of _ 0]) simp_all
  ultimately have "sint (of_int (X * X + Z * Z) :: i64) = X * X + Z * Z" by (intro sint_of_int_i64) simp_all
  moreover have "sint (of_int (int vd * int vd) :: i64) = int vd * int vd"
  proof (rule sint_of_int_i64)
    have "int vd * int vd \<le> 255 * 255" using assms by (intro mult_mono) simp_all
    then show "int vd * int vd < 2 ^ 63" by simp
  qed (rule order_trans [of _ 0], simp_all)
  moreover have "scast (of_nat vd :: i32) = (of_int (int vd) :: i64)"
  proof -
    have "sint (of_nat vd :: i32) = int vd" using sint_of_int_small [of "int vd"] assms by simp
    then show ?thesis by (metis of_int_sint scast_eq)
  qed
  ultimately show ?thesis
    unfolding is_within_distance_def Let_def k_def [symmetric] sx
    by (simp add: power2_eq_square X_def Z_def k)
qed

lemma view_contains_bound:
  assumes "view_radius v \<le> 255" "view_contains v p"
  shows "\<bar>sint (chunk_x p - chunk_x (view_center v))\<bar> \<le> int (view_radius v) + 1"
    "\<bar>sint (chunk_z p - chunk_z (view_center v))\<bar> \<le> int (view_radius v) + 1"
proof -
  let ?x = "\<bar>sint (chunk_x p - chunk_x (view_center v))\<bar>" and ?z = "\<bar>sint (chunk_z p - chunk_z (view_center v))\<bar>"
  have "(max 0 (?x - 2))\<^sup>2 + (max 0 (?z - 2))\<^sup>2 < (int (view_radius v))\<^sup>2"
    using assms(2) within_distance_iff [OF assms(1)] by (simp add: view_contains_def)
  moreover have "0 \<le> (max 0 (?x - 2))\<^sup>2" "0 \<le> (max 0 (?z - 2))\<^sup>2" by (rule zero_le_power2)+
  ultimately have "(max 0 (?x - 2))\<^sup>2 < (int (view_radius v))\<^sup>2" "(max 0 (?z - 2))\<^sup>2 < (int (view_radius v))\<^sup>2" by linarith+
  then have "max 0 (?x - 2) < int (view_radius v)" "max 0 (?z - 2) < int (view_radius v)" by (auto dest: power2_less_imp_less)
  then show "?x \<le> int (view_radius v) + 1" "?z \<le> int (view_radius v) + 1" by linarith+
qed

lemma view_contains_chebyshev:
  assumes "view_radius v \<le> 255" "view_contains v p"
  shows "chebyshev (view_center v) p \<le> view_radius v + 1"
proof -
  have w: "wabs d = nat \<bar>sint d\<bar>" for d :: i32
    using wabs_of_int [of "sint d"] sint_greater_eq [of d] sint_lt [of d] by simp
  show ?thesis using view_contains_bound [OF assms] by (simp add: chebyshev_def w nat_le_iff)
qed

lemma view_contains_square:
  assumes "view_ok v" "view_contains v p"
  shows "sint (min_x v) \<le> sint (chunk_x p) \<and> sint (chunk_x p) \<le> sint (max_x v) \<and>
    sint (min_z v) \<le> sint (chunk_z p) \<and> sint (chunk_z p) \<le> sint (max_z v)"
proof -
  have ok: "view_radius v \<le> 255" "\<bar>sint (chunk_x (view_center v))\<bar> \<le> 2 ^ 31 - 258" "\<bar>sint (chunk_z (view_center v))\<bar> \<le> 2 ^ 31 - 258"
    using assms(1) by (simp_all add: view_ok_def)
  note b = view_contains_bound [OF ok(1) assms(2)]
  have "sint (chunk_x p) = sint (chunk_x (view_center v)) + sint (chunk_x p - chunk_x (view_center v))"
    using sint_add_small [OF ok(2), of "sint (chunk_x p - chunk_x (view_center v))"] b(1) ok(1) by simp
  moreover have "sint (chunk_z p) = sint (chunk_z (view_center v)) + sint (chunk_z p - chunk_z (view_center v))"
    using sint_add_small [OF ok(3), of "sint (chunk_z p - chunk_z (view_center v))"] b(2) ok(1) by simp
  ultimately show ?thesis using b unfolding view_bounds [OF assms(1)] by linarith
qed

lemma set_view_for_each: "view_ok v \<Longrightarrow> p \<in> set (view_for_each v) \<longleftrightarrow> view_contains v p"
  using view_contains_square [of v p] by (auto simp: view_for_each_def set_rectangle)

lemma distinct_view_for_each: "distinct (view_for_each v)"
  by (simp add: view_for_each_def distinct_rectangle)

lemma view_event_at_mem:
  "e \<in> set (view_event_at old new p) \<longleftrightarrow>
     e = Added p \<and> view_contains new p \<and> \<not> view_contains old p \<or> e = Removed p \<and> view_contains old p \<and> \<not> view_contains new p"
  by (auto simp: view_event_at_def Let_def)

lemma distinct_view_events: "distinct ps \<Longrightarrow> distinct (concat (map (view_event_at old new) ps))"
proof (induction ps)
  case (Cons p ps)
  have "distinct (view_event_at old new p)" by (simp add: view_event_at_def Let_def)
  moreover have "set (view_event_at old new p) \<inter> set (concat (map (view_event_at old new) ps)) = {}"
    using Cons.prems by (auto simp: view_event_at_mem)
  ultimately show ?case using Cons by simp
qed simp

lemma sint_smin_smax: "sint (smin a b) = min (sint a) (sint b)" "sint (smax a b) = max (sint a) (sint b)"
  by (auto simp: smin_def smax_def)

text \<open>Two views that share a chunk have intersecting squares.\<close>

lemma shared_intersects:
  assumes "view_ok v" "view_ok w" "view_contains v p" "view_contains w p" shows "square_intersects v w"
  using view_contains_square [OF assms(1,3)] view_contains_square [OF assms(2,4)] by (simp add: square_intersects_def)

lemma view_difference_mem:
  assumes "view_ok old" "view_ok new"
  shows "Added p \<in> set (view_difference old new) \<longleftrightarrow> view_contains new p \<and> \<not> view_contains old p"
    "Removed p \<in> set (view_difference old new) \<longleftrightarrow> view_contains old p \<and> \<not> view_contains new p"
proof -
  have rect: "p \<in> set (rectangle (smin (min_x old) (min_x new)) (smax (max_x old) (max_x new))
      (smin (min_z old) (min_z new)) (smax (max_z old) (max_z new)))" if "view_contains old p \<or> view_contains new p"
    using that view_contains_square [OF assms(1), of p] view_contains_square [OF assms(2), of p]
    unfolding set_rectangle sint_smin_smax by (auto simp: min_le_iff_disj le_max_iff_disj)
  show "Added p \<in> set (view_difference old new) \<longleftrightarrow> view_contains new p \<and> \<not> view_contains old p"
    using rect shared_intersects [OF assms] set_view_for_each [OF assms(2)]
    by (auto simp: view_difference_def view_event_at_mem)
  show "Removed p \<in> set (view_difference old new) \<longleftrightarrow> view_contains old p \<and> \<not> view_contains new p"
    using rect shared_intersects [OF assms] set_view_for_each [OF assms(1)]
    by (auto simp: view_difference_def view_event_at_mem)
qed

lemma distinct_view_difference: "distinct (view_difference old new)"
  by (auto simp: view_difference_def distinct_view_events distinct_rectangle distinct_map distinct_view_for_each inj_on_def)


section \<open>Properties\<close>

text \<open>C30: Moving from one view to another reports every chunk that comes into sight exactly once as
  added, every chunk that goes out of sight exactly once as removed, and nothing else, whether or
  not the two squares intersect.\<close>

theorem view_difference_exact:
  assumes "view_ok old" "view_ok new"
  shows "distinct (view_difference old new) \<and>
    (Added p \<in> set (view_difference old new) \<longleftrightarrow> view_contains new p \<and> \<not> view_contains old p) \<and>
    (Removed p \<in> set (view_difference old new) \<longleftrightarrow> view_contains old p \<and> \<not> view_contains new p)"
  using distinct_view_difference view_difference_mem [OF assms] by blast

theorem view_difference_exact_witness:
  "Added (ChunkPos 4 0) \<in> set (view_difference (view_new (ChunkPos 0 0) 2) (view_new (ChunkPos 1 0) 2)) \<and>
    Removed (ChunkPos (-3) 0) \<in> set (view_difference (view_new (ChunkPos 0 0) 2) (view_new (ChunkPos 1 0) 2))"
proof -
  have ok: "view_ok (view_new (ChunkPos 0 0) 2)" "view_ok (view_new (ChunkPos 1 0) 2)" by (simp_all add: view_ok_def view_new_def)
  show ?thesis using view_difference_exact [OF ok, of "ChunkPos 4 0"] view_difference_exact [OF ok, of "ChunkPos (-3) 0"]
    by (simp add: view_contains_def view_new_def is_within_distance_def beyond_buffer_def Let_def i32_abs_def)
qed

end
