(* ===== verification/Chunk_Scheduler.thy ===== *)
theory Chunk_Scheduler
  imports Player_Coverage
begin

text \<open>
  The scheduling coordinator (\<^verbatim>\<open>steel-core/src/chunk/chunk_scheduler.rs\<close>): gameplay submits ticket
  operations to the ingress, which applies them to the storage at once and remembers the dirty
  positions; a pass snapshots the dirty source levels and propagates them through the loading and
  the simulation tracker. \<open>None\<close> is a failed assertion or a panic. A hash set is the list of its
  elements.
\<close>

datatype PlayerTicketOperation =
  AddPlayer ChunkPos Uuid | RemovePlayer ChunkPos Uuid

type_synonym ChunkTicketReceipt = u64

definition receipt_INITIAL :: ChunkTicketReceipt where
  "receipt_INITIAL = 0"

definition receipt_next :: "ChunkTicketReceipt \<Rightarrow> ChunkTicketReceipt option" where
  "receipt_next r = (if r = - 1 then None else Some (r + 1))"

record ChunkSchedulingUpdateBatch =
  through_receipt :: ChunkTicketReceipt
  load_changes :: "ChunkLevelChange list"
  simulation_changes :: "ChunkLevelChange list"

record SourceProjectionBatch =
  projection_receipt :: ChunkTicketReceipt
  load_updates :: "SourceLevelUpdate list"
  simulation_updates :: "SourceLevelUpdate list"

record TicketOperationIngress =
  storage :: ChunkTicketStorage
  player_tickets :: PlayerTicketTracker
  chunk_request_leases :: "ChunkPos \<times> ChunkTicketLevel \<rightharpoonup> nat"
  latest_receipt :: ChunkTicketReceipt
  dirty_load_positions :: "ChunkPos list"
  dirty_simulation_positions :: "ChunkPos list"

section \<open>The ingress\<close>

definition ingress_new :: "ChunkTicketStorage \<Rightarrow> nat \<Rightarrow> nat \<Rightarrow> TicketOperationIngress" where
  "ingress_new s vd sd =
     \<lparr>storage = s, player_tickets = player_tracker_new vd sd, chunk_request_leases = Map.empty,
      latest_receipt = receipt_INITIAL, dirty_load_positions = [], dirty_simulation_positions = []\<rparr>"

definition record_changes :: "SourceProjectionChanges \<Rightarrow> TicketOperationIngress \<Rightarrow> TicketOperationIngress" where
  "record_changes c g =
     g\<lparr>dirty_load_positions := fold List.insert (load_positions c) (dirty_load_positions g),
       dirty_simulation_positions := fold List.insert (simulation_positions c) (dirty_simulation_positions g)\<rparr>"

definition allocate_receipt :: "TicketOperationIngress \<Rightarrow> (ChunkTicketReceipt \<times> TicketOperationIngress) option" where
  "allocate_receipt g = map_option (\<lambda>r. (r, g\<lparr>latest_receipt := r\<rparr>)) (receipt_next (latest_receipt g))"

text \<open>Puts the result of a tracker operation back and records its changes.\<close>

definition store_player :: "PlayerState \<Rightarrow> TicketOperationIngress \<Rightarrow> TicketOperationIngress" where
  "store_player st g = (case st of (c, tr, s) \<Rightarrow> record_changes c (g\<lparr>player_tickets := tr, storage := s\<rparr>))"

fun apply_player_operation :: "PlayerTicketOperation \<Rightarrow> TicketOperationIngress \<Rightarrow> PlayerState option" where
  "apply_player_operation (AddPlayer pos u) g = add_player pos u (player_tickets g, storage g)"
| "apply_player_operation (RemovePlayer pos u) g = remove_player pos u (player_tickets g, storage g)"

definition apply_and_record :: "PlayerTicketOperation \<Rightarrow> TicketOperationIngress \<Rightarrow> TicketOperationIngress option" where
  "apply_and_record op' g = map_option (\<lambda>st. store_player st g) (apply_player_operation op' g)"

definition push_player :: "PlayerTicketOperation \<Rightarrow> TicketOperationIngress \<Rightarrow> (ChunkTicketReceipt \<times> TicketOperationIngress) option" where
  "push_player op' g = (case apply_and_record op' g of None \<Rightarrow> None | Some g' \<Rightarrow> allocate_receipt g')"

definition push_player_batch :: "PlayerTicketOperation list \<Rightarrow> TicketOperationIngress \<Rightarrow>
    (ChunkTicketReceipt option \<times> TicketOperationIngress) option" where
  "push_player_batch ops g =
     (if ops = [] then Some (None, g)
      else
        (case for_each apply_and_record ops g of
           None \<Rightarrow> None
         | Some g' \<Rightarrow> map_option (\<lambda>(r, g). (Some r, g)) (allocate_receipt g')))"

definition acquire_lease :: "ChunkTicketLevel \<Rightarrow> ChunkPos \<Rightarrow> TicketOperationIngress \<Rightarrow> TicketOperationIngress option" where
  "acquire_lease l pos g =
     (let n = (case chunk_request_leases g (pos, l) of None \<Rightarrow> 0 | Some n \<Rightarrow> n) in
      if n = usize_MAX then None
      else
        (let g' = g\<lparr>chunk_request_leases := (chunk_request_leases g)((pos, l) \<mapsto> n + 1)\<rparr> in
         if n = 0
         then map_option (\<lambda>(c, s). record_changes c (g'\<lparr>storage := s\<rparr>)) (add_ticket pos (ticket_new CHUNK_REQUEST l) (storage g'))
         else Some g'))"

definition acquire_chunk_request_leases :: "ChunkPos list \<Rightarrow> ChunkTicketLevel \<Rightarrow> TicketOperationIngress \<Rightarrow>
    (ChunkTicketReceipt option \<times> TicketOperationIngress) option" where
  "acquire_chunk_request_leases ps l g =
     (if ps = [] then Some (None, g)
      else
        (case for_each (acquire_lease l) ps g of
           None \<Rightarrow> None
         | Some g' \<Rightarrow> map_option (\<lambda>(r, g). (Some r, g)) (allocate_receipt g')))"

definition release_lease :: "ChunkTicketLevel \<Rightarrow> ChunkPos \<Rightarrow> TicketOperationIngress \<Rightarrow> TicketOperationIngress option" where
  "release_lease l pos g =
     (case chunk_request_leases g (pos, l) of
        None \<Rightarrow> None
      | Some n \<Rightarrow>
          if n = 1 then
            (let g' = g\<lparr>chunk_request_leases := (chunk_request_leases g)((pos, l) := None)\<rparr>;
                 (c, s) = remove_ticket pos (ticket_new CHUNK_REQUEST l) (storage g')
             in Some (record_changes c (g'\<lparr>storage := s\<rparr>)))
          else Some (g\<lparr>chunk_request_leases := (chunk_request_leases g)((pos, l) \<mapsto> n - 1)\<rparr>))"

definition release_chunk_request_leases :: "ChunkPos list \<Rightarrow> ChunkTicketLevel \<Rightarrow> TicketOperationIngress \<Rightarrow>
    (ChunkTicketReceipt option \<times> TicketOperationIngress) option" where
  "release_chunk_request_leases ps l g =
     (if ps = [] then Some (None, g)
      else
        (case for_each (release_lease l) ps g of
           None \<Rightarrow> None
         | Some g' \<Rightarrow> map_option (\<lambda>(r, g). (Some r, g)) (allocate_receipt g')))"

definition take_sorted_positions :: "ChunkPos list \<Rightarrow> ChunkPos list" where
  "take_sorted_positions ps = sort_key pos_key ps"

definition take_source_projections :: "nat \<Rightarrow> nat \<Rightarrow> TicketOperationIngress \<Rightarrow>
    (SourceProjectionBatch \<times> TicketOperationIngress) option" where
  "take_source_projections vd sd g =
     (case set_view_distance vd (player_tickets g, storage g) of
        None \<Rightarrow> None
      | Some st1 \<Rightarrow>
          (let g1 = store_player st1 g in
           case set_simulation_distance sd (player_tickets g1, storage g1) of
             None \<Rightarrow> None
           | Some st2 \<Rightarrow>
               (let g2 = store_player st2 g1 in
                Some (\<lparr>projection_receipt = latest_receipt g2,
                       load_updates = map (load_source_update (storage g2)) (take_sorted_positions (dirty_load_positions g2)),
                       simulation_updates =
                         map (simulation_source_update (storage g2)) (take_sorted_positions (dirty_simulation_positions g2))\<rparr>,
                      g2\<lparr>dirty_load_positions := [], dirty_simulation_positions := []\<rparr>))))"

section \<open>The coordinator\<close>

record ChunkSchedulingCoordinator =
  ticket_ingress :: TicketOperationIngress
  load_tracker :: ChunkTracker
  simulation_tracker :: ChunkTracker
  committed_receipt :: u64

definition LOAD_MAX :: nat where
  "LOAD_MAX = MAX_LEVEL_RAW"

definition SIMULATION_MAX :: nat where
  "SIMULATION_MAX = BLOCK_TICKING_CHUNK"

definition seeded_tracker :: "nat \<Rightarrow> SourceLevelUpdate list \<Rightarrow> ChunkTracker option" where
  "seeded_tracker ml us = (case tracker_new ml of None \<Rightarrow> None | Some t \<Rightarrow> apply_source_updates ml us t)"

definition coordinator_new :: "ChunkTicketStorage \<Rightarrow> nat \<Rightarrow> nat \<Rightarrow> ChunkSchedulingCoordinator option" where
  "coordinator_new s vd sd =
     (case seeded_tracker LOAD_MAX (initial_load_sources s) of
        None \<Rightarrow> None
      | Some load \<Rightarrow>
          (case seeded_tracker SIMULATION_MAX (initial_simulation_sources s) of
             None \<Rightarrow> None
           | Some sim \<Rightarrow>
               Some \<lparr>ticket_ingress = ingress_new s vd sd, load_tracker = load, simulation_tracker = sim,
                     committed_receipt = receipt_INITIAL\<rparr>))"

text \<open>The operations that only lock the ingress.\<close>

definition on_ingress :: "(TicketOperationIngress \<Rightarrow> ('r \<times> TicketOperationIngress) option) \<Rightarrow> ChunkSchedulingCoordinator \<Rightarrow>
    ('r \<times> ChunkSchedulingCoordinator) option" where
  "on_ingress f c = map_option (\<lambda>(r, g). (r, c\<lparr>ticket_ingress := g\<rparr>)) (f (ticket_ingress c))"

definition queue_player_ticket_operation :: "PlayerTicketOperation \<Rightarrow> ChunkSchedulingCoordinator \<Rightarrow>
    (ChunkTicketReceipt \<times> ChunkSchedulingCoordinator) option" where
  "queue_player_ticket_operation op' c = on_ingress (push_player op') c"

definition queue_player_ticket_operations :: "PlayerTicketOperation list \<Rightarrow> ChunkSchedulingCoordinator \<Rightarrow>
    (ChunkTicketReceipt option \<times> ChunkSchedulingCoordinator) option" where
  "queue_player_ticket_operations ops c = on_ingress (push_player_batch ops) c"

definition coordinator_acquire :: "ChunkPos list \<Rightarrow> ChunkTicketLevel \<Rightarrow> ChunkSchedulingCoordinator \<Rightarrow>
    (ChunkTicketReceipt option \<times> ChunkSchedulingCoordinator) option" where
  "coordinator_acquire ps l c = on_ingress (acquire_chunk_request_leases ps l) c"

definition coordinator_release :: "ChunkPos list \<Rightarrow> ChunkTicketLevel \<Rightarrow> ChunkSchedulingCoordinator \<Rightarrow>
    (ChunkTicketReceipt option \<times> ChunkSchedulingCoordinator) option" where
  "coordinator_release ps l c = on_ingress (release_chunk_request_leases ps l) c"

text \<open>A storage mutation under the ingress lock, with its changes recorded.\<close>

definition mutate_storage :: "(ChunkTicketStorage \<Rightarrow> (SourceProjectionChanges \<times> ChunkTicketStorage) option) \<Rightarrow>
    TicketOperationIngress \<Rightarrow> (unit \<times> TicketOperationIngress) option" where
  "mutate_storage f g = map_option (\<lambda>(ch, s). ((), record_changes ch (g\<lparr>storage := s\<rparr>))) (f (storage g))"

definition coordinator_portal_ticket :: "ChunkPos \<Rightarrow> ChunkSchedulingCoordinator \<Rightarrow> (unit \<times> ChunkSchedulingCoordinator) option" where
  "coordinator_portal_ticket pos c = on_ingress (mutate_storage (add_or_refresh_portal_ticket pos)) c"

definition coordinator_ender_pearl_ticket :: "ChunkPos \<Rightarrow> ChunkSchedulingCoordinator \<Rightarrow> (unit \<times> ChunkSchedulingCoordinator) option" where
  "coordinator_ender_pearl_ticket pos c = on_ingress (mutate_storage (add_or_refresh_ender_pearl_ticket pos)) c"

definition coordinator_expirations :: "ChunkSchedulingCoordinator \<Rightarrow> TimedTicketExpiration list" where
  "coordinator_expirations c = timed_ticket_expirations (storage (ticket_ingress c))"

definition coordinator_tick_timed_tickets :: "TimedTicketExpiration list \<Rightarrow> ChunkSchedulingCoordinator \<Rightarrow>
    (unit \<times> ChunkSchedulingCoordinator) option" where
  "coordinator_tick_timed_tickets es c = on_ingress (mutate_storage (\<lambda>s. Some (tick_timed_tickets es s))) c"

definition persistent_chunk_tickets :: "ChunkSchedulingCoordinator \<Rightarrow> PersistentChunkTicket list" where
  "persistent_chunk_tickets c = storage_to_persistent (storage (ticket_ingress c))"

text \<open>A pass in its two critical sections: the snapshot under the ingress lock, and the propagation
  after the ingress lock is released (the tracker lock is held throughout).\<close>

definition coordinator_snapshot :: "nat \<Rightarrow> nat \<Rightarrow> ChunkSchedulingCoordinator \<Rightarrow>
    (SourceProjectionBatch \<times> ChunkSchedulingCoordinator) option" where
  "coordinator_snapshot vd sd c = on_ingress (take_source_projections vd sd) c"

definition run_tracker :: "nat \<Rightarrow> SourceLevelUpdate list \<Rightarrow> ChunkTracker \<Rightarrow> (ChunkLevelChange list \<times> ChunkTracker) option" where
  "run_tracker ml us t =
     (case apply_source_updates ml us t of
        None \<Rightarrow> None
      | Some t1 \<Rightarrow> map_option take_changes (run_all_updates ml t1))"

definition coordinator_propagate :: "SourceProjectionBatch \<Rightarrow> ChunkSchedulingCoordinator \<Rightarrow>
    (ChunkSchedulingUpdateBatch \<times> ChunkSchedulingCoordinator) option" where
  "coordinator_propagate b c =
     (case run_tracker SIMULATION_MAX (simulation_updates b) (simulation_tracker c) of
        None \<Rightarrow> None
      | Some (sim_ch, sim) \<Rightarrow>
          (case run_tracker LOAD_MAX (load_updates b) (load_tracker c) of
             None \<Rightarrow> None
           | Some (load_ch, load) \<Rightarrow>
               Some (\<lparr>through_receipt = projection_receipt b, load_changes = load_ch, simulation_changes = sim_ch\<rparr>,
                     c\<lparr>simulation_tracker := sim, load_tracker := load\<rparr>)))"

definition coordinator_run_all_updates :: "nat \<Rightarrow> nat \<Rightarrow> ChunkSchedulingCoordinator \<Rightarrow>
    (ChunkSchedulingUpdateBatch \<times> ChunkSchedulingCoordinator) option" where
  "coordinator_run_all_updates vd sd c =
     (case coordinator_snapshot vd sd c of None \<Rightarrow> None | Some (b, c') \<Rightarrow> coordinator_propagate b c')"

definition coordinator_simulation_level :: "ChunkPos \<Rightarrow> ChunkSchedulingCoordinator \<Rightarrow> ChunkTicketLevel option" where
  "coordinator_simulation_level pos c = get_level (simulation_tracker c) pos"

definition recycle_update_batch :: "ChunkSchedulingUpdateBatch \<Rightarrow> ChunkSchedulingCoordinator \<Rightarrow> ChunkSchedulingCoordinator" where
  "recycle_update_batch b c =
     c\<lparr>load_tracker := recycle_changes (load_changes b) (load_tracker c),
       simulation_tracker := recycle_changes (simulation_changes b) (simulation_tracker c)\<rparr>"

definition publish_committed :: "ChunkTicketReceipt \<Rightarrow> ChunkSchedulingCoordinator \<Rightarrow> ChunkSchedulingCoordinator" where
  "publish_committed r c = c\<lparr>committed_receipt := max (committed_receipt c) r\<rparr>"

definition is_receipt_committed :: "ChunkTicketReceipt \<Rightarrow> ChunkSchedulingCoordinator \<Rightarrow> bool" where
  "is_receipt_committed r c \<longleftrightarrow> r \<le> committed_receipt c"

end
