(* ===== verification/Chunk_Ingress.thy ===== *)
theory Chunk_Ingress
  imports Chunk_Scheduler
begin

text \<open>
  The invariant of the ticket ingress. Every operation keeps the player tickets and the request
  leases in step with the storage, and outside the recorded dirty positions the source levels the
  trackers hold stay those of the storage (\<open>ing_keep\<close>); a snapshot hands over exactly the dirty
  ones (\<open>take_source_projections_ok\<close>).
\<close>

section \<open>Ingress invariants\<close>

definition lease_count :: "('k \<rightharpoonup> nat) \<Rightarrow> 'k \<Rightarrow> nat" where
  "lease_count m k = (case m k of None \<Rightarrow> 0 | Some n \<Rightarrow> n)"

definition lease_inv :: "TicketOperationIngress \<Rightarrow> bool" where
  "lease_inv g \<longleftrightarrow>
     request_slots.counted (lease_count (chunk_request_leases g)) (storage g) \<and>
     (\<forall>k. chunk_request_leases g k \<noteq> Some 0)"

definition ing_inv :: "TicketOperationIngress \<Rightarrow> bool" where
  "ing_inv g \<longleftrightarrow> player_inv (player_tickets g) (storage g) \<and> lease_inv g"

text \<open>Outside the dirty positions the given sources are the levels in the storage.\<close>

definition synced :: "TicketOperationIngress \<Rightarrow> (ChunkPos \<rightharpoonup> nat) \<Rightarrow> (ChunkPos \<rightharpoonup> nat) \<Rightarrow> bool" where
  "synced g a b \<longleftrightarrow>
     (\<forall>p. p \<notin> set (dirty_load_positions g) \<longrightarrow> a p = load_source_level p (storage g)) \<and>
     (\<forall>p. p \<notin> set (dirty_simulation_positions g) \<longrightarrow> b p = simulation_source_level p (storage g))"

definition ing_keep :: "TicketOperationIngress \<Rightarrow> TicketOperationIngress \<Rightarrow> bool" where
  "ing_keep g g' \<longleftrightarrow> ing_inv g' \<and> (\<forall>a b. synced g a b \<longrightarrow> synced g' a b) \<and> latest_receipt g \<le> latest_receipt g'"

lemma ing_keep_refl: "ing_inv g \<Longrightarrow> ing_keep g g"
  by (simp add: ing_keep_def)

lemma ing_keep_trans: "ing_keep g g1 \<Longrightarrow> ing_keep g1 g2 \<Longrightarrow> ing_keep g g2"
  by (auto simp: ing_keep_def)

lemma player_inv_wf: "player_inv tr s \<Longrightarrow> storage_wf s"
  using cov_inv_wf unfolding player_inv_def by blast

lemma ing_wf: "ing_inv g \<Longrightarrow> storage_wf (storage g)"
  unfolding ing_inv_def using player_inv_wf by blast

lemma set_fold_insert: "set (fold List.insert xs ys) = set xs \<union> set ys"
  by (induction xs arbitrary: ys) auto

lemma record_changes_simps [simp]:
  "storage (record_changes c g) = storage g" "player_tickets (record_changes c g) = player_tickets g"
  "chunk_request_leases (record_changes c g) = chunk_request_leases g" "latest_receipt (record_changes c g) = latest_receipt g"
  "set (dirty_load_positions (record_changes c g)) = set (load_positions c) \<union> set (dirty_load_positions g)"
  "set (dirty_simulation_positions (record_changes c g)) = set (simulation_positions c) \<union> set (dirty_simulation_positions g)"
  by (simp_all add: record_changes_def set_fold_insert)

lemma synced_record:
  assumes "synced g a b" "changes_cover c (storage g) (storage g')"
    "dirty_load_positions g' = dirty_load_positions g" "dirty_simulation_positions g' = dirty_simulation_positions g"
  shows "synced (record_changes c g') a b"
  using assms by (simp add: synced_def changes_cover_def)

lemma for_each_keep:
  assumes "\<And>x g g'. x \<in> set xs \<Longrightarrow> ing_inv g \<Longrightarrow> f x g = Some g' \<Longrightarrow> ing_keep g g'"
    "ing_inv g" "for_each f xs g = Some g'"
  shows "ing_keep g g'"
  using assms
proof (induction xs arbitrary: g)
  case Nil
  then show ?case by (simp add: ing_keep_refl)
next
  case (Cons x xs)
  then obtain g1 where g1: "f x g = Some g1" "for_each f xs g1 = Some g'" by (auto split: option.splits)
  have k: "ing_keep g g1" by (rule Cons.prems(1) [of x]) (use Cons.prems(2) g1(1) in simp_all)
  then have "ing_inv g1" by (simp add: ing_keep_def)
  moreover have "ing_keep h h'" if "y \<in> set xs" "ing_inv h" "f y h = Some h'" for y h h'
    by (rule Cons.prems(1) [of y]) (use that in simp_all)
  ultimately have "ing_keep g1 g'" using Cons.IH [of g1] g1(2) by blast
  with k show ?case by (rule ing_keep_trans)
qed

section \<open>Player operations\<close>

lemma request_slots_cong:
  assumes "request_slots.counted n s" "storage_wf s'" "\<And>p l. entry_at s' (p, CHUNK_REQUEST, l) = entry_at s (p, CHUNK_REQUEST, l)"
  shows "request_slots.counted n s'"
  using assms by (simp add: request_slots.counted_def slot_has_def)

lemma player_frame_cover: "player_frame no_changes s ch s' \<Longrightarrow> changes_cover ch s s'"
  by (simp add: player_frame_def)

lemma store_player_keep:
  assumes inv: "ing_inv g" and st: "player_step no_changes (storage g) pp vd sd (Some st)"
  shows "ing_keep g (store_player st g) \<and> player_positions (player_tickets (store_player st g)) = pp \<and>
    view_distance (player_tickets (store_player st g)) = vd \<and> simulation_distance (player_tickets (store_player st g)) = sd"
proof -
  from st obtain ch tr s where st': "st = (ch, tr, s)" "player_inv tr s" "player_frame no_changes (storage g) ch s"
      "player_positions tr = pp" "view_distance tr = vd" "simulation_distance tr = sd"
    unfolding player_step_def by auto
  let ?g = "g\<lparr>player_tickets := tr, storage := s\<rparr>"
  have wf: "storage_wf s" using st'(2) by (rule player_inv_wf)
  have e: "entry_at s (p, CHUNK_REQUEST, l) = entry_at (storage g) (p, CHUNK_REQUEST, l)" for p l
    using st'(3) player_types_ne(3,4) unfolding player_frame_def by simp
  have li: "request_slots.counted (lease_count (chunk_request_leases g)) (storage g)"
    using inv by (simp add: ing_inv_def lease_inv_def)
  have "lease_inv ?g" using inv request_slots_cong [OF li wf e] by (simp add: ing_inv_def lease_inv_def)
  then have "ing_inv (record_changes ch ?g)" using st'(2) by (simp add: ing_inv_def lease_inv_def)
  moreover have "synced (record_changes ch ?g) a b" if "synced g a b" for a b
    by (rule synced_record [OF that]) (simp_all add: player_frame_cover [OF st'(3)])
  ultimately show ?thesis using st' by (simp add: ing_keep_def store_player_def)
qed

lemma apply_player_operation_ok:
  assumes "ing_inv g"
  shows "\<exists>st pp. apply_player_operation op' g = Some st \<and>
    player_step no_changes (storage g) pp (view_distance (player_tickets g)) (simulation_distance (player_tickets g)) (Some st) \<and>
    pp = (case op' of AddPlayer pos u \<Rightarrow> (player_positions (player_tickets g))(u \<mapsto> pos)
      | RemovePlayer pos u \<Rightarrow> (if player_positions (player_tickets g) u = Some pos
          then (player_positions (player_tickets g))(u := None) else player_positions (player_tickets g)))"
proof -
  have inv: "player_inv (player_tickets g) (storage g)" using assms by (simp add: ing_inv_def)
  show ?thesis
  proof (cases op')
    case (AddPlayer pos u)
    with add_player_ok [OF inv, of u pos] show ?thesis unfolding player_step_def by auto
  next
    case (RemovePlayer pos u)
    with remove_player_ok [OF inv, of u pos] show ?thesis unfolding player_step_def by auto
  qed
qed

lemma apply_and_record_keep:
  assumes "ing_inv g" shows "\<exists>g'. apply_and_record op' g = Some g' \<and> ing_keep g g'"
  using apply_player_operation_ok [OF assms, of op'] store_player_keep [OF assms] unfolding apply_and_record_def by fastforce

lemma allocate_receipt_keep:
  assumes "ing_inv g" "allocate_receipt g = Some (r, g')"
  shows "ing_keep g g' \<and> latest_receipt g < r \<and> r = latest_receipt g' \<and> storage g' = storage g \<and> player_tickets g' = player_tickets g"
proof -
  have g: "latest_receipt g \<noteq> - 1" "r = latest_receipt g + 1" "g' = g\<lparr>latest_receipt := r\<rparr>"
    using assms(2) by (auto simp: allocate_receipt_def receipt_next_def split: if_splits)
  have "latest_receipt g < r" using less_succ [OF g(1)] g(2) by simp
  moreover have "ing_inv g'" using assms(1) g(3) by (simp add: ing_inv_def lease_inv_def)
  ultimately show ?thesis using g(3) by (simp add: ing_keep_def synced_def)
qed

section \<open>Leases\<close>

lemma lease_count_upd [simp]:
  "lease_count (m(k \<mapsto> n)) = (lease_count m)(k := n)" "lease_count (m(k := None)) = (lease_count m)(k := 0)"
  by (auto simp: lease_count_def)

lemma player_inv_cong:
  assumes "player_inv tr s" "storage_wf s'"
    "\<And>k. fst (snd k) = PLAYER_LOADING \<or> fst (snd k) = PLAYER_SIMULATION \<Longrightarrow> entry_at s' k = entry_at s k"
  shows "player_inv tr s'"
proof -
  have e: "entry_at s' (p, PLAYER_LOADING, l) = entry_at s (p, PLAYER_LOADING, l)"
      "entry_at s' (p, PLAYER_SIMULATION, l) = entry_at s (p, PLAYER_SIMULATION, l)" for p l using assms(3) by simp_all
  have "cov_inv (cover (\<lambda>_. view_distance tr) (centers tr)) tr s'"
    by (rule cov_inv_cong [OF _ assms(2)]) (use assms(1) in \<open>simp_all add: player_inv_def e\<close>)
  then show ?thesis using assms(1) by (simp add: player_inv_def sim_ok_def e)
qed

lemma acquire_lease_keep:
  assumes inv: "ing_inv g" and l: "l \<le> MAX_LEVEL_RAW" and g': "acquire_lease l pos g = Some g'"
  shows "ing_keep g g' \<and> lease_count (chunk_request_leases g') =
    (lease_count (chunk_request_leases g))((pos, l) := lease_count (chunk_request_leases g) (pos, l) + 1)"
proof -
  let ?n = "lease_count (chunk_request_leases g) (pos, l)"
  let ?g = "g\<lparr>chunk_request_leases := (chunk_request_leases g)((pos, l) \<mapsto> ?n + 1)\<rparr>"
  have pi: "player_inv (player_tickets g) (storage g)" using inv by (simp add: ing_inv_def)
  have li: "request_slots.counted (lease_count (chunk_request_leases g)) (storage g)" "\<forall>k. chunk_request_leases g k \<noteq> Some 0"
    using inv by (simp_all add: ing_inv_def lease_inv_def)
  show ?thesis
  proof (cases "?n = 0")
    case False
    then have "g' = ?g" using g' by (auto simp: acquire_lease_def lease_count_def Let_def split: if_splits)
    moreover have "lease_inv ?g" using request_slots.counted_more [OF li(1), of "(pos, l)"] False li(2) by (simp add: lease_inv_def)
    ultimately show ?thesis using inv by (simp add: ing_keep_def ing_inv_def synced_def)
  next
    case True
    then obtain c s' where a: "add_ticket pos (ticket_new CHUNK_REQUEST l) (storage g) = Some (c, s')"
        "g' = record_changes c (?g\<lparr>storage := s'\<rparr>)"
      using g' by (auto simp: acquire_lease_def lease_count_def Let_def split: if_splits)
    from add_untimed [OF ing_wf [OF inv], of "ticket_new CHUNK_REQUEST l" pos, unfolded ticket_new_simps, OF l untimed_types(3)]
    obtain c2 s2 where u: "add_ticket pos (ticket_new CHUNK_REQUEST l) (storage g) = Some (c2, s2)" "storage_wf s2"
      "changes_cover c2 (storage g) s2" "\<And>k. k \<noteq> (pos, CHUNK_REQUEST, l) \<Longrightarrow> entry_at s2 k = entry_at (storage g) k" by blast
    have eq: "c2 = c" "s2 = s'" using u(1) a(1) by simp_all
    note s' = u(2-4) [unfolded eq]
    from request_slots.counted_acquire [OF li(1), of "(pos, l)"] True l a(1)
    have "request_slots.counted ((lease_count (chunk_request_leases g))((pos, l) := 1)) s'" by (simp add: slot_put_def)
    then have "lease_inv g'" using a(2) True li(2) by (simp add: lease_inv_def)
    moreover have "player_inv (player_tickets g) s'"
      by (rule player_inv_cong [OF pi s'(1)], rule s'(3)) (use player_types_ne in auto)
    moreover have "synced g' x y" if "synced g x y" for x y
      unfolding a(2) by (rule synced_record [OF that]) (simp_all add: s'(2))
    ultimately show ?thesis using a(2) by (simp add: ing_keep_def ing_inv_def)
  qed
qed

lemma release_lease_keep:
  assumes inv: "ing_inv g" and g': "release_lease l pos g = Some g'"
  shows "ing_keep g g' \<and> lease_count (chunk_request_leases g) (pos, l) \<noteq> 0 \<and> lease_count (chunk_request_leases g') =
    (lease_count (chunk_request_leases g))((pos, l) := lease_count (chunk_request_leases g) (pos, l) - 1)"
proof -
  have pi: "player_inv (player_tickets g) (storage g)" using inv by (simp add: ing_inv_def)
  have li: "request_slots.counted (lease_count (chunk_request_leases g)) (storage g)" "\<And>k. chunk_request_leases g k \<noteq> Some 0"
    using inv unfolding ing_inv_def lease_inv_def by blast+
  from g' obtain n where n: "chunk_request_leases g (pos, l) = Some n" by (auto simp: release_lease_def split: option.splits)
  then have n0: "n \<noteq> 0" "lease_count (chunk_request_leases g) (pos, l) = n" using li(2) [of "(pos, l)"] by (auto simp: lease_count_def)
  show ?thesis
  proof (cases "n = 1")
    case False
    then have e: "g' = g\<lparr>chunk_request_leases := (chunk_request_leases g)((pos, l) \<mapsto> n - 1)\<rparr>" using g' n by (simp add: release_lease_def)
    have "lease_inv g'" using request_slots.counted_less [OF li(1), of "(pos, l)"] False n0 li(2) by (simp add: e lease_inv_def)
    then show ?thesis using inv n0 by (simp add: e ing_keep_def ing_inv_def synced_def)
  next
    case True
    let ?g = "g\<lparr>chunk_request_leases := (chunk_request_leases g)((pos, l) := None)\<rparr>"
    from remove_any [OF ing_wf [OF inv], of pos "ticket_new CHUNK_REQUEST l", unfolded ticket_new_simps] obtain c s' where
      r: "remove_ticket pos (ticket_new CHUNK_REQUEST l) (storage g) = (c, s')" "storage_wf s'" "changes_cover c (storage g) s'"
        "\<And>k. entry_at s' k = (if k = (pos, CHUNK_REQUEST, l) then None else entry_at (storage g) k)" by blast
    have e: "g' = record_changes c (?g\<lparr>storage := s'\<rparr>)" using g' n True r(1) by (simp add: release_lease_def)
    have "request_slots.counted ((lease_count (chunk_request_leases g))((pos, l) := 0)) s'"
      using request_slots.counted_release [OF li(1), of "(pos, l)"] True n0 r(1) by (simp add: slot_drop_def)
    then have "lease_inv g'" using e li(2) by (simp add: lease_inv_def)
    moreover have "player_inv (player_tickets g) s'"
      by (rule player_inv_cong [OF pi r(2)], unfold r(4)) (use player_types_ne in auto)
    moreover have "synced g' x y" if "synced g x y" for x y
      unfolding e by (rule synced_record [OF that]) (simp_all add: r(3))
    ultimately show ?thesis using e True n0 by (simp add: ing_keep_def ing_inv_def)
  qed
qed

section \<open>Other tickets\<close>

lemma mutate_storage_keep:
  assumes inv: "ing_inv g" and m: "mutate_storage f g = Some (x, g')" and f: "f (storage g) = Some (c, s')"
    and s': "storage_wf s'" "changes_cover c (storage g) s'"
      "\<And>k. fst (snd k) \<in> {PLAYER_LOADING, PLAYER_SIMULATION, CHUNK_REQUEST} \<Longrightarrow> entry_at s' k = entry_at (storage g) k"
  shows "ing_keep g g'"
proof -
  have pi: "player_inv (player_tickets g) (storage g)" using inv by (simp add: ing_inv_def)
  have g': "g' = record_changes c (g\<lparr>storage := s'\<rparr>)" using m f by (simp add: mutate_storage_def)
  have li: "request_slots.counted (lease_count (chunk_request_leases g)) (storage g)"
    using inv by (simp add: ing_inv_def lease_inv_def)
  have "request_slots.counted (lease_count (chunk_request_leases g)) s'"
    by (rule request_slots_cong [OF li s'(1)]) (simp add: s'(3))
  moreover have "player_inv (player_tickets g) s'"
    by (rule player_inv_cong [OF pi s'(1)], rule s'(3)) auto
  moreover have "synced g' a b" if "synced g a b" for a b
    unfolding g' by (rule synced_record [OF that]) (simp_all add: s'(2))
  ultimately show ?thesis using inv g' by (simp add: ing_keep_def ing_inv_def lease_inv_def)
qed

lemma entry_untimed:
  assumes "storage_wf s" "entry_at s k = Some (n, g)" "\<not> has_timeout (fst (snd k))" shows "g = None"
proof -
  have d: "distinct (map stored_id (tickets_at (fst k) s))" using assms(1) by (simp add: storage_wf_def list_ok_def)
  obtain st where st: "st \<in> set (tickets_at (fst k) s)" "stored_id st = snd k" "stored_value st = (n, g)"
    using assms(2) unfolding entry_at_def ticket_map_def by (auto simp: list_map_Some [OF d])
  have "stored_ok (timed_generation s) st" using assms(1) st(1) by (simp add: storage_wf_def list_ok_def)
  moreover have "ticket_type (stored_ticket st) = fst (snd k)" using st(2) by (metis fst_conv stored_id_def ticket_id_def)
  ultimately show ?thesis using st(3) assms(3) by (auto simp: stored_ok_def stored_value_def split: option.splits)
qed

lemma tick_untimed:
  assumes "storage_wf s" "\<not> has_timeout (fst (snd k))"
  shows "entry_at (snd (tick_timed_tickets es s)) k = entry_at s k"
  unfolding tick_timed_tickets_def
proof (rule tick_fold_entry_other [OF assms(1)])
  fix e show "aged_entry e (entry_at s k) = entry_at s k"
  proof (cases "entry_at s k")
    case (Some v)
    then obtain n g where v: "entry_at s k = Some (n, g)" by (cases v) auto
    then show ?thesis using entry_untimed [OF assms(1) v assms(2)] by (simp add: aged_entry_def)
  qed (simp add: aged_entry_def)
qed

lemma tick_keep:
  assumes "ing_inv g" "mutate_storage (\<lambda>s. Some (tick_timed_tickets es s)) g = Some (x, g')" shows "ing_keep g g'"
proof (rule mutate_storage_keep [OF assms])
  show "(\<lambda>s. Some (tick_timed_tickets es s)) (storage g) =
      Some (fst (tick_timed_tickets es (storage g)), snd (tick_timed_tickets es (storage g)))" by simp
  show "entry_at (snd (tick_timed_tickets es (storage g))) k = entry_at (storage g) k"
    if "fst (snd k) \<in> {PLAYER_LOADING, PLAYER_SIMULATION, CHUNK_REQUEST}" for k
    by (rule tick_untimed [OF ing_wf [OF assms(1)]]) (use that untimed_types in auto)
qed (use tick_timed_tickets_covers [OF ing_wf [OF assms(1)]] in simp_all)

lemma add_ticket_keep:
  assumes "ing_inv g" "mutate_storage (add_ticket pos t) g = Some (x, g')" "ticket_level t \<le> MAX_LEVEL_RAW"
    "ticket_type t \<notin> {PLAYER_LOADING, PLAYER_SIMULATION, CHUNK_REQUEST}"
  shows "ing_keep g g'"
proof -
  obtain c s' where a: "add_ticket pos t (storage g) = Some (c, s')" using assms(2) by (auto simp: mutate_storage_def)
  note wf = ing_wf [OF assms(1)]
  from add_ticket_ok [OF wf assms(3), of pos, unfolded a] obtain v where
    s': "storage_wf s'" "ticket_map s' = (ticket_map (storage g))(pos := (ticket_map (storage g) pos)(ticket_id t := v))" by auto
  have "entry_at s' k = entry_at (storage g) k" if "fst (snd k) \<in> {PLAYER_LOADING, PLAYER_SIMULATION, CHUNK_REQUEST}" for k
    using that assms(4) unfolding entry_at_def s'(2) by (auto simp: ticket_id_def)
  then show ?thesis using mutate_storage_keep [OF assms(1,2) a s'(1) add_ticket_covers [OF wf assms(3) a]] by blast
qed

lemma timed_tickets_ok:
  "ticket_level portal_ticket \<le> MAX_LEVEL_RAW" "ticket_type portal_ticket \<notin> {PLAYER_LOADING, PLAYER_SIMULATION, CHUNK_REQUEST}"
  "ticket_level ender_pearl_ticket \<le> MAX_LEVEL_RAW" "ticket_type ender_pearl_ticket \<notin> {PLAYER_LOADING, PLAYER_SIMULATION, CHUNK_REQUEST}"
  by (simp_all add: portal_ticket_def ender_pearl_ticket_def ticket_for_full_chunk_radius_def for_full_chunk_radius_def level_constants
      ticket_type_defs)

section \<open>Snapshots\<close>

lemma fold_set_source_updates:
  "fold set_source (map (load_source_update s) ps) a p = (if p \<in> set ps then load_source_level p s else a p)"
  "fold set_source (map (simulation_source_update s) ps) a p = (if p \<in> set ps then simulation_source_level p s else a p)"
  by (induction ps arbitrary: a)
    (simp_all add: set_source_def load_source_update_def simulation_source_update_def)

definition updates_ok :: "nat \<Rightarrow> SourceLevelUpdate list \<Rightarrow> bool" where
  "updates_ok ml us \<longleftrightarrow> (\<forall>u \<in> set us. \<forall>l. update_level u = Some l \<longrightarrow> l \<le> ml)"

lemma take_source_projections_ok:
  assumes inv: "ing_inv g" and vd: "vd \<le> 255"
  shows "\<exists>b g'. take_source_projections vd sd g = Some (b, g') \<and> ing_inv g' \<and>
    projection_receipt b = latest_receipt g \<and> latest_receipt g' = latest_receipt g \<and>
    updates_ok LOAD_MAX (load_updates b) \<and> updates_ok SIMULATION_MAX (simulation_updates b) \<and>
    (\<forall>x y. synced g x y \<longrightarrow> synced g' (fold set_source (load_updates b) x) (fold set_source (simulation_updates b) y)) \<and>
    dirty_load_positions g' = [] \<and> dirty_simulation_positions g' = [] \<and>
    player_positions (player_tickets g') = player_positions (player_tickets g) \<and>
    view_distance (player_tickets g') = vd \<and> simulation_distance (player_tickets g') = sd"
proof -
  have p: "player_inv (player_tickets g) (storage g)" using inv by (simp add: ing_inv_def)
  from set_view_distance_ok [OF p vd] obtain st1 where
    st1: "set_view_distance vd (player_tickets g, storage g) = Some st1"
      "player_step no_changes (storage g) (player_positions (player_tickets g)) vd (simulation_distance (player_tickets g)) (Some st1)"
    unfolding player_step_def by auto
  define g1 where "g1 = store_player st1 g"
  from store_player_keep [OF inv st1(2)] have g1: "ing_keep g g1" "player_positions (player_tickets g1) = player_positions (player_tickets g)"
      "view_distance (player_tickets g1) = vd" by (simp_all add: g1_def)
  have inv1: "ing_inv g1" using g1(1) by (simp add: ing_keep_def)
  then have p1: "player_inv (player_tickets g1) (storage g1)" by (simp add: ing_inv_def)
  from set_simulation_distance_ok [OF p1, of sd] obtain st2 where
    st2: "set_simulation_distance sd (player_tickets g1, storage g1) = Some st2"
      "player_step no_changes (storage g1) (player_positions (player_tickets g1)) vd sd (Some st2)"
    unfolding player_step_def g1(3) by auto
  define g2 where "g2 = store_player st2 g1"
  from store_player_keep [OF inv1 st2(2)] have g2: "ing_keep g1 g2" "player_positions (player_tickets g2) = player_positions (player_tickets g)"
      "view_distance (player_tickets g2) = vd" "simulation_distance (player_tickets g2) = sd" using g1(2) by (simp_all add: g2_def)
  have inv2: "ing_inv g2" using g2(1) by (simp add: ing_keep_def)
  have rec: "latest_receipt g2 = latest_receipt g" by (cases st1; cases st2) (simp add: g2_def g1_def store_player_def)
  define b where "b = \<lparr>projection_receipt = latest_receipt g2,
    load_updates = map (load_source_update (storage g2)) (take_sorted_positions (dirty_load_positions g2)),
    simulation_updates = map (simulation_source_update (storage g2)) (take_sorted_positions (dirty_simulation_positions g2))\<rparr>"
  define g' where "g' = g2\<lparr>dirty_load_positions := [], dirty_simulation_positions := []\<rparr>"
  have "take_source_projections vd sd g = Some (b, g')"
    using st1(1) st2(1) by (simp add: take_source_projections_def Let_def g1_def g2_def b_def g'_def)
  moreover have "ing_inv g'" using inv2 by (simp add: g'_def ing_inv_def lease_inv_def)
  moreover have "updates_ok LOAD_MAX (load_updates b)" "updates_ok SIMULATION_MAX (simulation_updates b)"
    using source_level_bounds [OF ing_wf [OF inv2]]
    by (auto simp: b_def updates_ok_def load_source_update_def simulation_source_update_def LOAD_MAX_def SIMULATION_MAX_def)
  moreover have "synced g' (fold set_source (load_updates b) x) (fold set_source (simulation_updates b) y)" if "synced g x y" for x y
  proof -
    have "synced g2 x y" using that g1(1) g2(1) by (simp add: ing_keep_def)
    then show ?thesis by (simp add: synced_def b_def g'_def fold_set_source_updates take_sorted_positions_def)
  qed
  ultimately show ?thesis using g2 rec by (intro exI [of _ b] exI [of _ g']) (simp add: b_def g'_def)
qed

end
