(* ===== verification/Chunk_Coordinator.thy ===== *)
theory Chunk_Coordinator
  imports Chunk_Ingress
begin

text \<open>
  The scheduling coordinator as a whole: its invariant, with a pass in flight or not
  (\<open>coord_inv\<close>), the states it can reach (\<open>coord_reachable\<close>), and what a pass achieves from any
  of them.
\<close>

section \<open>Trackers\<close>

lemma run_tracker_ok:
  assumes inv: "tracker_inv ml t" and us: "updates_ok ml us"
  shows "\<exists>cs t'. run_tracker ml us t = Some (cs, t') \<and> tracker_inv ml t' \<and>
    source_levels t' = fold set_source us (source_levels t) \<and> changes_ok (levels t) (levels t') cs \<and>
    (\<forall>p l. get_level t' p = Some l \<longleftrightarrow>
      l \<le> ml \<and> (\<exists>q s. source_levels t' q = Some s \<and> s + chebyshev p q = l) \<and>
      (\<forall>q s. source_levels t' q = Some s \<longrightarrow> l \<le> s + chebyshev p q))"
proof -
  obtain t1 where t1: "apply_source_updates ml us t = Some t1"
    using apply_source_updates_total [OF inv, of us] us unfolding updates_ok_def by blast
  from apply_source_updates_inv [OF inv t1] have i1: "tracker_inv ml t1" "source_levels t1 = fold set_source us (source_levels t)" by simp_all
  have l1: "levels t1 = levels t" using apply_source_updates_levels [OF inv t1] .
  from pass_distance [OF i1(1)] obtain t2 where
    t2: "run_all_updates ml t1 = Some t2" "tracker_inv ml t2" "source_levels t2 = source_levels t1" "changes_ok (levels t1) (levels t2) (changes t2)"
      "\<forall>p l. get_level t2 p = Some l \<longleftrightarrow>
        l \<le> ml \<and> (\<exists>q s. source_levels t1 q = Some s \<and> s + chebyshev p q = l) \<and>
        (\<forall>q s. source_levels t1 q = Some s \<longrightarrow> l \<le> s + chebyshev p q)" by blast
  let ?t = "t2\<lparr>changes := []\<rparr>"
  have "run_tracker ml us t = Some (changes t2, ?t)" using t1 t2(1) by (simp add: run_tracker_def take_changes_def)
  moreover have "get_level ?t = get_level t2" by (rule ext) (simp add: get_level_def)
  ultimately show ?thesis using t2 i1 l1 tracker_inv_changes [OF t2(2), of "[]"]
    by (intro exI [of _ "changes t2"] exI [of _ ?t]) simp
qed

section \<open>The coordinator invariant\<close>

text \<open>A pass in flight holds a batch that was taken but is not yet applied.\<close>

fun pending_load :: "SourceProjectionBatch option \<Rightarrow> SourceLevelUpdate list" where
  "pending_load None = []"
| "pending_load (Some b) = load_updates b"

fun pending_simulation :: "SourceProjectionBatch option \<Rightarrow> SourceLevelUpdate list" where
  "pending_simulation None = []"
| "pending_simulation (Some b) = simulation_updates b"

definition coord_inv :: "ChunkSchedulingCoordinator \<Rightarrow> SourceProjectionBatch option \<Rightarrow> bool" where
  "coord_inv c b \<longleftrightarrow>
     ing_inv (ticket_ingress c) \<and>
     tracker_inv LOAD_MAX (load_tracker c) \<and> tracker_inv SIMULATION_MAX (simulation_tracker c) \<and>
     updates_ok LOAD_MAX (pending_load b) \<and> updates_ok SIMULATION_MAX (pending_simulation b) \<and>
     synced (ticket_ingress c) (fold set_source (pending_load b) (source_levels (load_tracker c)))
       (fold set_source (pending_simulation b) (source_levels (simulation_tracker c))) \<and>
     (case b of None \<Rightarrow> True | Some b \<Rightarrow> projection_receipt b \<le> latest_receipt (ticket_ingress c)) \<and>
     committed_receipt c \<le> latest_receipt (ticket_ingress c)"

lemma coord_inv_ingress:
  assumes "coord_inv c b" "ing_keep (ticket_ingress c) g"
  shows "coord_inv (c\<lparr>ticket_ingress := g\<rparr>) b"
  using assms unfolding coord_inv_def ing_keep_def by (auto split: option.split)

lemma coord_inv_snapshot:
  assumes inv: "coord_inv c None" and vd: "vd \<le> 255"
  shows "\<exists>b c'. coordinator_snapshot vd sd c = Some (b, c') \<and> coord_inv c' (Some b) \<and>
    c' = c\<lparr>ticket_ingress := ticket_ingress c'\<rparr> \<and> projection_receipt b = latest_receipt (ticket_ingress c) \<and>
    dirty_load_positions (ticket_ingress c') = [] \<and> dirty_simulation_positions (ticket_ingress c') = [] \<and>
    player_positions (player_tickets (ticket_ingress c')) = player_positions (player_tickets (ticket_ingress c)) \<and>
    view_distance (player_tickets (ticket_ingress c')) = vd \<and> simulation_distance (player_tickets (ticket_ingress c')) = sd"
proof -
  have g: "ing_inv (ticket_ingress c)" using inv by (simp add: coord_inv_def)
  from take_source_projections_ok [OF g vd, of sd] obtain b g' where
    t: "take_source_projections vd sd (ticket_ingress c) = Some (b, g')" "ing_inv g'"
      "projection_receipt b = latest_receipt (ticket_ingress c)" "latest_receipt g' = latest_receipt (ticket_ingress c)"
      "updates_ok LOAD_MAX (load_updates b)" "updates_ok SIMULATION_MAX (simulation_updates b)"
      "\<And>x y. synced (ticket_ingress c) x y \<Longrightarrow> synced g' (fold set_source (load_updates b) x) (fold set_source (simulation_updates b) y)"
      "dirty_load_positions g' = []" "dirty_simulation_positions g' = []"
      "player_positions (player_tickets g') = player_positions (player_tickets (ticket_ingress c))"
      "view_distance (player_tickets g') = vd" "simulation_distance (player_tickets g') = sd" by blast
  let ?c = "c\<lparr>ticket_ingress := g'\<rparr>"
  have "coord_inv ?c (Some b)" using inv t by (simp add: coord_inv_def)
  moreover have "coordinator_snapshot vd sd c = Some (b, ?c)" using t(1) by (simp add: coordinator_snapshot_def on_ingress_def)
  ultimately show ?thesis using t by (intro exI [of _ b] exI [of _ ?c]) simp
qed

lemma coord_inv_propagate:
  assumes inv: "coord_inv c (Some b)"
  shows "\<exists>batch c'. coordinator_propagate b c = Some (batch, c') \<and> coord_inv c' None \<and>
    ticket_ingress c' = ticket_ingress c \<and> committed_receipt c' = committed_receipt c \<and> through_receipt batch = projection_receipt b \<and>
    changes_ok (get_level (load_tracker c)) (get_level (load_tracker c')) (load_changes batch) \<and>
    changes_ok (get_level (simulation_tracker c)) (get_level (simulation_tracker c')) (simulation_changes batch) \<and>
    source_levels (load_tracker c') = fold set_source (load_updates b) (source_levels (load_tracker c)) \<and>
    source_levels (simulation_tracker c') = fold set_source (simulation_updates b) (source_levels (simulation_tracker c)) \<and>
    (\<forall>p l. get_level (load_tracker c') p = Some l \<longleftrightarrow>
      l \<le> LOAD_MAX \<and> (\<exists>q s. source_levels (load_tracker c') q = Some s \<and> s + chebyshev p q = l) \<and>
      (\<forall>q s. source_levels (load_tracker c') q = Some s \<longrightarrow> l \<le> s + chebyshev p q)) \<and>
    (\<forall>p l. get_level (simulation_tracker c') p = Some l \<longleftrightarrow>
      l \<le> SIMULATION_MAX \<and> (\<exists>q s. source_levels (simulation_tracker c') q = Some s \<and> s + chebyshev p q = l) \<and>
      (\<forall>q s. source_levels (simulation_tracker c') q = Some s \<longrightarrow> l \<le> s + chebyshev p q))"
proof -
  have g: "get_level = levels" by (intro ext) (simp add: get_level_def)
  have i: "tracker_inv LOAD_MAX (load_tracker c)" "tracker_inv SIMULATION_MAX (simulation_tracker c)"
      "updates_ok LOAD_MAX (load_updates b)" "updates_ok SIMULATION_MAX (simulation_updates b)"
    using inv by (simp_all add: coord_inv_def)
  from run_tracker_ok [OF i(1,3)] obtain lch lt where
    l: "run_tracker LOAD_MAX (load_updates b) (load_tracker c) = Some (lch, lt)" "tracker_inv LOAD_MAX lt"
      "source_levels lt = fold set_source (load_updates b) (source_levels (load_tracker c))" "changes_ok (levels (load_tracker c)) (levels lt) lch"
      "\<forall>p l. get_level lt p = Some l \<longleftrightarrow>
        l \<le> LOAD_MAX \<and> (\<exists>q s. source_levels lt q = Some s \<and> s + chebyshev p q = l) \<and>
        (\<forall>q s. source_levels lt q = Some s \<longrightarrow> l \<le> s + chebyshev p q)" by blast
  from run_tracker_ok [OF i(2,4)] obtain sch st where
    s: "run_tracker SIMULATION_MAX (simulation_updates b) (simulation_tracker c) = Some (sch, st)" "tracker_inv SIMULATION_MAX st"
      "source_levels st = fold set_source (simulation_updates b) (source_levels (simulation_tracker c))"
      "changes_ok (levels (simulation_tracker c)) (levels st) sch"
      "\<forall>p l. get_level st p = Some l \<longleftrightarrow>
        l \<le> SIMULATION_MAX \<and> (\<exists>q s. source_levels st q = Some s \<and> s + chebyshev p q = l) \<and>
        (\<forall>q s. source_levels st q = Some s \<longrightarrow> l \<le> s + chebyshev p q)" by blast
  let ?c = "c\<lparr>simulation_tracker := st, load_tracker := lt\<rparr>"
  let ?batch = "\<lparr>through_receipt = projection_receipt b, load_changes = lch, simulation_changes = sch\<rparr>"
  have "coordinator_propagate b c = Some (?batch, ?c)" using l(1) s(1) by (simp add: coordinator_propagate_def)
  moreover have "coord_inv ?c None" using inv l(2,3) s(2,3) by (simp add: coord_inv_def updates_ok_def)
  ultimately show ?thesis using l(3-5) s(3-5) unfolding g by (intro exI [of _ ?batch] exI [of _ ?c]) simp
qed


section \<open>Start\<close>

definition owned_free :: "ChunkTicketStorage \<Rightarrow> bool" where
  "owned_free s \<longleftrightarrow> (\<forall>k. entry_at s k \<noteq> None \<longrightarrow> fst (snd k) \<notin> {PLAYER_LOADING, PLAYER_SIMULATION, CHUNK_REQUEST})"

lemma fold_set_source_at:
  "(\<And>u. u \<in> set us \<Longrightarrow> update_level u = f (update_pos u)) \<Longrightarrow>
    fold set_source us a p = (if p \<in> update_pos ` set us then f p else a p)"
  by (induction us arbitrary: a) (auto simp: set_source_def)

lemma initial_sources_fold:
  assumes upd: "\<And>p. f s p = \<lparr>update_pos = p, update_level = lvl p s\<rparr>" and none: "\<And>p. map_of (tickets s) p = None \<Longrightarrow> lvl p s = None"
  shows "fold set_source (initial_sources f s) Map.empty = (\<lambda>p. lvl p s)"
proof (rule ext)
  fix p
  have set: "set (initial_sources f s) = {u \<in> f s ` fst ` set (tickets s). update_level u \<noteq> None}"
    by (auto simp: initial_sources_def)
  have "fold set_source (initial_sources f s) Map.empty p = (if p \<in> update_pos ` set (initial_sources f s) then lvl p s else None)"
    by (rule fold_set_source_at) (auto simp: set upd)
  moreover have "lvl p s = None" if "p \<notin> update_pos ` set (initial_sources f s)"
  proof (rule ccontr)
    assume l: "lvl p s \<noteq> None"
    then have "map_of (tickets s) p \<noteq> None" using none [of p] by metis
    then have "p \<in> fst ` set (tickets s)" unfolding map_of_eq_None_iff by simp
    then have "f s p \<in> set (initial_sources f s)" using l by (auto simp: set upd)
    then have "update_pos (f s p) \<in> update_pos ` set (initial_sources f s)" by (rule imageI)
    then show False using that by (simp add: upd)
  qed
  ultimately show "fold set_source (initial_sources f s) Map.empty p = lvl p s" by auto
qed

lemma seeded_tracker_ok:
  assumes "ml \<le> MAX_LEVEL_RAW" "updates_ok ml us"
  shows "\<exists>t. seeded_tracker ml us = Some t \<and> tracker_inv ml t \<and> source_levels t = fold set_source us Map.empty"
proof -
  obtain t0 where t0: "tracker_new ml = Some t0" using assms(1) by (simp add: tracker_new_def)
  have inv: "tracker_inv ml t0" "source_levels t0 = Map.empty" using tracker_new_inv [OF t0] by simp_all
  obtain t where t: "apply_source_updates ml us t0 = Some t"
    using apply_source_updates_total [OF inv(1), of us] assms(2) unfolding updates_ok_def by blast
  then show ?thesis using apply_source_updates_inv [OF inv(1) t] t0 inv(2) by (simp add: seeded_tracker_def)
qed

lemma tracker_maxima: "LOAD_MAX \<le> MAX_LEVEL_RAW" "SIMULATION_MAX \<le> MAX_LEVEL_RAW"
  by (simp_all add: LOAD_MAX_def SIMULATION_MAX_def level_constants)

lemma initial_updates_ok:
  assumes "storage_wf s"
  shows "updates_ok LOAD_MAX (initial_load_sources s)" "updates_ok SIMULATION_MAX (initial_simulation_sources s)"
  using source_level_bounds [OF assms]
  by (auto simp: updates_ok_def initial_load_sources_def initial_simulation_sources_def initial_sources_def
      load_source_update_def simulation_source_update_def LOAD_MAX_def SIMULATION_MAX_def)

lemma coordinator_new_inv:
  assumes wf: "storage_wf s" and own: "owned_free s" and vd: "vd \<le> 255"
  shows "\<exists>c. coordinator_new s vd sd = Some c \<and> coord_inv c None \<and> storage (ticket_ingress c) = s"
proof -
  from seeded_tracker_ok [OF tracker_maxima(1) initial_updates_ok(1) [OF wf]] obtain l where
    l: "seeded_tracker LOAD_MAX (initial_load_sources s) = Some l" "tracker_inv LOAD_MAX l"
      "source_levels l = fold set_source (initial_load_sources s) Map.empty" by blast
  from seeded_tracker_ok [OF tracker_maxima(2) initial_updates_ok(2) [OF wf]] obtain m where
    m: "seeded_tracker SIMULATION_MAX (initial_simulation_sources s) = Some m" "tracker_inv SIMULATION_MAX m"
      "source_levels m = fold set_source (initial_simulation_sources s) Map.empty" by blast
  have ls: "source_levels l = (\<lambda>p. load_source_level p s)"
    unfolding l(3) initial_load_sources_def
    by (rule initial_sources_fold) (simp_all add: load_source_update_def load_source_level_def)
  have ms: "source_levels m = (\<lambda>p. simulation_source_level p s)"
    unfolding m(3) initial_simulation_sources_def
    by (rule initial_sources_fold) (simp_all add: simulation_source_update_def simulation_source_level_def)
  have none: "entry_at s k = None" if "fst (snd k) \<in> {PLAYER_LOADING, PLAYER_SIMULATION, CHUNK_REQUEST}" for k
    using own that unfolding owned_free_def by blast
  have "fst (snd k) \<noteq> PLAYER_LOADING \<and> fst (snd k) \<noteq> PLAYER_SIMULATION" if "entry_at s k \<noteq> None" for k
    using own that unfolding owned_free_def by blast
  then have pi: "player_inv (player_tracker_new vd sd) s" by (rule player_inv_new [OF wf vd])
  have "entry_at s (p, CHUNK_REQUEST, l) = None" for p l
    by (rule none) simp
  then have "lease_inv (ingress_new s vd sd)"
    using wf by (simp add: lease_inv_def ingress_new_def request_slots.counted_def slot_has_def lease_count_def)
  then have "ing_inv (ingress_new s vd sd)" using pi by (simp add: ing_inv_def ingress_new_def)
  then show ?thesis using l(1,2) m(1,2) ls ms
    by (simp add: coordinator_new_def coord_inv_def updates_ok_def synced_def ingress_new_def)
qed

section \<open>Reachable coordinators\<close>

text \<open>A world starts with the storage loaded from its saved tickets. It holds no player or request
  tickets (\<open>owned_free\<close>): their types do not persist, so the server never saves them; a file that
  names them is outside these states. The second argument is the pass in flight. Operations on the ingress run at any time; a pass
  takes its snapshot only when none is in flight, because it holds the tracker lock.\<close>

inductive coord_reachable :: "ChunkSchedulingCoordinator \<Rightarrow> SourceProjectionBatch option \<Rightarrow> bool" where
  coord_start: "storage_reachable reg s \<Longrightarrow> owned_free s \<Longrightarrow> vd \<le> 255 \<Longrightarrow> coordinator_new s vd sd = Some c \<Longrightarrow> coord_reachable c None"
| coord_player: "coord_reachable c b \<Longrightarrow> queue_player_ticket_operation op' c = Some (r, c') \<Longrightarrow> coord_reachable c' b"
| coord_players: "coord_reachable c b \<Longrightarrow> queue_player_ticket_operations ops c = Some (r', c') \<Longrightarrow> coord_reachable c' b"
| coord_acquire: "coord_reachable c b \<Longrightarrow> l \<le> MAX_LEVEL_RAW \<Longrightarrow> coordinator_acquire ps l c = Some (r', c') \<Longrightarrow> coord_reachable c' b"
| coord_release: "coord_reachable c b \<Longrightarrow> coordinator_release ps l c = Some (r', c') \<Longrightarrow> coord_reachable c' b"
| coord_portal: "coord_reachable c b \<Longrightarrow> coordinator_portal_ticket pos c = Some (x, c') \<Longrightarrow> coord_reachable c' b"
| coord_pearl: "coord_reachable c b \<Longrightarrow> coordinator_ender_pearl_ticket pos c = Some (x, c') \<Longrightarrow> coord_reachable c' b"
| coord_tick: "coord_reachable c b \<Longrightarrow> coordinator_tick_timed_tickets es c = Some (x, c') \<Longrightarrow> coord_reachable c' b"
| coord_snapshot: "coord_reachable c None \<Longrightarrow> vd \<le> 255 \<Longrightarrow> coordinator_snapshot vd sd c = Some (b', c') \<Longrightarrow> coord_reachable c' (Some b')"
| coord_propagate: "coord_reachable c (Some b') \<Longrightarrow> coordinator_propagate b' c = Some (batch, c') \<Longrightarrow> coord_reachable c' None"
| coord_recycle: "coord_reachable c b \<Longrightarrow> coord_reachable (recycle_update_batch batch c) b"
| coord_publish: "coord_reachable c b \<Longrightarrow> r \<le> latest_receipt (ticket_ingress c) \<Longrightarrow> coord_reachable (publish_committed r c) b"

lemma on_ingress_inv:
  assumes "coord_inv c b" "on_ingress f c = Some (r, c')"
    and "\<And>g'. ing_inv (ticket_ingress c) \<Longrightarrow> f (ticket_ingress c) = Some (r, g') \<Longrightarrow> ing_keep (ticket_ingress c) g'"
  shows "coord_inv c' b"
proof -
  obtain g' where g': "f (ticket_ingress c) = Some (r, g')" "c' = c\<lparr>ticket_ingress := g'\<rparr>" using assms(2) by (auto simp: on_ingress_def)
  have "ing_inv (ticket_ingress c)" using assms(1) by (simp add: coord_inv_def)
  from coord_inv_ingress [OF assms(1) assms(3) [OF this g'(1)]] show ?thesis by (simp add: g'(2))
qed

lemma push_player_keep:
  assumes "ing_inv g" "push_player op' g = Some (r, g')" shows "ing_keep g g'"
proof -
  obtain g1 where g1: "apply_and_record op' g = Some g1" "ing_keep g g1" using apply_and_record_keep [OF assms(1)] by blast
  then have "allocate_receipt g1 = Some (r, g')" "ing_inv g1" using assms(2) by (simp_all add: push_player_def ing_keep_def)
  then show ?thesis using allocate_receipt_keep ing_keep_trans [OF g1(2)] by blast
qed

lemma batched_keep:
  assumes inv: "ing_inv g" and res: "(if xs = [] then Some (None, g) else
      (case for_each f xs g of None \<Rightarrow> None | Some g' \<Rightarrow> map_option (\<lambda>(r, g). (Some r, g)) (allocate_receipt g'))) = Some (r', g')"
    and f: "\<And>x g g'. ing_inv g \<Longrightarrow> f x g = Some g' \<Longrightarrow> ing_keep g g'"
  shows "ing_keep g g'"
proof (cases "xs = []")
  case True
  then show ?thesis using res ing_keep_refl [OF inv] by simp
next
  case False
  then obtain g1 r where g1: "for_each f xs g = Some g1" "allocate_receipt g1 = Some (r, g')"
    using res by (auto split: option.splits)
  have "ing_keep g g1" by (rule for_each_keep [OF _ inv g1(1)]) (rule f)
  moreover from this have "ing_keep g1 g'" using allocate_receipt_keep [OF _ g1(2)] by (simp add: ing_keep_def)
  ultimately show ?thesis by (rule ing_keep_trans)
qed

lemma push_player_batch_keep: "ing_inv g \<Longrightarrow> push_player_batch ops g = Some (r', g') \<Longrightarrow> ing_keep g g'"
  unfolding push_player_batch_def
proof (rule batched_keep)
  show "ing_keep h h'" if "ing_inv h" "apply_and_record x h = Some h'" for x h h'
    using apply_and_record_keep [OF that(1), of x] that(2) by simp
qed

lemma acquire_keep:
  "l \<le> MAX_LEVEL_RAW \<Longrightarrow> ing_inv g \<Longrightarrow> acquire_chunk_request_leases ps l g = Some (r', g') \<Longrightarrow> ing_keep g g'"
  unfolding acquire_chunk_request_leases_def by (rule batched_keep) (use acquire_lease_keep in blast)+

lemma release_keep: "ing_inv g \<Longrightarrow> release_chunk_request_leases ps l g = Some (r', g') \<Longrightarrow> ing_keep g g'"
  unfolding release_chunk_request_leases_def by (rule batched_keep) (use release_lease_keep in blast)+

lemma recycle_inv: "coord_inv c b \<Longrightarrow> coord_inv (recycle_update_batch batch c) b"
  using tracker_inv_changes unfolding coord_inv_def recycle_update_batch_def recycle_changes_def by (cases b) simp_all

lemma coord_reachable_inv: "coord_reachable c b \<Longrightarrow> coord_inv c b"
proof (induction rule: coord_reachable.induct)
  case (coord_start reg s vd sd c)
  then show ?case using coordinator_new_inv [OF storage_reachable_wf [OF coord_start(1)] coord_start(2,3), of sd] by simp
next
  case (coord_player c b op' r c')
  from coord_player.IH coord_player.hyps(2) [unfolded queue_player_ticket_operation_def] show ?case by (rule on_ingress_inv) (rule push_player_keep)
next
  case (coord_players c b ops r' c')
  from coord_players.IH coord_players.hyps(2) [unfolded queue_player_ticket_operations_def] show ?case by (rule on_ingress_inv) (rule push_player_batch_keep)
next
  case (coord_acquire c b l ps r' c')
  from coord_acquire.IH coord_acquire.hyps(3) [unfolded coordinator_acquire_def] show ?case by (rule on_ingress_inv) (rule acquire_keep [OF coord_acquire.hyps(2)])
next
  case (coord_release c b ps l r' c')
  from coord_release.IH coord_release.hyps(2) [unfolded coordinator_release_def] show ?case by (rule on_ingress_inv) (rule release_keep)
next
  case (coord_portal c b pos x c')
  from coord_portal.IH coord_portal.hyps(2) [unfolded coordinator_portal_ticket_def add_or_refresh_portal_ticket_def [abs_def]] show ?case by (rule on_ingress_inv) (rule add_ticket_keep [OF _ _ timed_tickets_ok(1,2)])
next
  case (coord_pearl c b pos x c')
  from coord_pearl.IH coord_pearl.hyps(2) [unfolded coordinator_ender_pearl_ticket_def add_or_refresh_ender_pearl_ticket_def [abs_def]] show ?case by (rule on_ingress_inv) (rule add_ticket_keep [OF _ _ timed_tickets_ok(3,4)])
next
  case (coord_tick c b es x c')
  from coord_tick.IH coord_tick.hyps(2) [unfolded coordinator_tick_timed_tickets_def] show ?case by (rule on_ingress_inv) (rule tick_keep)
next
  case (coord_snapshot c vd sd b' c')
  then show ?case using coord_inv_snapshot [of c vd sd] by auto
next
  case (coord_propagate c b' batch c')
  then show ?case using coord_inv_propagate [of c b'] by auto
next
  case (coord_recycle c b batch)
  then show ?case by (intro recycle_inv)
next
  case (coord_publish c b r)
  then show ?case by (cases b) (simp_all add: coord_inv_def publish_committed_def)
qed


section \<open>A whole pass\<close>

text \<open>The level that the tickets of a domain give a chunk: the least ticket level plus distance, if
  it is within the tracker's maximum.\<close>

definition ticket_level_at :: "nat \<Rightarrow> (TicketId \<Rightarrow> bool) \<Rightarrow> ChunkTicketStorage \<Rightarrow> ChunkPos \<Rightarrow> nat \<Rightarrow> bool" where
  "ticket_level_at ml P s p l \<longleftrightarrow>
     l \<le> ml \<and> (\<exists>q i. entry_at s (q, i) \<noteq> None \<and> P i \<and> snd i + chebyshev p q = l) \<and>
     (\<forall>q i. entry_at s (q, i) \<noteq> None \<and> P i \<longrightarrow> l \<le> snd i + chebyshev p q)"

lemma domain_levels_mem: "l \<in> domain_levels P (ticket_map s q) \<longleftrightarrow> (\<exists>i. entry_at s (q, i) \<noteq> None \<and> P i \<and> snd i = l)"
  unfolding domain_levels_def entry_at_def dom_def fst_conv snd_conv by blast

lemma strongest_source:
  assumes lvl: "\<And>q l. lvl q = Some l \<longleftrightarrow> l \<in> domain_levels P (ticket_map s q) \<and> (\<forall>l' \<in> domain_levels P (ticket_map s q). l \<le> l')"
  shows "l \<le> ml \<and> (\<exists>q n. lvl q = Some n \<and> n + chebyshev p q = l) \<and> (\<forall>q n. lvl q = Some n \<longrightarrow> l \<le> n + chebyshev p q) \<longleftrightarrow>
    ticket_level_at ml P s p l"
proof -
  let ?D = "\<lambda>q. domain_levels P (ticket_map s q)"
  have least: "\<exists>m. lvl q = Some m \<and> m \<le> n" if "n \<in> ?D q" for q n
  proof -
    have "(LEAST k. k \<in> ?D q) \<in> ?D q" using that by (rule LeastI)
    moreover have "\<forall>l' \<in> ?D q. (LEAST k. k \<in> ?D q) \<le> l'" by (auto intro: Least_le)
    ultimately show ?thesis using lvl that by blast
  qed
  have mem: "n \<in> ?D q" if "lvl q = Some n" for q n using lvl that by blast
  have tl: "ticket_level_at ml P s p l \<longleftrightarrow>
      l \<le> ml \<and> (\<exists>q. \<exists>n \<in> ?D q. n + chebyshev p q = l) \<and> (\<forall>q. \<forall>n \<in> ?D q. l \<le> n + chebyshev p q)"
    unfolding ticket_level_at_def Bex_def Ball_def domain_levels_mem by blast
  have "(\<forall>q n. lvl q = Some n \<longrightarrow> l \<le> n + chebyshev p q) \<longleftrightarrow> (\<forall>q. \<forall>n \<in> ?D q. l \<le> n + chebyshev p q)" (is "?L \<longleftrightarrow> ?R")
    using least mem by (metis add_le_mono1 order_trans)
  moreover have "(\<exists>q n. lvl q = Some n \<and> n + chebyshev p q = l) \<longleftrightarrow> (\<exists>q. \<exists>n \<in> ?D q. n + chebyshev p q = l)" if ?R
  proof
    assume "\<exists>q. \<exists>n \<in> ?D q. n + chebyshev p q = l"
    then obtain q n where n: "n \<in> ?D q" "n + chebyshev p q = l" by blast
    obtain m where m: "lvl q = Some m" "m \<le> n" using least [OF n(1)] by blast
    have "l \<le> m + chebyshev p q" using that mem [OF m(1)] by blast
    then show "\<exists>q n. lvl q = Some n \<and> n + chebyshev p q = l" using m n(2) by (intro exI [of _ q] exI [of _ m]) simp
  qed (use mem in blast)
  ultimately show ?thesis unfolding tl by blast
qed

lemma coordinator_run_ok:
  assumes inv: "coord_inv c None" and vd: "vd \<le> 255"
  shows "\<exists>batch c'. coordinator_run_all_updates vd sd c = Some (batch, c') \<and> coord_inv c' None \<and>
    committed_receipt c' = committed_receipt c \<and> through_receipt batch = latest_receipt (ticket_ingress c) \<and>
    player_positions (player_tickets (ticket_ingress c')) = player_positions (player_tickets (ticket_ingress c)) \<and>
    view_distance (player_tickets (ticket_ingress c')) = vd \<and> simulation_distance (player_tickets (ticket_ingress c')) = sd \<and>
    changes_ok (get_level (load_tracker c)) (get_level (load_tracker c')) (load_changes batch) \<and>
    changes_ok (get_level (simulation_tracker c)) (get_level (simulation_tracker c')) (simulation_changes batch) \<and>
    (\<forall>p l. get_level (load_tracker c') p = Some l \<longleftrightarrow> ticket_level_at MAX_LEVEL_RAW loads (storage (ticket_ingress c')) p l) \<and>
    (\<forall>p l. coordinator_simulation_level p c' = Some l \<longleftrightarrow>
      ticket_level_at BLOCK_TICKING_CHUNK simulates (storage (ticket_ingress c')) p l)"
proof -
  from coord_inv_snapshot [OF inv vd, of sd] obtain b c1 where
    s: "coordinator_snapshot vd sd c = Some (b, c1)" "coord_inv c1 (Some b)" "c1 = c\<lparr>ticket_ingress := ticket_ingress c1\<rparr>"
      "projection_receipt b = latest_receipt (ticket_ingress c)" "dirty_load_positions (ticket_ingress c1) = []"
      "dirty_simulation_positions (ticket_ingress c1) = []"
      "player_positions (player_tickets (ticket_ingress c1)) = player_positions (player_tickets (ticket_ingress c))"
      "view_distance (player_tickets (ticket_ingress c1)) = vd" "simulation_distance (player_tickets (ticket_ingress c1)) = sd" by blast
  have tr: "load_tracker c1 = load_tracker c" "simulation_tracker c1 = simulation_tracker c" "committed_receipt c1 = committed_receipt c"
    using arg_cong [OF s(3), of load_tracker] arg_cong [OF s(3), of simulation_tracker] arg_cong [OF s(3), of committed_receipt] by simp_all
  from coord_inv_propagate [OF s(2)] obtain batch c' where
    p: "coordinator_propagate b c1 = Some (batch, c')" "coord_inv c' None" "ticket_ingress c' = ticket_ingress c1"
      "committed_receipt c' = committed_receipt c1" "through_receipt batch = projection_receipt b"
      "changes_ok (get_level (load_tracker c1)) (get_level (load_tracker c')) (load_changes batch)"
      "changes_ok (get_level (simulation_tracker c1)) (get_level (simulation_tracker c')) (simulation_changes batch)"
      "\<And>p l. get_level (load_tracker c') p = Some l \<longleftrightarrow>
        l \<le> LOAD_MAX \<and> (\<exists>q s. source_levels (load_tracker c') q = Some s \<and> s + chebyshev p q = l) \<and>
        (\<forall>q s. source_levels (load_tracker c') q = Some s \<longrightarrow> l \<le> s + chebyshev p q)"
      "\<And>p l. get_level (simulation_tracker c') p = Some l \<longleftrightarrow>
        l \<le> SIMULATION_MAX \<and> (\<exists>q s. source_levels (simulation_tracker c') q = Some s \<and> s + chebyshev p q = l) \<and>
        (\<forall>q s. source_levels (simulation_tracker c') q = Some s \<longrightarrow> l \<le> s + chebyshev p q)" by blast
  have "synced (ticket_ingress c') (source_levels (load_tracker c')) (source_levels (simulation_tracker c'))"
    using p(2) by (simp add: coord_inv_def)
  then have src: "source_levels (load_tracker c') = (\<lambda>q. load_source_level q (storage (ticket_ingress c')))"
      "source_levels (simulation_tracker c') = (\<lambda>q. simulation_source_level q (storage (ticket_ingress c')))"
    using s(5,6) p(3) by (auto simp: synced_def)
  have "get_level (load_tracker c') q = Some l \<longleftrightarrow> ticket_level_at MAX_LEVEL_RAW loads (storage (ticket_ingress c')) q l" for q l
    unfolding p(8) src LOAD_MAX_def by (rule strongest_source, rule load_source_level_iff)
  moreover have "coordinator_simulation_level q c' = Some l \<longleftrightarrow>
      ticket_level_at BLOCK_TICKING_CHUNK simulates (storage (ticket_ingress c')) q l" for q l
    unfolding coordinator_simulation_level_def p(9) src SIMULATION_MAX_def by (rule strongest_source, rule simulation_source_level_iff)
  moreover have "coordinator_run_all_updates vd sd c = Some (batch, c')" using s(1) p(1) by (simp add: coordinator_run_all_updates_def)
  ultimately show ?thesis using p(2-7) s(4,7-9) tr by (intro exI [of _ batch] exI [of _ c']) simp
qed


lemma ticket_level_exists:
  assumes "entry_at s (q, i) \<noteq> None" "P i" "snd i + chebyshev p q \<le> ml"
  shows "\<exists>l. ticket_level_at ml P s p l \<and> l \<le> snd i + chebyshev p q"
proof -
  let ?A = "\<lambda>n. \<exists>q i. entry_at s (q, i) \<noteq> None \<and> P i \<and> snd i + chebyshev p q = n"
  have A: "?A (snd i + chebyshev p q)" using assms by blast
  have "?A (LEAST n. ?A n)" using A by (rule LeastI)
  moreover have "(LEAST n. ?A n) \<le> n" if "?A n" for n using that by (rule Least_le)
  ultimately show ?thesis using A assms(3) le_trans unfolding ticket_level_at_def by blast
qed

lemma player_domains:
  "loads (PLAYER_LOADING, l)" "simulates (PLAYER_SIMULATION, l) \<longleftrightarrow> l \<le> BLOCK_TICKING_CHUNK"
  by (simp_all add: loads_def simulates_def does_load_def does_simulate_def ticket_type_defs ticket_flag_defs level_is_block_ticking_def)

section \<open>Player operations on the coordinator\<close>

abbreviation players :: "ChunkSchedulingCoordinator \<Rightarrow> Uuid \<rightharpoonup> ChunkPos" where
  "players c \<equiv> player_positions (player_tickets (ticket_ingress c))"

lemma queue_player_ok:
  assumes inv: "coord_inv c b"
  shows "case queue_player_ticket_operation op' c of
      None \<Rightarrow> latest_receipt (ticket_ingress c) = - 1
    | Some (r, c') \<Rightarrow> coord_inv c' b \<and> latest_receipt (ticket_ingress c) < r \<and> latest_receipt (ticket_ingress c') = r \<and>
        committed_receipt c' = committed_receipt c \<and>
        players c' = (case op' of AddPlayer pos u \<Rightarrow> (players c)(u \<mapsto> pos)
          | RemovePlayer pos u \<Rightarrow> (if players c u = Some pos then (players c)(u := None) else players c))"
proof -
  let ?g = "ticket_ingress c"
  have g: "ing_inv ?g" using inv by (simp add: coord_inv_def)
  from apply_player_operation_ok [OF g, of op'] obtain st pp where
    st: "apply_player_operation op' ?g = Some st"
      "player_step no_changes (storage ?g) pp (view_distance (player_tickets ?g)) (simulation_distance (player_tickets ?g)) (Some st)"
      "pp = (case op' of AddPlayer pos u \<Rightarrow> (players c)(u \<mapsto> pos)
          | RemovePlayer pos u \<Rightarrow> (if players c u = Some pos then (players c)(u := None) else players c))" by blast
  let ?g1 = "store_player st ?g"
  have g1: "ing_keep ?g ?g1" "player_positions (player_tickets ?g1) = pp" using store_player_keep [OF g st(2)] by blast+
  have rec: "latest_receipt ?g1 = latest_receipt ?g" by (cases st) (simp add: store_player_def)
  have q: "queue_player_ticket_operation op' c = map_option (\<lambda>(r, g). (r, c\<lparr>ticket_ingress := g\<rparr>)) (allocate_receipt ?g1)"
    using st(1) by (simp add: queue_player_ticket_operation_def on_ingress_def push_player_def apply_and_record_def)
  have i1: "ing_inv ?g1" using g1(1) by (simp add: ing_keep_def)
  show ?thesis
  proof (cases "allocate_receipt ?g1")
    case None
    then show ?thesis using rec by (auto simp: q allocate_receipt_def receipt_next_def split: if_splits)
  next
    case (Some rg)
    obtain r g2 where rg: "rg = (r, g2)" by (cases rg) auto
    from allocate_receipt_keep [OF i1 Some [unfolded rg]]
    have a: "ing_keep ?g1 g2" "latest_receipt ?g1 < r" "r = latest_receipt g2" "player_tickets g2 = player_tickets ?g1" by blast+
    have "coord_inv (c\<lparr>ticket_ingress := g2\<rparr>) b" by (rule coord_inv_ingress [OF inv ing_keep_trans [OF g1(1) a(1)]])
    then show ?thesis using a(2-) rec g1(2) st(3) by (simp add: q Some rg)
  qed
qed

section \<open>Properties\<close>

text \<open>A coordinator over a storage with one portal ticket, before and after a player joins, and
  with that player's tickets taken by a pass in flight.\<close>

definition demo_coordinator :: ChunkSchedulingCoordinator where
  "demo_coordinator = the (coordinator_new demo_storage 2 4)"

definition demo_joined :: ChunkSchedulingCoordinator where
  "demo_joined = snd (the (queue_player_ticket_operation (AddPlayer (ChunkPos 7 0) 1) demo_coordinator))"

definition demo_flight :: "SourceProjectionBatch \<times> ChunkSchedulingCoordinator" where
  "demo_flight = the (coordinator_snapshot 2 4 demo_joined)"

lemma demo_owned_free: "owned_free demo_storage"
  unfolding owned_free_def using demo_entry_only timed_tickets_ok(2) by (fastforce simp: ticket_id_def)

lemma demo_new: "coordinator_new demo_storage 2 4 = Some demo_coordinator" "ticket_ingress demo_coordinator = ingress_new demo_storage 2 4"
proof -
  obtain c where "coordinator_new demo_storage 2 4 = Some c"
    using coordinator_new_inv [OF storage_reachable_wf [OF demo_reachable [of registry_new]] demo_owned_free, of 2 4] by auto
  then show "coordinator_new demo_storage 2 4 = Some demo_coordinator" "ticket_ingress demo_coordinator = ingress_new demo_storage 2 4"
    by (auto simp: demo_coordinator_def coordinator_new_def split: option.splits)
qed

lemma demo_coordinator_reachable: "coord_reachable demo_coordinator None"
  by (rule coord_start [OF demo_reachable [of registry_new] demo_owned_free _ demo_new(1)]) simp

lemma demo_join: "\<exists>r. queue_player_ticket_operation (AddPlayer (ChunkPos 7 0) 1) demo_coordinator = Some (r, demo_joined)"
    "players demo_joined = [1 \<mapsto> ChunkPos 7 0]" "coord_reachable demo_joined None"
proof -
  have "latest_receipt (ticket_ingress demo_coordinator) \<noteq> - 1" "players demo_coordinator = Map.empty"
    by (simp_all add: demo_new(2) ingress_new_def receipt_INITIAL_def player_tracker_new_def)
  then obtain r where q: "queue_player_ticket_operation (AddPlayer (ChunkPos 7 0) 1) demo_coordinator = Some (r, demo_joined)"
      "players demo_joined = [1 \<mapsto> ChunkPos 7 0]"
    using queue_player_ok [OF coord_reachable_inv [OF demo_coordinator_reachable], of "AddPlayer (ChunkPos 7 0) 1"]
    by (auto simp: demo_joined_def split: option.splits)
  then show "\<exists>r. queue_player_ticket_operation (AddPlayer (ChunkPos 7 0) 1) demo_coordinator = Some (r, demo_joined)"
    "players demo_joined = [1 \<mapsto> ChunkPos 7 0]" by blast+
  from demo_coordinator_reachable q(1) show "coord_reachable demo_joined None" by (rule coord_player)
qed

lemma demo_flight_reachable: "coord_reachable (snd demo_flight) (Some (fst demo_flight))"
proof -
  obtain b c where "coordinator_snapshot 2 4 demo_joined = Some (b, c)"
    using coord_inv_snapshot [OF coord_reachable_inv [OF demo_join(3)], of 2 4] by auto
  then show ?thesis using coord_snapshot [OF demo_join(3), of 2 4 b c] by (simp add: demo_flight_def)
qed

lemma demo_flight_receipt: "latest_receipt (ticket_ingress (snd demo_flight)) \<noteq> - 1"
proof -
  obtain b c where s: "coordinator_snapshot 2 4 demo_joined = Some (b, c)"
    using coord_inv_snapshot [OF coord_reachable_inv [OF demo_join(3)], of 2 4] by auto
  have ing: "ing_inv (ticket_ingress demo_joined)" using coord_reachable_inv [OF demo_join(3)] by (simp add: coord_inv_def)
  have "latest_receipt (ticket_ingress c) = latest_receipt (ticket_ingress demo_joined)"
    using take_source_projections_ok [OF ing, of 2 4] s by (auto simp: coordinator_snapshot_def on_ingress_def)
  moreover have "latest_receipt (ticket_ingress demo_joined) = 1"
    using demo_join(1) demo_new(2)
    by (auto simp: queue_player_ticket_operation_def on_ingress_def push_player_def apply_and_record_def allocate_receipt_def
        receipt_next_def store_player_def ingress_new_def receipt_INITIAL_def split: option.splits prod.splits if_splits
        dest!: arg_cong [of _ demo_joined "\<lambda>c. latest_receipt (ticket_ingress c)"])
  ultimately show ?thesis using s by (simp add: demo_flight_def)
qed

text \<open>C1: A scheduling pass never panics and makes the trackers agree with the ticket storage: the
  loading level of a chunk is the least, over all stored loading tickets, of the ticket's level
  plus its distance, absent beyond the maximum level; the simulation level is the same over the
  tickets that simulate and are block ticking.\<close>

theorem pass_realises_tickets:
  assumes "coord_reachable c None" "vd \<le> 255"
  shows "\<exists>batch c'. coordinator_run_all_updates vd sd c = Some (batch, c') \<and>
    (\<forall>p l. get_level (load_tracker c') p = Some l \<longleftrightarrow> ticket_level_at MAX_LEVEL_RAW loads (storage (ticket_ingress c')) p l) \<and>
    (\<forall>p l. coordinator_simulation_level p c' = Some l \<longleftrightarrow>
      ticket_level_at BLOCK_TICKING_CHUNK simulates (storage (ticket_ingress c')) p l)"
  using coordinator_run_ok [OF coord_reachable_inv [OF assms(1)] assms(2)] by blast

theorem pass_realises_tickets_witness:
  "\<exists>batch c'. coordinator_run_all_updates 3 5 demo_joined = Some (batch, c') \<and>
    (\<forall>l. get_level (load_tracker c') (ChunkPos 7 3) = Some l \<longleftrightarrow>
      ticket_level_at MAX_LEVEL_RAW loads (storage (ticket_ingress c')) (ChunkPos 7 3) l)"
  using pass_realises_tickets [OF demo_join(3), of 3 5] by auto


text \<open>C7: After a pass every chunk within the view distance of a player is loaded to the entity
  ticking status, and every chunk within the simulation distance of a player, up to 128 chunks, is
  simulated at an entity ticking level.\<close>

theorem players_see_ticking_chunks:
  assumes "coord_reachable c None" "vd \<le> 255" "players c u = Some cp"
  shows "\<exists>batch c'. coordinator_run_all_updates vd sd c = Some (batch, c') \<and>
    (\<forall>p. chebyshev cp p \<le> vd \<longrightarrow> full_status (get_level (load_tracker c') p) = EntityTicking) \<and>
    (\<forall>p. chebyshev cp p \<le> min sd ENTITY_TICKING_CHUNK \<longrightarrow> is_entity_ticking (coordinator_simulation_level p c'))"
proof -
  from coordinator_run_ok [OF coord_reachable_inv [OF assms(1)] assms(2), of sd] obtain batch c' where
    run: "coordinator_run_all_updates vd sd c = Some (batch, c')" "coord_inv c' None" "players c' = players c"
      "view_distance (player_tickets (ticket_ingress c')) = vd" "simulation_distance (player_tickets (ticket_ingress c')) = sd"
    and lev: "\<And>p l. get_level (load_tracker c') p = Some l \<longleftrightarrow> ticket_level_at MAX_LEVEL_RAW loads (storage (ticket_ingress c')) p l"
      "\<And>p l. coordinator_simulation_level p c' = Some l \<longleftrightarrow> ticket_level_at BLOCK_TICKING_CHUNK simulates (storage (ticket_ingress c')) p l"
    by blast
  let ?s = "storage (ticket_ingress c')"
  have pinv: "player_inv (player_tickets (ticket_ingress c')) ?s" using run(2) by (simp add: coord_inv_def ing_inv_def)
  have "full_status (get_level (load_tracker c') p) = EntityTicking" if "chebyshev cp p \<le> vd" for p
  proof -
    have "entry_at ?s (p, PLAYER_LOADING, ENTITY_TICKING_CHUNK) \<noteq> None"
      unfolding player_inv_tickets(1) [OF pinv] run(3,4) using assms(3) that by blast
    from ticket_level_exists [OF this, of loads p MAX_LEVEL_RAW] obtain l where "ticket_level_at MAX_LEVEL_RAW loads ?s p l" "l \<le> ENTITY_TICKING_CHUNK"
      by (auto simp: player_domains level_constants chebyshev_0_iff [THEN iffD2])
    then show ?thesis using lev(1) [of p l] by (simp add: full_status_def level_full_status_def)
  qed
  moreover have "is_entity_ticking (coordinator_simulation_level p c')" if "chebyshev cp p \<le> min sd ENTITY_TICKING_CHUNK" for p
  proof -
    have "entry_at ?s (cp, PLAYER_SIMULATION, for_entity_ticking_radius sd) \<noteq> None"
      unfolding player_inv_tickets(2) [OF pinv] run(3,5) using assms(3) by blast
    moreover have r: "for_entity_ticking_radius sd + chebyshev p cp \<le> ENTITY_TICKING_CHUNK"
      using that unfolding for_entity_ticking_radius_def chebyshev_sym [of p cp] by linarith
    ultimately obtain l where "ticket_level_at BLOCK_TICKING_CHUNK simulates ?s p l" "l \<le> ENTITY_TICKING_CHUNK"
      using ticket_level_exists [of ?s cp _ simulates p BLOCK_TICKING_CHUNK] by (force simp: player_domains level_constants)
    then show ?thesis using lev(2) [of p l] by (simp add: is_entity_ticking_def level_is_entity_ticking_def)
  qed
  ultimately show ?thesis using run(1) by blast
qed

theorem players_see_ticking_chunks_witness:
  "\<exists>batch c'. coordinator_run_all_updates 3 5 demo_joined = Some (batch, c') \<and>
    full_status (get_level (load_tracker c') (ChunkPos 4 2)) = EntityTicking \<and>
    is_entity_ticking (coordinator_simulation_level (ChunkPos 12 (-5)) c')"
proof -
  have "players demo_joined 1 = Some (ChunkPos 7 0)" by (simp add: demo_join(2))
  from players_see_ticking_chunks [OF demo_join(3) _ this, of 3 5] obtain batch c' where
    "coordinator_run_all_updates 3 5 demo_joined = Some (batch, c')"
    "\<And>p. chebyshev (ChunkPos 7 0) p \<le> 3 \<Longrightarrow> full_status (get_level (load_tracker c') p) = EntityTicking"
    "\<And>p. chebyshev (ChunkPos 7 0) p \<le> min 5 ENTITY_TICKING_CHUNK \<Longrightarrow> is_entity_ticking (coordinator_simulation_level p c')" by auto
  moreover have "chebyshev (ChunkPos 7 0) (ChunkPos 4 2) \<le> 3" "chebyshev (ChunkPos 7 0) (ChunkPos 12 (-5)) \<le> min 5 ENTITY_TICKING_CHUNK"
    by (simp_all add: chebyshev_def wabs_def level_constants)
  ultimately show ?thesis by blast
qed

text \<open>C15: At all times, also while a pass is in flight, the player tickets in the storage are exactly
  those that the tracked players call for: a loading ticket at entity ticking level at each chunk
  within the view distance of a player, and a simulation ticket for the simulation distance at
  each player's own chunk.\<close>

theorem player_tickets_exact:
  assumes "coord_reachable c b"
  shows "(entry_at (storage (ticket_ingress c)) (p, PLAYER_LOADING, l) \<noteq> None \<longleftrightarrow>
      l = ENTITY_TICKING_CHUNK \<and>
      (\<exists>u cp. players c u = Some cp \<and> chebyshev cp p \<le> view_distance (player_tickets (ticket_ingress c)))) \<and>
    (entry_at (storage (ticket_ingress c)) (p, PLAYER_SIMULATION, l) \<noteq> None \<longleftrightarrow>
      l = for_entity_ticking_radius (simulation_distance (player_tickets (ticket_ingress c))) \<and> (\<exists>u. players c u = Some p))"
proof -
  have "player_inv (player_tickets (ticket_ingress c)) (storage (ticket_ingress c))"
    using coord_reachable_inv [OF assms] by (simp add: coord_inv_def ing_inv_def)
  then show ?thesis by (intro conjI player_inv_tickets)
qed

theorem player_tickets_exact_witness:
  "entry_at (storage (ticket_ingress demo_joined)) (ChunkPos 7 0, PLAYER_LOADING, 128) \<noteq> None"
proof -
  have "chebyshev (ChunkPos 7 0) (ChunkPos 7 0) = 0" by (simp add: chebyshev_0_iff)
  then have "\<exists>u cp. players demo_joined u = Some cp \<and>
      chebyshev cp (ChunkPos 7 0) \<le> view_distance (player_tickets (ticket_ingress demo_joined))"
    by (intro exI [of _ 1] exI [of _ "ChunkPos 7 0"]) (simp add: demo_join(2))
  then show ?thesis using player_tickets_exact [OF demo_join(3), of "ChunkPos 7 0" 128] by (simp add: level_constants)
qed

text \<open>A queued player operation always succeeds until the receipts run out, gets a receipt above
  all earlier ones, and has the effect the caller asked for: a join or move puts the player at the
  given chunk, and a leave removes the player unless the player has moved elsewhere.\<close>

lemma player_operation_effect:
  assumes "coord_reachable c b"
  shows "case queue_player_ticket_operation op' c of
      None \<Rightarrow> latest_receipt (ticket_ingress c) = - 1
    | Some (r, c') \<Rightarrow> coord_reachable c' b \<and> latest_receipt (ticket_ingress c) < r \<and> latest_receipt (ticket_ingress c') = r \<and>
        players c' = (case op' of AddPlayer pos u \<Rightarrow> (players c)(u \<mapsto> pos)
          | RemovePlayer pos u \<Rightarrow> (if players c u = Some pos then (players c)(u := None) else players c))"
  using queue_player_ok [OF coord_reachable_inv [OF assms], of op'] coord_player [OF assms] by (auto split: option.splits)

text \<open>C26: Chunk requests are reference counted without leaks: a request ticket is in the storage
  exactly while some lease on its chunk and level is held, and releasing a lease panics exactly
  when none is held (or the receipts have run out).\<close>

theorem leases_match_tickets:
  assumes "coord_reachable c b"
  shows "(entry_at (storage (ticket_ingress c)) (pos, CHUNK_REQUEST, l) \<noteq> None \<longleftrightarrow>
      (\<exists>n > 0. chunk_request_leases (ticket_ingress c) (pos, l) = Some n)) \<and>
    (coordinator_release [pos] l c = None \<longleftrightarrow>
      chunk_request_leases (ticket_ingress c) (pos, l) = None \<or> latest_receipt (ticket_ingress c) = - 1)"
proof -
  let ?g = "ticket_ingress c"
  have "lease_inv ?g" using coord_reachable_inv [OF assms] by (simp add: coord_inv_def ing_inv_def)
  then have li: "slot_has CHUNK_REQUEST (storage ?g) (pos, l) \<longleftrightarrow> lease_count (chunk_request_leases ?g) (pos, l) \<noteq> 0"
      "chunk_request_leases ?g (pos, l) \<noteq> Some 0"
    unfolding lease_inv_def request_slots.counted_def by blast+
  have "slot_has CHUNK_REQUEST (storage ?g) (pos, l) \<longleftrightarrow> (\<exists>n > 0. chunk_request_leases ?g (pos, l) = Some n)"
    using li by (cases "chunk_request_leases ?g (pos, l)") (simp_all add: lease_count_def)
  moreover have "release_lease l pos ?g = None \<longleftrightarrow> chunk_request_leases ?g (pos, l) = None"
    by (auto simp: release_lease_def Let_def split: option.split prod.split)
  moreover have "latest_receipt g' = latest_receipt ?g" if "release_lease l pos ?g = Some g'" for g'
    using that by (auto simp: release_lease_def Let_def split: option.splits prod.splits if_splits)
  ultimately show ?thesis unfolding coordinator_release_def on_ingress_def release_chunk_request_leases_def allocate_receipt_def receipt_next_def
    by (auto simp: slot_has_def split: option.split)
qed

theorem leases_match_tickets_witness:
  "\<exists>r c. coordinator_acquire [ChunkPos 1 1] 129 demo_coordinator = Some (r, c) \<and>
    entry_at (storage (ticket_ingress c)) (ChunkPos 1 1, CHUNK_REQUEST, 129) \<noteq> None \<and>
    coordinator_release [ChunkPos 1 1] 130 c = None"
proof -
  let ?g = "ticket_ingress demo_coordinator"
  have g: "chunk_request_leases ?g = Map.empty" "latest_receipt ?g = 0"
    by (simp_all add: demo_new(2) ingress_new_def receipt_INITIAL_def)
  have wf: "storage_wf (storage ?g)" using coord_reachable_inv [OF demo_coordinator_reachable] ing_wf by (simp add: coord_inv_def)
  have m: "(129 :: nat) \<le> MAX_LEVEL_RAW" by (simp add: level_constants)
  from add_untimed [OF wf, of "ticket_new CHUNK_REQUEST 129" "ChunkPos 1 1", unfolded ticket_new_simps, OF m untimed_types(3)]
  obtain ch s where "add_ticket (ChunkPos 1 1) (ticket_new CHUNK_REQUEST 129) (storage ?g) = Some (ch, s)" by blast
  then obtain r c where c: "coordinator_acquire [ChunkPos 1 1] 129 demo_coordinator = Some (r, c)"
      "chunk_request_leases (ticket_ingress c) = [(ChunkPos 1 1, 129) \<mapsto> 1]"
    using g by (simp add: coordinator_acquire_def on_ingress_def acquire_chunk_request_leases_def acquire_lease_def Let_def usize_MAX_def
        allocate_receipt_def receipt_next_def)
  have "coord_reachable c None" by (rule coord_acquire [OF demo_coordinator_reachable m c(1)])
  from leases_match_tickets [OF this, of "ChunkPos 1 1" 129] leases_match_tickets [OF this, of "ChunkPos 1 1" 130] c show ?thesis by auto
qed

text \<open>C25: A receipt that is handed out is not yet committed, and the next pass commits it: after that
  pass and the publication of its batch, waiting on the receipt succeeds.\<close>

theorem receipt_committed_by_pass:
  assumes "coord_reachable c None" "queue_player_ticket_operation op' c = Some (r, c1)" "vd \<le> 255"
  shows "\<not> is_receipt_committed r c1 \<and>
    (\<exists>batch c2. coordinator_run_all_updates vd sd c1 = Some (batch, c2) \<and>
      is_receipt_committed r (publish_committed (through_receipt batch) c2))"
proof -
  have inv: "coord_inv c None" using assms(1) by (rule coord_reachable_inv)
  from queue_player_ok [OF inv, of op'] assms(2)
  have c1: "coord_inv c1 None" "latest_receipt (ticket_ingress c) < r" "latest_receipt (ticket_ingress c1) = r"
    "committed_receipt c1 = committed_receipt c" by simp_all
  have "committed_receipt c < r" using inv c1(2) unfolding coord_inv_def by (blast intro: le_less_trans)
  then show ?thesis using coordinator_run_ok [OF c1(1) assms(3), of sd] c1(3,4)
    by (auto simp: is_receipt_committed_def publish_committed_def)
qed

theorem receipt_committed_by_pass_witness:
  "\<exists>r batch c2. coordinator_run_all_updates 3 5 demo_joined = Some (batch, c2) \<and>
    \<not> is_receipt_committed r demo_joined \<and> is_receipt_committed r (publish_committed (through_receipt batch) c2)"
proof -
  obtain r where "queue_player_ticket_operation (AddPlayer (ChunkPos 7 0) 1) demo_coordinator = Some (r, demo_joined)"
    using demo_join(1) by blast
  from receipt_committed_by_pass [OF demo_coordinator_reachable this, of 3 5] show ?thesis by auto
qed

text \<open>C12: An operation that arrives while a pass is in flight is neither lost nor committed too early:
  the pass completes without it, its batch covers only earlier receipts, and every position where
  the trackers' sources differ from the storage afterwards is still marked dirty for the next pass.\<close>

theorem late_operation_not_lost:
  assumes "coord_reachable c (Some b)" "queue_player_ticket_operation op' c = Some (r, c1)"
  shows "\<exists>batch c2. coordinator_propagate b c1 = Some (batch, c2) \<and> through_receipt batch < r \<and>
    \<not> is_receipt_committed r (publish_committed (through_receipt batch) c2) \<and>
    (\<forall>p. source_levels (load_tracker c2) p \<noteq> load_source_level p (storage (ticket_ingress c2)) \<longrightarrow>
      p \<in> set (dirty_load_positions (ticket_ingress c2))) \<and>
    (\<forall>p. source_levels (simulation_tracker c2) p \<noteq> simulation_source_level p (storage (ticket_ingress c2)) \<longrightarrow>
      p \<in> set (dirty_simulation_positions (ticket_ingress c2)))"
proof -
  have inv: "coord_inv c (Some b)" using assms(1) by (rule coord_reachable_inv)
  from queue_player_ok [OF inv, of op'] assms(2)
  have c1: "coord_inv c1 (Some b)" "latest_receipt (ticket_ingress c) < r" "committed_receipt c1 = committed_receipt c" by simp_all
  from coord_inv_propagate [OF c1(1)] obtain batch c2 where
    p: "coordinator_propagate b c1 = Some (batch, c2)" "coord_inv c2 None" "committed_receipt c2 = committed_receipt c1"
      "through_receipt batch = projection_receipt b" by blast
  have "synced (ticket_ingress c2) (source_levels (load_tracker c2)) (source_levels (simulation_tracker c2))"
    using p(2) by (simp add: coord_inv_def)
  moreover have "projection_receipt b < r" "committed_receipt c2 < r"
    using inv c1(2) unfolding p(3) c1(3) coord_inv_def option.case by (blast intro: le_less_trans)+
  ultimately show ?thesis using p(1,4)
    by (intro exI [of _ batch] exI [of _ c2]) (auto simp: synced_def is_receipt_committed_def publish_committed_def le_max_iff_disj not_le [symmetric])
qed

theorem late_operation_not_lost_witness:
  "\<exists>r c1 batch c2. queue_player_ticket_operation (RemovePlayer (ChunkPos 7 0) 1) (snd demo_flight) = Some (r, c1) \<and>
    coordinator_propagate (fst demo_flight) c1 = Some (batch, c2) \<and> through_receipt batch < r"
proof -
  obtain r c1 where q: "queue_player_ticket_operation (RemovePlayer (ChunkPos 7 0) 1) (snd demo_flight) = Some (r, c1)"
    using queue_player_ok [OF coord_reachable_inv [OF demo_flight_reachable], of "RemovePlayer (ChunkPos 7 0) 1"] demo_flight_receipt
    by (auto split: option.splits)
  from late_operation_not_lost [OF demo_flight_reachable q] q show ?thesis by blast
qed

end
