(* ===== verification/Player_Tracking.thy ===== *)
theory Player_Tracking
  imports Chunk_Delivery Chunk_View Chunk_Coordinator
begin

text \<open>
  Tracking of players by the chunk map (\<^verbatim>\<open>steel-core/src/chunk/chunk_map/player_tracking.rs\<close>) and the
  index of players per chunk (\<^verbatim>\<open>world/player_index/area.rs\<close>). A change of a player's view is one
  critical section (it runs under the lock of the tracking view) that feeds the scheduling
  coordinator, the chunk sender and the index.
\<close>

section \<open>The player area map\<close>

type_synonym EntityId = i32

record PlayerAreaMap =
  area_chunks :: "ChunkPos \<rightharpoonup> EntityId set"
  player_chunks :: "EntityId \<rightharpoonup> ChunkPos list"

definition area_new :: PlayerAreaMap where
  "area_new = \<lparr>area_chunks = Map.empty, player_chunks = Map.empty\<rparr>"

definition add_to_chunk :: "EntityId \<Rightarrow> ChunkPos \<Rightarrow> PlayerAreaMap \<Rightarrow> PlayerAreaMap" where
  "add_to_chunk i chunk m =
     (case area_chunks m chunk of
        Some s \<Rightarrow> m\<lparr>area_chunks := (area_chunks m)(chunk \<mapsto> insert i s)\<rparr>
      | None \<Rightarrow> m\<lparr>area_chunks := (area_chunks m)(chunk \<mapsto> {i})\<rparr>)"

definition remove_from_chunk :: "EntityId \<Rightarrow> ChunkPos \<Rightarrow> PlayerAreaMap \<Rightarrow> PlayerAreaMap" where
  "remove_from_chunk i chunk m =
     (case area_chunks m chunk of
        None \<Rightarrow> m
      | Some s \<Rightarrow>
          (let s' = s - {i} in
           m\<lparr>area_chunks := (area_chunks m)(chunk := if s' = {} then None else Some s')\<rparr>))"

text \<open>\<open>insert_sync\<close> keeps an entry that is already there.\<close>

definition on_player_join :: "EntityId \<Rightarrow> PlayerChunkView \<Rightarrow> PlayerAreaMap \<Rightarrow> PlayerAreaMap" where
  "on_player_join i v m =
     (let (player_set, m) = fold (\<lambda>chunk (s, m). (List.insert chunk s, add_to_chunk i chunk m)) (view_for_each v) ([], m) in
      m\<lparr>player_chunks := (case player_chunks m i of None \<Rightarrow> (player_chunks m)(i \<mapsto> player_set) | Some _ \<Rightarrow> player_chunks m)\<rparr>)"

definition remove_by_entity_id :: "EntityId \<Rightarrow> PlayerAreaMap \<Rightarrow> PlayerAreaMap" where
  "remove_by_entity_id i m =
     (case player_chunks m i of
        None \<Rightarrow> m
      | Some chunks \<Rightarrow> fold (remove_from_chunk i) chunks (m\<lparr>player_chunks := (player_chunks m)(i := None)\<rparr>))"

definition on_player_view_change :: "EntityId \<Rightarrow> ChunkPos list \<Rightarrow> ChunkPos list \<Rightarrow> PlayerAreaMap \<Rightarrow> PlayerAreaMap" where
  "on_player_view_change i added removed m =
     (if added = [] \<and> removed = [] then m
      else
        (let m = fold (remove_from_chunk i) removed m;
             m = fold (add_to_chunk i) added m
         in
           (case player_chunks m i of
              None \<Rightarrow> m
            | Some s \<Rightarrow>
                m\<lparr>player_chunks := (player_chunks m)(i \<mapsto> fold List.insert added (fold removeAll removed s))\<rparr>)))"

definition get_tracking_players :: "ChunkPos \<Rightarrow> PlayerAreaMap \<Rightarrow> EntityId set" where
  "get_tracking_players chunk m = (case area_chunks m chunk of None \<Rightarrow> {} | Some s \<Rightarrow> s)"

section \<open>Player status\<close>

record 'f TrackedPlayer =
  last_tracking_view :: "PlayerChunkView option"
  last_chunk_pos :: ChunkPos
  chunk_sender :: "'f ChunkSender"
  chunk_send_epoch :: u32

record TrackingWorld =
  scheduling :: ChunkSchedulingCoordinator
  player_area_map :: PlayerAreaMap

text \<open>The two callbacks of the difference, on the packets sent so far and the sender.\<close>

fun apply_view_event :: "bool \<Rightarrow> view_event \<Rightarrow> 'p ClientPacket list \<times> 'f ChunkSender \<Rightarrow> 'p ClientPacket list \<times> 'f ChunkSender" where
  "apply_view_event closed (Added pos) (pk, s) = (pk, mark_chunk_pending_to_send pos s)"
| "apply_view_event closed (Removed pos) (pk, s) = (case drop_chunk closed pos s of (out, s') \<Rightarrow> (pk @ out, s'))"

definition added_chunks :: "view_event list \<Rightarrow> ChunkPos list" where
  "added_chunks es = List.map_filter (\<lambda>e. case e of Added p \<Rightarrow> Some p | Removed _ \<Rightarrow> None) es"

definition removed_chunks :: "view_event list \<Rightarrow> ChunkPos list" where
  "removed_chunks es = List.map_filter (\<lambda>e. case e of Removed p \<Rightarrow> Some p | Added _ \<Rightarrow> None) es"

text \<open>The move of a view, and the first view of a player.\<close>

definition change_view :: "EntityId \<Rightarrow> Uuid \<Rightarrow> bool \<Rightarrow> PlayerChunkView \<Rightarrow> PlayerChunkView \<Rightarrow> TrackingWorld \<times> 'f ChunkSender \<Rightarrow>
    ('p ClientPacket list \<times> TrackingWorld \<times> 'f ChunkSender) option" where
  "change_view i u closed old new ws =
     (case ws of (w, s) \<Rightarrow>
       (case (if view_center old \<noteq> view_center new
              then map_option (\<lambda>(_, c). ([SetChunkCenter (chunk_x (view_center new)) (chunk_z (view_center new))], c))
                     (queue_player_ticket_operations
                        [RemovePlayer (view_center old) u, AddPlayer (view_center new) u] (scheduling w))
              else Some ([], scheduling w)) of
          None \<Rightarrow> None
        | Some (pk, c) \<Rightarrow>
            (let events = view_difference old new;
                 (pk, s) = fold (apply_view_event closed) events (pk, s);
                 area = on_player_view_change i (added_chunks events) (removed_chunks events) (player_area_map w)
             in Some (pk, w\<lparr>scheduling := c, player_area_map := area\<rparr>, s))))"

definition first_view :: "EntityId \<Rightarrow> Uuid \<Rightarrow> PlayerChunkView \<Rightarrow> TrackingWorld \<times> 'f ChunkSender \<Rightarrow>
    ('p ClientPacket list \<times> TrackingWorld \<times> 'f ChunkSender) option" where
  "first_view i u new ws =
     (case ws of (w, s) \<Rightarrow>
       (case queue_player_ticket_operation (AddPlayer (view_center new) u) (scheduling w) of
          None \<Rightarrow> None
        | Some (_, c) \<Rightarrow>
            Some ([SetChunkCenter (chunk_x (view_center new)) (chunk_z (view_center new))],
                  w\<lparr>scheduling := c, player_area_map := on_player_join i new (player_area_map w)\<rparr>,
                  fold mark_chunk_pending_to_send (view_for_each new) s)))"

text \<open>The entity tracker's refresh at the end only reads this state.\<close>

definition update_player_status :: "EntityId \<Rightarrow> Uuid \<Rightarrow> ChunkPos \<Rightarrow> nat \<Rightarrow> bool \<Rightarrow> TrackingWorld \<times> 'f TrackedPlayer \<Rightarrow>
    ('p ClientPacket list \<times> TrackingWorld \<times> 'f TrackedPlayer) option" where
  "update_player_status i u pos vd closed wp =
     (case wp of (w, p) \<Rightarrow>
       (let p = p\<lparr>last_chunk_pos := pos\<rparr>; new = view_new pos vd in
        if last_tracking_view p = Some new then Some ([], w, p)
        else
          map_option (\<lambda>(pk, w, s). (pk, w, p\<lparr>chunk_sender := s, last_tracking_view := Some new\<rparr>))
            (case last_tracking_view p of
               Some old \<Rightarrow> change_view i u closed old new (w, chunk_sender p)
             | None \<Rightarrow> first_view i u new (w, chunk_sender p))))"

definition chunk_map_remove_player :: "Uuid \<Rightarrow> TrackingWorld \<times> 'f TrackedPlayer \<Rightarrow> (TrackingWorld \<times> 'f TrackedPlayer) option" where
  "chunk_map_remove_player u wp =
     (case wp of (w, p) \<Rightarrow>
       (let p' = p\<lparr>last_tracking_view := None, chunk_send_epoch := chunk_send_epoch p + 1,
                   chunk_sender := clear_world_chunks (chunk_sender p), last_chunk_pos := ChunkPos 0x7FFFFFFF 0x7FFFFFFF\<rparr>
        in
          (case last_tracking_view p of
             None \<Rightarrow> Some (w, p')
           | Some v \<Rightarrow>
               map_option (\<lambda>(_, c). (w\<lparr>scheduling := c\<rparr>, p'))
                 (queue_player_ticket_operation (RemovePlayer (view_center v) u) (scheduling w)))))"

end
