(* ===== verification/Tracking_Books.thy ===== *)
theory Tracking_Books
  imports Player_Tracking
begin

text \<open>
  The books of player tracking, one at a time: the index of players per chunk against a player's
  view (\<open>entry_ok\<close>), the sender's pending and sent chunks under a change of view, and the players
  known to the scheduling coordinator after a batch of operations.
\<close>

section \<open>The area map as a relation\<close>

definition area_ok :: "PlayerAreaMap \<Rightarrow> bool" where
  "area_ok m \<longleftrightarrow> (\<forall>p. area_chunks m p \<noteq> Some {})"

lemma add_to_chunk_simps [simp]:
  "get_tracking_players q (add_to_chunk i p m) = (if q = p then insert i (get_tracking_players q m) else get_tracking_players q m)"
  "player_chunks (add_to_chunk i p m) = player_chunks m"
  "area_ok m \<Longrightarrow> area_ok (add_to_chunk i p m)"
  by (auto simp: add_to_chunk_def get_tracking_players_def area_ok_def split: option.split)

lemma remove_from_chunk_simps [simp]:
  "get_tracking_players q (remove_from_chunk i p m) = (if q = p then get_tracking_players q m - {i} else get_tracking_players q m)"
  "player_chunks (remove_from_chunk i p m) = player_chunks m"
  "area_ok m \<Longrightarrow> area_ok (remove_from_chunk i p m)"
  by (auto simp: remove_from_chunk_def get_tracking_players_def area_ok_def Let_def split: option.split)

lemma fold_add_to_chunk [simp]:
  "get_tracking_players q (fold (add_to_chunk i) ps m) = (if q \<in> set ps then insert i (get_tracking_players q m) else get_tracking_players q m)"
  "player_chunks (fold (add_to_chunk i) ps m) = player_chunks m"
  "area_ok m \<Longrightarrow> area_ok (fold (add_to_chunk i) ps m)"
  by (induction ps arbitrary: m) auto

lemma fold_remove_from_chunk [simp]:
  "get_tracking_players q (fold (remove_from_chunk i) ps m) = (if q \<in> set ps then get_tracking_players q m - {i} else get_tracking_players q m)"
  "player_chunks (fold (remove_from_chunk i) ps m) = player_chunks m"
  "area_ok m \<Longrightarrow> area_ok (fold (remove_from_chunk i) ps m)"
  by (induction ps arbitrary: m) auto

lemma get_tracking_players_chunks [simp]: "get_tracking_players q (m\<lparr>player_chunks := c\<rparr>) = get_tracking_players q m"
  by (simp add: get_tracking_players_def)

lemma area_ok_chunks [simp]: "area_ok (m\<lparr>player_chunks := c\<rparr>) = area_ok m"
  by (simp add: area_ok_def)

text \<open>The index and a player: the chunks that list the player are those recorded for the player's
  removal, and while the player has a view, those of the view.\<close>

definition view_set :: "PlayerChunkView \<Rightarrow> ChunkPos set" where
  "view_set v = {p. view_contains v p}"

definition entry_ok :: "PlayerChunkView option \<Rightarrow> EntityId \<Rightarrow> PlayerAreaMap \<Rightarrow> bool" where
  "entry_ok vo i m \<longleftrightarrow>
     (\<forall>p. i \<in> get_tracking_players p m \<longleftrightarrow> (\<exists>cs. player_chunks m i = Some cs \<and> p \<in> set cs)) \<and>
     (\<forall>v. vo = Some v \<longrightarrow> map_option set (player_chunks m i) = Some (view_set v))"

lemma entry_ok_view:
  "entry_ok (Some v) i m \<Longrightarrow> i \<in> get_tracking_players p m \<longleftrightarrow> view_contains v p"
  by (auto simp: entry_ok_def view_set_def)

lemma entry_ok_detach: "entry_ok vo i m \<Longrightarrow> entry_ok None i m"
  by (simp add: entry_ok_def)

lemma entry_ok_new: "area_ok area_new \<and> entry_ok None i area_new"
  by (simp add: entry_ok_def area_new_def area_ok_def get_tracking_players_def)

text \<open>What is listed and recorded for a player decides the entry.\<close>

lemma entry_ok_cong:
  assumes "\<And>p. j \<in> get_tracking_players p m' \<longleftrightarrow> j \<in> get_tracking_players p m" "player_chunks m' j = player_chunks m j"
  shows "entry_ok vo j m' = entry_ok vo j m"
  using assms by (simp add: entry_ok_def)

lemma join_fold:
  "fold (\<lambda>chunk (s, m). (List.insert chunk s, add_to_chunk i chunk m)) ps (s, m) = (fold List.insert ps s, fold (add_to_chunk i) ps m)"
  by (induction ps arbitrary: s m) simp_all

lemma join_index:
  "area_ok m \<Longrightarrow> area_ok (on_player_join i v m)"
  "get_tracking_players p (on_player_join i v m) =
     (if p \<in> set (view_for_each v) then insert i (get_tracking_players p m) else get_tracking_players p m)"
  "player_chunks (on_player_join i v m) = (case player_chunks m i of
     None \<Rightarrow> (player_chunks m)(i \<mapsto> fold List.insert (view_for_each v) []) | Some _ \<Rightarrow> player_chunks m)"
  by (simp_all add: on_player_join_def join_fold split: option.split)

lemma entry_ok_join:
  assumes "entry_ok None i m" "player_chunks m i = None" "view_ok v" shows "entry_ok (Some v) i (on_player_join i v m)"
  using assms by (auto simp: entry_ok_def join_index set_fold_insert view_set_def set_view_for_each)

lemma entry_ok_join_other: "j \<noteq> i \<Longrightarrow> entry_ok vo j (on_player_join i v m) = entry_ok vo j m"
  by (rule entry_ok_cong) (simp_all add: join_index split: option.split)

lemma leave_index:
  "area_ok m \<Longrightarrow> area_ok (remove_by_entity_id i m)"
  "get_tracking_players p (remove_by_entity_id i m) =
     (if \<exists>cs. player_chunks m i = Some cs \<and> p \<in> set cs then get_tracking_players p m - {i} else get_tracking_players p m)"
  "player_chunks (remove_by_entity_id i m) = (player_chunks m)(i := None)"
  by (auto simp: remove_by_entity_id_def split: option.split)

lemma entry_ok_leave:
  assumes "entry_ok vo i m" shows "entry_ok None i (remove_by_entity_id i m)" "i \<notin> get_tracking_players p (remove_by_entity_id i m)"
  using assms by (auto simp: entry_ok_def leave_index)

lemma entry_ok_leave_other: "j \<noteq> i \<Longrightarrow> entry_ok vo j (remove_by_entity_id i m) = entry_ok vo j m"
  by (rule entry_ok_cong) (simp_all add: leave_index)

text \<open>Joining again before the removal keeps the record of the old view, so chunks that only the
  new view has stay in the index after it.\<close>

lemma join_before_leave_stays:
  assumes "player_chunks m i = Some cs" "p \<in> set (view_for_each v)" "p \<notin> set cs"
  shows "i \<in> get_tracking_players p (remove_by_entity_id i (on_player_join i v m))"
  using assms by (simp add: leave_index join_index)

lemma set_added_removed:
  "set (added_chunks es) = {p. Added p \<in> set es}" "set (removed_chunks es) = {p. Removed p \<in> set es}"
  by (induction es) (auto simp: added_chunks_def removed_chunks_def map_filter_simps split: view_event.splits)

lemma set_fold_removeAll: "set (fold removeAll ps s) = set s - set ps"
  by (induction ps arbitrary: s) auto

lemma change_index:
  "area_ok m \<Longrightarrow> area_ok (on_player_view_change i added removed m)"
  "j \<in> get_tracking_players p (on_player_view_change i added removed m) \<longleftrightarrow>
     (if j = i \<and> p \<in> set added then True else if j = i \<and> p \<in> set removed then False else j \<in> get_tracking_players p m)"
  "map_option set (player_chunks (on_player_view_change i added removed m) i) =
     map_option (\<lambda>cs. set cs - set removed \<union> set added) (player_chunks m i)"
  "j \<noteq> i \<Longrightarrow> player_chunks (on_player_view_change i added removed m) j = player_chunks m j"
  by (auto simp: on_player_view_change_def Let_def set_fold_insert set_fold_removeAll split: option.split)

lemma entry_ok_change:
  assumes "entry_ok (Some old) i m" "view_ok old" "view_ok new"
  shows "entry_ok (Some new) i
    (on_player_view_change i (added_chunks (view_difference old new)) (removed_chunks (view_difference old new)) m)"
    (is "entry_ok _ _ ?m")
proof -
  have d: "p \<in> set (added_chunks (view_difference old new)) \<longleftrightarrow> view_contains new p \<and> \<not> view_contains old p"
    "p \<in> set (removed_chunks (view_difference old new)) \<longleftrightarrow> view_contains old p \<and> \<not> view_contains new p" for p
    by (simp_all add: set_added_removed view_difference_mem [OF assms(2,3)])
  have "map_option set (player_chunks m i) = Some (view_set old)" using assms(1) by (simp add: entry_ok_def)
  then have c: "map_option set (player_chunks ?m i) = Some (view_set new)"
    unfolding change_index(3) by (auto simp: d view_set_def)
  moreover have "i \<in> get_tracking_players p ?m \<longleftrightarrow> view_contains new p" for p
    unfolding change_index(2) d entry_ok_view [OF assms(1)] by auto
  ultimately show ?thesis by (auto simp: entry_ok_def view_set_def)
qed

lemma entry_ok_change_other: "j \<noteq> i \<Longrightarrow> entry_ok vo j (on_player_view_change i added removed m) = entry_ok vo j m"
  by (rule entry_ok_cong) (simp_all add: change_index(2,4))


section \<open>The sender under a change of view\<close>

lemma view_events_books:
  fixes pk :: "'p ClientPacket list"
  assumes "books V s" "distinct es" "\<And>p. Added p \<in> set es \<Longrightarrow> p \<notin> V" "\<And>p. Added p \<in> set es \<Longrightarrow> Removed p \<notin> set es"
    "fold (apply_view_event closed) es (pk, s) = (pk', s')"
  shows "books ((V \<union> {p. Added p \<in> set es}) - {p. Removed p \<in> set es}) s' \<and> pacing s' = pacing s \<and>
    (\<not> closed \<longrightarrow> fold apply_packet pk c = sent_chunks s \<longrightarrow> fold apply_packet pk' c = sent_chunks s')"
  using assms
proof (induction es arbitrary: V s pk)
  case (Cons e es)
  show ?case
  proof (cases e)
    case (Added p)
    let ?s = "mark_chunk_pending_to_send p s"
    have p: "p \<notin> V" "Removed p \<notin> set es" "Added p \<notin> set es" using Cons.prems(2-4) Added by auto
    have b: "books (insert p V) ?s" "sent_chunks ?s = sent_chunks s" "pacing ?s = pacing s" using books_mark [OF Cons.prems(1) p(1)] by simp_all
    have "books ((insert p V \<union> {p. Added p \<in> set es}) - {p. Removed p \<in> set es}) s' \<and> pacing s' = pacing ?s \<and>
        (\<not> closed \<longrightarrow> fold apply_packet pk c = sent_chunks ?s \<longrightarrow> fold apply_packet pk' c = sent_chunks s')"
      by (rule Cons.IH [OF b(1)]) (use Cons.prems p Added in auto)
    moreover have "(insert p V \<union> {p. Added p \<in> set es}) - {p. Removed p \<in> set es} =
        (V \<union> {p. Added p \<in> set (e # es)}) - {p. Removed p \<in> set (e # es)}" by (auto simp: Added)
    ultimately show ?thesis using b(2,3) by simp
  next
    case (Removed p)
    obtain out :: "'p ClientPacket list" and s1 where d: "drop_chunk closed p s = (out, s1)" by fastforce
    have b: "books (V - {p}) s1" "pacing s1 = pacing s" "\<not> closed \<Longrightarrow> fold apply_packet out (sent_chunks s) = sent_chunks s1"
      using books_drop [OF Cons.prems(1) d] by simp_all
    have p: "Added p \<notin> set es" using Cons.prems(4) Removed by fastforce
    have "books (((V - {p}) \<union> {p. Added p \<in> set es}) - {p. Removed p \<in> set es}) s' \<and> pacing s' = pacing s1 \<and>
        (\<not> closed \<longrightarrow> fold apply_packet (pk @ out) c = sent_chunks s1 \<longrightarrow> fold apply_packet pk' c = sent_chunks s')"
      by (rule Cons.IH [OF b(1)]) (use Cons.prems Removed d in auto)
    moreover have "((V - {p}) \<union> {p. Added p \<in> set es}) - {p. Removed p \<in> set es} =
        (V \<union> {p. Added p \<in> set (e # es)}) - {p. Removed p \<in> set (e # es)}" using p by (auto simp: Removed)
    ultimately show ?thesis using b(2,3) by simp
  qed
qed simp

lemma change_view_books:
  assumes "books (view_set old) s" "view_ok old" "view_ok new"
    "fold (apply_view_event closed) (view_difference old new) (pk, s) = (pk', s')"
  shows "books (view_set new) s' \<and> pacing s' = pacing s \<and>
    (\<not> closed \<longrightarrow> fold apply_packet pk c = sent_chunks s \<longrightarrow> fold apply_packet pk' c = sent_chunks s')"
proof -
  note mem = view_difference_mem [OF assms(2,3)]
  have "view_set new = (view_set old \<union> {p. Added p \<in> set (view_difference old new)}) - {p. Removed p \<in> set (view_difference old new)}"
    by (auto simp: mem view_set_def)
  then show ?thesis using view_events_books [OF assms(1) distinct_view_difference _ _ assms(4), of c] by (simp add: mem view_set_def)
qed

lemma first_view_books:
  assumes "books {} s" "view_ok v"
  shows "books (view_set v) (fold mark_chunk_pending_to_send (view_for_each v) s) \<and>
    sent_chunks (fold mark_chunk_pending_to_send (view_for_each v) s) = sent_chunks s \<and>
    pacing (fold mark_chunk_pending_to_send (view_for_each v) s) = pacing s"
proof -
  have "books (V \<union> set ps) (fold mark_chunk_pending_to_send ps s) \<and>
      sent_chunks (fold mark_chunk_pending_to_send ps s) = sent_chunks s \<and> pacing (fold mark_chunk_pending_to_send ps s) = pacing s"
    if "books V s" "distinct ps" "set ps \<inter> V = {}" for ps V and s :: "'a ChunkSender"
    using that
  proof (induction ps arbitrary: V s)
    case (Cons p ps)
    then show ?case using books_mark [of V s p] Cons.IH [of "insert p V" "mark_chunk_pending_to_send p s"] by (simp add: insert_commute)
  qed simp
  moreover have "view_set v = set (view_for_each v)" by (auto simp: view_set_def set_view_for_each [OF assms(2)])
  ultimately show ?thesis using assms(1) distinct_view_for_each [of v] by (metis Int_empty_right sup_bot_left)
qed

section \<open>Batches of player operations\<close>

fun player_effect :: "PlayerTicketOperation \<Rightarrow> (Uuid \<rightharpoonup> ChunkPos) \<Rightarrow> Uuid \<rightharpoonup> ChunkPos" where
  "player_effect (AddPlayer pos u) m = m(u \<mapsto> pos)"
| "player_effect (RemovePlayer pos u) m = (if m u = Some pos then m(u := None) else m)"

lemma apply_and_record_players:
  assumes "ing_inv g"
  shows "\<exists>g'. apply_and_record op' g = Some g' \<and> ing_keep g g' \<and> latest_receipt g' = latest_receipt g \<and>
    player_positions (player_tickets g') = player_effect op' (player_positions (player_tickets g))"
proof -
  from apply_player_operation_ok [OF assms, of op'] obtain st pp where
    st: "apply_player_operation op' g = Some st"
      "player_step no_changes (storage g) pp (view_distance (player_tickets g)) (simulation_distance (player_tickets g)) (Some st)"
      "pp = player_effect op' (player_positions (player_tickets g))" by (cases op') auto
  have "latest_receipt (store_player st g) = latest_receipt g" by (cases st) (simp add: store_player_def)
  then show ?thesis using st(1,3) store_player_keep [OF assms st(2)] by (simp add: apply_and_record_def)
qed

lemma for_each_players:
  assumes "ing_inv g"
  shows "\<exists>g'. for_each apply_and_record ops g = Some g' \<and> ing_keep g g' \<and> latest_receipt g' = latest_receipt g \<and>
    player_positions (player_tickets g') = fold player_effect ops (player_positions (player_tickets g))"
  using assms
proof (induction ops arbitrary: g)
  case Nil
  then show ?case by (simp add: ing_keep_refl)
next
  case (Cons op' ops)
  from apply_and_record_players [OF Cons.prems, of op'] obtain g1 where
    g1: "apply_and_record op' g = Some g1" "ing_keep g g1" "latest_receipt g1 = latest_receipt g"
      "player_positions (player_tickets g1) = player_effect op' (player_positions (player_tickets g))" by blast
  from Cons.IH [of g1] g1(2) obtain g2 where
    g2: "for_each apply_and_record ops g1 = Some g2" "ing_keep g1 g2" "latest_receipt g2 = latest_receipt g1"
      "player_positions (player_tickets g2) = fold player_effect ops (player_positions (player_tickets g1))" by (auto simp: ing_keep_def)
  then show ?case using g1 ing_keep_trans [OF g1(2) g2(2)] by simp
qed

lemma queue_players_ok:
  assumes inv: "coord_inv c b" and q: "queue_player_ticket_operations ops c = Some (r, c')"
  shows "players c' = fold player_effect ops (players c)"
proof -
  have "ing_inv (ticket_ingress c)" using inv by (simp add: coord_inv_def)
  from for_each_players [OF this, of ops] obtain g' where
    g': "for_each apply_and_record ops (ticket_ingress c) = Some g'"
      "player_positions (player_tickets g') = fold player_effect ops (players c)" by blast
  then show ?thesis using q
    by (auto simp: queue_player_ticket_operations_def on_ingress_def push_player_batch_def allocate_receipt_def split: if_splits)
qed

lemma queue_player_players:
  "coord_inv c b \<Longrightarrow> queue_player_ticket_operation op' c = Some (r, c') \<Longrightarrow> players c' = player_effect op' (players c)"
  using queue_player_ok [of c b op'] by (cases op') simp_all

end
