(* ===== verification/Tracking_World.thy ===== *)
theory Tracking_World
  imports Tracking_Books
begin

text \<open>
  Player tracking as a whole: in every reachable state the pending and sent chunks of each player
  and the players known to the scheduling coordinator agree with the players' current views, and so
  do the index of players per chunk and what each client holds for every player whose removal was
  not overtaken by an update of the view (\<open>track_inv\<close>).
\<close>

section \<open>Reachable tracking states\<close>

text \<open>Besides the program's state: the scheduling pass in flight, for each player the chunk batch in
  flight, the chunks that the client holds, and whether the connection is closed. Every call is one
  step, and the calls of a removal are separate steps that others may come between: the chunk map
  drops the view (\<open>track_detach\<close>), the index drops the player (\<open>track_unindex\<close>), the client forgets the
  world (\<open>track_forget\<close>), and a respawned player gets a new record (\<open>track_fresh\<close>). Nothing in the code
  keeps an update of the same player out of a removal: \<open>overtaken\<close> collects the players for which
  one came between, that is, who got a view while the index or the client still had the old one, or
  were dropped from the index or forgotten by the client with a view in place. Everything else on the
  coordinator (requests, timed tickets, passes) is one kind of step that keeps the players.\<close>

type_synonym EncodedPacket = "u8 list"

record 'f TrackingState =
  tracking :: TrackingWorld
  sched_pass :: "SourceProjectionBatch option"
  tracked :: "EntityId \<Rightarrow> 'f TrackedPlayer"
  flights :: "EntityId \<Rightarrow> PreparedBatch option"
  clients :: "EntityId \<Rightarrow> ChunkPos set"
  conn_closed :: "EntityId \<Rightarrow> bool"
  overtaken :: "EntityId set"

definition put_player :: "EntityId \<Rightarrow> 'f TrackedPlayer \<Rightarrow> EncodedPacket ClientPacket list \<Rightarrow> 'f TrackingState \<Rightarrow> 'f TrackingState" where
  "put_player i p pk st =
     st\<lparr>tracked := (tracked st)(i := p), clients := (clients st)(i := fold apply_packet pk (clients st i))\<rparr>"

definition new_player :: "'f f32_arith \<Rightarrow> 'f TrackedPlayer" where
  "new_player F = \<lparr>last_tracking_view = None, last_chunk_pos = ChunkPos 0 0, chunk_sender = sender_default F, chunk_send_epoch = 0\<rparr>"

abbreviation views :: "'f TrackingState \<Rightarrow> EntityId \<rightharpoonup> PlayerChunkView" where
  "views st \<equiv> (\<lambda>i. last_tracking_view (tracked st i))"

definition note_overtaken :: "bool \<Rightarrow> EntityId \<Rightarrow> EntityId set \<Rightarrow> EntityId set" where
  "note_overtaken late i s = (if late then insert i s else s)"

definition removal_outstanding :: "EntityId \<Rightarrow> 'f TrackingState \<Rightarrow> bool" where
  "removal_outstanding i st \<longleftrightarrow>
     views st i = None \<and> (player_chunks (player_area_map (tracking st)) i \<noteq> None \<or> clients st i \<noteq> {})"

inductive track_reachable :: "'f f32_arith \<Rightarrow> (EntityId \<Rightarrow> Uuid) \<Rightarrow> 'f TrackingState \<Rightarrow> bool" for F U where
  track_start: "coord_reachable c b \<Longrightarrow> players c = Map.empty \<Longrightarrow>
    track_reachable F U \<lparr>tracking = \<lparr>scheduling = c, player_area_map = area_new\<rparr>, sched_pass = b, tracked = (\<lambda>_. new_player F),
      flights = (\<lambda>_. None), clients = (\<lambda>_. {}), conn_closed = (\<lambda>_. False), overtaken = {}\<rparr>"
| track_update: "track_reachable F U st \<Longrightarrow> view_ok (view_new pos vd) \<Longrightarrow>
    update_player_status i (U i) pos vd (conn_closed st i) (tracking st, tracked st i) = Some (pk, w, p) \<Longrightarrow>
    track_reachable F U (put_player i p pk
      (st\<lparr>tracking := w, overtaken := note_overtaken (removal_outstanding i st) i (overtaken st)\<rparr>))"
| track_detach: "track_reachable F U st \<Longrightarrow> chunk_map_remove_player (U i) (tracking st, tracked st i) = Some (w, p) \<Longrightarrow>
    track_reachable F U (put_player i p [] (st\<lparr>tracking := w\<rparr>))"
| track_unindex: "track_reachable F U st \<Longrightarrow>
    track_reachable F U (st\<lparr>tracking := (tracking st)\<lparr>player_area_map := remove_by_entity_id i (player_area_map (tracking st))\<rparr>,
      overtaken := note_overtaken (views st i \<noteq> None) i (overtaken st)\<rparr>)"
| track_forget: "track_reachable F U st \<Longrightarrow>
    track_reachable F U (st\<lparr>clients := (clients st)(i := {}), overtaken := note_overtaken (views st i \<noteq> None) i (overtaken st)\<rparr>)"
| track_fresh: "track_reachable F U st \<Longrightarrow> views st i = None \<Longrightarrow>
    track_reachable F U (put_player i (new_player F) [] (st\<lparr>flights := (flights st)(i := None)\<rparr>))"
| track_prepare: "track_reachable F U st \<Longrightarrow> flights st i = None \<Longrightarrow>
    prepare_batch F chunks state sky pos (chunk_send_epoch (tracked st i)) (chunk_sender (tracked st i)) = (bo, s) \<Longrightarrow>
    track_reachable F U (put_player i ((tracked st i)\<lparr>chunk_sender := s\<rparr>) [] (st\<lparr>flights := (flights st)(i := bo)\<rparr>))"
| track_commit: "track_reachable F U st \<Longrightarrow> flights st i = Some b \<Longrightarrow>
    commit_batch F now (chunk_send_epoch (tracked st i)) b es (chunk_sender (tracked st i)) = (sent, pk, s) \<Longrightarrow>
    track_reachable F U (put_player i ((tracked st i)\<lparr>chunk_sender := s\<rparr>) pk (st\<lparr>flights := (flights st)(i := None)\<rparr>))"
| track_discard: "track_reachable F U st \<Longrightarrow> track_reachable F U (st\<lparr>flights := (flights st)(i := None)\<rparr>)"
| track_feedback: "track_reachable F U st \<Longrightarrow> on_chunk_batch_received_by_client d (chunk_sender (tracked st i)) = (ok, s) \<Longrightarrow>
    track_reachable F U (put_player i ((tracked st i)\<lparr>chunk_sender := s\<rparr>) [] st)"
| track_close: "track_reachable F U st \<Longrightarrow> track_reachable F U (st\<lparr>conn_closed := (conn_closed st)(i := True)\<rparr>)"
| track_schedule: "track_reachable F U st \<Longrightarrow> coord_reachable c b \<Longrightarrow> players c = players (scheduling (tracking st)) \<Longrightarrow>
    track_reachable F U (st\<lparr>tracking := (tracking st)\<lparr>scheduling := c\<rparr>, sched_pass := b\<rparr>)"

definition view_chunks :: "'f TrackedPlayer \<Rightarrow> ChunkPos set" where
  "view_chunks p = (case last_tracking_view p of None \<Rightarrow> {} | Some v \<Rightarrow> view_set v)"

text \<open>The client is known to hold what was sent while the player has a view, the connection is open
  and no removal was overtaken; \<open>lost\<close> says that one of the latter fails.\<close>

definition player_ok :: "bool \<Rightarrow> bool \<Rightarrow> ChunkPos set \<Rightarrow> 'f TrackedPlayer \<Rightarrow> bool" where
  "player_ok flight lost client p \<longleftrightarrow>
     books (view_chunks p) (chunk_sender p) \<and> pacing_inv (pacing (chunk_sender p)) \<and>
     (\<not> lost \<longrightarrow> last_tracking_view p \<noteq> None \<longrightarrow> client = sent_chunks (chunk_sender p)) \<and>
     (\<forall>v. last_tracking_view p = Some v \<longrightarrow> view_ok v) \<and>
     (flight \<longrightarrow> unacknowledged_batches (pacing (chunk_sender p)) < max_unacknowledged_batches (pacing (chunk_sender p)))"

definition world_ok :: "(EntityId \<Rightarrow> Uuid) \<Rightarrow> EntityId set \<Rightarrow> SourceProjectionBatch option \<Rightarrow> (EntityId \<rightharpoonup> PlayerChunkView) \<Rightarrow> TrackingWorld \<Rightarrow> bool" where
  "world_ok U late b V w \<longleftrightarrow>
     coord_reachable (scheduling w) b \<and> area_ok (player_area_map w) \<and>
     (\<forall>i. i \<notin> late \<longrightarrow> entry_ok (V i) i (player_area_map w)) \<and>
     (\<forall>i. players (scheduling w) (U i) = map_option view_center (V i))"

lemma world_okI:
  assumes "world_ok U late b V w" "coord_reachable (scheduling w') b"
    "players (scheduling w') = (players (scheduling w))(U i := map_option view_center vo)" "inj U"
    "area_ok (player_area_map w')" "i \<notin> late' \<Longrightarrow> entry_ok vo i (player_area_map w')"
    "\<And>j. j \<noteq> i \<Longrightarrow> entry_ok (V j) j (player_area_map w') = entry_ok (V j) j (player_area_map w)" "late \<subseteq> late'"
  shows "world_ok U late' b (V(i := vo)) w'"
  using assms by (auto simp: world_ok_def inj_eq)

definition lost_client :: "'f TrackingState \<Rightarrow> EntityId \<Rightarrow> bool" where
  "lost_client st i \<longleftrightarrow> conn_closed st i \<or> i \<in> overtaken st"

definition track_inv :: "(EntityId \<Rightarrow> Uuid) \<Rightarrow> 'f TrackingState \<Rightarrow> bool" where
  "track_inv U st \<longleftrightarrow>
     world_ok U (overtaken st) (sched_pass st) (views st) (tracking st) \<and>
     (\<forall>i. player_ok (flights st i \<noteq> None) (lost_client st i) (clients st i) (tracked st i))"

lemma track_inv_playerD:
  "track_inv U st \<Longrightarrow> player_ok (flights st i \<noteq> None) (lost_client st i) (clients st i) (tracked st i)"
  by (simp add: track_inv_def)

lemma note_overtaken_mono: "s \<subseteq> note_overtaken late i s"
  by (auto simp: note_overtaken_def)

lemma change_view_ok:
  fixes pk :: "EncodedPacket ClientPacket list"
  assumes inj: "inj U" and w: "world_ok U late b V w" and old: "V i = Some old" "view_ok old" "view_ok new" and s: "books (view_set old) s"
    and ch: "change_view i (U i) closed old new (w, s) = Some (pk, w', s')"
  shows "world_ok U late b (V(i \<mapsto> new)) w' \<and> books (view_set new) s' \<and> pacing s' = pacing s \<and>
    (\<not> closed \<longrightarrow> fold apply_packet pk (sent_chunks s) = sent_chunks s')"
proof -
  have r: "coord_reachable (scheduling w) b" "area_ok (player_area_map w)" "i \<notin> late \<Longrightarrow> entry_ok (Some old) i (player_area_map w)"
      "\<And>j. players (scheduling w) (U j) = map_option view_center (V j)"
    using w old(1) by (auto simp: world_ok_def)
  obtain pk0 c where q: "(if view_center old \<noteq> view_center new
        then map_option (\<lambda>(_, c). ([SetChunkCenter (chunk_x (view_center new)) (chunk_z (view_center new))], c))
               (queue_player_ticket_operations [RemovePlayer (view_center old) (U i), AddPlayer (view_center new) (U i)] (scheduling w))
        else Some ([], scheduling w)) = Some (pk0 :: EncodedPacket ClientPacket list, c)"
      "fold (apply_view_event closed) (view_difference old new) (pk0, s) = (pk, s')"
      "w' = w\<lparr>scheduling := c, player_area_map := on_player_view_change i (added_chunks (view_difference old new))
        (removed_chunks (view_difference old new)) (player_area_map w)\<rparr>"
    using ch unfolding change_view_def by (auto simp: Let_def split: option.splits prod.splits)
  have c: "coord_reachable c b \<and> players c = (players (scheduling w))(U i \<mapsto> view_center new) \<and> fold apply_packet pk0 cl = cl" for cl
  proof (cases "view_center old = view_center new")
    case True
    then show ?thesis using q(1) r(1) r(4) [of i] old(1) by (auto simp: fun_upd_idem)
  next
    case False
    then obtain x where x: "queue_player_ticket_operations [RemovePlayer (view_center old) (U i), AddPlayer (view_center new) (U i)] (scheduling w) = Some (x, c)"
        "pk0 = [SetChunkCenter (chunk_x (view_center new)) (chunk_z (view_center new))]" using q(1) by auto
    show ?thesis using coord_players [OF r(1) x(1)] queue_players_ok [OF coord_reachable_inv [OF r(1)] x(1)] r(4) [of i] old(1) x(2) by simp
  qed
  have "world_ok U late b (V(i \<mapsto> new)) w'"
    by (rule world_okI [OF w]) (use c inj r entry_ok_change [OF _ old(2,3)] in \<open>simp_all add: q(3) change_index(1) entry_ok_change_other\<close>)
  then show ?thesis using change_view_books [OF s old(2,3) q(2), of "sent_chunks s"] c by blast
qed

lemma first_view_ok:
  fixes pk :: "EncodedPacket ClientPacket list"
  assumes inj: "inj U" and w: "world_ok U late b V w" and none: "V i = None" and new: "view_ok new" and s: "books {} s"
    and late: "late \<subseteq> late'" "i \<notin> late' \<Longrightarrow> player_chunks (player_area_map w) i = None"
    and ch: "first_view i (U i) new (w, s) = Some (pk, w', s')"
  shows "world_ok U late' b (V(i \<mapsto> new)) w' \<and> books (view_set new) s' \<and> pacing s' = pacing s \<and>
    fold apply_packet pk (sent_chunks s) = sent_chunks s'"
proof -
  have r: "coord_reachable (scheduling w) b" "area_ok (player_area_map w)" "i \<notin> late' \<Longrightarrow> entry_ok None i (player_area_map w)"
      "\<And>j. players (scheduling w) (U j) = map_option view_center (V j)"
    using w none late(1) by (auto simp: world_ok_def)
  obtain x c where q: "queue_player_ticket_operation (AddPlayer (view_center new) (U i)) (scheduling w) = Some (x, c)"
      "pk = [SetChunkCenter (chunk_x (view_center new)) (chunk_z (view_center new))]"
      "w' = w\<lparr>scheduling := c, player_area_map := on_player_join i new (player_area_map w)\<rparr>"
      "s' = fold mark_chunk_pending_to_send (view_for_each new) s"
    using ch unfolding first_view_def by (auto split: option.splits)
  have "world_ok U late' b (V(i \<mapsto> new)) w'"
    by (rule world_okI [OF w])
      (use coord_player [OF r(1) q(1)] queue_player_players [OF coord_reachable_inv [OF r(1)] q(1)] entry_ok_join [OF r(3) late(2) new] r(2) inj late
        in \<open>simp_all add: q(3) join_index(1) entry_ok_join_other\<close>)
  then show ?thesis using first_view_books [OF s new] q(2,4) by simp
qed


lemma update_player_status_ok:
  fixes pk :: "EncodedPacket ClientPacket list"
  assumes inj: "inj U" and w: "world_ok U late b V w" and V: "V i = last_tracking_view p" and new: "view_ok (view_new pos vd)"
    and p: "player_ok fl lost client p" and late: "late \<subseteq> late'" "closed \<Longrightarrow> lost'" "lost \<Longrightarrow> lost'"
    and out: "last_tracking_view p = None \<Longrightarrow> i \<notin> late' \<Longrightarrow> player_chunks (player_area_map w) i = None"
      "last_tracking_view p = None \<Longrightarrow> \<not> lost' \<Longrightarrow> client = {}"
    and up: "update_player_status i (U i) pos vd closed (w, p) = Some (pk, w', p')"
  shows "world_ok U late' b (V(i := last_tracking_view p')) w' \<and> player_ok fl lost' (fold apply_packet pk client) p'"
proof -
  have po: "books (view_chunks p) (chunk_sender p)" "pacing_inv (pacing (chunk_sender p))"
      "\<And>v. last_tracking_view p = Some v \<Longrightarrow> view_ok v"
      "fl \<Longrightarrow> unacknowledged_batches (pacing (chunk_sender p)) < max_unacknowledged_batches (pacing (chunk_sender p))"
    using p by (auto simp: player_ok_def)
  have "sent_chunks (chunk_sender p) = {}" if "last_tracking_view p = None"
    using po(1) that by (simp add: view_chunks_def books_def)
  then have cl: "client = sent_chunks (chunk_sender p)" if "\<not> lost'" using that p out(2) late(3) by (cases "last_tracking_view p") (auto simp: player_ok_def)
  have mono: "world_ok U late' b V' w''" if "world_ok U late b V' w''" for V' w'' using that late(1) by (auto simp: world_ok_def)
  show ?thesis
  proof (cases "last_tracking_view p = Some (view_new pos vd)")
    case True
    then have "pk = []" "w' = w" "p' = p\<lparr>last_chunk_pos := pos\<rparr>" using up by (simp_all add: update_player_status_def)
    then show ?thesis using mono [OF w] V p cl True by (auto simp: fun_upd_idem player_ok_def view_chunks_def)
  next
    case False
    then obtain s where s: "(case last_tracking_view p of Some old \<Rightarrow> change_view i (U i) closed old (view_new pos vd) (w, chunk_sender p)
          | None \<Rightarrow> first_view i (U i) (view_new pos vd) (w, chunk_sender p)) = Some (pk, w', s)"
        "p' = p\<lparr>last_chunk_pos := pos, chunk_sender := s, last_tracking_view := Some (view_new pos vd)\<rparr>"
      using up by (cases "last_tracking_view p") (auto simp: update_player_status_def Let_def)
    have "world_ok U late' b (V(i \<mapsto> view_new pos vd)) w' \<and> books (view_set (view_new pos vd)) s \<and> pacing s = pacing (chunk_sender p) \<and>
        (\<not> closed \<longrightarrow> fold apply_packet pk (sent_chunks (chunk_sender p)) = sent_chunks s)"
    proof (cases "last_tracking_view p")
      case None
      then have "books {} (chunk_sender p)" "V i = None" using po(1) V by (simp_all add: view_chunks_def)
      then show ?thesis using first_view_ok [OF inj w _ new, of i "chunk_sender p" late' pk w' s] s(1) None late(1) out(1) by simp
    next
      case (Some old)
      then have "books (view_set old) (chunk_sender p)" "V i = Some old" using po(1) V by (simp_all add: view_chunks_def)
      then show ?thesis using change_view_ok [OF inj w _ po(3) [OF Some] new, of i "chunk_sender p" closed pk w' s] s(1) Some
          mono [of "V(i \<mapsto> view_new pos vd)" w'] by simp
    qed
    then show ?thesis using po new cl late(2) by (auto simp: s(2) player_ok_def view_chunks_def)
  qed
qed

lemma remove_player_ok_world:
  assumes inj: "inj U" and w: "world_ok U late b V w" and V: "V i = last_tracking_view p" and p: "player_ok fl lost client p"
    and rm: "chunk_map_remove_player (U i) (w, p) = Some (w', p')"
  shows "world_ok U late b (V(i := last_tracking_view p')) w' \<and> player_ok fl lost client p'"
proof -
  have r: "coord_reachable (scheduling w) b" "area_ok (player_area_map w)" "i \<notin> late \<Longrightarrow> entry_ok (V i) i (player_area_map w)"
      "\<And>j. players (scheduling w) (U j) = map_option view_center (V j)"
    using w by (auto simp: world_ok_def)
  have p': "p' = p\<lparr>last_tracking_view := None, chunk_send_epoch := chunk_send_epoch p + 1,
      chunk_sender := clear_world_chunks (chunk_sender p), last_chunk_pos := ChunkPos 0x7FFFFFFF 0x7FFFFFFF\<rparr>"
    using rm by (auto simp: chunk_map_remove_player_def Let_def split: option.splits)
  have c: "coord_reachable (scheduling w') b \<and> player_area_map w' = player_area_map w \<and>
      players (scheduling w') = (players (scheduling w))(U i := None)"
  proof (cases "last_tracking_view p")
    case None
    then show ?thesis using rm r(1) r(4) [of i] V by (auto simp: chunk_map_remove_player_def Let_def fun_upd_idem)
  next
    case (Some v)
    then obtain x c where q: "queue_player_ticket_operation (RemovePlayer (view_center v) (U i)) (scheduling w) = Some (x, c)" "w' = w\<lparr>scheduling := c\<rparr>"
      using rm by (auto simp: chunk_map_remove_player_def Let_def)
    show ?thesis using coord_player [OF r(1) q(1)] queue_player_players [OF coord_reachable_inv [OF r(1)] q(1)] r(4) [of i] Some V
      by (simp add: q(2))
  qed
  have "world_ok U late b (V(i := None)) w'"
    by (rule world_okI [OF w]) (use c r inj entry_ok_detach in auto)
  then show ?thesis using p books_clear [of "chunk_sender p"] by (simp add: p' player_ok_def view_chunks_def)
qed

lemma player_ok_sender:
  assumes "player_ok fl lost client p" "books (view_chunks p) s" "pacing_inv (pacing s)"
    "\<not> lost \<Longrightarrow> last_tracking_view p \<noteq> None \<Longrightarrow> client' = sent_chunks s"
    "fl' \<Longrightarrow> unacknowledged_batches (pacing s) < max_unacknowledged_batches (pacing s)"
  shows "player_ok fl' lost client' (p\<lparr>chunk_sender := s\<rparr>)"
  using assms by (simp add: player_ok_def view_chunks_def)

lemma prepare_ok:
  assumes p: "player_ok fl lost client p" and b: "prepare_batch F chunks state sky pos epoch (chunk_sender p) = (bo, s)"
  shows "player_ok (bo \<noteq> None) lost client (p\<lparr>chunk_sender := s\<rparr>)"
proof -
  obtain r pc where r: "begin_prepare F (pacing (chunk_sender p)) = (r, pc)" by fastforce
  have s: "s = (chunk_sender p)\<lparr>pacing := pc\<rparr>" "bo \<noteq> None \<Longrightarrow> r \<noteq> None"
    using b by (auto simp: prepare_batch_def r Let_def split: option.splits if_splits)
  have "pacing_inv (pacing (chunk_sender p))" using p by (simp add: player_ok_def)
  from begin_prepare_inv [OF this r] s(2) show ?thesis using p by (intro player_ok_sender [OF p]) (auto simp: s(1) player_ok_def books_def)
qed

lemma commit_ok:
  assumes p: "player_ok True lost client p" and c: "commit_batch F now epoch b es (chunk_sender p) = (sent, pk, s)"
  shows "player_ok False lost (fold apply_packet pk client) (p\<lparr>chunk_sender := s\<rparr>)"
proof -
  have po: "books (view_chunks p) (chunk_sender p)" "pacing_inv (pacing (chunk_sender p))"
      "\<not> lost \<Longrightarrow> last_tracking_view p \<noteq> None \<Longrightarrow> client = sent_chunks (chunk_sender p)"
      "unacknowledged_batches (pacing (chunk_sender p)) < max_unacknowledged_batches (pacing (chunk_sender p))"
    using p by (auto simp: player_ok_def)
  from books_commit [OF po(1) c] show ?thesis using po pacing_commit_inv [OF po(2,4)]
    by (intro player_ok_sender [OF p]) auto
qed

lemma feedback_ok:
  assumes p: "player_ok fl lost client p" and f: "on_chunk_batch_received_by_client d (chunk_sender p) = (ok, s)"
  shows "player_ok fl lost client (p\<lparr>chunk_sender := s\<rparr>)"
proof -
  obtain r pc where r: "record_feedback d (pacing (chunk_sender p)) = (r, pc)" by fastforce
  have s: "s = (chunk_sender p)\<lparr>pacing := pc\<rparr>" using f by (simp add: on_chunk_batch_received_by_client_def r)
  have "pacing_inv (pacing (chunk_sender p))" using p by (simp add: player_ok_def)
  from record_feedback_inv [OF this r] show ?thesis using p by (intro player_ok_sender [OF p]) (auto simp: s player_ok_def books_def)
qed

lemma new_player_ok: "player_ok False lost client (new_player F)"
  using pacing_default_inv [of F] by (simp add: player_ok_def new_player_def sender_default_def view_chunks_def books_def)

text \<open>A step that gives player \<open>i\<close> the record \<open>p\<close>, and only adds to the overtaken players.\<close>

lemma track_inv_put:
  assumes inv: "track_inv U st" and w: "world_ok U late' (sched_pass st) ((views st)(i := last_tracking_view p)) w'"
    and late: "late' = note_overtaken late i (overtaken st)"
    and p: "player_ok (fl \<noteq> None) (conn_closed st i \<or> i \<in> late') (fold apply_packet pk (clients st i)) p"
  shows "track_inv U (put_player i p pk (st\<lparr>tracking := w', flights := (flights st)(i := fl), overtaken := late'\<rparr>))"
    (is "track_inv U ?st")
proof -
  have "views ?st = (views st)(i := last_tracking_view p)" by (rule ext) (simp add: put_player_def)
  moreover have "player_ok (flights ?st j \<noteq> None) (lost_client ?st j) (clients ?st j) (tracked ?st j)" for j
  proof (cases "j = i")
    case False
    then show ?thesis using inv late by (simp add: track_inv_def put_player_def lost_client_def note_overtaken_def)
  qed (use p in \<open>simp add: put_player_def lost_client_def\<close>)
  ultimately show ?thesis using w by (simp add: track_inv_def put_player_def)
qed

lemma track_inv_player:
  assumes inv: "track_inv U st" and "last_tracking_view p = views st i"
    and p: "player_ok (fl \<noteq> None) (lost_client st i) (fold apply_packet pk (clients st i)) p"
  shows "track_inv U (put_player i p pk (st\<lparr>flights := (flights st)(i := fl)\<rparr>))"
  using track_inv_put [OF inv, of "overtaken st" i p "tracking st" False fl pk] assms
  by (simp add: track_inv_def lost_client_def note_overtaken_def fun_upd_idem put_player_def)

lemma player_ok_lost: "player_ok fl lost client p \<Longrightarrow> (lost \<Longrightarrow> lost') \<Longrightarrow> player_ok fl lost' client p"
  by (auto simp: player_ok_def)

lemma track_inv_update:
  assumes inj: "inj U" and inv: "track_inv U st" and v: "view_ok (view_new pos vd)"
    and up: "update_player_status i (U i) pos vd (conn_closed st i) (tracking st, tracked st i) = Some (pk, w, p)"
  shows "track_inv U (put_player i p pk
      (st\<lparr>tracking := w, overtaken := note_overtaken (removal_outstanding i st) i (overtaken st)\<rparr>))"
proof -
  let ?late = "note_overtaken (removal_outstanding i st) i (overtaken st)"
  from inv have w: "world_ok U (overtaken st) (sched_pass st) (views st) (tracking st)"
    and p: "player_ok (flights st i \<noteq> None) (lost_client st i) (clients st i) (tracked st i)" by (simp_all add: track_inv_def)
  have "world_ok U ?late (sched_pass st) ((views st)(i := last_tracking_view p)) w \<and>
      player_ok (flights st i \<noteq> None) (conn_closed st i \<or> i \<in> ?late) (fold apply_packet pk (clients st i)) p"
    by (rule update_player_status_ok [OF inj w refl v p note_overtaken_mono _ _ _ _ up])
      (auto simp: note_overtaken_def removal_outstanding_def lost_client_def split: if_splits)
  then show ?thesis using track_inv_put [OF inv _ refl, of "removal_outstanding i st" i p w "flights st i" pk]
    by (simp add: fun_upd_idem)
qed

lemma track_inv_unindex:
  assumes inv: "track_inv U st"
  shows "track_inv U (st\<lparr>tracking := (tracking st)\<lparr>player_area_map := remove_by_entity_id i (player_area_map (tracking st))\<rparr>,
      overtaken := note_overtaken (views st i \<noteq> None) i (overtaken st)\<rparr>)" (is "track_inv U ?st")
proof -
  let ?m = "player_area_map (tracking st)" and ?late = "note_overtaken (views st i \<noteq> None) i (overtaken st)"
  have r: "area_ok ?m" "\<And>j. j \<notin> overtaken st \<Longrightarrow> entry_ok (views st j) j ?m" using inv by (auto simp: track_inv_def world_ok_def)
  have "entry_ok (views st j) j (remove_by_entity_id i ?m)" if "j \<notin> ?late" for j
    using r(2) [of j] entry_ok_leave(1) [of "views st i" i ?m] entry_ok_leave_other [of j i] that
    by (cases "j = i") (auto simp: note_overtaken_def split: if_splits)
  then have "world_ok U ?late (sched_pass st) (views st) (tracking ?st)"
    using inv r(1) by (auto simp: track_inv_def world_ok_def leave_index(1))
  moreover have "player_ok (flights st j \<noteq> None) (lost_client ?st j) (clients st j) (tracked st j)" for j
    by (rule player_ok_lost [of _ "lost_client st j"]) (use inv in \<open>auto simp: track_inv_def lost_client_def note_overtaken_def\<close>)
  ultimately show ?thesis by (simp add: track_inv_def)
qed

lemma track_inv_forget:
  assumes inv: "track_inv U st"
  shows "track_inv U (st\<lparr>clients := (clients st)(i := {}), overtaken := note_overtaken (views st i \<noteq> None) i (overtaken st)\<rparr>)"
    (is "track_inv U ?st")
proof -
  have "player_ok (flights st j \<noteq> None) (lost_client ?st j) (clients ?st j) (tracked st j)" for j
  proof -
    have "player_ok (flights st j \<noteq> None) (lost_client st j) (clients st j) (tracked st j)" using inv by (simp add: track_inv_def)
    then show ?thesis by (cases "j = i") (auto simp: player_ok_def lost_client_def note_overtaken_def)
  qed
  moreover have "world_ok U (overtaken ?st) (sched_pass st) (views st) (tracking st)"
    using inv by (auto simp: track_inv_def world_ok_def note_overtaken_def)
  ultimately show ?thesis by (simp add: track_inv_def)
qed

lemma track_inv_detach:
  assumes inj: "inj U" and inv: "track_inv U st" and rm: "chunk_map_remove_player (U i) (tracking st, tracked st i) = Some (w, p)"
  shows "track_inv U (put_player i p [] (st\<lparr>tracking := w\<rparr>))"
proof -
  have w: "world_ok U (overtaken st) (sched_pass st) (views st) (tracking st)"
    and p: "player_ok (flights st i \<noteq> None) (lost_client st i) (clients st i) (tracked st i)"
    using inv by (simp_all add: track_inv_def)
  note ok = remove_player_ok_world [OF inj w refl p rm]
  have "track_inv U (put_player i p [] (st\<lparr>tracking := w, flights := (flights st)(i := flights st i), overtaken := overtaken st\<rparr>))"
    by (rule track_inv_put [OF inv, where late = False]) (use ok in \<open>simp_all add: note_overtaken_def lost_client_def\<close>)
  then show ?thesis by (simp add: fun_upd_idem)
qed

lemma track_reachable_inv: "track_reachable F U st \<Longrightarrow> inj U \<Longrightarrow> track_inv U st"
proof (induction rule: track_reachable.induct)
  case (track_start c b)
  then show ?case using entry_ok_new new_player_ok by (simp add: track_inv_def world_ok_def lost_client_def new_player_def)
next
  case (track_update st pos vd i pk w p)
  then show ?case using track_inv_update by blast
next
  case (track_detach st i w p)
  then show ?case using track_inv_detach by blast
next
  case (track_unindex st i)
  then show ?case using track_inv_unindex by blast
next
  case (track_forget st i)
  then show ?case using track_inv_forget by blast
next
  case (track_fresh st i)
  have "track_inv U st" "last_tracking_view (new_player F) = views st i" using track_fresh by (simp_all add: new_player_def)
  then show ?case by (rule track_inv_player) (use new_player_ok in auto)
next
  case (track_prepare st i chunks state sky pos bo s)
  then have "player_ok (flights st i \<noteq> None) (lost_client st i) (clients st i) (tracked st i)" using track_inv_playerD by blast
  from track_prepare prepare_ok [OF this track_prepare.hyps(3)] show ?case by (intro track_inv_player) simp_all
next
  case (track_commit st i b now es sent pk s)
  then have "player_ok (flights st i \<noteq> None) (lost_client st i) (clients st i) (tracked st i)" using track_inv_playerD by blast
  then have "player_ok True (lost_client st i) (clients st i) (tracked st i)" using track_commit.hyps(2) by simp
  from track_commit commit_ok [OF this track_commit.hyps(3)] show ?case by (intro track_inv_player) simp_all
next
  case (track_discard st i)
  then show ?case by (auto simp: track_inv_def player_ok_def lost_client_def)
next
  case (track_feedback st d i ok s)
  then have "player_ok (flights st i \<noteq> None) (lost_client st i) (clients st i) (tracked st i)" using track_inv_playerD by blast
  from track_feedback feedback_ok [OF this track_feedback.hyps(2)] show ?case
    using track_inv_player [of U st "(tracked st i)\<lparr>chunk_sender := s\<rparr>" i "flights st i" "[]"] by (simp add: fun_upd_idem)
next
  case (track_close st i)
  then show ?case by (auto simp: track_inv_def player_ok_def lost_client_def)
next
  case (track_schedule st c b)
  then show ?case by (simp add: track_inv_def world_ok_def lost_client_def)
qed


section \<open>Around a player\<close>

lemma chebyshev_rim:
  assumes "chebyshev c p \<le> d + 1" shows "\<exists>q. chebyshev c q \<le> d \<and> chebyshev p q \<le> 1"
proof (cases "chebyshev c p \<le> d")
  case True
  then show ?thesis by (intro exI [of _ p]) (simp add: chebyshev_0_iff [THEN iffD2])
next
  case False
  then have "p \<noteq> c" by (auto simp: chebyshev_0_iff [THEN iffD2])
  then obtain n where n: "n \<in> set (neighbors p)" "chebyshev p c = Suc (chebyshev n c)" using chebyshev_closer by blast
  have "chebyshev p n \<le> chebyshev n n + 1" by (rule chebyshev_neighbor [OF n(1)])
  then have "chebyshev p n \<le> 1" by (simp add: chebyshev_0_iff [THEN iffD2])
  moreover have "chebyshev c n \<le> d" using assms n(2) chebyshev_sym [of c p] chebyshev_sym [of c n] by simp
  ultimately show ?thesis by blast
qed

lemma pass_near_player:
  assumes "coord_reachable c None" "players c u = Some cp" "vd \<le> 255" "chebyshev cp q \<le> vd" "chebyshev p q \<le> 1"
  shows "\<exists>batch c'. coordinator_run_all_updates vd sd c = Some (batch, c') \<and> is_block_ticking (get_level (load_tracker c') p)"
proof -
  from coordinator_run_ok [OF coord_reachable_inv [OF assms(1)] assms(3), of sd] obtain batch c' where
    run: "coordinator_run_all_updates vd sd c = Some (batch, c')" "coord_inv c' None" "players c' = players c"
      "view_distance (player_tickets (ticket_ingress c')) = vd"
    and lev: "\<And>p l. get_level (load_tracker c') p = Some l \<longleftrightarrow> ticket_level_at MAX_LEVEL_RAW loads (storage (ticket_ingress c')) p l"
    by blast
  have pi: "player_inv (player_tickets (ticket_ingress c')) (storage (ticket_ingress c'))" using run(2) by (simp add: coord_inv_def ing_inv_def)
  have "entry_at (storage (ticket_ingress c')) (q, PLAYER_LOADING, ENTITY_TICKING_CHUNK) \<noteq> None"
    unfolding player_inv_tickets(1) [OF pi] run(3,4) using assms(2,4) by blast
  from ticket_level_exists [OF this, of loads p MAX_LEVEL_RAW] assms(5) obtain l where
    "ticket_level_at MAX_LEVEL_RAW loads (storage (ticket_ingress c')) p l" "l \<le> ENTITY_TICKING_CHUNK + 1"
    by (fastforce simp: player_domains level_constants)
  then have "is_block_ticking (get_level (load_tracker c') p)"
    using lev [of p l] by (simp add: is_block_ticking_def level_is_block_ticking_def level_constants)
  then show ?thesis using run(1) by blast
qed

section \<open>Properties\<close>

text \<open>One player who has just joined.\<close>

definition demo_track_start :: "nat TrackingState" where
  "demo_track_start = \<lparr>tracking = \<lparr>scheduling = demo_coordinator, player_area_map = area_new\<rparr>, sched_pass = None,
     tracked = (\<lambda>_. new_player demo_f32), flights = (\<lambda>_. None), clients = (\<lambda>_. {}), conn_closed = (\<lambda>_. False), overtaken = {}\<rparr>"

definition demo_view :: PlayerChunkView where
  "demo_view = view_new (ChunkPos 7 0) 2"

definition demo_track :: "nat TrackingState" where
  "demo_track = (case update_player_status 1 (unat (1 :: i32)) (ChunkPos 7 0) 2 False (tracking demo_track_start, tracked demo_track_start 1) of
     None \<Rightarrow> demo_track_start | Some (pk, w, p) \<Rightarrow> put_player 1 p pk (demo_track_start\<lparr>tracking := w\<rparr>))"

lemma demo_not_outstanding: "\<not> removal_outstanding 1 demo_track_start"
  by (simp add: removal_outstanding_def demo_track_start_def area_new_def)

lemma demo_view_ok: "view_ok demo_view"
  by (simp add: demo_view_def view_ok_def view_new_def)

lemma demo_view_contains: "view_contains demo_view (ChunkPos 7 0)" "view_contains demo_view (ChunkPos 10 2)" "\<not> view_contains demo_view (ChunkPos 11 0)"
  by (simp_all add: demo_view_def view_contains_def view_new_def is_within_distance_def beyond_buffer_def Let_def i32_abs_def)

lemma inj_unat: "inj (unat :: i32 \<Rightarrow> nat)"
  by (simp add: inj_def word_unat_eq_iff)

lemma demo_track_ok: "track_reachable demo_f32 unat demo_track" "views demo_track 1 = Some demo_view" "overtaken demo_track = {}"
proof -
  have e: "players demo_coordinator = Map.empty" "latest_receipt (ticket_ingress demo_coordinator) \<noteq> - 1"
    by (simp_all add: demo_new(2) ingress_new_def receipt_INITIAL_def player_tracker_new_def)
  have s: "track_reachable demo_f32 unat demo_track_start"
    unfolding demo_track_start_def by (rule track_start [OF demo_coordinator_reachable e(1)])
  obtain r c where q: "queue_player_ticket_operation (AddPlayer (ChunkPos 7 0) (unat (1 :: i32))) demo_coordinator = Some (r, c)"
    using queue_player_ok [OF coord_reachable_inv [OF demo_coordinator_reachable], of "AddPlayer (ChunkPos 7 0) (unat (1 :: i32))"] e(2)
    by (auto split: option.splits)
  then obtain pk w p where u: "update_player_status 1 (unat (1 :: i32)) (ChunkPos 7 0) 2 False
      (tracking demo_track_start, tracked demo_track_start 1) = Some (pk :: EncodedPacket ClientPacket list, w, p)" "last_tracking_view p = Some demo_view"
    by (simp add: update_player_status_def demo_track_start_def new_player_def first_view_def Let_def view_new_def demo_view_def)
  have t: "demo_track = put_player 1 p pk (demo_track_start\<lparr>tracking := w,
      overtaken := note_overtaken (removal_outstanding 1 demo_track_start) 1 (overtaken demo_track_start)\<rparr>)"
    using u(1) demo_not_outstanding by (simp add: demo_track_def note_overtaken_def)
  have cl: "conn_closed demo_track_start 1 = False" by (simp add: demo_track_start_def)
  show "track_reachable demo_f32 unat demo_track" unfolding t
    by (rule track_update [OF s, of "ChunkPos 7 0" 2]) (use u(1) demo_view_ok in \<open>simp_all add: cl demo_view_def\<close>)
  show "views demo_track 1 = Some demo_view" by (simp add: t put_player_def u(2))
  show "overtaken demo_track = {}" using demo_not_outstanding
    by (simp add: t put_player_def note_overtaken_def) (simp add: demo_track_start_def)
qed




text \<open>C14: What a player is to be shown gets loaded: after the next scheduling pass with a view distance
  of at least the player's own, every chunk of the player's view, the rim one chunk beyond the view
  distance included, has a block ticking load level, as sending it requires.\<close>

theorem viewed_chunks_become_sendable:
  assumes "track_reachable F U st" "inj U" "sched_pass st = None" "views st i = Some v" "view_radius v \<le> vd" "vd \<le> 255" "view_contains v p"
  shows "\<exists>batch c. coordinator_run_all_updates vd sd (scheduling (tracking st)) = Some (batch, c) \<and> is_block_ticking (get_level (load_tracker c) p)"
proof -
  have inv: "track_inv U st" using assms(1,2) by (rule track_reachable_inv)
  have r: "coord_reachable (scheduling (tracking st)) None" "players (scheduling (tracking st)) (U i) = Some (view_center v)"
    using inv assms(3,4) by (simp_all add: track_inv_def world_ok_def)
  have "chebyshev (view_center v) p \<le> vd + 1"
    using view_contains_chebyshev [OF _ assms(7)] assms(5,6) by simp
  then obtain q where "chebyshev (view_center v) q \<le> vd" "chebyshev p q \<le> 1" using chebyshev_rim by blast
  then show ?thesis using pass_near_player [OF r assms(6)] by blast
qed

theorem viewed_chunks_become_sendable_witness:
  "\<exists>batch c. coordinator_run_all_updates 2 4 (scheduling (tracking demo_track)) = Some (batch, c) \<and>
    is_block_ticking (get_level (load_tracker c) (ChunkPos 10 2))"
proof -
  have "sched_pass demo_track = None"
    by (auto simp: demo_track_def demo_track_start_def put_player_def split: option.split prod.split)
  from viewed_chunks_become_sendable [OF demo_track_ok(1) inj_unat this demo_track_ok(2) _ _ demo_view_contains(2), of 2 4]
  show ?thesis by (simp add: demo_view_def view_new_def)
qed


text \<open>C27: Sending is paced by the client: at most as many batches are unacknowledged as the window
  allows, the window never exceeds ten, a batch in flight always has a place in it, and no more
  acknowledgements are accepted than batches are outstanding.\<close>

theorem batch_window_respected:
  assumes "track_reachable F U st" "inj U"
  shows "let p = pacing (chunk_sender (tracked st i)) in
    unacknowledged_batches p \<le> max_unacknowledged_batches p \<and> max_unacknowledged_batches p \<le> 10 \<and>
    length (accepted_feedback p) \<le> unacknowledged_batches p \<and>
    (flights st i = None \<or> unacknowledged_batches p < max_unacknowledged_batches p)"
proof -
  have "player_ok (flights st i \<noteq> None) (lost_client st i) (clients st i) (tracked st i)"
    using track_reachable_inv [OF assms] by (simp add: track_inv_def)
  then show ?thesis by (auto simp: player_ok_def pacing_inv_def MAX_UNACKNOWLEDGED_BATCHES_def Let_def)
qed

theorem batch_window_respected_witness:
  "unacknowledged_batches (pacing (chunk_sender (tracked demo_track 1))) \<le> 10"
  using batch_window_respected [OF demo_track_ok(1) inj_unat, of 1] by (simp add: Let_def)

end
