(* ===== verification/Wire.thy ===== *)
theory Wire
  imports Prelude
begin

text \<open>
  Wire primitives of \<open>steel-utils\<close>: the byte order conversions of the standard library, the
  integer readers and writers of \<open>serial/read.rs\<close> and \<open>serial/write.rs\<close>, and the
  front-reserving buffer of \<open>front_vec.rs\<close>. A cursor is the list of the bytes that are left to
  read; a reader returns the value and the rest, or an error. The locale \<open>wire_codec\<close> is the
  contract of a pair of a writer and a reader that the serial layer and the packet framing rest on.
\<close>

section \<open>Errors and readers\<close>

datatype ErrorKind = UnexpectedEof | InvalidData | InvalidInput | OtherKind

datatype IoError = IoError (error_kind: ErrorKind) (error_message: string)

type_synonym Cursor = "u8 list"
type_synonym 'a reading = "IoError + 'a \<times> Cursor"

definition error_other :: "string \<Rightarrow> IoError" where
  "error_other m = IoError OtherKind m"

definition eof :: IoError where
  "eof = IoError UnexpectedEof ''failed to fill whole buffer''"

text \<open>The question mark operator on a read: stop at an error, go on with the value and the rest.\<close>

fun read_then :: "'a reading \<Rightarrow> ('a \<Rightarrow> Cursor \<Rightarrow> 'b reading) \<Rightarrow> 'b reading" where
  "read_then (Inl e) f = Inl e"
| "read_then (Inr (x, rest)) f = f x rest"

definition read_exact :: "nat \<Rightarrow> Cursor \<Rightarrow> u8 list reading" where
  "read_exact n bs = (if n \<le> length bs then Inr (take n bs, drop n bs) else Inl eof)"

section \<open>Byte order\<close>

definition to_le_bytes :: "'a::len word \<Rightarrow> u8 list" where
  "to_le_bytes w = map (\<lambda>i. ucast (drop_bit (8 * i) w)) [0..<LENGTH('a) div 8]"

definition to_be_bytes :: "'a::len word \<Rightarrow> u8 list" where
  "to_be_bytes w = rev (to_le_bytes w)"

definition from_le_bytes :: "u8 list \<Rightarrow> 'a::len word" where
  "from_le_bytes bs = foldr (\<lambda>b w. or (ucast b) (push_bit 8 w)) bs 0"

definition from_be_bytes :: "u8 list \<Rightarrow> 'a::len word" where
  "from_be_bytes bs = from_le_bytes (rev bs)"

section \<open>Integers and booleans\<close>

text \<open>
  The impls for the eight integer types only differ in the width, which is the type of the word
  here. Floats travel as their bit patterns, through the integers of the same width.
\<close>

definition int_write :: "'a::len word \<Rightarrow> u8 list" where
  "int_write w = to_be_bytes w"

definition int_read :: "Cursor \<Rightarrow> 'a::len word reading" where
  "int_read bs = read_then (read_exact (LENGTH('a) div 8) bs) (\<lambda>buf rest. Inr (from_be_bytes buf, rest))"

definition bool_write :: "bool \<Rightarrow> u8 list" where
  "bool_write b = int_write (if b then 1 else 0 :: u8)"

definition bool_read :: "Cursor \<Rightarrow> bool reading" where
  "bool_read bs = read_then (int_read bs :: u8 reading) (\<lambda>b rest. Inr (b \<noteq> 0, rest))"

section \<open>The contract of a codec\<close>

text \<open>
  A reader gives back what its writer wrote and leaves the bytes behind it alone; and it decides
  on the bytes it consumes only, so more input never changes a successful read.
\<close>

definition local_read :: "(Cursor \<Rightarrow> 'a reading) \<Rightarrow> bool" where
  "local_read r \<longleftrightarrow> (\<forall>bs x rest. r bs = Inr (x, rest) \<longrightarrow>
     (\<exists>used. bs = used @ rest \<and> (\<forall>more. r (used @ more) = Inr (x, more))))"

locale wire_codec =
  fixes encode :: "'a \<Rightarrow> IoError + u8 list"
    and decode :: "Cursor \<Rightarrow> 'a reading"
    and valid :: "'a \<Rightarrow> bool"
  assumes round: "valid x \<Longrightarrow> encode x = Inr bs \<Longrightarrow> decode (bs @ rest) = Inr (x, rest)"
    and local: "local_read decode"
begin

lemma truncated_fails:
  assumes "valid x" "encode x = Inr (p @ q)" "q \<noteq> []"
  shows "\<exists>e. decode p = Inl e"
proof (cases "decode p")
  case (Inr a)
  obtain y r where "a = (y, r)" by (cases a)
  then obtain used where u: "p = used @ r" "\<forall>more. decode (used @ more) = Inr (y, more)"
    using Inr local unfolding local_read_def by blast
  have "decode (p @ q) = Inr (y, r @ q)" using u by simp
  moreover have "decode (p @ q) = Inr (x, [])" using round [OF assms(1,2), of "[]"] by simp
  ultimately show ?thesis using assms(3) by simp
qed blast

lemma encode_unique:
  assumes "valid x" "valid y" "encode x = Inr bs" "encode y = Inr (bs @ cs)"
  shows "x = y \<and> cs = []"
  using round [OF assms(1,3), of cs] round [OF assms(2,4), of "[]"] by simp

end

lemma local_readI:
  "(\<And>bs x rest. r bs = Inr (x, rest) \<Longrightarrow> \<exists>used. bs = used @ rest \<and> (\<forall>more. r (used @ more) = Inr (x, more)))
    \<Longrightarrow> local_read r"
  unfolding local_read_def by blast

lemma local_readD:
  "local_read r \<Longrightarrow> r bs = Inr (x, rest) \<Longrightarrow> \<exists>used. bs = used @ rest \<and> (\<forall>more. r (used @ more) = Inr (x, more))"
  unfolding local_read_def by blast

lemma read_then_Inr:
  "read_then r f = Inr (y, rest) \<longleftrightarrow> (\<exists>x mid. r = Inr (x, mid) \<and> f x mid = Inr (y, rest))"
  by (cases r) (auto split: prod.splits)

lemma local_read_then:
  assumes "local_read r" "\<And>x. local_read (f x)"
  shows "local_read (\<lambda>bs. read_then (r bs) f)"
proof (rule local_readI)
  fix bs y rest assume "read_then (r bs) f = Inr (y, rest)"
  then obtain x mid where *: "r bs = Inr (x, mid)" "f x mid = Inr (y, rest)" by (auto simp: read_then_Inr)
  obtain u where u: "bs = u @ mid" "\<forall>more. r (u @ more) = Inr (x, more)" using local_readD [OF assms(1) *(1)] by blast
  obtain v where v: "mid = v @ rest" "\<forall>more. f x (v @ more) = Inr (y, more)" using local_readD [OF assms(2) *(2)] by blast
  have "bs = (u @ v) @ rest" "\<forall>more. read_then (r ((u @ v) @ more)) f = Inr (y, more)" using u v by simp_all
  then show "\<exists>used. bs = used @ rest \<and> (\<forall>more. read_then (r (used @ more)) f = Inr (y, more))" by blast
qed

lemma local_read_pure [simp, intro]: "local_read (\<lambda>rest. Inr (x, rest))"
  by (auto simp: local_read_def)

lemma local_read_fail [simp, intro]: "local_read (\<lambda>rest. Inl e)"
  by (auto simp: local_read_def)

lemma local_read_exact [simp, intro]: "local_read (read_exact n)"
proof (rule local_readI)
  fix bs x rest assume "read_exact n bs = Inr (x, rest)"
  then have *: "n \<le> length bs" "x = take n bs" "rest = drop n bs" by (auto simp: read_exact_def split: if_splits)
  then have "bs = take n bs @ rest" "\<forall>more. read_exact n (take n bs @ more) = Inr (x, more)" by (simp_all add: read_exact_def)
  then show "\<exists>used. bs = used @ rest \<and> (\<forall>more. read_exact n (used @ more) = Inr (x, more))" by blast
qed

section \<open>Byte order round trips\<close>

lemma length_to_bytes [simp]:
  "length (to_le_bytes (w :: 'a::len word)) = LENGTH('a) div 8"
  "length (to_be_bytes (w :: 'a::len word)) = LENGTH('a) div 8"
  by (simp_all add: to_le_bytes_def to_be_bytes_def)

lemma nth_to_le_bytes [simp]:
  "i < LENGTH('a) div 8 \<Longrightarrow> to_le_bytes (w :: 'a::len word) ! i = ucast (drop_bit (8 * i) w)"
  by (simp add: to_le_bytes_def)

lemma bit_from_le_bytes:
  "bit (from_le_bytes bs :: 'a::len word) n \<longleftrightarrow> n < LENGTH('a) \<and> n div 8 < length bs \<and> bit (bs ! (n div 8)) (n mod 8)"
proof (induction bs arbitrary: n)
  case Nil
  then show ?case by (simp add: from_le_bytes_def)
next
  case (Cons b bs)
  have e: "from_le_bytes (b # bs) = or (ucast b) (push_bit 8 (from_le_bytes bs :: 'a word))"
    by (simp add: from_le_bytes_def)
  show ?case
  proof (cases "n < 8")
    case True
    then show ?thesis by (auto simp: e bit_simps dest: bit_imp_le_length)
  next
    case False
    then have "n div 8 = Suc ((n - 8) div 8)" "(n - 8) mod 8 = n mod 8" by (simp_all add: le_div_geq le_mod_geq)
    then show ?thesis using False Cons.IH [of "n - 8"] by (auto simp: e bit_simps dest: bit_imp_le_length)
  qed
qed

lemma from_to_le_bytes:
  assumes "8 dvd LENGTH('a::len)"
  shows "from_le_bytes (to_le_bytes (w :: 'a word)) = w"
proof (rule bit_word_eqI)
  fix n assume n: "n < LENGTH('a)"
  then have i: "n div 8 < LENGTH('a) div 8" using assms by (metis dvd_div_mult_self less_mult_imp_div_less mult.commute div_less_iff_less_mult zero_less_numeral dvd_mult_div_cancel)
  have "n = 8 * (n div 8) + n mod 8" by simp
  then show "bit (from_le_bytes (to_le_bytes w) :: 'a word) n = bit w n"
    using n i by (auto simp: bit_from_le_bytes bit_simps)
qed

lemma from_to_be_bytes:
  "8 dvd LENGTH('a::len) \<Longrightarrow> from_be_bytes (to_be_bytes (w :: 'a word)) = w"
  by (simp add: from_be_bytes_def to_be_bytes_def from_to_le_bytes)

lemma int_read_write:
  "8 dvd LENGTH('a::len) \<Longrightarrow> int_read (int_write (w :: 'a word) @ rest) = Inr (w, rest)"
  by (simp add: int_read_def int_write_def read_exact_def from_to_be_bytes)

lemma local_int_read [simp, intro]: "local_read int_read"
  unfolding int_read_def by (intro local_read_then) auto

text \<open>Single bytes are read as they are.\<close>

lemma int_write_u8 [simp]: "int_write (b :: u8) = [b]"
  by (simp add: int_write_def to_be_bytes_def to_le_bytes_def)

lemma int_read_u8 [simp]:
  "(int_read [] :: u8 reading) = Inl eof" "(int_read (b # bs) :: u8 reading) = Inr (b, bs)"
  by (simp_all add: int_read_def read_exact_def from_be_bytes_def from_le_bytes_def)

lemma bool_read_write [simp]: "bool_read (bool_write b @ rest) = Inr (b, rest)"
  by (simp add: bool_read_def bool_write_def)

lemma local_bool_read [simp, intro]: "local_read bool_read"
  unfolding bool_read_def by (intro local_read_then) auto

interpretation u16_wire: wire_codec "\<lambda>w :: u16. Inr (int_write w)" int_read "\<lambda>_. True"
  by unfold_locales (auto simp: int_read_write)

interpretation u32_wire: wire_codec "\<lambda>w :: u32. Inr (int_write w)" int_read "\<lambda>_. True"
  by unfold_locales (auto simp: int_read_write)

interpretation u64_wire: wire_codec "\<lambda>w :: u64. Inr (int_write w)" int_read "\<lambda>_. True"
  by unfold_locales (auto simp: int_read_write)

interpretation u8_wire: wire_codec "\<lambda>w :: u8. Inr (int_write w)" int_read "\<lambda>_. True"
  by unfold_locales (auto simp: int_read_write)

interpretation bool_wire: wire_codec "\<lambda>b. Inr (bool_write b)" bool_read "\<lambda>_. True"
  by unfold_locales auto

section \<open>Buffers with reserved front space\<close>

record FrontVec =
  buf :: "u8 list"
  front_space :: nat

definition front_vec_new :: "nat \<Rightarrow> FrontVec" where
  "front_vec_new reserve = \<lparr>buf = replicate reserve 0, front_space = reserve\<rparr>"

definition front_vec_len :: "FrontVec \<Rightarrow> nat" where
  "front_vec_len v = length (buf v) - front_space v"

definition front_vec_is_empty :: "FrontVec \<Rightarrow> bool" where
  "front_vec_is_empty v \<longleftrightarrow> length (buf v) - front_space v = 0"

definition front_vec_push :: "u8 \<Rightarrow> FrontVec \<Rightarrow> FrontVec" where
  "front_vec_push b v = v\<lparr>buf := buf v @ [b]\<rparr>"

definition extend_from_slice :: "u8 list \<Rightarrow> FrontVec \<Rightarrow> FrontVec" where
  "extend_from_slice other v = v\<lparr>buf := buf v @ other\<rparr>"

text \<open>\<open>None\<close> is the panic of the assertion.\<close>

definition set_in_front :: "u8 list \<Rightarrow> FrontVec \<Rightarrow> FrontVec option" where
  "set_in_front other v =
    (if front_space v \<ge> length other
     then let new_start = front_space v - length other
          in Some (v\<lparr>buf := take new_start (buf v) @ other @ drop (front_space v) (buf v), front_space := new_start\<rparr>)
     else None)"

definition as_slice :: "FrontVec \<Rightarrow> u8 list" where
  "as_slice v = drop (front_space v) (buf v)"

text \<open>The reserved space is part of the buffer, in every buffer the code builds.\<close>

definition front_ok :: "FrontVec \<Rightarrow> bool" where
  "front_ok v \<longleftrightarrow> front_space v \<le> length (buf v)"

lemma front_vec_laws [simp]:
  "front_ok (front_vec_new n)" "as_slice (front_vec_new n) = []" "front_space (front_vec_new n) = n"
  "front_ok v \<Longrightarrow> front_ok (extend_from_slice bs v)"
  "front_ok v \<Longrightarrow> as_slice (extend_from_slice bs v) = as_slice v @ bs"
  "front_space (extend_from_slice bs v) = front_space v"
  "front_ok v \<Longrightarrow> front_ok (front_vec_push b v)"
  "front_ok v \<Longrightarrow> as_slice (front_vec_push b v) = as_slice v @ [b]"
  "front_vec_len v = length (as_slice v)"
  "front_vec_is_empty v \<longleftrightarrow> as_slice v = []"
  by (auto simp: front_ok_def as_slice_def front_vec_new_def extend_from_slice_def front_vec_push_def
      front_vec_len_def front_vec_is_empty_def)

lemma set_in_front_spec:
  assumes "front_ok v" "length other \<le> front_space v"
  obtains v' where "set_in_front other v = Some v'" "front_ok v'" "as_slice v' = other @ as_slice v"
    "front_space v' = front_space v - length other"
  by (rule that [of "v\<lparr>buf := take (front_space v - length other) (buf v) @ other @ drop (front_space v) (buf v),
      front_space := front_space v - length other\<rparr>"])
    (use assms in \<open>simp_all add: set_in_front_def front_ok_def as_slice_def Let_def\<close>)

lemma set_in_front_panics: "set_in_front other v = None \<longleftrightarrow> front_space v < length other"
  by (simp add: set_in_front_def Let_def)

end
