(* ===== verification/Var_Int.thy ===== *)
theory Var_Int
  imports Wire
begin

text \<open>
  The variable-length integers of \<open>steel-utils/src/codec/variable_integer.rs\<close>. The reference is
  \<open>leb128\<close>, seven bits a byte from the least significant group; the writers, which build their
  bytes by spreading the payload over the lanes of one 64-bit word, are proved to emit it.
\<close>

section \<open>Bit counts\<close>

fun nat_bits :: "nat \<Rightarrow> nat" where
  "nat_bits n = (if n = 0 then 0 else Suc (nat_bits (n div 2)))"

declare nat_bits.simps [simp del]

definition leading_zeros :: "'a::len word \<Rightarrow> nat" where
  "leading_zeros w = LENGTH('a) - nat_bits (unat w)"

definition div_ceil :: "nat \<Rightarrow> nat \<Rightarrow> nat" where
  "div_ceil a b = (if a mod b = 0 then a div b else Suc (a div b))"

section \<open>The writers\<close>

definition pack_payload :: "u64 \<Rightarrow> u64" where
  "pack_payload value =
    or (and value 0x7f)
    (or (push_bit 1 (and value 0x3f80))
    (or (push_bit 2 (and value 0x1fc000))
    (or (push_bit 3 (and value 0x0fe00000))
    (or (push_bit 4 (and value 0x7f0000000))
    (or (push_bit 5 (and value 0x3f800000000))
    (or (push_bit 6 (and value 0x1fc0000000000))
        (push_bit 7 (and value 0xfe000000000000))))))))"

definition VARINT_MAX_SIZE :: nat where
  "VARINT_MAX_SIZE = 5"

definition varint_written_size :: "i32 \<Rightarrow> nat" where
  "varint_written_size val = (if val = 0 then 1 else (31 - leading_zeros val) div 7 + 1)"

definition varint_write :: "i32 \<Rightarrow> u8 list" where
  "varint_write value =
    (if value < 0x80 then [ucast value]
     else if value < 0x4000 then [or (ucast value) 0x80, ucast (drop_bit 7 value)]
     else if value < 0x200000
     then [or (ucast value) 0x80, or (ucast (drop_bit 7 value)) 0x80, ucast (drop_bit 14 value)]
     else let packed = pack_payload (ucast value)
          in if value < push_bit 28 1 then take 4 (to_le_bytes (or packed 0x808080))
             else take 5 (to_le_bytes (or packed 0x80808080)))"

text \<open>
  \<open>None\<close> is a panic: the slice of the five candidate bytes is too short, or the buffer has not
  reserved enough space. The shift by 64 bits of an empty prefix wraps to no shift.
\<close>

definition varint_set_in_front :: "i32 \<Rightarrow> nat \<Rightarrow> FrontVec \<Rightarrow> FrontVec option" where
  "varint_set_in_front val varint_size v =
    (if varint_size > VARINT_MAX_SIZE then None
     else let continuation = drop_bit (((8 - varint_size) * 8) mod 64) (0x0080808080808080 :: u64);
              bytes = to_le_bytes (or (pack_payload (ucast val)) continuation)
          in set_in_front (take varint_size (take VARINT_MAX_SIZE bytes)) v)"

definition VARLONG_MAX_SIZE :: nat where
  "VARLONG_MAX_SIZE = 10"

definition varlong_write :: "i64 \<Rightarrow> u8 list" where
  "varlong_write value =
    (if value < 0x80 then [ucast value]
     else if value < 2 ^ 32 then varint_write (ucast value)
     else let packed = pack_payload value
          in if value \<ge> push_bit 56 1
             then let low = to_le_bytes (or packed 0x8080808080808080);
                      bytes = low @ [ucast (drop_bit 56 value), 1]
                  in if 0 \<le>s value then take 9 bytes else bytes
             else let size = div_ceil (64 - leading_zeros value) 7;
                      continuation = drop_bit ((8 - size) * 8) (0x0080808080808080 :: u64);
                      bytes = to_le_bytes (or packed continuation)
                  in if size = 5 then take 5 bytes
                     else if size = 6 then take 6 bytes
                     else if size = 7 then take 7 bytes
                     else bytes)"

definition varuint_written_size :: "u32 \<Rightarrow> nat" where
  "varuint_written_size val = div_ceil (max (32 - leading_zeros val) 1) 7"

function varuint_write :: "u32 \<Rightarrow> u8 list" where
  "varuint_write val =
    (let byte = (ucast (and val 0x7F) :: u8);
         val' = drop_bit 7 val
     in if val' \<noteq> 0 then or byte 0x80 # varuint_write val' else [byte])"
  by pat_completeness auto
termination
proof (relation "measure unat")
  fix val val' :: u32 and byte :: u8
  assume *: "val' = drop_bit 7 val" "val' \<noteq> 0"
  have "unat val' = unat val div 128" using *(1) by (simp add: drop_bit_eq_div unat_div)
  moreover have "unat val' \<noteq> 0" using *(2) by (simp add: unat_eq_0)
  ultimately show "(val', val) \<in> measure unat" by simp
qed simp

declare varuint_write.simps [simp del]

section \<open>The readers\<close>

text \<open>The loop of all readers, with the error at the end of input and the one of an overlong value.\<close>

fun var_read_loop :: "IoError \<Rightarrow> IoError \<Rightarrow> nat \<Rightarrow> nat \<Rightarrow> 'a::len word \<Rightarrow> Cursor \<Rightarrow> 'a word reading" where
  "var_read_loop end_err long_err 0 i val bs = Inl long_err"
| "var_read_loop end_err long_err (Suc n) i val [] = Inl end_err"
| "var_read_loop end_err long_err (Suc n) i val (byte # bs) =
    (let val = or val (push_bit (i * 7) (and (ucast byte) 0x7F))
     in if and byte 0x80 = 0 then Inr (val, bs) else var_read_loop end_err long_err n (Suc i) val bs)"

definition varint_read :: "Cursor \<Rightarrow> i32 reading" where
  "varint_read bs = var_read_loop eof (error_other ''VarInt to long'') VARINT_MAX_SIZE 0 0 bs"

definition varint_read_async :: "Cursor \<Rightarrow> i32 reading" where
  "varint_read_async bs = var_read_loop (IoError UnexpectedEof ''VarInt'') (error_other ''VarInt'') VARINT_MAX_SIZE 0 0 bs"

definition varlong_read :: "Cursor \<Rightarrow> i64 reading" where
  "varlong_read bs = var_read_loop eof (error_other ''VarLong too long'') VARLONG_MAX_SIZE 0 0 bs"

definition varuint_read :: "Cursor \<Rightarrow> u32 reading" where
  "varuint_read bs = var_read_loop eof (error_other ''Malformed VarUint'') VARINT_MAX_SIZE 0 0 bs"

text \<open>Conversions between lengths and their prefixes.\<close>

definition varint_from_usize :: "nat \<Rightarrow> i32" where
  "varint_from_usize n = of_nat n"

definition usize_from_varint :: "i32 \<Rightarrow> nat" where
  "usize_from_varint v = unat (scast v :: u64)"

section \<open>The reference encoding\<close>

fun leb128 :: "nat \<Rightarrow> u8 list" where
  "leb128 n = (if n < 128 then [of_nat n] else or (of_nat (n mod 128)) 0x80 # leb128 (n div 128))"

declare leb128.simps [simp del]

definition leb_byte :: "nat \<Rightarrow> nat \<Rightarrow> nat \<Rightarrow> u8" where
  "leb_byte n s j = or (of_nat (n div 128 ^ j mod 128)) (if Suc j < s then 0x80 else 0)"

text \<open>A number of exactly \<open>s\<close> seven-bit groups is written in \<open>s\<close> bytes.\<close>

lemma leb128_groups:
  "n < 128 ^ Suc s \<Longrightarrow> s = 0 \<or> 128 ^ s \<le> n \<Longrightarrow> leb128 n = map (leb_byte n (Suc s)) [0..<Suc s]"
proof (induction s arbitrary: n)
  case 0
  then show ?case by (simp add: leb128.simps [of n] leb_byte_def)
next
  case (Suc s)
  then have ge: "128 * 128 ^ s \<le> n" by simp
  moreover have "(128::nat) * 1 \<le> 128 * 128 ^ s" by (intro mult_le_mono) simp_all
  ultimately have n: "\<not> n < 128" by linarith
  have "n div 128 < 128 ^ Suc s" using Suc.prems by (simp add: less_mult_imp_div_less mult.commute)
  moreover have "128 ^ s \<le> n div 128" using ge by (simp add: less_eq_div_iff_mult_less_eq mult.commute)
  ultimately have "leb128 (n div 128) = map (leb_byte (n div 128) (Suc s)) [0..<Suc s]" using Suc.IH by blast
  moreover have "leb_byte (n div 128) (Suc s) j = leb_byte n (Suc (Suc s)) (Suc j)" for j
    by (simp add: leb_byte_def div_mult2_eq)
  ultimately have "leb128 n = leb_byte n (Suc (Suc s)) 0 # map (leb_byte n (Suc (Suc s)) \<circ> Suc) [0..<Suc s]"
    using n by (simp add: leb128.simps [of n] leb_byte_def del: upt_Suc)
  then show ?case by (simp add: map_Suc_upt [symmetric] upt_conv_Cons del: upt_Suc map_map add: map_map [symmetric])
qed

lemma length_leb128: "n < 128 ^ Suc s \<Longrightarrow> s = 0 \<or> 128 ^ s \<le> n \<Longrightarrow> length (leb128 n) = Suc s"
  by (simp add: leb128_groups del: upt_Suc power_Suc)

lemma length_leb128_le: "n < 128 ^ s \<Longrightarrow> 0 < s \<Longrightarrow> length (leb128 n) \<le> s"
proof (induction s arbitrary: n)
  case (Suc s)
  show ?case
  proof (cases "n < 128")
    case False
    then have "0 < s" using Suc.prems by (cases s) simp_all
    moreover have "n div 128 < 128 ^ s" using Suc.prems by (simp add: less_mult_imp_div_less mult.commute)
    ultimately show ?thesis using Suc.IH False by (simp add: leb128.simps [of n])
  qed (simp add: leb128.simps [of n])
qed simp

section \<open>Reading back the reference encoding\<close>

lemma bit_0x80: "bit (0x80 :: int) k \<longleftrightarrow> k = 7"
  using bit_exp_iff [where 'a = int, of 7 k] by (auto simp: possible_bit_def)

lemma bit_0x7F: "bit (0x7F :: int) k \<longleftrightarrow> k < 7"
  using bit_mask_iff [where 'a = int, of 7 k] by (auto simp: mask_numeral possible_bit_def)

lemma bit_small: "a < (128 :: nat) \<Longrightarrow> bit a k \<Longrightarrow> k < 7"
proof (rule ccontr)
  assume *: "a < 128" "bit a k" "\<not> k < 7"
  then have "(2 :: nat) ^ 7 \<le> 2 ^ k" by (intro power_increasing) auto
  then have "a < 2 ^ k" using *(1) by simp
  then show False using *(2) by (simp add: bit_iff_odd)
qed

lemma bit_low7: "bit (a mod 128 :: nat) k \<longleftrightarrow> k < 7 \<and> bit a k"
  using bit_take_bit_iff [of 7 a k] by (simp add: take_bit_eq_mod)

lemma small_byte:
  "and (of_nat (a mod 128) :: u8) 0x80 = 0" "and (or (of_nat (a mod 128) :: u8) 0x80) 0x80 \<noteq> 0"
proof -
  show "and (of_nat (a mod 128) :: u8) 0x80 = 0"
    by (intro bit_word_eqI) (auto simp: bit_and_iff bit_of_nat_iff bit_low7 bit_0x80)
  have "bit (and (or (of_nat (a mod 128) :: u8) 0x80) 0x80) 7" by (simp add: bit_and_iff bit_or_iff bit_0x80)
  then show "and (or (of_nat (a mod 128) :: u8) 0x80) 0x80 \<noteq> 0" by auto
qed

lemma low_group:
  assumes "7 < LENGTH('a::len)"
  shows "and (ucast (of_nat (a mod 128) :: u8) :: 'a word) 0x7F = of_nat (a mod 128)"
    "and (ucast (or (of_nat (a mod 128)) 0x80 :: u8) :: 'a word) 0x7F = of_nat (a mod 128)"
  using assms
  by (auto intro!: bit_word_eqI simp: bit_and_iff bit_or_iff bit_ucast_iff bit_of_nat_iff bit_low7 bit_0x80 bit_0x7F
      dest: bit_imp_le_length)

lemma split_group:
  "or (of_nat (n mod 128) :: 'a::len word) (push_bit 7 (of_nat (n div 128))) = of_nat n"
proof (rule bit_word_eqI)
  fix k assume k: "k < LENGTH('a)"
  have "bit (n div 128) (k - 7) \<longleftrightarrow> bit n k" if "7 \<le> k"
    using bit_drop_bit_eq [of 7 n] that by (simp add: drop_bit_eq_div)
  then show "bit (or (of_nat (n mod 128) :: 'a word) (push_bit 7 (of_nat (n div 128)))) k \<longleftrightarrow> bit (of_nat n :: 'a word) k"
    using k by (auto simp: bit_or_iff bit_push_bit_iff bit_of_nat_iff bit_low7)
qed

lemma var_read_leb128:
  assumes "7 < LENGTH('a::len)"
  shows "length (leb128 n) \<le> k \<Longrightarrow>
    var_read_loop e l k i (val :: 'a word) (leb128 n @ rest) = Inr (or val (push_bit (i * 7) (of_nat n)), rest)"
proof (induction n arbitrary: k i val rule: leb128.induct)
  case (1 n)
  then obtain k' where k: "k = Suc k'" by (cases k) (auto simp: leb128.simps [of n] split: if_splits)
  show ?case
  proof (cases "n < 128")
    case True
    then have "n mod 128 = n" by simp
    then show ?thesis using True small_byte(1) [of n] low_group(1) [OF assms, of n]
      by (simp add: leb128.simps [of n] k)
  next
    case False
    have "push_bit (Suc i * 7) (of_nat (n div 128)) = push_bit (i * 7) (push_bit 7 (of_nat (n div 128) :: 'a word))"
      by (simp add: add.commute)
    then have "or (push_bit (i * 7) (of_nat (n mod 128))) (push_bit (Suc i * 7) (of_nat (n div 128))) = push_bit (i * 7) (of_nat n :: 'a word)"
      using split_group [of n, where 'a = 'a] by (simp only: push_bit_or [symmetric])
    then show ?thesis using False 1 small_byte(2) [of n] low_group(2) [OF assms, of n]
      by (simp add: leb128.simps [of n] k Let_def or.assoc del: push_bit_of_nat)
  qed
qed

lemma local_var_read [simp, intro]: "local_read (var_read_loop e l k i val)"
proof (rule local_readI)
  fix bs x rest assume "var_read_loop e l k i val bs = Inr (x, rest)"
  then show "\<exists>used. bs = used @ rest \<and> (\<forall>more. var_read_loop e l k i val (used @ more) = Inr (x, more))"
  proof (induction e l k i val bs rule: var_read_loop.induct)
    case (3 e l n i val byte bs)
    show ?case
    proof (cases "and byte 0x80 = 0")
      case True
      then show ?thesis using 3(2) by (intro exI [of _ "[byte]"]) (simp add: Let_def)
    next
      case False
      then obtain used where "bs = used @ rest"
        "\<forall>more. var_read_loop e l n (Suc i) (or val (push_bit (i * 7) (and (ucast byte) 0x7F))) (used @ more) = Inr (x, more)"
        using 3 by (auto simp: Let_def)
      then show ?thesis using False by (intro exI [of _ "byte # used"]) (simp add: Let_def)
    qed
  qed auto
qed

section \<open>The writers emit the reference encoding\<close>

lemma pack_payload_groups:
  "pack_payload v =
    or (push_bit 0 (and v (push_bit 0 (mask 7)))) (or (push_bit 1 (and v (push_bit 7 (mask 7))))
    (or (push_bit 2 (and v (push_bit 14 (mask 7)))) (or (push_bit 3 (and v (push_bit 21 (mask 7))))
    (or (push_bit 4 (and v (push_bit 28 (mask 7)))) (or (push_bit 5 (and v (push_bit 35 (mask 7))))
    (or (push_bit 6 (and v (push_bit 42 (mask 7)))) (push_bit 7 (and v (push_bit 49 (mask 7))))))))))"
  by (simp add: pack_payload_def mask_numeral push_bit_eq_mult)

lemma pack_payload_lanes:
  "\<forall>j \<in> set [0..<8]. \<forall>k \<in> set [0..<8]. bit (pack_payload v) (8 * j + k) \<longleftrightarrow> k < 7 \<and> bit v (7 * j + k)"
  using bit_double_iff [of v] unfolding pack_payload_groups by (simp add: upt_rec bit_simps mult.commute [of v 2])

lemma pack_payload_byte:
  "j < 8 \<Longrightarrow> (ucast (drop_bit (8 * j) (or (pack_payload v) c)) :: u8) =
    or (ucast (take_bit 7 (drop_bit (7 * j) v))) (ucast (drop_bit (8 * j) c))"
  using pack_payload_lanes [of v] by (auto intro!: bit_word_eqI simp: bit_simps)

lemma leb_word: "(of_nat (unat v div 128 ^ j mod 128) :: u8) = ucast (take_bit 7 (drop_bit (7 * j) (v :: 'a::len word)))"
proof (rule bit_word_eqI)
  fix k assume "k < LENGTH(8)"
  have "(128 :: nat) ^ j = 2 ^ (7 * j)" by (simp add: power_mult)
  then have "bit (unat v div 128 ^ j) k \<longleftrightarrow> bit v (7 * j + k)"
    using bit_drop_bit_eq [of "7 * j" "unat v"] by (simp add: drop_bit_eq_div bit_unsigned_iff)
  then show "bit (of_nat (unat v div 128 ^ j mod 128) :: u8) k \<longleftrightarrow> bit (ucast (take_bit 7 (drop_bit (7 * j) v)) :: u8) k"
    using \<open>k < LENGTH(8)\<close> by (auto simp: bit_of_nat_iff bit_low7 bit_simps)
qed

lemma leb_byte_word:
  "leb_byte (unat (v :: 'a::len word)) s j = or (ucast (take_bit 7 (drop_bit (7 * j) v))) (if Suc j < s then 0x80 else 0)"
  by (simp add: leb_byte_def leb_word)

lemma bit_bound: "bit (n :: nat) k \<Longrightarrow> n < 2 ^ m \<Longrightarrow> k < m"
proof (rule ccontr)
  assume *: "bit n k" "n < 2 ^ m" "\<not> k < m"
  then have "n < 2 ^ k" by (meson less_le_trans linorder_not_less one_le_numeral power_increasing)
  then show False using *(1) by (simp add: bit_iff_odd)
qed

lemma top_group:
  "unat (v :: 'a::len word) < 2 ^ (7 * Suc j) \<Longrightarrow> take_bit 7 (drop_bit (7 * j) v) = drop_bit (7 * j) v"
  by (rule bit_word_eqI) (auto simp: bit_simps bit_unsigned_iff dest: bit_bound [of "unat v", rotated])

lemma continued_byte: "or (ucast (take_bit 7 v)) 0x80 = (or (ucast v) 0x80 :: u8)" for v :: "'a::len word"
  by (rule bit_word_eqI) (auto simp: bit_simps bit_0x80)

lemma packed_prefix:
  assumes "s < 8" "unat v < 128 ^ Suc s" "s = 0 \<or> 128 ^ s \<le> unat v"
    and c: "list_all (\<lambda>j. (ucast (drop_bit (8 * j) c) :: u8) = (if j < s then 0x80 else 0)) [0..<Suc s]"
  shows "take (Suc s) (to_le_bytes (or (pack_payload v) c)) = leb128 (unat v)"
proof (rule nth_equalityI)
  show "length (take (Suc s) (to_le_bytes (or (pack_payload v) c))) = length (leb128 (unat v))"
    using assms(1) by (simp add: length_leb128 [OF assms(2,3)])
  fix j assume "j < length (take (Suc s) (to_le_bytes (or (pack_payload v) c)))"
  then have j: "j < Suc s" "j < 8" using assms(1) by simp_all
  have "take (Suc s) (to_le_bytes (or (pack_payload v) c)) ! j = ucast (drop_bit (8 * j) (or (pack_payload v) c))"
    using j by (simp add: nth_to_le_bytes)
  also have "\<dots> = leb_byte (unat v) (Suc s) j"
    using j c by (subst pack_payload_byte) (auto simp: leb_byte_word less_Suc_eq list_all_iff)
  finally show "take (Suc s) (to_le_bytes (or (pack_payload v) c)) ! j = leb128 (unat v) ! j"
    using j by (simp add: leb128_groups [OF assms(2,3)] del: upt_Suc)
qed

lemma unat_less_word: "v < w \<longleftrightarrow> unat v < unat w" for v w :: "'a::len word"
  by (simp add: word_less_nat_alt)

lemma varint_write_leb128: "varint_write v = leb128 (unat v)"
proof -
  define n where "n = unat v"
  have n: "n < 2 ^ 32" unfolding n_def using unsigned_less [of v, where 'a = nat] by simp
  have up: "unat (ucast v :: u64) = n" using n by (simp add: n_def unsigned_ucast_eq take_bit_nat_eq_self_iff)
  have w: "(v < 0x80) = (n < 128)" "(v < 0x4000) = (n < 128 ^ 2)" "(v < 0x200000) = (n < 128 ^ 3)" "(v < push_bit 28 1) = (n < 128 ^ 4)"
    by (simp_all add: n_def unat_less_word push_bit_eq_mult)
  consider "n < 128" | "128 \<le> n" "n < 128 ^ 2" | "128 ^ 2 \<le> n" "n < 128 ^ 3" | "128 ^ 3 \<le> n" "n < 128 ^ 4" | "128 ^ 4 \<le> n" by linarith
  then show ?thesis
  proof cases
    case 1
    then show ?thesis using w by (simp add: varint_write_def leb128.simps [of "unat v"] n_def of_nat_unat)
  next
    case 2
    have "leb128 n = [leb_byte n 2 0, leb_byte n 2 1]"
      using leb128_groups [of n 1] 2 by (simp add: numeral_2_eq_2)
    then show ?thesis using 2 w top_group [of v 1] by (simp add: varint_write_def n_def leb_byte_word continued_byte)
  next
    case 3
    have "leb128 n = [leb_byte n 3 0, leb_byte n 3 1, leb_byte n 3 2]"
      using leb128_groups [of n 2] 3 by (simp add: numeral_2_eq_2 numeral_3_eq_3)
    then show ?thesis using 3 w top_group [of v 2] by (simp add: varint_write_def n_def leb_byte_word continued_byte)
  next
    case 4
    have "take (Suc 3) (to_le_bytes (or (pack_payload (ucast v)) 0x808080)) = leb128 (unat (ucast v :: u64))"
      by (rule packed_prefix) (use 4 up in \<open>simp_all add: upt_rec\<close>)
    then show ?thesis using 4 w up by (simp add: varint_write_def n_def Let_def)
  next
    case 5
    have "take (Suc 4) (to_le_bytes (or (pack_payload (ucast v)) 0x80808080)) = leb128 (unat (ucast v :: u64))"
      by (rule packed_prefix) (use 5 up n in \<open>simp_all add: upt_rec\<close>)
    then show ?thesis using 5 w up by (simp add: varint_write_def n_def Let_def)
  qed
qed

text \<open>Sizes.\<close>

lemma nat_bits_le: "nat_bits n \<le> k \<longleftrightarrow> n < 2 ^ k"
proof (induction n arbitrary: k rule: nat_bits.induct)
  case (1 n)
  show ?case
  proof (cases k)
    case 0
    then show ?thesis by (simp add: nat_bits.simps [of n])
  next
    case (Suc k')
    then show ?thesis using 1 [of k'] by (auto simp: nat_bits.simps [of n])
  qed
qed

lemma nat_bits_bounds: "n < 2 ^ nat_bits n" "0 < n \<Longrightarrow> 2 ^ (nat_bits n - 1) \<le> n" "0 < n \<Longrightarrow> 0 < nat_bits n"
  using nat_bits_le [of n "nat_bits n"] nat_bits_le [of n "nat_bits n - 1"] nat_bits_le [of n 0]
  by (auto simp: not_less [symmetric])

lemma div_ceil_pred: "0 < a \<Longrightarrow> div_ceil a 7 = (a - 1) div 7 + 1"
proof -
  assume "0 < a"
  then obtain m where "a = Suc m" by (cases a) simp_all
  then show ?thesis by (simp add: div_ceil_def div_Suc mod_Suc split: if_splits)
qed

lemma less_div_ceil: "i < k \<Longrightarrow> i div n < div_ceil k n" if "0 < n" for i :: nat
proof (cases "k mod n = 0")
  case True
  assume "i < k"
  then have "i < k div n * n" using True by auto
  then show ?thesis using True by (simp add: div_ceil_def less_mult_imp_div_less)
next
  case False
  assume "i < k"
  then show ?thesis using False div_le_mono [of i k n] by (simp add: div_ceil_def less_Suc_eq_le)
qed

lemma group_count:
  assumes "0 < n" "s = (nat_bits n - 1) div 7"
  shows "n < 128 ^ Suc s" "128 ^ s \<le> n"
proof -
  have p: "(128 :: nat) ^ m = 2 ^ (7 * m)" for m by (simp add: power_mult)
  have "nat_bits n - 1 < 7 + 7 * s" unfolding assms(2) by (rule dividend_less_times_div) simp
  then have "nat_bits n \<le> 7 * Suc s" by simp
  then have "(2 :: nat) ^ nat_bits n \<le> 2 ^ (7 * Suc s)" by (intro power_increasing) simp_all
  then show "n < 128 ^ Suc s" unfolding p using nat_bits_bounds(1) [of n] by linarith
  have "7 * s \<le> nat_bits n - 1" unfolding assms(2) by (rule times_div_less_eq_dividend)
  then have "(2 :: nat) ^ (7 * s) \<le> 2 ^ (nat_bits n - 1)" by (intro power_increasing) simp_all
  then show "128 ^ s \<le> n" unfolding p using nat_bits_bounds(2) [OF assms(1)] by linarith
qed

lemma length_leb128_bits: "length (leb128 n) = (nat_bits n - 1) div 7 + 1"
proof (cases "n = 0")
  case True
  then show ?thesis by (simp add: leb128.simps nat_bits.simps)
next
  case False
  then show ?thesis using length_leb128 [of n "(nat_bits n - 1) div 7"] group_count [of n] by simp
qed

lemma bits_32: "nat_bits (unat (v :: u32)) \<le> 32" and bits_64: "nat_bits (unat (w :: u64)) \<le> 64"
  unfolding nat_bits_le using unsigned_less [of v, where 'a = nat] unsigned_less [of w, where 'a = nat] by simp_all

lemma varint_written_size: "varint_written_size v = length (leb128 (unat v))"
  using bits_32 [of v] nat_bits_bounds(3) [of "unat v"]
  by (auto simp: varint_written_size_def length_leb128_bits leading_zeros_def nat_bits.simps [of 0] unat_eq_0)

lemma varuint_written_size: "varuint_written_size v = length (leb128 (unat v))"
proof -
  have "nat_bits (unat v) \<le> 32" by (rule bits_32)
  then have "32 - leading_zeros v = nat_bits (unat v)" by (simp add: leading_zeros_def)
  moreover have "max (nat_bits (unat v)) 1 - 1 = nat_bits (unat v) - 1" by simp
  ultimately show ?thesis using div_ceil_pred [of "max (nat_bits (unat v)) 1"]
    by (simp add: varuint_written_size_def length_leb128_bits)
qed

lemma varuint_write_leb128: "varuint_write v = leb128 (unat v)"
proof (induction v rule: varuint_write.induct)
  case (1 v)
  have b: "(ucast (and v 0x7F) :: u8) = of_nat (unat v mod 128)"
    using leb_word [of v 0] by (simp add: take_bit_eq_mask mask_numeral)
  have d: "unat (drop_bit 7 v) = unat v div 128" by (simp add: drop_bit_eq_div unat_div)
  have z: "drop_bit 7 v = 0 \<longleftrightarrow> unat v < 128" unfolding unat_eq_0 [symmetric] d by (simp add: div_eq_0_iff)
  show ?case using 1 b d z
    by (simp add: varuint_write.simps [of v] leb128.simps [of "unat v"] Let_def)
qed

lemma low_bytes:
  "to_le_bytes (or (pack_payload v) 0x8080808080808080) = map (\<lambda>j. or (ucast (take_bit 7 (drop_bit (7 * j) v))) 0x80) [0..<8]"
proof (rule nth_equalityI)
  fix j assume "j < length (to_le_bytes (or (pack_payload v) 0x8080808080808080))"
  then have j: "j < 8" by simp
  then have "j \<in> set [0..<8]" by simp
  then have "(ucast (drop_bit (8 * j) (0x8080808080808080 :: u64)) :: u8) = 0x80"
    by (simp add: upt_rec del: set_upt) auto
  then show "to_le_bytes (or (pack_payload v) 0x8080808080808080) ! j = map (\<lambda>j. or (ucast (take_bit 7 (drop_bit (7 * j) v))) 0x80) [0..<8] ! j"
    using j by (simp add: pack_payload_byte del: drop_bit_or)
qed simp

lemma top_bit_u64: "bit (v :: u64) 63 \<longleftrightarrow> 2 ^ 63 \<le> unat v"
proof -
  have n: "unat v < 2 ^ 64" using unsigned_less [of v, where 'a = nat] by simp
  have "bit v 63 \<longleftrightarrow> odd (unat v div 2 ^ 63)"
    using bit_unsigned_iff [of v 63, where 'a = nat] unfolding bit_iff_odd [of "unat v"] by simp
  moreover have "unat v div 2 ^ 63 = 1" if "2 ^ 63 \<le> unat v" using that n by (intro div_nat_eqI) simp_all
  moreover have "unat v div 2 ^ 63 = 0" if "\<not> 2 ^ 63 \<le> unat v" using that by simp
  ultimately show ?thesis by (cases "2 ^ 63 \<le> unat v") (simp_all del: div_eq_0_iff)
qed

lemma sle_zero_u64: "0 \<le>s (v :: u64) \<longleftrightarrow> unat v < 2 ^ 63"
  using top_bit_u64 [of v] by (simp add: word_sle_eq sint_uint bit_unsigned_iff not_le [symmetric])

lemma long_bytes:
  assumes "2 ^ 56 \<le> unat v"
  shows "leb128 (unat v) =
    (let bytes = to_le_bytes (or (pack_payload v) 0x8080808080808080) @ [ucast (drop_bit 56 v), 1]
     in if unat v < 2 ^ 63 then take 9 bytes else bytes)"
proof (cases "unat v < 2 ^ 63")
  case True
  have "leb128 (unat v) = map (leb_byte (unat v) 9) [0..<9]"
    using leb128_groups [of "unat v" 8] True assms by simp
  moreover have "leb_byte (unat v) 9 8 = ucast (drop_bit 56 v)"
    using top_group [of v 8] True by (simp add: leb_byte_word)
  ultimately show ?thesis using True unfolding low_bytes by (simp add: upt_rec leb_byte_word)
next
  case False
  have n: "unat v < 2 ^ 64" using unsigned_less [of v, where 'a = nat] by simp
  have "leb128 (unat v) = map (leb_byte (unat v) 10) [0..<10]"
    using leb128_groups [of "unat v" 9] False n by simp
  moreover have "unat v div 2 ^ 63 = 1" using False n by (intro div_nat_eqI) simp_all
  then have "leb_byte (unat v) 10 9 = 1" by (simp add: leb_byte_def)
  moreover have "bit v 63" using False by (simp add: top_bit_u64)
  then have "or (ucast (drop_bit 56 v)) 0x80 = (ucast (drop_bit 56 v) :: u8)"
    by (intro bit_word_eqI) (auto simp: bit_simps bit_0x80)
  ultimately show ?thesis using False unfolding low_bytes by (simp add: upt_rec leb_byte_word continued_byte)
qed

lemma varlong_middle:
  assumes "2 ^ 32 \<le> unat v" "unat v < 2 ^ 56" "s = (nat_bits (unat v) - 1) div 7"
    and "s \<in> {4, 5, 6, 7}"
  shows "take (Suc s) (to_le_bytes (or (pack_payload v) (drop_bit ((8 - Suc s) * 8) 0x0080808080808080))) = leb128 (unat v)"
proof (rule packed_prefix)
  have "0 < unat v" using assms(1) by (cases "unat v") simp_all
  then show "unat v < 128 ^ Suc s" "s = 0 \<or> 128 ^ s \<le> unat v" using group_count [OF _ assms(3)] by blast+
  show "s < 8" using assms(4) by auto
  show "list_all (\<lambda>j. (ucast (drop_bit (8 * j) (drop_bit ((8 - Suc s) * 8) (0x0080808080808080 :: u64))) :: u8) = (if j < s then 0x80 else 0)) [0..<Suc s]"
    using assms(4) by (elim insertE emptyE) (simp_all add: upt_rec)
qed

lemma varlong_write_leb128: "varlong_write v = leb128 (unat v)"
proof -
  define n where "n = unat v"
  define s where "s = (nat_bits n - 1) div 7"
  have w: "(v < 0x80) = (n < 128)" "(v < 2 ^ 32) = (n < 2 ^ 32)" "(push_bit 56 1 \<le> v) = (2 ^ 56 \<le> n)"
    by (simp_all add: n_def unat_less_word word_le_nat_alt push_bit_eq_mult)
  consider "n < 128" | "128 \<le> n" "n < 2 ^ 32" | "2 ^ 32 \<le> n" "n < 2 ^ 56" | "2 ^ 56 \<le> n" by linarith
  then show ?thesis
  proof cases
    case 1
    then show ?thesis using w by (simp add: varlong_write_def leb128.simps [of "unat v"] n_def of_nat_unat)
  next
    case 2
    then have "unat (ucast v :: u32) = n" by (simp add: n_def unsigned_ucast_eq take_bit_nat_eq_self_iff)
    then show ?thesis using 2 w by (simp add: varlong_write_def varint_write_leb128 n_def)
  next
    case 3
    have "nat_bits n \<le> 56" "\<not> nat_bits n \<le> 32" using 3 by (simp_all only: nat_bits_le not_less)
    moreover from this have "4 \<le> s" "s \<le> 7" unfolding s_def by linarith+
    then have s: "s \<in> {4, 5, 6, 7}" by auto
    moreover have "64 - leading_zeros v = nat_bits n" using bits_64 [of v] by (simp add: leading_zeros_def n_def)
    moreover have "div_ceil (nat_bits n) 7 = Suc s" using \<open>\<not> nat_bits n \<le> 32\<close> by (simp add: div_ceil_pred s_def)
    ultimately show ?thesis using 3 w varlong_middle [of v s] n_def s_def
      by (auto simp: varlong_write_def Let_def)
  next
    case 4
    have "(0 \<le>s v) = (n < 2 ^ 63)" unfolding n_def by (rule sle_zero_u64)
    then show ?thesis using 4 w long_bytes [of v] by (simp add: varlong_write_def n_def Let_def)
  qed
qed

section \<open>The codecs\<close>

lemma unat_less_128_power: "unat (v :: u32) < 128 ^ 5" "unat (w :: u64) < 128 ^ 10"
  using unsigned_less [of v, where 'a = nat] unsigned_less [of w, where 'a = nat] by simp_all

lemma length_leb128_word: "length (leb128 (unat (v :: u32))) \<le> 5" "length (leb128 (unat (w :: u64))) \<le> 10"
  by (rule length_leb128_le [OF unat_less_128_power(1)], simp, rule length_leb128_le [OF unat_less_128_power(2)], simp)

lemma var_reads_leb128:
  "varint_read (leb128 (unat v) @ rest) = Inr (v, rest)"
  "varint_read_async (leb128 (unat v) @ rest) = Inr (v, rest)"
  "varuint_read (leb128 (unat v) @ rest) = Inr (v, rest)"
  "varlong_read (leb128 (unat w) @ rest) = Inr (w, rest)"
  using length_leb128_word
  by (simp_all add: varint_read_def varint_read_async_def varuint_read_def varlong_read_def var_read_leb128
      VARINT_MAX_SIZE_def VARLONG_MAX_SIZE_def)

lemma local_var_reads [simp, intro]:
  "local_read varint_read" "local_read varint_read_async" "local_read varuint_read" "local_read varlong_read"
  unfolding varint_read_def varint_read_async_def varuint_read_def varlong_read_def by (rule local_var_read)+

interpretation varint_wire: wire_codec "\<lambda>v. Inr (varint_write v)" varint_read "\<lambda>_. True"
  by unfold_locales (auto simp: varint_write_leb128 var_reads_leb128)

interpretation varlong_wire: wire_codec "\<lambda>v. Inr (varlong_write v)" varlong_read "\<lambda>_. True"
  by unfold_locales (auto simp: varlong_write_leb128 var_reads_leb128)

interpretation varuint_wire: wire_codec "\<lambda>v. Inr (varuint_write v)" varuint_read "\<lambda>_. True"
  by unfold_locales (auto simp: varuint_write_leb128 var_reads_leb128)

text \<open>Setting a prefix in front of a buffer writes the same bytes.\<close>

lemma varint_prefix_bytes:
  assumes "s = varint_written_size v"
  shows "take s (take VARINT_MAX_SIZE (to_le_bytes (or (pack_payload (ucast v))
      (drop_bit (((8 - s) * 8) mod 64) (0x0080808080808080 :: u64))))) = varint_write v"
proof -
  have up: "unat (ucast v :: u64) = unat v"
    using unsigned_less [of v, where 'a = nat] by (simp add: unsigned_ucast_eq take_bit_nat_eq_self_iff)
  define m where "m = (nat_bits (unat v) - 1) div 7"
  have s: "s = Suc m" "s \<le> 5" using assms length_leb128_word(1) [of v] by (simp_all add: varint_written_size length_leb128_bits m_def)
  have c: "list_all (\<lambda>j. (ucast (drop_bit (8 * j) (drop_bit (((8 - Suc m) * 8) mod 64) (0x0080808080808080 :: u64))) :: u8)
      = (if j < m then 0x80 else 0)) [0..<Suc m]"
  proof -
    have "m \<in> set [0..<5]" using s by simp
    then show ?thesis by (simp add: upt_rec del: set_upt) (elim disjE; simp add: upt_rec)
  qed
  have "unat v < 128 ^ Suc m \<and> (m = 0 \<or> 128 ^ m \<le> unat v)"
    using group_count [of "unat v" m] by (cases "unat v = 0") (simp_all add: m_def nat_bits.simps [of 0])
  then have "take (Suc m) (to_le_bytes (or (pack_payload (ucast v)) (drop_bit (((8 - Suc m) * 8) mod 64) 0x0080808080808080)))
      = leb128 (unat (ucast v :: u64))"
    using s up by (intro packed_prefix c) simp_all
  then show ?thesis using s up by (simp add: varint_write_leb128 VARINT_MAX_SIZE_def min_def)
qed

lemma varint_set_in_front_spec:
  assumes "front_ok b" "varint_written_size v \<le> front_space b"
  obtains b' where "varint_set_in_front v (varint_written_size v) b = Some b'" "front_ok b'"
    "as_slice b' = varint_write v @ as_slice b" "front_space b' = front_space b - varint_written_size v"
proof -
  have l: "length (varint_write v) = varint_written_size v" by (simp add: varint_write_leb128 varint_written_size)
  have "\<not> varint_written_size v > VARINT_MAX_SIZE"
    using length_leb128_word(1) [of v] by (simp add: varint_written_size VARINT_MAX_SIZE_def)
  then have "varint_set_in_front v (varint_written_size v) b = set_in_front (varint_write v) b"
    using varint_prefix_bytes [OF refl, of v] by (simp add: varint_set_in_front_def Let_def)
  then show ?thesis using that set_in_front_spec [OF assms(1), of "varint_write v"] assms(2) l by metis
qed

text \<open>C37: Every variable-length integer is written as its base-128 groups, in exactly the announced
  number of bytes and within the maximum; its reader gives it back and leaves the bytes behind it
  untouched, whichever of the word-parallel branches of the writer produced it.
\<close>

theorem var_int_round_trip:
  "varint_write v = leb128 (unat v) \<and> length (varint_write v) = varint_written_size v
    \<and> varint_written_size v \<le> VARINT_MAX_SIZE
    \<and> varint_read (varint_write v @ rest) = Inr (v, rest)
    \<and> varint_read_async (varint_write v @ rest) = Inr (v, rest)
    \<and> varuint_write v = leb128 (unat v) \<and> length (varuint_write v) = varuint_written_size v
    \<and> varuint_read (varuint_write v @ rest) = Inr (v, rest)
    \<and> varlong_write w = leb128 (unat w) \<and> length (varlong_write w) \<le> VARLONG_MAX_SIZE
    \<and> varlong_read (varlong_write w @ rest) = Inr (w, rest)"
  using length_leb128_word
  by (simp add: varint_write_leb128 varuint_write_leb128 varlong_write_leb128 varint_written_size varuint_written_size
      var_reads_leb128 VARINT_MAX_SIZE_def VARLONG_MAX_SIZE_def)

end
