(* ===== verification/Utf8.thy ===== *)
theory Utf8
  imports Var_Int
begin

text \<open>
  Strings on the wire: the lossy UTF-8 decoder of \<open>steel-utils/src/serial/prefixed_read.rs\<close> and
  \<open>read_utf\<close>, the bounded string reader on top of it. A string is the list of its code points. The
  decoder is compared with the standard encoding: it inverts it on every string, and where it pushes
  no replacement character it has read exactly the encoding of what it returns.
\<close>

section \<open>Characters and their encoding\<close>

type_synonym code_point = u32

definition is_scalar :: "code_point \<Rightarrow> bool" where
  "is_scalar c \<longleftrightarrow> c < 0xD800 \<or> (0xE000 \<le> c \<and> c < 0x110000)"

definition REPLACEMENT_CHARACTER :: code_point where
  "REPLACEMENT_CHARACTER = 0xFFFD"

definition char_from_u32 :: "u32 \<Rightarrow> code_point option" where
  "char_from_u32 c = (if is_scalar c then Some c else None)"

text \<open>\<open>char::encode_utf8\<close> and \<open>char::len_utf16\<close>.\<close>

definition utf8_char :: "code_point \<Rightarrow> u8 list" where
  "utf8_char c =
    (let n = unat c
     in if n < 0x80 then [of_nat n]
        else if n < 0x800 then [of_nat (0xC0 + n div 64), of_nat (0x80 + n mod 64)]
        else if n < 0x10000 then [of_nat (0xE0 + n div 4096), of_nat (0x80 + n div 64 mod 64), of_nat (0x80 + n mod 64)]
        else [of_nat (0xF0 + n div 262144), of_nat (0x80 + n div 4096 mod 64), of_nat (0x80 + n div 64 mod 64), of_nat (0x80 + n mod 64)])"

definition utf8_encode :: "code_point list \<Rightarrow> u8 list" where
  "utf8_encode s = concat (map utf8_char s)"

definition len_utf16 :: "code_point \<Rightarrow> nat" where
  "len_utf16 c = (if c < 0x10000 then 1 else 2)"

definition encode_utf16_count :: "code_point list \<Rightarrow> nat" where
  "encode_utf16_count s = sum_list (map len_utf16 s)"

section \<open>Malformed sequences\<close>

definition is_utf8_continuation :: "u8 \<Rightarrow> bool" where
  "is_utf8_continuation byte \<longleftrightarrow> and byte 0xC0 = 0x80"

definition malformed_three_byte_prefix :: "u8 \<Rightarrow> u8 \<Rightarrow> bool" where
  "malformed_three_byte_prefix first second \<longleftrightarrow>
    (first = 0xE0 \<and> and second 0xE0 \<noteq> 0xA0) \<or> \<not> is_utf8_continuation second"

definition malformed_three_byte_sequence :: "u8 \<Rightarrow> u8 \<Rightarrow> u8 \<Rightarrow> bool" where
  "malformed_three_byte_sequence first second third \<longleftrightarrow>
    malformed_three_byte_prefix first second \<or> \<not> is_utf8_continuation third"

definition malformed_three_byte_length :: "u8 \<Rightarrow> u8 \<Rightarrow> nat" where
  "malformed_three_byte_length first second = (if malformed_three_byte_prefix first second then 1 else 2)"

definition malformed_four_byte_second :: "u8 \<Rightarrow> u8 \<Rightarrow> bool" where
  "malformed_four_byte_second first second \<longleftrightarrow>
    (first = 0xF0 \<and> (second < 0x90 \<or> second > 0xBF)) \<or>
    (first = 0xF4 \<and> (second < 0x80 \<or> second > 0x8F)) \<or>
    first > 0xF4 \<or> \<not> is_utf8_continuation second"

definition malformed_four_byte_prefix_length :: "u8 \<Rightarrow> u8 option \<Rightarrow> u8 option \<Rightarrow> nat \<Rightarrow> nat" where
  "malformed_four_byte_prefix_length first second third remaining =
    (case second of
       None \<Rightarrow> 1
     | Some second \<Rightarrow>
         if malformed_four_byte_second first second then 1
         else (case third of
                 Some third \<Rightarrow> if \<not> is_utf8_continuation third then 2 else remaining
               | None \<Rightarrow> remaining))"

definition malformed_four_byte_sequence :: "u8 \<Rightarrow> u8 \<Rightarrow> u8 \<Rightarrow> u8 \<Rightarrow> bool" where
  "malformed_four_byte_sequence first second third fourth \<longleftrightarrow>
    malformed_four_byte_second first second \<or> \<not> is_utf8_continuation third \<or> \<not> is_utf8_continuation fourth"

definition malformed_four_byte_length :: "u8 \<Rightarrow> u8 \<Rightarrow> u8 \<Rightarrow> nat" where
  "malformed_four_byte_length first second third =
    (if malformed_four_byte_second first second then 1
     else if \<not> is_utf8_continuation third then 2 else 3)"

section \<open>The decoder\<close>

text \<open>
  One iteration of the loop, on the bytes from \<open>offset\<close> on: the character it pushes and the bytes it
  advances by. Every iteration pushes exactly one character.
\<close>

definition pushed :: "u32 \<Rightarrow> code_point" where
  "pushed c = (case char_from_u32 c of Some ch \<Rightarrow> ch | None \<Rightarrow> REPLACEMENT_CHARACTER)"

definition slice_get :: "u8 list \<Rightarrow> nat \<Rightarrow> u8 option" where
  "slice_get bytes i = (if i < length bytes then Some (bytes ! i) else None)"

definition decode_step :: "u8 list \<Rightarrow> code_point \<times> nat" where
  "decode_step bytes =
    (let first = bytes ! 0; remaining = length bytes
     in if first < 0x80 then (ucast first, 1)
        else if 0xC2 \<le> first \<and> first \<le> 0xDF then
          (if remaining \<ge> 2 \<and> is_utf8_continuation (bytes ! 1)
           then (pushed (or (push_bit 6 (ucast (and first 0x1F))) (ucast (and (bytes ! 1) 0x3F))), 2)
           else (REPLACEMENT_CHARACTER, 1))
        else if 0xE0 \<le> first \<and> first \<le> 0xEF then
          (if remaining < 3
           then (REPLACEMENT_CHARACTER,
                 if remaining = 1 \<or> malformed_three_byte_prefix first (bytes ! 1) then 1 else remaining)
           else let second = bytes ! 1; third = bytes ! 2
                in if malformed_three_byte_sequence first second third
                   then (REPLACEMENT_CHARACTER, malformed_three_byte_length first second)
                   else (pushed (or (or (push_bit 12 (ucast (and first 0x0F))) (push_bit 6 (ucast (and second 0x3F))))
                                 (ucast (and third 0x3F))), 3))
        else if 0xF0 \<le> first \<and> first \<le> 0xF7 then
          (if remaining < 4
           then (REPLACEMENT_CHARACTER,
                 malformed_four_byte_prefix_length first (slice_get bytes 1) (slice_get bytes 2) remaining)
           else let second = bytes ! 1; third = bytes ! 2; fourth = bytes ! 3
                in if malformed_four_byte_sequence first second third fourth
                   then (REPLACEMENT_CHARACTER, malformed_four_byte_length first second third)
                   else (pushed (or (or (or (push_bit 18 (ucast (and first 0x07))) (push_bit 12 (ucast (and second 0x3F))))
                                     (push_bit 6 (ucast (and third 0x3F)))) (ucast (and fourth 0x3F))), 4))
        else (REPLACEMENT_CHARACTER, 1))"

lemma decode_step_advances: "bytes \<noteq> [] \<Longrightarrow> 0 < snd (decode_step bytes)"
  by (auto simp: decode_step_def Let_def malformed_three_byte_length_def malformed_four_byte_length_def
      malformed_four_byte_prefix_length_def split: option.splits)

function decode_java_utf8_lossy :: "u8 list \<Rightarrow> code_point list" where
  "decode_java_utf8_lossy bytes =
    (if bytes = [] then []
     else let (c, advance) = decode_step bytes in c # decode_java_utf8_lossy (drop advance bytes))"
  by pat_completeness auto
termination
proof (relation "measure length")
  fix bytes :: "u8 list" and x c advance
  assume "bytes \<noteq> []" "x = decode_step bytes" "(c, advance) = x"
  then have "0 < advance" "0 < length bytes" using decode_step_advances [of bytes] by (metis snd_conv, simp)
  then show "(drop advance bytes, bytes) \<in> measure length" by simp
qed simp

declare decode_java_utf8_lossy.simps [simp del]

definition read_utf :: "nat \<Rightarrow> Cursor \<Rightarrow> code_point list reading" where
  "read_utf max_utf16_units data =
    read_then (varint_read data) (\<lambda>encoded_len data.
      if encoded_len <s 0 then Inl (IoError InvalidData ''encoded string length is negative'')
      else let encoded_len = unat encoded_len
           in if max_utf16_units * 3 \<ge> 2 ^ 64 then Inl (IoError InvalidInput ''maximum UTF-16 length is too large'')
              else if encoded_len > max_utf16_units * 3 then Inl (IoError InvalidData ''encoded string length exceeds maximum'')
              else if encoded_len > length data then Inl (IoError UnexpectedEof ''encoded string is truncated'')
              else let decoded = decode_java_utf8_lossy (take encoded_len data)
                   in if encode_utf16_count decoded > max_utf16_units
                      then Inl (IoError InvalidData ''decoded string length exceeds maximum'')
                      else Inr (decoded, drop encoded_len data))"

section \<open>Arithmetic of the bytes\<close>

lemma unat_masks:
  "unat (and b 0x3F :: u8) = unat b mod 64" "unat (and b 0x1F :: u8) = unat b mod 32"
  "unat (and b 0x0F :: u8) = unat b mod 16" "unat (and b 0x07 :: u8) = unat b mod 8"
proof -
  have *: "unat (take_bit k b) = unat b mod 2 ^ k" if "k < 8" for k
    using that by (simp add: unsigned_take_bit_eq) (simp add: take_bit_eq_mod)
  show "unat (and b 0x3F) = unat b mod 64" "unat (and b 0x1F) = unat b mod 32"
    "unat (and b 0x0F) = unat b mod 16" "unat (and b 0x07) = unat b mod 8"
    using * [of 6] * [of 5] * [of 4] * [of 3] by (simp_all add: take_bit_eq_mask mask_numeral)
qed

lemma unat_u8: "unat (b :: u8) < 256"
  using unsigned_less [of b, where 'a = nat] by simp

lemma unat_high_bits: "unat (and (b :: u8) 0xC0) = unat b div 64 * 64" "unat (and (b :: u8) 0xE0) = unat b div 32 * 32"
proof -
  have "and b (push_bit 6 (mask 2)) = push_bit 6 (drop_bit 6 b)" "and b (push_bit 5 (mask 3)) = push_bit 5 (drop_bit 5 b)"
    by (rule bit_word_eqI; auto simp: bit_and_iff bit_push_bit_iff bit_drop_bit_eq bit_mask_iff; fail)+
  then have m: "and b 0xC0 = push_bit 6 (drop_bit 6 b)" "and b 0xE0 = push_bit 5 (drop_bit 5 b)"
    by (simp_all add: mask_numeral push_bit_eq_mult)
  have *: "unat (push_bit k (drop_bit k b)) = unat b div 2 ^ k * 2 ^ k" for k
  proof -
    have "unat b div 2 ^ k * 2 ^ k < 256" using div_times_less_eq_dividend [of "unat b" "2 ^ k"] unat_u8 [of b] by (rule le_less_trans)
    then show ?thesis using unat_u8 [of b]
      by (simp add: unsigned_push_bit_eq unsigned_drop_bit_eq) (simp add: push_bit_eq_mult drop_bit_eq_div take_bit_eq_mod)
  qed
  show "unat (and b 0xC0) = unat b div 64 * 64" "unat (and b 0xE0) = unat b div 32 * 32"
    using * [of 6] * [of 5] m by simp_all
qed

lemma or_disjoint: "x mod 2 ^ k = 0 \<Longrightarrow> y < 2 ^ k \<Longrightarrow> or x y = (x + y :: nat)"
proof -
  assume *: "x mod 2 ^ k = 0" "y < 2 ^ k"
  have "and x y = 0"
  proof (rule bit_eqI)
    fix n
    have "\<not> bit x n" if "n < k" using bit_take_bit_iff [of k x n] * that by (simp add: take_bit_eq_mod)
    then show "bit (and x y) n \<longleftrightarrow> bit (0 :: nat) n" using bit_bound [OF _ *(2), of n] by (auto simp: bit_and_iff)
  qed
  then show ?thesis by (simp add: disjunctive_add_eq_or)
qed

lemma unat_shifted: "unat (push_bit k (ucast (b :: u8)) :: u32) = unat b * 2 ^ k" if "k \<le> 24"
proof -
  have "unat b * 2 ^ k < 256 * 2 ^ 24"
    using unat_u8 [of b] power_increasing [OF that, of "2 :: nat"] by (intro mult_less_le_imp_less) simp_all
  then show ?thesis using unat_u8 [of b]
    by (simp add: unsigned_push_bit_eq unsigned_ucast_eq) (simp add: push_bit_eq_mult take_bit_eq_mod)
qed

lemma unat_widened: "unat (ucast (b :: u8) :: u32) = unat b"
  using unat_u8 [of b] by (simp add: unsigned_ucast_eq take_bit_nat_eq_self_iff)

lemmas byte_tests = word_less_nat_alt word_le_nat_alt word_unat_eq_iff

lemma continuation_range: "is_utf8_continuation b \<longleftrightarrow> unat b div 64 = 2"
  using unat_high_bits(1) [of b] by (simp add: is_utf8_continuation_def byte_tests)

lemma prefix_three_range:
  "malformed_three_byte_prefix f s \<longleftrightarrow> \<not> (unat s div 64 = 2 \<and> (unat f = 0xE0 \<longrightarrow> 0xA0 \<le> unat s))"
proof -
  have "unat s div 32 = 5 \<longleftrightarrow> 160 \<le> unat s \<and> unat s < 192" by linarith
  moreover have "unat s div 64 = 2 \<longleftrightarrow> 128 \<le> unat s \<and> unat s < 192" by linarith
  ultimately show ?thesis using unat_high_bits(2) [of s]
    by (auto simp: malformed_three_byte_prefix_def continuation_range byte_tests)
qed

lemma second_four_range:
  "malformed_four_byte_second f s \<longleftrightarrow>
    \<not> (unat s div 64 = 2 \<and> unat f \<le> 0xF4 \<and> (unat f = 0xF0 \<longrightarrow> 0x90 \<le> unat s) \<and> (unat f = 0xF4 \<longrightarrow> unat s < 0x90))"
proof -
  have "unat s div 64 = 2 \<longleftrightarrow> 128 \<le> unat s \<and> unat s < 192" by linarith
  then show ?thesis by (auto simp: malformed_four_byte_second_def continuation_range byte_tests)
qed

text \<open>The code points the three branches assemble.\<close>

lemma group_sums:
  "(a * 64) mod 2 ^ 6 = (0 :: nat)" "(a * 4096 + b * 64) mod 2 ^ 6 = (0 :: nat)"
  "(a * 262144 + b * 4096) mod 2 ^ 12 = (0 :: nat)" "(a * 262144 + b * 4096 + c * 64) mod 2 ^ 6 = (0 :: nat)"
  "(a * 4096) mod 2 ^ 12 = (0 :: nat)" "(a * 262144) mod 2 ^ 18 = (0 :: nat)"
  by (simp_all add: mod_eq_0_iff_dvd dvd_add)

lemmas assemble = unsigned_or_eq unat_shifted unat_widened unat_masks

lemma unat_two: "unat (or (push_bit 6 (ucast (and f 0x1F))) (ucast (and s 0x3F)) :: u32) = unat (f :: u8) mod 32 * 64 + unat (s :: u8) mod 64"
  using or_disjoint [OF group_sums(1), of "unat s mod 64" "unat f mod 32"]
  by (simp add: assemble)

lemma unat_three:
  "unat (or (or (push_bit 12 (ucast (and f 0x0F))) (push_bit 6 (ucast (and s 0x3F)))) (ucast (and t 0x3F)) :: u32)
    = unat (f :: u8) mod 16 * 4096 + unat (s :: u8) mod 64 * 64 + unat (t :: u8) mod 64"
  using or_disjoint [OF group_sums(5), of "unat s mod 64 * 64" "unat f mod 16"]
    or_disjoint [OF group_sums(2), of "unat t mod 64" "unat f mod 16" "unat s mod 64"]
  by (simp add: assemble)

lemma unat_four:
  "unat (or (or (or (push_bit 18 (ucast (and f 0x07))) (push_bit 12 (ucast (and s 0x3F)))) (push_bit 6 (ucast (and t 0x3F)))) (ucast (and u 0x3F)) :: u32)
    = unat (f :: u8) mod 8 * 262144 + unat (s :: u8) mod 64 * 4096 + unat (t :: u8) mod 64 * 64 + unat (u :: u8) mod 64"
  using or_disjoint [OF group_sums(6), of "unat s mod 64 * 4096" "unat f mod 8"]
    or_disjoint [OF group_sums(3), of "unat t mod 64 * 64" "unat f mod 8" "unat s mod 64"]
    or_disjoint [OF group_sums(4), of "unat u mod 64" "unat f mod 8" "unat s mod 64" "unat t mod 64"]
  by (simp add: assemble)

section \<open>The decoder inverts the encoding\<close>

lemma is_scalar_nat: "is_scalar c \<longleftrightarrow> unat c < 0xD800 \<or> (0xE000 \<le> unat c \<and> unat c < 0x110000)"
  by (simp add: is_scalar_def byte_tests)

lemma pushed_scalar: "is_scalar c \<Longrightarrow> unat w = unat c \<Longrightarrow> pushed w = c"
  by (simp add: pushed_def char_from_u32_def word_unat_eq_iff [symmetric])

lemma is_scalar_pushed: "is_scalar (pushed w)" "is_scalar REPLACEMENT_CHARACTER"
  "pushed w \<noteq> REPLACEMENT_CHARACTER \<Longrightarrow> pushed w = w"
  by (auto simp: pushed_def char_from_u32_def REPLACEMENT_CHARACTER_def is_scalar_def)

lemma unat_byte: "n < 256 \<Longrightarrow> unat (of_nat n :: u8) = n"
  by (simp add: unat_of_nat)

lemma byte_groups:
  "a < 32 \<Longrightarrow> (192 + a) mod 32 = (a :: nat)" "a < 16 \<Longrightarrow> (224 + a) mod 16 = (a :: nat)"
  "a < 8 \<Longrightarrow> (240 + a) mod 8 = (a :: nat)" "(128 + a mod 64) mod 64 = (a mod 64 :: nat)"
  "(128 + a mod 64) div 64 = (2 :: nat)"
proof -
  have e: "192 + a = a + 32 * 6" "224 + a = a + 16 * 14" "240 + a = a + 8 * 30" "128 + a mod 64 = a mod 64 + 64 * 2" by simp_all
  show "a < 32 \<Longrightarrow> (192 + a) mod 32 = a" "a < 16 \<Longrightarrow> (224 + a) mod 16 = a" "a < 8 \<Longrightarrow> (240 + a) mod 8 = a"
    "(128 + a mod 64) mod 64 = a mod 64" "(128 + a mod 64) div 64 = 2"
    unfolding e mod_mult_self2 by simp_all
qed

lemma recompose:
  "n div 64 * 64 + n mod 64 = (n :: nat)"
  "n div 4096 * 4096 + n div 64 mod 64 * 64 + n mod 64 = (n :: nat)"
  "n div 262144 * 262144 + n div 4096 mod 64 * 4096 + n div 64 mod 64 * 64 + n mod 64 = (n :: nat)"
proof -
  have a: "n div 64 * 64 + n mod 64 = n" by (rule div_mult_mod_eq)
  have b: "n div 4096 * 64 + n div 64 mod 64 = n div 64"
    using div_mult_mod_eq [of "n div 64" 64] by (simp add: div_mult2_eq [symmetric])
  have c: "n div 262144 * 64 + n div 4096 mod 64 = n div 4096"
    using div_mult_mod_eq [of "n div 4096" 64] by (simp add: div_mult2_eq [symmetric])
  show "n div 64 * 64 + n mod 64 = n" by (rule a)
  show "n div 4096 * 4096 + n div 64 mod 64 * 64 + n mod 64 = n" using a b by linarith
  then show "n div 262144 * 262144 + n div 4096 mod 64 * 4096 + n div 64 mod 64 * 64 + n mod 64 = n" using c by linarith
qed

lemma three_groups: "n < 0x10000 \<Longrightarrow> n div 4096 < (16 :: nat)" "0x800 \<le> n \<Longrightarrow> n div 4096 = 0 \<Longrightarrow> 32 \<le> n div 64 mod (64 :: nat)"
proof -
  show "n div 4096 < (16 :: nat)" if "n < 0x10000" using that by linarith
  assume "0x800 \<le> n" "n div 4096 = 0"
  then have "32 \<le> n div 64" "n div 64 < 64" by linarith+
  then show "32 \<le> n div 64 mod (64 :: nat)" by simp
qed

lemma four_groups:
  "n < 0x110000 \<Longrightarrow> n div 262144 \<le> (4 :: nat)"
  "0x10000 \<le> n \<Longrightarrow> n div 262144 = 0 \<Longrightarrow> 16 \<le> n div 4096 mod (64 :: nat)"
  "n < 0x110000 \<Longrightarrow> n div 262144 = 4 \<Longrightarrow> n div 4096 mod 64 < (16 :: nat)"
proof -
  show "n div 262144 \<le> (4 :: nat)" if "n < 0x110000" using that by linarith
  show "16 \<le> n div 4096 mod (64 :: nat)" if "0x10000 \<le> n" "n div 262144 = 0"
  proof -
    have "16 \<le> n div 4096" "n div 4096 < 64" using that by linarith+
    then show ?thesis by simp
  qed
  assume "n < 0x110000" "n div 262144 = 4"
  moreover have "n div 4096 div 64 = n div 262144" by (simp add: div_mult2_eq [symmetric])
  moreover have "n div 4096 < 272" using \<open>n < 0x110000\<close> by linarith
  moreover have "n div 4096 div 64 * 64 + n div 4096 mod 64 = n div 4096" by (rule div_mult_mod_eq)
  ultimately show "n div 4096 mod 64 < (16 :: nat)" by simp
qed

lemma decode_two:
  assumes "0x80 \<le> unat c" "unat c < 0x800"
  shows "decode_step (utf8_char c @ rest) = (c, length (utf8_char c))"
proof -
  define n where "n = unat c"
  define f s where "f = (of_nat (0xC0 + n div 64) :: u8)" and "s = (of_nat (0x80 + n mod 64) :: u8)"
  have n: "2 \<le> n div 64" "n div 64 < 32" using assms unfolding n_def by linarith+
  then have u: "unat f = 0xC0 + n div 64" "unat s = 0x80 + n mod 64"
    unfolding f_def s_def by (intro unat_byte; simp)+
  have e: "utf8_char c = [f, s]" using assms by (simp add: utf8_char_def Let_def f_def s_def n_def)
  have "unat f mod 32 * 64 + unat s mod 64 = n" using u n recompose(1) [of n] by (simp add: byte_groups)
  then have "pushed (or (push_bit 6 (ucast (and f 0x1F))) (ucast (and s 0x3F))) = c"
    using assms by (intro pushed_scalar) (simp_all add: is_scalar_nat unat_two n_def)
  moreover have "is_utf8_continuation s" using u by (simp add: continuation_range byte_groups)
  ultimately show ?thesis using n u unfolding e by (simp add: decode_step_def byte_tests)
qed

lemma decode_three:
  assumes "0x800 \<le> unat c" "unat c < 0x10000" "is_scalar c"
  shows "decode_step (utf8_char c @ rest) = (c, length (utf8_char c))"
proof -
  define n where "n = unat c"
  define f s t where "f = (of_nat (0xE0 + n div 4096) :: u8)" and "s = (of_nat (0x80 + n div 64 mod 64) :: u8)" and "t = (of_nat (0x80 + n mod 64) :: u8)"
  have n: "n div 4096 < 16" "n div 4096 = 0 \<longrightarrow> 32 \<le> n div 64 mod 64"
    using assms three_groups [of n] unfolding n_def by simp_all
  then have u: "unat f = 0xE0 + n div 4096" "unat s = 0x80 + n div 64 mod 64" "unat t = 0x80 + n mod 64"
    unfolding f_def s_def t_def by (intro unat_byte; simp)+
  have e: "utf8_char c = [f, s, t]" using assms by (simp add: utf8_char_def Let_def f_def s_def t_def n_def)
  have "unat f mod 16 * 4096 + unat s mod 64 * 64 + unat t mod 64 = n"
    using u n recompose(2) [of n] by (simp add: byte_groups)
  then have "pushed (or (or (push_bit 12 (ucast (and f 0x0F))) (push_bit 6 (ucast (and s 0x3F)))) (ucast (and t 0x3F))) = c"
    using assms by (intro pushed_scalar) (simp_all add: unat_three n_def)
  moreover have "\<not> malformed_three_byte_sequence f s t"
    using u n by (auto simp: malformed_three_byte_sequence_def prefix_three_range continuation_range byte_groups)
  ultimately show ?thesis using n u unfolding e by (simp add: decode_step_def byte_tests)
qed

lemma decode_four:
  assumes "0x10000 \<le> unat c" "is_scalar c"
  shows "decode_step (utf8_char c @ rest) = (c, length (utf8_char c))"
proof -
  define n where "n = unat c"
  define f s t u where "f = (of_nat (0xF0 + n div 262144) :: u8)" and "s = (of_nat (0x80 + n div 4096 mod 64) :: u8)"
    and "t = (of_nat (0x80 + n div 64 mod 64) :: u8)" and "u = (of_nat (0x80 + n mod 64) :: u8)"
  have b: "0x10000 \<le> n" "n < 0x110000" using assms by (simp_all add: is_scalar_nat n_def)
  then have n: "n div 262144 \<le> 4" "n div 262144 = 0 \<longrightarrow> 16 \<le> n div 4096 mod 64" "n div 262144 = 4 \<longrightarrow> n div 4096 mod 64 < 16"
    using four_groups [of n] by simp_all
  then have un: "unat f = 0xF0 + n div 262144" "unat s = 0x80 + n div 4096 mod 64" "unat t = 0x80 + n div 64 mod 64" "unat u = 0x80 + n mod 64"
    unfolding f_def s_def t_def u_def by (intro unat_byte; simp)+
  have e: "utf8_char c = [f, s, t, u]" using b by (simp add: utf8_char_def Let_def f_def s_def t_def u_def n_def)
  have "unat f mod 8 * 262144 + unat s mod 64 * 4096 + unat t mod 64 * 64 + unat u mod 64 = n"
    using un n recompose(3) [of n] by (simp add: byte_groups)
  then have "pushed (or (or (or (push_bit 18 (ucast (and f 0x07))) (push_bit 12 (ucast (and s 0x3F)))) (push_bit 6 (ucast (and t 0x3F)))) (ucast (and u 0x3F))) = c"
    using assms by (intro pushed_scalar) (simp_all add: unat_four n_def)
  moreover have "\<not> malformed_four_byte_sequence f s t u"
    using un n by (auto simp: malformed_four_byte_sequence_def second_four_range continuation_range byte_groups)
  ultimately show ?thesis using n un unfolding e by (simp add: decode_step_def byte_tests)
qed

lemma decode_step_char: "is_scalar c \<Longrightarrow> decode_step (utf8_char c @ rest) = (c, length (utf8_char c))"
proof -
  assume c: "is_scalar c"
  consider "unat c < 0x80" | "0x80 \<le> unat c" "unat c < 0x800" | "0x800 \<le> unat c" "unat c < 0x10000" | "0x10000 \<le> unat c" by linarith
  then show ?thesis
  proof cases
    case 1
    then have "unat (ucast c :: u8) = unat c" by (simp add: unsigned_ucast_eq take_bit_nat_eq_self_iff)
    then show ?thesis using 1 by (simp add: utf8_char_def decode_step_def byte_tests Let_def unat_widened of_nat_unat)
  qed (use c in \<open>blast intro: decode_two decode_three decode_four\<close>)+
qed

lemma utf8_char_nonempty: "utf8_char c \<noteq> []"
  by (simp add: utf8_char_def Let_def)

lemma decode_encode: "list_all is_scalar s \<Longrightarrow> decode_java_utf8_lossy (utf8_encode s) = s"
proof (induction s)
  case Nil
  then show ?case by (simp add: utf8_encode_def decode_java_utf8_lossy.simps)
next
  case (Cons c s)
  then show ?case using decode_step_char [of c "utf8_encode s"] utf8_char_nonempty [of c]
    by (simp add: utf8_encode_def decode_java_utf8_lossy.simps [of "utf8_char c @ _"])
qed

section \<open>What the decoder accepts\<close>

lemma of_nat_byte: "unat b = n \<Longrightarrow> of_nat n = (b :: u8)"
  by auto

lemma top_bytes:
  "0xC0 \<le> f \<Longrightarrow> f < 0xE0 \<Longrightarrow> 0xC0 + f mod 32 = (f :: nat)" "0xE0 \<le> f \<Longrightarrow> f < 0xF0 \<Longrightarrow> 0xE0 + f mod 16 = (f :: nat)"
  "0xF0 \<le> f \<Longrightarrow> f < 0xF8 \<Longrightarrow> 0xF0 + f mod 8 = (f :: nat)" "b div 64 = 2 \<Longrightarrow> 0x80 + b mod 64 = (b :: nat)"
proof -
  note e = div_mult_mod_eq
  show "0xC0 + f mod 32 = f" if "0xC0 \<le> f" "f < 0xE0"
  proof -
    have "f div 32 = 6" using that by (intro div_nat_eqI) simp_all
    then show ?thesis using e [of f 32] by simp
  qed
  show "0xE0 + f mod 16 = f" if "0xE0 \<le> f" "f < 0xF0"
  proof -
    have "f div 16 = 14" using that by (intro div_nat_eqI) simp_all
    then show ?thesis using e [of f 16] by simp
  qed
  show "0xF0 + f mod 8 = f" if "0xF0 \<le> f" "f < 0xF8"
  proof -
    have "f div 8 = 30" using that by (intro div_nat_eqI) simp_all
    then show ?thesis using e [of f 8] by simp
  qed
  show "0x80 + b mod 64 = b" if "b div 64 = 2" using that e [of b 64] by simp
qed

lemma digits_64:
  "b < 64 \<Longrightarrow> (a * 64 + b) div 64 = (a :: nat)" "b < 64 \<Longrightarrow> (a * 64 + b) mod 64 = (b :: nat)"
  by simp_all

lemma utf8_char_two:
  assumes "0xC2 \<le> unat f" "unat f < 0xE0" "unat s div 64 = 2" "unat w = unat f mod 32 * 64 + unat s mod 64"
  shows "utf8_char w = [f, s]"
proof -
  have n: "unat w div 64 = unat f mod 32" "unat w mod 64 = unat s mod 64" using assms(4) by simp_all
  have "2 \<le> unat f mod 32" "unat f mod 32 < 32" using assms(1,2) top_bytes(1) [of "unat f"] by linarith+
  then have "0x80 \<le> unat w" "unat w < 0x800" using assms(4) by linarith+
  then show ?thesis using assms n top_bytes by (simp add: utf8_char_def Let_def of_nat_byte del: of_nat_add of_nat_numeral)
qed

lemma utf8_char_three:
  assumes "0xE0 \<le> unat f" "unat f < 0xF0" "unat s div 64 = 2" "unat t div 64 = 2" "unat f = 0xE0 \<longrightarrow> 0xA0 \<le> unat s"
    and w: "unat w = unat f mod 16 * 4096 + unat s mod 64 * 64 + unat t mod 64"
  shows "utf8_char w = [f, s, t]"
proof -
  have e: "unat w = (unat f mod 16 * 64 + unat s mod 64) * 64 + unat t mod 64" unfolding w by (simp add: algebra_simps)
  have n: "unat w div 64 = unat f mod 16 * 64 + unat s mod 64" "unat w mod 64 = unat t mod 64"
    unfolding e by (rule digits_64, simp)+
  moreover have "unat w div 4096 = unat w div 64 div 64" by (simp add: div_mult2_eq [symmetric])
  ultimately have m: "unat w div 4096 = unat f mod 16" "unat w div 64 mod 64 = unat s mod 64" by simp_all
  have "unat f mod 16 = 0 \<longrightarrow> 32 \<le> unat s mod 64"
    using assms top_bytes(2) [of "unat f"] top_bytes(4) [of "unat s"] by linarith
  then have "0x800 \<le> unat w" "unat w < 0x10000" using w by (cases "unat f mod 16 = 0"; linarith)+
  then have "utf8_char w = [of_nat (0xE0 + unat w div 4096), of_nat (0x80 + unat w div 64 mod 64), of_nat (0x80 + unat w mod 64)]"
    unfolding utf8_char_def Let_def by simp
  then show ?thesis unfolding m n(2) top_bytes(2) [OF assms(1,2)] top_bytes(4) [OF assms(3)] top_bytes(4) [OF assms(4)] by simp
qed

lemma utf8_char_four:
  assumes "0xF0 \<le> unat f" "unat f \<le> 0xF4" "unat s div 64 = 2" "unat t div 64 = 2" "unat u div 64 = 2" "unat f = 0xF0 \<longrightarrow> 0x90 \<le> unat s"
    and w: "unat w = unat f mod 8 * 262144 + unat s mod 64 * 4096 + unat t mod 64 * 64 + unat u mod 64"
  shows "utf8_char w = [f, s, t, u]"
proof -
  have e: "unat w = ((unat f mod 8 * 64 + unat s mod 64) * 64 + unat t mod 64) * 64 + unat u mod 64" unfolding w by (simp add: algebra_simps)
  have n: "unat w div 64 = (unat f mod 8 * 64 + unat s mod 64) * 64 + unat t mod 64" "unat w mod 64 = unat u mod 64"
    unfolding e by (rule digits_64, simp)+
  have n2: "unat w div 64 div 64 = unat f mod 8 * 64 + unat s mod 64" "unat w div 64 mod 64 = unat t mod 64"
    unfolding n(1) by (rule digits_64, simp)+
  have n3: "unat w div 64 div 64 div 64 = unat f mod 8" "unat w div 64 div 64 mod 64 = unat s mod 64"
    unfolding n2(1) by (rule digits_64, simp)+
  have "unat w div 4096 = unat w div 64 div 64" "unat w div 262144 = unat w div 64 div 64 div 64" by (simp_all add: div_mult2_eq [symmetric])
  then have m: "unat w div 4096 mod 64 = unat s mod 64" "unat w div 64 mod 64 = unat t mod 64" "unat w div 262144 = unat f mod 8"
    using n2 n3 by metis+
  have "unat f mod 8 = 0 \<longrightarrow> 16 \<le> unat s mod 64"
    using assms top_bytes(3) [of "unat f"] top_bytes(4) [of "unat s"] by linarith
  then have "0x10000 \<le> unat w" using w by (cases "unat f mod 8 = 0"; linarith)
  then have "utf8_char w = [of_nat (0xF0 + unat w div 262144), of_nat (0x80 + unat w div 4096 mod 64),
      of_nat (0x80 + unat w div 64 mod 64), of_nat (0x80 + unat w mod 64)]"
    unfolding utf8_char_def Let_def by simp
  moreover have "unat f < 0xF8" using assms(2) by linarith
  ultimately show ?thesis
    unfolding m n(2) top_bytes(3) [OF assms(1) \<open>unat f < 0xF8\<close>] top_bytes(4) [OF assms(3)] top_bytes(4) [OF assms(4)] top_bytes(4) [OF assms(5)]
    by simp
qed

definition sound_step :: "u8 list \<Rightarrow> code_point \<times> nat \<Rightarrow> bool" where
  "sound_step bytes = (\<lambda>(c, k). is_scalar c \<and> k \<le> length bytes \<and> len_utf16 c \<le> k
    \<and> (c \<noteq> REPLACEMENT_CHARACTER \<longrightarrow> take k bytes = utf8_char c))"

lemma sound_replacement: "0 < k \<Longrightarrow> k \<le> length bytes \<Longrightarrow> sound_step bytes (REPLACEMENT_CHARACTER, k)"
  by (simp add: sound_step_def is_scalar_pushed(2)) (simp add: REPLACEMENT_CHARACTER_def len_utf16_def)

lemma sound_pushed: "2 \<le> k \<Longrightarrow> k \<le> length bytes \<Longrightarrow> utf8_char w = take k bytes \<Longrightarrow> sound_step bytes (pushed w, k)"
  using is_scalar_pushed(1) [of w] is_scalar_pushed(3) [of w] by (auto simp: sound_step_def len_utf16_def)

lemma sound_two:
  assumes "0xC2 \<le> f" "f \<le> 0xDF"
  shows "sound_step (f # bs) (decode_step (f # bs))"
proof (cases "bs \<noteq> [] \<and> is_utf8_continuation (bs ! 0)")
  case True
  then obtain s cs where bs: "bs = s # cs" "is_utf8_continuation s" by (cases bs) auto
  have "utf8_char (or (push_bit 6 (ucast (and f 0x1F))) (ucast (and s 0x3F))) = [f, s]"
    using assms bs by (intro utf8_char_two) (simp_all add: byte_tests continuation_range unat_two)
  then show ?thesis using assms bs by (auto simp: decode_step_def byte_tests intro!: sound_pushed)
next
  case False
  then show ?thesis using assms by (auto simp: decode_step_def byte_tests intro!: sound_replacement)
qed

lemma sound_three:
  assumes "0xE0 \<le> f" "f \<le> 0xEF"
  shows "sound_step (f # bs) (decode_step (f # bs))"
proof (cases "2 \<le> length bs \<and> \<not> malformed_three_byte_sequence f (bs ! 0) (bs ! 1)")
  case True
  then obtain s t cs where bs: "bs = s # t # cs" "\<not> malformed_three_byte_sequence f s t"
    by (cases bs; cases "tl bs") (auto simp: Suc_le_eq)
  then have "utf8_char (or (or (push_bit 12 (ucast (and f 0x0F))) (push_bit 6 (ucast (and s 0x3F)))) (ucast (and t 0x3F))) = [f, s, t]"
    using assms by (intro utf8_char_three) (auto simp: byte_tests malformed_three_byte_sequence_def prefix_three_range continuation_range unat_three)
  then show ?thesis using assms bs by (auto simp: decode_step_def byte_tests intro!: sound_pushed)
next
  case False
  then show ?thesis using assms
    by (auto simp: decode_step_def byte_tests malformed_three_byte_length_def Let_def intro!: sound_replacement)
qed

lemma sound_four:
  assumes "0xF0 \<le> f" "f \<le> 0xF7"
  shows "sound_step (f # bs) (decode_step (f # bs))"
proof (cases "3 \<le> length bs \<and> \<not> malformed_four_byte_sequence f (bs ! 0) (bs ! 1) (bs ! 2)")
  case True
  then obtain s t u cs where bs: "bs = s # t # u # cs" "\<not> malformed_four_byte_sequence f s t u"
    by (cases bs; cases "tl bs"; cases "tl (tl bs)") (auto simp: numeral_3_eq_3)
  then have "utf8_char (or (or (or (push_bit 18 (ucast (and f 0x07))) (push_bit 12 (ucast (and s 0x3F)))) (push_bit 6 (ucast (and t 0x3F)))) (ucast (and u 0x3F))) = [f, s, t, u]"
    using assms by (intro utf8_char_four) (auto simp: byte_tests malformed_four_byte_sequence_def second_four_range continuation_range unat_four)
  then show ?thesis using assms bs by (auto simp: decode_step_def byte_tests intro!: sound_pushed)
next
  case False
  then show ?thesis using assms
    by (auto simp: decode_step_def byte_tests malformed_four_byte_length_def malformed_four_byte_prefix_length_def slice_get_def
        Let_def intro!: sound_replacement split: option.splits if_splits)
qed

lemma decode_step_sound:
  assumes "bytes \<noteq> []"
  shows "sound_step bytes (decode_step bytes)"
proof -
  obtain f bs where b: "bytes = f # bs" using assms by (cases bytes) auto
  consider "f < 0x80" | "0xC2 \<le> f" "f \<le> 0xDF" | "0xE0 \<le> f" "f \<le> 0xEF" | "0xF0 \<le> f" "f \<le> 0xF7"
    | "\<not> f < 0x80" "\<not> (0xC2 \<le> f \<and> f \<le> 0xDF)" "\<not> (0xE0 \<le> f \<and> f \<le> 0xEF)" "\<not> (0xF0 \<le> f \<and> f \<le> 0xF7)" by blast
  then show ?thesis
  proof cases
    case 1
    then show ?thesis
      by (simp add: b decode_step_def sound_step_def is_scalar_nat len_utf16_def utf8_char_def byte_tests unat_widened Let_def of_nat_byte)
  next
    case 5
    have "decode_step bytes = (REPLACEMENT_CHARACTER, 1)"
      unfolding decode_step_def Let_def b nth_Cons_0 if_not_P [OF 5(1)] if_not_P [OF 5(2)] if_not_P [OF 5(3)] if_not_P [OF 5(4)] ..
    then show ?thesis using assms by (simp add: sound_replacement Suc_le_eq)
  qed (simp_all only: b sound_two sound_three sound_four)
qed

lemma decode_sound:
  "list_all is_scalar (decode_java_utf8_lossy bytes) \<and> encode_utf16_count (decode_java_utf8_lossy bytes) \<le> length bytes
    \<and> (REPLACEMENT_CHARACTER \<notin> set (decode_java_utf8_lossy bytes) \<longrightarrow> utf8_encode (decode_java_utf8_lossy bytes) = bytes)"
proof (induction bytes rule: decode_java_utf8_lossy.induct)
  case (1 bytes)
  show ?case
  proof (cases "bytes = []")
    case True
    then show ?thesis by (simp add: decode_java_utf8_lossy.simps utf8_encode_def encode_utf16_count_def)
  next
    case False
    obtain c k where ck: "decode_step bytes = (c, k)" by (cases "decode_step bytes")
    have st: "is_scalar c" "k \<le> length bytes" "len_utf16 c \<le> k" "c \<noteq> REPLACEMENT_CHARACTER \<longrightarrow> take k bytes = utf8_char c"
      using decode_step_sound [OF False] by (simp_all add: ck sound_step_def)
    have d: "decode_java_utf8_lossy bytes = c # decode_java_utf8_lossy (drop k bytes)"
      using False ck by (simp add: decode_java_utf8_lossy.simps [of bytes])
    have ih: "list_all is_scalar (decode_java_utf8_lossy (drop k bytes))"
      "encode_utf16_count (decode_java_utf8_lossy (drop k bytes)) \<le> length (drop k bytes)"
      "REPLACEMENT_CHARACTER \<notin> set (decode_java_utf8_lossy (drop k bytes)) \<longrightarrow> utf8_encode (decode_java_utf8_lossy (drop k bytes)) = drop k bytes"
      using 1 [OF False refl, of c k] ck by auto
    have "utf8_encode (c # decode_java_utf8_lossy (drop k bytes)) = take k bytes @ drop k bytes"
      if "REPLACEMENT_CHARACTER \<notin> set (c # decode_java_utf8_lossy (drop k bytes))"
    proof -
      have "utf8_char c = take k bytes" "utf8_encode (decode_java_utf8_lossy (drop k bytes)) = drop k bytes" using that ih(3) st(4) by auto
      then show ?thesis by (simp only: utf8_encode_def list.map concat.simps)
    qed
    then show ?thesis using ih st unfolding d by (auto simp: encode_utf16_count_def)
  qed
qed

section \<open>Bounded strings\<close>

lemma utf8_char_length: "is_scalar c \<Longrightarrow> length (utf8_char c) \<le> 3 * len_utf16 c"
  by (simp add: utf8_char_def len_utf16_def byte_tests Let_def)

lemma utf8_encode_length: "list_all is_scalar s \<Longrightarrow> length (utf8_encode s) \<le> 3 * encode_utf16_count s"
proof (induction s)
  case (Cons c s)
  then show ?case using utf8_char_length [of c] by (simp add: utf8_encode_def encode_utf16_count_def)
qed (simp add: utf8_encode_def)

lemma length_prefix: "n < 2 ^ 31 \<Longrightarrow> unat (varint_from_usize n) = n" "n < 2 ^ 31 \<Longrightarrow> \<not> varint_from_usize n <s 0"
proof -
  assume n: "n < 2 ^ 31"
  show u: "unat (varint_from_usize n) = n" using n by (simp add: varint_from_usize_def unat_of_nat)
  have "sint (varint_from_usize n) = int n"
    using n signed_take_bit_int_eq_self [of 31 "int n"] by (simp add: varint_from_usize_def signed_of_nat)
  then show "\<not> varint_from_usize n <s 0" by (simp add: word_sless_alt)
qed

lemma varint_reads_written [simp]: "varint_read (varint_write v @ rest) = Inr (v, rest)"
  by (simp add: varint_write_leb128 var_reads_leb128)

text \<open>A string written with its byte length in front is read back by \<open>read_utf\<close> when it has at most the
  allowed number of UTF-16 units, and refused as too long otherwise: by its byte length when that is
  more than three times the bound, else after decoding.
\<close>

lemma read_utf_round_trip:
  assumes "list_all is_scalar s" "length (utf8_encode s) < 2 ^ 31" "max_units * 3 < 2 ^ 64"
  shows "read_utf max_units (varint_write (varint_from_usize (length (utf8_encode s))) @ utf8_encode s @ rest) =
    (if encode_utf16_count s \<le> max_units then Inr (s, rest)
     else if length (utf8_encode s) > max_units * 3 then Inl (IoError InvalidData ''encoded string length exceeds maximum'')
     else Inl (IoError InvalidData ''decoded string length exceeds maximum''))"
proof -
  have "encode_utf16_count s \<le> max_units \<Longrightarrow> \<not> max_units * 3 < length (utf8_encode s)"
    using utf8_encode_length [OF assms(1)] by linarith
  then show ?thesis using assms(2,3) length_prefix [OF assms(2)] decode_encode [OF assms(1)]
    by (auto simp: read_utf_def Let_def)
qed

text \<open>C38: Whatever the bytes are, a string \<open>read_utf\<close> returns consists of Unicode scalar values, has at most
  the allowed number of UTF-16 units, and was announced with the length of the bytes consumed; if
  no replacement character is in it, those bytes are exactly its encoding.
\<close>

theorem read_utf_typed:
  assumes "read_utf max_units data = Inr (s, rest)"
  shows "list_all is_scalar s \<and> encode_utf16_count s \<le> max_units \<and>
    (\<exists>len body. varint_read data = Inr (len, body @ rest) \<and> length body = unat len \<and> s = decode_java_utf8_lossy body
      \<and> (REPLACEMENT_CHARACTER \<notin> set s \<longrightarrow> body = utf8_encode s))"
proof -
  obtain len mid where *: "varint_read data = Inr (len, mid)" "unat len \<le> length mid" "s = decode_java_utf8_lossy (take (unat len) mid)"
    "encode_utf16_count s \<le> max_units" "rest = drop (unat len) mid"
    using assms by (auto simp: read_utf_def read_then_Inr Let_def not_less split: if_splits)
  then show ?thesis using decode_sound [of "take (unat len) mid"]
    by (auto intro!: exI [of _ len] exI [of _ "take (unat len) mid"])
qed

theorem read_utf_typed_witness:
  "list_all is_scalar [0x41, REPLACEMENT_CHARACTER] \<and> encode_utf16_count [0x41, REPLACEMENT_CHARACTER] \<le> 2 \<and>
    (\<exists>len body. varint_read [2, 0x41, 0xFF, 9] = Inr (len, body @ [9]) \<and> length body = unat len
      \<and> [0x41, REPLACEMENT_CHARACTER] = decode_java_utf8_lossy body
      \<and> (REPLACEMENT_CHARACTER \<notin> set [0x41, REPLACEMENT_CHARACTER] \<longrightarrow> body = utf8_encode [0x41, REPLACEMENT_CHARACTER]))"
proof -
  have "decode_step [0x41, 0xFF] = (0x41, 1)" "decode_step [0xFF] = (REPLACEMENT_CHARACTER, 1)"
    by (simp_all add: decode_step_def Let_def)
  then have "decode_java_utf8_lossy [0x41, 0xFF] = [0x41, REPLACEMENT_CHARACTER]"
    by (simp add: decode_java_utf8_lossy.simps [of "[0x41, 0xFF]"] decode_java_utf8_lossy.simps [of "[0xFF]"] decode_java_utf8_lossy.simps [of "[]"])
  moreover have "varint_read [2, 0x41, 0xFF, 9] = Inr (2, [0x41, 0xFF, 9])"
    using varint_reads_written [of 2 "[0x41, 0xFF, 9]"] by (simp add: varint_write_def)
  moreover have "encode_utf16_count [0x41, REPLACEMENT_CHARACTER] = 2"
    by (simp add: encode_utf16_count_def len_utf16_def REPLACEMENT_CHARACTER_def)
  ultimately have "read_utf 2 [2, 0x41, 0xFF, 9] = Inr ([0x41, REPLACEMENT_CHARACTER], [9])"
    by (simp add: read_utf_def Let_def word_sless_alt)
  from read_utf_typed [OF this] show ?thesis .
qed

end
