(* ===== verification/Serial.thy ===== *)
theory Serial
  imports Positions Identifiers Utf8
begin

text \<open>
  The serial layer of \<open>steel-utils/src/serial\<close>: options, arrays, prefixed vectors and strings, the
  identifiers, positions and UUIDs built from them, and the bit set codec of \<open>codec/bit_set.rs\<close>. A
  writer returns its bytes or an error. The locale \<open>length_prefix\<close> is what a prefix type has to
  provide; every container codec is proved once against it and the contract of its elements.
\<close>

section \<open>Options, arrays and pairs\<close>

type_synonym writing = "IoError + u8 list"

fun write_then :: "writing \<Rightarrow> writing \<Rightarrow> writing" where
  "write_then (Inl e) b = Inl e"
| "write_then (Inr xs) (Inl e) = Inl e"
| "write_then (Inr xs) (Inr ys) = Inr (xs @ ys)"

primrec write_slice :: "('a \<Rightarrow> writing) \<Rightarrow> 'a list \<Rightarrow> writing" where
  "write_slice wr [] = Inr []"
| "write_slice wr (x # xs) = write_then (wr x) (write_slice wr xs)"

definition option_write :: "('a \<Rightarrow> writing) \<Rightarrow> 'a option \<Rightarrow> writing" where
  "option_write wr v = (case v of
     Some x \<Rightarrow> write_then (Inr (bool_write True)) (wr x)
   | None \<Rightarrow> Inr (bool_write False))"

definition option_read :: "(Cursor \<Rightarrow> 'a reading) \<Rightarrow> Cursor \<Rightarrow> 'a option reading" where
  "option_read rd data = read_then (bool_read data) (\<lambda>b data.
     if b then read_then (rd data) (\<lambda>x data. Inr (Some x, data)) else Inr (None, data))"

definition array_write :: "('a \<Rightarrow> writing) \<Rightarrow> 'a list \<Rightarrow> writing" where
  "array_write wr xs = write_slice wr xs"

primrec array_read :: "(Cursor \<Rightarrow> 'a reading) \<Rightarrow> nat \<Rightarrow> Cursor \<Rightarrow> 'a list reading" where
  "array_read rd 0 data = Inr ([], data)"
| "array_read rd (Suc n) data =
    read_then (rd data) (\<lambda>x data. read_then (array_read rd n data) (\<lambda>xs data. Inr (x # xs, data)))"

definition pair_write :: "('a \<Rightarrow> writing) \<Rightarrow> ('b \<Rightarrow> writing) \<Rightarrow> 'a \<times> 'b \<Rightarrow> writing" where
  "pair_write wa wb p = write_then (wa (fst p)) (wb (snd p))"

text \<open>A hash map is written in the order its iterator delivers the entries.\<close>

definition map_write :: "('a \<Rightarrow> writing) \<Rightarrow> ('b \<Rightarrow> writing) \<Rightarrow> ('a \<times> 'b) list \<Rightarrow> writing" where
  "map_write wk wv entries =
    write_then (Inr (varint_write (of_nat (length entries)))) (write_slice (\<lambda>e. write_then (wk (fst e)) (wv (snd e))) entries)"

section \<open>Length prefixes\<close>

definition DEFAULT_BOUND :: nat where
  "DEFAULT_BOUND = 32767"

definition write_length :: "(nat \<Rightarrow> 'p option) \<Rightarrow> ('p \<Rightarrow> writing) \<Rightarrow> nat \<Rightarrow> nat \<Rightarrow> writing" where
  "write_length from_usize pw bound len =
    (if len > bound then Inl (error_other ''Too long'')
     else case from_usize len of None \<Rightarrow> Inl (error_other ''This cant happen'') | Some p \<Rightarrow> pw p)"

definition read_length :: "('p \<Rightarrow> nat option) \<Rightarrow> (Cursor \<Rightarrow> 'p reading) \<Rightarrow> nat \<Rightarrow> Cursor \<Rightarrow> nat reading" where
  "read_length to_usize pr bound data = read_then (pr data) (\<lambda>p data.
     case to_usize p of
       None \<Rightarrow> Inl (error_other ''Invalid Prefix'')
     | Some len \<Rightarrow> if len > bound then Inl (error_other ''To long'') else Inr (len, data))"

definition vec_write_prefixed_bound :: "(nat \<Rightarrow> 'p option) \<Rightarrow> ('p \<Rightarrow> writing) \<Rightarrow> ('a \<Rightarrow> writing) \<Rightarrow> nat \<Rightarrow> 'a list \<Rightarrow> writing" where
  "vec_write_prefixed_bound from_usize pw wr bound xs = write_then (write_length from_usize pw bound (length xs)) (write_slice wr xs)"

definition vec_read_prefixed_bound :: "('p \<Rightarrow> nat option) \<Rightarrow> (Cursor \<Rightarrow> 'p reading) \<Rightarrow> (Cursor \<Rightarrow> 'a reading) \<Rightarrow> nat \<Rightarrow> Cursor \<Rightarrow> 'a list reading" where
  "vec_read_prefixed_bound to_usize pr rd bound data =
    read_then (read_length to_usize pr bound data) (\<lambda>len data. array_read rd len data)"

text \<open>\<open>String::from_utf8\<close> accepts exactly the encodings of strings.\<close>

definition from_utf8 :: "u8 list \<Rightarrow> code_point list option" where
  "from_utf8 bs = (let s = decode_java_utf8_lossy bs in if utf8_encode s = bs then Some s else None)"

definition string_write_prefixed_bound :: "(nat \<Rightarrow> 'p option) \<Rightarrow> ('p \<Rightarrow> writing) \<Rightarrow> nat \<Rightarrow> code_point list \<Rightarrow> writing" where
  "string_write_prefixed_bound from_usize pw bound s =
    write_then (write_length from_usize pw bound (length (utf8_encode s))) (Inr (utf8_encode s))"

definition string_read_prefixed_bound :: "('p \<Rightarrow> nat option) \<Rightarrow> (Cursor \<Rightarrow> 'p reading) \<Rightarrow> nat \<Rightarrow> Cursor \<Rightarrow> code_point list reading" where
  "string_read_prefixed_bound to_usize pr bound data =
    read_then (read_length to_usize pr bound data) (\<lambda>len data.
      read_then (read_exact len data) (\<lambda>buf data.
        case from_utf8 buf of None \<Rightarrow> Inl (error_other ''invalid utf-8 sequence'') | Some s \<Rightarrow> Inr (s, data)))"

text \<open>Optional prefixed values carry a flag in front.\<close>

definition option_write_prefixed_bound :: "(nat \<Rightarrow> 'a \<Rightarrow> writing) \<Rightarrow> nat \<Rightarrow> 'a option \<Rightarrow> writing" where
  "option_write_prefixed_bound wr bound v = option_write (wr bound) v"

definition option_read_prefixed_bound :: "(nat \<Rightarrow> Cursor \<Rightarrow> 'a reading) \<Rightarrow> nat \<Rightarrow> Cursor \<Rightarrow> 'a option reading" where
  "option_read_prefixed_bound rd bound data = option_read (rd bound) data"

text \<open>The \<open>VarInt\<close> prefix: its conversions are infallible casts.\<close>

definition varint_prefix :: "nat \<Rightarrow> i32 option" where
  "varint_prefix n = Some (varint_from_usize n)"

definition varint_length :: "i32 \<Rightarrow> nat option" where
  "varint_length v = Some (usize_from_varint v)"

definition varint_writing :: "i32 \<Rightarrow> writing" where
  "varint_writing v = Inr (varint_write v)"

definition vec_write :: "('a \<Rightarrow> writing) \<Rightarrow> 'a list \<Rightarrow> writing" where
  "vec_write wr xs = vec_write_prefixed_bound varint_prefix varint_writing wr DEFAULT_BOUND xs"

definition vec_read_prefixed :: "(Cursor \<Rightarrow> 'a reading) \<Rightarrow> Cursor \<Rightarrow> 'a list reading" where
  "vec_read_prefixed rd data = vec_read_prefixed_bound varint_length varint_read rd DEFAULT_BOUND data"

definition string_write_prefixed :: "code_point list \<Rightarrow> writing" where
  "string_write_prefixed s = string_write_prefixed_bound varint_prefix varint_writing DEFAULT_BOUND s"

definition string_read_prefixed :: "Cursor \<Rightarrow> code_point list reading" where
  "string_read_prefixed data = string_read_prefixed_bound varint_length varint_read DEFAULT_BOUND data"

section \<open>Positions, UUIDs and identifiers\<close>

definition packed_block_pos_write :: "i64 \<Rightarrow> u8 list" where
  "packed_block_pos_write raw = int_write raw"

definition packed_block_pos_read :: "Cursor \<Rightarrow> i64 reading" where
  "packed_block_pos_read data = read_then (int_read data) (\<lambda>raw data. Inr (raw, data))"

definition block_pos_write :: "BlockPos \<Rightarrow> u8 list" where
  "block_pos_write p = packed_block_pos_write (pack_block_pos p)"

text \<open>A UUID by its two halves, the most significant first.\<close>

definition uuid_write :: "u64 \<times> u64 \<Rightarrow> u8 list" where
  "uuid_write u = int_write (fst u) @ int_write (snd u)"

definition uuid_read :: "Cursor \<Rightarrow> (u64 \<times> u64) reading" where
  "uuid_read data = read_then (int_read data) (\<lambda>most data. read_then (int_read data) (\<lambda>least data. Inr ((most, least), data)))"

text \<open>
  Identifiers are kept as their bytes. A string with a character outside ASCII is never one: such a
  character is in neither alphabet.
\<close>

definition string_bytes :: "string \<Rightarrow> u8 list" where
  "string_bytes s = map of_char s"

definition identifier_write :: "Identifier \<Rightarrow> writing" where
  "identifier_write i =
    (let len = length (id_namespace i) + 1 + length (id_path i)
     in if len > DEFAULT_BOUND then Inl (error_other ''Too long'')
        else Inr (varint_write (of_nat len) @ string_bytes (id_namespace i) @ string_bytes '':'' @ string_bytes (id_path i)))"

definition identifier_error :: "IdentifierError \<Rightarrow> IoError" where
  "identifier_error e = error_other (case e of InvalidNamespace \<Rightarrow> ''Invalid namespace'' | InvalidPath \<Rightarrow> ''Invalid path'')"

definition identifier_read :: "Cursor \<Rightarrow> Identifier reading" where
  "identifier_read data = read_then (string_read_prefixed data) (\<lambda>s data.
     case identifier_from_str (map (\<lambda>c. if c < 0x80 then char_of (unat c) else CHR 0x80) s) of
       Inl e \<Rightarrow> Inl (identifier_error e)
     | Inr i \<Rightarrow> Inr (i, data))"

section \<open>Bit sets\<close>

type_synonym BitSet = "u64 list"

definition bit_set_set :: "nat \<Rightarrow> bool \<Rightarrow> BitSet \<Rightarrow> BitSet" where
  "bit_set_set index value s =
    (let u64_index = index div 64; bit_index = index mod 64
     in if u64_index \<ge> length s then s
        else if value then s[u64_index := or (s ! u64_index) (push_bit bit_index 1)]
        else s[u64_index := and (s ! u64_index) (not (push_bit bit_index 1))])"

text \<open>\<open>bytes.truncate(rposition(non-zero) + 1)\<close>.\<close>

definition trim_zeros :: "u8 list \<Rightarrow> u8 list" where
  "trim_zeros bytes = rev (dropWhile (\<lambda>b. b = 0) (rev bytes))"

definition bit_set_write :: "BitSet \<Rightarrow> writing" where
  "bit_set_write s = vec_write (\<lambda>b. Inr (int_write b)) (trim_zeros (concat (map to_le_bytes s)))"

definition place_byte :: "nat \<times> u8 \<Rightarrow> BitSet \<Rightarrow> BitSet" where
  "place_byte = (\<lambda>(index, byte) words.
    words[index div 8 := or (words ! (index div 8)) (push_bit (index mod 8 * 8) (ucast byte))])"

definition words_of_bytes :: "u8 list \<Rightarrow> BitSet" where
  "words_of_bytes bytes = fold place_byte (enumerate 0 bytes) (replicate (div_ceil (length bytes) 8) 0)"

definition bit_set_read :: "Cursor \<Rightarrow> BitSet reading" where
  "bit_set_read data = read_then (vec_read_prefixed int_read data) (\<lambda>bytes data. Inr (words_of_bytes bytes, data))"

section \<open>Containers keep the contract of their elements\<close>

lemma write_then_Inr: "write_then a b = Inr zs \<longleftrightarrow> (\<exists>xs ys. a = Inr xs \<and> b = Inr ys \<and> zs = xs @ ys)"
  by (cases a; cases b) auto

lemma local_array_read: "local_read rd \<Longrightarrow> local_read (array_read rd n)"
proof (induction n)
  case (Suc n)
  then have "local_read (\<lambda>data. read_then (rd data) (\<lambda>x data. read_then (array_read rd n data) (\<lambda>xs data. Inr (x # xs, data))))"
    by (intro local_read_then) auto
  then show ?case by (simp add: local_read_def)
qed (auto simp: local_read_def)

lemma local_option_read: "local_read rd \<Longrightarrow> local_read (option_read rd)"
proof -
  assume "local_read rd"
  then have "local_read (\<lambda>data. if b then read_then (rd data) (\<lambda>x data. Inr (Some x, data)) else Inr (None, data))" for b
    by (cases b) (auto intro!: local_read_then)
  then show ?thesis unfolding option_read_def by (intro local_read_then) auto
qed

context wire_codec
begin

lemma array_round:
  "list_all valid xs \<Longrightarrow> write_slice encode xs = Inr bs \<Longrightarrow> array_read decode (length xs) (bs @ rest) = Inr (xs, rest)"
proof (induction xs arbitrary: bs)
  case (Cons x xs)
  then obtain a b where *: "encode x = Inr a" "write_slice encode xs = Inr b" "bs = a @ b" by (auto simp: write_then_Inr)
  then show ?case using Cons round [of x a "b @ rest"] by simp
qed simp

lemma option_codec: "wire_codec (option_write encode) (option_read decode) (pred_option valid)"
proof
  fix v bs rest assume "pred_option valid v" "option_write encode v = Inr bs"
  then show "option_read decode (bs @ rest) = Inr (v, rest)"
    using round by (cases v) (auto simp: option_write_def option_read_def write_then_Inr)
qed (rule local_option_read [OF local])

end

section \<open>Prefixed containers\<close>

text \<open>What a prefix type provides: lengths that fit survive the conversion to the prefix and back.\<close>

locale length_prefix = prefix: wire_codec pencode pdecode "\<lambda>_. True"
  for pencode :: "'p \<Rightarrow> writing" and pdecode :: "Cursor \<Rightarrow> 'p reading" +
  fixes from_usize :: "nat \<Rightarrow> 'p option" and to_usize :: "'p \<Rightarrow> nat option" and fits :: "nat \<Rightarrow> bool"
  assumes from_to: "fits n \<Longrightarrow> \<exists>p. from_usize n = Some p \<and> to_usize p = Some n"
begin

lemma read_write_length:
  assumes "\<forall>n \<le> bound. fits n" "write_length from_usize pencode bound len = Inr bs"
  shows "read_length to_usize pdecode bound (bs @ rest) = Inr (len, rest)"
proof -
  have len: "len \<le> bound" using assms(2) by (auto simp: write_length_def split: if_splits)
  then obtain p where "from_usize len = Some p" "to_usize p = Some len" using assms(1) from_to by blast
  then show ?thesis using assms(2) len prefix.round [of p bs rest] by (simp add: write_length_def read_length_def)
qed

lemma local_read_length: "local_read (read_length to_usize pdecode bound)"
proof -
  have "local_read (\<lambda>data. case to_usize p of None \<Rightarrow> Inl (error_other ''Invalid Prefix'')
     | Some len \<Rightarrow> if len > bound then Inl (error_other ''To long'') else Inr (len, data))" for p
    by (cases "to_usize p"; cases "the (to_usize p) > bound") auto
  then show ?thesis unfolding read_length_def by (intro local_read_then prefix.local)
qed

lemma vec_codec:
  assumes "wire_codec wr rd val" "\<forall>n \<le> bound. fits n"
  shows "wire_codec (vec_write_prefixed_bound from_usize pencode wr bound) (vec_read_prefixed_bound to_usize pdecode rd bound) (list_all val)"
proof
  fix xs bs rest assume v: "list_all val xs" and w: "vec_write_prefixed_bound from_usize pencode wr bound xs = Inr bs"
  obtain a b where *: "write_length from_usize pencode bound (length xs) = Inr a" "write_slice wr xs = Inr b" "bs = a @ b"
    using w by (auto simp: vec_write_prefixed_bound_def write_then_Inr)
  show "vec_read_prefixed_bound to_usize pdecode rd bound (bs @ rest) = Inr (xs, rest)"
    using wire_codec.array_round [OF assms(1) v *(2), of rest] read_write_length [OF assms(2) *(1), of "b @ rest"] *(3)
    by (simp add: vec_read_prefixed_bound_def)
next
  show "local_read (vec_read_prefixed_bound to_usize pdecode rd bound)"
    unfolding vec_read_prefixed_bound_def
    by (intro local_read_then local_read_length local_array_read wire_codec.local [OF assms(1)])
qed

lemma string_codec:
  assumes "\<forall>n \<le> bound. fits n"
  shows "wire_codec (string_write_prefixed_bound from_usize pencode bound) (string_read_prefixed_bound to_usize pdecode bound) (list_all is_scalar)"
proof
  fix s bs rest assume v: "list_all is_scalar s" and w: "string_write_prefixed_bound from_usize pencode bound s = Inr bs"
  obtain a where *: "write_length from_usize pencode bound (length (utf8_encode s)) = Inr a" "bs = a @ utf8_encode s"
    using w by (auto simp: string_write_prefixed_bound_def write_then_Inr)
  show "string_read_prefixed_bound to_usize pdecode bound (bs @ rest) = Inr (s, rest)"
    using read_write_length [OF assms *(1), of "utf8_encode s @ rest"] *(2) decode_encode [OF v]
    by (simp add: string_read_prefixed_bound_def read_exact_def from_utf8_def)
next
  have "local_read (\<lambda>data. case from_utf8 buf of None \<Rightarrow> Inl (error_other ''invalid utf-8 sequence'') | Some s \<Rightarrow> Inr (s, data))" for buf
    by (cases "from_utf8 buf") auto
  then show "local_read (string_read_prefixed_bound to_usize pdecode bound)"
    unfolding string_read_prefixed_bound_def by (intro local_read_then local_read_length local_read_exact)
qed

end

lemma usize_from_varint_small: "n < 2 ^ 31 \<Longrightarrow> usize_from_varint (varint_from_usize n) = n"
proof -
  assume n: "n < 2 ^ 31"
  have "sint (varint_from_usize n) = int n"
    using n signed_take_bit_int_eq_self [of 31 "int n"] by (simp add: varint_from_usize_def signed_of_nat)
  then have "(scast (varint_from_usize n) :: u64) = of_nat n" by (metis of_int_sint of_int_of_nat_eq)
  then show ?thesis using n by (simp add: usize_from_varint_def unat_of_nat)
qed

interpretation varint_len: length_prefix varint_writing varint_read varint_prefix varint_length "\<lambda>n. n < 2 ^ 31"
  by unfold_locales
    (auto simp: varint_writing_def varint_prefix_def varint_length_def usize_from_varint_small simp del: One_nat_def)

lemma default_bound_fits: "\<forall>n \<le> DEFAULT_BOUND. n < 2 ^ 31"
  by (simp add: DEFAULT_BOUND_def)

interpretation byte_vec: wire_codec "vec_write (\<lambda>b :: u8. Inr (int_write b))" "vec_read_prefixed int_read" "list_all (\<lambda>_. True)"
  unfolding vec_write_def [abs_def] vec_read_prefixed_def [abs_def]
  by (rule varint_len.vec_codec [OF u8_wire.wire_codec_axioms default_bound_fits])

interpretation string_wire: wire_codec string_write_prefixed string_read_prefixed "list_all is_scalar"
  unfolding string_write_prefixed_def [abs_def] string_read_prefixed_def [abs_def]
  by (rule varint_len.string_codec [OF default_bound_fits])

interpretation option_string: wire_codec
  "option_write_prefixed_bound (string_write_prefixed_bound varint_prefix varint_writing) DEFAULT_BOUND"
  "option_read_prefixed_bound (string_read_prefixed_bound varint_length varint_read) DEFAULT_BOUND"
  "pred_option (list_all is_scalar)"
  unfolding option_write_prefixed_bound_def [abs_def] option_read_prefixed_bound_def [abs_def]
  by (rule wire_codec.option_codec [OF varint_len.string_codec [OF default_bound_fits]])

section \<open>Positions, UUIDs and identifiers on the wire\<close>

lemma local_uuid_read: "local_read uuid_read"
  unfolding uuid_read_def by (intro local_read_then) auto

interpretation uuid_wire: wire_codec "\<lambda>u. Inr (uuid_write u)" uuid_read "\<lambda>_. True"
  by unfold_locales (auto simp: uuid_write_def uuid_read_def int_read_write local_uuid_read)

interpretation packed_block_pos_wire: wire_codec "\<lambda>p. Inr (packed_block_pos_write p)" packed_block_pos_read "\<lambda>_. True"
proof
  show "local_read packed_block_pos_read" unfolding packed_block_pos_read_def by (intro local_read_then) auto
qed (auto simp: packed_block_pos_write_def packed_block_pos_read_def int_read_write)

definition valid_identifier :: "Identifier \<Rightarrow> bool" where
  "valid_identifier i \<longleftrightarrow> validate (id_namespace i) (id_path i) \<and> id_namespace i \<noteq> []"

definition ascii_points :: "string \<Rightarrow> code_point list" where
  "ascii_points s = map (\<lambda>c. of_nat (of_char c)) s"

lemma valid_char_ascii: "valid_char c \<Longrightarrow> (of_char c :: nat) < 0x80"
proof -
  assume "valid_char c"
  then have "c \<le> CHR ''z''" by (auto simp: valid_char_def valid_namespace_char_def less_eq_char_def)
  then show ?thesis by (simp add: less_eq_char_def)
qed

lemma unat_of_char: "(of_char c :: nat) < 0x80 \<Longrightarrow> unat (of_char c :: u8) = of_char c"
  using unat_byte [of "of_char c"] by (simp add: of_nat_of_char)

lemma utf8_ascii: "\<forall>c \<in> set s. (of_char c :: nat) < 0x80 \<Longrightarrow> utf8_encode (ascii_points s) = string_bytes s"
  "\<forall>c \<in> set s. (of_char c :: nat) < 0x80 \<Longrightarrow> list_all is_scalar (ascii_points s)"
  "\<forall>c \<in> set s. (of_char c :: nat) < 0x80 \<Longrightarrow> map (\<lambda>c. if c < 0x80 then char_of (unat c) else CHR 0x80) (ascii_points s) = s"
  by (induction s) (auto simp: utf8_encode_def ascii_points_def string_bytes_def utf8_char_def is_scalar_nat byte_tests unat_of_nat unat_of_char Let_def)

lemma valid_identifier_chars:
  "valid_identifier i \<Longrightarrow> \<forall>c \<in> set (identifier_to_string i). (of_char c :: nat) < 0x80"
  by (auto simp: valid_identifier_def validate_def validate_namespace_def validate_path_def list_all_iff identifier_to_string_def
      intro: valid_char_ascii simp: valid_char_def)

lemma identifier_write_string:
  assumes "valid_identifier i"
  shows "identifier_write i = string_write_prefixed (ascii_points (identifier_to_string i))"
proof -
  let ?s = "identifier_to_string i"
  have "utf8_encode (ascii_points ?s) = string_bytes ?s" using valid_identifier_chars [OF assms] by (rule utf8_ascii)
  moreover have "string_bytes ?s = string_bytes (id_namespace i) @ string_bytes '':'' @ string_bytes (id_path i)"
    by (simp add: string_bytes_def identifier_to_string_def)
  moreover have "length (string_bytes ?s) = length (id_namespace i) + 1 + length (id_path i)"
    by (simp add: string_bytes_def identifier_to_string_def)
  ultimately show ?thesis
    by (simp add: identifier_write_def string_write_prefixed_def string_write_prefixed_bound_def write_length_def varint_prefix_def
        varint_writing_def varint_from_usize_def Let_def)
qed

lemma local_string_read: "local_read string_read_prefixed"
  by (rule string_wire.local)

interpretation identifier_wire: wire_codec identifier_write identifier_read valid_identifier
proof
  fix i bs rest assume v: "valid_identifier i" and w: "identifier_write i = Inr bs"
  note chars = valid_identifier_chars [OF v]
  have "string_read_prefixed (bs @ rest) = Inr (ascii_points (identifier_to_string i), rest)"
    using string_wire.round [OF utf8_ascii(2) [OF chars]] w by (simp add: identifier_write_string [OF v])
  moreover have "identifier_from_str (identifier_to_string i) = Inr i"
    using v from_str_parts(1) [of "id_namespace i" "id_path i"]
    by (simp add: valid_identifier_def validate_def identifier_to_string_def)
  ultimately show "identifier_read (bs @ rest) = Inr (i, rest)"
    by (simp only: identifier_read_def read_then.simps utf8_ascii(3) [OF chars] sum.case)
next
  have "local_read (\<lambda>data. case r of Inl e \<Rightarrow> Inl (identifier_error e) | Inr i \<Rightarrow> Inr (i, data))" for r
    by (cases r) auto
  then show "local_read identifier_read"
    unfolding identifier_read_def by (intro local_read_then local_string_read)
qed

section \<open>Bit sets as sets of indices\<close>

definition bit_at :: "BitSet \<Rightarrow> nat \<Rightarrow> bool" where
  "bit_at s i \<longleftrightarrow> i div 64 < length s \<and> bit (s ! (i div 64)) (i mod 64)"

lemma index_groups: "i div 64 = i div 8 div 8" "i mod 64 = 8 * (i div 8 mod 8) + i mod (8 :: nat)"
  using mod_mult2_eq [of i 8 8] by (simp_all add: div_mult2_eq [symmetric])

lemma bit_at_set:
  "bit_at (bit_set_set i v s) j \<longleftrightarrow> (if j = i \<and> i div 64 < length s then v else bit_at s j)"
proof -
  have ij: "j = i \<longleftrightarrow> j div 64 = i div 64 \<and> j mod 64 = i mod 64" by (metis div_mult_mod_eq)
  show ?thesis
  proof (cases "i div 64 < length s \<and> j div 64 = i div 64")
    case True
    then show ?thesis
      by (cases v) (auto simp: bit_set_set_def bit_at_def Let_def ij bit_or_iff bit_and_iff bit_not_iff bit_exp_iff)
  next
    case False
    then show ?thesis by (auto simp: bit_set_set_def bit_at_def Let_def ij)
  qed
qed

lemma byte_lane:
  assumes "q < 8" "m < 8" "r < 8"
  shows "bit (push_bit (m * 8) (ucast (b :: u8)) :: u64) (8 * q + r) \<longleftrightarrow> q = m \<and> bit b r"
proof -
  consider "q = m" | "8 * q + r < m * 8" "q \<noteq> m" | "m * 8 + 8 \<le> 8 * q + r" "q \<noteq> m" using assms by linarith
  then show ?thesis
  proof cases
    case 3
    then have "\<not> bit b (8 * q + r - m * 8)" using bit_imp_le_length [of b "8 * q + r - m * 8"] by auto
    then show ?thesis using 3 by (auto simp: bit_push_bit_iff bit_ucast_iff)
  qed (use assms in \<open>auto simp: bit_push_bit_iff bit_ucast_iff mult.commute\<close>)
qed

lemma place_byte_bit:
  assumes "n div 8 < length ws"
  shows "bit_at (place_byte (n, b) ws) i \<longleftrightarrow> bit_at ws i \<or> (i div 8 = n \<and> bit b (i mod 8))"
proof (cases "i div 64 = n div 8")
  case True
  then have "i div 8 mod 8 = n mod 8 \<longleftrightarrow> i div 8 = n" unfolding index_groups(1) by (metis div_mult_mod_eq)
  then have w: "bit (push_bit (n mod 8 * 8) (ucast b) :: u64) (i mod 64) \<longleftrightarrow> i div 8 = n \<and> bit b (i mod 8)"
    unfolding index_groups(2) by (subst byte_lane) simp_all
  then show ?thesis using assms True by (auto simp: place_byte_def bit_at_def bit_or_iff)
next
  case False
  then have "i div 8 \<noteq> n" unfolding index_groups(1) by auto
  then show ?thesis using False by (auto simp: place_byte_def bit_at_def)
qed

lemma length_place_byte [simp]: "length (place_byte nb ws) = length ws"
  by (simp add: place_byte_def split: prod.splits)

lemma fold_place_bits:
  "n + length bytes \<le> 8 * length ws \<Longrightarrow>
    bit_at (fold place_byte (enumerate n bytes) ws) i \<longleftrightarrow>
      bit_at ws i \<or> (n \<le> i div 8 \<and> i div 8 < n + length bytes \<and> bit (bytes ! (i div 8 - n)) (i mod 8))"
proof (induction bytes arbitrary: n ws)
  case (Cons b bytes)
  have "bit_at (place_byte (n, b) ws) i \<longleftrightarrow> bit_at ws i \<or> (i div 8 = n \<and> bit b (i mod 8))"
    using Cons.prems by (intro place_byte_bit) simp
  moreover have "n \<le> i div 8 \<Longrightarrow> i div 8 \<noteq> n \<Longrightarrow> (b # bytes) ! (i div 8 - n) = bytes ! (i div 8 - Suc n)"
    by (simp add: nth_Cons' Suc_diff_Suc)
  ultimately show ?case using Cons.prems Cons.IH [of "Suc n" "place_byte (n, b) ws"]
    by (cases "i div 8 = n"; cases "n \<le> i div 8") auto
qed auto

lemma bit_at_words_of_bytes:
  "bit_at (words_of_bytes bytes) i \<longleftrightarrow> i div 8 < length bytes \<and> bit (bytes ! (i div 8)) (i mod 8)"
proof -
  have "length bytes \<le> 8 * div_ceil (length bytes) 8"
    using div_mult_mod_eq [of "length bytes" 8] unfolding div_ceil_def by (auto intro: less_imp_le) 
  then show ?thesis unfolding words_of_bytes_def by (subst fold_place_bits) (auto simp: bit_at_def)
qed

lemma length_le_bytes_concat [simp]: "length (concat (map to_le_bytes (s :: BitSet))) = 8 * length s"
  by (induction s) simp_all

lemma nth_le_bytes_concat:
  "q < 8 * length s \<Longrightarrow> concat (map to_le_bytes (s :: BitSet)) ! q = ucast (drop_bit (8 * (q mod 8)) (s ! (q div 8)))"
proof (induction s arbitrary: q)
  case (Cons w s)
  show ?case
  proof (cases "q < 8")
    case False
    then have "q div 8 = Suc ((q - 8) div 8)" "(q - 8) mod 8 = q mod 8" by (simp_all add: le_div_geq le_mod_geq)
    then show ?thesis using Cons.IH [of "q - 8"] Cons.prems False by (simp add: nth_append)
  qed (simp add: nth_append)
qed simp

lemma bit_at_le_bytes:
  "i div 8 < 8 * length s \<and> bit (concat (map to_le_bytes s) ! (i div 8)) (i mod 8) \<longleftrightarrow> bit_at s i"
proof (cases "i div 8 < 8 * length s")
  case True
  then have "i div 8 div 8 < length s" by (simp add: less_mult_imp_div_less mult.commute)
  then show ?thesis using True by (simp add: nth_le_bytes_concat bit_at_def index_groups bit_simps)
next
  case False
  then have "\<not> i div 8 div 8 < length s" by (simp add: div_less_iff_less_mult mult.commute)
  then show ?thesis using False by (simp add: bit_at_def index_groups(1))
qed

lemma trim_zeros_split: "\<exists>k. bytes = trim_zeros bytes @ replicate k 0"
proof -
  have "rev bytes = takeWhile (\<lambda>b. b = 0) (rev bytes) @ dropWhile (\<lambda>b. b = 0) (rev bytes)" by simp
  then have "bytes = trim_zeros bytes @ rev (takeWhile (\<lambda>b. b = 0) (rev bytes))"
    unfolding trim_zeros_def by (metis rev_append rev_rev_ident)
  moreover have "takeWhile (\<lambda>b. b = 0) (rev bytes) = replicate (length (takeWhile (\<lambda>b. b = 0) (rev bytes))) 0"
    by (rule replicate_eqI) (auto dest: set_takeWhileD)
  ultimately show ?thesis by (metis rev_replicate)
qed

lemma bit_at_trimmed: "bit_at (words_of_bytes (trim_zeros (concat (map to_le_bytes s)))) i \<longleftrightarrow> bit_at s i"
proof -
  let ?b = "concat (map to_le_bytes s)" and ?t = "trim_zeros (concat (map to_le_bytes s))"
  obtain k where k: "?b = ?t @ replicate k 0" using trim_zeros_split by blast
  then have l: "8 * length s = length ?t + k" by (metis length_append length_replicate length_le_bytes_concat)
  have "i div 8 < length ?t \<and> bit (?t ! (i div 8)) (i mod 8) \<longleftrightarrow> i div 8 < 8 * length s \<and> bit (?b ! (i div 8)) (i mod 8)"
    unfolding l by (subst (3) k) (auto simp: nth_append)
  then show ?thesis by (simp only: bit_at_words_of_bytes bit_at_le_bytes)
qed

text \<open>Writing an identifier fails only when its text is longer than the default bound; the bytes
  written for a valid one are read back to it whatever follows, and a read that is cut short anywhere
  inside them reports an error rather than another identifier.
\<close>

lemma identifier_wire_round_trip:
  assumes "valid_identifier i" "length (identifier_to_string i) \<le> DEFAULT_BOUND"
  shows "\<exists>bs. identifier_write i = Inr bs \<and> (\<forall>rest. identifier_read (bs @ rest) = Inr (i, rest))
    \<and> (\<forall>n < length bs. \<exists>e. identifier_read (take n bs) = Inl e)"
proof -
  obtain bs where bs: "identifier_write i = Inr bs"
    using assms(2) by (auto simp: identifier_write_def identifier_to_string_def Let_def)
  moreover have "\<exists>e. identifier_read (take n bs) = Inl e" if "n < length bs" for n
    using identifier_wire.truncated_fails [OF assms(1), of "take n bs" "drop n bs"] that bs by simp
  ultimately show ?thesis using identifier_wire.round [OF assms(1) bs] by blast
qed

text \<open>A bit set whose trimmed bytes fit the default bound is written and read back to one with the
  same bits, whatever trailing zero words it has, and setting a bit changes that bit alone, and
  nothing when it lies past the last word.
\<close>

lemma bit_set_round_trip:
  assumes "length (trim_zeros (concat (map to_le_bytes s))) \<le> DEFAULT_BOUND"
  shows "\<exists>bs s'. bit_set_write s = Inr bs \<and> bit_set_read (bs @ rest) = Inr (s', rest)
    \<and> (\<forall>i. bit_at s' i = bit_at s i)
    \<and> (\<forall>i v j. bit_at (bit_set_set i v s) j = (if j = i \<and> i div 64 < length s then v else bit_at s j))"
proof -
  let ?t = "trim_zeros (concat (map to_le_bytes s))"
  have "write_slice (\<lambda>b. Inr (int_write b)) xs = Inr (xs :: u8 list)" for xs by (induction xs) simp_all
  then obtain bs where bs: "bit_set_write s = Inr bs"
    using assms by (simp add: bit_set_write_def vec_write_def vec_write_prefixed_bound_def write_length_def varint_prefix_def varint_writing_def)
  then have "vec_read_prefixed int_read (bs @ rest) = Inr (?t, rest)"
    unfolding bit_set_write_def by (intro byte_vec.round) (simp_all add: list_all_iff)
  then show ?thesis using bs bit_at_trimmed bit_at_set by (simp add: bit_set_read_def)
qed

end
