(* ===== verification/Packet_Frame.thy ===== *)
theory Packet_Frame
  imports Serial
begin

text \<open>
  Packet framing of \<open>steel-protocol\<close>: the encoder of \<open>packet_traits.rs\<close>, which puts the length prefixes
  in front of a serialized packet and compresses it above a threshold, and the decoder
  \<open>get_raw_packet\<close> of \<open>packet_reader.rs\<close>. The zlib streams are parameters. A panic of the buffer is
  \<open>None\<close>; errors are values.
\<close>

section \<open>Errors, packets and limits\<close>

datatype PacketError =
    DecodeID | TooLong nat | OutOfBounds | MalformedLength string | MalformedValue string
  | DecompressionFailed string | CompressionFailed string | NotCompressed
  | DecryptionFailed string | EncryptionFailed string | ConnectionClosed | SendError string
  | OtherError string | InvalidProtocol string

definition packet_error_from_io :: "IoError \<Rightarrow> PacketError" where
  "packet_error_from_io e = MalformedValue (error_message e)"

definition MAX_PACKET_SIZE :: nat where
  "MAX_PACKET_SIZE = 2097152"

definition MAX_PACKET_DATA_SIZE :: nat where
  "MAX_PACKET_DATA_SIZE = 8388608"

datatype ConnectionProtocol = Handshake | Play | Status | Login | Config

record CompressionInfo =
  threshold :: u32
  level :: i32

definition default_compression :: CompressionInfo where
  "default_compression = \<lparr>threshold = 256, level = 4\<rparr>"

record RawPacket =
  raw_id :: i32
  raw_buffer :: "u8 list"
  payload_start :: u32

definition raw_packet_new :: "i32 \<Rightarrow> u8 list \<Rightarrow> RawPacket" where
  "raw_packet_new i payload = \<lparr>raw_id = i, raw_buffer = payload, payload_start = 0\<rparr>"

definition from_buffer :: "i32 \<Rightarrow> u8 list \<Rightarrow> nat \<Rightarrow> RawPacket" where
  "from_buffer i buffer start = \<lparr>raw_id = i, raw_buffer = buffer, payload_start = of_nat start\<rparr>"

text \<open>Slicing past the end panics.\<close>

definition packet_payload :: "RawPacket \<Rightarrow> u8 list option" where
  "packet_payload p =
    (if unat (payload_start p) \<le> length (raw_buffer p) then Some (drop (unat (payload_start p)) (raw_buffer p)) else None)"

section \<open>The encoder\<close>

text \<open>
  A clientbound packet by what its impls provide: the id it has in a protocol, and the bytes or the
  error its \<open>WriteTo\<close> produces.
\<close>

record ClientPacket =
  get_id :: "ConnectionProtocol \<Rightarrow> i32 option"
  packet_write :: writing

definition protocol_name :: "ConnectionProtocol \<Rightarrow> string" where
  "protocol_name p = (case p of Handshake \<Rightarrow> ''Handshake'' | Play \<Rightarrow> ''Play'' | Status \<Rightarrow> ''Status''
     | Login \<Rightarrow> ''Login'' | Config \<Rightarrow> ''Config'')"

definition write_packet :: "ClientPacket \<Rightarrow> ConnectionProtocol \<Rightarrow> FrontVec \<Rightarrow> PacketError + FrontVec" where
  "write_packet packet protocol vec =
    (case get_id packet protocol of
       None \<Rightarrow> Inl (InvalidProtocol (''Invalid protocol '' @ protocol_name protocol))
     | Some packet_id \<Rightarrow>
         let vec = extend_from_slice (varint_write packet_id) vec
         in (case packet_write packet of
               Inl e \<Rightarrow> Inl (packet_error_from_io e)
             | Inr bytes \<Rightarrow> Inr (extend_from_slice bytes vec)))"

definition from_data_uncompressed :: "FrontVec \<Rightarrow> (PacketError + FrontVec) option" where
  "from_data_uncompressed packet_data =
    (let data_len = front_vec_len packet_data;
         varint_size = varint_written_size (of_nat data_len);
         complete_len = varint_size + data_len
     in if complete_len > MAX_PACKET_SIZE then Some (Inl (TooLong complete_len))
        else map_option Inr (varint_set_in_front (of_nat data_len) varint_size packet_data))"

text \<open>
  \<open>compress level data\<close> is what the zlib encoder emits for the data, or its error message.
\<close>

definition from_packet_data ::
    "(u32 \<Rightarrow> u8 list \<Rightarrow> string + u8 list) \<Rightarrow> FrontVec \<Rightarrow> CompressionInfo \<Rightarrow> (PacketError + FrontVec) option" where
  "from_packet_data compress packet_data compression =
    (let data_len = front_vec_len packet_data
     in if data_len + VARINT_MAX_SIZE * 2 > MAX_PACKET_DATA_SIZE then Some (Inl (TooLong data_len))
        else if data_len \<ge> unat (threshold compression)
        then (case compress (level compression) (as_slice packet_data) of
                Inl e \<Rightarrow> Some (Inl (CompressionFailed e))
              | Inr compressed \<Rightarrow>
                  let vec = extend_from_slice compressed (front_vec_new 10);
                      varint_size = varint_written_size (of_nat data_len);
                      full_len = varint_size + front_vec_len vec;
                      full_varint_size = varint_written_size (of_nat full_len)
                  in (case varint_set_in_front (of_nat data_len) varint_size vec of
                        None \<Rightarrow> None
                      | Some vec \<Rightarrow> map_option Inr (varint_set_in_front (of_nat full_len) full_varint_size vec)))
        else let data_len_with_header = data_len + 1;
                 varint_size = varint_written_size (of_nat data_len_with_header)
             in (case varint_set_in_front 0 1 packet_data of
                   None \<Rightarrow> None
                 | Some packet_data \<Rightarrow> map_option Inr (varint_set_in_front (of_nat data_len_with_header) varint_size packet_data)))"

definition from_data ::
    "(u32 \<Rightarrow> u8 list \<Rightarrow> string + u8 list) \<Rightarrow> FrontVec \<Rightarrow> CompressionInfo option \<Rightarrow> (PacketError + FrontVec) option" where
  "from_data compress vec compression =
    (case compression of
       Some compression \<Rightarrow> from_packet_data compress vec compression
     | None \<Rightarrow> from_data_uncompressed vec)"

definition write_vec :: "ClientPacket \<Rightarrow> ConnectionProtocol \<Rightarrow> PacketError + FrontVec" where
  "write_vec packet protocol = write_packet packet protocol (front_vec_new 6)"

definition from_bare ::
    "(u32 \<Rightarrow> u8 list \<Rightarrow> string + u8 list) \<Rightarrow> ClientPacket \<Rightarrow> CompressionInfo option \<Rightarrow> ConnectionProtocol
      \<Rightarrow> (PacketError + FrontVec) option" where
  "from_bare compress packet compression protocol =
    (case write_vec packet protocol of
       Inl e \<Rightarrow> Some (Inl e)
     | Inr vec \<Rightarrow> from_data compress vec compression)"

section \<open>The decoder\<close>

text \<open>
  \<open>inflate data\<close> is what reading the zlib decoder to its end delivers: the bytes, and the error it
  stops with if the stream is not well formed.
\<close>

definition inflate_exact :: "(u8 list \<Rightarrow> u8 list \<times> string option) \<Rightarrow> nat \<Rightarrow> u8 list \<Rightarrow> PacketError + u8 list" where
  "inflate_exact inflate n data =
    (let (out, err) = inflate data
     in if length out < n
        then Inl (DecompressionFailed (case err of Some e \<Rightarrow> e | None \<Rightarrow> ''failed to fill whole buffer''))
        else if length out > n
        then Inl (DecompressionFailed ''decompressed packet exceeds declared length'')
        else (case err of Some e \<Rightarrow> Inl (DecompressionFailed e) | None \<Rightarrow> Inr out))"

text \<open>
  The buffer that holds the packet and where its data start. \<open>usize\<close> subtraction is checked, so the
  length left after the prefix is \<open>None\<close> when it would be negative.
\<close>

definition packet_buffer ::
    "(u8 list \<Rightarrow> u8 list \<times> string option) \<Rightarrow> u32 option \<Rightarrow> u8 list \<Rightarrow> (PacketError + u8 list \<times> nat) option" where
  "packet_buffer inflate compression packet_data =
    (case compression of
       None \<Rightarrow> Some (Inr (packet_data, 0))
     | Some t \<Rightarrow>
         (case varint_read packet_data of
            Inl e \<Rightarrow> Some (Inl (packet_error_from_io e))
          | Inr (v, rest) \<Rightarrow>
              let decompressed_len = usize_from_varint v;
                  prefix = varint_written_size (of_nat decompressed_len)
              in if prefix > length packet_data then None
                 else let raw_packet_len = length packet_data - prefix
                      in if decompressed_len > MAX_PACKET_DATA_SIZE then Some (Inl (TooLong decompressed_len))
                         else if decompressed_len > 0
                         then Some (case inflate_exact inflate decompressed_len rest of
                                      Inl e \<Rightarrow> Inl e | Inr out \<Rightarrow> Inr (out, 0))
                         else if raw_packet_len > unat t then Some (Inl NotCompressed)
                         else Some (Inr (packet_data, length packet_data - length rest))))"

definition get_raw_packet ::
    "(u8 list \<Rightarrow> u8 list \<times> string option) \<Rightarrow> u32 option \<Rightarrow> Cursor \<Rightarrow> (PacketError + RawPacket \<times> Cursor) option" where
  "get_raw_packet inflate compression stream =
    (case varint_read_async stream of
       Inl e \<Rightarrow> Some (Inl (packet_error_from_io e))
     | Inr (v, stream) \<Rightarrow>
         let packet_len = usize_from_varint v
         in if packet_len > MAX_PACKET_SIZE then Some (Inl OutOfBounds)
            else if packet_len > length stream then Some (Inl (OtherError ''early eof''))
            else (case packet_buffer inflate compression (take packet_len stream) of
                    None \<Rightarrow> None
                  | Some (Inl e) \<Rightarrow> Some (Inl e)
                  | Some (Inr (buffer, start)) \<Rightarrow>
                      (case varint_read (drop start buffer) of
                         Inl e \<Rightarrow> Some (Inl (packet_error_from_io e))
                       | Inr (packet_id, rest) \<Rightarrow>
                           Some (Inr (from_buffer packet_id buffer (length buffer - length rest), drop packet_len stream)))))"

section \<open>Frames\<close>

text \<open>The bytes of a frame, as the protocol documents them.\<close>

definition frame :: "u8 list \<Rightarrow> u8 list" where
  "frame body = varint_write (of_nat (length body)) @ body"

lemma prefix_size_bounds: "1 \<le> varint_written_size v" "varint_written_size v \<le> 5"
  using length_leb128_word(1) [of v] by (simp_all add: varint_written_size length_leb128_bits)

lemma small_prefix: "n < 2 ^ (7 * k) \<Longrightarrow> 0 < k \<Longrightarrow> n < 2 ^ 32 \<Longrightarrow> varint_written_size (of_nat n) \<le> k"
proof -
  assume *: "n < 2 ^ (7 * k)" "0 < k" "n < 2 ^ 32"
  have "unat (of_nat n :: i32) = n" using *(3) by (simp add: unat_of_nat)
  moreover have "n < 128 ^ k" using *(1) by (simp add: power_mult)
  ultimately show ?thesis using length_leb128_le [of n k] *(2) by (simp add: varint_written_size)
qed

lemma set_prefix:
  assumes "front_ok b" "varint_written_size v \<le> front_space b"
  shows "\<exists>b'. varint_set_in_front v (varint_written_size v) b = Some b' \<and> front_ok b'
    \<and> as_slice b' = varint_write v @ as_slice b \<and> front_space b' = front_space b - varint_written_size v"
  by (rule varint_set_in_front_spec [OF assms]) blast

text \<open>Without compression the encoder emits one frame, or refuses the packet as too long.\<close>

lemma from_data_uncompressed_frame:
  assumes "front_ok b" "6 \<le> front_space b" "length (as_slice b) = n"
  shows "\<exists>r. from_data_uncompressed b = Some r \<and>
    (if varint_written_size (of_nat n) + n > MAX_PACKET_SIZE then r = Inl (TooLong (varint_written_size (of_nat n) + n))
     else \<exists>b'. r = Inr b' \<and> front_ok b' \<and> as_slice b' = frame (as_slice b))"
proof -
  have "varint_written_size (of_nat n) \<le> front_space b" using prefix_size_bounds(2) [of "of_nat n"] assms(2) by linarith
  from set_prefix [OF assms(1) this] show ?thesis using assms(3)
    by (auto simp: from_data_uncompressed_def frame_def Let_def)
qed

text \<open>With compression it emits one too, around the compressed data or around a zero and the data.\<close>

lemma varint_zero: "varint_write 0 = [0]" "varint_written_size 0 = 1"
  by (simp_all add: varint_write_def varint_written_size_def)

lemma length_varint_write: "length (varint_write v) = varint_written_size v"
  by (simp add: varint_write_leb128 varint_written_size)

lemma from_packet_data_small:
  assumes "front_ok b" "6 \<le> front_space b" "n = length (as_slice b)"
    and "\<not> n + 10 > MAX_PACKET_DATA_SIZE" "n < unat (threshold c)"
  shows "\<exists>b'. from_packet_data compress b c = Some (Inr b') \<and> as_slice b' = frame (0 # as_slice b)"
proof -
  obtain b1 where b1: "varint_set_in_front 0 1 b = Some b1" "front_ok b1" "as_slice b1 = 0 # as_slice b" "front_space b1 = front_space b - 1"
    using set_prefix [OF assms(1), of 0] assms(2) by (auto simp: varint_zero)
  have "varint_written_size (of_nat (n + 1)) \<le> front_space b1" using prefix_size_bounds(2) [of "of_nat (n + 1)"] b1(4) assms(2) by linarith
  then obtain b2 where "varint_set_in_front (of_nat (n + 1)) (varint_written_size (of_nat (n + 1))) b1 = Some b2"
    "as_slice b2 = varint_write (of_nat (n + 1)) @ as_slice b1" using set_prefix [OF b1(2)] by blast
  then show ?thesis using assms b1 by (simp add: from_packet_data_def frame_def Let_def VARINT_MAX_SIZE_def)
qed

lemma from_packet_data_compressed:
  assumes "front_ok b" "n = length (as_slice b)" "\<not> n + 10 > MAX_PACKET_DATA_SIZE" "\<not> n < unat (threshold c)"
    and z: "compress (level c) (as_slice b) = Inr z"
  shows "\<exists>b'. from_packet_data compress b c = Some (Inr b') \<and> as_slice b' = frame (varint_write (of_nat n) @ z)"
proof -
  define v where "v = extend_from_slice z (front_vec_new 10)"
  have v: "front_ok v" "front_space v = 10" "as_slice v = z" by (simp_all add: v_def)
  have "varint_written_size (of_nat n) \<le> front_space v" using prefix_size_bounds(2) [of "of_nat n"] v(2) by linarith
  then obtain b1 where b1: "varint_set_in_front (of_nat n) (varint_written_size (of_nat n)) v = Some b1" "front_ok b1"
    "as_slice b1 = varint_write (of_nat n) @ z" "front_space b1 = 10 - varint_written_size (of_nat n)"
    using set_prefix [OF v(1), of "of_nat n"] v by auto
  define m where "m = varint_written_size (of_nat n) + length z"
  have "varint_written_size (of_nat m) \<le> front_space b1"
    using prefix_size_bounds(2) [of "of_nat m"] prefix_size_bounds(2) [of "of_nat n"] b1(4) by linarith
  then obtain b2 where "varint_set_in_front (of_nat m) (varint_written_size (of_nat m)) b1 = Some b2"
    "as_slice b2 = varint_write (of_nat m) @ as_slice b1" using set_prefix [OF b1(2)] by blast
  then show ?thesis using assms b1 v
    by (simp add: from_packet_data_def frame_def Let_def VARINT_MAX_SIZE_def m_def v_def [symmetric] length_varint_write)
qed

text \<open>What the encoder answers for the serialized data of a packet, in terms of frames.\<close>

definition frame_body ::
    "(u32 \<Rightarrow> u8 list \<Rightarrow> string + u8 list) \<Rightarrow> CompressionInfo option \<Rightarrow> u8 list \<Rightarrow> PacketError + u8 list" where
  "frame_body compress c data =
    (case c of
       None \<Rightarrow>
         (let complete = varint_written_size (of_nat (length data)) + length data
          in if complete > MAX_PACKET_SIZE then Inl (TooLong complete) else Inr data)
     | Some ci \<Rightarrow>
         if length data + 10 > MAX_PACKET_DATA_SIZE then Inl (TooLong (length data))
         else if length data < unat (threshold ci) then Inr (0 # data)
         else (case compress (level ci) data of
                 Inl e \<Rightarrow> Inl (CompressionFailed e)
               | Inr z \<Rightarrow> Inr (varint_write (of_nat (length data)) @ z)))"

lemma from_data_frames:
  assumes "front_ok b" "6 \<le> front_space b"
  shows "\<exists>r. from_data compress b c = Some r \<and>
    (case frame_body compress c (as_slice b) of
       Inl e \<Rightarrow> r = Inl e
     | Inr body \<Rightarrow> \<exists>b'. r = Inr b' \<and> as_slice b' = frame body)"
proof (cases c)
  case None
  then show ?thesis using from_data_uncompressed_frame [OF assms refl] by (auto simp: from_data_def frame_body_def Let_def split: if_splits)
next
  case (Some ci)
  consider "length (as_slice b) + 10 > MAX_PACKET_DATA_SIZE"
    | "\<not> length (as_slice b) + 10 > MAX_PACKET_DATA_SIZE" "length (as_slice b) < unat (threshold ci)"
    | e where "\<not> length (as_slice b) + 10 > MAX_PACKET_DATA_SIZE" "\<not> length (as_slice b) < unat (threshold ci)" "compress (level ci) (as_slice b) = Inl e"
    | z where "\<not> length (as_slice b) + 10 > MAX_PACKET_DATA_SIZE" "\<not> length (as_slice b) < unat (threshold ci)" "compress (level ci) (as_slice b) = Inr z"
    by (cases "compress (level ci) (as_slice b)") blast+
  then show ?thesis
  proof cases
    case 2
    then show ?thesis using from_packet_data_small [OF assms refl 2, of compress] Some by (auto simp: from_data_def frame_body_def)
  next
    case (4 z)
    then show ?thesis using from_packet_data_compressed [OF assms(1) refl 4(1,2), of compress z] Some
      by (auto simp: from_data_def frame_body_def)
  qed (use Some in \<open>simp_all add: from_data_def from_packet_data_def frame_body_def VARINT_MAX_SIZE_def Let_def\<close>)
qed

lemma write_vec_data:
  "get_id p protocol = Some i \<Longrightarrow> packet_write p = Inr bytes \<Longrightarrow>
    \<exists>b. write_vec p protocol = Inr b \<and> front_ok b \<and> front_space b = 6 \<and> as_slice b = varint_write i @ bytes"
  by (auto simp: write_vec_def write_packet_def Let_def)

section \<open>Decoding frames\<close>

lemma usize_small: "n < 2 ^ 31 \<Longrightarrow> usize_from_varint (of_nat n) = n"
  using usize_from_varint_small [of n] by (simp add: varint_from_usize_def)

lemma varint_reads:
  "varint_read (varint_write v @ rest) = Inr (v, rest)" "varint_read_async (varint_write v @ rest) = Inr (v, rest)"
  by (simp_all add: varint_write_leb128 var_reads_leb128)

lemma get_raw_packet_frame:
  assumes "length body \<le> MAX_PACKET_SIZE"
  shows "get_raw_packet inflate t (frame body @ rest) =
    (case packet_buffer inflate t body of
       None \<Rightarrow> None
     | Some (Inl e) \<Rightarrow> Some (Inl e)
     | Some (Inr (buffer, start)) \<Rightarrow>
         (case varint_read (drop start buffer) of
            Inl e \<Rightarrow> Some (Inl (packet_error_from_io e))
          | Inr (packet_id, tail) \<Rightarrow> Some (Inr (from_buffer packet_id buffer (length buffer - length tail), rest))))"
proof -
  have "usize_from_varint (of_nat (length body)) = length body" using assms by (intro usize_small) (simp add: MAX_PACKET_SIZE_def)
  then show ?thesis using assms
    by (auto simp: get_raw_packet_def frame_def varint_reads split: option.splits sum.splits prod.splits)
qed

lemma get_raw_packet_oversized:
  assumes "MAX_PACKET_SIZE < length body" "length body < 2 ^ 31"
  shows "get_raw_packet inflate t (frame body @ rest) = Some (Inl OutOfBounds)"
  using assms by (simp add: get_raw_packet_def frame_def varint_reads usize_small)

text \<open>What the zlib library promises: inflating a compressed stream gives the data back.\<close>

definition zlib_inverse :: "(u32 \<Rightarrow> u8 list \<Rightarrow> string + u8 list) \<Rightarrow> (u8 list \<Rightarrow> u8 list \<times> string option) \<Rightarrow> bool" where
  "zlib_inverse compress inflate \<longleftrightarrow> (\<forall>l data z. compress l data = Inr z \<longrightarrow> inflate z = (data, None))"

lemma packet_buffer_body:
  assumes "zlib_inverse compress inflate" "frame_body compress c data = Inr body" "data \<noteq> []"
  shows "packet_buffer inflate (map_option threshold c) body =
    Some (Inr (if c \<noteq> None \<and> length data < unat (threshold (the c)) then (0 # data, 1) else (data, 0)))"
proof (cases c)
  case None
  then show ?thesis using assms(2) by (simp add: packet_buffer_def frame_body_def Let_def split: if_splits)
next
  case (Some ci)
  have small: "length data < 2 ^ 31" "length data \<le> MAX_PACKET_DATA_SIZE"
    using assms(2) Some by (auto simp: frame_body_def MAX_PACKET_DATA_SIZE_def split: if_splits sum.splits)
  show ?thesis
  proof (cases "length data < unat (threshold ci)")
    case True
    then have "body = varint_write 0 @ data" using assms(2) Some by (auto simp: frame_body_def varint_zero split: if_splits)
    then show ?thesis using True Some varint_reads(1) [of 0 data]
      by (simp add: packet_buffer_def Let_def varint_zero usize_small [of 0, simplified])
  next
    case False
    then obtain z where z: "compress (level ci) data = Inr z" "body = varint_write (of_nat (length data)) @ z"
      using assms(2) Some by (auto simp: frame_body_def split: if_splits sum.splits)
    then have "inflate z = (data, None)" using assms(1) unfolding zlib_inverse_def by blast
    then show ?thesis using False Some z small assms(3)
      by (simp add: packet_buffer_def Let_def varint_reads usize_small inflate_exact_def length_varint_write)
  qed
qed

section \<open>The decoder never panics\<close>

text \<open>A value read from \<open>k\<close> bytes has at most \<open>7 k\<close> bits, so writing it takes no more bytes.\<close>

lemma var_read_bits:
  "var_read_loop e l n i val bs = Inr (x, rest) \<Longrightarrow> bit x k \<Longrightarrow>
    bit val k \<or> k < 7 * (i + (length bs - length rest))"
proof (induction e l n i val bs rule: var_read_loop.induct)
  case (3 e l n i val byte bs)
  let ?val = "or val (push_bit (i * 7) (and (ucast byte) 0x7F))"
  have v: "bit val k \<or> k < 7 * Suc i" if "bit ?val k"
    using that by (auto simp: bit_or_iff bit_push_bit_iff bit_and_iff bit_0x7F)
  show ?case
  proof (cases "and byte 0x80 = 0")
    case True
    then show ?thesis using 3 v by (auto simp: Let_def)
  next
    case False
    then have r: "var_read_loop e l n (Suc i) ?val bs = Inr (x, rest)" using 3(2) by (simp add: Let_def)
    then have "length rest \<le> length bs" using local_readD [OF local_var_read r] by auto
    then show ?thesis using 3(1) [OF refl False r 3(3)] v by auto
  qed
qed simp_all

lemma varint_read_size:
  assumes "varint_read bs = Inr (v, rest)"
  shows "varint_written_size v \<le> length bs - length rest"
proof -
  define k where "k = length bs - length rest"
  have "bit v j \<Longrightarrow> j < 7 * k" for j
    using var_read_bits [OF assms [unfolded varint_read_def], of j] by (simp add: k_def)
  then have "take_bit (7 * k) v = v" by (intro bit_word_eqI) (auto simp: bit_take_bit_iff)
  then have "take_bit (7 * k) (unat v) = unat v" by (metis unsigned_take_bit_eq)
  then have "unat v < 2 ^ (7 * k)" by (simp add: take_bit_nat_eq_self_iff)
  moreover have "0 < k"
    using assms by (cases bs) (auto simp: k_def varint_read_def VARINT_MAX_SIZE_def eval_nat_numeral Let_def split: if_splits dest!: local_readD [OF local_var_read])
  ultimately show ?thesis
    using length_leb128_le [of "unat v" k] by (simp add: varint_written_size power_mult k_def)
qed

lemma varint_cast_back: "(of_nat (usize_from_varint v) :: i32) = v"
  unfolding usize_from_varint_def of_nat_unat 
  by (rule bit_word_eqI) (auto simp: bit_ucast_iff bit_signed_iff min_def le_less_Suc_eq numeral_eq_Suc)

lemma packet_buffer_no_panic: "packet_buffer inflate t data \<noteq> None"
proof -
  have "varint_written_size v \<le> length data" if "varint_read data = Inr (v, rest)" for v rest
    using varint_read_size [OF that] by linarith
  then show ?thesis
    by (auto simp: packet_buffer_def Let_def varint_cast_back split: option.splits sum.splits prod.splits)
qed

lemma get_raw_packet_no_panic: "get_raw_packet inflate t stream \<noteq> None"
  by (auto simp: get_raw_packet_def Let_def packet_buffer_no_panic simp del: not_None_eq split: sum.splits prod.splits option.splits)

lemma from_bare_no_panic: "from_bare compress p c protocol \<noteq> None"
proof (cases "write_vec p protocol")
  case (Inr b)
  then have "front_ok b" "front_space b = 6"
    by (auto simp: write_vec_def write_packet_def Let_def split: option.splits sum.splits)
  then show ?thesis using from_data_frames [of b compress c] Inr by (auto simp: from_bare_def)
qed (simp add: from_bare_def)

section \<open>Properties\<close>

lemma from_bare_body:
  assumes "from_bare compress p c protocol = Some (Inr v)"
  obtains i bytes body where "get_id p protocol = Some i" "packet_write p = Inr bytes"
    "frame_body compress c (varint_write i @ bytes) = Inr body" "as_slice v = frame body"
proof -
  obtain i bytes where ib: "get_id p protocol = Some i" "packet_write p = Inr bytes"
    using assms by (auto simp: from_bare_def write_vec_def write_packet_def Let_def split: option.splits sum.splits)
  then obtain b where b: "write_vec p protocol = Inr b" "front_ok b" "front_space b = 6" "as_slice b = varint_write i @ bytes"
    using write_vec_data by blast
  then show ?thesis using from_data_frames [of b compress c] assms that [OF ib] by (auto simp: from_bare_def split: sum.splits)
qed

lemma uncompressed_body: "frame_body compress None data = Inr body \<Longrightarrow> length body \<le> MAX_PACKET_SIZE"
  by (auto simp: frame_body_def Let_def split: if_splits)

lemma varint_write_nonempty: "varint_write v \<noteq> []"
  using prefix_size_bounds(1) [of v] length_varint_write [of v] by auto

lemma buffer_payload:
  assumes "varint_read (drop start buffer) = Inr (i, bytes)" "bytes = drop (length buffer - length bytes) buffer" "length buffer < 2 ^ 32"
  shows "packet_payload (from_buffer i buffer (length buffer - length bytes)) = Some bytes"
  using assms by (simp add: packet_payload_def from_buffer_def unat_of_nat)

lemma read_back:
  assumes "zlib_inverse compress inflate" "frame_body compress c (varint_write i @ bytes) = Inr body" "length body \<le> MAX_PACKET_SIZE"
  shows "\<exists>raw. get_raw_packet inflate (map_option threshold c) (frame body @ rest) = Some (Inr (raw, rest))
    \<and> raw_id raw = i \<and> packet_payload raw = Some bytes"
proof -
  let ?data = "varint_write i @ bytes"
  obtain buffer start where b: "packet_buffer inflate (map_option threshold c) body = Some (Inr (buffer, start))"
    "buffer = replicate start 0 @ ?data"
    using packet_buffer_body [OF assms(1,2)] varint_write_nonempty [of i] by (auto split: if_splits)
  have "length buffer < 2 ^ 32"
    using packet_buffer_body [OF assms(1,2)] b(1) assms(2,3) varint_write_nonempty [of i]
    by (auto simp: frame_body_def MAX_PACKET_DATA_SIZE_def MAX_PACKET_SIZE_def Let_def split: if_splits option.splits sum.splits)
  then have "packet_payload (from_buffer i buffer (length buffer - length bytes)) = Some bytes"
    using varint_reads(1) [of i bytes] by (intro buffer_payload [where start = start]) (simp_all add: b(2))
  then show ?thesis using b varint_reads(1) [of i bytes]
    by (simp add: get_raw_packet_frame [OF assms(3)] from_buffer_def)
qed

text \<open>The body of a frame, which is what its length field counts, is within the packet size exactly
  when the frame is within four bytes more, the prefix of a body of that size.\<close>

lemma body_within:
  assumes "length (frame body) \<le> MAX_PACKET_SIZE + 4" shows "length body \<le> MAX_PACKET_SIZE"
proof (rule ccontr)
  assume "\<not> ?thesis"
  moreover have "length (frame body) = varint_written_size (of_nat (length body)) + length body"
    by (simp add: frame_def length_varint_write)
  moreover have "1 \<le> varint_written_size (of_nat (length body))" by (rule prefix_size_bounds(1))
  ultimately have n: "length body \<in> {2097153, 2097154, 2097155}" "varint_written_size (of_nat (length body)) \<le> 3"
    using assms by (auto simp: MAX_PACKET_SIZE_def)
  then have "unat (of_nat (length body) :: i32) = length body" by (auto simp: unat_of_nat)
  with n show False by (auto simp: varint_written_size leb128.simps)
qed

text \<open>A packet the encoder accepts is decoded again, with the same id and payload and leaving the
  bytes behind it untouched: without compression always, and with compression, whether the packet
  was compressed or left below the threshold, as long as its body is within the packet size the
  decoder admits. The zlib streams are assumed inverse to each other.\<close>

lemma packet_round_trip:
  assumes "zlib_inverse compress inflate" "from_bare compress p c protocol = Some (Inr v)"
    and "c = None \<or> length (as_slice v) \<le> MAX_PACKET_SIZE + 4"
  shows "\<exists>raw. get_raw_packet inflate (map_option threshold c) (as_slice v @ rest) = Some (Inr (raw, rest))
    \<and> get_id p protocol = Some (raw_id raw) \<and> map_option Inr (packet_payload raw) = Some (packet_write p)"
proof -
  obtain i bytes body where *: "get_id p protocol = Some i" "packet_write p = Inr bytes"
    "frame_body compress c (varint_write i @ bytes) = Inr body" "as_slice v = frame body"
    using from_bare_body [OF assms(2)] .
  have "length body \<le> MAX_PACKET_SIZE"
    using assms(3) *(3,4) uncompressed_body [of compress "varint_write i @ bytes" body] body_within by auto
  from read_back [OF assms(1) *(3) this, of rest] show ?thesis using * by auto
qed

definition stored :: "u32 \<Rightarrow> u8 list \<Rightarrow> string + u8 list" where
  "stored l data = Inr data"

definition stored_back :: "u8 list \<Rightarrow> u8 list \<times> string option" where
  "stored_back z = (z, None)"

lemma stored_inverse: "zlib_inverse stored stored_back"
  by (simp add: zlib_inverse_def stored_def stored_back_def)

definition demo_packet :: "u8 list \<Rightarrow> ClientPacket" where
  "demo_packet bytes = \<lparr>get_id = (\<lambda>p. if p = Play then Some 0 else None), packet_write = Inr bytes\<rparr>"

text \<open>C20: Neither end of the protocol panics: encoding any packet reports a frame or an error, and
  reading a packet from any bytes, with or without compression, reports a packet or an error; in
  particular the reserved space suffices for the prefixes, and the length left after the prefix of
  a compressed packet never underflows, overlong encodings included.\<close>

theorem packet_codec_never_panics:
  "from_bare compress p c protocol \<noteq> None \<and> get_raw_packet inflate t stream \<noteq> None"
  using from_bare_no_panic get_raw_packet_no_panic by blast

text \<open>C39: With compression enabled the encoder does not enforce the packet size: a packet within the data
  limit whose body, the bytes its length field counts, is larger than \<open>MAX_PACKET_SIZE\<close>, because it
  did not compress or is below a large threshold, is emitted without an error, and the decoder refuses
  it as out of bounds. (A body of exactly that size is still read, by \<open>packet_round_trip\<close>.)\<close>

theorem oversized_packet_refused:
  assumes "get_id p protocol = Some i" "packet_write p = Inr bytes"
    and "frame_body compress (Some ci) (varint_write i @ bytes) = Inr body"
    and "MAX_PACKET_SIZE < length body" "length body < 2 ^ 31"
  shows "\<exists>v. from_bare compress p (Some ci) protocol = Some (Inr v)
    \<and> get_raw_packet inflate (Some (threshold ci)) (as_slice v @ rest) = Some (Inl OutOfBounds)"
proof -
  obtain b where "write_vec p protocol = Inr b" "front_ok b" "front_space b = 6" "as_slice b = varint_write i @ bytes"
    using write_vec_data [OF assms(1,2)] by blast
  then obtain v where "from_bare compress p (Some ci) protocol = Some (Inr v)" "as_slice v = frame body"
    using from_data_frames [of b compress "Some ci"] assms(3) by (auto simp: from_bare_def)
  then show ?thesis using get_raw_packet_oversized [OF assms(4,5)] by auto
qed

theorem oversized_packet_refused_witness:
  "\<exists>v. from_bare stored (demo_packet (replicate 3000000 5)) (Some default_compression) Play = Some (Inr v)
    \<and> get_raw_packet stored_back (Some 256) (as_slice v @ []) = Some (Inl OutOfBounds)"
proof -
  have "frame_body stored (Some default_compression) (varint_write 0 @ replicate 3000000 5)
      = Inr (varint_write (of_nat 3000001) @ 0 # replicate 3000000 5)"
    by (simp add: frame_body_def varint_zero default_compression_def MAX_PACKET_DATA_SIZE_def stored_def)
  then show ?thesis
    using oversized_packet_refused [of "demo_packet (replicate 3000000 5)" Play 0 "replicate 3000000 5" stored default_compression
        "varint_write (of_nat 3000001) @ 0 # replicate 3000000 5" stored_back "[]"] prefix_size_bounds(2) [of "of_nat 3000001"]
    by (simp add: demo_packet_def default_compression_def MAX_PACKET_SIZE_def length_varint_write)
qed

end
