(* ===== verification/Packet_Stream.thy ===== *)
theory Packet_Stream
  imports Packet_Frame
begin

text \<open>
  The encrypted connection of \<open>steel-protocol\<close>: the byte-wise stream cipher adaptors of \<open>utils.rs\<close> and
  the writer and reader enums of \<open>packet_writer.rs\<close> and \<open>packet_reader.rs\<close>. The block cipher is a
  parameter, a step on its register; so is the socket, by its answers to the polls. A run of the
  writer re-polls with the bytes it was not told are written, as \<open>write_all\<close> does.
\<close>

section \<open>Encrypting writer\<close>

datatype WriterAnswer = AnsPending | AnsAccept nat | AnsError string

datatype PollWrite = Pending | ReadyOk nat | ReadyErr string

record 'c StreamEncryptor =
  enc_cipher :: 'c
  last_unwritten_encrypted_byte :: "u8 option"
  sink :: "u8 list"

definition stream_encryptor_new :: "'c \<Rightarrow> u8 list \<Rightarrow> 'c StreamEncryptor" where
  "stream_encryptor_new c stream = \<lparr>enc_cipher = c, last_unwritten_encrypted_byte = None, sink = stream\<rparr>"

text \<open>
  One poll with the given bytes, the answers of the inner writer to its one-byte writes, and the
  bytes written so far in this poll. A writer accepts at most the byte it is offered.
\<close>

fun encryptor_poll_write ::
    "('c \<Rightarrow> u8 \<Rightarrow> u8 \<times> 'c) \<Rightarrow> WriterAnswer list \<Rightarrow> nat \<Rightarrow> u8 list \<Rightarrow> 'c StreamEncryptor \<Rightarrow> PollWrite \<times> 'c StreamEncryptor" where
  "encryptor_poll_write enc answers total_written [] s = (ReadyOk total_written, s)"
| "encryptor_poll_write enc answers total_written (block # data) s =
    (let (out, c) = (case last_unwritten_encrypted_byte s of
                       Some out_to_use \<Rightarrow> (out_to_use, enc_cipher s)
                     | None \<Rightarrow> enc (enc_cipher s) block);
         s = s\<lparr>enc_cipher := c\<rparr>
     in case answers of
          AnsAccept n # answers \<Rightarrow>
            let written = min n 1
            in encryptor_poll_write enc answers (total_written + written) data
                 (s\<lparr>last_unwritten_encrypted_byte := None, sink := sink s @ take written [out]\<rparr>)
        | AnsError e # answers \<Rightarrow> (ReadyErr e, s\<lparr>last_unwritten_encrypted_byte := None\<rparr>)
        | _ \<Rightarrow> (if total_written = 0 then Pending else ReadyOk total_written,
                s\<lparr>last_unwritten_encrypted_byte := Some out\<rparr>))"

datatype 'c EncryptionWriter = Encrypt "'c StreamEncryptor" | PlainWriter "u8 list"

definition writer_upgrade :: "'c \<Rightarrow> 'c EncryptionWriter \<Rightarrow> 'c EncryptionWriter option" where
  "writer_upgrade cipher w = (case w of
     PlainWriter stream \<Rightarrow> Some (Encrypt (stream_encryptor_new cipher stream))
   | Encrypt _ \<Rightarrow> None)"

definition writer_poll_write ::
    "('c \<Rightarrow> u8 \<Rightarrow> u8 \<times> 'c) \<Rightarrow> WriterAnswer list \<Rightarrow> u8 list \<Rightarrow> 'c EncryptionWriter \<Rightarrow> PollWrite \<times> 'c EncryptionWriter" where
  "writer_poll_write enc answers data w = (case w of
     Encrypt s \<Rightarrow> (let (r, s) = encryptor_poll_write enc answers 0 data s in (r, Encrypt s))
   | PlainWriter stream \<Rightarrow>
       (case answers of
          AnsAccept n # _ \<Rightarrow> (ReadyOk (min n (length data)), PlainWriter (stream @ take n data))
        | AnsError e # _ \<Rightarrow> (ReadyErr e, w)
        | _ \<Rightarrow> (Pending, w)))"

text \<open>\<open>TCPNetworkEncoder\<close>: encryption can only be switched on once; \<open>new_cipher\<close> builds the cipher of a key.\<close>

definition encoder_new :: "u8 list \<Rightarrow> 'c EncryptionWriter" where
  "encoder_new stream = PlainWriter stream"

definition encoder_set_encryption :: "(u8 list \<Rightarrow> 'c) \<Rightarrow> u8 list \<Rightarrow> 'c EncryptionWriter \<Rightarrow> 'c EncryptionWriter option" where
  "encoder_set_encryption new_cipher key w = (case w of
     Encrypt _ \<Rightarrow> None
   | PlainWriter _ \<Rightarrow> writer_upgrade (new_cipher key) w)"

section \<open>Decrypting reader\<close>

primrec decrypt_blocks :: "('c \<Rightarrow> u8 \<Rightarrow> u8 \<times> 'c) \<Rightarrow> 'c \<Rightarrow> u8 list \<Rightarrow> u8 list \<times> 'c" where
  "decrypt_blocks dec c [] = ([], c)"
| "decrypt_blocks dec c (block # bs) =
    (let (plain, c) = dec c block; (rest, c) = decrypt_blocks dec c bs in (plain # rest, c))"

datatype 'c DecryptionReader = Decrypt 'c | PlainReader

text \<open>One poll that delivers the chunk \<open>filled\<close> from the socket.\<close>

definition reader_poll_read :: "('c \<Rightarrow> u8 \<Rightarrow> u8 \<times> 'c) \<Rightarrow> u8 list \<Rightarrow> 'c DecryptionReader \<Rightarrow> u8 list \<times> 'c DecryptionReader" where
  "reader_poll_read dec filled r = (case r of
     Decrypt c \<Rightarrow> (let (plain, c) = decrypt_blocks dec c filled in (plain, Decrypt c))
   | PlainReader \<Rightarrow> (filled, PlainReader))"

definition reader_upgrade :: "'c \<Rightarrow> 'c DecryptionReader \<Rightarrow> 'c DecryptionReader option" where
  "reader_upgrade cipher r = (case r of PlainReader \<Rightarrow> Some (Decrypt cipher) | Decrypt _ \<Rightarrow> None)"

record 'c TCPNetworkDecoder =
  reader :: "'c DecryptionReader"
  compression :: "u32 option"

definition decoder_new :: "'c TCPNetworkDecoder" where
  "decoder_new = \<lparr>reader = PlainReader, compression = None\<rparr>"

definition decoder_set_compression :: "u32 \<Rightarrow> 'c TCPNetworkDecoder \<Rightarrow> 'c TCPNetworkDecoder" where
  "decoder_set_compression t d = d\<lparr>compression := Some t\<rparr>"

definition decoder_set_encryption :: "(u8 list \<Rightarrow> 'c) \<Rightarrow> u8 list \<Rightarrow> 'c TCPNetworkDecoder \<Rightarrow> 'c TCPNetworkDecoder option" where
  "decoder_set_encryption new_cipher key d =
    map_option (\<lambda>r. d\<lparr>reader := r\<rparr>) (reader_upgrade (new_cipher key) (reader d))"

text \<open>The chunks of a read, one poll after the other.\<close>

primrec read_chunks :: "('c \<Rightarrow> u8 \<Rightarrow> u8 \<times> 'c) \<Rightarrow> u8 list list \<Rightarrow> 'c DecryptionReader \<Rightarrow> u8 list \<times> 'c DecryptionReader" where
  "read_chunks dec [] r = ([], r)"
| "read_chunks dec (chunk # chunks) r =
    (let (a, r) = reader_poll_read dec chunk r; (b, r) = read_chunks dec chunks r in (a @ b, r))"

section \<open>Runs of the writer\<close>

text \<open>A socket that makes progress or waits: it never fails and never accepts zero bytes.\<close>

definition progressing :: "WriterAnswer list \<Rightarrow> bool" where
  "progressing answers \<longleftrightarrow> (\<forall>a \<in> set answers. case a of AnsPending \<Rightarrow> True | AnsAccept n \<Rightarrow> 0 < n | AnsError _ \<Rightarrow> False)"

inductive write_run :: "('c \<Rightarrow> u8 \<Rightarrow> u8 \<times> 'c) \<Rightarrow> u8 list \<Rightarrow> 'c EncryptionWriter \<Rightarrow> u8 list \<Rightarrow> 'c EncryptionWriter \<Rightarrow> bool"
  for enc bytes w where
  start: "write_run enc bytes w bytes w"
| wait: "write_run enc bytes w left v \<Longrightarrow> left \<noteq> [] \<Longrightarrow> progressing answers
    \<Longrightarrow> writer_poll_write enc answers left v = (Pending, v') \<Longrightarrow> write_run enc bytes w left v'"
| wrote: "write_run enc bytes w left v \<Longrightarrow> left \<noteq> [] \<Longrightarrow> progressing answers
    \<Longrightarrow> writer_poll_write enc answers left v = (ReadyOk n, v') \<Longrightarrow> write_run enc bytes w (drop n left) v'"

inductive_cases write_runE: "write_run enc bytes w left v"

primrec encrypt_blocks :: "('c \<Rightarrow> u8 \<Rightarrow> u8 \<times> 'c) \<Rightarrow> 'c \<Rightarrow> u8 list \<Rightarrow> u8 list \<times> 'c" where
  "encrypt_blocks enc c [] = ([], c)"
| "encrypt_blocks enc c (block # bs) =
    (let (out, c) = enc c block; (rest, c) = encrypt_blocks enc c bs in (out # rest, c))"

lemma encrypt_append:
  "encrypt_blocks enc c (xs @ ys) =
    (fst (encrypt_blocks enc c xs) @ fst (encrypt_blocks enc (snd (encrypt_blocks enc c xs)) ys),
     snd (encrypt_blocks enc (snd (encrypt_blocks enc c xs)) ys))"
  by (induction xs arbitrary: c) (auto simp: Let_def split: prod.splits)

text \<open>
  The encryptor after \<open>sent\<close>: the socket has their ciphertext, and the register is behind them, or
  behind the next byte too when its ciphertext is waiting.
\<close>

definition enc_after :: "('c \<Rightarrow> u8 \<Rightarrow> u8 \<times> 'c) \<Rightarrow> 'c \<Rightarrow> u8 list \<Rightarrow> u8 list \<Rightarrow> u8 list \<Rightarrow> 'c StreamEncryptor \<Rightarrow> bool" where
  "enc_after enc c0 base sent left s \<longleftrightarrow>
    sink s = base @ fst (encrypt_blocks enc c0 sent) \<and>
    (case last_unwritten_encrypted_byte s of
       None \<Rightarrow> enc_cipher s = snd (encrypt_blocks enc c0 sent)
     | Some out \<Rightarrow> left \<noteq> [] \<and> enc (snd (encrypt_blocks enc c0 sent)) (hd left) = (out, enc_cipher s))"

lemma enc_after_step:
  assumes "enc_after enc c0 base sent (block # data) s"
    and "(case last_unwritten_encrypted_byte s of Some out_to_use \<Rightarrow> (out_to_use, enc_cipher s) | None \<Rightarrow> enc (enc_cipher s) block) = (out, c)"
  shows "enc (snd (encrypt_blocks enc c0 sent)) block = (out, c) \<and> sink s = base @ fst (encrypt_blocks enc c0 sent)"
  using assms by (auto simp: enc_after_def split: option.splits)

lemma encryptor_poll_run:
  assumes "enc_after enc c0 base sent left s" "progressing answers"
    and "encryptor_poll_write enc answers tot left s = (r, s')"
  shows "\<exists>k \<le> length left. enc_after enc c0 base (sent @ take k left) (drop k left) s' \<and>
    (r = ReadyOk (tot + k) \<or> (r = Pending \<and> tot = 0 \<and> k = 0))"
  using assms
proof (induction left arbitrary: answers tot s sent)
  case (Cons block data)
  obtain out c where oc: "(case last_unwritten_encrypted_byte s of Some out_to_use \<Rightarrow> (out_to_use, enc_cipher s)
      | None \<Rightarrow> enc (enc_cipher s) block) = (out, c)" by fastforce
  note st = enc_after_step [OF Cons.prems(1) oc]
  show ?case
  proof (cases "\<exists>n rest. answers = AnsAccept n # rest")
    case True
    then obtain n rest where a: "answers = AnsAccept n # rest" by blast
    then have n: "min n 1 = 1" "progressing rest" using Cons.prems(2) by (auto simp: progressing_def)
    let ?s = "s\<lparr>enc_cipher := c, last_unwritten_encrypted_byte := None, sink := sink s @ [out]\<rparr>"
    have "enc_after enc c0 base (sent @ [block]) data ?s"
      using st by (auto simp: enc_after_def encrypt_append)
    moreover have "encryptor_poll_write enc rest (tot + 1) data ?s = (r, s')"
      using Cons.prems(3) oc a n(1) by (simp add: Let_def)
    ultimately obtain k where "k \<le> length data" "enc_after enc c0 base ((sent @ [block]) @ take k data) (drop k data) s'"
      "r = ReadyOk (tot + 1 + k) \<or> (r = Pending \<and> tot + 1 = 0 \<and> k = 0)"
      using Cons.IH [of "sent @ [block]" ?s rest "tot + 1"] n by blast
    then show ?thesis by (intro exI [of _ "Suc k"]) simp
  next
    case False
    then have "r = (if tot = 0 then Pending else ReadyOk tot) \<and> s' = s\<lparr>enc_cipher := c, last_unwritten_encrypted_byte := Some out\<rparr>"
      using Cons.prems(2,3) oc by (cases answers) (auto simp: Let_def progressing_def split: WriterAnswer.splits)
    then show ?thesis using st by (intro exI [of _ 0]) (auto simp: enc_after_def)
  qed
qed (auto intro!: exI [of _ 0])

section \<open>What a run leaves in the socket\<close>

definition writer_sink :: "'c EncryptionWriter \<Rightarrow> u8 list" where
  "writer_sink w = (case w of Encrypt s \<Rightarrow> sink s | PlainWriter stream \<Rightarrow> stream)"

definition fresh_writer :: "'c EncryptionWriter \<Rightarrow> bool" where
  "fresh_writer w \<longleftrightarrow> (case w of Encrypt s \<Rightarrow> last_unwritten_encrypted_byte s = None | PlainWriter _ \<Rightarrow> True)"

definition run_state :: "('c \<Rightarrow> u8 \<Rightarrow> u8 \<times> 'c) \<Rightarrow> 'c EncryptionWriter \<Rightarrow> u8 list \<Rightarrow> u8 list \<Rightarrow> 'c EncryptionWriter \<Rightarrow> bool" where
  "run_state enc w sent left v \<longleftrightarrow> (case w of
     Encrypt s0 \<Rightarrow> \<exists>s. v = Encrypt s \<and> enc_after enc (enc_cipher s0) (sink s0) sent left s
   | PlainWriter stream \<Rightarrow> v = PlainWriter (stream @ sent))"

lemma run_state_poll:
  assumes "run_state enc w sent left v" "progressing answers" "writer_poll_write enc answers left v = (r, v')"
  shows "\<exists>k \<le> length left. run_state enc w (sent @ take k left) (drop k left) v' \<and> (r = ReadyOk k \<or> (r = Pending \<and> k = 0))"
proof (cases w)
  case (Encrypt s0)
  then obtain s where s: "v = Encrypt s" "enc_after enc (enc_cipher s0) (sink s0) sent left s"
    using assms(1) by (auto simp: run_state_def)
  obtain s' where s': "encryptor_poll_write enc answers 0 left s = (r, s')" "v' = Encrypt s'"
    using assms(3) s(1) by (auto simp: writer_poll_write_def Let_def split: prod.splits)
  show ?thesis using encryptor_poll_run [OF s(2) assms(2) s'(1)] s'(2) Encrypt by (auto simp: run_state_def)
next
  case (PlainWriter stream)
  then have v: "v = PlainWriter (stream @ sent)" using assms(1) by (simp add: run_state_def)
  show ?thesis
  proof (cases "\<exists>n rest. answers = AnsAccept n # rest")
    case True
    then obtain n rest where "answers = AnsAccept n # rest" by blast
    then have "r = ReadyOk (min n (length left)) \<and> v' = PlainWriter (stream @ sent @ take (min n (length left)) left)"
      using assms(3) v by (cases "n \<le> length left") (auto simp: writer_poll_write_def)
    then show ?thesis using PlainWriter by (intro exI [of _ "min n (length left)"]) (simp add: run_state_def)
  next
    case False
    then have "r = Pending \<and> v' = v" using assms(2,3) v
      by (cases answers) (auto simp: writer_poll_write_def progressing_def split: WriterAnswer.splits)
    then show ?thesis using PlainWriter v by (intro exI [of _ 0]) (simp add: run_state_def)
  qed
qed

lemma write_run_state:
  assumes "write_run enc bytes w left v" "fresh_writer w"
  shows "\<exists>sent. bytes = sent @ left \<and> run_state enc w sent left v"
  using assms
proof (induction rule: write_run.induct)
  case start
  then show ?case
    by (intro exI [of _ "[]"]) (auto simp: run_state_def fresh_writer_def enc_after_def split: EncryptionWriter.splits)
next
  case (wait left v answers v')
  then obtain sent where sent: "bytes = sent @ left" "run_state enc w sent left v" by blast
  from run_state_poll [OF sent(2) wait(3,4)] sent(1) show ?case by auto
next
  case (wrote left v answers n v')
  then obtain sent where sent: "bytes = sent @ left" "run_state enc w sent left v" by blast
  from run_state_poll [OF sent(2) wrote(3,4)] sent(1) show ?case by (metis PollWrite.distinct(1) PollWrite.inject(1) append_assoc append_take_drop_id)
qed

text \<open>A completed run has put exactly the ciphertext of its bytes into the socket, with nothing waiting.\<close>

lemma write_run_complete:
  assumes "write_run enc bytes (Encrypt s) [] v" "last_unwritten_encrypted_byte s = None"
  shows "\<exists>s'. v = Encrypt s' \<and> last_unwritten_encrypted_byte s' = None
    \<and> sink s' = sink s @ fst (encrypt_blocks enc (enc_cipher s) bytes) \<and> enc_cipher s' = snd (encrypt_blocks enc (enc_cipher s) bytes)"
proof -
  have "run_state enc (Encrypt s) bytes [] v" using write_run_state [OF assms(1)] assms(2) by (simp add: fresh_writer_def)
  then show ?thesis by (auto simp: run_state_def enc_after_def split: option.splits)
qed

inductive write_packets :: "('c \<Rightarrow> u8 \<Rightarrow> u8 \<times> 'c) \<Rightarrow> FrontVec list \<Rightarrow> 'c EncryptionWriter \<Rightarrow> 'c EncryptionWriter \<Rightarrow> bool"
  for enc where
  no_packet: "write_packets enc [] w w"
| packet: "write_run enc (as_slice v) w [] w' \<Longrightarrow> write_packets enc vs w' w'' \<Longrightarrow> write_packets enc (v # vs) w w''"

lemma write_packets_complete:
  assumes "write_packets enc vs w v" "w = Encrypt s" "last_unwritten_encrypted_byte s = None"
  shows "\<exists>s'. v = Encrypt s' \<and> sink s' = sink s @ fst (encrypt_blocks enc (enc_cipher s) (concat (map as_slice vs)))"
  using assms
proof (induction arbitrary: s rule: write_packets.induct)
  case (packet v w w' vs w'')
  obtain s1 where s1: "w' = Encrypt s1" "last_unwritten_encrypted_byte s1 = None" "sink s1 = sink s @ fst (encrypt_blocks enc (enc_cipher s) (as_slice v))"
    "enc_cipher s1 = snd (encrypt_blocks enc (enc_cipher s) (as_slice v))"
    using write_run_complete [of enc "as_slice v" s w'] packet(1,4,5) by auto
  then show ?case using packet(3) [OF s1(1,2)] by (auto simp: encrypt_append)
qed simp

section \<open>Decryption\<close>

text \<open>What a self-synchronising cipher promises: the reader's register follows the writer's.\<close>

definition stream_cipher :: "('c \<Rightarrow> u8 \<Rightarrow> u8 \<times> 'c) \<Rightarrow> ('c \<Rightarrow> u8 \<Rightarrow> u8 \<times> 'c) \<Rightarrow> bool" where
  "stream_cipher enc dec \<longleftrightarrow> (\<forall>c b. dec c (fst (enc c b)) = (b, snd (enc c b)))"

lemma decrypt_encrypt:
  "stream_cipher enc dec \<Longrightarrow> decrypt_blocks dec c (fst (encrypt_blocks enc c xs)) = (xs, snd (encrypt_blocks enc c xs))"
proof (induction xs arbitrary: c)
  case (Cons x xs)
  obtain out c' where e: "enc c x = (out, c')" by fastforce
  then have "dec c out = (x, c')" using Cons.prems unfolding stream_cipher_def by (metis fst_conv snd_conv)
  then show ?case using e Cons.IH [OF Cons.prems, of c'] by (auto simp: Let_def split: prod.splits)
qed simp

lemma decrypt_append:
  "decrypt_blocks dec c (xs @ ys) =
    (fst (decrypt_blocks dec c xs) @ fst (decrypt_blocks dec (snd (decrypt_blocks dec c xs)) ys),
     snd (decrypt_blocks dec (snd (decrypt_blocks dec c xs)) ys))"
  by (induction xs arbitrary: c) (auto simp: Let_def split: prod.splits)

lemma read_chunks_decrypt:
  "read_chunks dec chunks (Decrypt c) =
    (fst (decrypt_blocks dec c (concat chunks)), Decrypt (snd (decrypt_blocks dec c (concat chunks))))"
  by (induction chunks arbitrary: c) (auto simp: reader_poll_read_def decrypt_append Let_def split: prod.splits)

lemma read_chunks_plain: "read_chunks dec chunks PlainReader = (concat chunks, PlainReader)"
  by (induction chunks) (auto simp: reader_poll_read_def)

section \<open>A connection end to end\<close>

primrec read_packets :: "(u8 list \<Rightarrow> u8 list \<times> string option) \<Rightarrow> u32 option \<Rightarrow> nat \<Rightarrow> Cursor \<Rightarrow> (PacketError + RawPacket list \<times> Cursor) option" where
  "read_packets inflate t 0 stream = Some (Inr ([], stream))"
| "read_packets inflate t (Suc n) stream =
    (case get_raw_packet inflate t stream of
       Some (Inr (raw, stream)) \<Rightarrow>
         (case read_packets inflate t n stream of
            Some (Inr (raws, stream)) \<Rightarrow> Some (Inr (raw # raws, stream))
          | r \<Rightarrow> r)
     | Some (Inl e) \<Rightarrow> Some (Inl e)
     | None \<Rightarrow> None)"

definition decoded_as :: "ConnectionProtocol \<Rightarrow> ClientPacket \<Rightarrow> RawPacket \<Rightarrow> bool" where
  "decoded_as protocol p raw \<longleftrightarrow>
    get_id p protocol = Some (raw_id raw) \<and> map_option Inr (packet_payload raw) = Some (packet_write p)"

lemma read_packets_frames:
  assumes "zlib_inverse compress inflate" "list_all2 (\<lambda>p v. from_bare compress p c protocol = Some (Inr v)) ps vs"
    and "\<forall>v \<in> set vs. c = None \<or> length (as_slice v) \<le> MAX_PACKET_SIZE + 4"
  shows "\<exists>raws. read_packets inflate (map_option threshold c) (length ps) (concat (map as_slice vs) @ rest) = Some (Inr (raws, rest))
    \<and> list_all2 (decoded_as protocol) ps raws"
  using assms(2,3)
proof (induction rule: list_all2_induct)
  case (Cons p ps v vs)
  then obtain raws where raws: "read_packets inflate (map_option threshold c) (length ps) (concat (map as_slice vs) @ rest) = Some (Inr (raws, rest))"
    "list_all2 (decoded_as protocol) ps raws" by auto
  obtain raw where "get_raw_packet inflate (map_option threshold c) (as_slice v @ concat (map as_slice vs) @ rest)
      = Some (Inr (raw, concat (map as_slice vs) @ rest))" "decoded_as protocol p raw"
    using packet_round_trip [OF assms(1) Cons(1)] Cons.prems unfolding decoded_as_def by (metis list.set_intros(1))
  then show ?case using raws by (intro exI [of _ "raw # raws"]) simp
qed simp

text \<open>C5: Packets written over an encrypted connection arrive: however the socket interrupts the writer,
  accepting a byte now and making it wait then, and however the reader's chunks split the stream,
  decrypting and reading as many packets as were written gives each one's id and payload back, in
  order and with nothing left over. With compression enabled this is for packets whose frames the
  decoder admits: a body within \<open>MAX_PACKET_SIZE\<close>, so a frame of at most four bytes more, which the
  encoder does not enforce there. The cipher and the compression are assumed invertible.\<close>

theorem connection_round_trip:
  assumes "stream_cipher enc dec" "zlib_inverse compress inflate"
    and "list_all2 (\<lambda>p v. from_bare compress p c protocol = Some (Inr v)) ps vs"
    and "\<forall>v \<in> set vs. c = None \<or> length (as_slice v) \<le> MAX_PACKET_SIZE + 4"
    and "write_packets enc vs (Encrypt (stream_encryptor_new key [])) w" "concat chunks = writer_sink w"
  shows "\<exists>raws. read_packets inflate (map_option threshold c) (length ps) (fst (read_chunks dec chunks (Decrypt key))) = Some (Inr (raws, []))
    \<and> list_all2 (decoded_as protocol) ps raws"
proof -
  have "writer_sink w = fst (encrypt_blocks enc key (concat (map as_slice vs)))"
    using write_packets_complete [OF assms(5) refl] by (auto simp: stream_encryptor_new_def writer_sink_def)
  then have "fst (read_chunks dec chunks (Decrypt key)) = concat (map as_slice vs)"
    using assms(6) by (simp add: read_chunks_decrypt decrypt_encrypt [OF assms(1)])
  then show ?thesis using read_packets_frames [OF assms(2,3,4), of "[]"] by simp
qed

definition demo_enc :: "u8 \<Rightarrow> u8 \<Rightarrow> u8 \<times> u8" where
  "demo_enc c b = (b + c, c + b)"

definition demo_dec :: "u8 \<Rightarrow> u8 \<Rightarrow> u8 \<times> u8" where
  "demo_dec c b = (b - c, b)"

lemma demo_cipher: "stream_cipher demo_enc demo_dec"
  by (simp add: stream_cipher_def demo_enc_def demo_dec_def)

text \<open>A packet with a compression threshold of 256, left uncompressed.\<close>

lemma demo_encoded:
  "\<exists>v. from_bare stored (demo_packet [7]) (Some default_compression) Play = Some (Inr v) \<and> as_slice v = [3, 0, 0, 7]"
proof -
  have "frame_body stored (Some default_compression) (varint_write 0 @ [7]) = Inr [0, 0, 7]"
    by (simp add: frame_body_def varint_zero default_compression_def MAX_PACKET_DATA_SIZE_def)
  moreover obtain b where b: "write_vec (demo_packet [7]) Play = Inr b" "front_ok b" "front_space b = 6" "as_slice b = varint_write 0 @ [7]"
    using write_vec_data [of "demo_packet [7]" Play 0 "[7]"] by (auto simp: demo_packet_def)
  moreover have "frame [0, 0, 7] = [3, 0, 0, 7]" by (simp add: frame_def varint_write_def)
  ultimately show ?thesis using from_data_frames [of b stored "Some default_compression"] by (auto simp: from_bare_def)
qed

lemma demo_run: "write_run demo_enc [3, 0, 0, 7] (Encrypt (stream_encryptor_new 5 [])) []
    (Encrypt \<lparr>enc_cipher = 15, last_unwritten_encrypted_byte = None, sink = [8, 8, 8, 15]\<rparr>)"
proof -
  let ?w = "Encrypt (stream_encryptor_new 5 [])"
  have "write_run demo_enc [3, 0, 0, 7] ?w (drop 1 [3, 0, 0, 7]) (Encrypt \<lparr>enc_cipher = 8, last_unwritten_encrypted_byte = Some 8, sink = [8]\<rparr>)"
    by (rule write_run.wrote [OF write_run.start, of _ "[AnsAccept 1, AnsPending]"])
      (simp_all add: progressing_def writer_poll_write_def stream_encryptor_new_def demo_enc_def)
  then have "write_run demo_enc [3, 0, 0, 7] ?w [0, 0, 7] (Encrypt \<lparr>enc_cipher = 8, last_unwritten_encrypted_byte = Some 8, sink = [8]\<rparr>)" by simp
  then have "write_run demo_enc [3, 0, 0, 7] ?w (drop 3 [0, 0, 7]) (Encrypt \<lparr>enc_cipher = 15, last_unwritten_encrypted_byte = None, sink = [8, 8, 8, 15]\<rparr>)"
    by (rule write_run.wrote [where answers = "[AnsAccept 1, AnsAccept 1, AnsAccept 1]"])
      (simp_all add: progressing_def writer_poll_write_def demo_enc_def)
  then show ?thesis by simp
qed

theorem connection_round_trip_witness:
  "\<exists>raws. read_packets stored_back (Some 256) 1 (fst (read_chunks demo_dec [[8], [8, 8, 15]] (Decrypt 5))) = Some (Inr (raws, []))
    \<and> list_all2 (decoded_as Play) [demo_packet [7]] raws"
proof -
  obtain v where v: "from_bare stored (demo_packet [7]) (Some default_compression) Play = Some (Inr v)" "as_slice v = [3, 0, 0, 7]"
    using demo_encoded by blast
  have "write_packets demo_enc [v] (Encrypt (stream_encryptor_new 5 [])) (Encrypt \<lparr>enc_cipher = 15, last_unwritten_encrypted_byte = None, sink = [8, 8, 8, 15]\<rparr>)"
    using demo_run v(2) by (auto intro: write_packets.intros)
  from connection_round_trip [OF demo_cipher stored_inverse _ _ this, of "Some default_compression" Play "[demo_packet [7]]" "[[8], [8, 8, 15]]"]
  show ?thesis using v by (simp add: writer_sink_def MAX_PACKET_SIZE_def default_compression_def)
qed

end
