(* ===== verification/Block_Property.thy ===== *)
theory Block_Property
  imports Prelude "HOL-Library.Char_ord"
begin

text \<open>
  Block state properties of \<open>steel-registry/src/blocks/properties.rs\<close>: boolean, integer and enum
  properties with the names and the indices of their values. The trait object is a datatype with one
  constructor per impl; a value of an enum is its name. A panic is \<open>None\<close>.
\<close>

section \<open>Properties and values\<close>

datatype Property =
    BoolProperty string
  | IntProperty string u8 u8
  | EnumProperty string "string list" "string list"

datatype PropertyValue = BoolValue bool | IntValue u8 | EnumValue string

definition NUM_STR :: "string list" where
  "NUM_STR = [''0'', ''1'', ''2'', ''3'', ''4'', ''5'', ''6'', ''7'', ''8'', ''9'', ''10'', ''11'', ''12'', ''13'', ''14'',
    ''15'', ''16'', ''17'', ''18'', ''19'', ''20'', ''21'', ''22'', ''23'', ''24'', ''25'']"

definition nth_opt :: "'a list \<Rightarrow> nat \<Rightarrow> 'a option" where
  "nth_opt xs i = (if i < length xs then Some (xs ! i) else None)"

fun get_name :: "Property \<Rightarrow> string" where
  "get_name (BoolProperty name) = name"
| "get_name (IntProperty name _ _) = name"
| "get_name (EnumProperty name _ _) = name"

fun value_count :: "Property \<Rightarrow> nat" where
  "value_count (BoolProperty _) = 2"
| "value_count (IntProperty _ lo hi) = unat (hi - lo + 1)"
| "value_count (EnumProperty _ possible_values _) = length possible_values"

fun value_name_from_index :: "Property \<Rightarrow> nat \<Rightarrow> string option" where
  "value_name_from_index (BoolProperty _) index = nth_opt [''true'', ''false''] index"
| "value_name_from_index (IntProperty _ lo _) index = nth_opt NUM_STR (unat lo + index)"
| "value_name_from_index (EnumProperty _ possible_values _) index = nth_opt possible_values index"

text \<open>The standard parser of \<open>u8\<close>: an optional plus sign, decimal digits, no overflow.\<close>

definition is_digit :: "char \<Rightarrow> bool" where
  "is_digit c \<longleftrightarrow> of_char c \<ge> (48 :: nat) \<and> of_char c \<le> (57 :: nat)"

definition digits_value :: "string \<Rightarrow> nat" where
  "digits_value s = fold (\<lambda>c n. 10 * n + (of_char c - 48)) s 0"

definition parse_u8 :: "string \<Rightarrow> u8 option" where
  "parse_u8 s =
    (let ds = (case s of c # cs \<Rightarrow> if c = CHR ''+'' \<and> cs \<noteq> [] then cs else s | [] \<Rightarrow> s)
     in if ds \<noteq> [] \<and> list_all is_digit ds \<and> digits_value ds < 256 then Some (of_nat (digits_value ds)) else None)"

fun get_value :: "Property \<Rightarrow> string \<Rightarrow> PropertyValue option" where
  "get_value (BoolProperty _) value =
    (if value = ''true'' then Some (BoolValue True) else if value = ''false'' then Some (BoolValue False) else None)"
| "get_value (IntProperty _ lo hi) value =
    (case parse_u8 value of Some v \<Rightarrow> if v \<ge> lo \<and> v \<le> hi then Some (IntValue v) else None | None \<Rightarrow> None)"
| "get_value (EnumProperty _ possible_values _) value = map_option EnumValue (find (\<lambda>v. v = value) possible_values)"

text \<open>A value of another kind of property cannot be passed, by the types of the source.\<close>

definition first_position :: "('a \<Rightarrow> bool) \<Rightarrow> 'a list \<Rightarrow> nat option" where
  "first_position f xs = (let n = length (takeWhile (\<lambda>x. \<not> f x) xs) in if n < length xs then Some n else None)"

fun get_internal_index :: "Property \<Rightarrow> PropertyValue \<Rightarrow> nat option" where
  "get_internal_index (BoolProperty _) (BoolValue v) = Some (if \<not> v then 1 else 0)"
| "get_internal_index (IntProperty _ lo hi) (IntValue v) = Some (if v \<le> hi then unat (v - lo) else 0)"
| "get_internal_index (EnumProperty _ possible_values _) (EnumValue v) = first_position (\<lambda>w. w = v) possible_values"
| "get_internal_index _ _ = None"

fun value_from_index :: "Property \<Rightarrow> nat \<Rightarrow> PropertyValue option" where
  "value_from_index (BoolProperty _) index = Some (BoolValue (index = 0))"
| "value_from_index (IntProperty _ lo _) index = Some (IntValue (lo + of_nat index))"
| "value_from_index (EnumProperty _ possible_values _) index = map_option EnumValue (nth_opt possible_values index)"

fun get_possible_value_names :: "Property \<Rightarrow> string list option" where
  "get_possible_value_names (BoolProperty _) = Some [''true'', ''false'']"
| "get_possible_value_names (IntProperty _ lo hi) =
    (if \<forall>v \<in> set [unat lo..<Suc (unat hi)]. v < length NUM_STR then Some (map (\<lambda>v. NUM_STR ! v) [unat lo..<Suc (unat hi)]) else None)"
| "get_possible_value_names (EnumProperty _ possible_values _) = Some possible_values"

fun get_possible_values :: "Property \<Rightarrow> PropertyValue list" where
  "get_possible_values (BoolProperty _) = [BoolValue True, BoolValue False]"
| "get_possible_values (IntProperty _ lo hi) = map (\<lambda>v. IntValue (of_nat v)) [unat lo..<Suc (unat hi)]"
| "get_possible_values (EnumProperty _ possible_values _) = map EnumValue possible_values"

definition int_compare :: "nat \<Rightarrow> nat \<Rightarrow> int" where
  "int_compare a b = (if a < b then - 1 else if a = b then 0 else 1)"

text \<open>The order of two names: less, equal and greater are -1, 0 and 1.\<close>

fun value_rank :: "Property \<Rightarrow> PropertyValue \<Rightarrow> nat option" where
  "value_rank (BoolProperty _) (BoolValue v) = Some (if v then 1 else 0)"
| "value_rank (IntProperty _ _ _) (IntValue v) = Some (unat v)"
| "value_rank (EnumProperty _ _ comparison_values) (EnumValue v) = first_position (\<lambda>w. w = v) comparison_values"
| "value_rank _ _ = None"

definition compare_value_names :: "Property \<Rightarrow> string \<Rightarrow> string \<Rightarrow> int option" where
  "compare_value_names p left right = (case (get_value p left, get_value p right) of
     (Some l, Some r) \<Rightarrow> (case (value_rank p l, value_rank p r) of
        (Some a, Some b) \<Rightarrow> Some (int_compare a b) | _ \<Rightarrow> None)
   | _ \<Rightarrow> None)"

section \<open>Well-formed properties\<close>

text \<open>What the declarations of the properties guarantee.\<close>

fun property_ok :: "Property \<Rightarrow> bool" where
  "property_ok (BoolProperty _) \<longleftrightarrow> True"
| "property_ok (IntProperty _ lo hi) \<longleftrightarrow> lo \<le> hi \<and> hi \<le> 25"
| "property_ok (EnumProperty _ possible_values comparison_values) \<longleftrightarrow>
    possible_values \<noteq> [] \<and> distinct possible_values \<and> set possible_values \<subseteq> set comparison_values"

lemma nth_opt_Some [simp]: "nth_opt xs i = Some x \<longleftrightarrow> i < length xs \<and> xs ! i = x"
  by (auto simp: nth_opt_def)

lemma first_position_Some:
  "first_position f xs = Some i \<longleftrightarrow> i < length xs \<and> f (xs ! i) \<and> (\<forall>j < i. \<not> f (xs ! j))"
proof -
  let ?n = "length (takeWhile (\<lambda>x. \<not> f x) xs)"
  have n: "j < ?n \<Longrightarrow> \<not> f (xs ! j)" for j using nth_mem [of j "takeWhile (\<lambda>x. \<not> f x) xs"]
    by (auto simp: takeWhile_nth dest: set_takeWhileD)
  have f: "?n < length xs \<Longrightarrow> f (xs ! ?n)" using nth_length_takeWhile [of "\<lambda>x. \<not> f x" xs] by blast
  show ?thesis using n f by (auto simp: first_position_def Let_def) (meson le_less_trans length_takeWhile_le linorder_neqE_nat)+
qed

lemma first_position_None: "first_position f xs = None \<longleftrightarrow> (\<forall>x \<in> set xs. \<not> f x)"
  by (induction xs) (auto simp: first_position_def Let_def split: if_splits)

lemma position_distinct: "distinct xs \<Longrightarrow> i < length xs \<Longrightarrow> first_position (\<lambda>x. x = xs ! i) xs = Some i"
  by (auto simp: first_position_Some nth_eq_iff_index_eq)

lemma num_str_parse: "list_all (\<lambda>n. parse_u8 (NUM_STR ! n) = Some (of_nat n)) [0..<26]"
  by (simp add: upt_rec NUM_STR_def parse_u8_def is_digit_def digits_value_def)

lemma num_str_value: "n < 26 \<Longrightarrow> parse_u8 (NUM_STR ! n) = Some (of_nat n)"
  using num_str_parse by (simp add: list_all_iff)

lemma num_str_distinct: "distinct NUM_STR" "length NUM_STR = 26"
  by (simp_all add: NUM_STR_def)

lemma value_count_int:
  assumes "lo \<le> hi" "hi \<le> 25"
  shows "value_count (IntProperty name lo hi) = Suc (unat hi) - unat lo" "unat hi \<le> 25" "unat lo \<le> unat hi"
proof -
  show h: "unat hi \<le> 25" "unat lo \<le> unat hi" using assms by (simp_all add: word_le_nat_alt)
  have "unat hi - unat lo < 255" using h by linarith
  then have "unat (hi - lo + 1) = unat (hi - lo) + 1"
    using h unat_sub [of lo hi] assms(1) unat_add_lem [of "hi - lo" 1] by simp
  then show "value_count (IntProperty name lo hi) = Suc (unat hi) - unat lo"
    using h unat_sub [of lo hi] assms(1) by (simp add: Suc_diff_le)
qed

lemma value_count_pos: "property_ok p \<Longrightarrow> 0 < value_count p"
  by (cases p) (auto simp: value_count_int less_Suc_eq_le word_le_nat_alt simp del: value_count.simps(2))

lemma int_value:
  assumes "lo \<le> (hi :: u8)" "hi \<le> 25" "i < Suc (unat hi) - unat lo"
  shows "unat (lo + of_nat i) = unat lo + i" "lo + of_nat i \<le> hi" "lo \<le> lo + of_nat i" "unat (lo + of_nat i - lo) = i"
proof -
  note h = value_count_int(2,3) [OF assms(1,2)]
  have i: "unat (of_nat i :: u8) = i" using assms(3) h by (simp add: unat_of_nat take_bit_nat_eq_self)
  have "unat lo + i < 256" using assms(3) h by linarith
  then show u: "unat (lo + of_nat i) = unat lo + i"
    using i assms(3) h unat_add_lem [of lo "of_nat i"] by simp
  then show "lo + of_nat i \<le> hi" "lo \<le> lo + of_nat i" using assms(3) h by (simp_all add: word_le_nat_alt)
  show "unat (lo + of_nat i - lo) = i" using i by simp
qed

text \<open>An index below the count names a value, and name, value and index determine each other.\<close>

lemma property_value_at:
  assumes "property_ok p" "i < value_count p"
  obtains s v where "value_name_from_index p i = Some s" "get_value p s = Some v" "value_from_index p i = Some v"
    "get_internal_index p v = Some i"
proof (cases p)
  case (BoolProperty name)
  then have "i = 0 \<or> i = 1" using assms(2) by auto
  then show ?thesis using BoolProperty by (intro that [of "[''true'', ''false''] ! i" "BoolValue (i = 0)"]) auto
next
  case (IntProperty name lo hi)
  then have ok: "lo \<le> hi" "hi \<le> 25" using assms(1) by simp_all
  have i: "i < Suc (unat hi) - unat lo" using assms(2) IntProperty value_count_int(1) [OF ok] by simp
  note v = int_value [OF ok i]
  have l: "unat lo + i < 26" using i value_count_int(2,3) [OF ok] by simp
  have "(of_nat (unat lo + i) :: u8) = lo + of_nat i" by simp
  then show ?thesis using IntProperty v l num_str_value [OF l]
    by (intro that [of "NUM_STR ! (unat lo + i)" "IntValue (lo + of_nat i)"]) (simp_all add: num_str_distinct(2))
next
  case (EnumProperty name vs cs)
  then have i: "i < length vs" "distinct vs" using assms by simp_all
  have "find (\<lambda>v. v = vs ! i) vs = Some (vs ! i)" unfolding find_Some_iff using i by (intro exI [of _ i]) (auto simp: nth_eq_iff_index_eq)
  then show ?thesis using EnumProperty i position_distinct [OF i(2,1)]
    by (intro that [of "vs ! i" "EnumValue (vs ! i)"]) simp_all
qed

lemma value_name_inj:
  assumes "property_ok p" "i < value_count p" "j < value_count p" "value_name_from_index p i = value_name_from_index p j"
  shows "i = j"
proof -
  obtain s v where i: "value_name_from_index p i = Some s" "get_value p s = Some v" "get_internal_index p v = Some i"
    using property_value_at [OF assms(1,2)] .
  obtain s' v' where j: "value_name_from_index p j = Some s'" "get_value p s' = Some v'" "get_internal_index p v' = Some j"
    using property_value_at [OF assms(1,3)] .
  show ?thesis using i j assms(4) by simp
qed

text \<open>The search of the registry for the index of a value name.\<close>

definition find_value_index :: "Property \<Rightarrow> string \<Rightarrow> nat option" where
  "find_value_index p s = find (\<lambda>index. value_name_from_index p index = Some s) [0..<value_count p]"

lemma find_value_index_iff:
  assumes "property_ok p"
  shows "find_value_index p s = Some i \<longleftrightarrow> i < value_count p \<and> value_name_from_index p i = Some s"
proof
  assume "find_value_index p s = Some i"
  then show "i < value_count p \<and> value_name_from_index p i = Some s"
    unfolding find_value_index_def find_Some_iff by auto
next
  assume i: "i < value_count p \<and> value_name_from_index p i = Some s"
  have "value_name_from_index p j \<noteq> Some s" if "j < i" for j using value_name_inj [OF assms, of j i] i that by auto
  with i show "find_value_index p s = Some i"
    unfolding find_value_index_def find_Some_iff by (intro exI [of _ i]) simp
qed

lemma possible_names:
  assumes "property_ok p"
  shows "get_possible_value_names p = Some (map (\<lambda>i. the (value_name_from_index p i)) [0..<value_count p])"
proof (cases p)
  case (IntProperty name lo hi)
  then have ok: "lo \<le> hi" "hi \<le> 25" using assms by simp_all
  note h = value_count_int(1) [OF ok, of name] value_count_int(2,3) [OF ok]
  have "map (\<lambda>i. NUM_STR ! i) [unat lo..<Suc (unat hi)] = map (\<lambda>i. the (value_name_from_index p i)) [0..<value_count p]"
    using h IntProperty by (intro nth_equalityI) (auto simp: nth_opt_def num_str_distinct simp del: upt_Suc value_count.simps(2))
  then show ?thesis using h(2) IntProperty by (simp add: num_str_distinct del: upt_Suc value_count.simps(2))
next
  case (EnumProperty name vs cs)
  have "map (\<lambda>i. the (nth_opt vs i)) [0..<length vs] = vs" by (intro nth_equalityI) (simp_all add: nth_opt_def)
  then show ?thesis using EnumProperty by simp
qed (simp add: nth_opt_def upt_rec)

end
