(* ===== verification/State_Encoding.thy ===== *)
theory State_Encoding
  imports Block_Property
begin

text \<open>
  The numbering of the states of a block in \<open>steel-registry/src/blocks/mod.rs\<close>: the value indices of
  the properties are the digits of a mixed radix number whose last property varies fastest. The
  loops work on 16-bit words; the reference is on natural numbers.
\<close>

section \<open>The loops of the source\<close>

text \<open>\<open>calculate_offset\<close> and \<open>encode_property_indices\<close> run from the last property to the first.\<close>

primrec calculate_offset_loop :: "(nat \<times> nat) list \<Rightarrow> u16 \<Rightarrow> u16 \<Rightarrow> u16" where
  "calculate_offset_loop [] offset multiplier = offset"
| "calculate_offset_loop (e # es) offset multiplier =
    calculate_offset_loop es (offset + of_nat (fst e) * multiplier) (multiplier * of_nat (snd e))"

definition calculate_offset :: "nat list \<Rightarrow> nat list \<Rightarrow> u16 option" where
  "calculate_offset property_indices property_counts =
    (if length property_indices \<le> length property_counts
     then Some (calculate_offset_loop (rev (zip property_indices property_counts)) 0 1) else None)"

definition state_count :: "Property list \<Rightarrow> u16" where
  "state_count properties = prod_list (map (\<lambda>property. of_nat (value_count property)) properties)"

definition encode_property_indices :: "Property list \<Rightarrow> nat list \<Rightarrow> u16" where
  "encode_property_indices properties property_indices =
    calculate_offset_loop (rev (zip property_indices (map value_count properties))) 0 1"

fun decode_loop :: "(nat \<times> Property) list \<Rightarrow> u16 \<Rightarrow> nat list \<Rightarrow> nat list" where
  "decode_loop [] offset property_indices = property_indices"
| "decode_loop ((i, prop) # es) offset property_indices =
    (let count = of_nat (value_count prop)
     in decode_loop es (offset div count) (property_indices[i := unat (offset mod count)]))"

definition decode_property_indices :: "Property list \<Rightarrow> u16 \<Rightarrow> nat list" where
  "decode_property_indices properties offset =
    decode_loop (rev (enumerate 0 properties)) offset (replicate (length properties) 0)"

definition property_stride :: "Property list \<Rightarrow> nat \<Rightarrow> u16" where
  "property_stride properties property_index =
    prod_list (map (\<lambda>property. of_nat (value_count property)) (drop (Suc property_index) properties))"

text \<open>The lazy iterator over the names and values of a state.\<close>

fun state_properties :: "Property list \<Rightarrow> u16 \<Rightarrow> u16 \<Rightarrow> (string \<times> string option) list" where
  "state_properties [] offset stride = []"
| "state_properties (property # properties) offset stride =
    (let count = of_nat (value_count property);
         stride = stride div count;
         value_index = unat (offset div stride mod count)
     in (get_name property, value_name_from_index property value_index) # state_properties properties offset stride)"

section \<open>Mixed radix numbers\<close>

primrec radix_value :: "nat list \<Rightarrow> nat list \<Rightarrow> nat" where
  "radix_value [] ds = 0"
| "radix_value (c # cs) ds = (case ds of [] \<Rightarrow> 0 | d # ds \<Rightarrow> d * prod_list cs + radix_value cs ds)"

primrec radix_digits :: "nat list \<Rightarrow> nat \<Rightarrow> nat list" where
  "radix_digits [] n = []"
| "radix_digits (c # cs) n = (n div prod_list cs mod c) # radix_digits cs n"

definition digits_ok :: "nat list \<Rightarrow> nat list \<Rightarrow> bool" where
  "digits_ok cs ds \<longleftrightarrow> list_all2 (\<lambda>d c. d < c) ds cs"

lemma length_radix_digits [simp]: "length (radix_digits cs n) = length cs"
  by (induction cs) simp_all

lemma nth_radix_digits: "i < length cs \<Longrightarrow> radix_digits cs n ! i = n div prod_list (drop (Suc i) cs) mod (cs ! i)"
proof (induction cs arbitrary: i)
  case (Cons c cs)
  then show ?case by (cases i) simp_all
qed simp

lemma radix_digits_ok: "list_all (\<lambda>c. 0 < c) cs \<Longrightarrow> digits_ok cs (radix_digits cs n)"
  by (induction cs) (simp_all add: digits_ok_def)

lemma radix_value_less: "digits_ok cs ds \<Longrightarrow> radix_value cs ds < prod_list cs \<or> cs = []"
proof (induction cs arbitrary: ds)
  case (Cons c cs)
  then obtain d ds' where ds: "ds = d # ds'" "d < c" "digits_ok cs ds'" by (auto simp: digits_ok_def list_all2_Cons2)
  have "radix_value cs ds' < prod_list cs" using Cons.IH [OF ds(3)] by (cases "cs = []") auto
  then have "d * prod_list cs + radix_value cs ds' < Suc d * prod_list cs" by simp
  also have "\<dots> \<le> c * prod_list cs" using ds(2) by (intro mult_le_mono1) simp
  finally show ?case using ds(1) by simp
qed simp

lemma radix_value_less_prod: "digits_ok cs ds \<Longrightarrow> radix_value cs ds < prod_list cs"
  using radix_value_less [of cs ds] by auto

lemma radix_digits_shift: "radix_digits cs (a * prod_list cs + n) = radix_digits cs n"
proof (induction cs arbitrary: a)
  case (Cons c cs)
  have e: "a * prod_list (c # cs) + n = (a * c) * prod_list cs + n" by simp
  have "(a * c * prod_list cs + n) div prod_list cs mod c = n div prod_list cs mod c" by (cases "prod_list cs = 0") simp_all
  then show ?case using Cons [of "a * c"] unfolding e by simp
qed simp

lemma radix_digits_value: "digits_ok cs ds \<Longrightarrow> radix_digits cs (radix_value cs ds) = ds"
proof (induction cs arbitrary: ds)
  case (Cons c cs)
  then obtain d ds' where ds: "ds = d # ds'" "d < c" "digits_ok cs ds'" by (auto simp: digits_ok_def list_all2_Cons2)
  have "radix_value cs ds' < prod_list cs" by (rule radix_value_less_prod [OF ds(3)])
  then have "(d * prod_list cs + radix_value cs ds') div prod_list cs mod c = d" using ds(2) by simp
  then show ?case using ds radix_digits_shift [of cs d "radix_value cs ds'"] Cons.IH [OF ds(3)] by simp
qed (simp add: digits_ok_def)

lemma radix_value_digits: "radix_value cs (radix_digits cs n) = n mod prod_list cs"
proof (induction cs)
  case (Cons c cs)
  then show ?case using mod_mult2_eq [of n "prod_list cs" c] by (simp add: mult.commute)
qed simp

lemma radix_value_update:
  "i < length ds \<Longrightarrow> length ds = length cs \<Longrightarrow>
    radix_value cs (ds[i := d]) + ds ! i * prod_list (drop (Suc i) cs) = radix_value cs ds + d * prod_list (drop (Suc i) cs)"
proof (induction cs arbitrary: ds i)
  case (Cons c cs)
  then obtain e es where "ds = e # es" by (cases ds) auto
  with Cons show ?case by (cases i) (simp_all add: add.commute add.left_commute)
qed simp

lemma digits_ok_update: "digits_ok cs ds \<Longrightarrow> i < length ds \<Longrightarrow> d < cs ! i \<Longrightarrow> digits_ok cs (ds[i := d])"
  by (auto simp: digits_ok_def list_all2_conv_all_nth nth_list_update)

section \<open>The loops compute the number\<close>

lemma calculate_offset_loop_value:
  "calculate_offset_loop (rev es @ rest) offset m = calculate_offset_loop rest
    (offset + m * of_nat (radix_value (map snd es) (map fst es))) (m * of_nat (prod_list (map snd es)))"
proof (induction es arbitrary: rest)
  case (Cons e es)
  then show ?case by (simp add: algebra_simps)
qed simp

abbreviation value_counts :: "Property list \<Rightarrow> nat list" where
  "value_counts ps \<equiv> map value_count ps"

lemma encode_value:
  assumes "length ds = length ps"
  shows "encode_property_indices ps ds = of_nat (radix_value (value_counts ps) ds)"
  using calculate_offset_loop_value [of "zip ds (value_counts ps)" "[]" 0 1] assms by (simp add: encode_property_indices_def)

lemma of_nat_prod_list: "of_nat (prod_list xs) = prod_list (map of_nat xs)"
  by (induction xs) simp_all

lemma state_count_value: "state_count ps = of_nat (prod_list (value_counts ps))"
  by (simp add: state_count_def of_nat_prod_list comp_def)

lemma property_stride_value: "property_stride ps i = of_nat (prod_list (drop (Suc i) (value_counts ps)))"
  by (simp add: property_stride_def of_nat_prod_list comp_def drop_map)

definition properties_ok :: "Property list \<Rightarrow> bool" where
  "properties_ok ps \<longleftrightarrow> list_all property_ok ps \<and> distinct (map get_name ps) \<and> prod_list (value_counts ps) < 2 ^ 16"

lemma counts_pos: "list_all property_ok ps \<Longrightarrow> list_all (\<lambda>c. 0 < c) (value_counts ps)"
  by (auto simp: list_all_iff value_count_pos)

lemma prod_list_pos: "list_all (\<lambda>c. 0 < c) cs \<Longrightarrow> 0 < prod_list (cs :: nat list)"
  by (induction cs) simp_all

lemma prod_list_Cons_bound:
  assumes "list_all (\<lambda>c. 0 < c) (c # cs)" "prod_list (c # cs) < (n :: nat)"
  shows "prod_list cs < n" "c < n"
proof -
  have "prod_list cs \<le> c * prod_list cs" "c \<le> c * prod_list cs" using prod_list_pos [of cs] assms(1) by simp_all
  then show "prod_list cs < n" "c < n" using assms(2) by (simp_all only: prod_list.Cons le_less_trans)
qed

lemma prod_list_drop_bound: "list_all (\<lambda>c. 0 < c) cs \<Longrightarrow> prod_list cs < (n :: nat) \<Longrightarrow> prod_list (drop i cs) < n"
proof (induction cs arbitrary: i)
  case (Cons c cs)
  then show ?case using prod_list_Cons_bound [of c cs n] by (cases i) auto
qed simp

lemma unat_of_nat_small: "n < 2 ^ 16 \<Longrightarrow> unat (of_nat n :: u16) = n"
  by (simp add: unat_of_nat take_bit_nat_eq_self)

lemma decode_loop_digits:
  assumes "list_all property_ok ps" "prod_list (value_counts ps) < 2 ^ 16" "length mid = length ps"
  shows "decode_loop (rev (enumerate (length pre) ps) @ rest) off (pre @ mid @ suf) =
    decode_loop rest (off div of_nat (prod_list (value_counts ps))) (pre @ radix_digits (value_counts ps) (unat off) @ suf)"
  using assms
proof (induction ps arbitrary: pre mid rest)
  case (Cons p ps)
  obtain m ms where mid: "mid = m # ms" "length ms = length ps" using Cons.prems(3) by (cases mid) auto
  define P where "P = prod_list (value_counts ps)"
  define c where "c = value_count p"
  have b: "P < 2 ^ 16" "c < 2 ^ 16"
    using prod_list_Cons_bound [of c "value_counts ps" "2 ^ 16"] counts_pos [OF Cons.prems(1)] Cons.prems(2)
    by (simp_all add: P_def c_def)
  have "decode_loop (rev (enumerate (length pre) (p # ps)) @ rest) off (pre @ mid @ suf) =
      decode_loop (rev (enumerate (length (pre @ [m])) ps) @ (length pre, p) # rest) off ((pre @ [m]) @ ms @ suf)"
    using mid(1) by simp
  also have "\<dots> = decode_loop ((length pre, p) # rest) (off div of_nat P) ((pre @ [m]) @ radix_digits (value_counts ps) (unat off) @ suf)"
    using Cons.IH [of ms "pre @ [m]" "(length pre, p) # rest"] Cons.prems b mid(2) by (simp add: P_def)
  also have "\<dots> = decode_loop rest (off div of_nat P div of_nat c)
      (pre @ unat (off div of_nat P mod of_nat c) # radix_digits (value_counts ps) (unat off) @ suf)"
    by (simp add: c_def Let_def list_update_append)
  also have "unat (off div of_nat P mod of_nat c) = unat off div P mod c"
    using b by (simp add: unat_mod unat_div unat_of_nat_small)
  also have "off div of_nat P div of_nat c = off div of_nat (c * P)"
    using b Cons.prems(2) div_mult2_eq [of "unat off" P c]
    by (simp add: word_unat_eq_iff unat_div unat_of_nat_small P_def c_def mult.commute del: of_nat_mult)
  finally show ?case by (simp add: P_def c_def)
qed simp

lemma decode_digits:
  assumes "list_all property_ok ps" "prod_list (value_counts ps) < 2 ^ 16"
  shows "decode_property_indices ps off = radix_digits (value_counts ps) (unat off)"
  using decode_loop_digits [OF assms, of "replicate (length ps) 0" "[]" "[]" off "[]"] by (simp add: decode_property_indices_def)

text \<open>One digit is read by a division and a remainder.\<close>

lemma value_index_digit:
  assumes "list_all property_ok ps" "prod_list (value_counts ps) < 2 ^ 16" "i < length ps"
  shows "unat (off div property_stride ps i mod of_nat (value_count (ps ! i))) = radix_digits (value_counts ps) (unat off) ! i"
    "radix_digits (value_counts ps) (unat off) ! i < value_count (ps ! i)"
proof -
  have pos: "list_all (\<lambda>c. 0 < c) (value_counts ps)" by (rule counts_pos [OF assms(1)])
  have S: "prod_list (drop (Suc i) (value_counts ps)) < 2 ^ 16" by (rule prod_list_drop_bound [OF pos assms(2)])
  have "prod_list (drop i (value_counts ps)) = value_count (ps ! i) * prod_list (drop (Suc i) (value_counts ps))"
    using assms(3) by (simp add: Cons_nth_drop_Suc [symmetric])
  moreover have "0 < prod_list (drop (Suc i) (value_counts ps))"
    using pos by (intro prod_list_pos) (auto simp: list_all_iff drop_map dest: in_set_dropD)
  ultimately have "value_count (ps ! i) \<le> prod_list (drop i (value_counts ps))" by simp
  then have c: "value_count (ps ! i) < 2 ^ 16" using prod_list_drop_bound [OF pos assms(2), of i] by simp
  show "unat (off div property_stride ps i mod of_nat (value_count (ps ! i))) = radix_digits (value_counts ps) (unat off) ! i"
    using S c assms(3) by (simp add: property_stride_value unat_mod unat_div unat_of_nat_small nth_radix_digits)
  show "radix_digits (value_counts ps) (unat off) ! i < value_count (ps ! i)"
    using radix_digits_ok [OF pos, of "unat off"] assms(3) by (simp add: digits_ok_def list_all2_conv_all_nth)
qed

lemma state_properties_digits:
  assumes "list_all property_ok ps" "prod_list (value_counts ps) < 2 ^ 16"
  shows "state_properties ps off (of_nat (prod_list (value_counts ps))) =
    map2 (\<lambda>p d. (get_name p, value_name_from_index p d)) ps (radix_digits (value_counts ps) (unat off))"
  using assms
proof (induction ps)
  case (Cons p ps)
  have pos: "list_all (\<lambda>c. 0 < c) (value_count p # value_counts ps)" using counts_pos [OF Cons.prems(1)] by simp
  have b: "prod_list (value_counts ps) < 2 ^ 16" "value_count p < 2 ^ 16"
    using prod_list_Cons_bound [OF pos, of "2 ^ 16"] Cons.prems(2) by simp_all
  have "(of_nat (value_count p * prod_list (value_counts ps)) :: u16) div of_nat (value_count p) = of_nat (prod_list (value_counts ps))"
    using b Cons.prems(2) pos by (simp add: word_unat_eq_iff unat_div unat_of_nat_small del: of_nat_mult)
  moreover have "unat (off div of_nat (prod_list (value_counts ps)) mod of_nat (value_count p)) =
      unat off div prod_list (value_counts ps) mod value_count p"
    using b by (simp add: unat_mod unat_div unat_of_nat_small)
  ultimately show ?case using Cons b by (simp add: Let_def del: of_nat_mult)
qed simp

text \<open>Changing one digit, upwards or downwards, without leaving the range.\<close>

definition replace_value_index :: "Property list \<Rightarrow> nat \<Rightarrow> u16 \<Rightarrow> nat \<Rightarrow> u16" where
  "replace_value_index ps i off new =
    (let stride = property_stride ps i; old = unat (off div stride mod of_nat (value_count (ps ! i)))
     in if new \<ge> old then off + of_nat (new - old) * stride else off - of_nat (old - new) * stride)"

lemma replaced_digits:
  assumes "list_all property_ok ps" "prod_list (value_counts ps) < 2 ^ 16" "i < length ps"
    "unat off < prod_list (value_counts ps)" "new < value_count (ps ! i)"
  obtains S where "property_stride ps i = of_nat S"
    "unat (off div property_stride ps i mod of_nat (value_count (ps ! i))) = radix_digits (value_counts ps) (unat off) ! i"
    "radix_value (value_counts ps) ((radix_digits (value_counts ps) (unat off))[i := new]) + radix_digits (value_counts ps) (unat off) ! i * S =
      unat off + new * S"
    "radix_value (value_counts ps) ((radix_digits (value_counts ps) (unat off))[i := new]) < prod_list (value_counts ps)"
    "radix_digits (value_counts ps) (radix_value (value_counts ps) ((radix_digits (value_counts ps) (unat off))[i := new])) =
      (radix_digits (value_counts ps) (unat off))[i := new]"
proof -
  define cs where "cs = value_counts ps"
  define ds where "ds = radix_digits cs (unat off)"
  have ok: "digits_ok cs (ds[i := new])"
    using digits_ok_update [OF radix_digits_ok [OF counts_pos [OF assms(1)], of "unat off"], of i new] assms(3,5)
    by (simp add: cs_def ds_def)
  have "radix_value cs (ds[i := new]) + ds ! i * prod_list (drop (Suc i) cs) = unat off + new * prod_list (drop (Suc i) cs)"
    using radix_value_update [of i ds cs new] assms(3,4) radix_value_digits [of cs "unat off"] by (simp add: ds_def cs_def)
  then show ?thesis
    using radix_value_less_prod [OF ok] radix_digits_value [OF ok] value_index_digit(1) [OF assms(1-3)]
    by (intro that [of "prod_list (drop (Suc i) cs)"]) (simp_all add: property_stride_value cs_def ds_def)
qed

lemma replace_value_index_digit:
  assumes "list_all property_ok ps" "prod_list (value_counts ps) < 2 ^ 16" "i < length ps"
    "unat off < prod_list (value_counts ps)" "new < value_count (ps ! i)"
  shows "unat (replace_value_index ps i off new) < prod_list (value_counts ps)"
    "radix_digits (value_counts ps) (unat (replace_value_index ps i off new)) = (radix_digits (value_counts ps) (unat off))[i := new]"
    "let old = unat (off div property_stride ps i mod of_nat (value_count (ps ! i))) in
      if old \<le> new then unat off + unat (of_nat (new - old) * property_stride ps i) < 2 ^ 16
      else unat (of_nat (old - new) * property_stride ps i) \<le> unat off"
proof -
  define cs where "cs = value_counts ps"
  define ds where "ds = radix_digits cs (unat off)"
  obtain S where S: "property_stride ps i = of_nat S" "unat (off div property_stride ps i mod of_nat (value_count (ps ! i))) = ds ! i"
    "radix_value cs (ds[i := new]) + ds ! i * S = unat off + new * S" "radix_value cs (ds[i := new]) < prod_list cs"
    "radix_digits cs (radix_value cs (ds[i := new])) = ds[i := new]"
    using replaced_digits [OF assms] unfolding cs_def ds_def .
  have *: "replace_value_index ps i off new = of_nat (radix_value cs (ds[i := new])) \<and>
    (if ds ! i \<le> new then unat off + unat (of_nat (new - ds ! i) * of_nat S :: u16) < 2 ^ 16
      else unat (of_nat (ds ! i - new) * of_nat S :: u16) \<le> unat off)"
  proof (cases "ds ! i \<le> new")
    case True
    then have v: "radix_value cs (ds[i := new]) = unat off + (new - ds ! i) * S" using S(3) by (simp add: diff_mult_distrib)
    then have "(new - ds ! i) * S < 2 ^ 16" "unat off + (new - ds ! i) * S < 2 ^ 16" using S(4) assms(2) by (simp_all add: cs_def)
    then have "unat off + unat (of_nat (new - ds ! i) * of_nat S :: u16) < 2 ^ 16"
      using unat_of_nat_small [of "(new - ds ! i) * S"] by (simp only: of_nat_mult)
    moreover have "replace_value_index ps i off new = of_nat (radix_value cs (ds[i := new]))"
      using True by (simp add: replace_value_index_def Let_def S(2) v) (simp add: S(1))
    ultimately show ?thesis using True by simp
  next
    case False
    then have v: "radix_value cs (ds[i := new]) + (ds ! i - new) * S = unat off" using S(3) by (simp add: diff_mult_distrib)
    then have "(ds ! i - new) * S \<le> unat off" by simp
    moreover from this have "(ds ! i - new) * S < 2 ^ 16" using unsigned_less [of off, where 'a = nat] by simp
    ultimately have "unat (of_nat (ds ! i - new) * of_nat S :: u16) \<le> unat off"
      using unat_of_nat_small [of "(ds ! i - new) * S"] by (simp only: of_nat_mult)
    moreover from arg_cong [OF v, of "of_nat :: nat \<Rightarrow> u16"]
    have "of_nat (radix_value cs (ds[i := new])) = off - of_nat (ds ! i - new) * of_nat S" by (simp add: eq_diff_eq)
    then have "replace_value_index ps i off new = of_nat (radix_value cs (ds[i := new]))"
      using False by (simp add: replace_value_index_def Let_def S(2)) (simp add: S(1))
    ultimately show ?thesis using False by simp
  qed
  then have u: "unat (replace_value_index ps i off new) = radix_value cs (ds[i := new])"
    using S(4) assms(2) by (simp add: unat_of_nat_small cs_def)
  then show "unat (replace_value_index ps i off new) < prod_list (value_counts ps)"
    "radix_digits (value_counts ps) (unat (replace_value_index ps i off new)) = (radix_digits (value_counts ps) (unat off))[i := new]"
    using S(4,5) by (simp_all add: cs_def ds_def)
  show "let old = unat (off div property_stride ps i mod of_nat (value_count (ps ! i))) in
      if old \<le> new then unat off + unat (of_nat (new - old) * property_stride ps i) < 2 ^ 16
      else unat (of_nat (old - new) * property_stride ps i) \<le> unat off"
    using * unfolding Let_def S(2) unfolding S(1) by blast
qed

end
