(* ===== verification/Block_Registry.thy ===== *)
theory Block_Registry
  imports State_Encoding Identifiers
begin

text \<open>
  The block registry of \<open>steel-registry/src/blocks/mod.rs\<close>: blocks with their properties, the
  contiguous numbering of all block states, the ticking metadata flattened per state, and the
  operations that read and change properties of a state. The entries by id and by key are the generic
  registry; the once-cell of each block that caches its id is a map from keys. Shapes and positional
  offsets are left out. A panic is the outer \<open>None\<close>.
\<close>

section \<open>Fluids and per-state data\<close>

record Fluid =
  fluid_key :: Identifier
  fluid_is_empty :: bool
  fluid_is_source :: bool
  fluid_randomly_ticking :: bool

record FluidState =
  fluid_id :: Fluid
  fluid_amount :: u8
  falling :: bool

definition fluid_state_is_empty :: "FluidState \<Rightarrow> bool" where
  "fluid_state_is_empty fs \<longleftrightarrow> fluid_is_empty (fluid_id fs) \<or> fluid_amount fs = 0"

text \<open>\<open>StateBooleanData\<close> and \<open>StateFluidData\<close>: a default with overwritten offsets.\<close>

record 'a StateData =
  data_default :: 'a
  data_overwrites :: "(u16 \<times> 'a) list"

definition state_value :: "'a StateData \<Rightarrow> u16 \<Rightarrow> 'a" where
  "state_value d offset = (case find (\<lambda>overwrite. fst overwrite = offset) (data_overwrites d) of
     Some overwrite \<Rightarrow> snd overwrite | None \<Rightarrow> data_default d)"

section \<open>Ticking metadata\<close>

record BlockStateTickingMetadata =
  metadata_fluid :: Fluid
  metadata_amount :: u8
  metadata_flags :: u8

definition FALLING :: u8 where "FALLING = push_bit 0 1"

definition RANDOMLY_TICKING_BLOCK :: u8 where "RANDOMLY_TICKING_BLOCK = push_bit 1 1"

definition RANDOMLY_TICKING_FLUID :: u8 where "RANDOMLY_TICKING_FLUID = push_bit 2 1"

definition IS_AIR :: u8 where "IS_AIR = push_bit 3 1"

definition HAS_FLUID :: u8 where "HAS_FLUID = push_bit 4 1"

definition metadata_new :: "FluidState \<Rightarrow> bool \<Rightarrow> bool \<Rightarrow> BlockStateTickingMetadata" where
  "metadata_new fluid_state ticking_block air =
    (let flags = 0;
         flags = (if falling fluid_state then or flags FALLING else flags);
         flags = (if ticking_block then or flags RANDOMLY_TICKING_BLOCK else flags);
         flags = (if fluid_randomly_ticking (fluid_id fluid_state) then or flags RANDOMLY_TICKING_FLUID else flags);
         flags = (if air then or flags IS_AIR else flags);
         flags = (if \<not> fluid_state_is_empty fluid_state then or flags HAS_FLUID else flags)
     in \<lparr>metadata_fluid = fluid_id fluid_state, metadata_amount = fluid_amount fluid_state, metadata_flags = flags\<rparr>)"

definition metadata_fluid_state :: "BlockStateTickingMetadata \<Rightarrow> FluidState" where
  "metadata_fluid_state m = \<lparr>fluid_id = metadata_fluid m, fluid_amount = metadata_amount m,
     falling = (and (metadata_flags m) FALLING \<noteq> 0)\<rparr>"

definition randomly_ticking_block :: "BlockStateTickingMetadata \<Rightarrow> bool" where
  "randomly_ticking_block m \<longleftrightarrow> and (metadata_flags m) RANDOMLY_TICKING_BLOCK \<noteq> 0"

definition randomly_ticking_fluid :: "BlockStateTickingMetadata \<Rightarrow> bool" where
  "randomly_ticking_fluid m \<longleftrightarrow> and (metadata_flags m) RANDOMLY_TICKING_FLUID \<noteq> 0"

definition metadata_is_air :: "BlockStateTickingMetadata \<Rightarrow> bool" where
  "metadata_is_air m \<longleftrightarrow> and (metadata_flags m) IS_AIR \<noteq> 0"

definition metadata_has_fluid :: "BlockStateTickingMetadata \<Rightarrow> bool" where
  "metadata_has_fluid m \<longleftrightarrow> and (metadata_flags m) HAS_FLUID \<noteq> 0"

section \<open>Blocks\<close>

record BlockLightProperties =
  light_emission :: u8
  light_dampening :: u8
  use_shape_for_light_occlusion :: bool

definition OPAQUE_FULL_BLOCK :: BlockLightProperties where
  "OPAQUE_FULL_BLOCK = \<lparr>light_emission = 0, light_dampening = 15, use_shape_for_light_occlusion = False\<rparr>"

text \<open>A block is a static of the program, and its \<open>id\<close> a write-once cell in it: \<open>block_id_cell\<close> names
  that cell, and the contents of the cells are kept beside the registry that fills them.\<close>

record Block =
  block_key :: Identifier
  block_is_air :: bool
  block_properties :: "Property list"
  default_state_offset :: u16
  suffocating :: "bool StateData"
  redstone_conductor :: "bool StateData"
  block_fluid_state :: "FluidState StateData"
  block_randomly_ticking :: "bool StateData"
  block_light_properties :: "u16 \<Rightarrow> BlockLightProperties"
  block_id_cell :: nat

definition block_ticking_metadata :: "Block \<Rightarrow> u16 \<Rightarrow> BlockStateTickingMetadata" where
  "block_ticking_metadata b offset =
    metadata_new (state_value (block_fluid_state b) offset) (state_value (block_randomly_ticking b) offset) (block_is_air b)"

section \<open>The registry\<close>

record BlockRegistry =
  block_entries :: "Block Registry"
  block_id_cells :: "nat \<rightharpoonup> nat"
  state_to_block_lookup :: "Block list"
  state_to_block_id :: "nat list"
  state_ticking_metadata :: "BlockStateTickingMetadata list"
  block_to_base_state :: "u16 list"
  registry_next_state_id :: u16

definition block_registry_new :: BlockRegistry where
  "block_registry_new = \<lparr>block_entries = registry_new, block_id_cells = Map.empty, state_to_block_lookup = [],
     state_to_block_id = [], state_ticking_metadata = [], block_to_base_state = [], registry_next_state_id = 0\<rparr>"

definition block_register :: "Block \<Rightarrow> BlockRegistry \<Rightarrow> (nat \<times> BlockRegistry) option" where
  "block_register block r =
    (if \<not> allows_registering (block_entries r) then None
     else
       let new_id = length (entries_by_id (block_entries r));
           base_state_id = registry_next_state_id r;
           cached = (case block_id_cells r (block_id_cell block) of Some c \<Rightarrow> c | None \<Rightarrow> new_id)
       in if cached \<noteq> new_id then None
          else case register False block_key block (block_entries r) of
            None \<Rightarrow> None
          | Some (_, entries) \<Rightarrow>
              let offsets = map of_nat [0..<unat (state_count (block_properties block))] in
              Some (new_id, r\<lparr>block_entries := entries,
                 block_id_cells := (block_id_cells r)(block_id_cell block \<mapsto> cached),
                 state_to_block_lookup := state_to_block_lookup r @ map (\<lambda>_. block) offsets,
                 state_to_block_id := state_to_block_id r @ map (\<lambda>_. new_id) offsets,
                 state_ticking_metadata := state_ticking_metadata r @ map (block_ticking_metadata block) offsets,
                 block_to_base_state := block_to_base_state r @ [base_state_id],
                 registry_next_state_id := registry_next_state_id r + state_count (block_properties block)\<rparr>))"

definition try_block_index :: "BlockRegistry \<Rightarrow> Block \<Rightarrow> nat option" where
  "try_block_index r block =
    (case block_id_cells r (block_id_cell block) of
       Some block_id \<Rightarrow>
         (case by_id block_id (block_entries r) of
            Some registered \<Rightarrow> if block_key registered = block_key block then Some block_id else id_from_key (block_key block) (block_entries r)
          | None \<Rightarrow> id_from_key (block_key block) (block_entries r))
     | None \<Rightarrow> id_from_key (block_key block) (block_entries r))"

definition base_state :: "BlockRegistry \<Rightarrow> nat \<Rightarrow> u16 option" where
  "base_state r block_id = nth_opt (block_to_base_state r) block_id"

definition get_base_state_id :: "BlockRegistry \<Rightarrow> Block \<Rightarrow> u16 option" where
  "get_base_state_id r block = Option.bind (try_block_index r block) (base_state r)"

definition get_default_state_id :: "BlockRegistry \<Rightarrow> Block \<Rightarrow> u16 option" where
  "get_default_state_id r block = map_option (\<lambda>base. base + default_state_offset block) (get_base_state_id r block)"

definition by_state_id :: "BlockRegistry \<Rightarrow> u16 \<Rightarrow> Block option" where
  "by_state_id r state_id = nth_opt (state_to_block_lookup r) (unat state_id)"

definition get_ticking_metadata :: "BlockRegistry \<Rightarrow> u16 \<Rightarrow> BlockStateTickingMetadata option" where
  "get_ticking_metadata r state_id = nth_opt (state_ticking_metadata r) (unat state_id)"

text \<open>The index of a state within its block, by the two table lookups of the source.\<close>

definition relative_index :: "BlockRegistry \<Rightarrow> u16 \<Rightarrow> u16 option" where
  "relative_index r sid =
    Option.bind (nth_opt (state_to_block_id r) (unat sid)) (\<lambda>block_id. map_option (\<lambda>base. sid - base) (base_state r block_id))"

section \<open>Reading properties\<close>

definition consume :: "(string \<times> string option) list \<Rightarrow> (string \<times> string) list option" where
  "consume xs = (if list_all (\<lambda>x. snd x \<noteq> None) xs then Some (map (\<lambda>x. (fst x, the (snd x))) xs) else None)"

definition properties_of :: "BlockRegistry \<Rightarrow> u16 \<Rightarrow> (string \<times> string) list option" where
  "properties_of r sid = (case by_state_id r sid of
     None \<Rightarrow> None
   | Some block \<Rightarrow>
       if block_properties block = [] then consume (state_properties (block_properties block) 0 1)
       else Option.bind (relative_index r sid)
         (\<lambda>offset. consume (state_properties (block_properties block) offset (state_count (block_properties block)))))"

definition property_position :: "Property list \<Rightarrow> string \<Rightarrow> nat option" where
  "property_position ps name = first_position (\<lambda>property. get_name property = name) ps"

definition find_property_str :: "BlockRegistry \<Rightarrow> Block \<Rightarrow> u16 \<Rightarrow> string \<Rightarrow> string option option" where
  "find_property_str r block sid name = (case property_position (block_properties block) name of
     None \<Rightarrow> Some None
   | Some i \<Rightarrow>
       Option.bind (relative_index r sid) (\<lambda>offset.
         let property = block_properties block ! i;
             value_index = unat (offset div property_stride (block_properties block) i mod of_nat (value_count property))
         in map_option Some (value_name_from_index property value_index)))"

definition get_property_str :: "BlockRegistry \<Rightarrow> u16 \<Rightarrow> string \<Rightarrow> string option option" where
  "get_property_str r sid name = (case by_state_id r sid of
     None \<Rightarrow> None
   | Some block \<Rightarrow> if block_properties block = [] then Some None else find_property_str r block sid name)"

definition try_get_property :: "BlockRegistry \<Rightarrow> u16 \<Rightarrow> Property \<Rightarrow> PropertyValue option option" where
  "try_get_property r sid property = (case by_state_id r sid of
     None \<Rightarrow> None
   | Some block \<Rightarrow>
       (case find_property_str r block sid (get_name property) of
          None \<Rightarrow> None
        | Some None \<Rightarrow> Some None
        | Some (Some block_value) \<Rightarrow> Some (get_value property block_value)))"

definition get_property :: "BlockRegistry \<Rightarrow> u16 \<Rightarrow> Property \<Rightarrow> PropertyValue option" where
  "get_property r sid property = Option.bind (try_get_property r sid property) (\<lambda>v. v)"

section \<open>Changing properties\<close>

fun apply_property_overrides :: "Property list \<Rightarrow> nat list \<Rightarrow> (string \<times> string) list \<Rightarrow> nat list option" where
  "apply_property_overrides ps indices [] = Some indices"
| "apply_property_overrides ps indices ((prop_name, prop_value) # overrides) =
    (case property_position ps prop_name of
       None \<Rightarrow> None
     | Some prop_idx \<Rightarrow>
         (case find_value_index (ps ! prop_idx) prop_value of
            None \<Rightarrow> None
          | Some value_idx \<Rightarrow> apply_property_overrides ps (indices[prop_idx := value_idx]) overrides))"

definition state_id_with :: "BlockRegistry \<Rightarrow> Block \<Rightarrow> nat list \<Rightarrow> (string \<times> string) list \<Rightarrow> u16 option option" where
  "state_id_with r block indices overrides = (case try_block_index r block of
     None \<Rightarrow> Some None
   | Some block_id \<Rightarrow>
       Option.bind (base_state r block_id) (\<lambda>base.
         Some (map_option (\<lambda>indices. base + encode_property_indices (block_properties block) indices)
           (apply_property_overrides (block_properties block) indices overrides))))"

definition state_id_from_block_properties :: "BlockRegistry \<Rightarrow> Block \<Rightarrow> (string \<times> string) list \<Rightarrow> u16 option option" where
  "state_id_from_block_properties r block overrides =
    state_id_with r block (replicate (length (block_properties block)) 0) overrides"

definition state_id_from_block_defaulted_properties :: "BlockRegistry \<Rightarrow> Block \<Rightarrow> (string \<times> string) list \<Rightarrow> u16 option option" where
  "state_id_from_block_defaulted_properties r block overrides =
    state_id_with r block (decode_property_indices (block_properties block) (default_state_offset block)) overrides"

definition state_id_from_properties :: "BlockRegistry \<Rightarrow> Identifier \<Rightarrow> (string \<times> string) list \<Rightarrow> u16 option option" where
  "state_id_from_properties r key overrides = (case by_key key (block_entries r) of
     None \<Rightarrow> Some None | Some block \<Rightarrow> state_id_from_block_properties r block overrides)"

definition checked_add :: "u16 \<Rightarrow> u16 \<Rightarrow> u16 option" where
  "checked_add a b = (if unat a + unat b < 2 ^ 16 then Some (a + b) else None)"

definition checked_sub :: "u16 \<Rightarrow> u16 \<Rightarrow> u16 option" where
  "checked_sub a b = (if unat b \<le> unat a then Some (a - b) else None)"

definition try_set_property_by_name :: "BlockRegistry \<Rightarrow> u16 \<Rightarrow> string \<Rightarrow> string \<Rightarrow> u16 option" where
  "try_set_property_by_name r sid name value =
    Option.bind (by_state_id r sid) (\<lambda>block.
    Option.bind (nth_opt (state_to_block_id r) (unat sid)) (\<lambda>block_id.
    Option.bind (base_state r block_id) (\<lambda>base.
    Option.bind (property_position (block_properties block) name) (\<lambda>i.
    Option.bind (find_value_index (block_properties block ! i) value) (\<lambda>new_value_index.
    Option.bind (checked_sub sid base) (\<lambda>relative.
      let stride = property_stride (block_properties block) i;
          old_value_index = unat (relative div stride mod of_nat (value_count (block_properties block ! i)))
      in map_option (\<lambda>new_relative. base + new_relative)
        (if new_value_index \<ge> old_value_index then checked_add relative (of_nat (new_value_index - old_value_index) * stride)
         else checked_sub relative (of_nat (old_value_index - new_value_index) * stride))))))))"

definition set_property :: "BlockRegistry \<Rightarrow> u16 \<Rightarrow> Property \<Rightarrow> PropertyValue \<Rightarrow> u16 option" where
  "set_property r sid property value =
    Option.bind (by_state_id r sid) (\<lambda>block.
    Option.bind (property_position (block_properties block) (get_name property)) (\<lambda>i.
    Option.bind (nth_opt (state_to_block_id r) (unat sid)) (\<lambda>block_id.
    Option.bind (base_state r block_id) (\<lambda>base.
    Option.bind (get_internal_index property value) (\<lambda>caller_value_index.
    Option.bind (value_name_from_index property caller_value_index) (\<lambda>value_name.
    map_option (\<lambda>new_value_index. base + replace_value_index (block_properties block) i (sid - base) new_value_index)
      (find_value_index (block_properties block ! i) value_name)))))))"

definition matching_states :: "BlockRegistry \<Rightarrow> Block \<Rightarrow> (string \<times> string) list \<Rightarrow> u16 list option" where
  "matching_states r block wanted =
    Option.bind (try_block_index r block) (\<lambda>block_id.
    Option.bind (base_state r block_id) (\<lambda>base.
      let states = map (\<lambda>offset. base + of_nat offset) [0..<unat (state_count (block_properties block))]
      in if \<forall>s \<in> set states. \<forall>w \<in> set wanted. get_property_str r s (fst w) \<noteq> None
         then Some (filter (\<lambda>s. list_all (\<lambda>(name, value). get_property_str r s name = Some (Some value)) wanted) states) else None))"

section \<open>Copying properties\<close>

definition block_and_state_offset :: "BlockRegistry \<Rightarrow> u16 \<Rightarrow> (Block \<times> u16) option" where
  "block_and_state_offset r state_id = (case nth_opt (state_to_block_lookup r) (unat state_id) of
     None \<Rightarrow> None
   | Some block \<Rightarrow>
       let block_id = (case nth_opt (state_to_block_id r) (unat state_id) of Some i \<Rightarrow> i | None \<Rightarrow> 0);
           base = (case base_state r block_id of Some s \<Rightarrow> s | None \<Rightarrow> 0)
       in Some (block, if base \<le> state_id then state_id - base else 0))"

definition is_suffocating :: "BlockRegistry \<Rightarrow> u16 \<Rightarrow> bool" where
  "is_suffocating r state_id = (case block_and_state_offset r state_id of
     None \<Rightarrow> False | Some (block, offset) \<Rightarrow> state_value (suffocating block) offset)"

definition is_static_redstone_conductor :: "BlockRegistry \<Rightarrow> u16 \<Rightarrow> bool" where
  "is_static_redstone_conductor r state_id = (case block_and_state_offset r state_id of
     None \<Rightarrow> False | Some (block, offset) \<Rightarrow> state_value (redstone_conductor block) offset)"

definition get_light_properties :: "BlockRegistry \<Rightarrow> u16 \<Rightarrow> BlockLightProperties" where
  "get_light_properties r state_id = (case block_and_state_offset r state_id of
     None \<Rightarrow> OPAQUE_FULL_BLOCK | Some (block, offset) \<Rightarrow> block_light_properties block offset)"

definition same_property :: "Property \<Rightarrow> Property \<Rightarrow> bool" where
  "same_property target_property source_property \<longleftrightarrow>
    get_name source_property = get_name target_property \<and> value_count source_property = value_count target_property
    \<and> list_all (\<lambda>index. value_name_from_index source_property index = value_name_from_index target_property index)
        [0..<value_count target_property]"

definition copy_indices :: "Property list \<Rightarrow> nat list \<Rightarrow> Property list \<Rightarrow> nat list \<Rightarrow> nat list" where
  "copy_indices target_properties target_indices source_properties source_indices =
    map2 (\<lambda>target_property old. case first_position (same_property target_property) source_properties of
      None \<Rightarrow> old | Some source_index \<Rightarrow> source_indices ! source_index) target_properties target_indices"

definition with_properties_of :: "BlockRegistry \<Rightarrow> u16 \<Rightarrow> u16 \<Rightarrow> u16 option" where
  "with_properties_of r target source =
    Option.bind (block_and_state_offset r target) (\<lambda>(target_block, target_offset).
    Option.bind (block_and_state_offset r source) (\<lambda>(source_block, source_offset).
      let target_indices = decode_property_indices (block_properties target_block) target_offset;
          source_indices = decode_property_indices (block_properties source_block) source_offset
      in Some (target - target_offset + encode_property_indices (block_properties target_block)
           (copy_indices (block_properties target_block) target_indices (block_properties source_block) source_indices))))"

definition copy_matching_properties :: "BlockRegistry \<Rightarrow> u16 \<Rightarrow> Block \<Rightarrow> u16 option" where
  "copy_matching_properties r source target =
    Option.bind (get_default_state_id r target) (\<lambda>default. with_properties_of r default source)"

section \<open>The numbering of states\<close>

abbreviation registered_blocks :: "BlockRegistry \<Rightarrow> Block list" where
  "registered_blocks r \<equiv> entries_by_id (block_entries r)"

definition states_of :: "Block \<Rightarrow> nat" where
  "states_of b = prod_list (value_counts (block_properties b))"

definition block_ok :: "Block \<Rightarrow> bool" where
  "block_ok b \<longleftrightarrow> properties_ok (block_properties b) \<and> unat (default_state_offset b) < states_of b"

text \<open>The registries the server builds: the blocks of the generated table, which have distinct keys,
  are registered while all states fit the 16-bit ids.\<close>

inductive registry_reach :: "BlockRegistry \<Rightarrow> bool" where
  empty: "registry_reach block_registry_new"
| add: "registry_reach r \<Longrightarrow> block_ok b \<Longrightarrow> unat (registry_next_state_id r) + states_of b < 2 ^ 16 \<Longrightarrow>
    block_key b \<notin> block_key ` set (entries_by_id (block_entries r)) \<Longrightarrow> block_register b r = Some (i, r') \<Longrightarrow> registry_reach r'"
| close: "registry_reach r \<Longrightarrow> registry_reach (r\<lparr>block_entries := freeze (block_entries r)\<rparr>)"

text \<open>State \<open>s\<close> is number \<open>off\<close> of block \<open>i\<close>.\<close>

definition state_at :: "BlockRegistry \<Rightarrow> nat \<Rightarrow> nat \<Rightarrow> nat \<Rightarrow> bool" where
  "state_at r s i off \<longleftrightarrow> i < length (registered_blocks r) \<and> off < states_of (registered_blocks r ! i)
    \<and> s = unat (block_to_base_state r ! i) + off"

definition registry_ok :: "BlockRegistry \<Rightarrow> bool" where
  "registry_ok r \<longleftrightarrow>
    (\<forall>b \<in> set (registered_blocks r). block_ok b)
    \<and> length (block_to_base_state r) = length (registered_blocks r)
    \<and> length (state_to_block_lookup r) = unat (registry_next_state_id r)
    \<and> length (state_to_block_id r) = unat (registry_next_state_id r)
    \<and> length (state_ticking_metadata r) = unat (registry_next_state_id r)
    \<and> (\<forall>s < unat (registry_next_state_id r). \<exists>i off. state_at r s i off)
    \<and> (\<forall>s i off. state_at r s i off \<longrightarrow> s < unat (registry_next_state_id r)
        \<and> state_to_block_lookup r ! s = registered_blocks r ! i \<and> state_to_block_id r ! s = i
        \<and> state_ticking_metadata r ! s = block_ticking_metadata (registered_blocks r ! i) (of_nat off))
    \<and> (\<forall>k i. ids_by_key (block_entries r) k = Some i \<longleftrightarrow> i < length (registered_blocks r) \<and> block_key (registered_blocks r ! i) = k)
    \<and> (\<forall>c i. block_id_cells r c = Some i \<longleftrightarrow> i < length (registered_blocks r) \<and> block_id_cell (registered_blocks r ! i) = c)"

lemma state_count_states: "properties_ok (block_properties b) \<Longrightarrow> unat (state_count (block_properties b)) = states_of b"
  by (simp add: properties_ok_def state_count_value states_of_def unat_of_nat_small)

lemma registry_new_ok: "registry_ok block_registry_new"
  by (simp add: registry_ok_def block_registry_new_def registry_new_def state_at_def)

text \<open>A lookup that finds exactly the positions of a list still does after a fresh entry is appended.\<close>

lemma lookup_snoc:
  assumes "\<And>k j. f k = Some j \<longleftrightarrow> j < m \<and> g j = k" "\<And>j. j < m \<Longrightarrow> g j \<noteq> new"
  shows "(f(new \<mapsto> m)) k = Some j \<longleftrightarrow> j = m \<and> k = new \<or> j < m \<and> g j = k"
  using assms by (cases "k = new") auto

lemma block_register_ok:
  assumes "registry_ok r" "block_ok b" "unat (registry_next_state_id r) + states_of b < 2 ^ 16"
    and "block_key b \<notin> block_key ` set (registered_blocks r)" "block_register b r = Some (i, r')"
  shows "registry_ok r'"
proof -
  let ?n = "unat (registry_next_state_id r)" and ?m = "length (registered_blocks r)"
  have ok: "length (block_to_base_state r) = ?m" "length (state_to_block_lookup r) = ?n" "length (state_to_block_id r) = ?n"
    "length (state_ticking_metadata r) = ?n" using assms(1) by (simp_all add: registry_ok_def)
  have sc: "unat (state_count (block_properties b)) = states_of b" using state_count_states assms(2) by (simp add: block_ok_def)
  have "unat (registry_next_state_id r + state_count (block_properties b)) = ?n + states_of b"
    using assms(3) sc unat_add_lem [of "registry_next_state_id r" "state_count (block_properties b)"] by simp
  moreover have "block_id_cells r (block_id_cell b) = None \<or> block_id_cells r (block_id_cell b) = Some ?m"
    using assms(5) by (auto simp: block_register_def Let_def split: if_splits option.splits)
  then have cell: "block_id_cells r (block_id_cell b) = None" using assms(1) by (auto simp: registry_ok_def)
  ultimately have r': "registered_blocks r' = registered_blocks r @ [b]" "block_to_base_state r' = block_to_base_state r @ [registry_next_state_id r]"
    "state_to_block_lookup r' = state_to_block_lookup r @ replicate (states_of b) b"
    "state_to_block_id r' = state_to_block_id r @ replicate (states_of b) ?m"
    "state_ticking_metadata r' = state_ticking_metadata r @ map (\<lambda>off. block_ticking_metadata b (of_nat off)) [0..<states_of b]"
    "unat (registry_next_state_id r') = ?n + states_of b"
    "ids_by_key (block_entries r') = (ids_by_key (block_entries r))(block_key b \<mapsto> ?m)"
    "block_id_cells r' = (block_id_cells r)(block_id_cell b \<mapsto> ?m)"
    using assms(5) sc by (auto simp: block_register_def register_def Let_def map_replicate_const split: if_splits option.splits)
  have new: "block_key (registered_blocks r ! j) \<noteq> block_key b" if "j < ?m" for j
    using assms(4) that nth_mem by (metis imageI)
  have fresh: "block_id_cell (registered_blocks r ! j) \<noteq> block_id_cell b" if "j < ?m" for j
    using assms(1) cell that unfolding registry_ok_def by (metis option.distinct(1))
  have st: "state_at r' s j off \<longleftrightarrow> (if j = ?m then off < states_of b \<and> s = ?n + off else state_at r s j off)" for s j off
    using ok(1) by (auto simp: state_at_def r' nth_append less_Suc_eq)
  show ?thesis unfolding registry_ok_def
  proof (intro conjI allI impI)
    show "\<forall>b \<in> set (registered_blocks r'). block_ok b" using assms(1,2) by (simp add: r' registry_ok_def)
    show "\<exists>j off. state_at r' s j off" if "s < unat (registry_next_state_id r')" for s
    proof (cases "s < ?n")
      case True
      then obtain j off where "state_at r s j off" using assms(1) by (auto simp: registry_ok_def)
      moreover from this have "j \<noteq> ?m" by (simp add: state_at_def)
      ultimately show ?thesis using st by metis
    next
      case False
      then show ?thesis using that by (intro exI [of _ ?m] exI [of _ "s - ?n"]) (simp add: st r')
    qed
    show "ids_by_key (block_entries r') k = Some j \<longleftrightarrow> j < length (registered_blocks r') \<and> block_key (registered_blocks r' ! j) = k" for k j
      using lookup_snoc [of "ids_by_key (block_entries r)" ?m "\<lambda>j. block_key (registered_blocks r ! j)" "block_key b" k j] assms(1) new
      by (auto simp: r' nth_append less_Suc_eq registry_ok_def)
    show "block_id_cells r' c = Some j \<longleftrightarrow> j < length (registered_blocks r') \<and> block_id_cell (registered_blocks r' ! j) = c" for c j
      using lookup_snoc [of "block_id_cells r" ?m "\<lambda>j. block_id_cell (registered_blocks r ! j)" "block_id_cell b" c j] assms(1) fresh
      by (auto simp: r' nth_append less_Suc_eq registry_ok_def)
    fix s j off
    assume "state_at r' s j off"
    then have *: "if j = ?m then off < states_of b \<and> s = ?n + off else state_at r s j off" by (simp only: st)
    have old: "s < ?n \<and> state_to_block_lookup r ! s = registered_blocks r ! j \<and> state_to_block_id r ! s = j
        \<and> state_ticking_metadata r ! s = block_ticking_metadata (registered_blocks r ! j) (of_nat off) \<and> j < ?m" if "j \<noteq> ?m"
      using * that assms(1) by (simp add: registry_ok_def state_at_def)
    have "s < unat (registry_next_state_id r') \<and> state_to_block_lookup r' ! s = registered_blocks r' ! j \<and> state_to_block_id r' ! s = j
      \<and> state_ticking_metadata r' ! s = block_ticking_metadata (registered_blocks r' ! j) (of_nat off)"
    proof (cases "j = ?m")
      case True
      then have "off < states_of b" "s = ?n + off" using * by simp_all
      then show ?thesis using True ok by (simp add: r' nth_append)
    next
      case False
      show ?thesis using old [OF False] ok by (simp add: r' nth_append)
    qed
    then show "s < unat (registry_next_state_id r')" "state_to_block_lookup r' ! s = registered_blocks r' ! j" "state_to_block_id r' ! s = j"
      "state_ticking_metadata r' ! s = block_ticking_metadata (registered_blocks r' ! j) (of_nat off)" by simp_all
  qed (simp_all add: r' ok)
qed

lemma registry_reach_ok: "registry_reach r \<Longrightarrow> registry_ok r"
proof (induction rule: registry_reach.induct)
  case (add r b i r')
  then show ?case using block_register_ok [OF add.IH add.hyps(2-5)] by simp
next
  case (close r)
  then show ?case by (simp add: registry_ok_def state_at_def freeze_def)
qed (rule registry_new_ok)

text \<open>Every state of a registry has its block and its offset, found by every lookup.\<close>

lemma state_lookup:
  assumes "registry_ok r" "unat sid < unat (registry_next_state_id r)"
  obtains i off where "i < length (registered_blocks r)" "block_ok (registered_blocks r ! i)"
    "unat off < states_of (registered_blocks r ! i)" "base_state r i = Some (sid - off)" "off \<le> sid"
    "by_state_id r sid = Some (registered_blocks r ! i)" "relative_index r sid = Some off"
    "nth_opt (state_to_block_id r) (unat sid) = Some i" "block_and_state_offset r sid = Some (registered_blocks r ! i, off)"
    "get_ticking_metadata r sid = Some (block_ticking_metadata (registered_blocks r ! i) off)"
proof -
  obtain i off where at: "state_at r (unat sid) i off" using assms by (auto simp: registry_ok_def)
  define base where "base = block_to_base_state r ! i"
  have i: "i < length (registered_blocks r)" "off < states_of (registered_blocks r ! i)" "unat sid = unat base + off"
    using at by (simp_all add: state_at_def base_def)
  have "of_nat (unat sid) = (of_nat (unat base + off) :: u16)" using i(3) by simp
  then have o: "of_nat off = sid - base" "sid - of_nat off = base" by simp_all
  have off: "unat (of_nat off :: u16) = off" "(of_nat off :: u16) \<le> sid"
    using i(3) unsigned_less [of sid, where 'a = nat] by (simp_all add: unat_of_nat_small word_le_nat_alt)
  have le: "base \<le> sid" using i(3) by (simp add: word_le_nat_alt)
  have "state_to_block_lookup r ! unat sid = registered_blocks r ! i" "state_to_block_id r ! unat sid = i"
    "state_ticking_metadata r ! unat sid = block_ticking_metadata (registered_blocks r ! i) (of_nat off)"
    "length (state_to_block_lookup r) = unat (registry_next_state_id r)" "length (state_to_block_id r) = unat (registry_next_state_id r)"
    "length (state_ticking_metadata r) = unat (registry_next_state_id r)" "length (block_to_base_state r) = length (registered_blocks r)"
    "block_ok (registered_blocks r ! i)"
    using assms(1) at i(1) by (simp_all add: registry_ok_def)
  note t = this
  have b: "base_state r i = Some base" "nth_opt (state_to_block_id r) (unat sid) = Some i" "by_state_id r sid = Some (registered_blocks r ! i)"
    "get_ticking_metadata r sid = Some (block_ticking_metadata (registered_blocks r ! i) (of_nat off))"
    using t assms(2) i(1) by (simp_all add: base_state_def base_def by_state_id_def get_ticking_metadata_def)
  show ?thesis
  proof (rule that [of i "of_nat off"])
    show "relative_index r sid = Some (of_nat off)" using b o by (simp add: relative_index_def del: nth_opt_Some)
    show "block_and_state_offset r sid = Some (registered_blocks r ! i, of_nat off)"
      using b le o by (simp add: block_and_state_offset_def by_state_id_def del: nth_opt_Some)
  qed (use i b t o off in \<open>simp_all del: nth_opt_Some\<close>)
qed

section \<open>Properties of a state are its digits\<close>

abbreviation state_digits :: "Block \<Rightarrow> u16 \<Rightarrow> nat list" where
  "state_digits b off \<equiv> radix_digits (value_counts (block_properties b)) (unat off)"

lemma block_okD:
  assumes "block_ok b"
  shows "list_all property_ok (block_properties b)" "prod_list (value_counts (block_properties b)) < 2 ^ 16"
    "distinct (map get_name (block_properties b))"
  using assms by (simp_all add: block_ok_def properties_ok_def)

lemma property_position_iff:
  assumes "distinct (map get_name ps)"
  shows "property_position ps name = Some k \<longleftrightarrow> k < length ps \<and> get_name (ps ! k) = name"
proof -
  have "j = k" if "j < length ps" "k < length ps" "get_name (ps ! j) = get_name (ps ! k)" for j
    using nth_eq_iff_index_eq [OF assms, of j k] that by simp
  then show ?thesis unfolding property_position_def first_position_Some by (auto, metis less_trans nat_neq_iff)
qed

lemma digit_name:
  assumes "block_ok b" "k < length (block_properties b)"
  obtains s where "value_name_from_index (block_properties b ! k) (state_digits b off ! k) = Some s"
proof -
  have "property_ok (block_properties b ! k)" using block_okD(1) [OF assms(1)] assms(2) by (simp add: list_all_iff)
  then show ?thesis using property_value_at [OF _ value_index_digit(2) [OF block_okD(1,2) [OF assms(1)] assms(2)]] that by metis
qed

lemma get_property_str_digit:
  assumes "block_ok b" "by_state_id r sid = Some b" "relative_index r sid = Some off"
  shows "get_property_str r sid name = Some (case property_position (block_properties b) name of
    None \<Rightarrow> None | Some k \<Rightarrow> value_name_from_index (block_properties b ! k) (state_digits b off ! k))"
proof (cases "property_position (block_properties b) name")
  case None
  then show ?thesis using assms(2) by (simp add: get_property_str_def find_property_str_def)
next
  case (Some k)
  then have k: "k < length (block_properties b)" by (simp add: property_position_def first_position_Some)
  obtain s where "value_name_from_index (block_properties b ! k) (state_digits b off ! k) = Some s" using digit_name [OF assms(1) k] .
  moreover have "block_properties b \<noteq> []" using k by auto
  ultimately show ?thesis using Some assms(2,3) value_index_digit(1) [OF block_okD(1,2) [OF assms(1)] k, of off]
    by (simp add: get_property_str_def find_property_str_def Let_def)
qed

definition digit_names :: "Block \<Rightarrow> nat list \<Rightarrow> (string \<times> string) list" where
  "digit_names b ds = map2 (\<lambda>p d. (get_name p, the (value_name_from_index p d))) (block_properties b) ds"

lemma properties_of_digits:
  assumes "block_ok b" "by_state_id r sid = Some b" "relative_index r sid = Some off"
  shows "properties_of r sid = Some (digit_names b (state_digits b off))"
proof -
  let ?ps = "block_properties b" and ?l = "state_properties (block_properties b) off (state_count (block_properties b))"
  have l: "?l = map2 (\<lambda>p d. (get_name p, value_name_from_index p d)) ?ps (state_digits b off)"
    using state_properties_digits [OF block_okD(1,2) [OF assms(1)], of off] by (simp add: state_count_value)
  have "snd (?l ! k) \<noteq> None" if "k < length ?ps" for k
    using digit_name [OF assms(1) that, of off] that unfolding l by auto
  then have "list_all (\<lambda>x. snd x \<noteq> None) ?l" unfolding list_all_length by (simp add: l)
  then have "consume ?l = Some (digit_names b (state_digits b off))"
    unfolding consume_def l by (simp add: digit_names_def case_prod_unfold)
  then show ?thesis using assms(2,3) by (auto simp: properties_of_def digit_names_def consume_def)
qed

lemma overrides_of_digits:
  assumes "block_ok b" "digits_ok (value_counts (block_properties b)) ds" "set ks \<subseteq> {..<length (block_properties b)}"
  shows "apply_property_overrides (block_properties b) indices
      (map (\<lambda>k. (get_name (block_properties b ! k), the (value_name_from_index (block_properties b ! k) (ds ! k)))) ks) =
    Some (fold (\<lambda>k xs. xs[k := ds ! k]) ks indices)"
  using assms(3)
proof (induction ks arbitrary: indices)
  case (Cons k ks)
  then have k: "k < length (block_properties b)" by simp
  have p: "property_ok (block_properties b ! k)" using block_okD(1) [OF assms(1)] k by (simp add: list_all_iff)
  have d: "ds ! k < value_count (block_properties b ! k)" using assms(2) k by (auto simp: digits_ok_def list_all2_conv_all_nth)
  obtain s where "value_name_from_index (block_properties b ! k) (ds ! k) = Some s" using property_value_at [OF p d] .
  then have "find_value_index (block_properties b ! k) (the (value_name_from_index (block_properties b ! k) (ds ! k))) = Some (ds ! k)"
    using find_value_index_iff [OF p] d by simp
  moreover have "property_position (block_properties b) (get_name (block_properties b ! k)) = Some k"
    using k property_position_iff [OF block_okD(3) [OF assms(1)]] by simp
  ultimately show ?case using Cons by simp
qed simp

lemma fold_update_all: "length xs = length ds \<Longrightarrow> fold (\<lambda>k xs. xs[k := ds ! k]) [0..<length ds] xs = ds"
proof -
  assume l: "length xs = length ds"
  have "fold (\<lambda>k xs. xs[k := ds ! k]) [0..<n] xs = take n ds @ drop n xs" if "n \<le> length ds" for n
    using that by (induction n) (simp_all add: l take_Suc_conv_app_nth list_update_append Cons_nth_drop_Suc [symmetric])
  from this [of "length ds"] show ?thesis using l by simp
qed

lemma apply_digit_names:
  assumes "block_ok b" "digits_ok (value_counts (block_properties b)) ds" "length indices = length (block_properties b)"
  shows "apply_property_overrides (block_properties b) indices (digit_names b ds) = Some ds"
proof -
  have l: "length ds = length (block_properties b)" using assms(2) by (simp add: digits_ok_def list_all2_conv_all_nth)
  have "digit_names b ds = map (\<lambda>k. (get_name (block_properties b ! k), the (value_name_from_index (block_properties b ! k) (ds ! k)))) [0..<length ds]"
    by (intro nth_equalityI) (simp_all add: digit_names_def l)
  then show ?thesis using overrides_of_digits [OF assms(1,2), of "[0..<length ds]"] fold_update_all [of indices ds] l assms(3)
    by (auto simp: lessThan_atLeast0)
qed

lemma registered_index:
  assumes "registry_ok r" "i < length (registered_blocks r)"
  shows "try_block_index r (registered_blocks r ! i) = Some i" "by_key (block_key (registered_blocks r ! i)) (block_entries r) = Some (registered_blocks r ! i)"
proof -
  have "ids_by_key (block_entries r) (block_key (registered_blocks r ! i)) = Some i" "block_id_cells r (block_id_cell (registered_blocks r ! i)) = Some i"
    using assms by (simp_all add: registry_ok_def)
  then show "try_block_index r (registered_blocks r ! i) = Some i" "by_key (block_key (registered_blocks r ! i)) (block_entries r) = Some (registered_blocks r ! i)"
    using assms(2) by (simp_all add: try_block_index_def by_id_def by_key_def)
qed

lemma encode_digits:
  assumes "block_ok b" "unat off < states_of b"
  shows "encode_property_indices (block_properties b) (state_digits b off) = off"
  using assms by (simp add: encode_value radix_value_digits states_of_def)

lemma by_state_id_valid: "registry_ok r \<Longrightarrow> by_state_id r sid = Some b \<Longrightarrow> unat sid < unat (registry_next_state_id r)"
  by (simp add: registry_ok_def by_state_id_def)

section \<open>Properties\<close>

text \<open>C18: In every registry built by registration, the properties of a state list exactly its block's
  properties in order, agree with the lookup by name, and lead back to the same state, whether the
  rest is filled from zero or from the block's default state, and whether the block or its key is given.
\<close>

theorem state_properties_round_trip:
  assumes "registry_reach r" "unat sid < unat (registry_next_state_id r)"
  shows "\<exists>b ps. by_state_id r sid = Some b \<and> properties_of r sid = Some ps \<and> map fst ps = map get_name (block_properties b)
    \<and> (\<forall>e \<in> set ps. get_property_str r sid (fst e) = Some (Some (snd e)))
    \<and> state_id_from_block_properties r b ps = Some (Some sid)
    \<and> state_id_from_block_defaulted_properties r b ps = Some (Some sid)
    \<and> state_id_from_properties r (block_key b) ps = Some (Some sid)"
proof -
  note ok = registry_reach_ok [OF assms(1)]
  obtain i off where at: "i < length (registered_blocks r)" "block_ok (registered_blocks r ! i)" "unat off < states_of (registered_blocks r ! i)"
    "base_state r i = Some (sid - off)" "by_state_id r sid = Some (registered_blocks r ! i)" "relative_index r sid = Some off"
    using state_lookup [OF ok assms(2)] .
  define b where "b = registered_blocks r ! i"
  define ds where "ds = state_digits b off"
  have b: "block_ok b" "by_state_id r sid = Some b" using at by (simp_all add: b_def)
  have l: "length ds = length (block_properties b)" by (simp add: ds_def)
  have dok: "digits_ok (value_counts (block_properties b)) ds"
    using radix_digits_ok [OF counts_pos [OF block_okD(1) [OF b(1)]]] by (simp add: ds_def)
  have str: "get_property_str r sid (fst e) = Some (Some (snd e))" if mem: "e \<in> set (digit_names b ds)" for e
  proof -
    obtain k where k: "k < length (block_properties b)" "e = (get_name (block_properties b ! k), the (value_name_from_index (block_properties b ! k) (ds ! k)))"
      using mem l by (auto simp: digit_names_def in_set_conv_nth)
    obtain s where "value_name_from_index (block_properties b ! k) (ds ! k) = Some s" using digit_name [OF b(1) k(1)] unfolding ds_def .
    moreover have "property_position (block_properties b) (fst e) = Some k" using property_position_iff [OF block_okD(3) [OF b(1)]] k by simp
    ultimately show ?thesis using get_property_str_digit [OF b at(6), of "fst e"] k(2) by (simp add: ds_def)
  qed
  have "state_id_with r b indices (digit_names b ds) = Some (Some sid)" if "length indices = length (block_properties b)" for indices
    using that registered_index(1) [OF ok at(1)] apply_digit_names [OF b(1) dok that] encode_digits [OF b(1)] at(3,4)
    by (simp add: state_id_with_def b_def ds_def)
  then have "state_id_from_block_properties r b (digit_names b ds) = Some (Some sid)"
    "state_id_from_block_defaulted_properties r b (digit_names b ds) = Some (Some sid)"
    using decode_digits [OF block_okD(1,2) [OF b(1)]]
    by (simp_all add: state_id_from_block_properties_def state_id_from_block_defaulted_properties_def)
  moreover have "map fst (digit_names b ds) = map get_name (block_properties b)"
    by (intro nth_equalityI) (simp_all add: digit_names_def l)
  ultimately show ?thesis
    using b(2) properties_of_digits [OF b at(6)] str registered_index(2) [OF ok at(1)]
    by (intro exI [of _ b] exI [of _ "digit_names b ds"]) (simp add: ds_def state_id_from_properties_def b_def)
qed

lemma replaced_state:
  assumes "registry_ok r" "i < length (registered_blocks r)" "base_state r i = Some base" "unat off < states_of (registered_blocks r ! i)"
  shows "by_state_id r (base + off) = Some (registered_blocks r ! i)" "relative_index r (base + off) = Some off"
proof -
  have base: "block_to_base_state r ! i = base" "i < length (block_to_base_state r)" using assms(3) by (simp_all add: base_state_def)
  have at: "state_at r (unat base + unat off) i (unat off)" using assms(2,4) base by (simp add: state_at_def)
  then have t: "unat base + unat off < unat (registry_next_state_id r)"
    "state_to_block_lookup r ! (unat base + unat off) = registered_blocks r ! i" "state_to_block_id r ! (unat base + unat off) = i"
    using assms(1) by (simp_all add: registry_ok_def)
  have "unat base + unat off < 2 ^ 16" using t(1) unsigned_less [of "registry_next_state_id r", where 'a = nat] by simp
  then have u: "unat (base + off) = unat base + unat off" using unat_add_lem [of base off] by simp
  then show "by_state_id r (base + off) = Some (registered_blocks r ! i)"
    using t assms(1) by (simp add: by_state_id_def registry_ok_def)
  have "nth_opt (state_to_block_id r) (unat (base + off)) = Some i" using u t assms(1) by (simp add: registry_ok_def)
  then show "relative_index r (base + off) = Some off" using assms(3) by (simp add: relative_index_def del: nth_opt_Some)
qed

text \<open>C11: Setting a property on a state gives a state of the same block that has the new value and keeps
  every other property; the checked variant by name returns the same state, so its overflow checks
  never fail.
\<close>

theorem set_property_effect:
  assumes "registry_reach r" "by_state_id r sid = Some b" "get_internal_index property v = Some c"
    "value_name_from_index property c = Some s" "property_position (block_properties b) (get_name property) = Some k"
    "find_value_index (block_properties b ! k) s = Some n"
  shows "\<exists>sid'. set_property r sid property v = Some sid' \<and> try_set_property_by_name r sid (get_name property) s = Some sid'
    \<and> by_state_id r sid' = Some b
    \<and> (\<forall>name. get_property_str r sid' name = (if name = get_name property then Some (Some s) else get_property_str r sid name))"
proof -
  note ok = registry_reach_ok [OF assms(1)]
  obtain i off where at: "i < length (registered_blocks r)" "block_ok (registered_blocks r ! i)" "unat off < states_of (registered_blocks r ! i)"
    "base_state r i = Some (sid - off)" "off \<le> sid" "by_state_id r sid = Some (registered_blocks r ! i)" "relative_index r sid = Some off"
    "nth_opt (state_to_block_id r) (unat sid) = Some i"
    using state_lookup [OF ok by_state_id_valid [OF ok assms(2)]] .
  have b: "registered_blocks r ! i = b" "block_ok b" "unat off < prod_list (value_counts (block_properties b))"
    using at(2,3,6) assms(2) by (simp_all add: states_of_def)
  define ps where "ps = block_properties b"
  have k: "k < length ps" "get_name (ps ! k) = get_name property"
    using assms(5) property_position_iff [OF block_okD(3) [OF b(2)]] by (simp_all add: ps_def)
  have "property_ok (ps ! k)" using block_okD(1) [OF b(2)] k(1) by (simp add: list_all_iff ps_def)
  then have n: "n < value_count (ps ! k)" "value_name_from_index (ps ! k) n = Some s"
    using find_value_index_iff assms(6) by (simp_all add: ps_def)
  note rep = replace_value_index_digit [OF block_okD(1,2) [OF b(2), folded ps_def] k(1) b(3) [folded ps_def] n(1)]
  define off' where "off' = replace_value_index ps k off n"
  define sid' where "sid' = sid - off + off'"
  have new: "by_state_id r sid' = Some b" "relative_index r sid' = Some off'"
    using replaced_state [OF ok at(1,4), of off'] rep(1) b(1) by (simp_all add: sid'_def off'_def ps_def states_of_def)
  have "set_property r sid property v = Some sid'"
    using assms(2-6) at(4,8) by (simp add: set_property_def sid'_def off'_def ps_def del: nth_opt_Some)
  moreover have "try_set_property_by_name r sid (get_name property) s = Some sid'"
    using assms(2,5,6) at(4,8) at(5) rep(3)
    by (simp add: try_set_property_by_name_def sid'_def off'_def ps_def replace_value_index_def Let_def checked_sub_def checked_add_def
        word_le_nat_alt [symmetric] word_sub_le del: nth_opt_Some split: if_splits)
  moreover have "get_property_str r sid' name = (if name = get_name property then Some (Some s) else get_property_str r sid name)" for name
  proof -
    have d: "state_digits b off' = (state_digits b off)[k := n]" using rep(2) by (simp add: off'_def ps_def)
    have "property_position ps name = Some j \<Longrightarrow> j = k \<longleftrightarrow> name = get_name property" for j
      using property_position_iff [OF block_okD(3) [OF b(2)], of name j] k(2) assms(5) by (auto simp: ps_def)
    then show ?thesis
      using get_property_str_digit [OF b(2) new, of name] get_property_str_digit [OF b(2) assms(2) at(7), of name] k n assms(5)
      by (cases "property_position ps name") (auto simp: d ps_def nth_list_update)
  qed
  ultimately show ?thesis using new(1) by blast
qed

text \<open>A small registry: an air block, and a block with a boolean and an integer property.\<close>

definition demo_fluid :: FluidState where
  "demo_fluid = \<lparr>fluid_id = \<lparr>fluid_key = vanilla ''empty'', fluid_is_empty = True, fluid_is_source = False, fluid_randomly_ticking = False\<rparr>,
     fluid_amount = 0, falling = False\<rparr>"

definition demo_block :: "nat \<Rightarrow> string \<Rightarrow> bool \<Rightarrow> Property list \<Rightarrow> Block" where
  "demo_block n name air ps = \<lparr>block_key = vanilla name, block_is_air = air, block_properties = ps, default_state_offset = 0,
     suffocating = \<lparr>data_default = False, data_overwrites = []\<rparr>, redstone_conductor = \<lparr>data_default = False, data_overwrites = []\<rparr>,
     block_fluid_state = \<lparr>data_default = demo_fluid, data_overwrites = []\<rparr>,
     block_randomly_ticking = \<lparr>data_default = False, data_overwrites = [(2, True)]\<rparr>, block_light_properties = (\<lambda>_. OPAQUE_FULL_BLOCK),
     block_id_cell = n\<rparr>"

definition demo_lamp :: Block where
  "demo_lamp = demo_block 2 ''lamp'' False [BoolProperty ''lit'', IntProperty ''age'' 0 2]"

definition demo_blocks :: BlockRegistry where
  "demo_blocks = snd (the (block_register demo_lamp (snd (the (block_register (demo_block 1 ''air'' True []) block_registry_new)))))"

lemma demo_blocks_reach: "registry_reach demo_blocks" "registry_next_state_id demo_blocks = 7" "by_state_id demo_blocks 4 = Some demo_lamp"
proof -
  define r1 where "r1 = snd (the (block_register (demo_block 1 ''air'' True []) block_registry_new))"
  have 1: "block_register (demo_block 1 ''air'' True []) block_registry_new = Some (0, r1)"
    by (simp add: r1_def block_register_def block_registry_new_def registry_new_def register_def Let_def)
  have n1: "registry_next_state_id r1 = 1"
    by (simp add: r1_def block_register_def block_registry_new_def registry_new_def register_def Let_def state_count_def demo_block_def)
  have ok0: "block_ok (demo_block 1 ''air'' True [])" by (simp add: block_ok_def properties_ok_def states_of_def demo_block_def)
  have s0: "states_of (demo_block 1 ''air'' True []) = 1" by (simp add: states_of_def demo_block_def)
  have okl: "block_ok demo_lamp" by (simp add: block_ok_def properties_ok_def states_of_def demo_lamp_def demo_block_def)
  have sl: "states_of demo_lamp = 6" by (simp add: states_of_def demo_lamp_def demo_block_def)
  have r1: "registry_reach r1" using registry_reach.add [OF registry_reach.empty ok0 _ _ 1] s0 by (simp add: block_registry_new_def registry_new_def)
  have "block_id_cells r1 (block_id_cell demo_lamp) = None" and k: "block_key demo_lamp \<notin> block_key ` set (registered_blocks r1)"
    by (simp_all add: r1_def block_register_def block_registry_new_def registry_new_def register_def Let_def demo_lamp_def demo_block_def vanilla_def)
  moreover have "allows_registering (block_entries r1)"
    by (simp add: r1_def block_register_def block_registry_new_def registry_new_def register_def Let_def)
  ultimately obtain i r2 where 2: "block_register demo_lamp r1 = Some (i, r2)"
    by (simp add: block_register_def register_def Let_def)
  have "demo_blocks = r2" using 2 by (simp add: demo_blocks_def r1_def)
  then show "registry_reach demo_blocks" using registry_reach.add [OF r1 okl _ _ 2] n1 sl k by simp
  have r2: "state_to_block_lookup r2 = state_to_block_lookup r1 @ map (\<lambda>_. demo_lamp) (map of_nat [0..<unat (state_count (block_properties demo_lamp))] :: u16 list)"
    "registry_next_state_id r2 = 1 + state_count (block_properties demo_lamp)"
    using 2 n1 by (auto simp: block_register_def register_def Let_def split: if_splits)
  have c: "state_count (block_properties demo_lamp) = 6" by (simp add: state_count_def demo_lamp_def demo_block_def)
  have l1: "length (state_to_block_lookup r1) = 1"
    by (simp add: r1_def block_register_def block_registry_new_def registry_new_def register_def Let_def state_count_def demo_block_def)
  show "registry_next_state_id demo_blocks = 7" "by_state_id demo_blocks 4 = Some demo_lamp"
    unfolding \<open>demo_blocks = r2\<close> by (simp_all add: r2 c l1 by_state_id_def nth_append)
qed

theorem state_properties_round_trip_witness:
  "\<exists>ps. properties_of demo_blocks 4 = Some ps \<and> map fst ps = [''lit'', ''age'']
    \<and> state_id_from_block_properties demo_blocks demo_lamp ps = Some (Some 4)"
  using state_properties_round_trip [OF demo_blocks_reach(1), of 4] demo_blocks_reach(2,3)
  by (auto simp: demo_lamp_def demo_block_def)

theorem set_property_effect_witness:
  "\<exists>sid. set_property demo_blocks 4 (IntProperty ''age'' 0 2) (IntValue 2) = Some sid
    \<and> get_property_str demo_blocks sid ''age'' = Some (Some ''2'')
    \<and> get_property_str demo_blocks sid ''lit'' = get_property_str demo_blocks 4 ''lit''"
proof -
  have "property_position (block_properties demo_lamp) ''age'' = Some 1" by (simp add: property_position_def first_position_def demo_lamp_def demo_block_def)
  moreover have "find_value_index (block_properties demo_lamp ! 1) ''2'' = Some 2"
    by (simp add: find_value_index_def demo_lamp_def demo_block_def NUM_STR_def nth_opt_def upt_rec)
  moreover have "value_name_from_index (IntProperty ''age'' 0 2) 2 = Some ''2''" by (simp add: NUM_STR_def)
  ultimately show ?thesis
    using set_property_effect [OF demo_blocks_reach(1,3), of "IntProperty ''age'' 0 2" "IntValue 2" 2 "''2''" 1 2] by auto
qed

section \<open>Metadata and copied properties\<close>

lemma metadata_new_flags:
  "metadata_is_air (metadata_new fs tb air) = air" "randomly_ticking_block (metadata_new fs tb air) = tb"
  "randomly_ticking_fluid (metadata_new fs tb air) = fluid_randomly_ticking (fluid_id fs)"
  "metadata_has_fluid (metadata_new fs tb air) = (\<not> fluid_state_is_empty fs)" "metadata_fluid_state (metadata_new fs tb air) = fs"
proof -
  have flags: "metadata_flags (metadata_new fs tb air) =
    or (or (or (or (if falling fs then 1 else 0) (if tb then 2 else 0)) (if fluid_randomly_ticking (fluid_id fs) then 4 else 0))
      (if air then 8 else 0)) (if \<not> fluid_state_is_empty fs then 16 else 0)"
    by (simp add: metadata_new_def Let_def FALLING_def RANDOMLY_TICKING_BLOCK_def RANDOMLY_TICKING_FLUID_def IS_AIR_def HAS_FLUID_def)
  then show "metadata_is_air (metadata_new fs tb air) = air" "randomly_ticking_block (metadata_new fs tb air) = tb"
    "randomly_ticking_fluid (metadata_new fs tb air) = fluid_randomly_ticking (fluid_id fs)"
    "metadata_has_fluid (metadata_new fs tb air) = (\<not> fluid_state_is_empty fs)"
    by (simp_all add: metadata_is_air_def randomly_ticking_block_def randomly_ticking_fluid_def metadata_has_fluid_def
      RANDOMLY_TICKING_BLOCK_def RANDOMLY_TICKING_FLUID_def IS_AIR_def HAS_FLUID_def)
  show "metadata_fluid_state (metadata_new fs tb air) = fs"
    by (simp add: metadata_fluid_state_def flags FALLING_def) (simp add: metadata_new_def Let_def)
qed

text \<open>The flattened metadata of a registered state holds exactly what its block declares for it: air,
  the fluid state, and whether the block and the fluid tick randomly. An unregistered id has none.
\<close>

lemma ticking_metadata_exact:
  assumes "registry_reach r"
  shows "(case get_ticking_metadata r sid of
     None \<Rightarrow> unat (registry_next_state_id r) \<le> unat sid
   | Some m \<Rightarrow> \<exists>b off. block_and_state_offset r sid = Some (b, off) \<and> metadata_is_air m = block_is_air b
       \<and> metadata_fluid_state m = state_value (block_fluid_state b) off
       \<and> metadata_has_fluid m = (\<not> fluid_state_is_empty (state_value (block_fluid_state b) off))
       \<and> randomly_ticking_block m = state_value (block_randomly_ticking b) off
       \<and> randomly_ticking_fluid m = fluid_randomly_ticking (fluid_id (state_value (block_fluid_state b) off)))"
proof (cases "unat sid < unat (registry_next_state_id r)")
  case True
  note ok = registry_reach_ok [OF assms]
  obtain i off where "block_and_state_offset r sid = Some (registered_blocks r ! i, off)"
    "get_ticking_metadata r sid = Some (block_ticking_metadata (registered_blocks r ! i) off)"
    using state_lookup [OF ok True] .
  then show ?thesis by (simp add: block_ticking_metadata_def metadata_new_flags)
next
  case False
  have "length (state_ticking_metadata r) = unat (registry_next_state_id r)" using registry_reach_ok [OF assms] by (simp add: registry_ok_def)
  then have "get_ticking_metadata r sid = None" using False by (simp add: get_ticking_metadata_def nth_opt_def)
  then show ?thesis using False by simp
qed

lemma same_property_names:
  assumes "same_property t p" "d < value_count p"
  shows "get_name p = get_name t" "d < value_count t" "value_name_from_index p d = value_name_from_index t d"
  using assms by (simp_all add: same_property_def list_all_iff)

text \<open>One copied index is a digit of the target and names the value of the source.\<close>

lemma copied_digit:
  assumes "block_ok tb" "block_ok sb" "k < length (block_properties tb)"
    "ds' = copy_indices (block_properties tb) (state_digits tb toff) (block_properties sb) (state_digits sb soff)"
  shows "ds' ! k < value_count (block_properties tb ! k)"
    "value_name_from_index (block_properties tb ! k) (ds' ! k) = (case first_position (same_property (block_properties tb ! k)) (block_properties sb) of
      None \<Rightarrow> value_name_from_index (block_properties tb ! k) (state_digits tb toff ! k)
    | Some j \<Rightarrow> value_name_from_index (block_properties sb ! j) (state_digits sb soff ! j))"
proof -
  let ?t = "block_properties tb ! k"
  have d: "ds' ! k = (case first_position (same_property ?t) (block_properties sb) of
      None \<Rightarrow> state_digits tb toff ! k | Some j \<Rightarrow> state_digits sb soff ! j)"
    using assms(3,4) by (simp add: copy_indices_def)
  note td = value_index_digit(2) [OF block_okD(1,2) [OF assms(1)] assms(3), of toff]
  have "ds' ! k < value_count ?t \<and> value_name_from_index ?t (ds' ! k) = (case first_position (same_property ?t) (block_properties sb) of
      None \<Rightarrow> value_name_from_index ?t (state_digits tb toff ! k)
    | Some j \<Rightarrow> value_name_from_index (block_properties sb ! j) (state_digits sb soff ! j))"
  proof (cases "first_position (same_property ?t) (block_properties sb)")
    case None
    then show ?thesis using d td by simp
  next
    case (Some j)
    then have j: "j < length (block_properties sb)" "same_property ?t (block_properties sb ! j)" by (simp_all add: first_position_Some)
    note sd = value_index_digit(2) [OF block_okD(1,2) [OF assms(2)] j(1), of soff]
    show ?thesis using Some d same_property_names [OF j(2) sd] by simp
  qed
  then show "ds' ! k < value_count ?t" "value_name_from_index ?t (ds' ! k) = (case first_position (same_property ?t) (block_properties sb) of
      None \<Rightarrow> value_name_from_index ?t (state_digits tb toff ! k)
    | Some j \<Rightarrow> value_name_from_index (block_properties sb ! j) (state_digits sb soff ! j))" by simp_all
qed

lemma copied_property_str:
  assumes "block_ok tb" "block_ok sb" "by_state_id r sid = Some tb" "relative_index r sid = Some off'"
    "by_state_id r target = Some tb" "relative_index r target = Some toff" "by_state_id r source = Some sb" "relative_index r source = Some soff"
    "state_digits tb off' = copy_indices (block_properties tb) (state_digits tb toff) (block_properties sb) (state_digits sb soff)"
    "k < length (block_properties tb)"
  shows "get_property_str r sid (get_name (block_properties tb ! k)) =
    get_property_str r (if \<exists>p \<in> set (block_properties sb). same_property (block_properties tb ! k) p then source else target)
      (get_name (block_properties tb ! k))"
proof -
  let ?t = "block_properties tb ! k"
  have k: "property_position (block_properties tb) (get_name ?t) = Some k"
    using property_position_iff [OF block_okD(3) [OF assms(1)]] assms(10) by simp
  note new = get_property_str_digit [OF assms(1,3,4), of "get_name ?t"]
  note cd = copied_digit(2) [OF assms(1,2,10) assms(9)]
  show ?thesis
  proof (cases "first_position (same_property ?t) (block_properties sb)")
    case None
    then have "\<not> (\<exists>p \<in> set (block_properties sb). same_property ?t p)" by (simp add: first_position_None)
    then show ?thesis using new k cd None get_property_str_digit [OF assms(1,5,6), of "get_name ?t"] by simp
  next
    case (Some j)
    then have j: "j < length (block_properties sb)" "same_property ?t (block_properties sb ! j)" by (simp_all add: first_position_Some)
    then have "get_name (block_properties sb ! j) = get_name ?t" by (simp add: same_property_def)
    then have "property_position (block_properties sb) (get_name ?t) = Some j"
      using property_position_iff [OF block_okD(3) [OF assms(2)]] j(1) by simp
    moreover have "\<exists>p \<in> set (block_properties sb). same_property ?t p" using j nth_mem by blast
    ultimately show ?thesis using new k cd Some get_property_str_digit [OF assms(2,7,8), of "get_name ?t"] by simp
  qed
qed

text \<open>C40: Copying properties from one state to another gives a state of the target's block in which each
  property has the source's value where both blocks have the same property, and the target's otherwise.
\<close>

theorem with_properties_of_effect:
  assumes "registry_reach r" "by_state_id r target = Some tb" "by_state_id r source = Some sb"
  shows "\<exists>sid. with_properties_of r target source = Some sid \<and> by_state_id r sid = Some tb
    \<and> (\<forall>k < length (block_properties tb). get_property_str r sid (get_name (block_properties tb ! k)) =
        get_property_str r (if \<exists>p \<in> set (block_properties sb). same_property (block_properties tb ! k) p then source else target)
          (get_name (block_properties tb ! k)))"
proof -
  note ok = registry_reach_ok [OF assms(1)]
  obtain i toff where t: "i < length (registered_blocks r)" "block_ok (registered_blocks r ! i)" "base_state r i = Some (target - toff)"
    "by_state_id r target = Some (registered_blocks r ! i)" "relative_index r target = Some toff"
    "block_and_state_offset r target = Some (registered_blocks r ! i, toff)"
    using state_lookup [OF ok by_state_id_valid [OF ok assms(2)]] .
  obtain j soff where s: "block_ok (registered_blocks r ! j)" "by_state_id r source = Some (registered_blocks r ! j)"
    "relative_index r source = Some soff" "block_and_state_offset r source = Some (registered_blocks r ! j, soff)"
    using state_lookup [OF ok by_state_id_valid [OF ok assms(3)]] .
  have b: "registered_blocks r ! i = tb" "registered_blocks r ! j = sb" "block_ok tb" "block_ok sb" using t s assms(2,3) by auto
  define ds' where "ds' = copy_indices (block_properties tb) (state_digits tb toff) (block_properties sb) (state_digits sb soff)"
  note cd = copied_digit [OF b(3,4) _ ds'_def]
  have l: "length ds' = length (block_properties tb)" by (simp add: ds'_def copy_indices_def)
  have dok: "digits_ok (value_counts (block_properties tb)) ds'" using cd(1) l by (simp add: digits_ok_def list_all2_conv_all_nth)
  define off' where "off' = encode_property_indices (block_properties tb) ds'"
  have u: "unat off' = radix_value (value_counts (block_properties tb)) ds'" "unat off' < states_of tb"
    using radix_value_less_prod [OF dok] block_okD(2) [OF b(3)] l by (simp_all add: off'_def encode_value unat_of_nat_small states_of_def)
  have dig: "state_digits tb off' = ds'" using radix_digits_value [OF dok] u(1) by simp
  have new: "by_state_id r (target - toff + off') = Some tb" "relative_index r (target - toff + off') = Some off'"
    using replaced_state [OF ok t(1,3), of off'] u(2) b(1) by simp_all
  have w: "with_properties_of r target source = Some (target - toff + off')"
    using t(6) s(4) b(1,2) decode_digits [OF block_okD(1,2) [OF b(3)]] decode_digits [OF block_okD(1,2) [OF b(4)]]
    by (simp add: with_properties_of_def off'_def ds'_def)
  note copied_property_str [OF b(3,4) new assms(2) t(5) assms(3) s(3) dig [unfolded ds'_def]]
  then show ?thesis using w new(1) by blast
qed

theorem with_properties_of_effect_witness:
  "\<exists>sid. with_properties_of demo_blocks 4 4 = Some sid \<and> by_state_id demo_blocks sid = Some demo_lamp"
  using with_properties_of_effect [OF demo_blocks_reach(1,3,3)] by blast

end
