(* ===== verification/Paletted_Container.thy ===== *)
theory Paletted_Container
  imports Prelude "HOL-Library.AList"
begin

text \<open>
  The paletted containers of \<open>steel-core/src/chunk/paletted_container.rs\<close>: a cube of values that is
  stored as one value, as a cube with a palette counting each value's cells, or, during world
  generation, as a bare cube. The palette invariant of the source is \<open>palette_ok\<close>; every operation
  is related to the plain list of the cells in y, z, x order. A panic of an index is \<open>None\<close>.
\<close>

section \<open>Cubes\<close>

type_synonym 'v Cube = "'v list list list"

definition cube_get :: "'v Cube \<Rightarrow> nat \<Rightarrow> nat \<Rightarrow> nat \<Rightarrow> 'v option" where
  "cube_get cube x y z =
    (if y < length cube \<and> z < length (cube ! y) \<and> x < length (cube ! y ! z) then Some (cube ! y ! z ! x) else None)"

definition cube_store :: "'v Cube \<Rightarrow> nat \<Rightarrow> nat \<Rightarrow> nat \<Rightarrow> 'v \<Rightarrow> 'v Cube" where
  "cube_store cube x y z v = cube[y := (cube ! y)[z := (cube ! y ! z)[x := v]]]"

definition cube_fill :: "nat \<Rightarrow> 'v \<Rightarrow> 'v Cube" where
  "cube_fill dim v = replicate dim (replicate dim (replicate dim v))"

definition as_flattened :: "'a list list \<Rightarrow> 'a list" where
  "as_flattened xs = concat xs"

definition cube_values :: "'v Cube \<Rightarrow> 'v list" where
  "cube_values cube = as_flattened (as_flattened cube)"

section \<open>Heterogeneous palettes\<close>

record 'v HeterogeneousPalette =
  cube :: "'v Cube"
  palette :: "('v \<times> u16) list"

definition het_values :: "'v HeterogeneousPalette \<Rightarrow> 'v list" where
  "het_values h = cube_values (cube h)"

definition het_get :: "'v HeterogeneousPalette \<Rightarrow> nat \<Rightarrow> nat \<Rightarrow> nat \<Rightarrow> 'v option" where
  "het_get h x y z = cube_get (cube h) x y z"

definition het_get_at_index :: "nat \<Rightarrow> 'v HeterogeneousPalette \<Rightarrow> nat \<Rightarrow> 'v option" where
  "het_get_at_index dim h index =
    (let y = index div (dim * dim); z = index div dim mod dim; x = index mod dim in cube_get (cube h) x y z)"

text \<open>\<open>iter().position\<close>.\<close>

primrec position_of :: "'v \<Rightarrow> ('v \<times> u16) list \<Rightarrow> nat option" where
  "position_of v [] = None"
| "position_of v (e # es) = (if fst e = v then Some 0 else map_option Suc (position_of v es))"

definition swap_remove :: "nat \<Rightarrow> 'a list \<Rightarrow> 'a list" where
  "swap_remove i xs = butlast (xs[i := last xs])"

text \<open>Counting \<open>n\<close> more cells of a value, as both \<open>set\<close> and \<open>from_cube\<close> do.\<close>

definition palette_add :: "'v \<Rightarrow> u16 \<Rightarrow> ('v \<times> u16) list \<Rightarrow> ('v \<times> u16) list" where
  "palette_add v n p = (case position_of v p of
     Some pos \<Rightarrow> p[pos := (fst (p ! pos), snd (p ! pos) + n)]
   | None \<Rightarrow> p @ [(v, n)])"

definition palette_drop :: "'v \<Rightarrow> ('v \<times> u16) list \<Rightarrow> ('v \<times> u16) list" where
  "palette_drop v p = (case position_of v p of
     Some index \<Rightarrow>
       let p = p[index := (fst (p ! index), snd (p ! index) - 1)]
       in if snd (p ! index) = 0 then swap_remove index p else p
   | None \<Rightarrow> p)"

definition het_set :: "'v HeterogeneousPalette \<Rightarrow> nat \<Rightarrow> nat \<Rightarrow> nat \<Rightarrow> 'v \<Rightarrow> ('v \<times> 'v HeterogeneousPalette) option" where
  "het_set h x y z value = (case cube_get (cube h) x y z of
     None \<Rightarrow> None
   | Some old_value \<Rightarrow>
       Some (old_value, \<lparr>cube = cube_store (cube h) x y z value,
                         palette = palette_drop old_value (palette_add value 1 (palette h))\<rparr>))"

section \<open>Containers\<close>

datatype 'v PalettedContainer =
    Homogeneous 'v
  | Heterogeneous "'v HeterogeneousPalette"
  | Building "'v Cube"

text \<open>The loop over the runs of equal cells.\<close>

function count_runs :: "'v list \<Rightarrow> ('v \<times> u16) list \<Rightarrow> ('v \<times> u16) list" where
  "count_runs [] p = p"
| "count_runs (v # rest) p =
    (let run_len = Suc (length (takeWhile (\<lambda>w. w = v) rest))
     in count_runs (dropWhile (\<lambda>w. w = v) rest) (palette_add v (of_nat run_len) p))"
  by pat_completeness auto
termination
  by (relation "measure (\<lambda>(xs, p). length xs)") (auto simp: length_dropWhile_le less_Suc_eq_le)

definition from_cube :: "'v Cube \<Rightarrow> 'v PalettedContainer" where
  "from_cube cb =
    (let p = count_runs (cube_values cb) []
     in if length p = 1 then Homogeneous (fst (p ! 0)) else Heterogeneous \<lparr>cube = cb, palette = p\<rparr>)"

definition container_get :: "'v PalettedContainer \<Rightarrow> nat \<Rightarrow> nat \<Rightarrow> nat \<Rightarrow> 'v option" where
  "container_get c x y z = (case c of
     Homogeneous value \<Rightarrow> Some value
   | Heterogeneous h \<Rightarrow> het_get h x y z
   | Building cb \<Rightarrow> cube_get cb x y z)"

definition container_get_at_index :: "nat \<Rightarrow> 'v PalettedContainer \<Rightarrow> nat \<Rightarrow> 'v option" where
  "container_get_at_index dim c index = (case c of
     Homogeneous value \<Rightarrow> Some value
   | Heterogeneous h \<Rightarrow> het_get_at_index dim h index
   | Building cb \<Rightarrow>
       (let y = index div (dim * dim); z = index div dim mod dim; x = index mod dim in cube_get cb x y z))"

text \<open>The column written into a slice of at least \<open>dim\<close> cells; its tail is left as it is.\<close>

definition copy_column_into :: "nat \<Rightarrow> 'v PalettedContainer \<Rightarrow> nat \<Rightarrow> nat \<Rightarrow> 'v list \<Rightarrow> 'v list option" where
  "copy_column_into dim c x z out =
    (if length out < dim then None
     else case c of
       Homogeneous value \<Rightarrow> Some (replicate dim value @ drop dim out)
     | Heterogeneous h \<Rightarrow>
         if \<forall>y \<in> set [0..<dim]. cube_get (cube h) x y z \<noteq> None
         then Some (map (\<lambda>y. the (cube_get (cube h) x y z)) [0..<dim] @ drop dim out) else None
     | Building cb \<Rightarrow>
         if \<forall>y \<in> set [0..<dim]. cube_get cb x y z \<noteq> None
         then Some (map (\<lambda>y. the (cube_get cb x y z)) [0..<dim] @ drop dim out) else None)"

definition maybe_has :: "('v \<Rightarrow> bool) \<Rightarrow> 'v PalettedContainer \<Rightarrow> bool" where
  "maybe_has predicate c = (case c of
     Homogeneous value \<Rightarrow> predicate value
   | Heterogeneous h \<Rightarrow> list_ex (\<lambda>(value, _). predicate value) (palette h)
   | Building cb \<Rightarrow> list_ex predicate (cube_values cb))"

definition collect_values :: "nat \<Rightarrow> 'v PalettedContainer \<Rightarrow> 'v list" where
  "collect_values dim c = (case c of
     Homogeneous value \<Rightarrow> replicate (dim * dim * dim) value
   | Heterogeneous h \<Rightarrow> het_values h
   | Building cb \<Rightarrow> cube_values cb)"

definition enter_building_mode :: "nat \<Rightarrow> 'v PalettedContainer \<Rightarrow> 'v PalettedContainer" where
  "enter_building_mode dim c = (case c of
     Building cb \<Rightarrow> Building cb
   | Homogeneous value \<Rightarrow> Building (cube_fill dim value)
   | Heterogeneous h \<Rightarrow> Building (cube h))"

definition as_building_slice :: "'v PalettedContainer \<Rightarrow> 'v list option" where
  "as_building_slice c = (case c of Building cb \<Rightarrow> Some (cube_values cb) | _ \<Rightarrow> None)"

definition finalize_building :: "'v PalettedContainer \<Rightarrow> 'v PalettedContainer" where
  "finalize_building c = (case c of Building cb \<Rightarrow> from_cube cb | _ \<Rightarrow> c)"

definition container_set :: "nat \<Rightarrow> 'v PalettedContainer \<Rightarrow> nat \<Rightarrow> nat \<Rightarrow> nat \<Rightarrow> 'v \<Rightarrow> ('v \<times> 'v PalettedContainer) option" where
  "container_set dim c x y z value = (case c of
     Homogeneous original \<Rightarrow>
       if value \<noteq> original
       then (if cube_get (cube_fill dim original) x y z = None then None
             else Some (original, from_cube (cube_store (cube_fill dim original) x y z value)))
       else Some (original, c)
   | Heterogeneous h \<Rightarrow>
       map_option (\<lambda>(original, h). (original,
         if length (palette h) = 1 then Homogeneous (fst (palette h ! 0)) else Heterogeneous h)) (het_set h x y z value)
   | Building cb \<Rightarrow>
       map_option (\<lambda>old. (old, Building (cube_store cb x y z value))) (cube_get cb x y z))"

text \<open>Block palettes: state id 0 is air, and \<open>is_air\<close> is the registry's test.\<close>

definition non_empty_block_count :: "u16 PalettedContainer \<Rightarrow> u16" where
  "non_empty_block_count c = (case c of
     Homogeneous v \<Rightarrow> if v = 0 then 0 else of_nat (16 * 16 * 16)
   | Heterogeneous h \<Rightarrow> fold (\<lambda>(v, n) count. if v \<noteq> 0 then count + n else count) (palette h) 0
   | Building cb \<Rightarrow> fold (\<lambda>v count. if v \<noteq> 0 then count + 1 else count) (cube_values cb) 0)"

definition has_only_air :: "(u16 \<Rightarrow> bool) \<Rightarrow> u16 PalettedContainer \<Rightarrow> bool" where
  "has_only_air is_air c = (case c of
     Homogeneous v \<Rightarrow> is_air v
   | Heterogeneous _ \<Rightarrow> False
   | Building cb \<Rightarrow> list_all is_air (cube_values cb))"

section \<open>Cubes as lists of cells\<close>

definition cube_ok :: "nat \<Rightarrow> 'v Cube \<Rightarrow> bool" where
  "cube_ok dim cb \<longleftrightarrow> length cb = dim \<and> (\<forall>slab \<in> set cb. length slab = dim \<and> (\<forall>row \<in> set slab. length row = dim))"

definition cell_index :: "nat \<Rightarrow> nat \<Rightarrow> nat \<Rightarrow> nat \<Rightarrow> nat" where
  "cell_index dim x y z = (y * dim + z) * dim + x"

lemma flattened_rows:
  assumes "\<forall>row \<in> set xs. length row = n"
  shows "length (as_flattened xs) = length xs * n"
    "i < length xs \<Longrightarrow> j < n \<Longrightarrow> i * n + j < length xs * n"
    "i < length xs \<Longrightarrow> j < n \<Longrightarrow> as_flattened xs ! (i * n + j) = xs ! i ! j"
    "i < length xs \<Longrightarrow> j < n \<Longrightarrow> (as_flattened xs)[i * n + j := v] = as_flattened (xs[i := (xs ! i)[j := v]])"
proof -
  show l: "length (as_flattened xs) = length xs * n" using assms by (induction xs) (auto simp: as_flattened_def)
  show "i * n + j < length xs * n" if "i < length xs" "j < n"
  proof -
    have "i * n + j < Suc i * n" using that by simp
    also have "\<dots> \<le> length xs * n" using that by (intro mult_le_mono1) simp
    finally show ?thesis .
  qed
  show "as_flattened xs ! (i * n + j) = xs ! i ! j" if "i < length xs" "j < n"
    using assms that
  proof (induction xs arbitrary: i)
    case (Cons row xs)
    then show ?case by (cases i) (auto simp: as_flattened_def nth_append algebra_simps)
  qed simp
  show "(as_flattened xs)[i * n + j := v] = as_flattened (xs[i := (xs ! i)[j := v]])" if "i < length xs" "j < n"
    using assms that
  proof (induction xs arbitrary: i)
    case (Cons row xs)
    then show ?case by (cases i) (auto simp: as_flattened_def list_update_append algebra_simps)
  qed simp
qed

lemma slabs_rows:
  assumes "cube_ok dim cb"
  shows "\<forall>slab \<in> set cb. length slab = dim" "\<forall>row \<in> set (as_flattened cb). length row = dim" "length (as_flattened cb) = dim * dim"
proof -
  show s: "\<forall>slab \<in> set cb. length slab = dim" and "\<forall>row \<in> set (as_flattened cb). length row = dim"
    using assms by (auto simp: cube_ok_def as_flattened_def)
  show "length (as_flattened cb) = dim * dim" using flattened_rows(1) [OF s] assms by (simp add: cube_ok_def)
qed

lemma length_cube_values: "cube_ok dim cb \<Longrightarrow> length (cube_values cb) = dim * dim * dim"
  by (simp add: cube_values_def flattened_rows(1) [OF slabs_rows(2)] slabs_rows(3))

lemma cube_cell:
  assumes "cube_ok dim cb" "x < dim" "y < dim" "z < dim"
  shows "cell_index dim x y z < length (cube_values cb)"
    "cube_get cb x y z = Some (cube_values cb ! cell_index dim x y z)"
    "cube_values (cube_store cb x y z v) = (cube_values cb)[cell_index dim x y z := v]"
    "cube_ok dim (cube_store cb x y z v)"
proof -
  have cb: "length cb = dim" using assms(1) by (simp add: cube_ok_def)
  note s = slabs_rows [OF assms(1)]
  have yz: "y * dim + z < dim * dim" using flattened_rows(2) [OF s(1), of y z] assms cb by simp
  have row: "as_flattened cb ! (y * dim + z) = cb ! y ! z" using flattened_rows(3) [OF s(1), of y z] assms cb by simp
  show "cell_index dim x y z < length (cube_values cb)"
    using flattened_rows(2) [OF s(2), of "y * dim + z" x] assms s(3) yz by (simp add: cell_index_def length_cube_values)
  have "y < length cb" "cb ! y \<in> set cb" using assms cb by simp_all
  then have z: "z < length (cb ! y)" "cb ! y ! z \<in> set (cb ! y)" "length (cb ! y) = dim" using assms by (simp_all add: cube_ok_def)
  then have "length (cb ! y ! z) = dim" using assms(1) \<open>cb ! y \<in> set cb\<close> by (auto simp: cube_ok_def)
  then show "cube_get cb x y z = Some (cube_values cb ! cell_index dim x y z)"
    using flattened_rows(3) [OF s(2), of "y * dim + z" x] assms z cb s(3) yz row by (simp add: cube_get_def cell_index_def cube_values_def)
  have "as_flattened (cube_store cb x y z v) = (as_flattened cb)[y * dim + z := (cb ! y ! z)[x := v]]"
    using flattened_rows(4) [OF s(1), of y z "(cb ! y ! z)[x := v]"] assms cb by (simp add: cube_store_def)
  then show "cube_values (cube_store cb x y z v) = (cube_values cb)[cell_index dim x y z := v]"
    using flattened_rows(4) [OF s(2), of "y * dim + z" x v] assms s(3) yz row by (simp add: cube_values_def cell_index_def)
  show "cube_ok dim (cube_store cb x y z v)"
    using assms(1) z \<open>length (cb ! y ! z) = dim\<close> \<open>cb ! y \<in> set cb\<close>
    unfolding cube_ok_def cube_store_def by (auto dest!: set_update_subset_insert [THEN subsetD])
qed

lemma cube_fill_ok: "cube_ok dim (cube_fill dim v)" "cube_values (cube_fill dim v) = replicate (dim * dim * dim) v"
proof -
  show ok: "cube_ok dim (cube_fill dim v)" by (simp add: cube_ok_def cube_fill_def)
  have "set (cube_values (cube_fill dim v)) \<subseteq> {v}" by (auto simp: cube_values_def as_flattened_def cube_fill_def)
  then show "cube_values (cube_fill dim v) = replicate (dim * dim * dim) v"
    using length_cube_values [OF ok] by (intro replicate_eqI) auto
qed

text \<open>The linear index is the one the coordinates are computed back from.\<close>

lemma cell_index_split:
  assumes "i < dim * dim * dim"
  shows "i div (dim * dim) < dim" "i div dim mod dim < dim" "i mod dim < dim"
    "cell_index dim (i mod dim) (i div (dim * dim)) (i div dim mod dim) = i"
proof -
  have "0 < dim" using assms by (cases dim) simp_all
  then show "i div dim mod dim < dim" "i mod dim < dim" by simp_all
  show "i div (dim * dim) < dim" using assms by (simp add: less_mult_imp_div_less mult.assoc)
  have "i div (dim * dim) = i div dim div dim" by (simp add: div_mult2_eq)
  then show "cell_index dim (i mod dim) (i div (dim * dim)) (i div dim mod dim) = i" by (simp add: cell_index_def)
qed

section \<open>The palette invariant\<close>

text \<open>Every value of the bag has exactly one entry, with its number of occurrences.\<close>

definition palette_ok :: "'v multiset \<Rightarrow> ('v \<times> u16) list \<Rightarrow> bool" where
  "palette_ok M p \<longleftrightarrow> distinct (map fst p) \<and> size M < 2 ^ 16
    \<and> (\<forall>v. map_of p v = (if v \<in># M then Some (of_nat (count M v)) else None))"

lemma position_of_None: "position_of v p = None \<longleftrightarrow> v \<notin> fst ` set p"
  by (induction p) auto

lemma position_of_Some: "position_of v p = Some i \<Longrightarrow> i < length p \<and> fst (p ! i) = v"
  by (induction p arbitrary: i) (auto split: if_splits)

lemma map_of_position:
  "distinct (map fst p) \<Longrightarrow> position_of v p = Some i \<Longrightarrow> map_of p v = Some (snd (p ! i))"
  using position_of_Some [of v p i] by (metis map_of_eq_Some_iff nth_mem prod.collapse)

lemma map_of_at:
  assumes "distinct (map fst p)" "i < length p"
  shows "map_of (p[i := (fst (p ! i), m)]) = (map_of p)(fst (p ! i) \<mapsto> m)" "distinct (map fst (p[i := (fst (p ! i), m)]))"
proof -
  have "map fst (p[i := (fst (p ! i), m)]) = map fst p" using assms(2) by (simp add: map_update list_update_same_conv)
  then show "distinct (map fst (p[i := (fst (p ! i), m)]))" using assms(1) by simp
  show "map_of (p[i := (fst (p ! i), m)]) = (map_of p)(fst (p ! i) \<mapsto> m)"
    using assms
  proof (induction p arbitrary: i)
    case (Cons e p)
    show ?case
    proof (cases i)
      case 0
      then show ?thesis by (cases e) (auto simp: fun_eq_iff)
    next
      case (Suc j)
      then have "fst e \<noteq> fst (p ! j)" using Cons.prems nth_mem [of j p] by force
      then show ?thesis using Suc Cons by (auto simp: fun_eq_iff)
    qed
  qed simp
qed

lemma palette_okI:
  "distinct (map fst p) \<Longrightarrow> size M < 2 ^ 16 \<Longrightarrow>
    (\<And>v. map_of p v = (if count M v = 0 then None else Some (of_nat (count M v)))) \<Longrightarrow> palette_ok M p"
  by (simp add: palette_ok_def not_in_iff)

lemma palette_okD:
  assumes "palette_ok M p"
  shows "distinct (map fst p)" "size M < 2 ^ 16" "map_of p v = (if count M v = 0 then None else Some (of_nat (count M v)))"
  using assms by (simp_all add: palette_ok_def not_in_iff)

lemma palette_add_ok:
  assumes "palette_ok M p" "0 < k" "size M + k < 2 ^ 16"
  shows "palette_ok (M + replicate_mset k v) (palette_add v (of_nat k) p)"
proof (rule palette_okI)
  note ok = palette_okD [OF assms(1)]
  show "size (M + replicate_mset k v) < 2 ^ 16" using assms(3) by simp
  have *: "distinct (map fst (palette_add v (of_nat k) p)) \<and> (\<forall>w. map_of (palette_add v (of_nat k) p) w =
      (if w = v then Some (of_nat (count M v + k)) else map_of p w))"
  proof (cases "position_of v p")
    case None
    then have n: "map_of p v = None" "v \<notin> fst ` set p" by (simp_all add: position_of_None map_of_eq_None_iff)
    moreover have "count M v = 0" using n(1) ok(3) [of v] by (simp split: if_splits)
    ultimately show ?thesis using None ok(1) by (auto simp: palette_add_def map_add_def split: option.splits)
  next
    case (Some i)
    have i: "i < length p" "fst (p ! i) = v" using position_of_Some [OF Some] by simp_all
    have "snd (p ! i) = of_nat (count M v)" using map_of_position [OF ok(1) Some] ok(3) [of v] by (simp split: if_splits)
    then have "palette_add v (of_nat k) p = p[i := (fst (p ! i), of_nat (count M v + k))]" using Some by (simp add: palette_add_def)
    then show ?thesis using map_of_at [OF ok(1) i(1), of "of_nat (count M v + k)"] i(2) by simp
  qed
  then show "distinct (map fst (palette_add v (of_nat k) p))" by blast
  show "map_of (palette_add v (of_nat k) p) w = (if count (M + replicate_mset k v) w = 0 then None
      else Some (of_nat (count (M + replicate_mset k v) w)))" for w
    using * ok(3) [of w] assms(2) by (cases "w = v") (simp_all del: count_greater_zero_iff count_eq_zero_iff)
qed

lemma swap_remove_split:
  "swap_remove (length pre) (pre @ e # suf) = pre @ (if suf = [] then [] else last suf # butlast suf)"
  by (auto simp: swap_remove_def butlast_append)

lemma map_of_swap_remove:
  assumes "distinct (map fst p)" "i < length p"
  shows "map_of (swap_remove i p) = (map_of p)(fst (p ! i) := None)" "distinct (map fst (swap_remove i p))"
proof -
  obtain pre e suf where p: "p = pre @ e # suf" "i = length pre" "p ! i = e"
    using id_take_nth_drop [OF assms(2)] assms(2) by (metis length_take min.absorb2 less_imp_le)
  define q where "q = pre @ (if suf = [] then [] else last suf # butlast suf)"
  have q: "swap_remove i p = q" using p swap_remove_split [of pre e suf] by (simp add: q_def)
  have m: "mset q = mset (pre @ suf)"
    by (cases suf rule: rev_cases) (simp_all add: q_def)
  have s: "set q = set (pre @ suf)" using mset_eq_setD [OF m] .
  have "mset (map fst q) = mset (map fst (pre @ suf))" using m by (simp only: mset_map)
  from mset_eq_imp_distinct_iff [OF this] show d: "distinct (map fst (swap_remove i p))"
    using assms(1) unfolding p(1) q [unfolded p(1)] by simp
  have "map_of q v = ((map_of p)(fst e := None)) v" for v
  proof (cases "v = fst e")
    case True
    have "fst e \<notin> fst ` set q" using assms(1) p(1) s by auto
    then show ?thesis using True by (simp add: map_of_eq_None_iff)
  next
    case False
    have "map_of q v = Some n \<longleftrightarrow> map_of p v = Some n" for n
      unfolding map_of_eq_Some_iff [OF d [unfolded q]] map_of_eq_Some_iff [OF assms(1)] s using False p(1) by auto
    then show ?thesis using False by (metis fun_upd_other not_Some_eq)
  qed
  then show "map_of (swap_remove i p) = (map_of p)(fst (p ! i) := None)" using q p(3) by auto
qed

lemma count_le_size: "count M v \<le> size M"
proof -
  have "replicate_mset (count M v) v \<subseteq># M" by (simp add: count_le_replicate_mset_subset_eq [symmetric])
  from size_mset_mono [OF this] show ?thesis by simp
qed

lemma palette_drop_ok:
  assumes "palette_ok M p" "v \<in># M"
  shows "palette_ok (M - {#v#}) (palette_drop v p)"
proof (rule palette_okI)
  note ok = palette_okD [OF assms(1)]
  have c: "0 < count M v" "count M v < 2 ^ 16" using assms(2) ok(2) count_le_size [of M v] by simp_all
  show "size (M - {#v#}) < 2 ^ 16" using ok(2) by (metis diff_le_self le_less_trans assms(2) size_Diff_singleton)
  have mv: "map_of p v = Some (of_nat (count M v))" using ok(3) [of v] c(1) by simp
  then obtain i where i: "position_of v p = Some i"
    using position_of_None [of v p] map_of_eq_None_iff [of p v] by (cases "position_of v p") auto
  have il: "i < length p" "fst (p ! i) = v" using position_of_Some [OF i] by simp_all
  have w: "snd (p ! i) - 1 = of_nat (count M v - 1)" using map_of_position [OF ok(1) i] mv c(1) by simp
  have z: "of_nat (count M v - 1) = (0 :: u16) \<longleftrightarrow> count M v = 1"
  proof -
    have "unat (of_nat (count M v - 1) :: u16) = count M v - 1" using c(2) by (simp only: unat_of_nat) simp
    then show ?thesis using c(1) by (auto simp: word_unat_eq_iff simp del: of_nat_diff count_greater_zero_iff)
  qed
  define q where "q = p[i := (fst (p ! i), of_nat (count M v - 1))]"
  have q: "map_of q = (map_of p)(v \<mapsto> of_nat (count M v - 1))" "distinct (map fst q)" "i < length q" "fst (q ! i) = v"
    "snd (q ! i) = of_nat (count M v - 1)"
    using map_of_at [OF ok(1) il(1), of "of_nat (count M v - 1)"] il by (simp_all add: q_def)
  have *: "distinct (map fst (palette_drop v p)) \<and> map_of (palette_drop v p) =
      (map_of p)(v := if count M v = 1 then None else Some (of_nat (count M v - 1)))"
  proof (cases "count M v = 1")
    case True
    then have "palette_drop v p = swap_remove i q" using i z w q(5) by (simp add: palette_drop_def q_def Let_def)
    then show ?thesis using map_of_swap_remove [OF q(2,3)] q(1,4) True by simp
  next
    case False
    then have "palette_drop v p = q" using i z w q(5) by (simp add: palette_drop_def q_def Let_def)
    then show ?thesis using q(1,2) False by simp
  qed
  then show "distinct (map fst (palette_drop v p))" by blast
  show "map_of (palette_drop v p) u = (if count (M - {#v#}) u = 0 then None else Some (of_nat (count (M - {#v#}) u)))" for u
    using * ok(3) [of u] c(1) by (cases "u = v") (simp_all del: count_greater_zero_iff count_eq_zero_iff)
qed

lemma palette_replace_ok:
  assumes "palette_ok (mset xs) p" "i < length xs" "length xs + 1 < 2 ^ 16"
  shows "palette_ok (mset (xs[i := v])) (palette_drop (xs ! i) (palette_add v 1 p))"
proof -
  have "palette_ok (mset xs + {#v#}) (palette_add v 1 p)" using palette_add_ok [OF assms(1), of 1 v] assms(3) by simp
  from palette_drop_ok [OF this, of "xs ! i"] show ?thesis using assms(2) by (simp add: mset_update)
qed

lemma count_runs_ok:
  "palette_ok M p \<Longrightarrow> size M + length xs < 2 ^ 16 \<Longrightarrow> palette_ok (M + mset xs) (count_runs xs p)"
proof (induction xs p arbitrary: M rule: count_runs.induct)
  case (2 v rest p)
  define run where "run = takeWhile (\<lambda>w. w = v) rest"
  define k where "k = Suc (length run)"
  have "run = replicate (length run) v" unfolding run_def by (intro replicate_eqI) (auto dest: set_takeWhileD)
  then have run: "mset run = replicate_mset (length run) v" by (metis mset_replicate)
  have rest: "run @ dropWhile (\<lambda>w. w = v) rest = rest" by (simp add: run_def)
  from arg_cong [OF rest, of length] have l: "k + length (dropWhile (\<lambda>w. w = v) rest) = Suc (length rest)" by (simp add: k_def)
  have k: "palette_ok (M + replicate_mset k v) (palette_add v (of_nat k) p)"
    using palette_add_ok [OF "2.prems"(1), of k v] l "2.prems"(2) by (simp add: k_def)
  have "palette_ok (M + replicate_mset k v + mset (dropWhile (\<lambda>w. w = v) rest)) (count_runs (v # rest) p)"
    using "2.IH" [OF _ k] l "2.prems"(2) by (simp add: Let_def k_def run_def)
  moreover from arg_cong [OF rest, of mset] have "mset (v # rest) = replicate_mset k v + mset (dropWhile (\<lambda>w. w = v) rest)"
    by (simp add: k_def run)
  ultimately show ?case by (simp add: ac_simps)
qed simp

lemma palette_ok_keys: "palette_ok M p \<Longrightarrow> fst ` set p = set_mset M"
  by (auto simp: palette_ok_def set_eq_iff dom_map_of_conv_image_fst [symmetric] dom_def)

lemma palette_ok_single:
  assumes "palette_ok (mset xs) p" "length p = 1"
  shows "xs = replicate (length xs) (fst (p ! 0))"
proof -
  obtain e where "p = [e]" using assms(2) by (cases p) auto
  then have "set xs = {fst e}" using palette_ok_keys [OF assms(1)] by simp
  then show ?thesis using \<open>p = [e]\<close> by (intro replicate_eqI) auto
qed

section \<open>Containers as lists of cells\<close>

definition dim_ok :: "nat \<Rightarrow> bool" where
  "dim_ok dim \<longleftrightarrow> 0 < dim \<and> dim * dim * dim + 1 < 2 ^ 16"

definition container_ok :: "nat \<Rightarrow> 'v PalettedContainer \<Rightarrow> bool" where
  "container_ok dim c \<longleftrightarrow> (case c of
     Homogeneous _ \<Rightarrow> True
   | Heterogeneous h \<Rightarrow> cube_ok dim (cube h) \<and> palette_ok (mset (het_values h)) (palette h) \<and> 2 \<le> length (palette h)
   | Building cb \<Rightarrow> cube_ok dim cb)"

lemma length_collect_values: "container_ok dim c \<Longrightarrow> length (collect_values dim c) = dim * dim * dim"
  by (cases c) (simp_all add: container_ok_def collect_values_def het_values_def length_cube_values)

text \<open>A palette never becomes empty: a container with cells is heterogeneous or homogeneous.\<close>

lemma palette_split:
  assumes "palette_ok (mset xs) p" "xs \<noteq> []"
  shows "length p = 1 \<or> 2 \<le> length p"
proof -
  have "p \<noteq> []" using palette_ok_keys [OF assms(1)] assms(2) by auto
  then show ?thesis by (cases p rule: list.exhaust [case_names Nil Cons]) (auto simp: Suc_le_eq)
qed

definition compact :: "'v HeterogeneousPalette \<Rightarrow> 'v PalettedContainer" where
  "compact h = (if length (palette h) = 1 then Homogeneous (fst (palette h ! 0)) else Heterogeneous h)"

lemma compact_ok:
  assumes "dim_ok dim" "cube_ok dim (cube h)" "palette_ok (mset (het_values h)) (palette h)"
  shows "container_ok dim (compact h)" "collect_values dim (compact h) = het_values h"
proof -
  have l: "length (het_values h) = dim * dim * dim" using length_cube_values [OF assms(2)] by (simp add: het_values_def)
  then have "het_values h \<noteq> []" using assms(1) by (auto simp: dim_ok_def)
  from palette_split [OF assms(3) this] show "container_ok dim (compact h)"
    using assms by (auto simp: compact_def container_ok_def)
  show "collect_values dim (compact h) = het_values h"
    using palette_ok_single [OF assms(3)] l by (simp add: compact_def collect_values_def)
qed

lemma from_cube_compact: "from_cube cb = compact \<lparr>cube = cb, palette = count_runs (cube_values cb) []\<rparr>"
  by (simp add: from_cube_def compact_def Let_def)

lemma from_cube_ok:
  assumes "dim_ok dim" "cube_ok dim cb"
  shows "container_ok dim (from_cube cb)" "collect_values dim (from_cube cb) = cube_values cb"
proof -
  have "palette_ok {#} []" by (simp add: palette_ok_def)
  from count_runs_ok [OF this, of "cube_values cb"]
  have "palette_ok (mset (cube_values cb)) (count_runs (cube_values cb) [])"
    using length_cube_values [OF assms(2)] assms(1) by (simp add: dim_ok_def)
  then show "container_ok dim (from_cube cb)" "collect_values dim (from_cube cb) = cube_values cb"
    using compact_ok [OF assms(1), of "\<lparr>cube = cb, palette = count_runs (cube_values cb) []\<rparr>"] assms(2)
    by (simp_all add: from_cube_compact het_values_def)
qed

lemma container_get_value:
  assumes "container_ok dim c" "x < dim" "y < dim" "z < dim"
  shows "container_get c x y z = Some (collect_values dim c ! cell_index dim x y z)"
proof (cases c)
  case (Homogeneous v)
  have "cell_index dim x y z < dim * dim * dim"
    using cube_cell(1) [OF cube_fill_ok(1) assms(2-4)] by (simp add: cube_fill_ok(2))
  then show ?thesis using Homogeneous by (simp add: container_get_def collect_values_def)
qed (use assms in \<open>auto simp: container_ok_def container_get_def collect_values_def het_get_def het_values_def cube_cell(2)\<close>)

lemma het_set_ok:
  assumes "dim_ok dim" "cube_ok dim (cube h)" "palette_ok (mset (het_values h)) (palette h)" "x < dim" "y < dim" "z < dim"
  obtains h' where "het_set h x y z v = Some (het_values h ! cell_index dim x y z, h')" "cube_ok dim (cube h')"
    "palette_ok (mset (het_values h')) (palette h')" "het_values h' = (het_values h)[cell_index dim x y z := v]"
proof -
  note c = cube_cell [OF assms(2) assms(4-6)]
  have "length (cube_values (cube h)) + 1 < 2 ^ 16" using length_cube_values [OF assms(2)] assms(1) by (simp add: dim_ok_def)
  from palette_replace_ok [OF assms(3) [unfolded het_values_def] c(1) this, of v]
  show ?thesis
    using c(2) c(3,4) [of v] by (intro that [of "\<lparr>cube = cube_store (cube h) x y z v,
      palette = palette_drop (cube_values (cube h) ! cell_index dim x y z) (palette_add v 1 (palette h))\<rparr>"])
      (simp_all add: het_set_def het_values_def)
qed

lemma container_set_value:
  assumes "dim_ok dim" "container_ok dim c" "x < dim" "y < dim" "z < dim"
  obtains c' where "container_set dim c x y z v = Some (collect_values dim c ! cell_index dim x y z, c')"
    "container_ok dim c'" "collect_values dim c' = (collect_values dim c)[cell_index dim x y z := v]"
proof (cases c)
  case (Homogeneous w)
  note f = cube_cell [OF cube_fill_ok(1) assms(3-5), of w] cube_fill_ok(2) [of dim w]
  have i: "cell_index dim x y z < dim * dim * dim" using f(1,5) by simp
  show ?thesis
  proof (cases "v = w")
    case True
    then show ?thesis using Homogeneous i by (intro that [of c]) (simp_all add: container_set_def collect_values_def container_ok_def, simp add: list_update_same_conv [THEN iffD2])
  next
    case False
    then show ?thesis using Homogeneous f i from_cube_ok [OF assms(1) f(4) [of v]]
      by (intro that [of "from_cube (cube_store (cube_fill dim w) x y z v)"]) (simp_all add: container_set_def collect_values_def)
  qed
next
  case (Heterogeneous h)
  then have h: "cube_ok dim (cube h)" "palette_ok (mset (het_values h)) (palette h)" using assms(2) by (simp_all add: container_ok_def)
  obtain h' where h': "het_set h x y z v = Some (het_values h ! cell_index dim x y z, h')" "cube_ok dim (cube h')"
    "palette_ok (mset (het_values h')) (palette h')" "het_values h' = (het_values h)[cell_index dim x y z := v]"
    using het_set_ok [OF assms(1) h assms(3-5)] .
  show ?thesis using compact_ok [OF assms(1) h'(2,3)] h'(1,4) Heterogeneous
    by (intro that [of "compact h'"]) (simp_all add: container_set_def collect_values_def compact_def)
next
  case (Building cb)
  then have "cube_ok dim cb" using assms(2) by (simp add: container_ok_def)
  from cube_cell [OF this assms(3-5)] show ?thesis using Building
    by (intro that [of "Building (cube_store cb x y z v)"]) (simp_all add: container_set_def collect_values_def container_ok_def)
qed

lemma container_get_at_index_value:
  assumes "container_ok dim c" "i < dim * dim * dim"
  shows "container_get_at_index dim c i = Some (collect_values dim c ! i)"
proof -
  note i = cell_index_split [OF assms(2)]
  have "container_get_at_index dim c i = container_get c (i mod dim) (i div (dim * dim)) (i div dim mod dim)"
    by (cases c) (simp_all add: container_get_at_index_def container_get_def het_get_at_index_def het_get_def Let_def)
  also have "\<dots> = Some (collect_values dim c ! i)" using container_get_value [OF assms(1) i(3,1,2)] i(4) by simp
  finally show ?thesis .
qed

lemma column_of:
  assumes "\<forall>y < dim. cube_get cb x y z = Some (f y)"
  shows "\<forall>y \<in> set [0..<dim]. cube_get cb x y z \<noteq> None"
    "map (\<lambda>y. the (cube_get cb x y z)) [0..<dim] = map f [0..<dim]"
  using assms by auto

lemma copy_column_value:
  assumes "container_ok dim c" "x < dim" "z < dim" "dim \<le> length out"
  shows "copy_column_into dim c x z out =
    Some (map (\<lambda>y. collect_values dim c ! cell_index dim x y z) [0..<dim] @ drop dim out)"
proof -
  have g: "container_get c x y z = Some (collect_values dim c ! cell_index dim x y z)" if "y < dim" for y
    using container_get_value [OF assms(1,2) that assms(3)] .
  show ?thesis
  proof (cases c)
    case (Homogeneous v)
    then have "map (\<lambda>y. collect_values dim c ! cell_index dim x y z) [0..<dim] = replicate dim v"
      using g by (intro replicate_eqI) (auto simp: container_get_def)
    then show ?thesis using Homogeneous assms(4) by (simp add: copy_column_into_def)
  next
    case (Heterogeneous h)
    then show ?thesis using g assms(4) column_of [of dim "cube h" x z "\<lambda>y. collect_values dim c ! cell_index dim x y z"]
      by (simp add: copy_column_into_def container_get_def het_get_def)
  next
    case (Building cb)
    then show ?thesis using g assms(4) column_of [of dim cb x z "\<lambda>y. collect_values dim c ! cell_index dim x y z"]
      by (simp add: copy_column_into_def container_get_def)
  qed
qed

lemma maybe_has_value:
  assumes "container_ok dim c" "0 < dim"
  shows "maybe_has f c \<longleftrightarrow> (\<exists>v \<in> set (collect_values dim c). f v)"
proof (cases c)
  case (Heterogeneous h)
  then have "fst ` set (palette h) = set (het_values h)"
    using assms(1) palette_ok_keys [of "mset (het_values h)" "palette h"] by (simp add: container_ok_def)
  moreover have "maybe_has f c \<longleftrightarrow> (\<exists>v \<in> fst ` set (palette h). f v)"
    using Heterogeneous by (simp add: maybe_has_def list_ex_iff split_def)
  ultimately show ?thesis using Heterogeneous by (simp add: collect_values_def)
qed (use assms in \<open>auto simp: maybe_has_def collect_values_def list_ex_iff\<close>)

lemma homogeneous_value:
  assumes "container_ok dim c" "0 < dim" "as_building_slice c = None"
  shows "(\<exists>w. c = Homogeneous w) \<longleftrightarrow> card (set (collect_values dim c)) = 1"
proof (cases c)
  case (Heterogeneous h)
  then have p: "palette_ok (mset (het_values h)) (palette h)" "2 \<le> length (palette h)" using assms(1) by (simp_all add: container_ok_def)
  have "card (set (het_values h)) = length (palette h)"
    using palette_ok_keys [OF p(1)] distinct_card [OF palette_okD(1) [OF p(1)]] by simp
  then show ?thesis using Heterogeneous p(2) by (simp add: collect_values_def)
qed (use assms in \<open>simp_all add: collect_values_def as_building_slice_def set_replicate_conv_if\<close>)

lemma building_values:
  assumes "dim_ok dim" "container_ok dim c"
  shows "container_ok dim (enter_building_mode dim c)" "collect_values dim (enter_building_mode dim c) = collect_values dim c"
    "container_ok dim (finalize_building c)" "collect_values dim (finalize_building c) = collect_values dim c"
    "as_building_slice (enter_building_mode dim c) = Some (collect_values dim c)"
    "as_building_slice (finalize_building c) = None"
proof -
  have "container_ok dim (enter_building_mode dim c) \<and> collect_values dim (enter_building_mode dim c) = collect_values dim c
    \<and> as_building_slice (enter_building_mode dim c) = Some (collect_values dim c)"
    using assms(2) by (cases c) (simp_all add: enter_building_mode_def container_ok_def collect_values_def het_values_def
      as_building_slice_def cube_fill_ok)
  then show "container_ok dim (enter_building_mode dim c)" "collect_values dim (enter_building_mode dim c) = collect_values dim c"
    "as_building_slice (enter_building_mode dim c) = Some (collect_values dim c)" by simp_all
  have "container_ok dim (finalize_building c) \<and> collect_values dim (finalize_building c) = collect_values dim c
    \<and> as_building_slice (finalize_building c) = None"
  proof (cases c)
    case (Building cb)
    then have "cube_ok dim cb" using assms(2) by (simp add: container_ok_def)
    from from_cube_ok [OF assms(1) this] show ?thesis using Building
      by (simp add: finalize_building_def collect_values_def as_building_slice_def) (simp add: from_cube_def Let_def)
  qed (use assms(2) in \<open>simp_all add: finalize_building_def as_building_slice_def\<close>)
  then show "container_ok dim (finalize_building c)" "collect_values dim (finalize_building c) = collect_values dim c"
    "as_building_slice (finalize_building c) = None" by simp_all
qed

section \<open>Block counts\<close>

lemma fold_counts: "fold (\<lambda>v count. if f v then count + (1 :: u16) else count) xs a = a + of_nat (length (filter f xs))"
  by (induction xs arbitrary: a) (simp_all add: ac_simps)

lemma fold_palette:
  "fold (\<lambda>(v, n) count. if f v then count + n else count) p (a :: u16) = a + sum_list (map snd (filter (f \<circ> fst) p))"
  by (induction p arbitrary: a) (auto simp: ac_simps)

lemma palette_ok_entries:
  assumes "palette_ok (mset xs) p"
  shows "map snd (filter (f \<circ> fst) p) = map (\<lambda>v. of_nat (count (mset xs) v)) (filter f (map fst p))"
proof -
  have "snd e = of_nat (count (mset xs) (fst e))" if "e \<in> set p" for e
    using palette_okD(3) [OF assms, of "fst e"] map_of_is_SomeI [OF palette_okD(1) [OF assms], of "fst e" "snd e"] that
    by (simp split: if_splits)
  then show ?thesis by (simp add: filter_map)
qed

lemma sum_counts: "finite A \<Longrightarrow> (\<Sum>v\<in>A. count (mset xs) v) = length (filter (\<lambda>v. v \<in> A) xs)"
proof (induction xs)
  case (Cons x xs)
  have "(\<Sum>v\<in>A. count (mset (x # xs)) v) = (\<Sum>v\<in>A. count (mset xs) v + (if x = v then 1 else 0))"
    by (intro sum.cong) simp_all
  also have "\<dots> = (\<Sum>v\<in>A. count (mset xs) v) + (if x \<in> A then 1 else 0)"
    using Cons.prems by (simp add: sum.distrib sum.delta)
  finally show ?case using Cons by simp
qed simp

lemma of_nat_sum_list: "of_nat (sum_list xs) = sum_list (map of_nat xs)"
  by (induction xs) simp_all

lemma palette_ok_total:
  assumes "palette_ok (mset xs) p"
  shows "sum_list (map snd (filter (f \<circ> fst) p)) = of_nat (length (filter f xs))"
proof -
  have "sum_list (map (count (mset xs)) (filter f (map fst p))) = (\<Sum>v\<in>set (filter f (map fst p)). count (mset xs) v)"
    using palette_okD(1) [OF assms] by (intro sum_list_distinct_conv_sum_set) simp
  also have "\<dots> = length (filter (\<lambda>v. v \<in> set (filter f (map fst p))) xs)" by (intro sum_counts) simp
  also have "\<dots> = length (filter f xs)"
    using palette_ok_keys [OF assms] by (intro arg_cong [of _ _ length] filter_cong) auto
  finally have "sum_list (map (count (mset xs)) (filter f (map fst p))) = length (filter f xs)" .
  from arg_cong [OF this, of "of_nat :: nat \<Rightarrow> u16"] show ?thesis
    unfolding palette_ok_entries [OF assms] unfolding of_nat_sum_list map_map comp_def .
qed

lemma non_empty_block_count_value:
  assumes "container_ok 16 c"
  shows "non_empty_block_count c = of_nat (length (filter (\<lambda>v. v \<noteq> 0) (collect_values 16 c)))"
proof (cases c)
  case (Heterogeneous h)
  then have "palette_ok (mset (het_values h)) (palette h)" using assms by (simp add: container_ok_def)
  from palette_ok_total [OF this, of "\<lambda>v. v \<noteq> 0"] show ?thesis
    using Heterogeneous by (simp add: non_empty_block_count_def fold_palette collect_values_def)
qed (simp_all add: non_empty_block_count_def fold_counts collect_values_def)

lemma has_only_air_sound: "has_only_air is_air c \<Longrightarrow> list_all is_air (collect_values dim c)"
  by (cases c) (auto simp: has_only_air_def collect_values_def list_all_iff)

section \<open>Reachable containers\<close>

text \<open>The containers the operations build, with the list of cells each is meant to hold.\<close>

inductive container_reach :: "nat \<Rightarrow> 'v PalettedContainer \<Rightarrow> 'v list \<Rightarrow> bool" for dim where
  filled: "container_reach dim (Homogeneous v) (replicate (dim * dim * dim) v)"
| of_cube: "cube_ok dim cb \<Longrightarrow> container_reach dim (from_cube cb) (cube_values cb)"
| set_cell: "container_reach dim c vs \<Longrightarrow> x < dim \<Longrightarrow> y < dim \<Longrightarrow> z < dim \<Longrightarrow>
    container_set dim c x y z v = Some (old, c') \<Longrightarrow> container_reach dim c' (vs[cell_index dim x y z := v])"
| enter: "container_reach dim c vs \<Longrightarrow> container_reach dim (enter_building_mode dim c) vs"
| slice: "container_reach dim (Building cb) vs \<Longrightarrow> cube_ok dim cb' \<Longrightarrow> container_reach dim (Building cb') (cube_values cb')"
| finish: "container_reach dim c vs \<Longrightarrow> container_reach dim (finalize_building c) vs"

lemma container_reach_ok:
  assumes "dim_ok dim" "container_reach dim c vs"
  shows "container_ok dim c \<and> collect_values dim c = vs"
  using assms(2)
proof induction
  case (set_cell c vs x y z v old c')
  then show ?case
    using container_set_value [OF assms(1) conjunct1 [OF set_cell.IH], of x y z v] by auto
qed (use assms(1) in \<open>auto simp: from_cube_ok building_values, auto simp: container_ok_def collect_values_def\<close>)

text \<open>However a container was built (filled, from a cube, by writes of cells, through building mode
  and back), it stands for one list of cells: it keeps the palette invariant, and the cell at
  coordinates, the cell at a linear index, a column and the list of all cells are those of the list.
\<close>

lemma container_reads_cells:
  assumes "dim_ok dim" "container_reach dim c vs"
  shows "container_ok dim c \<and> collect_values dim c = vs \<and> length vs = dim * dim * dim
    \<and> (\<forall>x < dim. \<forall>y < dim. \<forall>z < dim. container_get c x y z = Some (vs ! cell_index dim x y z))
    \<and> (\<forall>i < dim * dim * dim. container_get_at_index dim c i = Some (vs ! i))
    \<and> (\<forall>x < dim. \<forall>z < dim. \<forall>out. dim \<le> length out \<longrightarrow>
        copy_column_into dim c x z out = Some (map (\<lambda>y. vs ! cell_index dim x y z) [0..<dim] @ drop dim out))"
proof -
  from container_reach_ok [OF assms] have "container_ok dim c" "collect_values dim c = vs" by simp_all
  then show ?thesis
    using container_get_value container_get_at_index_value copy_column_value length_collect_values by blast
qed

text \<open>C17: A write of a cell never panics inside the cube; it returns the previous value, changes exactly
  that cell, and keeps the palette exact: a value is in the palette when some cell holds it, the
  container collapses to the homogeneous form exactly when one value is left outside building mode.
\<close>

theorem container_set_replaces_cell:
  assumes "dim_ok dim" "container_reach dim c vs" "x < dim" "y < dim" "z < dim"
  shows "\<exists>c'. container_set dim c x y z v = Some (vs ! cell_index dim x y z, c')
    \<and> container_reach dim c' (vs[cell_index dim x y z := v])
    \<and> (\<forall>f. maybe_has f c' \<longleftrightarrow> (\<exists>w \<in> set (vs[cell_index dim x y z := v]). f w))
    \<and> (as_building_slice c' = None \<longrightarrow>
        ((\<exists>w. c' = Homogeneous w) \<longleftrightarrow> card (set (vs[cell_index dim x y z := v])) = 1))"
proof -
  from container_reach_ok [OF assms(1,2)] have c: "container_ok dim c" "collect_values dim c = vs" by simp_all
  obtain c' where c': "container_set dim c x y z v = Some (vs ! cell_index dim x y z, c')" "container_ok dim c'"
    "collect_values dim c' = vs[cell_index dim x y z := v]"
    using container_set_value [OF assms(1) c(1) assms(3-5), of v] c(2) by auto
  have "0 < dim" using assms(3) by simp
  then show ?thesis
    using c' container_reach.set_cell [OF assms(2-5) c'(1)] maybe_has_value [OF c'(2)] homogeneous_value [OF c'(2)] by auto
qed

theorem container_set_replaces_cell_witness:
  "\<exists>c'. container_set 2 (Homogeneous (7 :: nat)) 1 0 1 9 = Some (7, c') \<and> container_reach 2 c' [7, 7, 7, 9, 7, 7, 7, 7]
    \<and> maybe_has (\<lambda>w. w = 9) c'"
proof -
  have "dim_ok 2" by (simp add: dim_ok_def)
  from container_set_replaces_cell [OF this container_reach.filled [of 2 "7 :: nat"], of 1 0 1 9]
  show ?thesis by (auto simp: cell_index_def eval_nat_numeral)
qed

text \<open>The counts a section derives from its block palette are exact however the palette was built:
  the number of non-empty blocks fits its word, a predicate holds of some palette value exactly when
  it holds of some cell, and a palette reported as only air has no other block. The converse holds
  except for a palette of several kinds of air.
\<close>

lemma block_counts_exact:
  assumes "container_reach 16 c vs"
  shows "unat (non_empty_block_count c) = length (filter (\<lambda>v. v \<noteq> 0) vs)
    \<and> (maybe_has f c \<longleftrightarrow> (\<exists>v \<in> set vs. f v))
    \<and> (has_only_air is_air c \<longleftrightarrow> list_all is_air vs \<and> (\<forall>h. c \<noteq> Heterogeneous h))"
proof -
  have "dim_ok 16" by (simp add: dim_ok_def)
  from container_reach_ok [OF this assms] have c: "container_ok 16 c" "collect_values 16 c = vs" by simp_all
  have "length vs = 4096" using length_collect_values [OF c(1)] c(2) by simp
  then have "length (filter (\<lambda>v. v \<noteq> 0) vs) \<le> 4096" by (metis length_filter_le)
  then have "unat (of_nat (length (filter (\<lambda>v. v \<noteq> 0) vs)) :: u16) = length (filter (\<lambda>v. v \<noteq> 0) vs)"
    by (simp add: unat_of_nat)
  moreover have "has_only_air is_air c \<longleftrightarrow> list_all is_air vs \<and> (\<forall>h. c \<noteq> Heterogeneous h)"
    using c(2) [symmetric] by (cases c) (simp_all add: has_only_air_def collect_values_def list_all_iff)
  ultimately show ?thesis
    using non_empty_block_count_value [OF c(1)] maybe_has_value [OF c(1)] c(2) by simp
qed

end
