(* ===== verification/Stable_Air.thy ===== *)
theory Stable_Air
  imports Block_Registry Paletted_Container
begin

text \<open>
  The stable-air certificate of a section, \<open>StableAirOccupancy\<close> of
  \<open>steel-core/src/chunk/section.rs\<close>: which blocks of a section are not one of the three immutable air
  blocks, as bit rows that are maintained along with the writes. Block states are looked up in the
  block registry; an unregistered state or a row out of range is the panic \<open>None\<close>, and the debug
  assertions of the source are left out. The ids of the generated block table are parameters.
\<close>

section \<open>Block states\<close>

record StateInfo =
  info_registry :: BlockRegistry
  air_state :: u16
  cave_air_state :: u16
  void_air_state :: u16
  plains_biome :: u16

definition state_is_air :: "StateInfo \<Rightarrow> u16 \<Rightarrow> bool option" where
  "state_is_air g state = map_option metadata_is_air (get_ticking_metadata (info_registry g) state)"

definition is_stable_vanilla_air :: "StateInfo \<Rightarrow> u16 \<Rightarrow> bool option" where
  "is_stable_vanilla_air g state =
    map_option (\<lambda>air. air \<and> (state = air_state g \<or> state = cave_air_state g \<or> state = void_air_state g)) (state_is_air g state)"

section \<open>Occupancy\<close>

definition BLOCKS_PER_SECTION :: u16 where
  "BLOCKS_PER_SECTION = of_nat (16 * 16 * 16)"

definition STABLE_AIR_OCCUPANCY_ROW_COUNT :: nat where
  "STABLE_AIR_OCCUPANCY_ROW_COUNT = 16 * 16"

datatype StableAirOccupancy = Unknown | Empty | Full | Mixed "u16 list" u16

text \<open>The pass over the palette: the air states and the number of other blocks.\<close>

fun classify_palette :: "StateInfo \<Rightarrow> (u16 \<times> u16) list \<Rightarrow> u16 list \<Rightarrow> u16 \<Rightarrow> (u16 list \<times> u16) option" where
  "classify_palette g [] air_states occupied_count = Some (air_states, occupied_count)"
| "classify_palette g ((state, n) # entries) air_states occupied_count =
    (case is_stable_vanilla_air g state of
       None \<Rightarrow> None
     | Some stable_air \<Rightarrow>
         if stable_air then classify_palette g entries (air_states @ [state]) occupied_count
         else classify_palette g entries air_states (occupied_count + n))"

text \<open>The pass over the cells, sixteen of which make a row.\<close>

fun mark_rows :: "u16 list \<Rightarrow> nat \<Rightarrow> u16 list \<Rightarrow> u16 list \<Rightarrow> u16 list" where
  "mark_rows air_states index [] rows = rows"
| "mark_rows air_states index (state # states) rows =
    mark_rows air_states (Suc index) states
      (if state \<notin> set air_states then rows[index div 16 := or (rows ! (index div 16)) (push_bit (index mod 16) 1)] else rows)"

definition occupancy_from_palette :: "StateInfo \<Rightarrow> u16 PalettedContainer \<Rightarrow> StableAirOccupancy option" where
  "occupancy_from_palette g c = (case c of
     Homogeneous state \<Rightarrow> map_option (\<lambda>stable_air. if stable_air then Empty else Full) (is_stable_vanilla_air g state)
   | Heterogeneous h \<Rightarrow>
       map_option (\<lambda>(air_states, occupied_count).
         if air_states = [] then Full
         else if occupied_count = 0 then Empty
         else Mixed (mark_rows air_states 0 (het_values h) (replicate STABLE_AIR_OCCUPANCY_ROW_COUNT 0)) occupied_count)
       (classify_palette g (palette h) [] 0)
   | Building _ \<Rightarrow> Some Unknown)"

definition record_change ::
  "StateInfo \<Rightarrow> nat \<Rightarrow> nat \<Rightarrow> nat \<Rightarrow> u16 \<Rightarrow> u16 \<Rightarrow> StableAirOccupancy \<Rightarrow> StableAirOccupancy option" where
  "record_change g x y z old_state new_state occupancy =
    (case (is_stable_vanilla_air g old_state, is_stable_vanilla_air g new_state) of
       (Some old_stable, Some new_stable) \<Rightarrow>
         if old_stable = new_stable \<or> occupancy = Unknown then Some occupancy
         else
           let row_index = y * 16 + z; bit = push_bit x 1 in
           if STABLE_AIR_OCCUPANCY_ROW_COUNT \<le> row_index then None
           else Some (case occupancy of
             Unknown \<Rightarrow> Unknown
           | Empty \<Rightarrow> Mixed ((replicate STABLE_AIR_OCCUPANCY_ROW_COUNT 0)[row_index := bit]) 1
           | Full \<Rightarrow> Mixed ((replicate STABLE_AIR_OCCUPANCY_ROW_COUNT 0xFFFF)[row_index := and 0xFFFF (not bit)]) (BLOCKS_PER_SECTION - 1)
           | Mixed rows occupied_count \<Rightarrow>
               if \<not> new_stable
               then (if occupied_count + 1 = BLOCKS_PER_SECTION then Full
                     else Mixed (rows[row_index := or (rows ! row_index) bit]) (occupied_count + 1))
               else (if occupied_count - 1 = 0 then Empty
                     else Mixed (rows[row_index := and (rows ! row_index) (not bit)]) (occupied_count - 1)))
     | _ \<Rightarrow> None)"

text \<open>The mask of the cells between two coordinates of a row, and the rows of a box.\<close>

definition x_mask :: "nat \<Rightarrow> nat \<Rightarrow> u16" where
  "x_mask min_x max_x =
    (let below_max = (if max_x = 16 - 1 then 0xFFFF else push_bit (max_x + 1) 1 - 1) in and below_max (push_bit min_x 0xFFFF))"

fun rows_clear :: "u16 list \<Rightarrow> u16 \<Rightarrow> nat list \<Rightarrow> bool option" where
  "rows_clear rows m [] = Some True"
| "rows_clear rows m (i # is) =
    (if i < length rows then (if and (rows ! i) m \<noteq> 0 then Some False else rows_clear rows m is) else None)"

definition box_is_clear :: "StableAirOccupancy \<Rightarrow> nat \<Rightarrow> nat \<Rightarrow> nat \<Rightarrow> nat \<Rightarrow> nat \<Rightarrow> nat \<Rightarrow> bool option" where
  "box_is_clear occupancy min_x max_x min_y max_y min_z max_z = (case occupancy of
     Mixed rows _ \<Rightarrow>
       rows_clear rows (x_mask min_x max_x) (concat (map (\<lambda>y. map (\<lambda>z. y * 16 + z) [min_z..<Suc max_z]) [min_y..<Suc max_y]))
   | Empty \<Rightarrow> Some True
   | _ \<Rightarrow> Some False)"

section \<open>The certificate is sound\<close>

definition occupied :: "StateInfo \<Rightarrow> u16 \<Rightarrow> bool" where
  "occupied g v \<longleftrightarrow> is_stable_vanilla_air g v = Some False"

definition known_states :: "StateInfo \<Rightarrow> u16 set" where
  "known_states g = {v. is_stable_vanilla_air g v \<noteq> None}"

definition occupancy_ok :: "StateInfo \<Rightarrow> StableAirOccupancy \<Rightarrow> u16 list \<Rightarrow> bool" where
  "occupancy_ok g occupancy vs = (case occupancy of
     Unknown \<Rightarrow> True
   | Empty \<Rightarrow> (\<forall>v \<in> set vs. \<not> occupied g v)
   | Full \<Rightarrow> (\<forall>v \<in> set vs. occupied g v)
   | Mixed rows n \<Rightarrow> length rows = 256 \<and> n = of_nat (length (filter (occupied g) vs))
       \<and> (\<forall>i < length vs. bit (rows ! (i div 16)) (i mod 16) \<longleftrightarrow> occupied g (vs ! i)))"

lemma known_stable: "v \<in> known_states g \<Longrightarrow> is_stable_vanilla_air g v = Some (\<not> occupied g v)"
  by (auto simp: known_states_def occupied_def)

lemma classify_palette_value:
  "fst ` set p \<subseteq> known_states g \<Longrightarrow> classify_palette g p airs n =
    Some (airs @ filter (\<lambda>v. \<not> occupied g v) (map fst p), n + sum_list (map snd (filter (occupied g \<circ> fst) p)))"
proof (induction p arbitrary: airs n)
  case (Cons e p)
  then show ?case by (cases e; cases "occupied g (fst e)") (simp_all add: known_stable add.assoc)
qed simp

lemma row_cell: "x < 16 \<Longrightarrow> (k div 16 = j \<and> k mod 16 = x) \<longleftrightarrow> k = j * 16 + x" for k j x :: nat
  using div_mult_mod_eq [of k 16] by auto

lemma row_bits:
  assumes "length rows = 256" "j < 256" "x < 16" "k < 4096"
  shows "bit (rows[j := or (rows ! j) (push_bit x (1 :: u16))] ! (k div 16)) (k mod 16) \<longleftrightarrow> k = j * 16 + x \<or> bit (rows ! (k div 16)) (k mod 16)"
    "bit (rows[j := and (rows ! j) (not (push_bit x (1 :: u16)))] ! (k div 16)) (k mod 16) \<longleftrightarrow> k \<noteq> j * 16 + x \<and> bit (rows ! (k div 16)) (k mod 16)"
  using assms row_cell [OF assms(3), of k j, symmetric] by (auto simp: nth_list_update bit_simps)

lemma mark_rows_bits:
  assumes "index + length vs \<le> 4096" "length rows = 256" "k < 4096"
  shows "length (mark_rows airs index vs rows) = 256 \<and> (bit (mark_rows airs index vs rows ! (k div 16)) (k mod 16) \<longleftrightarrow>
      bit (rows ! (k div 16)) (k mod 16) \<or> (index \<le> k \<and> k < index + length vs \<and> vs ! (k - index) \<notin> set airs))"
  using assms(1,2)
proof (induction vs arbitrary: index rows)
  case (Cons v vs)
  define rows' where "rows' = (if v \<notin> set airs then rows[index div 16 := or (rows ! (index div 16)) (push_bit (index mod 16) 1)] else rows)"
  have "index div 16 < 256" using Cons.prems(1) by simp
  then have r: "length rows' = 256" "bit (rows' ! (k div 16)) (k mod 16) \<longleftrightarrow> (k = index \<and> v \<notin> set airs) \<or> bit (rows ! (k div 16)) (k mod 16)"
    using row_bits(1) [OF Cons.prems(2), of "index div 16" "index mod 16" k] Cons.prems(2) assms(3) by (auto simp: rows'_def)
  have "(v # vs) ! (k - index) = (if k = index then v else vs ! (k - Suc index))" if "index \<le> k"
    using that by (auto simp: nth_Cons')
  then show ?case using Cons.IH [of "Suc index" rows'] Cons.prems(1) r
    by (cases "k = index"; cases "index < k") (auto simp: rows'_def [symmetric])
qed auto

lemma update_count:
  assumes "i < length vs"
  shows "length (filter f (vs[i := v])) + (if f (vs ! i) then 1 else 0) = length (filter f vs) + (if f v then 1 else 0)"
proof -
  have "vs = take i vs @ vs ! i # drop (Suc i) vs" using assms by (rule id_take_nth_drop)
  then have l: "filter f vs = filter f (take i vs) @ filter f (vs ! i # drop (Suc i) vs)" by (metis filter_append)
  show ?thesis unfolding l upd_conv_take_nth_drop [OF assms] by simp
qed

lemma counted_word:
  assumes "length vs = 4096"
  shows "unat (of_nat (length (filter f vs)) :: u16) = length (filter f vs)" "length (filter f vs) \<le> 4096"
proof -
  show "length (filter f vs) \<le> 4096" using length_filter_le [of f vs] assms by linarith
  then show "unat (of_nat (length (filter f vs)) :: u16) = length (filter f vs)" by (intro unat_of_nat_small) simp
qed

lemma of_nat_count_0: "length vs = 4096 \<Longrightarrow> of_nat (length (filter f vs)) = (0 :: u16) \<longleftrightarrow> (\<forall>v \<in> set vs. \<not> f v)"
  using counted_word [of vs f] by (auto simp: word_unat_eq_iff filter_empty_conv)

lemma of_nat_count_all: "length vs = 4096 \<Longrightarrow> of_nat (length (filter f vs)) = BLOCKS_PER_SECTION \<longleftrightarrow> (\<forall>v \<in> set vs. f v)"
proof -
  assume l: "length vs = 4096"
  have "of_nat (length (filter f vs)) = BLOCKS_PER_SECTION \<longleftrightarrow> length (filter f vs) = length vs"
    using counted_word(1) [OF l, of f] l by (simp add: word_unat_eq_iff BLOCKS_PER_SECTION_def)
  also have "\<dots> \<longleftrightarrow> (\<forall>v \<in> set vs. f v)"
    by (metis filter_True length_filter_less less_irrefl)
  finally show ?thesis .
qed

lemma occupancy_from_palette_ok:
  assumes "container_ok 16 c" "set (collect_values 16 c) \<subseteq> known_states g"
  shows "\<exists>occ. occupancy_from_palette g c = Some occ \<and> occupancy_ok g occ (collect_values 16 c)
    \<and> (as_building_slice c = None \<longrightarrow> occ \<noteq> Unknown)"
proof (cases c)
  case (Homogeneous v)
  then have "v \<in> known_states g" using assms(2) by (simp add: collect_values_def)
  then show ?thesis using Homogeneous by (simp add: occupancy_from_palette_def known_stable occupancy_ok_def collect_values_def)
next
  case (Heterogeneous h)
  define vs where "vs = het_values h"
  have c: "collect_values 16 c = vs" "palette_ok (mset vs) (palette h)" "length vs = 4096"
    using Heterogeneous assms(1) length_collect_values [OF assms(1)] by (simp_all add: collect_values_def container_ok_def vs_def)
  have keys: "fst ` set (palette h) = set vs" using palette_ok_keys [OF c(2)] by simp
  define airs where "airs = filter (\<lambda>v. \<not> occupied g v) (map fst (palette h))"
  define n where "n = (of_nat (length (filter (occupied g) vs)) :: u16)"
  have cl: "classify_palette g (palette h) [] 0 = Some (airs, n)"
    using classify_palette_value [of "palette h" g "[]" 0] keys assms(2) c(1) palette_ok_total [OF c(2), of "occupied g"]
    by (simp add: airs_def n_def)
  have airs: "v \<in> set airs \<longleftrightarrow> v \<in> set vs \<and> \<not> occupied g v" for v using keys by (auto simp: airs_def)
  have "bit (mark_rows airs 0 vs (replicate 256 0) ! (k div 16)) (k mod 16) \<longleftrightarrow> occupied g (vs ! k)" if "k < 4096" for k
    using mark_rows_bits [of 0 vs "replicate 256 0" k airs] that c(3) airs [of "vs ! k"] by simp
  moreover have "airs = [] \<longleftrightarrow> (\<forall>v \<in> set vs. occupied g v)" using airs by (metis list.set_cases neq_Nil_conv list.set_intros(1))
  moreover have "n = 0 \<longleftrightarrow> (\<forall>v \<in> set vs. \<not> occupied g v)" using of_nat_count_0 [OF c(3)] by (simp add: n_def)
  moreover have "length (mark_rows airs 0 vs (replicate 256 0)) = 256" using mark_rows_bits [of 0 vs "replicate 256 0" 0 airs] c(3) by simp
  ultimately show ?thesis using Heterogeneous c cl
    by (simp add: occupancy_from_palette_def vs_def [symmetric] STABLE_AIR_OCCUPANCY_ROW_COUNT_def occupancy_ok_def n_def)
qed (simp add: occupancy_from_palette_def occupancy_ok_def as_building_slice_def)

text \<open>A write that keeps, sets or clears the occupancy of its cell.\<close>

lemma occupancy_keep:
  assumes "occupancy_ok g occ vs" "i < length vs" "occupied g (vs ! i) = occupied g v"
  shows "occupancy_ok g occ (vs[i := v])"
proof -
  have c: "length (filter (occupied g) (vs[i := v])) = length (filter (occupied g) vs)"
    using update_count [OF assms(2), of "occupied g" v] assms(3) by simp
  have n: "occupied g (vs[i := v] ! k) = occupied g (vs ! k)" if "k < length vs" for k
    using that assms(3) by (cases "k = i") simp_all
  then have "(\<forall>w \<in> set (vs[i := v]). P (occupied g w)) \<longleftrightarrow> (\<forall>w \<in> set vs. P (occupied g w))" for P
    by (simp add: all_set_conv_all_nth)
  from this [of "\<lambda>b. b"] this [of "\<lambda>b. \<not> b"] show ?thesis
    using assms(1) c n by (cases occ) (simp_all add: occupancy_ok_def)
qed

lemma occupancy_set:
  assumes "occupancy_ok g occ vs" "length vs = 4096" "j < 256" "x < 16" "\<not> occupied g (vs ! (j * 16 + x))" "occupied g v"
  shows "occupancy_ok g (case occ of
       Empty \<Rightarrow> Mixed ((replicate 256 0)[j := push_bit x 1]) 1
     | Mixed rows n \<Rightarrow> if n + 1 = BLOCKS_PER_SECTION then Full else Mixed (rows[j := or (rows ! j) (push_bit x 1)]) (n + 1)
     | _ \<Rightarrow> Unknown) (vs[j * 16 + x := v]) \<and> occ \<noteq> Full"
proof -
  let ?i = "j * 16 + x"
  have i: "?i < length vs" using assms(2-4) by simp
  have l: "length (vs[?i := v]) = 4096" using assms(2) by simp
  have c: "length (filter (occupied g) (vs[?i := v])) = Suc (length (filter (occupied g) vs))"
    using update_count [OF i, of "occupied g" v] assms(5,6) by simp
  have u: "occupied g (vs[?i := v] ! k) \<longleftrightarrow> k = ?i \<or> occupied g (vs ! k)" if "k < 4096" for k
    using that assms(2,6) by (cases "k = ?i") simp_all
  have mixed: "occupancy_ok g (Mixed (rows[j := or (rows ! j) (push_bit x 1)]) (of_nat (length (filter (occupied g) vs)) + 1)) (vs[?i := v])"
    if "length rows = 256" "\<forall>k < 4096. bit (rows ! (k div 16)) (k mod 16) \<longleftrightarrow> occupied g (vs ! k)" for rows
    using that row_bits(1) [OF that(1) assms(3,4)] u c assms(2) by (simp add: occupancy_ok_def add.commute)
  show ?thesis
  proof (cases occ)
    case Empty
    then have e: "\<forall>w \<in> set vs. \<not> occupied g w" using assms(1) by (simp add: occupancy_ok_def)
    then have "length (filter (occupied g) vs) = 0" by simp
    with mixed [of "replicate 256 0"] e assms(2,3) Empty show ?thesis by simp
  next
    case Full
    then show ?thesis using assms(1,5) nth_mem [OF i] by (auto simp: occupancy_ok_def)
  next
    case (Mixed rows n)
    then have m: "length rows = 256" "n = of_nat (length (filter (occupied g) vs))"
      "\<forall>k < 4096. bit (rows ! (k div 16)) (k mod 16) \<longleftrightarrow> occupied g (vs ! k)"
      using assms(1,2) by (simp_all add: occupancy_ok_def)
    have "n + 1 = BLOCKS_PER_SECTION \<longleftrightarrow> (\<forall>w \<in> set (vs[?i := v]). occupied g w)"
      using of_nat_count_all [OF l, of "occupied g"] c m(2) by (simp add: add.commute)
    then show ?thesis using Mixed mixed [OF m(1,3)] m(2) by (simp add: occupancy_ok_def)
  qed (simp add: occupancy_ok_def)
qed

lemma occupancy_clear:
  assumes "occupancy_ok g occ vs" "length vs = 4096" "j < 256" "x < 16" "occupied g (vs ! (j * 16 + x))" "\<not> occupied g v"
  shows "occupancy_ok g (case occ of
       Full \<Rightarrow> Mixed ((replicate 256 0xFFFF)[j := and 0xFFFF (not (push_bit x 1))]) (BLOCKS_PER_SECTION - 1)
     | Mixed rows n \<Rightarrow> if n - 1 = 0 then Empty else Mixed (rows[j := and (rows ! j) (not (push_bit x 1))]) (n - 1)
     | _ \<Rightarrow> Unknown) (vs[j * 16 + x := v]) \<and> occ \<noteq> Empty"
proof -
  let ?i = "j * 16 + x"
  have i: "?i < length vs" using assms(2-4) by simp
  have l: "length (vs[?i := v]) = 4096" using assms(2) by simp
  have c: "length (filter (occupied g) vs) = Suc (length (filter (occupied g) (vs[?i := v])))"
    using update_count [OF i, of "occupied g" v] assms(5,6) by simp
  have u: "occupied g (vs[?i := v] ! k) \<longleftrightarrow> k \<noteq> ?i \<and> occupied g (vs ! k)" if "k < 4096" for k
    using that assms(2,6) by (cases "k = ?i") simp_all
  have mixed: "occupancy_ok g (Mixed (rows[j := and (rows ! j) (not (push_bit x 1))]) (of_nat (length (filter (occupied g) vs)) - 1)) (vs[?i := v])"
    if "length rows = 256" "\<forall>k < 4096. bit (rows ! (k div 16)) (k mod 16) \<longleftrightarrow> occupied g (vs ! k)" for rows
    using that row_bits(2) [OF that(1) assms(3,4)] u c assms(2) by (simp add: occupancy_ok_def)
  show ?thesis
  proof (cases occ)
    case Full
    then have e: "\<forall>w \<in> set vs. occupied g w" using assms(1) by (simp add: occupancy_ok_def)
    then have "of_nat (length (filter (occupied g) vs)) = BLOCKS_PER_SECTION" using assms(2) by (simp add: BLOCKS_PER_SECTION_def)
    moreover have "bit (replicate 256 (0xFFFF :: u16) ! (k div 16)) (k mod 16) \<longleftrightarrow> occupied g (vs ! k)" if "k < 4096" for k
    proof -
      have "(0xFFFF :: u16) = - 1" by simp
      then show ?thesis using that e assms(2) by (simp only: nth_replicate) (simp add: bit_minus_1_iff)
    qed
    ultimately show ?thesis using mixed [of "replicate 256 0xFFFF"] assms(3) Full by simp
  next
    case Empty
    then show ?thesis using assms(1,5) nth_mem [OF i] by (auto simp: occupancy_ok_def)
  next
    case (Mixed rows n)
    then have m: "length rows = 256" "n = of_nat (length (filter (occupied g) vs))"
      "\<forall>k < 4096. bit (rows ! (k div 16)) (k mod 16) \<longleftrightarrow> occupied g (vs ! k)"
      using assms(1,2) by (simp_all add: occupancy_ok_def)
    have "n - 1 = 0 \<longleftrightarrow> (\<forall>w \<in> set (vs[?i := v]). \<not> occupied g w)"
      using of_nat_count_0 [OF l, of "occupied g"] c m(2) by simp
    then show ?thesis using Mixed mixed [OF m(1,3)] m(2) by (simp add: occupancy_ok_def)
  qed (simp add: occupancy_ok_def)
qed

lemma record_change_ok:
  assumes "occupancy_ok g occ vs" "length vs = 4096" "x < 16" "y < 16" "z < 16" "set vs \<subseteq> known_states g" "v \<in> known_states g"
  shows "\<exists>occ'. record_change g x y z (vs ! cell_index 16 x y z) v occ = Some occ'
    \<and> occupancy_ok g occ' (vs[cell_index 16 x y z := v])"
proof -
  define j where "j = y * 16 + z"
  have i: "cell_index 16 x y z = j * 16 + x" "j < 256" "j * 16 + x < length vs" using assms(2-5) by (simp_all add: j_def cell_index_def)
  have "vs ! (j * 16 + x) \<in> known_states g" using assms(6) nth_mem [OF i(3)] by blast
  note st = known_stable [OF this] known_stable [OF assms(7)]
  note rc = record_change_def [of g x y z "vs ! (j * 16 + x)" v, unfolded st, folded j_def]
  show ?thesis
  proof (cases "occupied g (vs ! (j * 16 + x))"; cases "occupied g v")
    assume "occupied g (vs ! (j * 16 + x))" "\<not> occupied g v"
    with occupancy_clear [OF assms(1,2) i(2) assms(3) this] show ?thesis
      by (cases occ) (simp_all add: rc i(1) not_le [THEN iffD2, OF i(2)] Let_def STABLE_AIR_OCCUPANCY_ROW_COUNT_def split: if_splits)
  next
    assume "\<not> occupied g (vs ! (j * 16 + x))" "occupied g v"
    with occupancy_set [OF assms(1,2) i(2) assms(3) this] show ?thesis
      by (cases occ) (simp_all add: rc i(1) not_le [THEN iffD2, OF i(2)] Let_def STABLE_AIR_OCCUPANCY_ROW_COUNT_def split: if_splits)
  qed (use occupancy_keep [OF assms(1) i(3)] in \<open>simp_all add: rc i(1)\<close>)
qed

section \<open>Boxes\<close>

lemma bit_x_mask: "max_x < 16 \<Longrightarrow> k < 16 \<Longrightarrow> bit (x_mask min_x max_x) k \<longleftrightarrow> min_x \<le> k \<and> k \<le> max_x"
proof -
  assume "max_x < 16" "k < 16"
  have f: "(0xFFFF :: u16) = - 1" by simp
  have "bit (push_bit (max_x + 1) 1 - 1 :: u16) k \<longleftrightarrow> k \<le> max_x" using \<open>k < 16\<close> \<open>max_x < 16\<close>
    by (simp add: mask_eq_exp_minus_1 [symmetric] bit_mask_iff less_Suc_eq_le del: power_Suc)
  then show ?thesis using \<open>k < 16\<close> \<open>max_x < 16\<close>
    unfolding x_mask_def Let_def f by (auto simp: bit_and_iff bit_push_bit_iff bit_not_iff bit_mask_iff)
qed

lemma rows_clear_value: "\<forall>i \<in> set is. i < length rows \<Longrightarrow> rows_clear rows m is = Some (\<forall>i \<in> set is. and (rows ! i) m = 0)"
  by (induction "is") auto

definition in_box :: "nat \<Rightarrow> nat \<Rightarrow> nat \<Rightarrow> nat \<Rightarrow> nat \<Rightarrow> nat \<Rightarrow> nat \<Rightarrow> nat \<Rightarrow> nat \<Rightarrow> bool" where
  "in_box min_x max_x min_y max_y min_z max_z x y z \<longleftrightarrow>
    min_x \<le> x \<and> x \<le> max_x \<and> min_y \<le> y \<and> y \<le> max_y \<and> min_z \<le> z \<and> z \<le> max_z"

text \<open>A clear box has only stable air; a known occupancy misses no clear box.\<close>

lemma box_is_clear_exact:
  assumes "occupancy_ok g occ vs" "length vs = 4096" "max_x < 16" "max_y < 16" "max_z < 16" "occ \<noteq> Unknown"
    "min_x \<le> max_x" "min_y \<le> max_y" "min_z \<le> max_z"
  shows "box_is_clear occ min_x max_x min_y max_y min_z max_z = Some (\<forall>x y z. in_box min_x max_x min_y max_y min_z max_z x y z \<longrightarrow>
    \<not> occupied g (vs ! cell_index 16 x y z))"
proof (cases occ)
  case (Mixed rows n)
  then have m: "length rows = 256" "\<forall>k < 4096. bit (rows ! (k div 16)) (k mod 16) \<longleftrightarrow> occupied g (vs ! k)"
    using assms(1,2) by (simp_all add: occupancy_ok_def)
  let ?is = "concat (map (\<lambda>y. map (\<lambda>z. y * 16 + z) [min_z..<Suc max_z]) [min_y..<Suc max_y])"
  have row: "and (rows ! (y * 16 + z)) (x_mask min_x max_x) = 0 \<longleftrightarrow> (\<forall>x. min_x \<le> x \<and> x \<le> max_x \<longrightarrow> \<not> occupied g (vs ! cell_index 16 x y z))"
    if "y < 16" "z < 16" for y z
  proof -
    have c: "bit (rows ! (y * 16 + z)) x \<longleftrightarrow> occupied g (vs ! cell_index 16 x y z)" if "x < 16" for x
    proof -
      note row_cell [THEN iffD2, OF that cell_index_def [of 16 x y z]]
      moreover have "cell_index 16 x y z < 4096" using \<open>y < 16\<close> \<open>z < 16\<close> that by (simp add: cell_index_def)
      ultimately show ?thesis using m(2) by metis
    qed
    have "and (rows ! (y * 16 + z)) (x_mask min_x max_x) = 0 \<longleftrightarrow> (\<forall>x < 16. \<not> (bit (rows ! (y * 16 + z)) x \<and> bit (x_mask min_x max_x) x))"
      by (auto simp: bit_eq_iff bit_and_iff dest: bit_imp_le_length)
    moreover have "x \<le> max_x \<Longrightarrow> x < 16" for x using assms(3) by simp
    ultimately show ?thesis using c bit_x_mask [OF assms(3)] by metis
  qed
  have ix: "\<forall>i \<in> set ?is. i < length rows" using assms(4,5) m(1) by auto
  have "rows_clear rows (x_mask min_x max_x) ?is = Some (\<forall>y \<in> {min_y..max_y}. \<forall>z \<in> {min_z..max_z}. and (rows ! (y * 16 + z)) (x_mask min_x max_x) = 0)"
  proof -
    have "set ?is = (\<Union>y \<in> {min_y..max_y}. (\<lambda>z. y * 16 + z) ` {min_z..max_z})"
      by (simp only: set_concat set_map set_upt atLeastLessThanSuc_atLeastAtMost UN_simps)
    then show ?thesis unfolding rows_clear_value [OF ix] by (simp only: ball_UN ball_simps)
  qed
  also have "(\<forall>y \<in> {min_y..max_y}. \<forall>z \<in> {min_z..max_z}. and (rows ! (y * 16 + z)) (x_mask min_x max_x) = 0) \<longleftrightarrow>
      (\<forall>x y z. in_box min_x max_x min_y max_y min_z max_z x y z \<longrightarrow> \<not> occupied g (vs ! cell_index 16 x y z))"
    using row assms(4,5) by (auto simp: in_box_def)
  finally show ?thesis using Mixed by (simp add: box_is_clear_def)
next
  case Empty
  have "\<not> occupied g (vs ! cell_index 16 x y z)" if "in_box min_x max_x min_y max_y min_z max_z x y z" for x y z
  proof -
    have "cell_index 16 x y z < 4096" using that assms(3-5) by (simp add: in_box_def cell_index_def)
    then show ?thesis using Empty assms(1,2) nth_mem [of "cell_index 16 x y z" vs] by (simp add: occupancy_ok_def)
  qed
  then show ?thesis using Empty by (simp add: box_is_clear_def)
next
  case Full
  have "cell_index 16 min_x min_y min_z < 4096" using assms(3-5,7-9) by (simp add: cell_index_def)
  then have "occupied g (vs ! cell_index 16 min_x min_y min_z)"
    using Full assms(1,2) nth_mem [of "cell_index 16 min_x min_y min_z" vs] by (simp add: occupancy_ok_def)
  moreover have "in_box min_x max_x min_y max_y min_z max_z min_x min_y min_z" using assms(7-9) by (simp add: in_box_def)
  ultimately show ?thesis using Full by (auto simp: box_is_clear_def)
qed (use assms(6) in simp)

end
