(* ===== verification/Palette_Encode.thy ===== *)
theory Palette_Encode
  imports Paletted_Container Var_Int
begin

text \<open>
  The network form of paletted containers: \<open>write\<close> of
  \<open>steel-core/src/chunk/paletted_container.rs\<close> and the packing of
  \<open>paletted_container/encode.rs\<close>. Values are the 16-bit ids of block states and biomes. The index
  table of the thread is passed in and returned; a panic is \<open>None\<close>, an error of the writer
  cannot occur since the bytes go to a buffer in memory.
\<close>

section \<open>Ids and strategies\<close>

definition to_global_id :: "u16 \<Rightarrow> u32" where
  "to_global_id v = ucast v"

definition ceil_log2 :: "nat \<Rightarrow> u8" where
  "ceil_log2 n = (if n \<le> 1 then 0 else of_nat (nat_bits (n - 1)))"

datatype PaletteMode = Linear | Hash | Global

text \<open>What the encoder reads of the registries.\<close>

record RegistrySizes =
  next_state_id :: u16
  biome_count :: nat

definition block_state_global_bits :: "RegistrySizes \<Rightarrow> u8" where
  "block_state_global_bits r = ceil_log2 (unat (next_state_id r))"

definition biome_global_bits :: "RegistrySizes \<Rightarrow> u8" where
  "biome_global_bits r = ceil_log2 (biome_count r)"

definition calculate_strategy :: "nat \<Rightarrow> RegistrySizes \<Rightarrow> nat \<Rightarrow> (u8 \<times> PaletteMode) option" where
  "calculate_strategy dim r len =
    (if dim = 16 then
       (if len \<le> 1 then None
        else if len \<le> 16 then Some (4, Linear)
        else if len \<le> 32 then Some (5, Hash)
        else if len \<le> 64 then Some (6, Hash)
        else if len \<le> 128 then Some (7, Hash)
        else if len \<le> 256 then Some (8, Hash)
        else Some (block_state_global_bits r, Global))
     else
       (if len \<le> 1 then None
        else if len = 2 then Some (1, Linear)
        else if len \<le> 4 then Some (2, Linear)
        else if len \<le> 8 then Some (3, Hash)
        else Some (biome_global_bits r, Global)))"

section \<open>Packing\<close>

definition MAX_PACKED_BYTES :: nat where
  "MAX_PACKED_BYTES = div_ceil (16 * 16 * 16) (64 div 16) * 8"

definition INDEX_TABLE_LEN :: nat where
  "INDEX_TABLE_LEN = 2 ^ 16"

definition EMPTY_SLOT :: u16 where
  "EMPTY_SLOT = 0xFFFF"

definition invalid_data :: "string \<Rightarrow> IoError" where
  "invalid_data message = IoError InvalidData message"

function chunks :: "nat \<Rightarrow> 'a list \<Rightarrow> 'a list list" where
  "chunks n xs = (if xs = [] \<or> n = 0 then [] else take n xs # chunks n (drop n xs))"
  by pat_completeness auto
termination
  by (relation "measure (\<lambda>(n, xs). length xs)") auto

declare chunks.simps [simp del]

text \<open>The inner loop fills one long; the flag collects the values without an entry.\<close>

fun pack_entries :: "nat \<Rightarrow> ('v \<Rightarrow> u32 option) \<Rightarrow> nat \<Rightarrow> 'v list \<Rightarrow> bool \<Rightarrow> u64 \<Rightarrow> bool \<times> u64" where
  "pack_entries bits lookup slot [] missing long = (missing, long)"
| "pack_entries bits lookup slot (value # entries) missing long =
    (let id = lookup value
     in pack_entries bits lookup (Suc slot) entries (missing \<or> id = None)
          (or long (push_bit (slot * bits) (ucast (case id of Some i \<Rightarrow> i | None \<Rightarrow> 0)))))"

text \<open>The outer loop, over the groups of values and the groups of eight bytes.\<close>

fun pack_groups :: "nat \<Rightarrow> ('v \<Rightarrow> u32 option) \<Rightarrow> 'v list list \<Rightarrow> bool \<Rightarrow> u8 list \<Rightarrow> bool \<times> u8 list" where
  "pack_groups bits lookup [] missing packed = (missing, packed)"
| "pack_groups bits lookup (entries # groups) missing packed =
    (if length packed < 8 then (missing, packed)
     else case pack_entries bits lookup 0 entries missing 0 of
       (missing, long) \<Rightarrow>
         (case pack_groups bits lookup groups missing (drop 8 packed) of
           (missing, rest) \<Rightarrow> (missing, to_be_bytes long @ rest)))"

definition pack_longs :: "nat \<Rightarrow> 'v list \<Rightarrow> ('v \<Rightarrow> u32 option) \<Rightarrow> u8 list \<Rightarrow> IoError + u8 list" where
  "pack_longs bits values lookup buffer =
    (let values_per_long = 64 div bits;
         len = div_ceil (length values) values_per_long * 8
     in if length buffer < len then Inl (invalid_data ''container is too large to pack'')
        else case pack_groups bits lookup (chunks values_per_long values) False (take len buffer) of
          (missing, packed) \<Rightarrow>
            if missing then Inl (invalid_data ''container holds a value its palette cannot encode'') else Inr packed)"

definition pack :: "'v list \<Rightarrow> u8 \<Rightarrow> ('v \<Rightarrow> u32 option) \<Rightarrow> u8 list \<Rightarrow> IoError + u8 list" where
  "pack values bits lookup buffer =
    (if 1 \<le> unat bits \<and> unat bits \<le> 16 then pack_longs (unat bits) values lookup buffer
     else Inl (invalid_data ''unsupported bits per entry''))"

definition pack_global_ids :: "u16 list \<Rightarrow> u8 \<Rightarrow> u8 list \<Rightarrow> IoError + u8 list" where
  "pack_global_ids values bits buffer =
    (let all_ids = fold (\<lambda>value all_ids. or all_ids (to_global_id value)) values 0
     in if drop_bit (unat bits) all_ids \<noteq> 0
        then Inl (invalid_data ''container holds a global id wider than the global palette'')
        else pack values bits (\<lambda>value. Some (to_global_id value)) buffer)"

section \<open>The index table\<close>

type_synonym IndexTable = "u16 list"

fun fill_slots :: "nat \<Rightarrow> (u16 \<times> u16) list \<Rightarrow> IndexTable \<Rightarrow> IoError option \<times> IndexTable" where
  "fill_slots index [] slots = (None, slots)"
| "fill_slots index ((value, _) # entries) slots =
    (if 2 ^ 16 \<le> index \<or> of_nat index = EMPTY_SLOT
     then (Some (invalid_data ''palette has too many entries to index''), slots)
     else if length slots \<le> unat (to_global_id value)
     then (Some (invalid_data ''palette value has an out-of-range global id''), slots)
     else fill_slots (Suc index) entries (slots[unat (to_global_id value) := of_nat index]))"

definition index_of :: "IndexTable \<Rightarrow> u16 \<Rightarrow> u32 option" where
  "index_of slots value =
    (if unat (to_global_id value) < length slots
     then let index = slots ! unat (to_global_id value)
          in if index \<noteq> EMPTY_SLOT then Some (ucast index) else None
     else None)"

text \<open>The drop of the guard: the slots of the entries are emptied, out-of-range ids are skipped.\<close>

definition reset_slots :: "(u16 \<times> u16) list \<Rightarrow> IndexTable \<Rightarrow> IndexTable" where
  "reset_slots entries slots = fold (\<lambda>(value, _) slots. slots[unat (to_global_id value) := EMPTY_SLOT]) entries slots"

definition pack_palette_indices ::
  "u16 list \<Rightarrow> (u16 \<times> u16) list \<Rightarrow> u8 \<Rightarrow> u8 list \<Rightarrow> IndexTable \<Rightarrow> (IoError + u8 list) \<times> IndexTable" where
  "pack_palette_indices values entries bits buffer table =
    (case fill_slots 0 entries table of
       (Some e, slots) \<Rightarrow> (Inl e, reset_slots entries slots)
     | (None, slots) \<Rightarrow> (pack values bits (index_of slots) buffer, reset_slots entries slots))"

section \<open>Writing a container\<close>

definition palette_write :: "(u16 \<times> u16) list \<Rightarrow> u8 list" where
  "palette_write entries =
    varint_write (of_nat (length entries)) @ concat (map (\<lambda>(val, _). varint_write (to_global_id val)) entries)"

definition container_write ::
  "nat \<Rightarrow> RegistrySizes \<Rightarrow> u16 PalettedContainer \<Rightarrow> IndexTable \<Rightarrow> ((IoError + u8 list) \<times> IndexTable) option" where
  "container_write dim r c table = (case c of
     Homogeneous value \<Rightarrow> Some (Inr (int_write (0 :: u8) @ varint_write (to_global_id value)), table)
   | Heterogeneous h \<Rightarrow>
       (case calculate_strategy dim r (length (palette h)) of
         None \<Rightarrow> None
       | Some (bits, mode) \<Rightarrow>
           let buffer = replicate MAX_PACKED_BYTES 0;
               (packed, table) =
                 (if mode = Global then (pack_global_ids (het_values h) bits buffer, table)
                  else pack_palette_indices (het_values h) (palette h) bits buffer table)
           in (case packed of
                Inl e \<Rightarrow> Some (Inl e, table)
              | Inr packed \<Rightarrow>
                  Some (Inr (int_write bits @ (if mode = Global then [] else palette_write (palette h)) @ packed), table)))
   | Building _ \<Rightarrow> None)"

section \<open>The reading side\<close>

text \<open>
  The reference: the packing of vanilla's \<open>SimpleBitStorage\<close> as the client reads it, and the layout of
  a container. Entries of at most the widest palette width are palette indices, wider ones global ids.
\<close>

definition long_at :: "u8 list \<Rightarrow> nat \<Rightarrow> u64" where
  "long_at bytes k = from_be_bytes (take 8 (drop (8 * k) bytes))"

definition unpack :: "nat \<Rightarrow> nat \<Rightarrow> u8 list \<Rightarrow> nat list" where
  "unpack bits n bytes =
    map (\<lambda>i. unat (take_bit bits (drop_bit (i mod (64 div bits) * bits) (long_at bytes (i div (64 div bits)))))) [0..<n]"

primrec read_ids :: "nat \<Rightarrow> Cursor \<Rightarrow> nat list reading" where
  "read_ids 0 bs = Inr ([], bs)"
| "read_ids (Suc n) bs = read_then (varint_read bs) (\<lambda>v rest. read_then (read_ids n rest) (\<lambda>vs rest. Inr (unat v # vs, rest)))"

definition palette_bits :: "nat \<Rightarrow> nat" where
  "palette_bits dim = (if dim = 16 then 8 else 3)"

definition container_read :: "nat \<Rightarrow> Cursor \<Rightarrow> nat list reading" where
  "container_read dim bs = read_then (int_read bs) (\<lambda>bits rest.
    let n = dim * dim * dim; longs = div_ceil n (64 div unat bits) * 8 in
    if bits = (0 :: u8) then read_then (varint_read rest) (\<lambda>v rest. Inr (replicate n (unat v), rest))
    else if unat bits \<le> palette_bits dim then
      read_then (varint_read rest) (\<lambda>len rest. read_then (read_ids (unat len) rest) (\<lambda>ids rest.
        read_then (read_exact longs rest) (\<lambda>bytes rest.
          let indices = unpack (unat bits) n bytes
          in if list_all (\<lambda>i. i < length ids) indices then Inr (map (\<lambda>i. ids ! i) indices, rest)
             else Inl (invalid_data ''palette index''))))
    else read_then (read_exact longs rest) (\<lambda>bytes rest. Inr (unpack (unat bits) n bytes, rest)))"

section \<open>Groups\<close>

lemma div_ceil_step: "0 < n \<Longrightarrow> 0 < k \<Longrightarrow> div_ceil k n = Suc (div_ceil (k - n) n)"
proof -
  assume n: "0 < n" "0 < k"
  consider "k < n" | "k = n" | m where "k = m + n" "0 < m" by (metis add_diff_inverse_nat linorder_neqE_nat nat_less_le add.commute zero_less_diff not_less)
  then show ?thesis using n by cases (auto simp: div_ceil_def div_add_self2)
qed

lemma div_ceil_le:
  assumes "a \<le> k * d"
  shows "div_ceil a d \<le> k"
proof (cases "a mod d = 0")
  case True
  then show ?thesis using div_le_mono [OF assms, of d] by (cases "d = 0") (simp_all add: div_ceil_def)
next
  case False
  then have "a < k * d" using assms by (metis mod_mult_self2_is_0 nat_less_le)
  then show ?thesis using False by (simp add: div_ceil_def less_mult_imp_div_less Suc_le_eq)
qed

lemma chunks_Nil [simp]: "chunks n [] = []"
  by (simp add: chunks.simps)

lemma chunks_nth:
  assumes "0 < n"
  shows "length (chunks n xs) = div_ceil (length xs) n"
    "k < div_ceil (length xs) n \<Longrightarrow> chunks n xs ! k = take n (drop (k * n) xs)"
proof -
  show l: "length (chunks n xs) = div_ceil (length xs) n" using assms
  proof (induction n xs rule: chunks.induct)
    case (1 n xs)
    then show ?case using div_ceil_step [of n "length xs"] by (cases "xs = []") (simp_all add: chunks.simps [of n xs] div_ceil_def [of 0])
  qed
  show "chunks n xs ! k = take n (drop (k * n) xs)" if "k < div_ceil (length xs) n"
    using assms that
  proof (induction n xs arbitrary: k rule: chunks.induct)
    case (1 n xs)
    show ?case
    proof (cases "xs = []")
      case True
      then show ?thesis using "1.prems" by (simp add: div_ceil_def)
    next
      case False
      then show ?thesis using 1 div_ceil_step [of n "length xs"] by (cases k) (simp_all add: chunks.simps [of n xs] ac_simps)
    qed
  qed
qed

lemma concat_chunks: "0 < n \<Longrightarrow> concat (chunks n xs) = xs"
  by (induction n xs rule: chunks.induct) (simp add: chunks.simps)

lemma chunk_lookup:
  assumes "0 < n" "i < length xs"
  shows "i div n < div_ceil (length xs) n" "i mod n < length (chunks n xs ! (i div n))" "chunks n xs ! (i div n) ! (i mod n) = xs ! i"
proof -
  show q: "i div n < div_ceil (length xs) n" using assms by (rule less_div_ceil)
  define j r where "j = i div n" and "r = i mod n"
  have j: "j * n + r = i" "r < n" using assms(1) by (simp_all add: j_def r_def)
  have "chunks n xs ! j = take n (drop (j * n) xs)" using chunks_nth(2) [OF assms(1) q] by (simp add: j_def)
  then show "i mod n < length (chunks n xs ! (i div n))" "chunks n xs ! (i div n) ! (i mod n) = xs ! i"
    unfolding j_def [symmetric] r_def [symmetric] using j assms by (simp_all add: less_diff_conv2)
qed

section \<open>Longs\<close>

lemma unat_ucast_wider:
  assumes "LENGTH('a) \<le> LENGTH('b)"
  shows "unat (ucast (w :: 'a::len word) :: 'b::len word) = unat w"
proof -
  have "unat w < 2 ^ LENGTH('a)" by (rule unsigned_less)
  also have "(2 :: nat) ^ LENGTH('a) \<le> 2 ^ LENGTH('b)" using assms by (rule power_increasing) simp
  finally show ?thesis by (simp add: unsigned_ucast_eq take_bit_nat_eq_self)
qed

lemma bit_lt_width: "unat (i :: 'a::len word) < 2 ^ n \<Longrightarrow> bit i k \<Longrightarrow> k < n"
  using bit_bound [of "unat i" k n] by (simp add: bit_unsigned_iff)

lemma slot_bits:
  assumes "0 < bits" "slot * bits \<le> k"
  shows "Suc slot * bits \<le> k \<longleftrightarrow> k div bits - slot \<noteq> 0"
    "k div bits - slot = 0 \<Longrightarrow> k mod bits = k - slot * bits" "k - slot * bits < bits \<Longrightarrow> k div bits - slot = 0"
proof -
  obtain j where k: "k = slot * bits + j" using assms(2) le_Suc_ex by blast
  then have d: "k div bits - slot = j div bits" using assms(1) by simp
  show "Suc slot * bits \<le> k \<longleftrightarrow> k div bits - slot \<noteq> 0"
    using assms(1) unfolding d by (simp add: k div_eq_0_iff not_less)
  show "k mod bits = k - slot * bits" if "k div bits - slot = 0" using that assms(1) unfolding d by (simp add: k div_eq_0_iff)
  show "k div bits - slot = 0" if "k - slot * bits < bits" using that unfolding d by (simp add: k)
qed

lemma bit_slot_entry:
  assumes "0 < bits" "unat (i :: u32) < 2 ^ bits"
  shows "bit (push_bit (slot * bits) (ucast i :: u64)) k \<longleftrightarrow>
    k < 64 \<and> slot * bits \<le> k \<and> k div bits - slot = 0 \<and> bit i (k mod bits)"
proof (cases "slot * bits \<le> k \<and> k < 64")
  case True
  then have "bit (push_bit (slot * bits) (ucast i :: u64)) k \<longleftrightarrow> bit i (k - slot * bits)" by (auto simp: bit_simps)
  also have "\<dots> \<longleftrightarrow> k div bits - slot = 0 \<and> bit i (k mod bits)"
    using slot_bits [OF assms(1), of slot k] bit_lt_width [OF assms(2), of "k - slot * bits"] True by auto
  finally show ?thesis using True by blast
qed (auto simp: bit_simps)

abbreviation entry_id :: "('v \<Rightarrow> u32 option) \<Rightarrow> 'v \<Rightarrow> u32" where
  "entry_id lookup v \<equiv> (case lookup v of Some i \<Rightarrow> i | None \<Rightarrow> 0)"

lemma pack_entries_bits:
  assumes "0 < bits" "\<forall>v \<in> set entries. unat (entry_id lookup v) < 2 ^ bits"
  shows "bit (snd (pack_entries bits lookup slot entries missing long)) k \<longleftrightarrow> bit long k \<or>
    (k < 64 \<and> slot * bits \<le> k \<and> k div bits - slot < length entries \<and>
      bit (entry_id lookup (entries ! (k div bits - slot))) (k mod bits))"
  using assms(2)
proof (induction entries arbitrary: slot missing long)
  case (Cons v entries)
  let ?long = "or long (push_bit (slot * bits) (ucast (entry_id lookup v)))"
  have "unat (entry_id lookup v) < 2 ^ bits" using Cons.prems by simp
  note here = bit_slot_entry [OF assms(1) this, of slot k]
  have "bit (snd (pack_entries bits lookup slot (v # entries) missing long)) k \<longleftrightarrow> bit ?long k \<or>
    (k < 64 \<and> Suc slot * bits \<le> k \<and> k div bits - Suc slot < length entries \<and>
      bit (entry_id lookup (entries ! (k div bits - Suc slot))) (k mod bits))"
    using Cons.IH [of "Suc slot" "missing \<or> lookup v = None" ?long] Cons.prems by (simp only: pack_entries.simps Let_def) simp
  moreover have "bit ?long k \<longleftrightarrow> bit long k \<or> bit (push_bit (slot * bits) (ucast (entry_id lookup v) :: u64)) k"
    by (rule bit_or_iff)
  moreover have "Suc slot * bits \<le> k \<longleftrightarrow> slot * bits \<le> k \<and> k div bits - slot \<noteq> 0"
    using slot_bits(1) [OF assms(1), of slot k] by (cases "slot * bits \<le> k") auto
  moreover have "k div bits - Suc slot = k div bits - slot - 1" by simp
  ultimately show ?case unfolding here
    by (cases "k div bits - slot") auto
qed simp

lemma pack_entries_missing:
  "fst (pack_entries bits lookup slot entries missing long) \<longleftrightarrow> missing \<or> (\<exists>v \<in> set entries. lookup v = None)"
  by (induction entries arbitrary: slot missing long) (auto simp: Let_def)

lemma pack_entries_entry:
  assumes "0 < bits" "bits \<le> 16" "\<forall>v \<in> set entries. unat (entry_id lookup v) < 2 ^ bits"
    "j < length entries" "length entries \<le> 64 div bits"
  shows "take_bit bits (drop_bit (j * bits) (snd (pack_entries bits lookup 0 entries missing 0))) = ucast (entry_id lookup (entries ! j))"
proof (rule bit_word_eqI)
  fix k :: nat
  assume "k < LENGTH(64)"
  have "Suc j * bits \<le> 64 div bits * bits" using assms(4,5) by (intro mult_le_mono1) simp
  also have "\<dots> \<le> 64" by simp
  finally have j: "k < bits \<Longrightarrow> j * bits + k < 64" by simp
  have kd: "k < bits \<Longrightarrow> (j * bits + k) div bits = j \<and> (j * bits + k) mod bits = k" by simp
  have "unat (entry_id lookup (entries ! j)) < 2 ^ bits" using assms(3,4) by simp
  from bit_lt_width [OF this] have lt: "bit (entry_id lookup (entries ! j)) k \<Longrightarrow> k < bits" .
  show "bit (take_bit bits (drop_bit (j * bits) (snd (pack_entries bits lookup 0 entries missing 0)))) k \<longleftrightarrow>
      bit (ucast (entry_id lookup (entries ! j)) :: u64) k"
    using pack_entries_bits [OF assms(1,3), of 0 missing 0 "j * bits + k"] j kd lt assms(2,4)
    by (cases "k < bits") (auto simp: bit_take_bit_iff bit_drop_bit_eq bit_unsigned_iff)
qed

lemma pack_entries_split:
  "pack_entries bits lookup slot entries missing long =
    (missing \<or> (\<exists>v \<in> set entries. lookup v = None), snd (pack_entries bits lookup slot entries False long))"
proof -
  have "snd (pack_entries bits lookup slot entries missing long) = snd (pack_entries bits lookup slot entries False long)"
    by (induction entries arbitrary: slot missing long) (simp, metis (no_types, lifting) pack_entries.simps(2))
  then show ?thesis using pack_entries_missing by (simp add: prod_eq_iff)
qed

lemma pack_groups_longs:
  assumes "length packed = 8 * length groups"
  shows "pack_groups bits lookup groups missing packed =
    (missing \<or> (\<exists>g \<in> set groups. \<exists>v \<in> set g. lookup v = None),
     concat (map (\<lambda>g. to_be_bytes (snd (pack_entries bits lookup 0 g False 0))) groups))"
  using assms
proof (induction groups arbitrary: missing packed)
  case (Cons g groups)
  then show ?case using Cons.IH [of "drop 8 packed"] by (subst pack_groups.simps, subst pack_entries_split) auto
qed simp

lemma long_at_concat:
  assumes "k < length longs"
  shows "long_at (concat (map to_be_bytes longs)) k = longs ! k"
  using assms
proof (induction longs arbitrary: k)
  case (Cons w longs)
  have l: "length (to_be_bytes (w :: u64)) = 8" by simp
  show ?case
  proof (cases k)
    case 0
    then show ?thesis using l by (simp add: long_at_def from_to_be_bytes)
  next
    case (Suc j)
    then show ?thesis using l Cons by (simp add: long_at_def)
  qed
qed simp

text \<open>Packing and unpacking: every entry comes back, or the packing names the error.\<close>

lemma pack_longs_spec:
  assumes "0 < bits" "bits \<le> 16" "div_ceil (length values) (64 div bits) * 8 \<le> length buffer"
    "\<forall>v \<in> set values. unat (entry_id lookup v) < 2 ^ bits"
  shows "if \<exists>v \<in> set values. lookup v = None
    then pack_longs bits values lookup buffer = Inl (invalid_data ''container holds a value its palette cannot encode'')
    else \<exists>packed. pack_longs bits values lookup buffer = Inr packed \<and> length packed = div_ceil (length values) (64 div bits) * 8
      \<and> unpack bits (length values) packed = map (\<lambda>v. unat (the (lookup v))) values"
proof -
  define n where "n = 64 div bits"
  have n: "0 < n" using assms(1,2) by (simp add: n_def div_greater_zero_iff)
  define groups where "groups = chunks n values"
  define long where "long g = snd (pack_entries bits lookup 0 g False 0)" for g
  have lg: "length groups = div_ceil (length values) n" using chunks_nth(1) [OF n] by (simp add: groups_def)
  have sg: "concat groups = values" using concat_chunks [OF n] by (simp add: groups_def)
  have p: "pack_groups bits lookup groups False (take (8 * length groups) buffer) =
      (\<exists>v \<in> set values. lookup v = None, concat (map to_be_bytes (map long groups)))"
    using pack_groups_longs [of "take (8 * length groups) buffer" groups bits lookup False] assms(3) lg
    unfolding sg [symmetric] by (simp add: n_def long_def comp_def ac_simps)
  have l: "length (concat (map to_be_bytes (map long groups))) = div_ceil (length values) n * 8"
    unfolding lg [symmetric] by (induction groups) simp_all
  have "unat (take_bit bits (drop_bit (i mod n * bits) (long_at (concat (map to_be_bytes (map long groups))) (i div n)))) =
      unat (entry_id lookup (values ! i))" if "i < length values" for i
  proof -
    note c = chunk_lookup [OF n that]
    define g where "g = groups ! (i div n)"
    have g: "i mod n < length g" "g ! (i mod n) = values ! i" "length g \<le> n"
      using c chunks_nth(2) [OF n c(1)] by (simp_all add: g_def groups_def)
    have "g \<in> set groups" using c(1) lg by (simp add: g_def)
    then have "set g \<subseteq> set values" unfolding sg [symmetric] by auto
    with assms(4) have "\<forall>v \<in> set g. unat (entry_id lookup v) < 2 ^ bits" by blast
    from pack_entries_entry [OF assms(1,2) this g(1), of False] g(2,3) long_at_concat [of "i div n" "map long groups"] c(1) lg
    show ?thesis by (simp add: g_def n_def long_def unat_ucast_wider)
  qed
  then have u: "unpack bits (length values) (concat (map to_be_bytes (map long groups))) = map (\<lambda>v. unat (entry_id lookup v)) values"
    unfolding unpack_def n_def [symmetric] by (intro nth_equalityI) simp_all
  show ?thesis
  proof (cases "\<exists>v \<in> set values. lookup v = None")
    case True
    then show ?thesis using p assms(3) lg by (simp add: pack_longs_def n_def [symmetric] groups_def [symmetric] ac_simps)
  next
    case False
    then have e: "map (\<lambda>v. unat (entry_id lookup v)) values = map (\<lambda>v. unat (the (lookup v))) values" by auto
    show ?thesis using False p assms(3) lg l u unfolding e
      by (simp add: pack_longs_def n_def [symmetric] groups_def [symmetric] ac_simps)
  qed
qed

lemma fold_or_ids: "drop_bit n (fold (\<lambda>v ids. or ids (f v)) xs a) = 0 \<longleftrightarrow> drop_bit n a = 0 \<and> (\<forall>v \<in> set xs. drop_bit n (f v) = (0 :: u32))"
  by (induction xs arbitrary: a) (auto simp: drop_bit_or or_eq_0_iff)

lemma unat_to_global_id [simp]: "unat (to_global_id v) = unat v"
  by (simp add: to_global_id_def unat_ucast_wider)

lemma drop_bit_zero: "drop_bit n w = 0 \<longleftrightarrow> unat w < 2 ^ n" for w :: "'a::len word"
proof -
  have "unat (drop_bit n w) = drop_bit n (unat w)" by (rule unat_drop_bit_eq)
  then show ?thesis unfolding word_unat_eq_iff by (simp add: drop_bit_eq_div div_eq_0_iff)
qed

lemma pack_global_ids_spec:
  assumes "0 < bits" "bits \<le> (16 :: u8)" "div_ceil (length values) (64 div unat bits) * 8 \<le> length buffer"
  shows "if \<exists>v \<in> set values. 2 ^ unat bits \<le> unat v
    then pack_global_ids values bits buffer = Inl (invalid_data ''container holds a global id wider than the global palette'')
    else \<exists>packed. pack_global_ids values bits buffer = Inr packed \<and> length packed = div_ceil (length values) (64 div unat bits) * 8
      \<and> unpack (unat bits) (length values) packed = map unat values"
proof -
  have b: "0 < unat bits" "unat bits \<le> 16" using assms(1,2) by (simp_all add: word_less_nat_alt word_le_nat_alt unat_gt_0)
  have "drop_bit (unat bits) (fold (\<lambda>value all_ids. or all_ids (to_global_id value)) values 0) = 0 \<longleftrightarrow>
      \<not> (\<exists>v \<in> set values. 2 ^ unat bits \<le> unat v)"
    unfolding fold_or_ids by (auto simp: drop_bit_zero not_le)
  then show ?thesis
    using pack_longs_spec [OF b assms(3), of "\<lambda>v. Some (to_global_id v)"] b
    by (auto simp: pack_global_ids_def pack_def Let_def not_le Suc_le_eq)
qed

section \<open>The table\<close>

definition table_clean :: "IndexTable \<Rightarrow> bool" where
  "table_clean t \<longleftrightarrow> t = replicate INDEX_TABLE_LEN EMPTY_SLOT"

lemma fill_slots_frame:
  "length (snd (fill_slots i p slots)) = length slots \<and>
    (\<forall>k. k \<notin> (\<lambda>e. unat (fst e)) ` set p \<longrightarrow> snd (fill_slots i p slots) ! k = slots ! k)"
  by (induction i p slots rule: fill_slots.induct) (auto simp: nth_list_update split: if_splits)

lemma reset_slots_frame:
  "length (reset_slots p slots) = length slots \<and>
    (\<forall>k < length slots. reset_slots p slots ! k = (if k \<in> (\<lambda>e. unat (fst e)) ` set p then EMPTY_SLOT else slots ! k))"
proof (induction p arbitrary: slots)
  case (Cons e p)
  have "reset_slots (e # p) slots = reset_slots p (slots[unat (fst e) := EMPTY_SLOT])" by (cases e) (simp add: reset_slots_def)
  moreover have "slots[unat (fst e) := EMPTY_SLOT] ! k = (if k = unat (fst e) then EMPTY_SLOT else slots ! k)" if "k < length slots" for k
    using that by (cases "k = unat (fst e)") simp_all
  ultimately show ?case using Cons [of "slots[unat (fst e) := EMPTY_SLOT]"] by auto
qed (simp add: reset_slots_def)

text \<open>Whatever the palette, the guard leaves a clean table behind.\<close>

lemma reset_after_fill:
  assumes "table_clean t"
  shows "table_clean (reset_slots p (snd (fill_slots i p t)))"
  using fill_slots_frame [of i p t] reset_slots_frame [of p "snd (fill_slots i p t)"] assms
  by (auto simp: table_clean_def list_eq_iff_nth_eq)

lemma pack_palette_indices_clean: "table_clean t \<Longrightarrow> table_clean (snd (pack_palette_indices vs p bits buffer t))"
  using reset_after_fill [of t p 0] by (auto simp: pack_palette_indices_def split: prod.splits option.splits)

lemma fill_slots_index:
  assumes "length slots = INDEX_TABLE_LEN" "distinct (map fst p)" "i + length p < 2 ^ 16"
  shows "fst (fill_slots i p slots) = None \<and> (\<forall>v. snd (fill_slots i p slots) ! unat v =
    (case position_of v p of Some j \<Rightarrow> of_nat (i + j) | None \<Rightarrow> slots ! unat v))"
  using assms
proof (induction p arbitrary: i slots)
  case (Cons e p)
  have "unat (of_nat i :: u16) = i" "i \<noteq> 65535" using Cons.prems(3) by (simp_all add: unat_of_nat)
  then have ne: "of_nat i \<noteq> EMPTY_SLOT" by (auto simp: word_unat_eq_iff EMPTY_SLOT_def)
  have lt: "unat (fst e) < INDEX_TABLE_LEN" using unsigned_less [of "fst e", where 'a = nat] by (simp add: INDEX_TABLE_LEN_def)
  define slots' where "slots' = slots[unat (fst e) := of_nat i]"
  have step: "fill_slots i (e # p) slots = fill_slots (Suc i) p slots'"
    using ne lt Cons.prems by (cases e) (simp add: slots'_def)
  have at: "slots' ! unat v = (if v = fst e then of_nat i else slots ! unat v)" for v
    using lt Cons.prems(1) by (auto simp: slots'_def nth_list_update word_unat_eq_iff [symmetric])
  have none: "position_of (fst e) p = None" using Cons.prems(2) by (simp add: position_of_None)
  have "fst (fill_slots (Suc i) p slots') = None \<and> (\<forall>v. snd (fill_slots (Suc i) p slots') ! unat v =
    (case position_of v p of Some j \<Rightarrow> of_nat (Suc i + j) | None \<Rightarrow> slots' ! unat v))"
    using Cons.prems by (intro Cons.IH) (simp_all add: slots'_def)
  then show ?case unfolding step using none at by (auto split: option.splits)
qed simp

lemma index_of_palette:
  assumes "table_clean t" "distinct (map fst p)" "length p < 2 ^ 16"
  shows "index_of (snd (fill_slots 0 p t)) v = map_option of_nat (position_of v p)"
proof -
  define slots where "slots = snd (fill_slots 0 p t)"
  have l: "length t = INDEX_TABLE_LEN" using assms(1) by (simp add: table_clean_def)
  have "length slots = INDEX_TABLE_LEN" using fill_slots_frame [of 0 p t] l by (simp add: slots_def)
  then have lt: "unat v < length slots" using unsigned_less [of v, where 'a = nat] by (simp add: INDEX_TABLE_LEN_def)
  have at: "slots ! unat v = (case position_of v p of Some j \<Rightarrow> of_nat j | None \<Rightarrow> EMPTY_SLOT)"
    using fill_slots_index [OF l assms(2), of 0] assms(1,3) lt l \<open>length slots = _\<close>
    by (simp add: slots_def table_clean_def split: option.splits)
  show ?thesis
  proof (cases "position_of v p")
    case None
    then show ?thesis using at lt by (simp add: index_of_def slots_def [symmetric])
  next
    case (Some j)
    then have j: "j < 65535" using position_of_Some [OF Some] assms(3) by simp
    then have u: "unat (of_nat j :: u16) = j" by (simp add: unat_of_nat)
    then have "(of_nat j :: u16) \<noteq> EMPTY_SLOT" using j by (auto simp: word_unat_eq_iff EMPTY_SLOT_def)
    moreover have "ucast (of_nat j :: u16) = (of_nat j :: u32)"
      using u j by (simp add: word_unat_eq_iff unat_ucast_wider unat_of_nat)
    ultimately show ?thesis using Some at lt by (simp add: index_of_def slots_def [symmetric] Let_def)
  qed
qed

lemma packed_fits:
  assumes "0 < bits" "bits \<le> 16" "n \<le> 4096"
  shows "div_ceil n (64 div bits) * 8 \<le> MAX_PACKED_BYTES"
proof -
  have "4 \<le> 64 div bits" using assms(1,2) by (simp add: less_eq_div_iff_mult_less_eq)
  then have "n \<le> 1024 * (64 div bits)" using assms(3) by linarith
  from div_ceil_le [OF this] show ?thesis by (simp add: MAX_PACKED_BYTES_def div_ceil_def)
qed

lemma pack_palette_indices_spec:
  assumes "0 < bits" "bits \<le> (16 :: u8)" "length values \<le> 4096" "table_clean t" "distinct (map fst p)" "length p \<le> 2 ^ unat bits"
    "length p < 2 ^ 16"
  shows "if \<exists>v \<in> set values. v \<notin> fst ` set p
    then pack_palette_indices values p bits (replicate MAX_PACKED_BYTES 0) t =
      (Inl (invalid_data ''container holds a value its palette cannot encode''), t)
    else \<exists>packed. pack_palette_indices values p bits (replicate MAX_PACKED_BYTES 0) t = (Inr packed, t)
      \<and> length packed = div_ceil (length values) (64 div unat bits) * 8
      \<and> unpack (unat bits) (length values) packed = map (\<lambda>v. the (position_of v p)) values"
proof -
  have b: "0 < unat bits" "unat bits \<le> 16" using assms(1,2) by (simp_all add: word_less_nat_alt word_le_nat_alt unat_gt_0)
  define slots where "slots = snd (fill_slots 0 p t)"
  have f: "fill_slots 0 p t = (None, slots)"
    using fill_slots_index [of t p 0] assms(4,5,7) by (simp add: slots_def table_clean_def prod_eq_iff)
  have i: "index_of slots v = map_option of_nat (position_of v p)" for v
    using index_of_palette [OF assms(4,5,7)] by (simp add: slots_def)
  have u: "position_of v p = Some j \<Longrightarrow> unat (of_nat j :: u32) = j \<and> j < 2 ^ unat bits" for v j
    using position_of_Some [of v p j] assms(6,7) by (auto simp: unat_of_nat take_bit_nat_eq_self)
  have "table_clean (reset_slots p slots)" using reset_after_fill [OF assms(4)] by (simp add: slots_def)
  then have r: "reset_slots p slots = t" using assms(4) by (simp add: table_clean_def)
  have "\<forall>v \<in> set values. unat (entry_id (index_of slots) v) < 2 ^ unat bits"
    using u by (auto simp: i split: option.splits)
  note s = pack_longs_spec [OF b _ this, of "replicate MAX_PACKED_BYTES 0"]
  have n: "index_of slots v = None \<longleftrightarrow> v \<notin> fst ` set p" for v by (simp add: i position_of_None)
  have "pack values bits (index_of slots) (replicate MAX_PACKED_BYTES 0) =
      pack_longs (unat bits) values (index_of slots) (replicate MAX_PACKED_BYTES 0)" using b by (simp add: pack_def)
  then have w: "pack_palette_indices values p bits (replicate MAX_PACKED_BYTES 0) t =
      (pack_longs (unat bits) values (index_of slots) (replicate MAX_PACKED_BYTES 0), t)"
    by (simp add: pack_palette_indices_def f r)
  have m: "map (\<lambda>v. unat (the (index_of slots v))) values = map (\<lambda>v. the (position_of v p)) values"
    if sub: "\<forall>v \<in> set values. v \<in> fst ` set p"
  proof (rule map_cong [OF refl])
    fix v
    assume "v \<in> set values"
    then obtain j where "position_of v p = Some j" using sub position_of_None [of v p] by (cases "position_of v p") auto
    with u [OF this] show "unat (the (index_of slots v)) = the (position_of v p)" by (simp add: i)
  qed
  show ?thesis using s packed_fits [OF b assms(3)] m unfolding w n by auto
qed

section \<open>Strategies\<close>

definition registered :: "nat \<Rightarrow> RegistrySizes \<Rightarrow> u16 list \<Rightarrow> bool" where
  "registered dim r vs \<longleftrightarrow> (let n = (if dim = 16 then unat (next_state_id r) else biome_count r)
     in n \<le> 2 ^ 16 \<and> list_all (\<lambda>v. unat v < n) vs)"

lemma ceil_log2_bits:
  assumes "k < n" "n \<le> 2 ^ 16"
  shows "k < 2 ^ unat (ceil_log2 n)" "unat (ceil_log2 n) \<le> 16" "2 ^ b < n \<Longrightarrow> b < unat (ceil_log2 n)"
proof -
  have "nat_bits (n - 1) \<le> 16" using assms by (simp add: nat_bits_le)
  then have u: "unat (ceil_log2 n) = (if n \<le> 1 then 0 else nat_bits (n - 1))" by (simp add: ceil_log2_def unat_of_nat)
  show "unat (ceil_log2 n) \<le> 16" using u \<open>nat_bits (n - 1) \<le> 16\<close> by simp
  show "k < 2 ^ unat (ceil_log2 n)" using u assms(1) nat_bits_bounds(1) [of "n - 1"] by (auto simp: not_le)
  show "b < unat (ceil_log2 n)" if "2 ^ b < n"
  proof -
    have "1 < n" using that by (metis less_le_trans linorder_not_less one_le_power one_le_numeral)
    then show ?thesis using that u nat_bits_le [of "n - 1" b] by (simp add: not_le [symmetric])
  qed
qed

lemma distinct_registered:
  assumes "distinct ks" "\<forall>v \<in> set ks. unat (v :: u16) < n"
  shows "length ks \<le> n"
proof -
  have "length ks = card (unat ` set ks)"
    using distinct_card [OF assms(1)] card_image [of unat "set ks"] by (simp add: inj_on_def word_unat_eq_iff)
  also have "\<dots> \<le> card {..<n}" using assms(2) by (intro card_mono) auto
  finally show ?thesis by simp
qed

lemma strategy_palette:
  assumes "2 \<le> len" "calculate_strategy dim r len = Some (bits, mode)" "mode \<noteq> Global"
  shows "0 < bits \<and> bits \<le> 16 \<and> unat bits \<le> palette_bits dim \<and> len \<le> 2 ^ unat bits \<and> len < 2 ^ 16"
  using assms by (auto simp: calculate_strategy_def palette_bits_def split: if_splits)

lemma strategy_global:
  assumes "calculate_strategy dim r len = Some (bits, Global)"
  shows "2 ^ palette_bits dim < len \<and> bits = (if dim = 16 then block_state_global_bits r else biome_global_bits r)"
  using assms by (auto simp: calculate_strategy_def palette_bits_def split: if_splits)

lemma strategy_total: "2 \<le> len \<Longrightarrow> \<exists>bits mode. calculate_strategy dim r len = Some (bits, mode)"
  by (simp add: calculate_strategy_def)

section \<open>Reading back\<close>

lemma varint_read_write: "varint_read (varint_write v @ rest) = Inr (v, rest)"
  by (simp add: varint_write_leb128 var_reads_leb128)

lemma read_ids_palette:
  "read_ids (length p) (concat (map (\<lambda>(val, _). varint_write (to_global_id val)) p) @ rest) = Inr (map (\<lambda>e. unat (fst e)) p, rest)"
  by (induction p) (auto simp: varint_read_write)

lemma container_read_palette:
  assumes "(bits :: u8) \<noteq> 0" "unat bits \<le> palette_bits dim" "length p < 2 ^ 16" "set vs \<subseteq> fst ` set p"
    "length packed = div_ceil (dim * dim * dim) (64 div unat bits) * 8"
    "unpack (unat bits) (dim * dim * dim) packed = map (\<lambda>v. the (position_of v p)) vs"
  shows "container_read dim (int_write bits @ palette_write p @ packed @ rest) = Inr (map unat vs, rest)"
proof -
  have l: "unat (of_nat (length p) :: i32) = length p" using assms(3) by (simp add: unat_of_nat take_bit_nat_eq_self)
  have v: "the (position_of v p) < length p" "fst (p ! the (position_of v p)) = v" if mem: "v \<in> set vs" for v
  proof -
    obtain j where "position_of v p = Some j" using mem assms(4) position_of_None [of v p] by (cases "position_of v p") auto
    with position_of_Some [OF this] show "the (position_of v p) < length p" "fst (p ! the (position_of v p)) = v" by simp_all
  qed
  have "varint_read (palette_write p @ packed @ rest) =
      Inr (of_nat (length p), concat (map (\<lambda>(val, _). varint_write (to_global_id val)) p) @ packed @ rest)"
    by (simp add: palette_write_def varint_read_write)
  moreover have "list_all (\<lambda>i. i < length p) (map (\<lambda>v. the (position_of v p)) vs)" using v by (simp add: list_all_iff)
  moreover have "map (\<lambda>i. map (\<lambda>e. unat (fst e)) p ! i) (map (\<lambda>v. the (position_of v p)) vs) = map unat vs" using v by simp
  ultimately show ?thesis
    using assms(1,2,5,6) by (simp add: container_read_def Let_def l read_ids_palette read_exact_def)
qed

lemma container_read_global:
  assumes "(bits :: u8) \<noteq> 0" "palette_bits dim < unat bits" "length packed = div_ceil (dim * dim * dim) (64 div unat bits) * 8"
    "unpack (unat bits) (dim * dim * dim) packed = map unat vs"
  shows "container_read dim (int_write bits @ packed @ rest) = Inr (map unat vs, rest)"
  using assms by (simp add: container_read_def Let_def read_exact_def)

section \<open>Properties\<close>

lemma write_palette_container:
  assumes "cube_ok dim (cube h)" "palette_ok (mset (het_values h)) (palette h)" "2 \<le> length (palette h)" "dim * dim * dim \<le> 4096"
    "table_clean t" "calculate_strategy dim r (length (palette h)) = Some (bits, mode)" "mode \<noteq> Global"
  shows "\<exists>bytes. container_write dim r (Heterogeneous h) t = Some (Inr bytes, t)
    \<and> (\<forall>rest. container_read dim (bytes @ rest) = Inr (map unat (het_values h), rest))"
proof -
  note b = strategy_palette [OF assms(3,6,7)]
  have l: "length (het_values h) = dim * dim * dim" using length_cube_values [OF assms(1)] by (simp add: het_values_def)
  have s: "set (het_values h) = fst ` set (palette h)" using palette_ok_keys [OF assms(2)] by simp
  obtain packed where p: "pack_palette_indices (het_values h) (palette h) bits (replicate MAX_PACKED_BYTES 0) t = (Inr packed, t)"
    "length packed = div_ceil (dim * dim * dim) (64 div unat bits) * 8"
    "unpack (unat bits) (dim * dim * dim) packed = map (\<lambda>v. the (position_of v (palette h))) (het_values h)"
    using pack_palette_indices_spec [of bits "het_values h" t "palette h"] b assms(4,5) l s palette_okD(1) [OF assms(2)] by auto
  have "container_write dim r (Heterogeneous h) t = Some (Inr (int_write bits @ palette_write (palette h) @ packed), t)"
    using assms(6,7) p(1) by (simp add: container_write_def)
  moreover have "container_read dim (int_write bits @ palette_write (palette h) @ packed @ rest) = Inr (map unat (het_values h), rest)" for rest
    using b s p(2,3) by (intro container_read_palette) auto
  ultimately show ?thesis by (metis append_assoc)
qed

lemma write_global_container:
  assumes "cube_ok dim (cube h)" "palette_ok (mset (het_values h)) (palette h)" "dim * dim * dim \<le> 4096" "registered dim r (het_values h)"
    "calculate_strategy dim r (length (palette h)) = Some (bits, Global)"
  shows "\<exists>bytes. container_write dim r (Heterogeneous h) t = Some (Inr bytes, t)
    \<and> (\<forall>rest. container_read dim (bytes @ rest) = Inr (map unat (het_values h), rest))"
proof -
  define n where "n = (if dim = 16 then unat (next_state_id r) else biome_count r)"
  have bits: "bits = ceil_log2 n" "2 ^ palette_bits dim < length (palette h)"
    using strategy_global [OF assms(5)] by (simp_all add: n_def block_state_global_bits_def biome_global_bits_def)
  have n: "n \<le> 2 ^ 16" "\<forall>v \<in> set (het_values h). unat v < n" using assms(4) by (simp_all add: registered_def n_def [symmetric] list_all_iff Let_def)
  have "length (palette h) \<le> n"
    using distinct_registered [OF palette_okD(1) [OF assms(2)], of n] palette_ok_keys [OF assms(2)] n(2) by simp
  then have big: "2 ^ palette_bits dim < n" using bits(2) by simp
  note cl = ceil_log2_bits [OF _ n(1), folded bits(1)]
  have pb: "palette_bits dim < unat bits" "unat bits \<le> 16" using cl(2,3) big by (metis gr_zeroI less_zeroE, metis gr_zeroI less_zeroE)
  then have b: "0 < bits" "bits \<le> 16" "bits \<noteq> 0" by (auto simp: word_less_nat_alt word_le_nat_alt)
  have l: "length (het_values h) = dim * dim * dim" using length_cube_values [OF assms(1)] by (simp add: het_values_def)
  have "\<not> (\<exists>v \<in> set (het_values h). 2 ^ unat bits \<le> unat v)" using n(2) cl(1) by (auto simp: not_le)
  then obtain packed where p: "pack_global_ids (het_values h) bits (replicate MAX_PACKED_BYTES 0) = Inr packed"
    "length packed = div_ceil (dim * dim * dim) (64 div unat bits) * 8"
    "unpack (unat bits) (dim * dim * dim) packed = map unat (het_values h)"
    using pack_global_ids_spec [OF b(1,2), of "het_values h" "replicate MAX_PACKED_BYTES 0"] l
      packed_fits [OF _ pb(2) assms(3)] pb by auto
  have "container_write dim r (Heterogeneous h) t = Some (Inr (int_write bits @ packed), t)"
    using assms(5) p(1) by (simp add: container_write_def)
  moreover have "container_read dim (int_write bits @ packed @ rest) = Inr (map unat (het_values h), rest)" for rest
    using b pb p(2,3) by (intro container_read_global) auto
  ultimately show ?thesis by (metis append_assoc)
qed

lemma container_write_reads:
  assumes "dim = 16 \<or> dim = 4" "container_reach dim c vs" "as_building_slice c = None" "table_clean t" "registered dim r vs"
  shows "\<exists>bytes. container_write dim r c t = Some (Inr bytes, t)
    \<and> (\<forall>rest. container_read dim (bytes @ rest) = Inr (map unat vs, rest))"
proof -
  have d: "dim_ok dim" "dim * dim * dim \<le> 4096" using assms(1) by (auto simp: dim_ok_def)
  from container_reach_ok [OF d(1) assms(2)] have c: "container_ok dim c" "collect_values dim c = vs" by simp_all
  show ?thesis
  proof (cases c)
    case (Homogeneous v)
    then have "vs = replicate (dim * dim * dim) v" using c(2) by (simp add: collect_values_def)
    then show ?thesis using Homogeneous
      by (auto simp: container_write_def container_read_def varint_read_write)
  next
    case (Heterogeneous h)
    then have h: "cube_ok dim (cube h)" "palette_ok (mset (het_values h)) (palette h)" "2 \<le> length (palette h)" "het_values h = vs"
      using c by (simp_all add: container_ok_def collect_values_def)
    obtain bits mode where m: "calculate_strategy dim r (length (palette h)) = Some (bits, mode)"
      using strategy_total [OF h(3)] by blast
    show ?thesis
    proof (cases "mode = Global")
      case True
      then show ?thesis using write_global_container [OF h(1,2) d(2), of r bits t] assms(5) h(4) m Heterogeneous by simp
    next
      case False
      then show ?thesis using write_palette_container [OF h(1,2,3) d(2) assms(4) m] h(4) Heterogeneous by simp
    qed
  qed (use assms(3) in \<open>simp add: as_building_slice_def\<close>)
qed

text \<open>C9: Whatever operations built a container outside building mode, writing it succeeds, leaves the
  index table clean, and a client reads exactly the cells back and nothing behind them: through a
  single value, palette indices or global ids, as the number of distinct values demands.
\<close>

theorem container_wire_round_trip:
  assumes "dim = 16 \<or> dim = 4" "container_reach dim c vs" "as_building_slice c = None" "table_clean t" "registered dim r vs"
  shows "\<exists>bytes. container_write dim r c t = Some (Inr bytes, t)
    \<and> (\<forall>rest. container_read dim (bytes @ rest) = Inr (map unat vs, rest))"
  using container_write_reads [OF assms] .

theorem container_wire_round_trip_witness:
  "\<exists>bytes. container_write 4 \<lparr>next_state_id = 0, biome_count = 65\<rparr> (from_cube (cube_store (cube_fill 4 1) 0 0 0 2))
      (replicate INDEX_TABLE_LEN EMPTY_SLOT) = Some (Inr bytes, replicate INDEX_TABLE_LEN EMPTY_SLOT)
    \<and> container_read 4 bytes = Inr (2 # replicate 63 1, [])"
proof -
  note c = cube_cell [OF cube_fill_ok(1), of 0 4 0 0 "1 :: u16"]
  have v: "cube_values (cube_store (cube_fill 4 1) 0 0 0 2) = 2 # replicate 63 (1 :: u16)"
    using c(3) [of 2] replicate_Suc [of 63 "1 :: u16"] by (simp add: cube_fill_ok(2) cell_index_def)
  have r: "container_reach 4 (from_cube (cube_store (cube_fill 4 1) 0 0 0 2)) (2 # replicate 63 (1 :: u16))"
    using container_reach.of_cube [OF c(4) [of 2]] v by simp
  have "\<exists>bytes. container_write 4 \<lparr>next_state_id = 0, biome_count = 65\<rparr> (from_cube (cube_store (cube_fill 4 1) 0 0 0 2))
      (replicate INDEX_TABLE_LEN EMPTY_SLOT) = Some (Inr bytes, replicate INDEX_TABLE_LEN EMPTY_SLOT)
    \<and> (\<forall>rest. container_read 4 (bytes @ rest) = Inr (map unat (2 # replicate 63 (1 :: u16)), rest))"
    by (rule container_wire_round_trip [OF _ r])
      (simp_all add: from_cube_def as_building_slice_def Let_def table_clean_def registered_def list_all_iff)
  moreover have "map unat (2 # replicate 63 (1 :: u16)) = 2 # replicate 63 1" by simp
  ultimately show ?thesis by (metis append_Nil2)
qed

text \<open>A container whose palette misses one of its cells is refused as a whole, with nothing written:
  the cell is never sent with an index that an earlier palette left in the table, and the table is
  clean again afterwards. A global id wider than the registry's width is refused too, and so is a
  container still in building mode, by a panic.
\<close>

lemma broken_palette_refused:
  assumes "dim * dim * dim \<le> 4096" "cube_ok dim (cube h)" "distinct (map fst (palette h))" "2 \<le> length (palette h)" "table_clean t"
    "calculate_strategy dim r (length (palette h)) = Some (bits, mode)"
    "v \<in> set (het_values h)" "if mode = Global then 2 ^ unat bits \<le> unat v else v \<notin> fst ` set (palette h)"
  shows "(\<exists>e. container_write dim r (Heterogeneous h) t = Some (Inl e, t) \<and> error_kind e = InvalidData)
    \<and> container_write dim r (Building cb) t = None"
proof (cases "mode = Global")
  case True
  then have "drop_bit (unat bits) (fold (\<lambda>value all_ids. or all_ids (to_global_id value)) (het_values h) 0) \<noteq> 0"
    unfolding fold_or_ids using assms(7,8) by (auto simp: drop_bit_zero not_le [symmetric])
  then show ?thesis using True assms(6) by (simp add: container_write_def pack_global_ids_def invalid_data_def)
next
  case False
  note b = strategy_palette [OF assms(4,6) False]
  have "length (het_values h) = dim * dim * dim" using length_cube_values [OF assms(2)] by (simp add: het_values_def)
  then have "pack_palette_indices (het_values h) (palette h) bits (replicate MAX_PACKED_BYTES 0) t =
      (Inl (invalid_data ''container holds a value its palette cannot encode''), t)"
    using pack_palette_indices_spec [of bits "het_values h" t "palette h"] b assms(1,3,5,7,8) False by (auto split: if_splits)
  then show ?thesis using False assms(6) by (simp add: container_write_def invalid_data_def)
qed

end
