(* ===== verification/Chunk_Section.thy ===== *)
theory Chunk_Section
  imports Stable_Air Palette_Encode Positions
begin

text \<open>
  One chunk section, \<open>ChunkSection\<close> of \<open>steel-core/src/chunk/section.rs\<close>: the block and biome
  palettes, the cached counters that decide emptiness and random ticking, and the stable-air
  certificate, with the tracked write path, the world generation path and the recount between them.
  A panic is \<open>None\<close>.
\<close>

section \<open>Sections\<close>

record ChunkSection =
  states :: "u16 PalettedContainer"
  biomes :: "u16 PalettedContainer"
  non_empty_count :: u16
  fluid_count :: u16
  ticking_block_count :: u16
  ticking_fluid_count :: u16
  stable_air_occupancy :: StableAirOccupancy

definition new_with_biomes :: "u16 PalettedContainer \<Rightarrow> u16 PalettedContainer \<Rightarrow> ChunkSection" where
  "new_with_biomes st bi = \<lparr>states = st, biomes = bi, non_empty_count = 0, fluid_count = 0, ticking_block_count = 0,
     ticking_fluid_count = 0, stable_air_occupancy = Unknown\<rparr>"

definition new_empty :: "StateInfo \<Rightarrow> ChunkSection" where
  "new_empty g = \<lparr>states = Homogeneous 0, biomes = Homogeneous (plains_biome g), non_empty_count = 0, fluid_count = 0,
     ticking_block_count = 0, ticking_fluid_count = 0, stable_air_occupancy = Empty\<rparr>"

definition section_is_empty :: "ChunkSection \<Rightarrow> bool" where
  "section_is_empty s \<longleftrightarrow> non_empty_count s = 0"

definition is_randomly_ticking_blocks :: "ChunkSection \<Rightarrow> bool" where
  "is_randomly_ticking_blocks s \<longleftrightarrow> ticking_block_count s > 0"

definition is_randomly_ticking_fluids :: "ChunkSection \<Rightarrow> bool" where
  "is_randomly_ticking_fluids s \<longleftrightarrow> ticking_fluid_count s > 0"

definition is_randomly_ticking :: "ChunkSection \<Rightarrow> bool" where
  "is_randomly_ticking s \<longleftrightarrow> is_randomly_ticking_blocks s \<or> is_randomly_ticking_fluids s"

definition section_has_fluid :: "ChunkSection \<Rightarrow> bool" where
  "section_has_fluid s \<longleftrightarrow> fluid_count s > 0"

definition state_light_emission :: "StateInfo \<Rightarrow> u16 \<Rightarrow> u8" where
  "state_light_emission g state = light_emission (get_light_properties (info_registry g) state)"

definition maybe_has_block_light_sources :: "StateInfo \<Rightarrow> ChunkSection \<Rightarrow> bool" where
  "maybe_has_block_light_sources g s \<longleftrightarrow> \<not> section_is_empty s \<and> maybe_has (\<lambda>state. state_light_emission g state > 0) (states s)"

definition stable_air_box_is_clear :: "ChunkSection \<Rightarrow> nat \<Rightarrow> nat \<Rightarrow> nat \<Rightarrow> nat \<Rightarrow> nat \<Rightarrow> nat \<Rightarrow> bool option" where
  "stable_air_box_is_clear s min_x max_x min_y max_y min_z max_z =
    box_is_clear (stable_air_occupancy s) min_x max_x min_y max_y min_z max_z"

definition invalidate_stable_air_occupancy :: "ChunkSection \<Rightarrow> ChunkSection" where
  "invalidate_stable_air_occupancy s = s\<lparr>stable_air_occupancy := Unknown\<rparr>"

text \<open>A loop that stops at the first panic.\<close>

fun map_panic :: "('a \<Rightarrow> 'b option) \<Rightarrow> 'a list \<Rightarrow> 'b list option" where
  "map_panic f [] = Some []"
| "map_panic f (x # xs) = (case f x of None \<Rightarrow> None | Some y \<Rightarrow> map_option (\<lambda>ys. y # ys) (map_panic f xs))"

definition append_block_light_sources :: "StateInfo \<Rightarrow> i32 \<Rightarrow> i32 \<Rightarrow> i32 \<Rightarrow> ChunkSection \<Rightarrow> BlockPos list option" where
  "append_block_light_sources g chunk_min_x section_min_y chunk_min_z s =
    (if \<not> maybe_has_block_light_sources g s then Some []
     else map_option (\<lambda>found. map (\<lambda>(local_index, _). BlockPos
           (chunk_min_x + of_nat (and local_index 15)) (section_min_y + of_nat (drop_bit 8 local_index))
           (chunk_min_z + of_nat (and (drop_bit 4 local_index) 15)))
         (filter (\<lambda>(_, state). state_light_emission g state \<noteq> 0) found))
       (map_panic (\<lambda>local_index. map_option (\<lambda>state. (local_index, state)) (container_get_at_index 16 (states s) local_index))
         [0..<16 * 16 * 16]))"

definition contains_poi :: "(u16 \<Rightarrow> bool) \<Rightarrow> ChunkSection \<Rightarrow> bool" where
  "contains_poi is_poi_state s = (case states s of
     Homogeneous state \<Rightarrow> is_poi_state state
   | Heterogeneous h \<Rightarrow> list_ex (\<lambda>(state, _). is_poi_state state) (palette h)
   | Building _ \<Rightarrow> True)"

section \<open>Counters\<close>

record BlockStateSectionCounts =
  counts_air :: bool
  counts_fluid :: bool
  counts_ticking_block :: bool
  counts_ticking_fluid :: bool

definition block_state_section_counts :: "StateInfo \<Rightarrow> u16 \<Rightarrow> BlockStateSectionCounts option" where
  "block_state_section_counts g state =
    map_option (\<lambda>m. \<lparr>counts_air = metadata_is_air m, counts_fluid = metadata_has_fluid m,
      counts_ticking_block = randomly_ticking_block m, counts_ticking_fluid = randomly_ticking_fluid m\<rparr>)
    (get_ticking_metadata (info_registry g) state)"

type_synonym Counters = "u16 \<times> u16 \<times> u16 \<times> u16"

fun accumulate_counter_traits :: "BlockStateSectionCounts \<Rightarrow> u16 \<Rightarrow> Counters \<Rightarrow> Counters" where
  "accumulate_counter_traits counts n (non_empty, fluid, ticking_blocks, ticking_fluids) =
    (if \<not> counts_air counts then non_empty + n else non_empty,
     if counts_fluid counts then fluid + n else fluid,
     if counts_ticking_block counts then ticking_blocks + n else ticking_blocks,
     if counts_ticking_fluid counts then ticking_fluids + n else ticking_fluids)"

fun accumulate_palette :: "(u16 \<Rightarrow> BlockStateSectionCounts option) \<Rightarrow> (u16 \<times> u16) list \<Rightarrow> Counters \<Rightarrow> Counters option" where
  "accumulate_palette counts_for_state [] c = Some c"
| "accumulate_palette counts_for_state ((state, n) # entries) c = (case counts_for_state state of
     None \<Rightarrow> None
   | Some counts \<Rightarrow> accumulate_palette counts_for_state entries (accumulate_counter_traits counts n c))"

definition recalculate_counts :: "StateInfo \<Rightarrow> ChunkSection \<Rightarrow> ChunkSection option" where
  "recalculate_counts g s =
    (let st = finalize_building (states s) in
     case occupancy_from_palette g st of
       None \<Rightarrow> None
     | Some occupancy \<Rightarrow>
         (case (case st of
             Homogeneous state \<Rightarrow> accumulate_palette (block_state_section_counts g) [(state, BLOCKS_PER_SECTION)] (0, 0, 0, 0)
           | Heterogeneous h \<Rightarrow> accumulate_palette (block_state_section_counts g) (palette h) (0, 0, 0, 0)
           | Building _ \<Rightarrow> None) of
            None \<Rightarrow> None
          | Some (non_empty, fluid, ticking_blocks, ticking_fluids) \<Rightarrow>
              Some (s\<lparr>states := st, non_empty_count := non_empty, fluid_count := fluid, ticking_block_count := ticking_blocks,
                ticking_fluid_count := ticking_fluids, stable_air_occupancy := occupancy\<rparr>)))"

definition is_building :: "ChunkSection \<Rightarrow> bool" where
  "is_building s \<longleftrightarrow> (case states s of Building _ \<Rightarrow> True | _ \<Rightarrow> False)"

definition finalize_generation_counts_if_needed :: "StateInfo \<Rightarrow> ChunkSection \<Rightarrow> ChunkSection option" where
  "finalize_generation_counts_if_needed g s = (if is_building s then recalculate_counts g s else Some s)"

definition ensure_counter_ready_for_delta :: "StateInfo \<Rightarrow> ChunkSection \<Rightarrow> ChunkSection option" where
  "ensure_counter_ready_for_delta g s = (if is_building s then recalculate_counts g s else Some s)"

definition apply_count_change :: "BlockStateSectionCounts \<Rightarrow> BlockStateSectionCounts \<Rightarrow> ChunkSection \<Rightarrow> ChunkSection" where
  "apply_count_change old_counts new_counts s = s\<lparr>
     non_empty_count := (if \<not> counts_air old_counts \<and> counts_air new_counts then non_empty_count s - 1
       else if counts_air old_counts \<and> \<not> counts_air new_counts then non_empty_count s + 1 else non_empty_count s),
     fluid_count := (if counts_fluid old_counts \<and> \<not> counts_fluid new_counts then fluid_count s - 1
       else if \<not> counts_fluid old_counts \<and> counts_fluid new_counts then fluid_count s + 1 else fluid_count s),
     ticking_block_count := (if counts_ticking_block old_counts \<and> \<not> counts_ticking_block new_counts then ticking_block_count s - 1
       else if \<not> counts_ticking_block old_counts \<and> counts_ticking_block new_counts then ticking_block_count s + 1 else ticking_block_count s),
     ticking_fluid_count := (if counts_ticking_fluid old_counts \<and> \<not> counts_ticking_fluid new_counts then ticking_fluid_count s - 1
       else if \<not> counts_ticking_fluid old_counts \<and> counts_ticking_fluid new_counts then ticking_fluid_count s + 1 else ticking_fluid_count s)\<rparr>"

section \<open>Writes\<close>

definition set_block_state :: "StateInfo \<Rightarrow> nat \<Rightarrow> nat \<Rightarrow> nat \<Rightarrow> u16 \<Rightarrow> ChunkSection \<Rightarrow> (u16 \<times> ChunkSection) option" where
  "set_block_state g x y z new_state s =
    Option.bind (ensure_counter_ready_for_delta g s) (\<lambda>s.
    Option.bind (container_set 16 (states s) x y z new_state) (\<lambda>(old_state, st).
      let s = s\<lparr>states := st\<rparr> in
      if old_state = new_state then Some (old_state, s)
      else
        Option.bind (block_state_section_counts g old_state) (\<lambda>old_counts.
        Option.bind (block_state_section_counts g new_state) (\<lambda>new_counts.
          let s = apply_count_change old_counts new_counts s in
          map_option (\<lambda>occupancy. (old_state, s\<lparr>stable_air_occupancy := occupancy\<rparr>))
            (record_change g x y z old_state new_state (stable_air_occupancy s))))))"

definition set_block_state_for_generation :: "nat \<Rightarrow> nat \<Rightarrow> nat \<Rightarrow> u16 \<Rightarrow> ChunkSection \<Rightarrow> (u16 \<times> ChunkSection) option" where
  "set_block_state_for_generation x y z new_state s =
    (let s = invalidate_stable_air_occupancy s; s = s\<lparr>states := enter_building_mode 16 (states s)\<rparr>
     in map_option (\<lambda>(old_state, st). (old_state, s\<lparr>states := st\<rparr>)) (container_set 16 (states s) x y z new_state))"

section \<open>The wire form\<close>

definition section_write :: "RegistrySizes \<Rightarrow> ChunkSection \<Rightarrow> IndexTable \<Rightarrow> (u8 list \<times> IndexTable) option" where
  "section_write r s table = (case container_write 16 r (states s) table of
     Some (Inr block_bytes, table) \<Rightarrow>
       (case container_write 4 r (biomes s) table of
          Some (Inr biome_bytes, table) \<Rightarrow>
            Some (int_write (non_empty_count s) @ int_write (fluid_count s) @ block_bytes @ biome_bytes, table)
        | _ \<Rightarrow> None)
   | _ \<Rightarrow> None)"

section \<open>What the counters count\<close>

definition has_trait :: "(BlockStateSectionCounts \<Rightarrow> bool) \<Rightarrow> StateInfo \<Rightarrow> u16 \<Rightarrow> bool" where
  "has_trait f g v \<longleftrightarrow> (case block_state_section_counts g v of Some c \<Rightarrow> f c | None \<Rightarrow> False)"

abbreviation non_air :: "StateInfo \<Rightarrow> u16 \<Rightarrow> bool" where
  "non_air \<equiv> has_trait (\<lambda>c. \<not> counts_air c)"

definition counted :: "('v \<Rightarrow> bool) \<Rightarrow> 'v list \<Rightarrow> u16" where
  "counted f vs = of_nat (length (filter f vs))"

definition counters_of :: "StateInfo \<Rightarrow> u16 list \<Rightarrow> Counters" where
  "counters_of g vs = (counted (non_air g) vs, counted (has_trait counts_fluid g) vs,
     counted (has_trait counts_ticking_block g) vs, counted (has_trait counts_ticking_fluid g) vs)"

definition counters_ok :: "StateInfo \<Rightarrow> ChunkSection \<Rightarrow> u16 list \<Rightarrow> bool" where
  "counters_ok g s vs \<longleftrightarrow> (non_empty_count s, fluid_count s, ticking_block_count s, ticking_fluid_count s) = counters_of g vs"

lemma known_counts: "v \<in> known_states g \<longleftrightarrow> (\<exists>c. block_state_section_counts g v = Some c)"
  by (auto simp: known_states_def is_stable_vanilla_air_def state_is_air_def block_state_section_counts_def)

lemma known_counts_eq:
  "v \<in> known_states g \<Longrightarrow> block_state_section_counts g v = Some \<lparr>counts_air = \<not> non_air g v,
    counts_fluid = has_trait counts_fluid g v, counts_ticking_block = has_trait counts_ticking_block g v,
    counts_ticking_fluid = has_trait counts_ticking_fluid g v\<rparr>"
  by (auto simp: known_counts has_trait_def)

definition palette_sum :: "('v \<Rightarrow> bool) \<Rightarrow> ('v \<times> u16) list \<Rightarrow> u16" where
  "palette_sum f p = sum_list (map snd (filter (f \<circ> fst) p))"

lemma palette_sum_simps [simp]:
  "palette_sum f [] = 0" "palette_sum f ((v, n) # p) = (if f v then n + palette_sum f p else palette_sum f p)"
  by (simp_all add: palette_sum_def)

lemma accumulate_palette_sums:
  "fst ` set p \<subseteq> known_states g \<Longrightarrow> accumulate_palette (block_state_section_counts g) p (a, b, c, d) =
    Some (a + palette_sum (non_air g) p, b + palette_sum (has_trait counts_fluid g) p,
      c + palette_sum (has_trait counts_ticking_block g) p, d + palette_sum (has_trait counts_ticking_fluid g) p)"
proof (induction p arbitrary: a b c d)
  case (Cons e p)
  then show ?case by (cases e) (simp add: known_counts_eq add.assoc)
qed simp

lemma counted_replicate: "counted f (replicate 4096 v) = (if f v then BLOCKS_PER_SECTION else 0)"
  by (simp add: counted_def BLOCKS_PER_SECTION_def)

lemma counted_update:
  assumes "i < length vs"
  shows "counted f (vs[i := v]) = (if f (vs ! i) \<and> \<not> f v then counted f vs - 1 else if \<not> f (vs ! i) \<and> f v then counted f vs + 1 else counted f vs)"
proof -
  from update_count [OF assms, of f v]
  have "(of_nat (length (filter f (vs[i := v])) + (if f (vs ! i) then 1 else 0)) :: u16) = of_nat (length (filter f vs) + (if f v then 1 else 0))"
    by simp
  then show ?thesis by (auto simp: counted_def algebra_simps split: if_splits)
qed

lemma recalculate_counts_ok:
  assumes "container_ok 16 (states s)" "collect_values 16 (states s) = vs" "set vs \<subseteq> known_states g"
  obtains s' where "recalculate_counts g s = Some s'" "states s' = finalize_building (states s)" "biomes s' = biomes s"
    "counters_ok g s' vs" "occupancy_ok g (stable_air_occupancy s') vs" "stable_air_occupancy s' \<noteq> Unknown" "\<not> is_building s'"
proof -
  have d: "dim_ok 16" by (simp add: dim_ok_def)
  define st where "st = finalize_building (states s)"
  have st: "container_ok 16 st" "collect_values 16 st = vs" "as_building_slice st = None"
    using building_values(3,4,6) [OF d assms(1)] assms(2) by (simp_all add: st_def)
  obtain occ where occ: "occupancy_from_palette g st = Some occ" "occupancy_ok g occ vs" "occ \<noteq> Unknown"
    using occupancy_from_palette_ok [OF st(1), of g] st(2,3) assms(3) by auto
  have "(case st of
             Homogeneous state \<Rightarrow> accumulate_palette (block_state_section_counts g) [(state, BLOCKS_PER_SECTION)] (0, 0, 0, 0)
           | Heterogeneous h \<Rightarrow> accumulate_palette (block_state_section_counts g) (palette h) (0, 0, 0, 0)
           | Building _ \<Rightarrow> None) = Some (counters_of g vs)"
  proof (cases st)
    case (Homogeneous v)
    then have "vs = replicate 4096 v" using st(2) by (simp add: collect_values_def)
    then show ?thesis using Homogeneous assms(3) accumulate_palette_sums [of "[(v, BLOCKS_PER_SECTION)]" g 0 0 0 0]
      by (simp add: counters_of_def counted_replicate del: accumulate_palette.simps)
  next
    case (Heterogeneous h)
    then have h: "palette_ok (mset vs) (palette h)" using st by (simp add: container_ok_def collect_values_def)
    have "palette_sum f (palette h) = counted f vs" for f using palette_ok_total [OF h] by (simp add: palette_sum_def counted_def)
    then show ?thesis using Heterogeneous accumulate_palette_sums [of "palette h" g 0 0 0 0] palette_ok_keys [OF h] assms(3)
      by (simp add: counters_of_def)
  qed (use st(3) in \<open>simp add: as_building_slice_def\<close>)
  moreover obtain a b c e where "counters_of g vs = (a, b, c, e)" by (cases "counters_of g vs") auto
  ultimately show ?thesis using occ st(3)
    by (intro that [of "s\<lparr>states := st, non_empty_count := a, fluid_count := b, ticking_block_count := c, ticking_fluid_count := e,
        stable_air_occupancy := occ\<rparr>"])
      (simp_all add: recalculate_counts_def st_def [symmetric] counters_ok_def is_building_def as_building_slice_def split: PalettedContainer.splits)
qed

section \<open>The invariant of a section\<close>

text \<open>The counters of a loaded section are all zero until it is first counted; \<open>c\<close> says that it was
  counted, or entered building mode, which ends with a recount.\<close>

definition section_ok :: "StateInfo \<Rightarrow> bool \<Rightarrow> ChunkSection \<Rightarrow> u16 list \<Rightarrow> bool" where
  "section_ok g c s vs \<longleftrightarrow> container_reach 16 (states s) vs \<and> set vs \<subseteq> known_states g
    \<and> occupancy_ok g (stable_air_occupancy s) vs \<and> (c \<and> \<not> is_building s \<longrightarrow> counters_ok g s vs)"

lemma section_ok_less: "section_ok g c s vs \<Longrightarrow> (c' \<Longrightarrow> c) \<Longrightarrow> section_ok g c' s vs"
  by (auto simp: section_ok_def)

lemma section_ok_building: "section_ok g c s vs \<Longrightarrow> is_building s \<Longrightarrow> section_ok g c' s vs"
  by (simp add: section_ok_def)

lemma section_okD:
  assumes "section_ok g c s vs"
  shows "container_ok 16 (states s)" "collect_values 16 (states s) = vs" "length vs = 4096" "set vs \<subseteq> known_states g"
proof -
  have "dim_ok 16" by (simp add: dim_ok_def)
  then show c: "container_ok 16 (states s)" "collect_values 16 (states s) = vs"
    using container_reach_ok [of 16 "states s" vs] assms by (simp_all add: section_ok_def)
  then show "length vs = 4096" using length_collect_values [OF c(1)] by simp
  show "set vs \<subseteq> known_states g" using assms by (simp add: section_ok_def)
qed

lemma section_recalculated:
  assumes "container_reach 16 (states s) vs" "set vs \<subseteq> known_states g"
  obtains s' where "recalculate_counts g s = Some s'" "section_ok g True s' vs" "\<not> is_building s'" "biomes s' = biomes s"
    "stable_air_occupancy s' \<noteq> Unknown"
proof -
  have "dim_ok 16" by (simp add: dim_ok_def)
  from container_reach_ok [OF this assms(1)] have c: "container_ok 16 (states s)" "collect_values 16 (states s) = vs" by simp_all
  obtain s' where "recalculate_counts g s = Some s'" "states s' = finalize_building (states s)" "biomes s' = biomes s"
    "counters_ok g s' vs" "occupancy_ok g (stable_air_occupancy s') vs" "stable_air_occupancy s' \<noteq> Unknown" "\<not> is_building s'"
    using recalculate_counts_ok [OF c assms(2)] .
  then show ?thesis using that [of s'] container_reach.finish [OF assms(1)] assms(2) by (simp add: section_ok_def)
qed

lemma is_building_slice: "is_building s \<longleftrightarrow> as_building_slice (states s) \<noteq> None"
  by (simp add: is_building_def as_building_slice_def split: PalettedContainer.splits)

lemma container_set_mode:
  "container_set dim c x y z v = Some (old, c') \<Longrightarrow> as_building_slice c' = None \<longleftrightarrow> as_building_slice c = None"
  by (auto simp: container_set_def as_building_slice_def from_cube_def Let_def split: PalettedContainer.splits if_splits option.splits)

lemma apply_count_change_ok:
  assumes "counters_ok g s vs" "i < length vs"
    "block_state_section_counts g (vs ! i) = Some old_counts" "block_state_section_counts g v = Some new_counts"
  shows "counters_ok g (apply_count_change old_counts new_counts s) (vs[i := v])"
proof -
  have c: "counts_air old_counts \<longleftrightarrow> \<not> non_air g (vs ! i)" "counts_air new_counts \<longleftrightarrow> \<not> non_air g v"
    "counts_fluid old_counts \<longleftrightarrow> has_trait counts_fluid g (vs ! i)" "counts_fluid new_counts \<longleftrightarrow> has_trait counts_fluid g v"
    "counts_ticking_block old_counts \<longleftrightarrow> has_trait counts_ticking_block g (vs ! i)"
    "counts_ticking_block new_counts \<longleftrightarrow> has_trait counts_ticking_block g v"
    "counts_ticking_fluid old_counts \<longleftrightarrow> has_trait counts_ticking_fluid g (vs ! i)"
    "counts_ticking_fluid new_counts \<longleftrightarrow> has_trait counts_ticking_fluid g v"
    using assms(3,4) by (simp_all add: has_trait_def)
  have "non_empty_count s = counted (non_air g) vs" "fluid_count s = counted (has_trait counts_fluid g) vs"
    "ticking_block_count s = counted (has_trait counts_ticking_block g) vs"
    "ticking_fluid_count s = counted (has_trait counts_ticking_fluid g) vs"
    using assms(1) by (simp_all add: counters_ok_def counters_of_def)
  then show ?thesis
    unfolding counters_ok_def counters_of_def apply_count_change_def c counted_update [OF assms(2)] by simp
qed

lemma counters_ok_update [simp]:
  "counters_ok g (s\<lparr>states := c\<rparr>) vs = counters_ok g s vs"
  "counters_ok g (s\<lparr>stable_air_occupancy := occ\<rparr>) vs = counters_ok g s vs"
  by (simp_all add: counters_ok_def)

lemma apply_count_change_sel [simp]:
  "states (apply_count_change old_counts new_counts s) = states s"
  "biomes (apply_count_change old_counts new_counts s) = biomes s"
  "stable_air_occupancy (apply_count_change old_counts new_counts s) = stable_air_occupancy s"
  "apply_count_change old_counts new_counts (s\<lparr>states := c\<rparr>) = (apply_count_change old_counts new_counts s)\<lparr>states := c\<rparr>"
  by (simp_all add: apply_count_change_def)

lemma ensure_ready:
  assumes "section_ok g c s vs"
  obtains s' where "ensure_counter_ready_for_delta g s = Some s'" "section_ok g c s' vs" "\<not> is_building s'" "biomes s' = biomes s"
proof (cases "is_building s")
  case True
  obtain s' where "recalculate_counts g s = Some s'" "section_ok g True s' vs" "\<not> is_building s'" "biomes s' = biomes s"
    using section_recalculated [of s vs g] assms by (auto simp: section_ok_def)
  then show ?thesis using that [of s'] True section_ok_less [of g True s' vs c] by (simp add: ensure_counter_ready_for_delta_def)
next
  case False
  then show ?thesis using that [of s] assms by (simp add: ensure_counter_ready_for_delta_def)
qed

lemma set_block_state_ok:
  assumes "section_ok g c s vs" "x < 16" "y < 16" "z < 16" "v \<in> known_states g"
  obtains s' where "set_block_state g x y z v s = Some (vs ! cell_index 16 x y z, s')"
    "section_ok g c s' (vs[cell_index 16 x y z := v])" "\<not> is_building s'" "biomes s' = biomes s"
proof -
  let ?i = "cell_index 16 x y z"
  have d: "dim_ok 16" by (simp add: dim_ok_def)
  obtain s1 where s1: "ensure_counter_ready_for_delta g s = Some s1" "section_ok g c s1 vs" "\<not> is_building s1" "biomes s1 = biomes s"
    using ensure_ready [OF assms(1)] .
  note ok = section_okD [OF s1(2)]
  obtain st where c: "container_set 16 (states s1) x y z v = Some (vs ! ?i, st)"
    using container_set_value [OF d ok(1) assms(2-4), of v] ok(2) by auto
  have reach: "container_reach 16 st (vs[?i := v])"
    using container_reach.set_cell [OF _ assms(2-4) c] s1(2) by (simp add: section_ok_def)
  have nb: "as_building_slice st = None" using container_set_mode [OF c] s1(3) by (simp add: is_building_slice)
  have i: "?i < length vs" using assms(2-4) ok(3) by (simp add: cell_index_def)
  have known: "set (vs[?i := v]) \<subseteq> known_states g" "vs ! ?i \<in> known_states g"
    using ok(4) assms(5) set_update_subset_insert [of vs ?i v] nth_mem [OF i] by auto
  show ?thesis
  proof (cases "vs ! ?i = v")
    case True
    then have "vs[?i := v] = vs" by (metis list_update_id)
    then show ?thesis using True c s1 reach nb
      by (intro that [of "s1\<lparr>states := st\<rparr>"])
        (simp_all add: set_block_state_def section_ok_def is_building_slice counters_ok_def)
  next
    case False
    obtain co cn where cs: "block_state_section_counts g (vs ! ?i) = Some co" "block_state_section_counts g v = Some cn"
      using known(2) assms(5) by (auto simp: known_counts)
    obtain occ where occ: "record_change g x y z (vs ! ?i) v (stable_air_occupancy s1) = Some occ" "occupancy_ok g occ (vs[?i := v])"
      using record_change_ok [of g "stable_air_occupancy s1" vs x y z v] s1(2) ok(3,4) assms(2-5) by (auto simp: section_ok_def)
    have "c \<longrightarrow> counters_ok g (apply_count_change co cn s1) (vs[?i := v])"
      using apply_count_change_ok [OF _ i cs] s1(2,3) by (simp add: section_ok_def)
    moreover have "set_block_state g x y z v s = Some (vs ! ?i, (apply_count_change co cn s1)\<lparr>states := st, stable_air_occupancy := occ\<rparr>)"
      using False c s1(1) cs occ(1) by (simp add: set_block_state_def)
    ultimately show ?thesis using reach nb known(1) occ(2) s1(4)
      by (intro that [of "(apply_count_change co cn s1)\<lparr>states := st, stable_air_occupancy := occ\<rparr>"])
        (simp_all add: section_ok_def is_building_slice)
  qed
qed

lemma set_for_generation_ok:
  assumes "section_ok g c s vs" "x < 16" "y < 16" "z < 16" "v \<in> known_states g"
  obtains s' where "set_block_state_for_generation x y z v s = Some (vs ! cell_index 16 x y z, s')"
    "section_ok g c' s' (vs[cell_index 16 x y z := v])" "is_building s'" "biomes s' = biomes s"
proof -
  let ?i = "cell_index 16 x y z"
  have d: "dim_ok 16" by (simp add: dim_ok_def)
  have r: "container_reach 16 (enter_building_mode 16 (states s)) vs" using assms(1) container_reach.enter [of 16 "states s" vs] by (simp add: section_ok_def)
  from container_reach_ok [OF d r] have ok: "container_ok 16 (enter_building_mode 16 (states s))"
    "collect_values 16 (enter_building_mode 16 (states s)) = vs" by simp_all
  obtain st where c: "container_set 16 (enter_building_mode 16 (states s)) x y z v = Some (vs ! ?i, st)"
    using container_set_value [OF d ok(1) assms(2-4), of v] ok(2) by auto
  have b: "as_building_slice st \<noteq> None"
    using container_set_mode [OF c] building_values(5) [OF d section_okD(1) [OF assms(1)]] by simp
  have "set (vs[?i := v]) \<subseteq> known_states g"
    using section_okD(4) [OF assms(1)] assms(5) set_update_subset_insert [of vs ?i v] by auto
  then show ?thesis using c b container_reach.set_cell [OF r assms(2-4) c]
    by (intro that [of "s\<lparr>stable_air_occupancy := Unknown, states := st\<rparr>"])
      (simp_all add: set_block_state_for_generation_def invalidate_stable_air_occupancy_def section_ok_def is_building_slice occupancy_ok_def)
qed

end
