(* ===== verification/Section_Index.thy ===== *)
theory Section_Index
  imports Var_Int
begin

text \<open>
  The index of the sections with randomly ticking content, \<open>RandomTickSectionBits\<close> of
  \<open>steel-core/src/chunk/section.rs\<close>: a bit set with a search for the next section. The atomic
  words are read and written one operation at a time, so the operations are steps on a plain state;
  an index out of range is the panic \<open>None\<close>. The locale \<open>tick_index\<close> is what the sections and the
  random tick loop rely on.
\<close>

section \<open>The bit set\<close>

record RandomTickSectionBits =
  tick_words :: "u64 list"
  section_count :: nat

definition tick_bits_new :: "nat \<Rightarrow> RandomTickSectionBits" where
  "tick_bits_new n = \<lparr>tick_words = replicate (div_ceil n 64) 0, section_count = n\<rparr>"

definition tick_bits_set :: "nat \<Rightarrow> bool \<Rightarrow> RandomTickSectionBits \<Rightarrow> RandomTickSectionBits option" where
  "tick_bits_set section_index randomly_ticking b =
    (let word_index = section_index div 64;
         mask = push_bit (section_index mod 64) 1
     in if word_index < length (tick_words b)
        then Some (b\<lparr>tick_words := (tick_words b)[word_index :=
               if randomly_ticking then or (tick_words b ! word_index) mask
               else and (tick_words b ! word_index) (not mask)]\<rparr>)
        else None)"

definition tick_bits_contains :: "nat \<Rightarrow> RandomTickSectionBits \<Rightarrow> bool option" where
  "tick_bits_contains section_index b =
    (let word_index = section_index div 64;
         mask = push_bit (section_index mod 64) 1
     in if word_index < length (tick_words b) then Some (and (tick_words b ! word_index) mask \<noteq> 0) else None)"

definition trailing_zeros :: "'a::len word \<Rightarrow> nat" where
  "trailing_zeros w = length (takeWhile (\<lambda>i. \<not> bit w i) [0..<LENGTH('a)])"

text \<open>The loop of \<open>next\<close>, from the bits of the current word on.\<close>

function next_bit :: "RandomTickSectionBits \<Rightarrow> nat \<Rightarrow> u64 \<Rightarrow> nat option" where
  "next_bit b word_index bits =
    (if bits \<noteq> 0 then
       (let section_index = word_index * 64 + trailing_zeros bits
        in if section_index < section_count b then Some section_index else None)
     else if Suc word_index < length (tick_words b) then next_bit b (Suc word_index) (tick_words b ! Suc word_index)
     else None)"
  by pat_completeness auto
termination
  by (relation "measure (\<lambda>(b, word_index, bits). length (tick_words b) - word_index)") auto

declare next_bit.simps [simp del]

definition tick_bits_next :: "nat \<Rightarrow> RandomTickSectionBits \<Rightarrow> nat option option" where
  "tick_bits_next start b =
    (if start \<ge> section_count b then Some None
     else
       let word_index = start div 64; bit_index = start mod 64
       in if word_index < length (tick_words b)
          then Some (next_bit b word_index (and (tick_words b ! word_index) (push_bit bit_index (- 1))))
          else None)"

definition tick_bits_is_empty :: "RandomTickSectionBits \<Rightarrow> bool option" where
  "tick_bits_is_empty b = map_option (\<lambda>i. i = None) (tick_bits_next 0 b)"

section \<open>The contract\<close>

text \<open>
  What clients rely on: an index over \<open>limit\<close> sections that remembers the last value put for each and
  finds the first one at or after a start.
\<close>

definition first_from :: "(nat \<Rightarrow> bool) \<Rightarrow> nat \<Rightarrow> nat \<Rightarrow> nat option" where
  "first_from f start n = find f [start..<n]"

locale tick_index =
  fixes valid :: "'b \<Rightarrow> bool"
    and limit :: "'b \<Rightarrow> nat"
    and has :: "'b \<Rightarrow> nat \<Rightarrow> bool"
    and put :: "nat \<Rightarrow> bool \<Rightarrow> 'b \<Rightarrow> 'b option"
    and next_from :: "nat \<Rightarrow> 'b \<Rightarrow> nat option option"
  assumes put_law: "valid b \<Longrightarrow> i < limit b \<Longrightarrow>
      \<exists>b'. put i v b = Some b' \<and> valid b' \<and> limit b' = limit b \<and> (\<forall>j < limit b. has b' j \<longleftrightarrow> (if j = i then v else has b j))"
    and next_law: "valid b \<Longrightarrow> next_from start b = Some (first_from (has b) start (limit b))"
begin

text \<open>Putting a whole list of values, in any order of the sections.\<close>

primrec put_all :: "(nat \<times> bool) list \<Rightarrow> 'b \<Rightarrow> 'b option" where
  "put_all [] b = Some b"
| "put_all (e # es) b = Option.bind (put (fst e) (snd e) b) (put_all es)"

lemma put_all_law:
  "valid b \<Longrightarrow> \<forall>e \<in> set es. fst e < limit b \<Longrightarrow> \<exists>b'. put_all es b = Some b' \<and> valid b' \<and> limit b' = limit b
    \<and> (\<forall>j < limit b. has b' j \<longleftrightarrow> (case map_of (rev es) j of Some v \<Rightarrow> v | None \<Rightarrow> has b j))"
proof (induction es arbitrary: b)
  case (Cons e es)
  obtain b1 where b1: "put (fst e) (snd e) b = Some b1" "valid b1" "limit b1 = limit b"
    "\<forall>j < limit b. has b1 j \<longleftrightarrow> (if j = fst e then snd e else has b j)"
    using put_law [OF Cons.prems(1), of "fst e" "snd e"] Cons.prems(2) by auto
  obtain b' where "put_all es b1 = Some b'" "valid b'" "limit b' = limit b"
    "\<forall>j < limit b. has b' j \<longleftrightarrow> (case map_of (rev es) j of Some v \<Rightarrow> v | None \<Rightarrow> has b1 j)"
    using Cons.IH [OF b1(2)] Cons.prems(2) b1(3) by auto
  then show ?case using b1 by (cases e) (auto simp: map_add_def split: option.splits)
qed simp

text \<open>A search never goes back and finds nothing only when nothing is left.\<close>

lemma next_sound:
  assumes "valid b" "next_from start b = Some (Some i)"
  shows "start \<le> i" "i < limit b" "has b i" "\<forall>j. start \<le> j \<and> j < i \<longrightarrow> \<not> has b j"
proof -
  have f: "find (has b) [start..<limit b] = Some i" using next_law [OF assms(1), of start] assms(2) by (simp add: first_from_def)
  then obtain k where k: "k < limit b - start" "i = start + k" "has b i" "\<forall>j < k. \<not> has b (start + j)"
    unfolding find_Some_iff by auto
  then show "start \<le> i" "i < limit b" "has b i" by auto
  show "\<forall>j. start \<le> j \<and> j < i \<longrightarrow> \<not> has b j"
  proof (intro allI impI)
    fix j
    assume "start \<le> j \<and> j < i"
    then have "j = start + (j - start)" "j - start < k" using k(2) by auto
    with k(4) show "\<not> has b j" by metis
  qed
qed

lemma next_none:
  assumes "valid b" "next_from start b = Some None" "start \<le> j" "j < limit b"
  shows "\<not> has b j"
  using assms(2-4) next_law [OF assms(1), of start] by (auto simp: first_from_def find_None_iff)

end

section \<open>The bit set meets the contract\<close>

definition tick_bits_ok :: "RandomTickSectionBits \<Rightarrow> bool" where
  "tick_bits_ok b \<longleftrightarrow> length (tick_words b) = div_ceil (section_count b) 64"

definition tick_bit :: "RandomTickSectionBits \<Rightarrow> nat \<Rightarrow> bool" where
  "tick_bit b i \<longleftrightarrow> bit (tick_words b ! (i div 64)) (i mod 64)"

lemma word_of_section:
  "tick_bits_ok b \<Longrightarrow> i < section_count b \<Longrightarrow> i div 64 < length (tick_words b)"
  by (simp add: tick_bits_ok_def less_div_ceil)

lemma mask_bit: "and w (push_bit n 1) \<noteq> 0 \<longleftrightarrow> bit w n" for w :: u64
  by (simp add: and_exp_eq_0_iff_not_bit)

lemma tick_bits_contains_bit:
  "tick_bits_ok b \<Longrightarrow> i < section_count b \<Longrightarrow> tick_bits_contains i b = Some (tick_bit b i)"
  using mask_bit unfolding tick_bits_contains_def Let_def by (simp only: tick_bit_def word_of_section if_True)

lemma div_mod_64_eq: "j div 64 = i div 64 \<Longrightarrow> j mod 64 = i mod 64 \<longleftrightarrow> j = i" for i j :: nat
  by (metis div_mult_mod_eq)

lemma tick_bits_set_bit:
  assumes "tick_bits_ok b" "i < section_count b"
  shows "\<exists>b'. tick_bits_set i v b = Some b' \<and> tick_bits_ok b' \<and> section_count b' = section_count b
    \<and> (\<forall>j < section_count b. tick_bit b' j \<longleftrightarrow> (if j = i then v else tick_bit b j))"
proof -
  define w where "w = (if v then or (tick_words b ! (i div 64)) (push_bit (i mod 64) 1)
    else and (tick_words b ! (i div 64)) (not (push_bit (i mod 64) 1)))"
  have l: "i div 64 < length (tick_words b)" using word_of_section [OF assms] .
  have w: "bit w k \<longleftrightarrow> (if k = i mod 64 then v else bit (tick_words b ! (i div 64)) k)" if "k < 64" for k
    using that by (auto simp: w_def bit_simps)
  have "bit ((tick_words b)[i div 64 := w] ! (j div 64)) (j mod 64) \<longleftrightarrow> (if j = i then v else tick_bit b j)" for j
    using l w [of "j mod 64"] div_mod_64_eq [of j i] by (auto simp: nth_list_update tick_bit_def)
  moreover have "tick_bits_set i v b = Some (b\<lparr>tick_words := (tick_words b)[i div 64 := w]\<rparr>)"
    using l unfolding tick_bits_set_def Let_def w_def by simp
  ultimately show ?thesis using assms(1) by (simp add: tick_bits_ok_def tick_bit_def)
qed

lemma first_from_step: "\<not> f start \<Longrightarrow> first_from f start n = first_from f (Suc start) n"
  by (simp add: first_from_def upt_rec)

lemma first_from_skip_false:
  assumes "start \<le> start'" "\<forall>j. start \<le> j \<and> j < start' \<longrightarrow> \<not> f j"
  shows "first_from f start n = first_from f start' n"
  using assms by (induction rule: dec_induct) (simp, metis first_from_step less_Suc_eq)

lemma first_from_skip:
  assumes "start \<le> start'" "\<forall>j. start \<le> j \<and> j < start' \<longrightarrow> \<not> f j" "\<forall>j \<ge> start'. f j \<longleftrightarrow> g j"
  shows "first_from f start n = first_from g start' n"
proof -
  have "first_from f start' n = first_from g start' n"
    unfolding first_from_def using assms(3) by (intro find_cong) simp_all
  with first_from_skip_false [OF assms(1,2)] show ?thesis by simp
qed

lemma first_from_none: "\<forall>j. start \<le> j \<and> j < n \<longrightarrow> \<not> f j \<Longrightarrow> first_from f start n = None"
  unfolding first_from_def find_None_iff by simp

lemma first_fromI:
  assumes "start \<le> i" "f i" "\<forall>j. start \<le> j \<and> j < i \<longrightarrow> \<not> f j"
  shows "first_from f start n = (if i < n then Some i else None)"
  unfolding first_from_skip_false [OF assms(1,3)] using assms(2) by (simp add: first_from_def upt_rec)

lemma trailing_zeros_first:
  assumes "(bits :: 'a::len word) \<noteq> 0"
  shows "trailing_zeros bits < LENGTH('a)" "bit bits (trailing_zeros bits)" "j < trailing_zeros bits \<Longrightarrow> \<not> bit bits j"
proof -
  obtain k where "bit bits k" using assms by (auto simp: bit_eq_iff)
  with bit_imp_le_length [OF this] have "\<exists>i \<in> set [0..<LENGTH('a)]. bit bits i" by auto
  then have lt: "length (takeWhile (\<lambda>i. \<not> bit bits i) [0..<LENGTH('a)]) < length [0..<LENGTH('a)]"
    by (metis length_takeWhile_le nat_less_le takeWhile_eq_all_conv takeWhile_eq_take take_all_iff le_refl)
  then show "trailing_zeros bits < LENGTH('a)" by (simp add: trailing_zeros_def)
  show "bit bits (trailing_zeros bits)" using nth_length_takeWhile [OF lt] lt by (simp add: trailing_zeros_def)
  show "\<not> bit bits j" if "j < trailing_zeros bits"
    using that nth_mem [of j "takeWhile (\<lambda>i. \<not> bit bits i) [0..<LENGTH('a)]"] lt
    by (auto simp: trailing_zeros_def takeWhile_nth dest: set_takeWhileD)
qed

lemma next_bit_first:
  assumes "tick_bits_ok b" "k < length (tick_words b)"
  shows "next_bit b k bits = first_from (\<lambda>i. if i div 64 = k then bit bits (i mod 64) else tick_bit b i) (k * 64) (section_count b)"
  using assms
proof (induction b k bits rule: next_bit.induct)
  case (1 b k bits)
  let ?f = "\<lambda>i. if i div 64 = k then bit bits (i mod 64) else tick_bit b i"
  have div: "j div 64 = k" if "k * 64 \<le> j" "j < Suc k * 64" for j
    using that by (intro antisym) (auto simp: less_eq_div_iff_mult_less_eq div_less_iff_less_mult less_Suc_eq_le [symmetric])
  show ?case
  proof (cases "bits = 0")
    case False
    note t = trailing_zeros_first [OF False]
    have "first_from ?f (k * 64) (section_count b) = (if k * 64 + trailing_zeros bits < section_count b then Some (k * 64 + trailing_zeros bits) else None)"
    proof (intro first_fromI allI impI)
      show "?f (k * 64 + trailing_zeros bits)" using t(1,2) by simp
      fix j
      assume "k * 64 \<le> j \<and> j < k * 64 + trailing_zeros bits"
      moreover from this have "j div 64 = k" using t(1) by (intro div) auto
      moreover from this have "j = k * 64 + j mod 64" by (metis div_mult_mod_eq)
      ultimately show "\<not> ?f j" using t(3) [of "j mod 64"] by simp
    qed simp
    then show ?thesis using False by (simp add: next_bit.simps [of b k bits] Let_def)
  next
    case True
    have none: "\<not> ?f j" if "k * 64 \<le> j" "j < Suc k * 64" for j using div [OF that] True by simp
    show ?thesis
    proof (cases "Suc k < length (tick_words b)")
      case more: True
      have "next_bit b (Suc k) (tick_words b ! Suc k) = first_from
          (\<lambda>i. if i div 64 = Suc k then bit (tick_words b ! Suc k) (i mod 64) else tick_bit b i) (Suc k * 64) (section_count b)"
        using 1 True more by simp
      also have "\<dots> = first_from ?f (k * 64) (section_count b)"
        using none by (intro first_from_skip [symmetric]) (auto simp: tick_bit_def less_eq_div_iff_mult_less_eq dest: div_le_mono [of _ _ 64])
      finally have e: "next_bit b (Suc k) (tick_words b ! Suc k) = first_from ?f (k * 64) (section_count b)" .
      have "next_bit b k bits = next_bit b (Suc k) (tick_words b ! Suc k)" using True more by (subst next_bit.simps) simp
      then show ?thesis unfolding e .
    next
      case False
      have "section_count b \<le> length (tick_words b) * 64"
        using "1.prems"(1) by (auto simp: tick_bits_ok_def div_ceil_def split: if_splits)
      then have "section_count b \<le> Suc k * 64" using False "1.prems"(2) by simp
      then have "first_from ?f (k * 64) (section_count b) = None" using none by (intro first_from_none) auto
      moreover have "next_bit b k bits = None" using True False by (subst next_bit.simps) simp
      ultimately show ?thesis by metis
    qed
  qed
qed

lemma tick_bits_next_first:
  assumes "tick_bits_ok b"
  shows "tick_bits_next start b = Some (first_from (tick_bit b) start (section_count b))"
proof (cases "start < section_count b")
  case True
  define k where "k = start div 64"
  define bits where "bits = and (tick_words b ! k) (push_bit (start mod 64) (- 1))"
  have k: "k < length (tick_words b)" using word_of_section [OF assms True] by (simp add: k_def)
  let ?f = "\<lambda>i. if i div 64 = k then bit bits (i mod 64) else tick_bit b i"
  have bits: "bit bits n \<longleftrightarrow> start mod 64 \<le> n \<and> bit (tick_words b ! k) n" if "n < 64" for n
    using that by (auto simp: bits_def bit_simps)
  have s: "k * 64 + start mod 64 = start" by (simp add: k_def)
  have "next_bit b k bits = first_from ?f (k * 64) (section_count b)" using next_bit_first [OF assms k] .
  also have "\<dots> = first_from (tick_bit b) start (section_count b)"
  proof (rule first_from_skip)
    show "k * 64 \<le> start" using s by simp
    have "\<not> ?f j" if "k * 64 \<le> j" "j < start" for j
    proof -
      have "j div 64 = k" using that s div_le_mono [of "k * 64" j 64] div_le_mono [of j start 64] by (simp add: k_def)
      then have "j mod 64 < start mod 64" using that s by (metis add_less_cancel_left div_mult_mod_eq)
      then show ?thesis using \<open>j div 64 = k\<close> bits [of "j mod 64"] by simp
    qed
    then show "\<forall>j. k * 64 \<le> j \<and> j < start \<longrightarrow> \<not> ?f j" by blast
    have "?f j \<longleftrightarrow> tick_bit b j" if "start \<le> j" for j
    proof (cases "j div 64 = k")
      case True
      then have "start mod 64 \<le> j mod 64" using that s by (metis add_le_cancel_left div_mult_mod_eq)
      then show ?thesis using True bits [of "j mod 64"] by (simp add: tick_bit_def)
    qed simp
    then show "\<forall>j \<ge> start. ?f j \<longleftrightarrow> tick_bit b j" by blast
  qed
  finally show ?thesis using True k by (simp add: tick_bits_next_def Let_def k_def bits_def)
qed (simp add: tick_bits_next_def first_from_def)

interpretation tick_bits: tick_index tick_bits_ok section_count tick_bit tick_bits_set tick_bits_next
  by unfold_locales (rule tick_bits_set_bit, assumption+, rule tick_bits_next_first)

lemma tick_bits_new_ok: "tick_bits_ok (tick_bits_new n)" "section_count (tick_bits_new n) = n" "i < n \<Longrightarrow> \<not> tick_bit (tick_bits_new n) i"
  by (simp_all add: tick_bits_ok_def tick_bits_new_def tick_bit_def less_div_ceil)

lemma tick_bits_empty_none: "tick_bits_ok b \<Longrightarrow> tick_bits_is_empty b = Some (\<forall>i < section_count b. \<not> tick_bit b i)"
  by (simp add: tick_bits_is_empty_def tick_bits_next_first first_from_def find_None_iff)

end
