(* ===== verification/Chunk_Sections.thy ===== *)
theory Chunk_Sections
  imports Chunk_Section Section_Index
begin

text \<open>
  The sections of a chunk, \<open>Sections\<close>, \<open>SectionHolder\<close> and \<open>SectionWriteGuard\<close> of
  \<open>steel-core/src/chunk/section.rs\<close>: the write guard that republishes whether a section ticks
  randomly, single and batched writes through it, and the readers. A step is what runs under one
  section lock. A panic is the outer \<open>None\<close>; the debug assertions of the source are left out, and the
  counters wrap as in a release build.
\<close>

section \<open>Sections and their guard\<close>

record Sections =
  section_list :: "ChunkSection list"
  randomly_ticking_sections :: RandomTickSectionBits

definition with_random_tick_index :: "ChunkSection \<Rightarrow> nat \<Rightarrow> RandomTickSectionBits \<Rightarrow> RandomTickSectionBits option" where
  "with_random_tick_index s section_index b = (if is_randomly_ticking s then tick_bits_set section_index True b else Some b)"

fun index_sections :: "nat \<Rightarrow> ChunkSection list \<Rightarrow> RandomTickSectionBits \<Rightarrow> RandomTickSectionBits option" where
  "index_sections section_index [] b = Some b"
| "index_sections section_index (s # ss) b =
    Option.bind (with_random_tick_index s section_index b) (index_sections (Suc section_index) ss)"

definition from_owned :: "ChunkSection list \<Rightarrow> Sections option" where
  "from_owned ss = map_option (\<lambda>b. \<lparr>section_list = ss, randomly_ticking_sections = b\<rparr>)
    (index_sections 0 ss (tick_bits_new (length ss)))"

text \<open>One write guard: taken, used by \<open>body\<close>, dropped.\<close>

definition write_section :: "nat \<Rightarrow> (ChunkSection \<Rightarrow> ChunkSection option) \<Rightarrow> Sections \<Rightarrow> Sections option" where
  "write_section section_index body S =
    (if section_index < length (section_list S)
     then
       let was_randomly_ticking = is_randomly_ticking (section_list S ! section_index) in
       Option.bind (body (section_list S ! section_index)) (\<lambda>s.
         map_option (\<lambda>b. \<lparr>section_list = (section_list S)[section_index := s], randomly_ticking_sections = b\<rparr>)
           (if is_randomly_ticking s \<noteq> was_randomly_ticking
            then tick_bits_set section_index (is_randomly_ticking s) (randomly_ticking_sections S)
            else Some (randomly_ticking_sections S)))
     else None)"

section \<open>Writes\<close>

definition set_relative_block :: "StateInfo \<Rightarrow> nat \<Rightarrow> nat \<Rightarrow> nat \<Rightarrow> u16 \<Rightarrow> Sections \<Rightarrow> Sections option" where
  "set_relative_block g relative_x relative_y relative_z v S =
    write_section (relative_y div 16) (\<lambda>s. map_option snd (set_block_state g relative_x (relative_y mod 16) relative_z v s)) S"

definition set_relative_block_for_generation :: "nat \<Rightarrow> nat \<Rightarrow> nat \<Rightarrow> u16 \<Rightarrow> Sections \<Rightarrow> Sections option" where
  "set_relative_block_for_generation relative_x relative_y relative_z v S =
    write_section (relative_y div 16)
      (\<lambda>s. map_option snd (set_block_state_for_generation relative_x (relative_y mod 16) relative_z v s)) S"

text \<open>The outer loop of the batched writes: one guard for the entries that follow each other in one section.\<close>

function write_groups :: "('e \<Rightarrow> nat) \<Rightarrow> ('e list \<Rightarrow> ChunkSection \<Rightarrow> ChunkSection option) \<Rightarrow> 'e list \<Rightarrow> Sections \<Rightarrow> Sections option" where
  "write_groups y_of body [] S = Some S"
| "write_groups y_of body (e # es) S =
    (let section_idx = y_of e div 16
     in Option.bind (write_section section_idx (body (e # takeWhile (\<lambda>e. y_of e div 16 = section_idx) es)) S)
          (write_groups y_of body (dropWhile (\<lambda>e. y_of e div 16 = section_idx) es)))"
  by pat_completeness auto
termination
  by (relation "measure (\<lambda>(_, _, es, _). length es)") (auto simp: length_dropWhile_le less_Suc_eq_le)

type_synonym BlockWrite = "nat \<times> nat \<times> nat \<times> u16"

fun write_y :: "BlockWrite \<Rightarrow> nat" where
  "write_y (x, y, z, v) = y"

fun set_each :: "StateInfo \<Rightarrow> BlockWrite list \<Rightarrow> ChunkSection \<Rightarrow> ChunkSection option" where
  "set_each g [] s = Some s"
| "set_each g ((x, relative_y, z, v) # blocks) s =
    Option.bind (set_block_state g x (relative_y mod 16) z v s) (\<lambda>(_, s). set_each g blocks s)"

definition write_tracked_block_batch :: "StateInfo \<Rightarrow> BlockWrite list \<Rightarrow> Sections \<Rightarrow> Sections option" where
  "write_tracked_block_batch g blocks S = write_groups write_y (set_each g) blocks S"

text \<open>A store into the flat view of the cube of a building container.\<close>

definition slice_store :: "nat \<Rightarrow> 'v PalettedContainer \<Rightarrow> nat \<Rightarrow> 'v \<Rightarrow> 'v PalettedContainer option" where
  "slice_store dim c index v = (case c of
     Building cb \<Rightarrow>
       if index < dim * dim * dim
       then Some (Building (cube_store cb (index mod dim) (index div (dim * dim)) (index div dim mod dim) v)) else None
   | _ \<Rightarrow> None)"

fun store_each :: "BlockWrite list \<Rightarrow> u16 PalettedContainer \<Rightarrow> u16 PalettedContainer option" where
  "store_each [] c = Some c"
| "store_each ((x, rel_y, z, v) # blocks) c =
    Option.bind (slice_store 16 c (rel_y mod 16 * 16 * 16 + z * 16 + x) v) (store_each blocks)"

text \<open>Reaching the palette through the guard's mutable dereference invalidates the certificate.\<close>

definition store_batch :: "BlockWrite list \<Rightarrow> ChunkSection \<Rightarrow> ChunkSection option" where
  "store_batch blocks s =
    (let s = invalidate_stable_air_occupancy s
     in map_option (\<lambda>st. s\<lparr>states := st\<rparr>) (store_each blocks (enter_building_mode 16 (states s))))"

definition write_block_batch :: "BlockWrite list \<Rightarrow> Sections \<Rightarrow> Sections option" where
  "write_block_batch blocks S = write_groups write_y store_batch blocks S"

definition write_column_blocks :: "nat \<Rightarrow> nat \<Rightarrow> (nat \<times> u16) list \<Rightarrow> Sections \<Rightarrow> Sections option" where
  "write_column_blocks x z blocks S =
    write_groups fst (\<lambda>group. store_batch (map (\<lambda>(rel_y, v). (x, rel_y, z, v)) group)) blocks S"

definition guard_finalize :: "StateInfo \<Rightarrow> nat \<Rightarrow> Sections \<Rightarrow> Sections option" where
  "guard_finalize g section_index S = write_section section_index (finalize_generation_counts_if_needed g) S"

definition guard_recalculate :: "StateInfo \<Rightarrow> nat \<Rightarrow> Sections \<Rightarrow> Sections option" where
  "guard_recalculate g section_index S = write_section section_index (recalculate_counts g) S"

text \<open>World generation writes the biomes of a section through the guard's mutable dereference, which
  invalidates the certificate each time.\<close>

fun set_each_biome :: "(nat \<times> nat \<times> nat \<times> u16) list \<Rightarrow> ChunkSection \<Rightarrow> ChunkSection option" where
  "set_each_biome [] s = Some s"
| "set_each_biome ((local_quart_x, local_quart_y, local_quart_z, biome_id) # ws) s =
    (let s = invalidate_stable_air_occupancy s
     in Option.bind (container_set 4 (biomes s) local_quart_x local_quart_y local_quart_z biome_id)
          (\<lambda>(_, bi). set_each_biome ws (s\<lparr>biomes := bi\<rparr>)))"

definition write_section_biomes :: "nat \<Rightarrow> (nat \<Rightarrow> nat \<Rightarrow> nat \<Rightarrow> u16) \<Rightarrow> Sections \<Rightarrow> Sections option" where
  "write_section_biomes section_index sample S = write_section section_index
     (set_each_biome (concat (map (\<lambda>x. concat (map (\<lambda>y. map (\<lambda>z. (x, y, z, sample x y z)) [0..<4]) [0..<4])) [0..<4]))) S"

section \<open>Readers\<close>

definition holder_is_randomly_ticking :: "nat \<Rightarrow> Sections \<Rightarrow> bool option" where
  "holder_is_randomly_ticking section_index S = tick_bits_contains section_index (randomly_ticking_sections S)"

definition get_relative_block :: "nat \<Rightarrow> nat \<Rightarrow> nat \<Rightarrow> Sections \<Rightarrow> u16 option option" where
  "get_relative_block relative_x relative_y relative_z S =
    (if relative_y div 16 < length (section_list S)
     then map_option Some (container_get (states (section_list S ! (relative_y div 16))) relative_x (relative_y mod 16) relative_z)
     else Some None)"

fun copy_columns :: "nat \<Rightarrow> nat \<Rightarrow> ChunkSection list \<Rightarrow> u16 list \<Rightarrow> u16 list option" where
  "copy_columns x z [] buffer = Some buffer"
| "copy_columns x z (s # ss) buffer =
    Option.bind (copy_column_into 16 (states s) x z (take 16 buffer)) (\<lambda>out.
      map_option (\<lambda>rest. out @ rest) (copy_columns x z ss (drop 16 buffer)))"

definition read_column_into :: "nat \<Rightarrow> nat \<Rightarrow> u16 list \<Rightarrow> Sections \<Rightarrow> u16 list option" where
  "read_column_into x z buffer S =
    (let total = length (section_list S) * 16
     in copy_columns x z (section_list S)
          (if length buffer \<noteq> total then take total buffer @ replicate (total - length buffer) 0 else buffer))"

definition section_biomes :: "ChunkSection \<Rightarrow> u16 list option" where
  "section_biomes s = map_panic (\<lambda>(qy, qz, qx). container_get (biomes s) qx qy qz)
    (concat (map (\<lambda>qy. concat (map (\<lambda>qz. map (\<lambda>qx. (qy, qz, qx)) [0..<4]) [0..<4])) [0..<4]))"

definition read_all_biomes :: "Sections \<Rightarrow> u16 list option" where
  "read_all_biomes S = map_option concat (map_panic section_biomes (section_list S))"

definition for_each_biome_id :: "(u16 \<Rightarrow> 'a \<Rightarrow> 'a) \<Rightarrow> Sections \<Rightarrow> 'a \<Rightarrow> 'a option" where
  "for_each_biome_id visitor S a = map_option (\<lambda>ids. fold visitor (concat ids) a) (map_panic section_biomes (section_list S))"

definition section_emptiness_map :: "Sections \<Rightarrow> bool list" where
  "section_emptiness_map S = map section_is_empty (section_list S)"

definition block_light_sources :: "StateInfo \<Rightarrow> ChunkPos \<Rightarrow> i32 \<Rightarrow> Sections \<Rightarrow> BlockPos list option" where
  "block_light_sources g chunk_pos min_y S =
    map_option concat (map_panic (\<lambda>(section_index, s). append_block_light_sources g (chunk_x chunk_pos * 16)
      (min_y + of_nat (section_index * 16)) (chunk_z chunk_pos * 16) s) (enumerate 0 (section_list S)))"

section \<open>The blocks of a chunk\<close>

text \<open>The reference: one list of cells per section.\<close>

definition block_at :: "u16 list list \<Rightarrow> nat \<Rightarrow> nat \<Rightarrow> nat \<Rightarrow> u16" where
  "block_at vss x y z = vss ! (y div 16) ! cell_index 16 x (y mod 16) z"

fun put_block :: "BlockWrite \<Rightarrow> u16 list list \<Rightarrow> u16 list list" where
  "put_block (x, y, z, v) vss = vss[y div 16 := (vss ! (y div 16))[cell_index 16 x (y mod 16) z := v]]"

definition put_blocks :: "BlockWrite list \<Rightarrow> u16 list list \<Rightarrow> u16 list list" where
  "put_blocks blocks vss = fold put_block blocks vss"

fun write_in_range :: "StateInfo \<Rightarrow> nat \<Rightarrow> BlockWrite \<Rightarrow> bool" where
  "write_in_range g n (x, y, z, v) \<longleftrightarrow> x < 16 \<and> z < 16 \<and> y div 16 < n \<and> v \<in> known_states g"

text \<open>The set \<open>K\<close> holds the indices of the sections counted so far.\<close>

definition sections_ok :: "StateInfo \<Rightarrow> nat set \<Rightarrow> Sections \<Rightarrow> u16 list list \<Rightarrow> bool" where
  "sections_ok g K S vss \<longleftrightarrow> length (section_list S) = length vss
    \<and> (\<forall>i < length vss. section_ok g (i \<in> K) (section_list S ! i) (vss ! i))
    \<and> tick_bits_ok (randomly_ticking_sections S) \<and> section_count (randomly_ticking_sections S) = length vss
    \<and> (\<forall>i < length vss. tick_bit (randomly_ticking_sections S) i \<longleftrightarrow> is_randomly_ticking (section_list S ! i))"

lemma sections_okD:
  assumes "sections_ok g K S vss"
  shows "length (section_list S) = length vss" "i < length vss \<Longrightarrow> section_ok g (i \<in> K) (section_list S ! i) (vss ! i)"
  using assms by (auto simp: sections_ok_def)

lemma write_section_ok:
  assumes "sections_ok g K S vss" "i < length vss" "body (section_list S ! i) = Some s" "section_ok g (i \<in> K') s vs" "K' \<subseteq> insert i K"
  obtains S' where "write_section i body S = Some S'" "sections_ok g K' S' (vss[i := vs])"
    "section_list S' = (section_list S)[i := s]"
proof -
  note l = sections_okD(1) [OF assms(1)]
  have bits: "tick_bits_ok (randomly_ticking_sections S)" "i < section_count (randomly_ticking_sections S)"
    using assms(1,2) by (simp_all add: sections_ok_def)
  obtain b where b: "tick_bits_set i (is_randomly_ticking s) (randomly_ticking_sections S) = Some b" "tick_bits_ok b"
    "section_count b = section_count (randomly_ticking_sections S)"
    "\<forall>j < section_count (randomly_ticking_sections S). tick_bit b j \<longleftrightarrow> (if j = i then is_randomly_ticking s else tick_bit (randomly_ticking_sections S) j)"
    using tick_bits.put_law [OF bits, of "is_randomly_ticking s"] by blast
  define b' where "b' = (if is_randomly_ticking s \<noteq> is_randomly_ticking (section_list S ! i) then b else randomly_ticking_sections S)"
  define S' where "S' = \<lparr>section_list = (section_list S)[i := s], randomly_ticking_sections = b'\<rparr>"
  have b': "tick_bits_ok b'" "section_count b' = length vss"
    "\<forall>j < length vss. tick_bit b' j \<longleftrightarrow> is_randomly_ticking ((section_list S)[i := s] ! j)"
    using assms(1,2) b l by (auto simp: b'_def sections_ok_def nth_list_update)
  have "write_section i body S = Some S'" using assms(2,3) b(1) l
    by (cases "is_randomly_ticking s"; cases "is_randomly_ticking (section_list S ! i)") (simp_all add: write_section_def S'_def b'_def)
  moreover have "section_ok g (j \<in> K') ((section_list S)[i := s] ! j) (vss[i := vs] ! j)" if "j < length vss" for j
  proof (cases "j = i")
    case False
    then show ?thesis using section_ok_less [OF sections_okD(2) [OF assms(1) that], of "j \<in> K'"] assms(5) by auto
  qed (use assms(4) that l in simp)
  then have "sections_ok g K' S' (vss[i := vs])" using b' l by (simp add: sections_ok_def S'_def)
  ultimately show ?thesis using that by (simp add: S'_def)
qed

lemma sections_ok_less: "sections_ok g K S vss \<Longrightarrow> K' \<subseteq> K \<Longrightarrow> sections_ok g K' S vss"
  unfolding sections_ok_def by (meson section_ok_less subsetD)


section \<open>Single writes\<close>

lemma set_relative_block_ok:
  assumes "sections_ok g K S vss" "write_in_range g (length vss) (x, y, z, v)"
  obtains S' where "set_relative_block g x y z v S = Some S'" "sections_ok g K S' (put_block (x, y, z, v) vss)"
    "\<not> is_building (section_list S' ! (y div 16))"
proof -
  have r: "x < 16" "y mod 16 < 16" "z < 16" "v \<in> known_states g" "y div 16 < length vss" using assms(2) by simp_all
  obtain s' where s': "set_block_state g x (y mod 16) z v (section_list S ! (y div 16)) = Some (vss ! (y div 16) ! cell_index 16 x (y mod 16) z, s')"
    "section_ok g (y div 16 \<in> K) s' ((vss ! (y div 16))[cell_index 16 x (y mod 16) z := v])" "\<not> is_building s'"
    using set_block_state_ok [OF sections_okD(2) [OF assms(1) r(5)] r(1-4)] .
  show ?thesis
    by (rule write_section_ok [OF assms(1) r(5) _ s'(2), of "\<lambda>s. map_option snd (set_block_state g x (y mod 16) z v s)"])
      (use that s'(1,3) r(5) sections_okD(1) [OF assms(1)] in \<open>auto simp: set_relative_block_def\<close>)
qed

lemma set_relative_generation_ok:
  assumes "sections_ok g K S vss" "write_in_range g (length vss) (x, y, z, v)"
  obtains S' where "set_relative_block_for_generation x y z v S = Some S'" "sections_ok g (insert (y div 16) K) S' (put_block (x, y, z, v) vss)"
proof -
  have r: "x < 16" "y mod 16 < 16" "z < 16" "v \<in> known_states g" "y div 16 < length vss" using assms(2) by simp_all
  obtain s' where s': "set_block_state_for_generation x (y mod 16) z v (section_list S ! (y div 16)) = Some (vss ! (y div 16) ! cell_index 16 x (y mod 16) z, s')"
    "section_ok g (y div 16 \<in> insert (y div 16) K) s' ((vss ! (y div 16))[cell_index 16 x (y mod 16) z := v])"
    using set_for_generation_ok [OF sections_okD(2) [OF assms(1) r(5)] r(1-4)] .
  show ?thesis
    by (rule write_section_ok [OF assms(1) r(5) _ s'(2), of "\<lambda>s. map_option snd (set_block_state_for_generation x (y mod 16) z v s)"])
      (use that s'(1) in \<open>auto simp: set_relative_block_for_generation_def\<close>)
qed

lemma set_each_biome_ok:
  "section_ok g c s vs \<Longrightarrow> set_each_biome ws s = Some s' \<Longrightarrow> section_ok g c s' vs"
proof (induction ws arbitrary: s)
  case (Cons w ws)
  obtain x y z v where w: "w = (x, y, z, v)" by (cases w) auto
  then obtain bi where "set_each_biome ws ((invalidate_stable_air_occupancy s)\<lparr>biomes := bi\<rparr>) = Some s'"
    using Cons.prems(2) by (auto simp: Let_def split: Option.bind_splits)
  moreover have "section_ok g c ((invalidate_stable_air_occupancy s)\<lparr>biomes := bi\<rparr>) vs"
    using Cons.prems(1) by (simp add: section_ok_def invalidate_stable_air_occupancy_def occupancy_ok_def is_building_def counters_ok_def)
  ultimately show ?case by (rule Cons.IH [rotated])
qed simp

section \<open>Batched writes\<close>

fun put_cell :: "BlockWrite \<Rightarrow> u16 list \<Rightarrow> u16 list" where
  "put_cell (x, y, z, v) vs = vs[cell_index 16 x (y mod 16) z := v]"

fun cell_in_range :: "StateInfo \<Rightarrow> BlockWrite \<Rightarrow> bool" where
  "cell_in_range g (x, y, z, v) \<longleftrightarrow> x < 16 \<and> z < 16 \<and> v \<in> known_states g"

lemma write_in_range_cell: "write_in_range g n e \<longleftrightarrow> cell_in_range g e \<and> write_y e div 16 < n"
  by (cases e) auto

lemma put_block_cell: "put_block e vss = vss[write_y e div 16 := put_cell e (vss ! (write_y e div 16))]"
  by (cases e) simp

lemma put_blocks_group:
  "\<forall>e \<in> set es. write_y e div 16 = i \<Longrightarrow> i < length vss \<Longrightarrow> put_blocks es vss = vss[i := fold put_cell es (vss ! i)]"
  by (induction es arbitrary: vss) (simp_all add: put_blocks_def put_block_cell)

lemma put_blocks_append: "put_blocks (es @ fs) vss = put_blocks fs (put_blocks es vss)"
  by (simp add: put_blocks_def)

lemma length_put_blocks [simp]: "length (put_blocks es vss) = length vss"
  by (induction es arbitrary: vss) (simp_all add: put_blocks_def put_block_cell)

text \<open>
  What the batch loop needs of its body: under one guard it writes the entries \<open>w e\<close> of a group into
  the section, in order, and keeps the invariant of the section.
\<close>

locale batch_writer =
  fixes g :: StateInfo
    and recounts :: bool
    and w :: "'e \<Rightarrow> BlockWrite"
    and body :: "'e list \<Rightarrow> ChunkSection \<Rightarrow> ChunkSection option"
  assumes body_law: "section_ok g c s vs \<Longrightarrow> \<forall>e \<in> set es. cell_in_range g (w e) \<Longrightarrow>
      \<exists>s'. body es s = Some s' \<and> section_ok g (c \<or> recounts) s' (fold put_cell (map w es) vs)"
begin

lemma groups_write_all:
  assumes "sections_ok g K S vss" "\<forall>e \<in> set es. write_in_range g (length vss) (w e)"
  shows "\<exists>S'. write_groups (\<lambda>e. write_y (w e)) body es S = Some S' \<and>
    sections_ok g (K \<union> (if recounts then (\<lambda>e. write_y (w e) div 16) ` set es else {})) S' (put_blocks (map w es) vss)"
  using assms
proof (induction es arbitrary: S vss K rule: length_induct)
  case (1 es)
  show ?case
  proof (cases es)
    case Nil
    then show ?thesis using "1.prems" by (simp add: put_blocks_def)
  next
    case (Cons e es')
    define i where "i = write_y (w e) div 16"
    define group where "group = e # takeWhile (\<lambda>e. write_y (w e) div 16 = i) es'"
    define rest where "rest = dropWhile (\<lambda>e. write_y (w e) div 16 = i) es'"
    have es: "es = group @ rest" "length rest < length es"
      using Cons by (simp_all add: group_def rest_def length_dropWhile_le less_Suc_eq_le)
    have group: "\<forall>e \<in> set group. write_y (w e) div 16 = i" by (auto simp: group_def i_def dest: set_takeWhileD)
    have r: "\<forall>e \<in> set group. cell_in_range g (w e)" "\<forall>e \<in> set rest. write_in_range g (length vss) (w e)" "i < length vss"
      using "1.prems"(2) Cons unfolding es(1) by (auto simp: write_in_range_cell i_def group_def)
    define K1 where "K1 = K \<union> (if recounts then {i} else {})"
    have "i \<in> K1 \<longleftrightarrow> i \<in> K \<or> recounts" and sub: "K1 \<subseteq> insert i K" by (auto simp: K1_def)
    then obtain s where s: "body group (section_list S ! i) = Some s" "section_ok g (i \<in> K1) s (fold put_cell (map w group) (vss ! i))"
      using body_law [OF sections_okD(2) [OF "1.prems"(1) r(3)] r(1)] by auto
    obtain S1 where S1: "write_section i (body group) S = Some S1" "sections_ok g K1 S1 (vss[i := fold put_cell (map w group) (vss ! i)])"
      using write_section_ok [OF "1.prems"(1) r(3), of "body group", OF s sub] .
    have p: "vss[i := fold put_cell (map w group) (vss ! i)] = put_blocks (map w group) vss"
      using group r(3) by (intro put_blocks_group [symmetric]) auto
    let ?touched = "\<lambda>es. if recounts then (\<lambda>e. write_y (w e) div 16) ` set es else {}"
    have "(\<lambda>e. write_y (w e) div 16) ` set group = {i}" using group by (auto simp: group_def)
    then have "K1 \<union> ?touched rest = K \<union> ?touched es" unfolding es(1) K1_def set_append image_Un by simp
    moreover have "\<exists>S'. write_groups (\<lambda>e. write_y (w e)) body rest S1 = Some S' \<and>
        sections_ok g (K1 \<union> ?touched rest) S' (put_blocks (map w rest) (put_blocks (map w group) vss))"
      using "1.IH" es(2) S1(2) r(2) unfolding p by simp
    moreover have "write_groups (\<lambda>e. write_y (w e)) body es S = write_groups (\<lambda>e. write_y (w e)) body rest S1"
      using S1(1) by (simp add: Cons i_def [symmetric] group_def [symmetric] rest_def [symmetric])
    moreover have "put_blocks (map w es) vss = put_blocks (map w rest) (put_blocks (map w group) vss)"
      by (simp add: es(1) put_blocks_append)
    ultimately show ?thesis by simp
  qed
qed

end

lemma set_each_ok:
  "section_ok g c s vs \<Longrightarrow> \<forall>e \<in> set es. cell_in_range g e \<Longrightarrow> \<exists>s'. set_each g es s = Some s' \<and> section_ok g c s' (fold put_cell es vs)"
proof (induction es arbitrary: s vs)
  case (Cons e es)
  obtain x y z v where e: "e = (x, y, z, v)" by (cases e) auto
  then have r: "x < 16" "y mod 16 < 16" "z < 16" "v \<in> known_states g" using Cons.prems(2) by simp_all
  obtain s1 where "set_block_state g x (y mod 16) z v s = Some (vs ! cell_index 16 x (y mod 16) z, s1)"
    "section_ok g c s1 (vs[cell_index 16 x (y mod 16) z := v])"
    using set_block_state_ok [OF Cons.prems(1) r] .
  then show ?case using Cons.IH [of s1] Cons.prems(2) e by simp
qed simp

interpretation tracked: batch_writer g False "\<lambda>e. e" "set_each g" for g
  by unfold_locales (simp add: set_each_ok)

lemma store_each_ok:
  "container_reach 16 (Building cb) vs \<Longrightarrow> \<forall>e \<in> set es. cell_in_range g e \<Longrightarrow>
    \<exists>cb'. store_each es (Building cb) = Some (Building cb') \<and> container_reach 16 (Building cb') (fold put_cell es vs)"
proof (induction es arbitrary: cb vs)
  case (Cons e es)
  obtain x y z v where e: "e = (x, y, z, v)" by (cases e) auto
  then have r: "x < 16" "y mod 16 < 16" "z < 16" using Cons.prems(2) by simp_all
  have "cube_ok 16 cb" using container_reach_ok [OF _ Cons.prems(1)] by (simp add: dim_ok_def container_ok_def)
  from cube_cell(2) [OF this r] have "container_set 16 (Building cb) x (y mod 16) z v =
      Some (cube_values cb ! cell_index 16 x (y mod 16) z, Building (cube_store cb x (y mod 16) z v))"
    by (simp add: container_set_def)
  note reach = container_reach.set_cell [OF Cons.prems(1) r this]
  define k where "k = y mod 16 * 16 + z"
  have k: "k mod 16 = z" "k div 16 = y mod 16" "k < 256" using r by (simp_all add: k_def)
  define i where "i = k * 16 + x"
  have "i mod 16 = x" "i div 16 = k" "i < 16 * 16 * 16" using r(1) k(3) by (simp_all add: i_def)
  moreover from this have "i div (16 * 16) = k div 16" by (simp only: div_mult2_eq)
  ultimately have "slice_store 16 (Building cb) i v = Some (Building (cube_store cb x (y mod 16) z v))"
    using k by (simp add: slice_store_def)
  then show ?case using Cons.IH [OF reach] Cons.prems(2) e by (simp add: i_def k_def distrib_right)
qed simp

lemma known_cells: "set vs \<subseteq> known_states g \<Longrightarrow> \<forall>e \<in> set es. cell_in_range g e \<Longrightarrow> set (fold put_cell es vs) \<subseteq> known_states g"
proof (induction es arbitrary: vs)
  case (Cons e es)
  have "set (put_cell e vs) \<subseteq> known_states g"
    using Cons.prems set_update_subset_insert [of vs] by (cases e) fastforce
  then show ?case using Cons by simp
qed simp

lemma store_batch_ok:
  assumes "section_ok g c s vs" "\<forall>e \<in> set es. cell_in_range g e"
  shows "\<exists>s'. store_batch es s = Some s' \<and> section_ok g True s' (fold put_cell es vs)"
proof -
  have r: "container_reach 16 (enter_building_mode 16 (states s)) vs"
    using assms(1) container_reach.enter [of 16 "states s" vs] by (simp add: section_ok_def)
  obtain cb where cb: "enter_building_mode 16 (states s) = Building cb"
    by (cases "states s") (simp_all add: enter_building_mode_def)
  obtain cb' where c: "store_each es (Building cb) = Some (Building cb')" "container_reach 16 (Building cb') (fold put_cell es vs)"
    using store_each_ok [OF r [unfolded cb] assms(2)] by blast
  then show ?thesis using cb known_cells [OF section_okD(4) [OF assms(1)] assms(2)]
    by (simp add: store_batch_def invalidate_stable_air_occupancy_def section_ok_def is_building_def occupancy_ok_def)
qed

interpretation stored: batch_writer g True "\<lambda>e. e" store_batch for g
  by unfold_locales (simp add: store_batch_ok)

interpretation column: batch_writer g True "\<lambda>(rel_y, v). (x, rel_y, z, v)" "\<lambda>es. store_batch (map (\<lambda>(rel_y, v). (x, rel_y, z, v)) es)" for g x z
  by unfold_locales (simp only: simp_thms, rule store_batch_ok, assumption, auto)


section \<open>Reachable sections\<close>

text \<open>
  Sections a chunk starts from: a loaded container, built by any writes and not counted yet (a chunk is
  only counted when its status is past the initialisation of light, by a recount of every section), or
  the empty section, whose cached values rest on block state 0 being plain air.
\<close>

definition plain_air :: "StateInfo \<Rightarrow> u16 \<Rightarrow> bool" where
  "plain_air g v \<longleftrightarrow> is_stable_vanilla_air g v = Some True \<and> \<not> has_trait counts_fluid g v
    \<and> \<not> has_trait counts_ticking_block g v \<and> \<not> has_trait counts_ticking_fluid g v"

inductive section_start :: "StateInfo \<Rightarrow> bool \<Rightarrow> ChunkSection \<Rightarrow> u16 list \<Rightarrow> bool" for g where
  loaded: "container_reach 16 st vs \<Longrightarrow> set vs \<subseteq> known_states g \<Longrightarrow> section_start g False (new_with_biomes st bi) vs"
| empty: "plain_air g 0 \<Longrightarrow> section_start g True (new_empty g) (replicate 4096 0)"

text \<open>
  Every sequence of steps under section guards, with the sections counted so far: those that were empty
  at the start, were recounted, or entered building mode, after which a section only leaves it through a
  recount.
\<close>

abbreviation write_sections :: "BlockWrite list \<Rightarrow> nat set" where
  "write_sections es \<equiv> (\<lambda>e. write_y e div 16) ` set es"

inductive sections_reach :: "StateInfo \<Rightarrow> nat set \<Rightarrow> Sections \<Rightarrow> u16 list list \<Rightarrow> bool" for g where
  owned: "length ss = length vss \<Longrightarrow> \<forall>i < length vss. section_start g (i \<in> K) (ss ! i) (vss ! i) \<Longrightarrow>
    from_owned ss = Some S \<Longrightarrow> sections_reach g K S vss"
| set_one: "sections_reach g K S vss \<Longrightarrow> write_in_range g (length vss) (x, y, z, v) \<Longrightarrow>
    set_relative_block g x y z v S = Some S' \<Longrightarrow> sections_reach g K S' (put_block (x, y, z, v) vss)"
| set_generation: "sections_reach g K S vss \<Longrightarrow> write_in_range g (length vss) (x, y, z, v) \<Longrightarrow>
    set_relative_block_for_generation x y z v S = Some S' \<Longrightarrow> sections_reach g (insert (y div 16) K) S' (put_block (x, y, z, v) vss)"
| tracked_batch: "sections_reach g K S vss \<Longrightarrow> \<forall>e \<in> set es. write_in_range g (length vss) e \<Longrightarrow>
    write_tracked_block_batch g es S = Some S' \<Longrightarrow> sections_reach g K S' (put_blocks es vss)"
| raw_batch: "sections_reach g K S vss \<Longrightarrow> \<forall>e \<in> set es. write_in_range g (length vss) e \<Longrightarrow>
    write_block_batch es S = Some S' \<Longrightarrow> sections_reach g (K \<union> write_sections es) S' (put_blocks es vss)"
| column: "sections_reach g K S vss \<Longrightarrow> \<forall>(y, v) \<in> set es. write_in_range g (length vss) (x, y, z, v) \<Longrightarrow>
    write_column_blocks x z es S = Some S' \<Longrightarrow>
    sections_reach g (K \<union> (\<lambda>(y, v). y div 16) ` set es) S' (put_blocks (map (\<lambda>(y, v). (x, y, z, v)) es) vss)"
| biome: "sections_reach g K S vss \<Longrightarrow> write_section_biomes i sample S = Some S' \<Longrightarrow> sections_reach g K S' vss"
| finalize: "sections_reach g K S vss \<Longrightarrow> guard_finalize g i S = Some S' \<Longrightarrow> sections_reach g K S' vss"
| recalculate: "sections_reach g K S vss \<Longrightarrow> guard_recalculate g i S = Some S' \<Longrightarrow> sections_reach g (insert i K) S' vss"

lemma section_start_ok:
  assumes "section_start g c s vs"
  shows "section_ok g c s vs"
  using assms
proof cases
  case (loaded st bi)
  then show ?thesis by (simp add: section_ok_def new_with_biomes_def occupancy_ok_def)
next
  case empty
  have k: "(0 :: u16) \<in> known_states g" "\<not> occupied g 0" using empty by (auto simp: plain_air_def known_states_def occupied_def)
  have "\<not> non_air g 0" using empty
    by (auto simp: plain_air_def is_stable_vanilla_air_def state_is_air_def has_trait_def block_state_section_counts_def)
  then have "counters_of g (replicate 4096 0) = (0, 0, 0, 0)"
    using empty by (simp add: counters_of_def counted_replicate plain_air_def)
  moreover have "container_reach 16 (Homogeneous (0 :: u16)) (replicate 4096 0)"
    using container_reach.filled [of 16 "0 :: u16"] by simp
  ultimately show ?thesis using k empty
    by (simp add: section_ok_def new_empty_def counters_ok_def occupancy_ok_def is_building_def)
qed

lemma index_sections_ok:
  assumes "tick_bits_ok b" "section_count b = n + length ss"
  shows "\<exists>b'. index_sections n ss b = Some b' \<and> tick_bits_ok b' \<and> section_count b' = section_count b
    \<and> (\<forall>j < section_count b. tick_bit b' j \<longleftrightarrow> (n \<le> j \<and> is_randomly_ticking (ss ! (j - n))) \<or> tick_bit b j)"
  using assms
proof (induction ss arbitrary: n b)
  case (Cons s ss)
  obtain b1 where b1: "with_random_tick_index s n b = Some b1" "tick_bits_ok b1" "section_count b1 = section_count b"
    "\<forall>j < section_count b. tick_bit b1 j \<longleftrightarrow> (j = n \<and> is_randomly_ticking s) \<or> tick_bit b j"
    using tick_bits.put_law [OF Cons.prems(1), of n True] Cons.prems
    by (cases "is_randomly_ticking s") (auto simp: with_random_tick_index_def)
  obtain b' where "index_sections (Suc n) ss b1 = Some b'" "tick_bits_ok b'" "section_count b' = section_count b"
    "\<forall>j < section_count b. tick_bit b' j \<longleftrightarrow> (Suc n \<le> j \<and> is_randomly_ticking (ss ! (j - Suc n))) \<or> tick_bit b1 j"
    using Cons.IH [of b1 "Suc n"] Cons.prems(2) b1(2,3) by auto
  moreover have "(n \<le> j \<and> is_randomly_ticking ((s # ss) ! (j - n))) \<longleftrightarrow>
      (j = n \<and> is_randomly_ticking s) \<or> (Suc n \<le> j \<and> is_randomly_ticking (ss ! (j - Suc n)))" for j
    by (cases "j = n") (auto simp: nth_Cons' le_Suc_eq)
  ultimately show ?case using b1 by auto
qed simp

lemma from_owned_ok:
  assumes "length ss = length vss" "\<forall>i < length vss. section_ok g (i \<in> K) (ss ! i) (vss ! i)"
  shows "\<exists>S. from_owned ss = Some S \<and> sections_ok g K S vss \<and> section_list S = ss"
proof -
  obtain b where "index_sections 0 ss (tick_bits_new (length ss)) = Some b" "tick_bits_ok b" "section_count b = length ss"
    "\<forall>j < length ss. tick_bit b j \<longleftrightarrow> is_randomly_ticking (ss ! j)"
    using index_sections_ok [of "tick_bits_new (length ss)" 0 ss] by (auto simp: tick_bits_new_ok)
  then show ?thesis using assms by (simp add: from_owned_def sections_ok_def)
qed

lemma guard_recount_ok:
  assumes "sections_ok g K S vss" "i < length vss"
  shows "\<exists>S'. guard_recalculate g i S = Some S' \<and> sections_ok g (insert i K) S' vss \<and> \<not> is_building (section_list S' ! i)"
    "\<exists>S'. guard_finalize g i S = Some S' \<and> sections_ok g K S' vss \<and> \<not> is_building (section_list S' ! i)"
proof -
  note ok = sections_okD(2) [OF assms] and l = sections_okD(1) [OF assms(1)]
  have "container_reach 16 (states (section_list S ! i)) (vss ! i)" "set (vss ! i) \<subseteq> known_states g"
    using ok by (simp_all add: section_ok_def)
  then obtain s where s: "recalculate_counts g (section_list S ! i) = Some s" "section_ok g True s (vss ! i)" "\<not> is_building s"
    using section_recalculated by blast
  have "section_ok g (i \<in> insert i K) s (vss ! i)" using s(2) by simp
  then obtain S' where "write_section i (recalculate_counts g) S = Some S'" "sections_ok g (insert i K) S' (vss[i := vss ! i])"
    "section_list S' = (section_list S)[i := s]"
    using write_section_ok [OF assms, of "recalculate_counts g" s "insert i K" "vss ! i", OF s(1)] by auto
  then show "\<exists>S'. guard_recalculate g i S = Some S' \<and> sections_ok g (insert i K) S' vss \<and> \<not> is_building (section_list S' ! i)"
    using s(3) assms(2) l by (simp add: guard_recalculate_def)
  obtain s where s: "finalize_generation_counts_if_needed g (section_list S ! i) = Some s" "section_ok g (i \<in> K) s (vss ! i)" "\<not> is_building s"
    using s ok section_ok_less [OF s(2), of "i \<in> K"]
    by (cases "is_building (section_list S ! i)") (auto simp: finalize_generation_counts_if_needed_def)
  obtain S' where "write_section i (finalize_generation_counts_if_needed g) S = Some S'" "sections_ok g K S' (vss[i := vss ! i])"
    "section_list S' = (section_list S)[i := s]"
    using write_section_ok [OF assms, of "finalize_generation_counts_if_needed g" s K "vss ! i", OF s(1,2)] by auto
  then show "\<exists>S'. guard_finalize g i S = Some S' \<and> sections_ok g K S' vss \<and> \<not> is_building (section_list S' ! i)"
    using s(3) assms(2) l by (simp add: guard_finalize_def)
qed

lemma write_biomes_ok:
  assumes "sections_ok g K S vss" "write_section_biomes i sample S = Some S'" shows "sections_ok g K S' vss"
proof -
  let ?body = "set_each_biome (concat (map (\<lambda>x. concat (map (\<lambda>y. map (\<lambda>z. (x, y, z, sample x y z)) [0..<4]) [0..<4])) [0..<4]))"
  from assms(2) obtain s where s: "i < length vss" "?body (section_list S ! i) = Some s"
    unfolding write_section_biomes_def write_section_def Let_def using sections_okD(1) [OF assms(1)]
    by (auto split: if_splits Option.bind_splits)
  obtain S1 where "write_section i ?body S = Some S1" "sections_ok g K S1 (vss[i := vss ! i])"
    using write_section_ok [OF assms(1) s(1), of ?body s K "vss ! i", OF s(2) set_each_biome_ok [OF sections_okD(2) [OF assms(1) s(1)] s(2)]]
    by auto
  then show ?thesis using assms(2) by (simp add: write_section_biomes_def)
qed

lemma batch_ok:
  assumes "sections_ok g K S vss" "\<forall>e \<in> set es. write_in_range g (length vss) e"
  shows "\<exists>S'. write_tracked_block_batch g es S = Some S' \<and> sections_ok g K S' (put_blocks es vss)"
    "\<exists>S'. write_block_batch es S = Some S' \<and> sections_ok g (K \<union> write_sections es) S' (put_blocks es vss)"
  using tracked.groups_write_all [OF assms] stored.groups_write_all [OF assms]
  by (simp_all add: write_tracked_block_batch_def write_block_batch_def)

lemma column_ok:
  assumes "sections_ok g K S vss" "\<forall>(y, v) \<in> set es. write_in_range g (length vss) (x, y, z, v)"
  shows "\<exists>S'. write_column_blocks x z es S = Some S' \<and>
    sections_ok g (K \<union> (\<lambda>(y, v). y div 16) ` set es) S' (put_blocks (map (\<lambda>(y, v). (x, y, z, v)) es) vss)"
proof -
  have f: "(\<lambda>e. write_y (case e of (rel_y, v) \<Rightarrow> (x, rel_y, z, v))) = fst"
    "(\<lambda>e. write_y (case e of (rel_y, v) \<Rightarrow> (x, rel_y, z, v)) div 16) = (\<lambda>(y, v). y div 16)" by (simp_all add: fun_eq_iff split_def)
  have "\<forall>e \<in> set es. write_in_range g (length vss) (case e of (rel_y, v) \<Rightarrow> (x, rel_y, z, v))" using assms(2) by auto
  then show ?thesis using column.groups_write_all [OF assms(1), of es x z] unfolding write_column_blocks_def f by simp
qed

lemma sections_reach_ok: "sections_reach g K S vss \<Longrightarrow> sections_ok g K S vss"
proof (induction rule: sections_reach.induct)
  case (owned ss vss K S)
  then show ?case using from_owned_ok [of ss vss g K] section_start_ok by fastforce
next
  case (set_one K S vss x y z v S')
  then show ?case using set_relative_block_ok [OF set_one.IH set_one.hyps(2)] by (metis option.inject)
next
  case (set_generation K S vss x y z v S')
  then show ?case using set_relative_generation_ok [OF set_generation.IH set_generation.hyps(2)] by (metis option.inject)
next
  case (tracked_batch K S vss es S')
  then show ?case using batch_ok(1) [OF tracked_batch.IH tracked_batch.hyps(2)] by auto
next
  case (raw_batch K S vss es S')
  then show ?case using batch_ok(2) [OF raw_batch.IH raw_batch.hyps(2)] by auto
next
  case (column K S vss es x z S')
  then show ?case using column_ok [OF column.IH column.hyps(2)] by auto
next
  case (biome K S vss i sample S')
  then show ?case using write_biomes_ok by blast
next
  case (finalize K S vss i S')
  then have "i < length vss" using sections_okD(1) [OF finalize.IH] by (simp add: guard_finalize_def write_section_def split: if_splits)
  then show ?case using guard_recount_ok(2) [OF finalize.IH] finalize.hyps(2) by fastforce
next
  case (recalculate K S vss i S')
  then have "i < length vss" using sections_okD(1) [OF recalculate.IH] by (simp add: guard_recalculate_def write_section_def split: if_splits)
  then show ?case using guard_recount_ok(1) [OF recalculate.IH] recalculate.hyps(2) by fastforce
qed

section \<open>Reading back\<close>

lemma get_relative_block_value:
  assumes "sections_ok g K S vss" "x < 16" "z < 16" "y div 16 < length vss"
  shows "get_relative_block x y z S = Some (Some (block_at vss x y z))"
proof -
  note c = section_okD(1,2) [OF sections_okD(2) [OF assms(1,4)]]
  from container_get_value [OF c(1) assms(2) _ assms(3), of "y mod 16"] c(2)
  show ?thesis using assms(4) sections_okD(1) [OF assms(1)] by (simp add: get_relative_block_def block_at_def)
qed

definition last_write :: "BlockWrite list \<Rightarrow> nat \<Rightarrow> nat \<Rightarrow> nat \<Rightarrow> u16 option" where
  "last_write es x y z = map_of (rev (map (\<lambda>(x, y, z, v). ((x, y, z), v)) es)) (x, y, z)"

lemma radix16: "x < 16 \<Longrightarrow> x' < 16 \<Longrightarrow> k * 16 + x = k' * 16 + x' \<longleftrightarrow> k = k' \<and> x = x'" for x x' k k' :: nat
proof -
  assume "x < 16" "x' < 16"
  then have "(k * 16 + x) mod 16 = x" "(k * 16 + x) div 16 = k" "(k' * 16 + x') mod 16 = x'" "(k' * 16 + x') div 16 = k'" by simp_all
  then show ?thesis by metis
qed

lemma block_at_put:
  assumes "x < 16" "z < 16" "y div 16 < length vss" "x' < 16" "z' < 16" "\<forall>vs \<in> set vss. length vs = 4096"
  shows "block_at (put_block (x, y, z, v) vss) x' y' z' = (if (x', y', z') = (x, y, z) then v else block_at vss x' y' z')"
proof -
  have i: "cell_index 16 x (y mod 16) z < length (vss ! (y div 16))" using assms by (simp add: cell_index_def)
  have "cell_index 16 x (y mod 16) z = cell_index 16 x' (y' mod 16) z' \<longleftrightarrow> x' = x \<and> y' mod 16 = y mod 16 \<and> z' = z"
    unfolding cell_index_def radix16 [OF assms(1,4)] radix16 [OF assms(2,5)] by auto
  moreover have "y' = y \<longleftrightarrow> y' div 16 = y div 16 \<and> y' mod 16 = y mod 16" by (metis div_mult_mod_eq)
  ultimately show ?thesis using i assms(3) by (auto simp: block_at_def nth_list_update)
qed

lemma length_put_block: "\<forall>vs \<in> set vss. length vs = 4096 \<Longrightarrow> \<forall>vs \<in> set (put_block e vss). length vs = 4096"
proof -
  assume a: "\<forall>vs \<in> set vss. length vs = 4096"
  have "length (put_block e vss ! i) = 4096" if "i < length vss" for i
    using a that by (cases e; cases "write_y e div 16 < length vss") (auto simp: nth_list_update list_update_beyond)
  then show ?thesis by (cases e) (simp add: all_set_conv_all_nth)
qed

lemma block_at_puts:
  assumes "\<forall>e \<in> set es. write_in_range g (length vss) e" "x < 16" "z < 16" "\<forall>vs \<in> set vss. length vs = 4096"
  shows "block_at (put_blocks es vss) x y z = (case last_write es x y z of Some v \<Rightarrow> v | None \<Rightarrow> block_at vss x y z)"
  using assms
proof (induction es arbitrary: vss)
  case (Cons e es)
  obtain a b c v where e: "e = (a, b, c, v)" by (cases e) auto
  have "length (put_block e vss) = length vss" by (simp add: e)
  then have "block_at (put_blocks es (put_block e vss)) x y z =
      (case last_write es x y z of Some v \<Rightarrow> v | None \<Rightarrow> block_at (put_block e vss) x y z)"
    using Cons length_put_block by (intro Cons.IH) auto
  moreover have "block_at (put_block e vss) x y z = (if (x, y, z) = (a, b, c) then v else block_at vss x y z)"
    unfolding e using Cons.prems e by (intro block_at_put) auto
  ultimately show ?case by (simp add: put_blocks_def e last_write_def map_add_def split: option.splits)
qed (simp add: put_blocks_def last_write_def)

lemma section_lengths: "sections_ok g K S vss \<Longrightarrow> \<forall>vs \<in> set vss. length vs = 4096"
  using sections_okD(2) section_okD(3) by (fastforce simp: in_set_conv_nth)

lemma cells_after_batch:
  assumes "sections_ok g K S vss" "\<forall>e \<in> set es. write_in_range g (length vss) e" "sections_ok g K' S' (put_blocks es vss)"
    "x < 16" "z < 16" "y div 16 < length vss"
  shows "get_relative_block x y z S' = Some (Some (case last_write es x y z of Some v \<Rightarrow> v | None \<Rightarrow> block_at vss x y z))"
  using get_relative_block_value [OF assms(3-5)] block_at_puts [OF assms(2,4,5) section_lengths [OF assms(1)]] assms(6) by simp


text \<open>A column read reports the blocks of the column from the bottom up, whatever the buffer held.\<close>

lemma copy_columns_value:
  assumes "list_all2 (\<lambda>s vs. section_ok g False s vs) ss vss" "x < 16" "z < 16" "length buffer = length ss * 16"
  shows "copy_columns x z ss buffer = Some (concat (map (\<lambda>vs. map (\<lambda>y. vs ! cell_index 16 x y z) [0..<16]) vss))"
  using assms(1,4)
proof (induction arbitrary: buffer rule: list_all2_induct)
  case (Cons s ss vs vss)
  have "copy_column_into 16 (states s) x z (take 16 buffer) = Some (map (\<lambda>y. vs ! cell_index 16 x y z) [0..<16])"
    using copy_column_value [OF section_okD(1) [OF Cons.hyps(1)] assms(2,3), of "take 16 buffer"] section_okD(2) [OF Cons.hyps(1)] Cons.prems
    by simp
  then show ?case using Cons.IH [of "drop 16 buffer"] Cons.prems by simp
qed simp

lemma concat_columns:
  "concat (map (\<lambda>vs. map (\<lambda>y. vs ! cell_index 16 x y z) [0..<16]) vss) = map (\<lambda>y. block_at vss x y z) [0..<length vss * 16]"
proof (induction vss rule: rev_induct)
  case (snoc vs vss)
  have "map (\<lambda>y. block_at (vss @ [vs]) x y z) [0..<length vss * 16] = map (\<lambda>y. block_at vss x y z) [0..<length vss * 16]"
    by (simp add: block_at_def nth_append less_mult_imp_div_less)
  moreover have "map (\<lambda>y. block_at (vss @ [vs]) x y z) [length vss * 16..<length vss * 16 + 16] = map (\<lambda>y. vs ! cell_index 16 x y z) [0..<16]"
    by (intro nth_equalityI) (simp_all add: block_at_def nth_append)
  ultimately show ?case using snoc upt_add_eq_append [of 0 "length vss * 16" 16] by (simp add: add.commute)
qed simp

lemma read_column_value:
  assumes "sections_ok g K S vss" "x < 16" "z < 16"
  shows "read_column_into x z buffer S = Some (map (\<lambda>y. block_at vss x y z) [0..<length vss * 16])"
proof -
  have "list_all2 (\<lambda>s vs. section_ok g False s vs) (section_list S) vss"
    using sections_okD(1) [OF assms(1)] section_ok_less [OF sections_okD(2) [OF assms(1)], of _ False]
    by (auto simp: list_all2_conv_all_nth)
  from copy_columns_value [OF this assms(2,3)] show ?thesis
    unfolding read_column_into_def Let_def concat_columns by auto
qed

section \<open>The cached values\<close>

lemma counted_value: "length vs = 4096 \<Longrightarrow> unat (counted f vs) = length (filter f vs)"
  using length_filter_le [of f vs] by (simp add: counted_def unat_of_nat_small)

lemma counters_value:
  assumes "section_ok g True s vs" "\<not> is_building s"
  shows "unat (non_empty_count s) = length (filter (non_air g) vs)" "unat (fluid_count s) = length (filter (has_trait counts_fluid g) vs)"
    "unat (ticking_block_count s) = length (filter (has_trait counts_ticking_block g) vs)"
    "unat (ticking_fluid_count s) = length (filter (has_trait counts_ticking_fluid g) vs)"
  using assms counted_value [OF section_okD(3) [OF assms(1)]] by (auto simp: section_ok_def counters_ok_def counters_of_def)

lemma some_counted: "length (filter f vs) = 0 \<longleftrightarrow> (\<forall>v \<in> set vs. \<not> f v)"
  by (simp add: filter_empty_conv)

lemma cached_flags:
  assumes "section_ok g True s vs" "\<not> is_building s"
  shows "section_is_empty s \<longleftrightarrow> (\<forall>v \<in> set vs. \<not> non_air g v)" "section_has_fluid s \<longleftrightarrow> (\<exists>v \<in> set vs. has_trait counts_fluid g v)"
    "is_randomly_ticking s \<longleftrightarrow> (\<exists>v \<in> set vs. has_trait counts_ticking_block g v \<or> has_trait counts_ticking_fluid g v)"
proof -
  note c = counters_value [OF assms]
  have z: "w = 0 \<longleftrightarrow> unat w = 0" "w > 0 \<longleftrightarrow> unat w \<noteq> 0" for w :: u16 by (simp_all add: unat_eq_0 word_gt_0)
  show "section_is_empty s \<longleftrightarrow> (\<forall>v \<in> set vs. \<not> non_air g v)" "section_has_fluid s \<longleftrightarrow> (\<exists>v \<in> set vs. has_trait counts_fluid g v)"
    unfolding section_is_empty_def section_has_fluid_def z c some_counted by blast+
  show "is_randomly_ticking s \<longleftrightarrow> (\<exists>v \<in> set vs. has_trait counts_ticking_block g v \<or> has_trait counts_ticking_fluid g v)"
    unfolding is_randomly_ticking_def is_randomly_ticking_blocks_def is_randomly_ticking_fluids_def z c some_counted by blast
qed

section \<open>Light sources\<close>

lemma map_panic_all: "\<forall>x \<in> set xs. f x = Some (h x) \<Longrightarrow> map_panic f xs = Some (map h xs)"
  by (induction xs) auto

definition light_position :: "i32 \<Rightarrow> i32 \<Rightarrow> i32 \<Rightarrow> nat \<Rightarrow> BlockPos" where
  "light_position min_x min_y min_z k = BlockPos (min_x + of_nat (k mod 16)) (min_y + of_nat (k div 256)) (min_z + of_nat (k div 16 mod 16))"

lemma append_light_sources_value:
  assumes "section_ok g True s vs" "\<not> is_building s" "\<forall>v. \<not> non_air g v \<longrightarrow> state_light_emission g v = 0"
  shows "append_block_light_sources g a b c s =
    Some (map (light_position a b c) (filter (\<lambda>k. state_light_emission g (vs ! k) \<noteq> 0) [0..<4096]))"
proof (cases "maybe_has_block_light_sources g s")
  case True
  note ok = section_okD [OF assms(1)]
  have "map_panic (\<lambda>k. map_option (\<lambda>state. (k, state)) (container_get_at_index 16 (states s) k)) [0..<16 * 16 * 16] =
      Some (map (\<lambda>k. (k, vs ! k)) [0..<16 * 16 * 16])"
    using container_get_at_index_value [OF ok(1)] ok(2) by (intro map_panic_all) simp
  moreover have m: "and k 15 = k mod 16" for k :: nat
    using take_bit_eq_mask [of 4 k] by (simp add: take_bit_eq_mod mask_eq_exp_minus_1)
  moreover have "drop_bit 8 k = k div 256" "and (drop_bit 4 k) 15 = k div 16 mod 16" for k :: nat
    unfolding m by (simp_all add: drop_bit_eq_div)
  ultimately show ?thesis using True
    by (simp add: append_block_light_sources_def filter_map comp_def light_position_def)
next
  case False
  note ok = section_okD [OF assms(1)]
  have "state_light_emission g v = 0" if "v \<in> set vs" for v
    using False that assms(3) cached_flags(1) [OF assms(1,2)] maybe_has_value [OF ok(1)] ok(2)
    by (auto simp: maybe_has_block_light_sources_def word_gt_0)
  then have "state_light_emission g (vs ! k) = 0" if "k < 4096" for k using that ok(3) by simp
  then show ?thesis using False by (simp add: append_block_light_sources_def filter_False)
qed

text \<open>The lighting engine gets every light source of the chunk, in the order of sections and cells, once.\<close>

lemma block_light_sources_value:
  assumes "sections_ok g K S vss" "{..<length vss} \<subseteq> K" "\<forall>s \<in> set (section_list S). \<not> is_building s" "\<forall>v. \<not> non_air g v \<longrightarrow> state_light_emission g v = 0"
  shows "block_light_sources g pos min_y S = Some (concat (map (\<lambda>i.
    map (light_position (chunk_x pos * 16) (min_y + of_nat (i * 16)) (chunk_z pos * 16))
      (filter (\<lambda>k. state_light_emission g (vss ! i ! k) \<noteq> 0) [0..<4096])) [0..<length vss]))"
proof -
  have e: "enumerate 0 (section_list S) = map (\<lambda>i. (i, section_list S ! i)) [0..<length vss]"
    using sections_okD(1) [OF assms(1)] by (intro nth_equalityI) (simp_all add: nth_enumerate_eq)
  have "append_block_light_sources g (chunk_x pos * 16) (min_y + of_nat (i * 16)) (chunk_z pos * 16) (section_list S ! i) =
      Some (map (light_position (chunk_x pos * 16) (min_y + of_nat (i * 16)) (chunk_z pos * 16))
        (filter (\<lambda>k. state_light_emission g (vss ! i ! k) \<noteq> 0) [0..<4096]))" if "i < length vss" for i
  proof -
    have "section_ok g True (section_list S ! i) (vss ! i)" using section_ok_less [OF sections_okD(2) [OF assms(1) that]] assms(2) that by blast
    from append_light_sources_value [OF this _ assms(4)] show ?thesis using assms(3) sections_okD(1) [OF assms(1)] that by simp
  qed
  then show ?thesis unfolding block_light_sources_def e
    by (subst map_panic_all [where h = "\<lambda>(i, _). map (light_position (chunk_x pos * 16) (min_y + of_nat (i * 16)) (chunk_z pos * 16))
        (filter (\<lambda>k. state_light_emission g (vss ! i ! k) \<noteq> 0) [0..<4096])"]) (auto simp: comp_def)
qed

section \<open>An example\<close>

text \<open>A chunk of two sections over the small registry; state 3 is the lamp state that ticks randomly.\<close>

definition demo_info :: StateInfo where
  "demo_info = \<lparr>info_registry = demo_blocks, air_state = 0, cave_air_state = 100, void_air_state = 101, plains_biome = 40\<rparr>"

lemma demo_metadata:
  "get_ticking_metadata demo_blocks 0 = Some (metadata_new demo_fluid False True)"
  "get_ticking_metadata demo_blocks 3 = Some (metadata_new demo_fluid True False)"
  by (simp_all add: get_ticking_metadata_def demo_blocks_def block_register_def block_registry_new_def registry_new_def register_def
    Let_def state_count_def demo_lamp_def demo_block_def vanilla_def block_ticking_metadata_def state_value_def upt_rec nth_opt_def)

lemma demo_traits:
  "plain_air demo_info 0" "3 \<in> known_states demo_info" "has_trait counts_ticking_block demo_info 3"
  by (auto simp: plain_air_def known_states_def is_stable_vanilla_air_def state_is_air_def has_trait_def block_state_section_counts_def
    demo_info_def demo_metadata metadata_new_flags demo_fluid_def fluid_state_is_empty_def)

definition demo_sections :: Sections where
  "demo_sections = the (from_owned [new_empty demo_info, new_empty demo_info])"

lemma demo_sections_reach:
  "section_list demo_sections = [new_empty demo_info, new_empty demo_info]"
  "sections_reach demo_info {0, 1} demo_sections [replicate 4096 0, replicate 4096 0]"
proof -
  let ?ss = "[new_empty demo_info, new_empty demo_info]" and ?vss = "[replicate 4096 0, replicate 4096 0 :: u16 list]"
  have l: "length ?ss = length ?vss" by simp
  have s: "\<forall>i < length ?vss. section_start demo_info (i \<in> {0, 1}) (?ss ! i) (?vss ! i)"
    using section_start.empty [OF demo_traits(1)] by (simp add: less_Suc_eq all_conj_distrib)
  then have "\<forall>i < length ?vss. section_ok demo_info (i \<in> {0, 1}) (?ss ! i) (?vss ! i)" using section_start_ok by blast
  from from_owned_ok [OF l this] show "section_list demo_sections = ?ss" "sections_reach demo_info {0, 1} demo_sections ?vss"
    using sections_reach.owned [OF l s] by (auto simp: demo_sections_def)
qed

text \<open>C4: In every state of a chunk's sections reached from loaded or empty sections by writes, batches,
  biome writes and recounts, the lock-free index holds exactly the sections whose own counters tick
  randomly and its search finds the first of them. In a section that was counted since it was loaded
  (or has entered building mode, which ends with a recount) and is not in building mode, the four
  counters are the numbers of blocks with the trait, so such a section is visited by random ticks
  exactly when it holds a block or fluid that ticks.
\<close>

theorem section_caches_exact:
  assumes "sections_reach g K S vss" "i < length vss"
  shows "holder_is_randomly_ticking i S = Some (is_randomly_ticking (section_list S ! i))
    \<and> tick_bits_next i (randomly_ticking_sections S) = Some (find (\<lambda>j. is_randomly_ticking (section_list S ! j)) [i..<length vss])
    \<and> (i \<in> K \<and> \<not> is_building (section_list S ! i) \<longrightarrow>
        unat (non_empty_count (section_list S ! i)) = length (filter (non_air g) (vss ! i))
      \<and> unat (fluid_count (section_list S ! i)) = length (filter (has_trait counts_fluid g) (vss ! i))
      \<and> unat (ticking_block_count (section_list S ! i)) = length (filter (has_trait counts_ticking_block g) (vss ! i))
      \<and> unat (ticking_fluid_count (section_list S ! i)) = length (filter (has_trait counts_ticking_fluid g) (vss ! i))
      \<and> (section_is_empty (section_list S ! i) \<longleftrightarrow> (\<forall>v \<in> set (vss ! i). \<not> non_air g v))
      \<and> (is_randomly_ticking (section_list S ! i) \<longleftrightarrow>
          (\<exists>v \<in> set (vss ! i). has_trait counts_ticking_block g v \<or> has_trait counts_ticking_fluid g v)))"
proof -
  note ok = sections_reach_ok [OF assms(1)]
  have b: "tick_bits_ok (randomly_ticking_sections S)" "section_count (randomly_ticking_sections S) = length vss"
    "\<forall>j < length vss. tick_bit (randomly_ticking_sections S) j \<longleftrightarrow> is_randomly_ticking (section_list S ! j)"
    using ok by (simp_all add: sections_ok_def)
  have "first_from (tick_bit (randomly_ticking_sections S)) i (length vss) = find (\<lambda>j. is_randomly_ticking (section_list S ! j)) [i..<length vss]"
    unfolding first_from_def using b(3) by (intro find_cong) simp_all
  then have "tick_bits_next i (randomly_ticking_sections S) = Some (find (\<lambda>j. is_randomly_ticking (section_list S ! j)) [i..<length vss])"
    using tick_bits.next_law [OF b(1), of i] b(2) by simp
  moreover have "holder_is_randomly_ticking i S = Some (is_randomly_ticking (section_list S ! i))"
    using tick_bits_contains_bit [OF b(1)] b(2,3) assms(2) by (simp add: holder_is_randomly_ticking_def)
  moreover have "section_ok g True (section_list S ! i) (vss ! i)" if "i \<in> K"
    using section_ok_less [OF sections_okD(2) [OF ok assms(2)]] that by blast
  ultimately show ?thesis using counters_value [of g "section_list S ! i" "vss ! i"] cached_flags [of g "section_list S ! i" "vss ! i"] by blast
qed

theorem section_caches_exact_witness:
  "\<exists>S. set_relative_block demo_info 3 20 5 3 demo_sections = Some S \<and> holder_is_randomly_ticking 1 S = Some True
    \<and> unat (ticking_block_count (section_list S ! 1)) = 1"
proof -
  have r: "write_in_range demo_info (length [replicate 4096 0, replicate 4096 0 :: u16 list]) (3, 20, 5, 3)"
    using demo_traits(2) by simp
  obtain S where S: "set_relative_block demo_info 3 20 5 3 demo_sections = Some S" "\<not> is_building (section_list S ! (20 div 16))"
    using set_relative_block_ok [OF sections_reach_ok [OF demo_sections_reach(2)] r] .
  note reach = sections_reach.set_one [OF demo_sections_reach(2) r S(1)]
  let ?vs = "(replicate 4096 (0 :: u16))[cell_index 16 3 4 5 := 3]"
  have k: "cell_index 16 3 4 5 < length (replicate 4096 (0 :: u16))" by (simp add: cell_index_def)
  have t: "length (filter (has_trait counts_ticking_block demo_info) ?vs) = 1"
    using update_count [OF k, of "has_trait counts_ticking_block demo_info" 3] demo_traits(1,3) k by (simp add: plain_air_def)
  then have "\<exists>v \<in> set ?vs. has_trait counts_ticking_block demo_info v" by (metis filter_False length_0_conv zero_neq_one)
  then show ?thesis using section_caches_exact [OF reach, of 1] S t by (auto simp: nth_list_update)
qed



text \<open>C10: A batch of writes succeeds on both paths, tracked and through building mode, however its entries
  are grouped into guards, and afterwards every block of the chunk is the last one written there or the
  old one.
\<close>

theorem batch_last_write_wins:
  assumes "sections_reach g K S vss" "\<forall>e \<in> set es. write_in_range g (length vss) e"
  shows "\<exists>S1 S2. write_tracked_block_batch g es S = Some S1 \<and> write_block_batch es S = Some S2
    \<and> sections_reach g K S1 (put_blocks es vss) \<and> sections_reach g (K \<union> write_sections es) S2 (put_blocks es vss)
    \<and> (\<forall>x y z. x < 16 \<and> z < 16 \<and> y div 16 < length vss \<longrightarrow>
        get_relative_block x y z S = Some (Some (block_at vss x y z))
      \<and> get_relative_block x y z S1 = Some (Some (case last_write es x y z of Some v \<Rightarrow> v | None \<Rightarrow> block_at vss x y z))
      \<and> get_relative_block x y z S2 = Some (Some (case last_write es x y z of Some v \<Rightarrow> v | None \<Rightarrow> block_at vss x y z)))"
proof -
  note ok = sections_reach_ok [OF assms(1)]
  obtain S1 S2 where S: "write_tracked_block_batch g es S = Some S1" "sections_ok g K S1 (put_blocks es vss)"
    "write_block_batch es S = Some S2" "sections_ok g (K \<union> write_sections es) S2 (put_blocks es vss)"
    using batch_ok [OF ok assms(2)] by blast
  show ?thesis
    using S(1,3) sections_reach.tracked_batch [OF assms S(1)] sections_reach.raw_batch [OF assms S(3)]
      get_relative_block_value [OF ok] cells_after_batch [OF ok assms(2) S(2)] cells_after_batch [OF ok assms(2) S(4)] by blast
qed

theorem batch_last_write_wins_witness:
  "\<exists>S1 S2. write_tracked_block_batch demo_info [(3, 20, 5, 3), (0, 1, 0, 3), (3, 20, 5, 0), (1, 20, 5, 3)] demo_sections = Some S1
    \<and> write_block_batch [(3, 20, 5, 3), (0, 1, 0, 3), (3, 20, 5, 0), (1, 20, 5, 3)] demo_sections = Some S2
    \<and> get_relative_block 3 20 5 S1 = Some (Some 0) \<and> get_relative_block 1 20 5 S2 = Some (Some 3)"
proof -
  let ?es = "[(3, 20, 5, 3), (0, 1, 0, 3), (3, 20, 5, 0), (1, 20, 5, 3)]"
  have "0 \<in> known_states demo_info" using demo_traits(1) by (auto simp: plain_air_def known_states_def)
  then have "\<forall>e \<in> set ?es. write_in_range demo_info (length [replicate 4096 0, replicate 4096 0 :: u16 list]) e"
    using demo_traits(2) by simp
  from batch_last_write_wins [OF demo_sections_reach(2) this] obtain S1 S2
    where S: "write_tracked_block_batch demo_info ?es demo_sections = Some S1" "write_block_batch ?es demo_sections = Some S2"
      and cells: "\<forall>x y z. x < 16 \<and> z < 16 \<and> y div 16 < length [replicate 4096 0, replicate 4096 0 :: u16 list] \<longrightarrow>
        get_relative_block x y z S1 = Some (Some (case last_write ?es x y z of Some v \<Rightarrow> v | None \<Rightarrow> block_at [replicate 4096 0, replicate 4096 0] x y z))
      \<and> get_relative_block x y z S2 = Some (Some (case last_write ?es x y z of Some v \<Rightarrow> v | None \<Rightarrow> block_at [replicate 4096 0, replicate 4096 0] x y z))"
    by blast
  show ?thesis using S spec [OF spec [OF spec [OF cells, of 3], of 20], of 5] spec [OF spec [OF spec [OF cells, of 1], of 20], of 5]
    by (simp add: last_write_def)
qed


section \<open>The wire form\<close>

text \<open>What a client reads: the two counters, the cells and the biomes.\<close>

definition section_read :: "Cursor \<Rightarrow> (u16 \<times> u16 \<times> nat list \<times> nat list) reading" where
  "section_read bs = read_then (int_read bs) (\<lambda>non_empty rest. read_then (int_read rest) (\<lambda>fluid rest.
    read_then (container_read 16 rest) (\<lambda>cells rest. read_then (container_read 4 rest) (\<lambda>bios rest.
      Inr ((non_empty, fluid, cells, bios), rest)))))"

text \<open>C21: A section that was counted since it was loaded and is outside building mode, whatever writes
  led to it, is written without a panic, and a client reads from the bytes the numbers of its non-air
  blocks and of its fluids, its blocks and its biomes.
\<close>

theorem section_wire_round_trip:
  assumes "sections_reach g K S vss" "i < length vss" "i \<in> K" "\<not> is_building (section_list S ! i)"
    "container_reach 4 (biomes (section_list S ! i)) bios" "as_building_slice (biomes (section_list S ! i)) = None"
    "table_clean t" "registered 16 r (vss ! i)" "registered 4 r bios"
  shows "\<exists>bytes. section_write r (section_list S ! i) t = Some (bytes, t)
    \<and> (\<forall>rest. section_read (bytes @ rest) = Inr ((of_nat (length (filter (non_air g) (vss ! i))),
        of_nat (length (filter (has_trait counts_fluid g) (vss ! i))), map unat (vss ! i), map unat bios), rest))"
proof -
  note ok = sections_okD(2) [OF sections_reach_ok [OF assms(1)] assms(2)]
  let ?s = "section_list S ! i"
  have reach: "container_reach 16 (states ?s) (vss ! i)" "as_building_slice (states ?s) = None"
    using ok assms(4) by (simp_all add: section_ok_def is_building_slice)
  obtain bb where bb: "container_write 16 r (states ?s) t = Some (Inr bb, t)"
    "\<forall>rest. container_read 16 (bb @ rest) = Inr (map unat (vss ! i), rest)"
    using container_write_reads [OF _ reach assms(7,8)] by auto
  obtain ib where ib: "container_write 4 r (biomes ?s) t = Some (Inr ib, t)" "\<forall>rest. container_read 4 (ib @ rest) = Inr (map unat bios, rest)"
    using container_write_reads [OF _ assms(5-7,9)] by auto
  have "non_empty_count ?s = of_nat (length (filter (non_air g) (vss ! i)))" "fluid_count ?s = of_nat (length (filter (has_trait counts_fluid g) (vss ! i)))"
    using ok assms(3,4) by (simp_all add: section_ok_def counters_ok_def counters_of_def counted_def)
  then show ?thesis using bb ib by (simp add: section_write_def section_read_def int_read_write)
qed

theorem section_wire_round_trip_witness:
  "\<exists>bytes. section_write \<lparr>next_state_id = 7, biome_count = 65\<rparr> (section_list demo_sections ! 0) (replicate INDEX_TABLE_LEN EMPTY_SLOT)
      = Some (bytes, replicate INDEX_TABLE_LEN EMPTY_SLOT)
    \<and> section_read bytes = Inr ((0, 0, replicate 4096 0, replicate 64 40), [])"
proof -
  have c: "length (filter (non_air demo_info) (replicate 4096 0)) = 0" "length (filter (has_trait counts_fluid demo_info) (replicate 4096 0)) = 0"
    using demo_traits(1) by (auto simp: plain_air_def is_stable_vanilla_air_def state_is_air_def has_trait_def block_state_section_counts_def)
  have "container_reach 4 (Homogeneous (40 :: u16)) (replicate 64 40)" using container_reach.filled [of 4 "40 :: u16"] by simp
  then have "\<exists>bytes. section_write \<lparr>next_state_id = 7, biome_count = 65\<rparr> (section_list demo_sections ! 0) (replicate INDEX_TABLE_LEN EMPTY_SLOT)
      = Some (bytes, replicate INDEX_TABLE_LEN EMPTY_SLOT)
    \<and> (\<forall>rest. section_read (bytes @ rest) = Inr ((of_nat (length (filter (non_air demo_info) ([replicate 4096 0, replicate 4096 0] ! 0))),
        of_nat (length (filter (has_trait counts_fluid demo_info) ([replicate 4096 0, replicate 4096 0] ! 0))),
        map unat ([replicate 4096 0, replicate 4096 0 :: u16 list] ! 0), map unat (replicate 64 (40 :: u16))), rest))"
    by (intro section_wire_round_trip [OF demo_sections_reach(2)])
      (simp_all add: demo_sections_reach(1) new_empty_def demo_info_def is_building_def as_building_slice_def table_clean_def registered_def list_all_iff)
  then show ?thesis using c by (auto dest!: spec [of _ "[]"])
qed

end
