(* ===== verification/Spec2Isabelle.thy ===== *)
theory Spec2Isabelle
  imports Tick_World Tracking_World Packet_Stream Chunk_Sections
begin

text \<open>
  Verification library of SteelMC, a Minecraft server written in Rust. It models the parts that
  decide \<^emph>\<open>which\<close> chunks are loaded, simulated and sent to players and \<^emph>\<open>when\<close> scheduled ticks run,
  what chunk sections hold, how blocks are numbered, how values travel over the wire, and the data
  types these parts stand on. All paths are under \<^verbatim>\<open>src/\<close>.

  \<^bold>\<open>How the program's parts interact.\<close> Gameplay submits ticket operations (players joining,
  moving and leaving, portals, ender pearls, chunk requests) to the scheduling coordinator. The
  coordinator applies them to the ticket storage at once and remembers the dirty positions. A
  scheduling pass snapshots the dirty source levels and propagates them through two level
  trackers, one for loading and one for simulation; a chunk's level decides its generation status
  and whether it ticks. Chunks own lists of scheduled ticks; the tick scheduler indexes the heads
  of these lists and collects, per game tick, the due ticks of the active chunks in a fixed order.
  The chunk map tracks the view of each player, keeps the per-chunk index of players and the
  player's tickets in step with it, and hands the chunks of the view to the player's sender, which
  sends them in acknowledged batches. A chunk's blocks are paletted containers in sections, with
  counters, a random tick index and a stable-air certificate kept in step with the writes; block
  states are numbers that the block registry assigns and decodes. Packets are built from serial
  codecs, framed, compressed, encrypted and written to a socket.

  \<^bold>\<open>Conventions.\<close> A machine integer is a word where overflow or bits matter; the \<open>u8\<close> levels and
  distances are natural numbers with their saturation written out. A hash map that the code
  iterates over is an association list, one it only queries is a map; a hash set is a set or the
  list of its elements. A panic or failed assertion is \<open>None\<close> or \<open>Panic\<close>. Operations that
  run under a lock are functions on the locked state; interleavings are sequences of such steps.
  A reader is a function from the remaining bytes to a value and the rest or an error. Code of
  other packages (compression, ciphers, sockets, single precision arithmetic) and the tables the
  build generates are parameters.

  \<^bold>\<open>Foundations.\<close>
  \<^item> \<open>Prelude\<close>: machine integers, \<open>Ordering\<close> and its combinators, \<open>BinaryHeap\<close> and \<open>BTreeSet\<close> with
    their interfaces as the locales \<open>drain_queue\<close> and \<open>ordered_set\<close>.
  \<^item> \<open>Positions\<close> (\<^verbatim>\<open>steel-utils/src/types/position.rs\<close>, \<^verbatim>\<open>packed_position.rs\<close>, \<^verbatim>\<open>direction.rs\<close>,
    \<^verbatim>\<open>axis.rs\<close>): position types, packed encodings and their round trips.
  \<^item> \<open>Identifiers\<close> (\<^verbatim>\<open>steel-utils/src/types/identifier.rs\<close>, \<^verbatim>\<open>steel-registry/src/macros.rs\<close>,
    \<^verbatim>\<open>ticket_type.rs\<close>): identifiers, their parser and printer, and registries.

  \<^bold>\<open>Scheduled ticks\<close> (\<^verbatim>\<open>steel-core/src/world/tick_scheduler/\<close>).
  \<^item> \<open>Tick_List\<close> (\<^verbatim>\<open>list.rs\<close>): one chunk's list; its well-formedness in every reachable state, lists loaded
    with duplicate keys included, draining in order, packing and unpacking.
  \<^item> \<open>Tick_Scheduler\<close> (\<^verbatim>\<open>scheduler.rs\<close>): the deadline index; the invariant \<open>sched_inv\<close> and its
    preservation by registration, scheduling and reconciliation.
  \<^item> \<open>Tick_Collect\<close> (\<^verbatim>\<open>scheduler.rs\<close>, \<^verbatim>\<open>run_batch.rs\<close>): collection of one tick, refined to a merge of the
    per-chunk queues; the run batch.
  \<^item> \<open>Tick_World\<close>: the states a world can reach, and the properties of the whole scheduler.

  \<^bold>\<open>Chunk levels\<close> (\<^verbatim>\<open>steel-core/src/chunk/\<close>).
  \<^item> \<open>Chunk_Level\<close> (\<^verbatim>\<open>status.rs\<close>, \<^verbatim>\<open>chunk_pyramid.rs\<close>, \<^verbatim>\<open>chunk_ticket_manager.rs\<close>): statuses, dependency pyramids,
    ticket levels.
  \<^item> \<open>Chunk_Tracker\<close> (\<^verbatim>\<open>chunk_tracker/mod.rs\<close>): the propagation queue and the tracker.
    \<open>Chunk_Propagation\<close> proves the loop: it ends, and the levels satisfy the relaxation equation.
    \<open>Chunk_Distance\<close> solves that equation by the Chebyshev distance on the 32-bit torus, and
    \<open>Chunk_Pass\<close> states what a pass achieves and reports.

  \<^bold>\<open>Tickets\<close> (\<^verbatim>\<open>steel-core/src/chunk/\<close>).
  \<^item> \<open>Ticket_Storage\<close> (\<^verbatim>\<open>chunk_ticket.rs\<close>, \<^verbatim>\<open>chunk_ticket_storage.rs\<close>,
    \<^verbatim>\<open>steel-registry/src/vanilla_ticket_types.rs\<close>): ticket types, tickets and the storage.
    \<open>Ticket_Map\<close> refines the storage to a map and shows that every mutation reports what it changes;
    \<open>Ticket_Life\<close> treats the expiration ticks of the chunk map (\<^verbatim>\<open>chunk_map/mod.rs\<close>), persistence and the
    built-in types.
  \<^item> \<open>Player_Tickets\<close> (\<^verbatim>\<open>player_ticket_tracker.rs\<close>): the tickets of players. \<open>Player_Coverage\<close> proves that the
    coverage counts are exact; the locale \<open>counted_slots\<close> is the reference-counting contract that
    loading coverage and request leases share.
  \<^item> \<open>Chunk_Scheduler\<close> (\<^verbatim>\<open>chunk_scheduler.rs\<close>): ingress and coordinator. \<open>Chunk_Ingress\<close> proves the
    ingress invariant; \<open>Chunk_Coordinator\<close> the invariant of the coordinator with a pass in flight,
    the reachable states, and the end-to-end properties.

  \<^bold>\<open>Views and delivery\<close> (\<^verbatim>\<open>steel-core/src/\<close>).
  \<^item> \<open>Chunk_View\<close> (\<^verbatim>\<open>chunk/player_chunk_view.rs\<close>): views; their difference is exact.
  \<^item> \<open>Chunk_Sender\<close> (\<^verbatim>\<open>player/chunk_sender.rs\<close>, \<^verbatim>\<open>chunk/chunk_holder.rs\<close>): pacing, the three phases of a batch
    and the readiness word. \<open>Chunk_Delivery\<close> proves the resolution of a batch, that readiness never
    repeats, and the books of one sender.
  \<^item> \<open>Player_Tracking\<close> (\<^verbatim>\<open>chunk/chunk_map/player_tracking.rs\<close>, \<^verbatim>\<open>world/player_index/area.rs\<close>): the updates that
    keep view, index, sender and coordinator in step. \<open>Tracking_Books\<close> treats each book alone;
    \<open>Tracking_World\<close> their agreement in every reachable state, with batches in flight and the calls of
    a removal as separate steps. Index and client are known to agree with the view unless an update
    of the player came between the calls of the player's removal, which nothing in the code excludes.

  \<^bold>\<open>The wire\<close> (\<^verbatim>\<open>steel-utils/src/\<close>, \<^verbatim>\<open>steel-protocol/src/\<close>).
  \<^item> \<open>Wire\<close>, \<open>Var_Int\<close>, \<open>Utf8\<close> and \<open>Serial\<close> (\<^verbatim>\<open>codec/\<close>, \<^verbatim>\<open>serial/\<close>, \<^verbatim>\<open>front_vec.rs\<close>): integers, variable-length
    integers, the lossy string decoder and the serial layer. The locales \<open>wire_codec\<close> and
    \<open>length_prefix\<close> are the contract of a codec and of a length prefix; they are interpreted on the
    codecs of vectors, strings, options, identifiers and positions, which inherit the round trip.
  \<^item> \<open>Packet_Frame\<close> (\<^verbatim>\<open>packet_traits.rs\<close>, \<^verbatim>\<open>packet_reader.rs\<close>): framing with compression and size checks;
    neither direction panics. \<open>Packet_Stream\<close> (\<^verbatim>\<open>packet_writer.rs\<close>, \<^verbatim>\<open>utils.rs\<close>): the encrypted connection, whose
    packets arrive whatever the socket accepts or delivers at a time, as long as their bodies are within the
    size the reader admits, which the encoder does not enforce when it compresses.

  \<^bold>\<open>Blocks\<close> (\<^verbatim>\<open>steel-registry/src/blocks/\<close>).
  \<^item> \<open>Block_Property\<close> (\<^verbatim>\<open>properties.rs\<close>): boolean, integer and enum properties and their values.
  \<^item> \<open>State_Encoding\<close> (\<^verbatim>\<open>mod.rs\<close>): the 16-bit loops that number the states of a block, against mixed radix
    numbers.
  \<^item> \<open>Block_Registry\<close> (\<^verbatim>\<open>mod.rs\<close>, \<^verbatim>\<open>steel-registry/src/fluid/mod.rs\<close>): registration, property reads, writes and copies,
    ticking metadata; the invariant \<open>registry_ok\<close> and the properties of every registry built from
    blocks with distinct keys, as the generated table has them.

  \<^bold>\<open>Chunk sections\<close> (\<^verbatim>\<open>steel-core/src/chunk/\<close>).
  \<^item> \<open>Paletted_Container\<close> (\<^verbatim>\<open>paletted_container.rs\<close>): containers against the list of their cells, with exact
    palette counts. \<open>Palette_Encode\<close> (\<^verbatim>\<open>paletted_container/encode.rs\<close>): the network form and its reader.
  \<^item> \<open>Section_Index\<close> (\<^verbatim>\<open>section.rs\<close>): the random tick bits; the locale \<open>tick_index\<close> is their contract.
  \<^item> \<open>Stable_Air\<close> (\<^verbatim>\<open>section.rs\<close>): the certificate of immutable air as bit rows.
  \<^item> \<open>Chunk_Section\<close> (\<^verbatim>\<open>section.rs\<close>): one section; its invariant \<open>section_ok\<close> and the writes that keep it.
  \<^item> \<open>Chunk_Sections\<close> (\<^verbatim>\<open>section.rs\<close>): the sections of a chunk behind write guards; the locale \<open>batch_writer\<close> is
    what the batch loop needs of its body. Index, certificate and reads are exact in every reachable
    state, the counters and the wire form from the first count of a loaded section on.

  \<^bold>\<open>Fuel and bounds.\<close> The propagation loop of the tracker is a partial function whose value \<open>None\<close>
  is non-termination; it is proved to return from every reachable state. All other loops are
  structural or have a termination proof. View distances are at most 255, the range of \<open>u8\<close>.

  \<^bold>\<open>Not modelled.\<close> Login, authentication, files and sockets are input and output; packet structures and
  the tables of blocks, items and entities are generated. Entities, physics, noise, shapes and
  world generation compute with floating point numbers. Block and item behaviour, inventories,
  commands and the remaining world state are separate subsystems. Lighting and region files work
  on raw memory. Debug assertions of the sections and timing records have no effect in a release
  build, whose wrapping arithmetic the section counters have.
\<close>

end
